(* ===== verification/Prelude.thy ===== *)
theory Prelude
  imports Main "HOL-Library.Word"
begin

text \<open>
  Shared vocabulary of the development: the machine integers of the Rust sources, the
  integer operations of Rust's core library that the sources call (saturating, checked and
  byte-order conversions), fixed arrays of slots searched from the front, and the named
  collections the component theories feed to the simplifier.

  An unsigned integer of \<open>w\<close> bits is a \<open>w word\<close> read by \<open>unat\<close>; a signed one is the same word
  read by \<open>sint\<close>. A \<open>usize\<close> that counts or indexes elements of an in-memory array is a \<open>nat\<close>:
  it is bounded by the length of that array.
\<close>

unbundle bit_operations_syntax

type_synonym u8 = "8 word"
type_synonym u16 = "16 word"
type_synonym u32 = "32 word"
type_synonym u64 = "64 word"
type_synonym u128 = "128 word"
type_synonym i8 = "8 word"
type_synonym i16 = "16 word"
type_synonym i32 = "32 word"
type_synonym i64 = "64 word"

named_theorems unat_ops
  \<comment> \<open>integer readings of the saturating and byte operations\<close>
named_theorems slot_simps
  \<comment> \<open>facts on slot arrays: lookups after updates, counts of occupied slots\<close>

section \<open>Saturating arithmetic\<close>

definition saturating_add :: "'a::len word \<Rightarrow> 'a word \<Rightarrow> 'a word" where
  "saturating_add a b = (if unat a + unat b < 2 ^ LENGTH('a) then a + b else - 1)"

definition saturating_sub :: "'a::len word \<Rightarrow> 'a word \<Rightarrow> 'a word" where
  "saturating_sub a b = (if a < b then 0 else a - b)"

definition saturating_mul :: "'a::len word \<Rightarrow> 'a word \<Rightarrow> 'a word" where
  "saturating_mul a b = (if unat a * unat b < 2 ^ LENGTH('a) then a * b else - 1)"

lemma unat_less_pow [simp]: "unat (w :: 'a::len word) < 2 ^ LENGTH('a)"
  by (rule unsigned_less)

lemma unat_le_pow: "unat (w :: 'a::len word) \<le> 2 ^ LENGTH('a) - 1"
  using unat_less_pow [of w] by linarith

lemma unat_minus_one_eq: "unat (- 1 :: 'a::len word) = 2 ^ LENGTH('a) - 1"
  by (simp add: unsigned_minus_1_eq_mask mask_eq_exp_minus_1)

lemma unat_saturating_add [unat_ops]:
  fixes a b :: "'a::len word"
  shows "unat (saturating_add a b) = min (unat a + unat b) (2 ^ LENGTH('a) - 1)"
proof (cases "unat a + unat b < 2 ^ LENGTH('a)")
  case True
  then have "unat (saturating_add a b) = unat a + unat b"
    by (simp add: saturating_add_def unat_add_lem)
  with True show ?thesis by linarith
next
  case False
  then show ?thesis by (simp add: saturating_add_def unat_minus_one_eq)
qed

lemma unat_saturating_sub [unat_ops]:
  fixes a b :: "'a::len word"
  shows "unat (saturating_sub a b) = unat a - unat b"
  by (auto simp: saturating_sub_def word_less_nat_alt unat_sub_if')

lemma unat_saturating_mul [unat_ops]:
  fixes a b :: "'a::len word"
  shows "unat (saturating_mul a b) = min (unat a * unat b) (2 ^ LENGTH('a) - 1)"
proof (cases "unat a * unat b < 2 ^ LENGTH('a)")
  case True
  then have "unat (saturating_mul a b) = unat a * unat b"
    by (simp add: saturating_mul_def unat_mult_lem)
  with True show ?thesis by linarith
next
  case False
  then show ?thesis by (simp add: saturating_mul_def unat_minus_one_eq)
qed

text \<open>
  A signed operation that saturates computes in the integers and clamps the result into the
  range of the word.
\<close>

definition of_int_sat :: "int \<Rightarrow> 'a::len word" where
  "of_int_sat x = word_of_int
     (max (- (2 ^ (LENGTH('a) - 1))) (min (2 ^ (LENGTH('a) - 1) - 1) x))"

lemma sint_eqD: "sint a = sint b \<Longrightarrow> a = (b :: 'a::len word)"
  by (rule signed_word_eqI)

lemma sint_of_int_range:
  "- (2 ^ (LENGTH('a) - 1)) \<le> x \<Longrightarrow> x < 2 ^ (LENGTH('a) - 1) \<Longrightarrow>
    sint (word_of_int x :: 'a::len word) = x"
  by (simp add: sint_sbintrunc' signed_take_bit_int_eq_self)

text \<open>Shifts read as integers: a left shift that stays in range, an arithmetic right shift.\<close>

lemma sint_push_bit_range:
  fixes w :: "'a::len word"
  assumes "- (2 ^ (LENGTH('a) - 1)) \<le> sint w * 2 ^ n" and "sint w * 2 ^ n < 2 ^ (LENGTH('a) - 1)"
  shows "sint (push_bit n w) = sint w * 2 ^ n"
proof -
  have eq: "push_bit n w = word_of_int (sint w * 2 ^ n)"
    by (simp add: push_bit_eq_mult)
  show ?thesis unfolding eq using assms by (rule sint_of_int_range)
qed

lemma sint_shift_right: "sint (signed_drop_bit n w) = sint w div 2 ^ n"
  by (simp add: sint_signed_drop_bit_eq drop_bit_eq_div)

lemma uint_drop_bit: "uint (drop_bit n (w :: 'a::len word)) = uint w div 2 ^ n"
  by (subst unsigned_drop_bit_eq) (simp add: drop_bit_eq_div bintr_uint)

lemma unat_drop_bit: "unat (drop_bit n (w :: 'a::len word)) = unat w div 2 ^ n"
  by (subst unat_drop_bit_eq) (rule drop_bit_eq_div)

lemma ucast_as_of_int:
  "LENGTH('b) \<le> LENGTH('a) \<Longrightarrow> (ucast (w :: 'a::len word) :: 'b::len word) = word_of_int (sint w)"
  unfolding bit_eq_iff bit_ucast_iff bit_word_of_int_iff bit_sint_iff by auto

lemma sint_of_int_sat [unat_ops]:
  "sint (of_int_sat x :: 'a::len word) =
     max (- (2 ^ (LENGTH('a) - 1))) (min (2 ^ (LENGTH('a) - 1) - 1) x)"
proof -
  let ?m = "max (- (2 ^ (LENGTH('a) - 1))) (min (2 ^ (LENGTH('a) - 1) - 1) x)"
  have "(0::int) < 2 ^ (LENGTH('a) - 1)" by simp
  then have "- (2 ^ (LENGTH('a) - 1)) \<le> ?m" and "?m < 2 ^ (LENGTH('a) - 1)"
    unfolding max_def min_def by (simp, smt (verit))
  then have "sint (word_of_int ?m :: 'a word) = ?m"
    by (simp add: sint_sbintrunc' signed_take_bit_int_eq_self)
  then show ?thesis by (simp add: of_int_sat_def)
qed

lemma of_int_sat_sint [simp]: "of_int_sat (sint w) = (w :: 'a::len word)"
proof -
  have "sint (of_int_sat (sint w) :: 'a word) = sint w"
    using sint_ge [of w] sint_lt [of w] by (simp add: sint_of_int_sat)
  then show ?thesis by (rule signed_word_eqI)
qed

lemma of_int_sat_mono: "x \<le> y \<Longrightarrow> sint (of_int_sat x :: 'a::len word) \<le> sint (of_int_sat y :: 'a word)"
  unfolding sint_of_int_sat by (auto simp: max_def min_def)

lemma of_int_sat_exact:
  assumes "- (2 ^ (LENGTH('a) - 1)) \<le> x" and "x < 2 ^ (LENGTH('a) - 1)"
  shows "sint (of_int_sat x :: 'a::len word) = x"
  using assms unfolding sint_of_int_sat by (auto simp: max_def min_def)

section \<open>Masks\<close>

text \<open>The bytes of a literal buffer.\<close>

lemma nth_bytes:
  "(a # l) ! 0 = a" "(a # b # l) ! 1 = b" "(a # b # c # l) ! 2 = c" "(a # b # c # d # l) ! 3 = d"
  "(a # b # c # d # e # l) ! 4 = e" "(a # b # c # d # e # f # l) ! 5 = f"
  "(a # b # c # d # e # f # g # l) ! 6 = g"
  by simp_all

text \<open>The constant masks of the sources keep the low bits of a word.\<close>

lemma and_mask_take_bit:
  fixes w :: "'a::len word"
  shows "w AND 1 = take_bit 1 w" "w AND 3 = take_bit 2 w" "w AND 7 = take_bit 3 w"
    "w AND 15 = take_bit 4 w" "w AND 31 = take_bit 5 w" "w AND 63 = take_bit 6 w"
    "w AND 127 = take_bit 7 w" "w AND 255 = take_bit 8 w" "w AND 1023 = take_bit 10 w"
    "w AND 4095 = take_bit 12 w"
  by (simp_all add: take_bit_eq_mask mask_eq_exp_minus_1)

text \<open>
  The reading of a packed byte, bit by bit: masks become \<open>take_bit\<close>, then every bit of a shift,
  a cast or a disjunction is a bit of an operand at a linear position.
\<close>

lemmas packed_bits = bit_eq_iff and_mask_take_bit bit_or_iff bit_push_bit_iff bit_ucast_iff
  bit_drop_bit_eq bit_take_bit_iff comp_apply possible_bit_word len_of_numeral_defs

lemma bit_unat_iff: "bit (unat (w :: 'a::len word)) n \<longleftrightarrow> bit w n"
  by (auto simp: bit_unsigned_iff bit_imp_le_length)

lemma unat_take_bit_less: "unat (take_bit n (w :: 'a::len word)) < 2 ^ n"
  by (simp add: unsigned_take_bit_eq)

section \<open>Integers as bytes\<close>

text \<open>
  \<open>to_be_bytes\<close> and \<open>from_be_bytes\<close> of Rust's integers: the most significant byte first. The
  number of bytes is written at each use.
\<close>

primrec be_bytes :: "nat \<Rightarrow> nat \<Rightarrow> u8 list" where
  "be_bytes 0 v = []"
| "be_bytes (Suc n) v = be_bytes n (v div 256) @ [word_of_nat (v mod 256)]"

definition from_be :: "u8 list \<Rightarrow> nat" where
  "from_be bs = foldl (\<lambda>acc b. acc * 256 + unat b) 0 bs"

lemma length_be_bytes [simp]: "length (be_bytes n v) = n"
  by (induction n arbitrary: v) auto

lemma from_be_snoc: "from_be (bs @ [b]) = from_be bs * 256 + unat b"
  by (simp add: from_be_def)

lemma from_be_be_bytes: "v < 256 ^ n \<Longrightarrow> from_be (be_bytes n v) = v"
proof (induction n arbitrary: v)
  case 0
  then show ?case by (simp add: from_be_def)
next
  case (Suc n)
  from Suc.prems have "v div 256 < 256 ^ n"
    by (simp add: less_mult_imp_div_less mult.commute)
  then have "from_be (be_bytes n (v div 256)) = v div 256"
    by (rule Suc.IH)
  moreover have "unat (word_of_nat (v mod 256) :: u8) = v mod 256"
    by (simp add: unat_of_nat)
  ultimately show ?case by (simp add: from_be_snoc)
qed

lemma from_be_less: "from_be bs < 256 ^ length bs"
proof (induction bs rule: rev_induct)
  case Nil
  show ?case by (simp add: from_be_def)
next
  case (snoc b bs)
  have "unat b < 256" using unat_less_pow [of b] by simp
  with snoc show ?case by (simp add: from_be_snoc)
qed

lemma be_bytes_from_be: "be_bytes (length bs) (from_be bs) = bs"
proof (induction bs rule: rev_induct)
  case Nil
  show ?case by simp
next
  case (snoc b bs)
  have b: "unat b < 256" using unat_less_pow [of b] by simp
  then have "(from_be bs * 256 + unat b) div 256 = from_be bs"
    and "(from_be bs * 256 + unat b) mod 256 = unat b"
    by auto
  with snoc show ?case by (simp add: from_be_snoc)
qed

lemma bit_be_bytes:
  "i < n \<Longrightarrow> bit (be_bytes n v ! i) k \<longleftrightarrow> k < 8 \<and> bit v (8 * (n - 1 - i) + k)"
proof (induction n arbitrary: v)
  case 0
  then show ?case by simp
next
  case (Suc n)
  have m: "v mod 256 = take_bit 8 v" "v div 256 = drop_bit 8 v"
    by (simp_all add: take_bit_eq_mod drop_bit_eq_div)
  show ?case
  proof (cases "i = n")
    case True
    then show ?thesis
      unfolding be_bytes.simps m by (simp add: nth_append bit_simps)
  next
    case False
    with Suc.prems have i: "i < n" by simp
    then have e: "8 + (8 * (n - 1 - i) + k) = 8 * (n - i) + k" by simp
    have "bit (drop_bit 8 v) (8 * (n - 1 - i) + k) \<longleftrightarrow> bit v (8 * (n - i) + k)"
      unfolding bit_drop_bit_eq comp_apply e by (rule refl)
    with Suc.IH [OF i, of "drop_bit 8 v"] i show ?thesis
      unfolding be_bytes.simps m by (simp add: nth_append)
  qed
qed

text \<open>\<open>copy_from_slice\<close> into a subslice that starts at an index.\<close>

definition slice_put :: "'a list \<Rightarrow> nat \<Rightarrow> 'a list \<Rightarrow> 'a list" where
  "slice_put buf i bs = take i buf @ bs @ drop (i + length bs) buf"

lemma length_slice_put [simp]: "i + length bs \<le> length buf \<Longrightarrow> length (slice_put buf i bs) = length buf"
  by (simp add: slice_put_def)

lemma nth_slice_put:
  "i + length bs \<le> length buf \<Longrightarrow> j < length buf \<Longrightarrow>
    slice_put buf i bs ! j = (if i \<le> j \<and> j < i + length bs then bs ! (j - i) else buf ! j)"
  by (auto simp: slice_put_def nth_append min_def)

section \<open>Fallible operations on a state\<close>

text \<open>
  A method on \<open>&mut self\<close> that returns a \<open>Result\<close> is a function from the state to the state it
  leaves behind and the result, \<open>Inl\<close> for \<open>Err\<close>. \<open>sbind\<close> is the \<open>?\<close> operator followed by the
  rest of the body: on an error the rest is skipped and the state stays as the failing call
  left it.
\<close>

definition sbind ::
  "('s \<Rightarrow> 's \<times> ('e + 'a)) \<Rightarrow> ('a \<Rightarrow> 's \<Rightarrow> 's \<times> ('e + 'b)) \<Rightarrow> 's \<Rightarrow> 's \<times> ('e + 'b)"
where
  "sbind m f s = (case m s of (s1, Inl e) \<Rightarrow> (s1, Inl e) | (s1, Inr a) \<Rightarrow> f a s1)"

definition sreturn :: "'a \<Rightarrow> 's \<Rightarrow> 's \<times> ('e + 'a)" where
  "sreturn a s = (s, Inr a)"

definition serror :: "'e \<Rightarrow> 's \<Rightarrow> 's \<times> ('e + 'a)" where
  "serror e s = (s, Inl e)"

text \<open>A \<open>for\<close> loop over a slice and a counted loop that collects results, both stopping at an error.\<close>

primrec for_each :: "('a \<Rightarrow> 's \<Rightarrow> 's \<times> ('e + 'b)) \<Rightarrow> 'a list \<Rightarrow> 's \<Rightarrow> 's \<times> ('e + unit)" where
  "for_each f [] = sreturn ()"
| "for_each f (x # xs) = sbind (f x) (\<lambda>_. for_each f xs)"

primrec repeat_n :: "nat \<Rightarrow> ('s \<Rightarrow> 's \<times> ('e + 'a)) \<Rightarrow> 's \<Rightarrow> 's \<times> ('e + 'a list)" where
  "repeat_n 0 f = sreturn []"
| "repeat_n (Suc n) f = sbind f (\<lambda>x. sbind (repeat_n n f) (\<lambda>xs. sreturn (x # xs)))"

lemma sreturn_eq [simp]: "sreturn a s = (s', r) \<longleftrightarrow> s' = s \<and> r = Inr a"
  by (auto simp: sreturn_def)

lemma serror_eq [simp]: "serror e s = (s', r) \<longleftrightarrow> s' = s \<and> r = Inl e"
  by (auto simp: serror_def)

lemma sbind_Inr:
  "sbind m f s = (s', Inr b) \<longleftrightarrow> (\<exists>s1 a. m s = (s1, Inr a) \<and> f a s1 = (s', Inr b))"
  by (auto simp: sbind_def split: prod.splits sum.splits)

lemma sbind_intro: "m s = (s1, Inr a) \<Longrightarrow> sbind m f s = f a s1"
  by (simp add: sbind_def)

section \<open>Arrays of slots\<close>

text \<open>
  The sources keep their tables in fixed arrays and scan them from index 0: a \<open>for\<close> loop
  that returns at the first slot with some property, \<open>iter().find\<close>, \<open>position\<close>. All of them are
  the index of the first element that satisfies a predicate.
\<close>

primrec find_index :: "('a \<Rightarrow> bool) \<Rightarrow> 'a list \<Rightarrow> nat option" where
  "find_index P [] = None"
| "find_index P (x # xs) = (if P x then Some 0 else map_option Suc (find_index P xs))"

lemma find_index_None_iff: "find_index P xs = None \<longleftrightarrow> (\<forall>x\<in>set xs. \<not> P x)"
  by (induction xs) auto

lemma find_index_map: "find_index P (map f ys) = find_index (\<lambda>i. P (f i)) ys"
  by (induction ys) auto

lemma find_index_SomeD:
  "find_index P xs = Some i \<Longrightarrow> i < length xs \<and> P (xs ! i) \<and> (\<forall>j<i. \<not> P (xs ! j))"
proof (induction xs arbitrary: i)
  case Nil
  then show ?case by simp
next
  case (Cons x xs)
  show ?case
  proof (cases "P x")
    case True
    with Cons.prems show ?thesis by simp
  next
    case False
    with Cons.prems obtain k where k: "find_index P xs = Some k" "i = Suc k"
      by auto
    with Cons.IH [OF k(1)] False show ?thesis
      by (auto simp: less_Suc_eq_0_disj)
  qed
qed

lemma find_index_less: "find_index P xs = Some i \<Longrightarrow> i < length xs"
  by (simp add: find_index_SomeD)

lemma find_index_holds: "find_index P xs = Some i \<Longrightarrow> P (xs ! i)"
  by (simp add: find_index_SomeD)

lemma find_index_SomeI:
  "i < length xs \<Longrightarrow> P (xs ! i) \<Longrightarrow> (\<And>j. j < i \<Longrightarrow> \<not> P (xs ! j)) \<Longrightarrow> find_index P xs = Some i"
proof (induction xs arbitrary: i)
  case Nil
  then show ?case by simp
next
  case (Cons x xs)
  show ?case
  proof (cases i)
    case 0
    with Cons.prems show ?thesis by simp
  next
    case (Suc k)
    with Cons.prems(3) [of 0] have "\<not> P x" by simp
    moreover have "find_index P xs = Some k"
    proof (rule Cons.IH)
      show "k < length xs" and "P (xs ! k)" using Cons.prems(1,2) Suc by simp_all
      show "\<not> P (xs ! j)" if "j < k" for j
        using Cons.prems(3) [of "Suc j"] that Suc by simp
    qed
    ultimately show ?thesis using Suc by simp
  qed
qed

lemma find_index_Ex: "x \<in> set xs \<Longrightarrow> P x \<Longrightarrow> \<exists>i. find_index P xs = Some i"
  by (metis find_index_None_iff not_Some_eq)

lemma find_index_unique:
  assumes "i < length xs" and "P (xs ! i)" and "\<And>j. j < length xs \<Longrightarrow> P (xs ! j) \<Longrightarrow> j = i"
  shows "find_index P xs = Some i"
  using assms(1,2)
proof (rule find_index_SomeI)
  show "\<not> P (xs ! j)" if "j < i" for j
  proof
    assume "P (xs ! j)"
    with assms(1) that have "j = i" by (intro assms(3)) simp_all
    with that show False by simp
  qed
qed

definition occupied :: "'a option list \<Rightarrow> nat" where
  "occupied xs = length (filter (\<lambda>s. s \<noteq> None) xs)"

lemma occupied_simps [simp, slot_simps]:
  "occupied [] = 0"
  "occupied (None # xs) = occupied xs"
  "occupied (Some x # xs) = Suc (occupied xs)"
  "occupied (xs @ ys) = occupied xs + occupied ys"
  by (simp_all add: occupied_def)

lemma occupied_le: "occupied xs \<le> length xs"
  by (simp add: occupied_def)

lemma occupied_replicate_None [simp, slot_simps]: "occupied (replicate n None) = 0"
  by (induction n) simp_all

lemma occupied_upd_Some:
  "i < length xs \<Longrightarrow> xs ! i = None \<Longrightarrow> occupied (xs[i := Some y]) = Suc (occupied xs)"
  by (induction xs arbitrary: i) (auto simp: occupied_def split: nat.splits)

lemma occupied_upd_replace:
  "i < length xs \<Longrightarrow> xs ! i \<noteq> None \<Longrightarrow> occupied (xs[i := Some y]) = occupied xs"
  by (induction xs arbitrary: i) (auto simp: occupied_def split: nat.splits)

lemma occupied_upd_None:
  "i < length xs \<Longrightarrow> xs ! i \<noteq> None \<Longrightarrow> Suc (occupied (xs[i := None])) = occupied xs"
  by (induction xs arbitrary: i) (auto simp: occupied_def split: nat.splits)

lemma occupied_less_Ex_None: "occupied xs < length xs \<Longrightarrow> \<exists>i<length xs. xs ! i = None"
proof (rule ccontr)
  assume l: "occupied xs < length xs" and "\<not> (\<exists>i<length xs. xs ! i = None)"
  then have "\<forall>x\<in>set xs. x \<noteq> None" by (metis in_set_conv_nth)
  then have "occupied xs = length xs" by (simp add: occupied_def filter_id_conv)
  with l show False by simp
qed

section \<open>Tables of slots with a key\<close>

text \<open>
  Many components keep their records in an array of slots and look one up by a key: sequence
  numbers, order ids, account ids. \<open>keyed\<close> is their common invariant, that no key is stored twice.
\<close>

definition keyed :: "('a \<Rightarrow> 'k) \<Rightarrow> 'a option list \<Rightarrow> bool" where
  "keyed key slots \<longleftrightarrow>
     (\<forall>i j x y. i < length slots \<longrightarrow> j < length slots \<longrightarrow> slots ! i = Some x \<longrightarrow> slots ! j = Some y \<longrightarrow>
        key x = key y \<longrightarrow> i = j)"

definition has_key :: "('a \<Rightarrow> 'k) \<Rightarrow> 'k \<Rightarrow> 'a option \<Rightarrow> bool" where
  "has_key key k slot = (case slot of Some x \<Rightarrow> key x = k | None \<Rightarrow> False)"

definition slot_lookup :: "('a \<Rightarrow> 'k) \<Rightarrow> 'a option list \<Rightarrow> 'k \<Rightarrow> 'a option" where
  "slot_lookup key slots k = (case find_index (has_key key k) slots of Some i \<Rightarrow> slots ! i | None \<Rightarrow> None)"

lemma has_key_simps [simp]: "has_key key k None = False" "has_key key k (Some x) \<longleftrightarrow> key x = k"
  by (simp_all add: has_key_def)

lemma has_keyE: "has_key key k slot \<Longrightarrow> (\<And>x. slot = Some x \<Longrightarrow> key x = k \<Longrightarrow> P) \<Longrightarrow> P"
  by (cases slot) auto

lemma updated_slot:
  "slots[i := s] ! j = Some e \<Longrightarrow> j < length slots \<Longrightarrow>
    (j = i \<and> s = Some e) \<or> (j \<noteq> i \<and> slots ! j = Some e \<and> Some e \<in> set slots)"
  by (cases "j = i") (simp, metis nth_list_update_neq nth_mem)

lemma keyed_replicate [simp]: "keyed key (replicate n None)"
  by (simp add: keyed_def)

lemma keyedD: "keyed key slots \<Longrightarrow> i < length slots \<Longrightarrow> j < length slots \<Longrightarrow> slots ! i = Some x \<Longrightarrow>
    slots ! j = Some y \<Longrightarrow> key x = key y \<Longrightarrow> i = j"
  unfolding keyed_def by blast

lemma keyed_clear: "keyed key slots \<Longrightarrow> keyed key (slots[i := None])"
  unfolding keyed_def length_list_update by (blast dest: updated_slot)

lemma keyed_put:
  assumes "keyed key slots" and "\<And>e. Some e \<in> set slots \<Longrightarrow> key e \<noteq> key new"
  shows "keyed key (slots[i := Some new])"
  unfolding keyed_def length_list_update
proof (intro allI impI)
  fix j k e f
  assume "j < length slots" "k < length slots" "slots[i := Some new] ! j = Some e"
    "slots[i := Some new] ! k = Some f" "key e = key f"
  with updated_slot [of slots i "Some new" j e] updated_slot [of slots i "Some new" k f] assms(2)
  show "j = k" using assms(1) unfolding keyed_def by (metis option.inject)
qed

lemma keyed_replace:
  assumes k: "keyed key slots" and i: "i < length slots" "slots ! i = Some old" "key new = key old"
  shows "keyed key (slots[i := Some new])"
  unfolding keyed_def length_list_update
proof (intro allI impI)
  fix j l e f
  assume a: "j < length slots" "l < length slots" "slots[i := Some new] ! j = Some e"
    "slots[i := Some new] ! l = Some f" "key e = key f"
  have "\<exists>e'. slots ! j = Some e' \<and> key e' = key e" "\<exists>f'. slots ! l = Some f' \<and> key f' = key f"
    using updated_slot [OF a(3,1)] updated_slot [OF a(4,2)] i by auto
  then show "j = l" using a(1,2,5) keyedD [OF k] by metis
qed

lemma keyed_find:
  "keyed key slots \<Longrightarrow> i < length slots \<Longrightarrow> slots ! i = Some x \<Longrightarrow> find_index (has_key key (key x)) slots = Some i"
  by (rule find_index_unique) (auto elim!: has_keyE dest: keyedD)

lemma slot_lookup_Some:
  "keyed key slots \<Longrightarrow> slot_lookup key slots k = Some x \<longleftrightarrow> Some x \<in> set slots \<and> key x = k"
proof
  assume "slot_lookup key slots k = Some x"
  then obtain i where "find_index (has_key key k) slots = Some i" "slots ! i = Some x"
    by (auto simp: slot_lookup_def split: option.splits)
  then show "Some x \<in> set slots \<and> key x = k"
    using find_index_SomeD nth_mem by (metis has_key_simps(2))
next
  assume "keyed key slots" and x: "Some x \<in> set slots \<and> key x = k"
  moreover obtain i where "i < length slots" "slots ! i = Some x" using x by (auto simp: in_set_conv_nth)
  ultimately show "slot_lookup key slots k = Some x" using keyed_find [of key slots i x] by (simp add: slot_lookup_def)
qed

lemma slot_lookup_None: "slot_lookup key slots k = None \<longleftrightarrow> (\<forall>x. Some x \<in> set slots \<longrightarrow> key x \<noteq> k)"
proof
  assume n: "slot_lookup key slots k = None"
  show "\<forall>x. Some x \<in> set slots \<longrightarrow> key x \<noteq> k"
  proof (intro allI impI)
    fix x assume x: "Some x \<in> set slots"
    show "key x \<noteq> k"
    proof
      assume "key x = k"
      then obtain i where i: "find_index (has_key key k) slots = Some i"
        using find_index_Ex [OF x, of "has_key key k"] by auto
      from n find_index_holds [OF i] i show False by (auto simp: slot_lookup_def elim!: has_keyE)
    qed
  qed
next
  assume "\<forall>x. Some x \<in> set slots \<longrightarrow> key x \<noteq> k"
  then have "find_index (has_key key k) slots = None" by (auto simp: find_index_None_iff elim!: has_keyE)
  then show "slot_lookup key slots k = None" by (simp add: slot_lookup_def)
qed

text \<open>The table as a map from keys: what a lookup finds after the three kinds of update.\<close>

lemma option_ext: "(\<And>x. a = Some x \<longleftrightarrow> b = Some x) \<Longrightarrow> a = b"
  by (cases a; cases b) auto

lemma Some_in_update:
  "i < length slots \<Longrightarrow> Some x \<in> set (slots[i := s]) \<longleftrightarrow> s = Some x \<or> (\<exists>j<length slots. j \<noteq> i \<and> slots ! j = Some x)"
  unfolding in_set_conv_nth length_list_update nth_list_update by auto

lemma keyed_others:
  assumes k: "keyed key slots" and o: "i < length slots" "slots ! i = Some old"
  shows "(\<exists>j<length slots. j \<noteq> i \<and> slots ! j = Some x) \<longleftrightarrow> Some x \<in> set slots \<and> key x \<noteq> key old"
proof
  assume "\<exists>j<length slots. j \<noteq> i \<and> slots ! j = Some x"
  then obtain j where j: "j < length slots" "j \<noteq> i" "slots ! j = Some x" by blast
  then have "key x \<noteq> key old" using keyedD [OF k j(1) o(1) j(3) o(2)] by blast
  with j nth_mem show "Some x \<in> set slots \<and> key x \<noteq> key old" by metis
next
  assume a: "Some x \<in> set slots \<and> key x \<noteq> key old"
  then obtain j where j: "j < length slots" "slots ! j = Some x" unfolding in_set_conv_nth by blast
  with a o have "j \<noteq> i" by auto
  with j show "\<exists>j<length slots. j \<noteq> i \<and> slots ! j = Some x" by blast
qed

lemma lookup_replace:
  assumes k: "keyed key slots" and f: "find_index (has_key key k) slots = Some i" and n: "key new = k"
  shows "slot_lookup key (slots[i := Some new]) = (slot_lookup key slots)(k \<mapsto> new)"
proof (rule ext, rule option_ext)
  fix q x
  obtain old where o: "i < length slots" "slots ! i = Some old" "key new = key old"
    using find_index_SomeD [OF f] n by (auto elim!: has_keyE)
  show "slot_lookup key (slots[i := Some new]) q = Some x \<longleftrightarrow> ((slot_lookup key slots)(k \<mapsto> new)) q = Some x"
    unfolding slot_lookup_Some [OF keyed_replace [OF k o]] Some_in_update [OF o(1)] fun_upd_apply keyed_others [OF k o(1,2)]
    using slot_lookup_Some [OF k, of q x] n o(3) by auto
qed

lemma lookup_put:
  assumes k: "keyed key slots" and f: "slot_lookup key slots k = None" and n: "key new = k"
    and i: "i < length slots" "slots ! i = None"
  shows "slot_lookup key (slots[i := Some new]) = (slot_lookup key slots)(k \<mapsto> new)"
    and "keyed key (slots[i := Some new])"
proof -
  have fresh: "Some x \<in> set slots \<Longrightarrow> key x \<noteq> key new" for x using f n by (simp add: slot_lookup_None)
  then show k': "keyed key (slots[i := Some new])" by (rule keyed_put [OF k])
  show "slot_lookup key (slots[i := Some new]) = (slot_lookup key slots)(k \<mapsto> new)"
  proof (rule ext, rule option_ext)
    fix q x
    have "(\<exists>j<length slots. j \<noteq> i \<and> slots ! j = Some x) \<longleftrightarrow> Some x \<in> set slots"
      using i by (auto simp: in_set_conv_nth)
    then show "slot_lookup key (slots[i := Some new]) q = Some x \<longleftrightarrow> ((slot_lookup key slots)(k \<mapsto> new)) q = Some x"
      unfolding slot_lookup_Some [OF k'] Some_in_update [OF i(1)] fun_upd_apply
      using slot_lookup_Some [OF k, of q x] n fresh by auto
  qed
qed

lemma lookup_clear:
  assumes k: "keyed key slots" and f: "find_index (has_key key k) slots = Some i"
  shows "slot_lookup key (slots[i := None]) = (slot_lookup key slots)(k := None)"
proof (rule ext, rule option_ext)
  fix q x
  obtain old where o: "i < length slots" "slots ! i = Some old" "key old = k"
    using find_index_SomeD [OF f] by (auto elim!: has_keyE)
  show "slot_lookup key (slots[i := None]) q = Some x \<longleftrightarrow> ((slot_lookup key slots)(k := None)) q = Some x"
    unfolding slot_lookup_Some [OF keyed_clear [OF k]] Some_in_update [OF o(1)] fun_upd_apply keyed_others [OF k o(1,2)]
    using slot_lookup_Some [OF k, of q x] o(3) by auto
qed

text \<open>A lookup and the index of its slot.\<close>

lemma slot_lookup_find:
  "slot_lookup key slots k = Some x \<Longrightarrow> \<exists>i. find_index (has_key key k) slots = Some i \<and> i < length slots \<and> slots ! i = Some x \<and> key x = k"
  unfolding slot_lookup_def by (auto split: option.splits dest: find_index_SomeD)

lemma slot_lookup_find_None: "slot_lookup key slots k = None \<Longrightarrow> find_index (has_key key k) slots = None"
  unfolding slot_lookup_def
  by (auto split: option.splits dest!: find_index_holds)

text \<open>The three ways a table changes, with the count of its occupied slots.\<close>

lemma found_slot:
  assumes "find_index (has_key key k) slots = Some i"
  shows "i < length slots" "slots ! i = Some (the (slots ! i))" "key (the (slots ! i)) = k"
  using find_index_SomeD [OF assms] by (auto elim!: has_keyE)

lemma table_replace:
  assumes "keyed key slots" and f: "find_index (has_key key k) slots = Some i" and "key new = k"
  shows "slot_lookup key (slots[i := Some new]) = (slot_lookup key slots)(k \<mapsto> new)"
    "keyed key (slots[i := Some new])" "occupied (slots[i := Some new]) = occupied slots"
proof -
  note s = found_slot [OF f]
  show "slot_lookup key (slots[i := Some new]) = (slot_lookup key slots)(k \<mapsto> new)" by (rule lookup_replace [OF assms])
  show "keyed key (slots[i := Some new])" using keyed_replace [OF assms(1) s(1,2)] s(3) assms(3) by simp
  show "occupied (slots[i := Some new]) = occupied slots" using s(1) by (rule occupied_upd_replace) (metis s(2) option.distinct(1))
qed

lemma table_put:
  assumes "keyed key slots" and f: "find_index (has_key key k) slots = None"
    and e: "find_index (\<lambda>s. s = None) slots = Some i" and "key new = k"
  shows "slot_lookup key (slots[i := Some new]) = (slot_lookup key slots)(k \<mapsto> new)"
    "keyed key (slots[i := Some new])" "occupied (slots[i := Some new]) = Suc (occupied slots)"
proof -
  have n: "slot_lookup key slots k = None" using f by (simp add: slot_lookup_def)
  have s: "i < length slots" "slots ! i = None" using find_index_SomeD [OF e] by simp_all
  show "slot_lookup key (slots[i := Some new]) = (slot_lookup key slots)(k \<mapsto> new)"
    "keyed key (slots[i := Some new])"
    using lookup_put [OF assms(1) n assms(4) s] by simp_all
  show "occupied (slots[i := Some new]) = Suc (occupied slots)" by (rule occupied_upd_Some [OF s])
qed

lemma table_clear:
  assumes "keyed key slots" and f: "find_index (has_key key k) slots = Some i"
  shows "slot_lookup key (slots[i := None]) = (slot_lookup key slots)(k := None)"
    "keyed key (slots[i := None])" "occupied (slots[i := None]) = occupied slots - 1"
proof -
  note s = found_slot [OF f]
  show "slot_lookup key (slots[i := None]) = (slot_lookup key slots)(k := None)" by (rule lookup_clear [OF assms])
  show "keyed key (slots[i := None])" by (rule keyed_clear [OF assms(1)])
  have "slots ! i \<noteq> None" by (metis s(2) option.distinct(1))
  from occupied_upd_None [OF s(1) this] show "occupied (slots[i := None]) = occupied slots - 1" by simp
qed

lemma table_found: "find_index (has_key key k) slots = Some i \<Longrightarrow> slot_lookup key slots k = Some (the (slots ! i))"
  using found_slot(2) [of key k slots i] by (simp add: slot_lookup_def)


section \<open>Positions in a ring\<close>

lemma ring_pos_eq:
  fixes c :: nat
  assumes "i < c" "j < c"
  shows "(h + i) mod c = (h + j) mod c \<longleftrightarrow> i = j"
proof
  assume "(h + i) mod c = (h + j) mod c"
  then obtain p q where "h + i + c * p = h + j + c * q" unfolding nat_mod_eq_iff by blast
  then have "i + c * p = j + c * q" by simp
  then have "i mod c = j mod c" unfolding nat_mod_eq_iff by blast
  then show "i = j" using assms by simp
qed simp

section \<open>Sums over a list\<close>

lemma sum_list_map_update:
  fixes f :: "'a \<Rightarrow> nat"
  shows "i < length xs \<Longrightarrow> sum_list (map f (xs[i := x])) + f (xs ! i) = sum_list (map f xs) + f x"
  by (induction xs arbitrary: i) (auto split: nat.splits)

section \<open>Sums over a finite map\<close>

text \<open>
  The total of a quantity over the entries of a map: balances over accounts, units over slots. An
  update changes it by the difference between the new entry and the old one.
\<close>

definition entry_sum :: "('v option \<Rightarrow> nat) \<Rightarrow> ('k \<rightharpoonup> 'v) \<Rightarrow> nat" where
  "entry_sum u h = (\<Sum>p\<in>dom h. u (h p))"

lemma entry_sum_superset: "finite S \<Longrightarrow> dom h \<subseteq> S \<Longrightarrow> u None = 0 \<Longrightarrow> entry_sum u h = (\<Sum>p\<in>S. u (h p))"
  unfolding entry_sum_def by (rule sum.mono_neutral_left) (auto simp: dom_def)

lemma entry_sum_upd:
  assumes "finite (dom h)" and "u None = 0"
  shows "entry_sum u (h(q := x)) + u (h q) = entry_sum u h + u x"
proof -
  let ?S = "insert q (dom h)"
  have "entry_sum u (h(q := x)) = (\<Sum>p\<in>?S. u ((h(q := x)) p))"
    using assms by (intro entry_sum_superset) (auto split: if_splits)
  moreover have "entry_sum u h = (\<Sum>p\<in>?S. u (h p))" using assms by (intro entry_sum_superset) auto
  moreover have "(\<Sum>p\<in>?S - {q}. u ((h(q := x)) p)) = (\<Sum>p\<in>?S - {q}. u (h p))" by (rule sum.cong) auto
  ultimately show ?thesis
    using sum.remove [of ?S q "\<lambda>p. u ((h(q := x)) p)"] sum.remove [of ?S q "\<lambda>p. u (h p)"] assms(1) by simp
qed

lemma sat_succ_greater:
  fixes g h :: "'a::len word"
  assumes "g \<noteq> - 1" "g \<le> h"
  shows "g < saturating_add h 1"
proof (cases "h = - 1")
  case True
  then show ?thesis using assms(1) by (simp add: saturating_add_def unat_minus_one_eq word_order.not_eq_extremum)
next
  case False
  then have "unat h \<noteq> unat (- 1 :: 'a word)" using unsigned_word_eqI by blast
  then have "unat h + 1 \<le> 2 ^ LENGTH('a) - 1" using unat_le_pow [of h] by (simp add: unat_minus_one_eq)
  then show ?thesis using assms(2) by (simp add: word_less_nat_alt word_le_nat_alt unat_saturating_add)
qed

end
