(* ===== verification/FixedPoint.thy ===== *)
theory FixedPoint
  imports Prelude "HOL-Library.Signed_Division"
begin

text \<open>
  The 32.32 fixed-point numbers and vectors of \<^verbatim>\<open>eidolon-core/src/fixed.rs\<close>. A
  \<open>Fixed64\<close> wraps an \<open>i64\<close>; the value it stands for is \<open>sint (raw a) / 2 ^ 32\<close>. Intermediate
  \<open>i128\<close> and \<open>u128\<close> values of the source are integers and naturals here: the products and
  shifts the source forms stay far below the 128-bit limits (\<open>wide_product_fits_i128\<close>,
  \<open>sqrt_operand_fits_u128\<close>), so nothing wraps. Conversions to and from IEEE floating point are
  not modelled.
\<close>

section \<open>The number type\<close>

datatype Fixed64 = Fixed64 (raw: i64)

definition FRACTIONAL_BITS :: nat where "FRACTIONAL_BITS = 32"

definition Fixed64_SCALE :: i64 where "Fixed64_SCALE = push_bit FRACTIONAL_BITS 1"

definition Fixed64_ZERO :: Fixed64 where "Fixed64_ZERO = Fixed64 0"

definition Fixed64_ONE :: Fixed64 where "Fixed64_ONE = Fixed64 Fixed64_SCALE"

definition Fixed64_EPSILON :: Fixed64 where "Fixed64_EPSILON = Fixed64 1"

definition i64_MIN :: int where "i64_MIN = - (2 ^ 63)"

definition i64_MAX :: int where "i64_MAX = 2 ^ 63 - 1"

definition Fixed64_MIN :: Fixed64 where "Fixed64_MIN = Fixed64 (word_of_int i64_MIN)"

definition Fixed64_MAX :: Fixed64 where "Fixed64_MAX = Fixed64 (word_of_int i64_MAX)"

definition Fixed64_from_raw :: "i64 \<Rightarrow> Fixed64" where
  "Fixed64_from_raw r = Fixed64 r"

text \<open>The derived order of the source compares the wrapped signed integers.\<close>

instantiation Fixed64 :: linorder
begin

definition less_eq_Fixed64 :: "Fixed64 \<Rightarrow> Fixed64 \<Rightarrow> bool" where
  "less_eq_Fixed64 a b \<longleftrightarrow> sint (raw a) \<le> sint (raw b)"

definition less_Fixed64 :: "Fixed64 \<Rightarrow> Fixed64 \<Rightarrow> bool" where
  "less_Fixed64 a b \<longleftrightarrow> sint (raw a) < sint (raw b)"

instance
proof
  fix a b c :: Fixed64
  show "a < b \<longleftrightarrow> a \<le> b \<and> \<not> b \<le> a" by (auto simp: less_Fixed64_def less_eq_Fixed64_def)
  show "a \<le> a" by (simp add: less_eq_Fixed64_def)
  show "a \<le> b \<Longrightarrow> b \<le> c \<Longrightarrow> a \<le> c" by (simp add: less_eq_Fixed64_def)
  show "a \<le> b \<Longrightarrow> b \<le> a \<Longrightarrow> a = b"
    by (cases a; cases b) (auto simp: less_eq_Fixed64_def intro: sint_eqD)
  show "a \<le> b \<or> b \<le> a" by (auto simp: less_eq_Fixed64_def)
qed

end

section \<open>Conversions and rounding\<close>

text \<open>\<open>(val as i64) << 32\<close> and back with an arithmetic shift and a truncating cast.\<close>

definition Fixed64_from_i32 :: "i32 \<Rightarrow> Fixed64" where
  "Fixed64_from_i32 v = Fixed64 (push_bit FRACTIONAL_BITS (signed v))"

definition Fixed64_to_i32 :: "Fixed64 \<Rightarrow> i32" where
  "Fixed64_to_i32 a = ucast (signed_drop_bit FRACTIONAL_BITS (raw a))"

definition Fixed64_floor :: "Fixed64 \<Rightarrow> Fixed64" where
  "Fixed64_floor a = Fixed64 (push_bit FRACTIONAL_BITS (signed_drop_bit FRACTIONAL_BITS (raw a)))"

definition Fixed64_ceil :: "Fixed64 \<Rightarrow> Fixed64" where
  "Fixed64_ceil a =
     (let mask = push_bit FRACTIONAL_BITS 1 - 1 in
      if raw a AND mask = 0 then a
      else Fixed64 (push_bit FRACTIONAL_BITS (signed_drop_bit FRACTIONAL_BITS (raw a) + 1)))"

section \<open>Saturating arithmetic\<close>

definition Fixed64_saturating_add :: "Fixed64 \<Rightarrow> Fixed64 \<Rightarrow> Fixed64" where
  "Fixed64_saturating_add a b = Fixed64 (of_int_sat (sint (raw a) + sint (raw b)))"

definition Fixed64_saturating_sub :: "Fixed64 \<Rightarrow> Fixed64 \<Rightarrow> Fixed64" where
  "Fixed64_saturating_sub a b = Fixed64 (of_int_sat (sint (raw a) - sint (raw b)))"

definition Fixed64_saturating_mul :: "Fixed64 \<Rightarrow> Fixed64 \<Rightarrow> Fixed64" where
  "Fixed64_saturating_mul a b =
     (let wide = sint (raw a) * sint (raw b);
          res = drop_bit FRACTIONAL_BITS wide
      in if res > i64_MAX then Fixed64_MAX
         else if res < i64_MIN then Fixed64_MIN
         else Fixed64 (word_of_int res))"

definition Fixed64_saturating_div :: "Fixed64 \<Rightarrow> Fixed64 \<Rightarrow> Fixed64" where
  "Fixed64_saturating_div a b =
     (if raw b = 0 then (if sint (raw a) \<ge> 0 then Fixed64_MAX else Fixed64_MIN)
      else
        (let wide = push_bit FRACTIONAL_BITS (sint (raw a));
             res = wide sdiv sint (raw b)
         in if res > i64_MAX then Fixed64_MAX
            else if res < i64_MIN then Fixed64_MIN
            else Fixed64 (word_of_int res)))"

definition Fixed64_abs :: "Fixed64 \<Rightarrow> Fixed64" where
  "Fixed64_abs a = Fixed64 (of_int_sat \<bar>sint (raw a)\<bar>)"

text \<open>\<open>Ord::clamp\<close> panics when the bounds are crossed; \<open>None\<close> is that panic.\<close>

definition Fixed64_clamp :: "Fixed64 \<Rightarrow> Fixed64 \<Rightarrow> Fixed64 \<Rightarrow> Fixed64 option" where
  "Fixed64_clamp a mn mx =
     (if sint (raw mn) \<le> sint (raw mx)
      then Some (if sint (raw a) < sint (raw mn) then mn
                 else if sint (raw a) > sint (raw mx) then mx else a)
      else None)"

definition Fixed64_min :: "Fixed64 \<Rightarrow> Fixed64 \<Rightarrow> Fixed64" where
  "Fixed64_min a b = (if sint (raw a) < sint (raw b) then a else b)"

definition Fixed64_max :: "Fixed64 \<Rightarrow> Fixed64 \<Rightarrow> Fixed64" where
  "Fixed64_max a b = (if sint (raw a) > sint (raw b) then a else b)"

text \<open>The operator traits of the source: every one saturates.\<close>

definition Fixed64_add :: "Fixed64 \<Rightarrow> Fixed64 \<Rightarrow> Fixed64" where
  "Fixed64_add a b = Fixed64_saturating_add a b"

definition Fixed64_sub :: "Fixed64 \<Rightarrow> Fixed64 \<Rightarrow> Fixed64" where
  "Fixed64_sub a b = Fixed64_saturating_sub a b"

definition Fixed64_mul :: "Fixed64 \<Rightarrow> Fixed64 \<Rightarrow> Fixed64" where
  "Fixed64_mul a b = Fixed64_saturating_mul a b"

definition Fixed64_div :: "Fixed64 \<Rightarrow> Fixed64 \<Rightarrow> Fixed64" where
  "Fixed64_div a b = Fixed64_saturating_div a b"

definition Fixed64_neg :: "Fixed64 \<Rightarrow> Fixed64" where
  "Fixed64_neg a = Fixed64 (of_int_sat (- sint (raw a)))"

instantiation Fixed64 :: "{plus, minus, times, uminus, zero}"
begin

definition plus_Fixed64 :: "Fixed64 \<Rightarrow> Fixed64 \<Rightarrow> Fixed64" where
  "plus_Fixed64 a b = Fixed64_add a b"

definition minus_Fixed64 :: "Fixed64 \<Rightarrow> Fixed64 \<Rightarrow> Fixed64" where
  "minus_Fixed64 a b = Fixed64_sub a b"

definition times_Fixed64 :: "Fixed64 \<Rightarrow> Fixed64 \<Rightarrow> Fixed64" where
  "times_Fixed64 a b = Fixed64_mul a b"

definition uminus_Fixed64 :: "Fixed64 \<Rightarrow> Fixed64" where
  "uminus_Fixed64 a = Fixed64_neg a"

definition zero_Fixed64 :: Fixed64 where
  "zero_Fixed64 = Fixed64_ZERO"

instance ..

end

section \<open>Square root\<close>

text \<open>
  \<open>msb_index v\<close> is \<open>127 - leading_zeros\<close> of a positive \<open>u128\<close>. The loop keeps the source's
  three variables; it ends because \<open>bit\<close> is divided by four until it is 0.
\<close>

fun msb_index :: "nat \<Rightarrow> nat" where
  "msb_index v = (if v \<le> 1 then 0 else Suc (msb_index (v div 2)))"

fun sqrt_loop :: "nat \<Rightarrow> nat \<Rightarrow> nat \<Rightarrow> nat" where
  "sqrt_loop root bt remainder =
     (if bt = 0 then root
      else
        (let sum = root + bt in
         if remainder \<ge> sum then sqrt_loop (root div 2 + bt) (bt div 4) (remainder - sum)
         else sqrt_loop (root div 2) (bt div 4) remainder))"

declare msb_index.simps [simp del] sqrt_loop.simps [simp del]

definition Fixed64_sqrt :: "Fixed64 \<Rightarrow> Fixed64" where
  "Fixed64_sqrt a =
     (if sint (raw a) \<le> 0 then Fixed64_ZERO
      else
        (let val = push_bit FRACTIONAL_BITS (unat (raw a));
             m = msb_index val;
             shift = m - m mod 2;
             root = sqrt_loop 0 (2 ^ shift) val
         in if int root > i64_MAX then Fixed64_MAX else Fixed64 (word_of_nat root)))"

section \<open>Vectors\<close>

record Vec3Fix =
  vec_x :: Fixed64
  vec_y :: Fixed64
  vec_z :: Fixed64

definition Vec3Fix_ZERO :: Vec3Fix where
  "Vec3Fix_ZERO = \<lparr>vec_x = Fixed64_ZERO, vec_y = Fixed64_ZERO, vec_z = Fixed64_ZERO\<rparr>"

definition Vec3Fix_from_i32 :: "i32 \<Rightarrow> i32 \<Rightarrow> i32 \<Rightarrow> Vec3Fix" where
  "Vec3Fix_from_i32 px py pz =
     \<lparr>vec_x = Fixed64_from_i32 px, vec_y = Fixed64_from_i32 py, vec_z = Fixed64_from_i32 pz\<rparr>"

definition Vec3Fix_scale :: "Vec3Fix \<Rightarrow> Fixed64 \<Rightarrow> Vec3Fix" where
  "Vec3Fix_scale v f = \<lparr>vec_x = vec_x v * f, vec_y = vec_y v * f, vec_z = vec_z v * f\<rparr>"

definition Vec3Fix_dot :: "Vec3Fix \<Rightarrow> Vec3Fix \<Rightarrow> Fixed64" where
  "Vec3Fix_dot v w = vec_x v * vec_x w + vec_y v * vec_y w + vec_z v * vec_z w"

definition Vec3Fix_cross :: "Vec3Fix \<Rightarrow> Vec3Fix \<Rightarrow> Vec3Fix" where
  "Vec3Fix_cross v w =
     \<lparr>vec_x = vec_y v * vec_z w - vec_z v * vec_y w,
      vec_y = vec_z v * vec_x w - vec_x v * vec_z w,
      vec_z = vec_x v * vec_y w - vec_y v * vec_x w\<rparr>"

definition Vec3Fix_add :: "Vec3Fix \<Rightarrow> Vec3Fix \<Rightarrow> Vec3Fix" where
  "Vec3Fix_add v w =
     \<lparr>vec_x = vec_x v + vec_x w, vec_y = vec_y v + vec_y w, vec_z = vec_z v + vec_z w\<rparr>"

definition Vec3Fix_sub :: "Vec3Fix \<Rightarrow> Vec3Fix \<Rightarrow> Vec3Fix" where
  "Vec3Fix_sub v w =
     \<lparr>vec_x = vec_x v - vec_x w, vec_y = vec_y v - vec_y w, vec_z = vec_z v - vec_z w\<rparr>"

definition Vec3Fix_div :: "Vec3Fix \<Rightarrow> Fixed64 \<Rightarrow> Vec3Fix" where
  "Vec3Fix_div v f =
     \<lparr>vec_x = Fixed64_div (vec_x v) f, vec_y = Fixed64_div (vec_y v) f,
      vec_z = Fixed64_div (vec_z v) f\<rparr>"

definition Vec3Fix_neg :: "Vec3Fix \<Rightarrow> Vec3Fix" where
  "Vec3Fix_neg v = \<lparr>vec_x = - vec_x v, vec_y = - vec_y v, vec_z = - vec_z v\<rparr>"

definition Vec3Fix_magnitude_squared :: "Vec3Fix \<Rightarrow> Fixed64" where
  "Vec3Fix_magnitude_squared v = Vec3Fix_dot v v"

definition Vec3Fix_magnitude :: "Vec3Fix \<Rightarrow> Fixed64" where
  "Vec3Fix_magnitude v = Fixed64_sqrt (Vec3Fix_magnitude_squared v)"

definition Vec3Fix_distance_squared :: "Vec3Fix \<Rightarrow> Vec3Fix \<Rightarrow> Fixed64" where
  "Vec3Fix_distance_squared v w = Vec3Fix_magnitude_squared (Vec3Fix_sub v w)"

definition Vec3Fix_distance :: "Vec3Fix \<Rightarrow> Vec3Fix \<Rightarrow> Fixed64" where
  "Vec3Fix_distance v w = Vec3Fix_magnitude (Vec3Fix_sub v w)"

definition Vec3Fix_manhattan_distance :: "Vec3Fix \<Rightarrow> Vec3Fix \<Rightarrow> Fixed64" where
  "Vec3Fix_manhattan_distance v w =
     Fixed64_abs (vec_x v - vec_x w) + Fixed64_abs (vec_y v - vec_y w)
       + Fixed64_abs (vec_z v - vec_z w)"

definition Vec3Fix_normalize_or_zero :: "Vec3Fix \<Rightarrow> Vec3Fix" where
  "Vec3Fix_normalize_or_zero v =
     (let mag = Vec3Fix_magnitude v in
      if mag \<le> Fixed64_EPSILON then Vec3Fix_ZERO
      else \<lparr>vec_x = Fixed64_div (vec_x v) mag, vec_y = Fixed64_div (vec_y v) mag,
            vec_z = Fixed64_div (vec_z v) mag\<rparr>)"

text \<open>
  The batch routines take arrays of 4, 8 and 16 origins. The first is unrolled in the source:
  it computes every difference and then every sum of squares. The other two fill an output
  array of zeros in a loop over the index.
\<close>

definition batch_distance_squared_4x ::
  "Vec3Fix \<times> Vec3Fix \<times> Vec3Fix \<times> Vec3Fix \<Rightarrow> Vec3Fix \<Rightarrow> Fixed64 \<times> Fixed64 \<times> Fixed64 \<times> Fixed64"
where
  "batch_distance_squared_4x origins target =
     (case origins of (o0, o1, o2, o3) \<Rightarrow>
       let dx0 = vec_x o0 - vec_x target; dy0 = vec_y o0 - vec_y target; dz0 = vec_z o0 - vec_z target;
           dx1 = vec_x o1 - vec_x target; dy1 = vec_y o1 - vec_y target; dz1 = vec_z o1 - vec_z target;
           dx2 = vec_x o2 - vec_x target; dy2 = vec_y o2 - vec_y target; dz2 = vec_z o2 - vec_z target;
           dx3 = vec_x o3 - vec_x target; dy3 = vec_y o3 - vec_y target; dz3 = vec_z o3 - vec_z target
       in (dx0 * dx0 + dy0 * dy0 + dz0 * dz0,
           dx1 * dx1 + dy1 * dy1 + dz1 * dz1,
           dx2 * dx2 + dy2 * dy2 + dz2 * dz2,
           dx3 * dx3 + dy3 * dy3 + dz3 * dz3))"

primrec batch_distance_loop ::
  "Vec3Fix list \<Rightarrow> Vec3Fix \<Rightarrow> nat list \<Rightarrow> Fixed64 list \<Rightarrow> Fixed64 list"
where
  "batch_distance_loop origins target [] out = out"
| "batch_distance_loop origins target (i # is) out =
     (let dx = vec_x (origins ! i) - vec_x target;
          dy = vec_y (origins ! i) - vec_y target;
          dz = vec_z (origins ! i) - vec_z target
      in batch_distance_loop origins target is (out[i := dx * dx + dy * dy + dz * dz]))"

definition batch_distance_squared_8x :: "Vec3Fix list \<Rightarrow> Vec3Fix \<Rightarrow> Fixed64 list" where
  "batch_distance_squared_8x origins target =
     batch_distance_loop origins target [0..<8] (replicate 8 Fixed64_ZERO)"

definition batch_distance_squared_16x :: "Vec3Fix list \<Rightarrow> Vec3Fix \<Rightarrow> Fixed64 list" where
  "batch_distance_squared_16x origins target =
     batch_distance_loop origins target [0..<16] (replicate 16 Fixed64_ZERO)"


section \<open>Readings in the integers\<close>

lemma sint_i64_bounds: "i64_MIN \<le> sint (w :: i64)" "sint (w :: i64) \<le> i64_MAX"
  using sint_ge [of w] sint_lt [of w] by (simp_all add: i64_MIN_def i64_MAX_def)

definition clamp_i64 :: "int \<Rightarrow> int" where
  "clamp_i64 v = max i64_MIN (min i64_MAX v)"

lemma sint_of_int_sat_i64: "sint (of_int_sat v :: i64) = clamp_i64 v"
  by (simp add: sint_of_int_sat clamp_i64_def i64_MIN_def i64_MAX_def)

lemma clamp_i64_id: "i64_MIN \<le> v \<Longrightarrow> v \<le> i64_MAX \<Longrightarrow> clamp_i64 v = v"
  by (simp add: clamp_i64_def)

lemma clamp_i64_bounds: "i64_MIN \<le> clamp_i64 v" "clamp_i64 v \<le> i64_MAX"
  by (auto simp: clamp_i64_def i64_MIN_def i64_MAX_def)

lemma sint_raw_extremes:
  "sint (raw Fixed64_MAX) = i64_MAX" "sint (raw Fixed64_MIN) = i64_MIN"
  "sint (raw Fixed64_ZERO) = 0" "sint (raw Fixed64_EPSILON) = 1"
  by (simp_all add: Fixed64_MAX_def Fixed64_MIN_def Fixed64_ZERO_def Fixed64_EPSILON_def
      sint_of_int_range i64_MAX_def i64_MIN_def)

lemma Fixed64_eqI: "sint (raw a) = sint (raw b) \<Longrightarrow> a = b"
  by (cases a; cases b) (auto intro: sint_eqD)

lemma sint_add: "sint (raw (a + b)) = clamp_i64 (sint (raw a) + sint (raw b))"
  by (simp add: plus_Fixed64_def Fixed64_add_def Fixed64_saturating_add_def sint_of_int_sat_i64)

lemma sint_sub: "sint (raw (a - b)) = clamp_i64 (sint (raw a) - sint (raw b))"
  by (simp add: minus_Fixed64_def Fixed64_sub_def Fixed64_saturating_sub_def sint_of_int_sat_i64)

lemma sint_neg: "sint (raw (- a)) = clamp_i64 (- sint (raw a))"
  by (simp add: uminus_Fixed64_def Fixed64_neg_def sint_of_int_sat_i64)

lemma clamp_cases_raw:
  "sint (raw (if v > i64_MAX then Fixed64_MAX else if v < i64_MIN then Fixed64_MIN
     else Fixed64 (word_of_int v))) = clamp_i64 v"
proof -
  have "i64_MIN \<le> i64_MAX" by (simp add: i64_MIN_def i64_MAX_def)
  moreover have "sint (word_of_int v :: i64) = v" if "i64_MIN \<le> v" "v \<le> i64_MAX"
    using that by (intro sint_of_int_range) (simp_all add: i64_MIN_def i64_MAX_def)
  ultimately show ?thesis
    by (auto simp: sint_raw_extremes clamp_i64_def)
qed

lemma sint_mul: "sint (raw (a * b)) = clamp_i64 ((sint (raw a) * sint (raw b)) div 2 ^ 32)"
  unfolding times_Fixed64_def Fixed64_mul_def Fixed64_saturating_mul_def Let_def clamp_cases_raw
  by (simp add: drop_bit_eq_div FRACTIONAL_BITS_def)

lemma sint_div:
  "raw b \<noteq> 0 \<Longrightarrow>
    sint (raw (Fixed64_div a b)) = clamp_i64 ((sint (raw a) * 2 ^ 32) sdiv sint (raw b))"
  unfolding Fixed64_div_def Fixed64_saturating_div_def Let_def
  by (simp only: if_False clamp_cases_raw) (simp add: push_bit_eq_mult FRACTIONAL_BITS_def)

lemmas fixed_int = sint_add sint_sub sint_neg sint_mul sint_div

text \<open>The 128-bit intermediates of the source never overflow.\<close>

lemma abs_raw_le: "\<bar>sint (raw c)\<bar> \<le> 2 ^ 63"
  using sint_i64_bounds [of "raw c"] by (simp add: i64_MIN_def i64_MAX_def)

lemma wide_product_fits_i128:
  "\<bar>sint (raw a) * sint (raw b)\<bar> \<le> 2 ^ 126"
  "\<bar>sint (raw a) * 2 ^ 32\<bar> \<le> 2 ^ 126"
proof -
  have "\<bar>sint (raw a)\<bar> * \<bar>sint (raw b)\<bar> \<le> 2 ^ 63 * 2 ^ 63"
    by (intro mult_mono abs_raw_le) simp_all
  moreover have "\<bar>sint (raw a)\<bar> * 2 ^ 32 \<le> 2 ^ 63 * 2 ^ 63"
    by (intro mult_mono abs_raw_le) simp_all
  ultimately show "\<bar>sint (raw a) * sint (raw b)\<bar> \<le> 2 ^ 126" "\<bar>sint (raw a) * 2 ^ 32\<bar> \<le> 2 ^ 126"
    by (simp_all add: abs_mult)
qed

lemma sint_from_i32: "sint (raw (Fixed64_from_i32 v)) = sint v * 2 ^ 32"
proof -
  have b: "- (2 ^ 31) \<le> sint v" "sint v < 2 ^ 31"
    using sint_ge [of v] sint_lt [of v] by simp_all
  then have s: "sint (signed v :: i64) = sint v"
    by (simp add: signed_scast_eq signed_take_bit_int_eq_self sint_sbintrunc')
  show ?thesis
    using b by (simp add: Fixed64_from_i32_def FRACTIONAL_BITS_def sint_push_bit_range s)
qed

lemma sint_floor: "sint (raw (Fixed64_floor a)) = (sint (raw a) div 2 ^ 32) * 2 ^ 32"
proof -
  let ?q = "sint (raw a) div 2 ^ 32"
  have "- (2 ^ 31) \<le> ?q" "?q < 2 ^ 31"
    using sint_i64_bounds [of "raw a"] by (simp_all add: i64_MIN_def i64_MAX_def)
  then show ?thesis
    by (simp add: Fixed64_floor_def FRACTIONAL_BITS_def sint_push_bit_range sint_shift_right)
qed

section \<open>The square root loop\<close>

text \<open>
  With \<open>bt = 4 ^ k\<close> the loop's \<open>root\<close> holds \<open>p * 2 ^ (k + 1)\<close> for the partial root \<open>p\<close>, and
  \<open>remainder\<close> holds \<open>val - p ^ 2\<close>; \<open>p\<close> is right up to a multiple of \<open>2 ^ (k + 1)\<close>.
\<close>

lemma sqrt_loop_correct:
  assumes "p ^ 2 \<le> v" and "v < (p + 2 ^ Suc k) ^ 2"
  shows "(sqrt_loop (p * 2 ^ Suc k) (4 ^ k) (v - p ^ 2)) ^ 2 \<le> v
    \<and> v < (sqrt_loop (p * 2 ^ Suc k) (4 ^ k) (v - p ^ 2) + 1) ^ 2"
  using assms
proof (induction k arbitrary: p)
  case 0
  show ?case
  proof (cases "v - p ^ 2 \<ge> p * 2 + 1")
    case True
    with "0" have "sqrt_loop (p * 2 ^ Suc 0) (4 ^ 0) (v - p ^ 2) = p + 1"
      by (simp add: sqrt_loop.simps)
    with "0" True show ?thesis by (simp add: power2_eq_square algebra_simps)
  next
    case False
    then have "sqrt_loop (p * 2 ^ Suc 0) (4 ^ 0) (v - p ^ 2) = p"
      by (simp add: sqrt_loop.simps)
    with "0" False show ?thesis by (simp add: power2_eq_square algebra_simps)
  qed
next
  case (Suc k)
  let ?b = "2 ^ Suc k :: nat"
  have b4: "(4::nat) ^ Suc k = ?b * ?b" by (simp add: power_mult_distrib [symmetric])
  have unf: "sqrt_loop (p * 2 ^ Suc (Suc k)) (4 ^ Suc k) (v - p ^ 2) =
      (if v - p ^ 2 \<ge> p * 2 ^ Suc (Suc k) + 4 ^ Suc k
       then sqrt_loop (p * ?b + ?b * ?b) (4 ^ k) (v - p ^ 2 - (p * 2 ^ Suc (Suc k) + 4 ^ Suc k))
       else sqrt_loop (p * ?b) (4 ^ k) (v - p ^ 2))"
    by (subst sqrt_loop.simps) (simp add: Let_def power_mult_distrib [symmetric] mult.left_commute)
  have sq: "(p + ?b) ^ 2 = p ^ 2 + (p * 2 ^ Suc (Suc k) + 4 ^ Suc k)"
    unfolding b4 by (simp add: power2_eq_square algebra_simps)
  show ?case
  proof (cases "v - p ^ 2 \<ge> p * 2 ^ Suc (Suc k) + 4 ^ Suc k")
    case True
    then have ge: "(p + ?b) ^ 2 \<le> v" using Suc.prems(1) sq by linarith
    moreover have "v < ((p + ?b) + ?b) ^ 2" using Suc.prems(2) by (simp add: algebra_simps)
    moreover have "v - p ^ 2 - (p * 2 ^ Suc (Suc k) + 4 ^ Suc k) = v - (p + ?b) ^ 2"
      using sq by linarith
    ultimately show ?thesis
      using Suc.IH [of "p + ?b"] True unfolding unf by (simp add: distrib_right)
  next
    case False
    then have "v < (p + ?b) ^ 2" using sq by linarith
    with Suc.IH [of p] Suc.prems(1) False show ?thesis unfolding unf by simp
  qed
qed

lemma msb_index_bounds: "0 < v \<Longrightarrow> 2 ^ msb_index v \<le> v \<and> v < 2 ^ Suc (msb_index v)"
proof (induction v rule: msb_index.induct)
  case (1 v)
  show ?case
  proof (cases "v \<le> 1")
    case True
    with "1.prems" show ?thesis by (simp add: msb_index.simps)
  next
    case False
    then have "0 < v div 2" by linarith
    with "1.IH" False have "2 ^ msb_index (v div 2) \<le> v div 2 \<and> v div 2 < 2 ^ Suc (msb_index (v div 2))"
      by simp
    moreover have "msb_index v = Suc (msb_index (v div 2))"
      using False by (subst msb_index.simps) simp
    ultimately show ?thesis by simp linarith
  qed
qed

lemma sqrt_loop_seeded:
  assumes "0 < v"
  shows "(sqrt_loop 0 (2 ^ (msb_index v - msb_index v mod 2)) v) ^ 2 \<le> v
    \<and> v < (sqrt_loop 0 (2 ^ (msb_index v - msb_index v mod 2)) v + 1) ^ 2"
proof -
  define k where "k = msb_index v div 2"
  have e: "msb_index v - msb_index v mod 2 = 2 * k" unfolding k_def by presburger
  have "Suc (msb_index v) \<le> 2 * Suc k" unfolding k_def by presburger
  then have "(2::nat) ^ Suc (msb_index v) \<le> 2 ^ (2 * Suc k)" by (rule power_increasing) simp
  with msb_index_bounds [OF assms] have "v < (0 + 2 ^ Suc k) ^ 2"
    by (simp add: power_mult [symmetric] mult.commute)
  from sqrt_loop_correct [of 0 v k, OF _ this] show ?thesis
    unfolding e by (simp add: power_mult)
qed


lemma sqrt_operand_fits_u128: "push_bit FRACTIONAL_BITS (unat (raw a)) < 2 ^ 96"
proof -
  have "unat (raw a) * 2 ^ 32 < 2 ^ 64 * 2 ^ 32"
    using unat_less_pow [of "raw a"] by (intro mult_strict_right_mono) simp_all
  then show ?thesis by (simp add: push_bit_eq_mult FRACTIONAL_BITS_def)
qed

lemma raw_pos_unat: "0 < sint (w :: i64) \<Longrightarrow> int (unat w) = sint w"
proof -
  assume "0 < sint w"
  moreover have "uint w = sint w mod 2 ^ 64"
    by (simp add: uint_sint take_bit_eq_mod)
  ultimately have "uint w = sint w"
    using sint_lt [of w] by simp
  then show ?thesis by simp
qed

text \<open>
  \<open>Fixed64::sqrt\<close> returns zero for a non-positive argument and otherwise the largest
  fixed-point number whose exact square does not exceed the argument: on raw values,
  \<open>r\<^sup>2 \<le> a * 2 ^ 32 < (r + 1)\<^sup>2\<close>. The final saturation branch is never taken.
\<close>
theorem Fixed64_sqrt_correct:
  "(if sint (raw a) \<le> 0 then Fixed64_sqrt a = Fixed64_ZERO
    else sint (raw (Fixed64_sqrt a)) \<ge> 0
       \<and> (sint (raw (Fixed64_sqrt a))) ^ 2 \<le> sint (raw a) * 2 ^ 32
       \<and> sint (raw a) * 2 ^ 32 < (sint (raw (Fixed64_sqrt a)) + 1) ^ 2)"
proof (cases "sint (raw a) \<le> 0")
  case True
  then show ?thesis by (simp add: Fixed64_sqrt_def)
next
  case False
  then have pos: "0 < sint (raw a)" by simp
  define v where "v = push_bit FRACTIONAL_BITS (unat (raw a))"
  define r where "r = sqrt_loop 0 (2 ^ (msb_index v - msb_index v mod 2)) v"
  have iv: "int v = sint (raw a) * 2 ^ 32"
    using raw_pos_unat [OF pos] by (simp add: v_def push_bit_eq_mult FRACTIONAL_BITS_def)
  with pos have "0 < int v" by simp
  then have "0 < v" by simp
  from sqrt_loop_seeded [OF this] have r: "r ^ 2 \<le> v" "v < (r + 1) ^ 2"
    by (simp_all add: r_def)
  have "r ^ 2 < (2 ^ 48) ^ 2"
    using r(1) sqrt_operand_fits_u128 [of a] unfolding v_def by simp
  then have "r < 2 ^ 48" by (rule power_less_imp_less_base) simp
  then have small: "int r < 2 ^ 63" by simp
  have "Fixed64_sqrt a = Fixed64 (word_of_nat r)"
    using False small
    by (simp add: Fixed64_sqrt_def Let_def v_def [symmetric] r_def [symmetric] i64_MAX_def)
  moreover have "(word_of_nat r :: i64) = word_of_int (int r)" by simp
  moreover have "sint (word_of_int (int r) :: i64) = int r"
    using small by (intro sint_of_int_range) simp_all
  ultimately have s: "sint (raw (Fixed64_sqrt a)) = int r" by (metis Fixed64.sel)
  have "int (r ^ 2) \<le> int v" "int v < int ((r + 1) ^ 2)"
    using r by (simp_all only: of_nat_le_iff of_nat_less_iff)
  then have "(int r) ^ 2 \<le> int v" "int v < (int r + 1) ^ 2"
    by (simp_all add: add.commute)
  with False s iv show ?thesis by simp
qed

lemma low_bits_zero: "((w :: i64) AND 4294967295 = 0) = (sint w mod 2 ^ 32 = 0)"
proof -
  have "(w AND 4294967295 = 0) = (take_bit 32 w = 0)"
    by (simp add: take_bit_eq_mask mask_eq_exp_minus_1 push_bit_eq_mult)
  also have "\<dots> = (take_bit 32 (uint w) = 0)"
    by (simp add: word_uint_eq_iff unsigned_take_bit_eq)
  also have "take_bit 32 (uint w) = take_bit 32 (sint w)"
    by (simp add: sint_uint take_bit_signed_take_bit)
  finally show ?thesis by (simp add: take_bit_eq_mod)
qed

text \<open>
  \<open>Fixed64::ceil\<close> rounds up to a whole number as long as that number is representable.
  Above \<open>2147483647.0\<close> it is not, and the shift wraps: every such argument is sent to the
  smallest fixed-point number.
\<close>
lemma Fixed64_ceil_spec:
  "sint (raw (Fixed64_ceil a)) =
     (let c = - ((- sint (raw a)) div 2 ^ 32) in if c < 2 ^ 31 then c * 2 ^ 32 else i64_MIN)"
proof -
  let ?s = "sint (raw a)" and ?q = "sint (raw a) div 2 ^ 32"
  have b: "- (2 ^ 63) \<le> ?s" "?s < 2 ^ 63" using sint_ge [of "raw a"] sint_lt [of "raw a"] by simp_all
  have q: "- (2 ^ 31) \<le> ?q" "?q < 2 ^ 31" using b by simp_all
  show ?thesis
  proof (cases "?s mod 2 ^ 32 = 0")
    case True
    then have "- ((- ?s) div 2 ^ 32) = ?q" "?q * 2 ^ 32 = ?s"
      by (auto simp: zdiv_zminus1_eq_if)
    with True q show ?thesis
      by (simp add: Fixed64_ceil_def FRACTIONAL_BITS_def low_bits_zero)
  next
    case False
    then have c: "- ((- ?s) div 2 ^ 32) = ?q + 1" by (simp add: zdiv_zminus1_eq_if)
    have w: "push_bit 32 (signed_drop_bit 32 (raw a) + 1) = (word_of_int ((?q + 1) * 2 ^ 32) :: i64)"
    proof -
      have "signed_drop_bit 32 (raw a) = (word_of_int ?q :: i64)"
        by (simp only: sint_shift_right [symmetric] of_int_sint scast_id)
      then have "push_bit 32 (signed_drop_bit 32 (raw a) + 1) =
          (word_of_int ?q + 1) * (2 ^ 32 :: i64)"
        by (simp only: push_bit_eq_mult)
      also have "\<dots> = word_of_int ((?q + 1) * 2 ^ 32)"
        by (simp only: of_int_add of_int_mult of_int_1 of_int_power of_int_numeral)
      finally show ?thesis .
    qed
    have r: "sint (word_of_int ((?q + 1) * 2 ^ 32) :: i64) =
        (if ?q + 1 < 2 ^ 31 then (?q + 1) * 2 ^ 32 else i64_MIN)"
    proof (cases "?q + 1 < 2 ^ 31")
      case True
      with q show ?thesis by (subst sint_of_int_range) simp_all
    next
      case False
      with q have "?q + 1 = 2 ^ 31" by simp
      then show ?thesis by (simp add: i64_MIN_def)
    qed
    have m: "(push_bit 32 1 - 1 :: i64) = 4294967295" by simp
    have "Fixed64_ceil a = Fixed64 (push_bit 32 (signed_drop_bit 32 (raw a) + 1))"
      unfolding Fixed64_ceil_def FRACTIONAL_BITS_def Let_def m low_bits_zero using False by simp
    then have "raw (Fixed64_ceil a) = word_of_int ((?q + 1) * 2 ^ 32)"
      unfolding w by simp
    then show ?thesis unfolding c Let_def by (simp only: r)
  qed
qed


section \<open>Distances\<close>

text \<open>
  Saturation makes \<open>a - b\<close> and \<open>b - a\<close> differ by one unit at the ends of the range; the
  squares still agree, since both saturate there.
\<close>

lemma clamp_square_neg:
  "clamp_i64 ((clamp_i64 v * clamp_i64 v) div 2 ^ 32)
     = clamp_i64 ((clamp_i64 (- v) * clamp_i64 (- v)) div 2 ^ 32)"
proof (cases "\<bar>v\<bar> \<le> i64_MAX")
  case True
  then have "clamp_i64 v = v" "clamp_i64 (- v) = - v"
    by (auto simp: clamp_i64_def i64_MIN_def i64_MAX_def)
  then show ?thesis by simp
next
  case False
  have big: "clamp_i64 (z * z div 2 ^ 32) = i64_MAX" if "z = i64_MAX \<or> z = i64_MIN" for z
    using that by (auto simp: clamp_i64_def i64_MIN_def i64_MAX_def)
  from False have "clamp_i64 u = i64_MAX \<or> clamp_i64 u = i64_MIN" if "u = v \<or> u = - v" for u
    using that by (auto simp: clamp_i64_def i64_MIN_def i64_MAX_def)
  from this [of v] this [of "- v"] show ?thesis
    using big [of "clamp_i64 v"] big [of "clamp_i64 (- v)"] by simp
qed

lemma square_diff_commute: "(a - b) * (a - b) = (b - a) * (b - a :: Fixed64)"
proof (rule Fixed64_eqI)
  have "sint (raw b) - sint (raw a) = - (sint (raw a) - sint (raw b))" by simp
  then show "sint (raw ((a - b) * (a - b))) = sint (raw ((b - a) * (b - a)))"
    unfolding sint_mul sint_sub using clamp_square_neg by metis
qed

lemma batch_distance_loop_nth:
  "distinct is \<Longrightarrow> \<forall>i\<in>set is. i < length out \<Longrightarrow> j < length out \<Longrightarrow>
    batch_distance_loop os t is out ! j =
      (if j \<in> set is then Vec3Fix_distance_squared (os ! j) t else out ! j)"
proof (induction "is" arbitrary: out)
  case Nil
  then show ?case by simp
next
  case (Cons i "is")
  then show ?case
    by (auto simp: Let_def Vec3Fix_distance_squared_def Vec3Fix_magnitude_squared_def
        Vec3Fix_dot_def Vec3Fix_sub_def nth_list_update)
qed

lemma length_batch_distance_loop [simp]:
  "length (batch_distance_loop os t is out) = length out"
  by (induction "is" arbitrary: out) (simp_all add: Let_def)

lemma batch_distance_full:
  "length os = n \<Longrightarrow>
    batch_distance_loop os t [0..<n] (replicate n z) = map (\<lambda>p. Vec3Fix_distance_squared p t) os"
  by (rule nth_equalityI) (auto simp: batch_distance_loop_nth)

text \<open>
  The unrolled and looping batch routines agree with \<open>distance_squared\<close> lane by lane, and
  \<open>distance_squared\<close> does not depend on the order of its two points, saturation included.
\<close>
theorem batch_distances_agree:
  assumes "length os8 = 8" and "length os16 = 16"
  shows "batch_distance_squared_4x (o0, o1, o2, o3) t =
           (Vec3Fix_distance_squared o0 t, Vec3Fix_distance_squared o1 t,
            Vec3Fix_distance_squared o2 t, Vec3Fix_distance_squared o3 t)
       \<and> batch_distance_squared_8x os8 t = map (\<lambda>p. Vec3Fix_distance_squared t p) os8
       \<and> batch_distance_squared_16x os16 t = map (\<lambda>p. Vec3Fix_distance_squared t p) os16"
proof -
  have comm: "Vec3Fix_distance_squared p q = Vec3Fix_distance_squared q p" for p q
    unfolding Vec3Fix_distance_squared_def Vec3Fix_magnitude_squared_def Vec3Fix_dot_def
      Vec3Fix_sub_def Vec3Fix.select_convs
    using square_diff_commute by metis
  have "batch_distance_squared_4x (o0, o1, o2, o3) t =
      (Vec3Fix_distance_squared o0 t, Vec3Fix_distance_squared o1 t,
       Vec3Fix_distance_squared o2 t, Vec3Fix_distance_squared o3 t)"
    by (simp add: batch_distance_squared_4x_def Let_def Vec3Fix_distance_squared_def
        Vec3Fix_magnitude_squared_def Vec3Fix_dot_def Vec3Fix_sub_def)
  moreover have "batch_distance_squared_8x os8 t = map (\<lambda>p. Vec3Fix_distance_squared t p) os8"
    unfolding batch_distance_squared_8x_def batch_distance_full [OF assms(1)] by (simp add: comm)
  moreover have "batch_distance_squared_16x os16 t = map (\<lambda>p. Vec3Fix_distance_squared t p) os16"
    unfolding batch_distance_squared_16x_def batch_distance_full [OF assms(2)] by (simp add: comm)
  ultimately show ?thesis by blast
qed

theorem batch_distances_agree_witness:
  "batch_distance_squared_8x (replicate 8 (Vec3Fix_from_i32 1 2 3)) Vec3Fix_ZERO
     = replicate 8 (Vec3Fix_distance_squared Vec3Fix_ZERO (Vec3Fix_from_i32 1 2 3))"
  using batch_distances_agree
    [of "replicate 8 (Vec3Fix_from_i32 1 2 3)" "replicate 16 Vec3Fix_ZERO" Vec3Fix_ZERO Vec3Fix_ZERO
      Vec3Fix_ZERO Vec3Fix_ZERO Vec3Fix_ZERO]
  by simp

end
