(* ===== verification/Morton.thy ===== *)
theory Morton
  imports FixedPoint
begin

text \<open>
  The Z-order spatial index of \<^verbatim>\<open>eidolon-core/src/morton.rs\<close>: 21 bits of each coordinate
  interleaved into a 63-bit code through a 256-entry spread table, and the inverse. The bit of
  a spread word at position \<open>n\<close> is characterised once (\<open>bit_spread_bits_21\<close>); the round trips
  follow from it.
\<close>

definition MORTON_COORDINATE_BIAS :: int where "MORTON_COORDINATE_BIAS = 1048576"

definition MORTON_MAX_COORDINATE :: u32 where "MORTON_MAX_COORDINATE = 2097151"

text \<open>
  The compile-time table: entry \<open>i\<close> has bit \<open>3 * b\<close> set for every set bit \<open>b < 8\<close> of \<open>i\<close>. The
  inner loop over \<open>b\<close> is the recursion; the outer one fills the array.
\<close>

primrec spread_entry :: "nat \<Rightarrow> nat list \<Rightarrow> u32 \<Rightarrow> u32" where
  "spread_entry i [] val = val"
| "spread_entry i (b # bs) val =
     spread_entry i bs (if bit i b then val OR push_bit (b * 3) 1 else val)"

definition make_spread_table :: "u32 list" where
  "make_spread_table = map (\<lambda>i. spread_entry i [0..<8] 0) [0..<256]"

definition SPREAD_TABLE :: "u32 list" where "SPREAD_TABLE = make_spread_table"

definition spread_bits_21 :: "u32 \<Rightarrow> u64" where
  "spread_bits_21 w =
     (let clamped = w AND MORTON_MAX_COORDINATE;
          b0 = unat (clamped AND 0xFF);
          b1 = unat (drop_bit 8 clamped AND 0xFF);
          b2 = unat (drop_bit 16 clamped AND 0x1F)
      in ucast (SPREAD_TABLE ! b0)
         OR push_bit 24 (ucast (SPREAD_TABLE ! b1))
         OR push_bit 48 (ucast (SPREAD_TABLE ! b2)))"

definition compact_spread_24 :: "u32 \<Rightarrow> u8" where
  "compact_spread_24 w =
     (let b0 = ucast (w AND 1);
          b1 = ucast (drop_bit 3 w AND 1);
          b2 = ucast (drop_bit 6 w AND 1);
          b3 = ucast (drop_bit 9 w AND 1);
          b4 = ucast (drop_bit 12 w AND 1);
          b5 = ucast (drop_bit 15 w AND 1);
          b6 = ucast (drop_bit 18 w AND 1);
          b7 = ucast (drop_bit 21 w AND 1)
      in b0 OR push_bit 1 b1 OR push_bit 2 b2 OR push_bit 3 b3 OR push_bit 4 b4
         OR push_bit 5 b5 OR push_bit 6 b6 OR push_bit 7 b7)"

definition compact_bits_21 :: "u64 \<Rightarrow> u32" where
  "compact_bits_21 w =
     (let c0 = ucast (compact_spread_24 (ucast w));
          c1 = ucast (compact_spread_24 (ucast (drop_bit 24 w)));
          c2 = ucast (compact_spread_24 (ucast (drop_bit 48 w)))
      in c0 OR push_bit 8 c1 OR push_bit 16 c2)"

definition morton_encode_u32 :: "u32 \<Rightarrow> u32 \<Rightarrow> u32 \<Rightarrow> u64" where
  "morton_encode_u32 px py pz =
     spread_bits_21 px OR push_bit 1 (spread_bits_21 py) OR push_bit 2 (spread_bits_21 pz)"

definition morton_decode_u32 :: "u64 \<Rightarrow> u32 \<times> u32 \<times> u32" where
  "morton_decode_u32 code =
     (compact_bits_21 code, compact_bits_21 (drop_bit 1 code), compact_bits_21 (drop_bit 2 code))"

text \<open>
  Signed coordinates: \<open>saturating_add\<close> of the bias, clamped to \<open>0..=2^21 - 1\<close> in \<open>i32\<close>, cast to
  \<open>u32\<close>. The decoder subtracts the bias from a value below \<open>2^21\<close>, which cannot overflow an
  \<open>i32\<close> for the codes the compactor returns (\<open>2^24 - 1\<close> at most).
\<close>

definition morton_bias :: "i32 \<Rightarrow> u32" where
  "morton_bias v =
     word_of_int (max 0 (min (sint (of_int_sat (sint v + MORTON_COORDINATE_BIAS) :: i32)) 2097151))"

definition morton_encode_i32 :: "i32 \<Rightarrow> i32 \<Rightarrow> i32 \<Rightarrow> u64" where
  "morton_encode_i32 px py pz = morton_encode_u32 (morton_bias px) (morton_bias py) (morton_bias pz)"

definition morton_decode_i32 :: "u64 \<Rightarrow> i32 \<times> i32 \<times> i32" where
  "morton_decode_i32 code =
     (case morton_decode_u32 code of (bx, by', bz) \<Rightarrow>
       (bx - word_of_int MORTON_COORDINATE_BIAS, by' - word_of_int MORTON_COORDINATE_BIAS,
        bz - word_of_int MORTON_COORDINATE_BIAS))"

definition morton_encode_vec3 :: "Vec3Fix \<Rightarrow> u64" where
  "morton_encode_vec3 pos =
     morton_encode_i32 (Fixed64_to_i32 (vec_x pos)) (Fixed64_to_i32 (vec_y pos))
       (Fixed64_to_i32 (vec_z pos))"

definition morton_decode_vec3 :: "u64 \<Rightarrow> Vec3Fix" where
  "morton_decode_vec3 code =
     (case morton_decode_i32 code of (px, py, pz) \<Rightarrow>
       \<lparr>vec_x = Fixed64_from_i32 px, vec_y = Fixed64_from_i32 py, vec_z = Fixed64_from_i32 pz\<rparr>)"

text \<open>Specification: the value a coordinate comes back as, clamped to 21 signed bits.\<close>

definition morton_clamp :: "i32 \<Rightarrow> i32" where
  "morton_clamp v = word_of_int (max (- 1048576) (min (sint v) 1048575))"

section \<open>Spreading and compacting, bit by bit\<close>

lemma bit_spread_entry:
  "\<forall>b\<in>set bs. b < 8 \<Longrightarrow>
    bit (spread_entry i bs val) n \<longleftrightarrow>
      bit val n \<or> (n < 32 \<and> n mod 3 = 0 \<and> n div 3 \<in> set bs \<and> bit i (n div 3))"
proof (induction bs arbitrary: val)
  case Nil
  then show ?case by simp
next
  case (Cons b bs)
  have "bit (push_bit (b * 3) 1 :: u32) n \<longleftrightarrow> n < 32 \<and> n mod 3 = 0 \<and> n div 3 = b"
    by (auto simp: bit_exp_iff)
  then show ?case using Cons by (auto simp: bit_or_iff)
qed

lemma bit_SPREAD_TABLE:
  "k < 256 \<Longrightarrow> bit (SPREAD_TABLE ! k) n \<longleftrightarrow> n mod 3 = 0 \<and> n div 3 < 8 \<and> bit k (n div 3)"
  unfolding SPREAD_TABLE_def make_spread_table_def
  by (subst nth_map) (auto simp: bit_spread_entry)

lemma bit_table_of_take:
  "m \<le> 8 \<Longrightarrow>
    bit (ucast (SPREAD_TABLE ! unat (take_bit m w)) :: u64) n
      \<longleftrightarrow> n mod 3 = 0 \<and> n div 3 < m \<and> bit (w :: u32) (n div 3)"
proof -
  assume m: "m \<le> 8"
  have "unat (take_bit m w) < 2 ^ m" by (rule unat_take_bit_less)
  also have "\<dots> \<le> 2 ^ 8" using m by (rule power_increasing) simp
  finally have "unat (take_bit m w) < 256" by simp
  then show ?thesis
    using m by (auto simp: bit_ucast_iff bit_SPREAD_TABLE bit_unat_iff bit_take_bit_iff)
qed

lemma bit_clamped: "bit (w AND MORTON_MAX_COORDINATE) j \<longleftrightarrow> j < 21 \<and> bit w j"
proof -
  have "w AND MORTON_MAX_COORDINATE = take_bit 21 w"
    by (simp add: take_bit_eq_mask mask_eq_exp_minus_1 MORTON_MAX_COORDINATE_def)
  then show ?thesis by (simp add: bit_take_bit_iff)
qed

lemma bit_spread_bits_21:
  "bit (spread_bits_21 w) n \<longleftrightarrow> n mod 3 = 0 \<and> n div 3 < 21 \<and> bit w (n div 3)"
proof -
  have t8: "bit (ucast (SPREAD_TABLE ! unat (take_bit 8 (c :: u32))) :: u64) m
      \<longleftrightarrow> m mod 3 = 0 \<and> m div 3 < 8 \<and> bit c (m div 3)" for c m
    by (rule bit_table_of_take) simp
  have t5: "bit (ucast (SPREAD_TABLE ! unat (take_bit 5 (c :: u32))) :: u64) m
      \<longleftrightarrow> m mod 3 = 0 \<and> m div 3 < 5 \<and> bit c (m div 3)" for c m
    by (rule bit_table_of_take) simp
  have g: "(q < 8 \<and> q < 21 \<and> B) = (q < 8 \<and> B)" "(q < 8 \<and> 8 + q < 21 \<and> B) = (q < 8 \<and> B)"
    "(q < 5 \<and> 16 + q < 21 \<and> B) = (q < 5 \<and> B)" for q :: nat and B
    by auto
  have "bit (spread_bits_21 w) n \<longleftrightarrow>
      (n mod 3 = 0 \<and> n div 3 < 8 \<and> bit w (n div 3))
      \<or> (24 \<le> n \<and> n < 64 \<and> (n - 24) mod 3 = 0 \<and> (n - 24) div 3 < 8 \<and> bit w (8 + (n - 24) div 3))
      \<or> (48 \<le> n \<and> n < 64 \<and> (n - 48) mod 3 = 0 \<and> (n - 48) div 3 < 5 \<and> bit w (16 + (n - 48) div 3))"
    unfolding spread_bits_21_def Let_def bit_or_iff bit_push_bit_iff and_mask_take_bit
    by (simp only: t8 t5 bit_drop_bit_eq bit_clamped g comp_apply possible_bit_word
        len_of_numeral_defs disj_assoc) simp
  also have "\<dots> \<longleftrightarrow> n mod 3 = 0 \<and> n div 3 < 21 \<and> bit w (n div 3)"
  proof -
    have r: "c + (n - 3 * c) div 3 = n div 3" "(n - 3 * c) mod 3 = n mod 3" if "3 * c \<le> n" for c
      using le_Suc_ex [OF that] by auto
    from r [of 8] have r1: "8 + (n - 24) div 3 = n div 3" "(n - 24) mod 3 = n mod 3" if "24 \<le> n"
      using that by simp_all
    from r [of 16] have r2: "16 + (n - 48) div 3 = n div 3" "(n - 48) mod 3 = n mod 3" if "48 \<le> n"
      using that by simp_all
    consider "n < 24" | "24 \<le> n" "n < 48" | "48 \<le> n" by linarith
    then show ?thesis
    proof cases
      case 1
      then have "n div 3 < 8" by (simp add: less_mult_imp_div_less)
      with 1 show ?thesis by simp
    next
      case 2
      define q where "q = n div 3"
      have "n div 3 < 16" using 2(2) by (intro less_mult_imp_div_less) simp
      moreover have "8 \<le> n div 3" using 2(1) by simp
      ultimately have e: "q < 8 \<longleftrightarrow> False" "q - 8 < 8 \<longleftrightarrow> True" "q < 21 \<longleftrightarrow> True" "8 + (q - 8) = q"
        unfolding q_def by auto
      have d: "(n - 24) div 3 = q - 8" using r1 [OF 2(1)] unfolding q_def by (metis diff_add_inverse)
      have "(n - 24) mod 3 = n mod 3" using r1 [OF 2(1)] by simp
      then show ?thesis using 2 unfolding d q_def [symmetric] e by auto
    next
      case 3
      then have "24 \<le> n" by simp
      from r1 [OF this] r2 [OF 3] have d: "(n - 24) div 3 = n div 3 - 8"
        "(n - 48) div 3 = n div 3 - 16" by (metis diff_add_inverse)+
      define q where "q = n div 3"
      from 3 have q: "16 \<le> q" by (simp add: q_def)
      then have e: "q - 8 < 8 \<longleftrightarrow> False" "q < 8 \<longleftrightarrow> False" "q - 16 < 5 \<longleftrightarrow> q < 21" "8 + (q - 8) = q"
        "16 + (q - 16) = q" by auto
      have "q < 21 \<Longrightarrow> n < 64" by (simp add: q_def)
      moreover have "(n - 24) mod 3 = n mod 3" "(n - 48) mod 3 = n mod 3"
        using r1 [OF \<open>24 \<le> n\<close>] r2 [OF 3] by simp_all
      ultimately show ?thesis using 3 \<open>24 \<le> n\<close> unfolding d q_def [symmetric] e by auto
    qed
  qed
  finally show ?thesis .
qed

lemma bit_single:
  "k < 8 \<Longrightarrow> bit (push_bit k (ucast (drop_bit m (w :: u32) AND 1) :: u8)) j \<longleftrightarrow> j = k \<and> bit w m"
  by (auto simp: bit_push_bit_iff bit_ucast_iff bit_and_iff bit_1_iff bit_drop_bit_eq)

lemma bit_compact_spread_24:
  "bit (compact_spread_24 w) j \<longleftrightarrow> j < 8 \<and> bit w (3 * j)"
proof -
  have z: "ucast (w AND 1) = push_bit 0 (ucast (drop_bit 0 w AND 1) :: u8)"
    by simp
  have i8: "(0::nat) < 8" "(1::nat) < 8" "(2::nat) < 8" "(3::nat) < 8" "(4::nat) < 8"
    "(5::nat) < 8" "(6::nat) < 8" "(7::nat) < 8" by simp_all
  have "bit (compact_spread_24 w) j \<longleftrightarrow>
      (j = 0 \<and> bit w 0) \<or> (j = 1 \<and> bit w 3) \<or> (j = 2 \<and> bit w 6) \<or> (j = 3 \<and> bit w 9)
      \<or> (j = 4 \<and> bit w 12) \<or> (j = 5 \<and> bit w 15) \<or> (j = 6 \<and> bit w 18) \<or> (j = 7 \<and> bit w 21)"
    unfolding compact_spread_24_def Let_def z bit_or_iff by (simp only: bit_single i8)
  also have "\<dots> \<longleftrightarrow> j < 8 \<and> bit w (3 * j)"
  proof (cases "j < 8")
    case True
    then have "j \<in> {0, 1, 2, 3, 4, 5, 6, 7}" by auto
    then show ?thesis by (elim insertE emptyE) simp_all
  next
    case False
    then show ?thesis by (intro iffI; (elim disjE)?; simp)
  qed
  finally show ?thesis .
qed

lemma bit_compact_part:
  "bit (ucast (compact_spread_24 (ucast (drop_bit m w))) :: u32) i
     \<longleftrightarrow> i < 8 \<and> bit (w :: u64) (m + 3 * i)"
  by (auto simp: bit_ucast_iff bit_compact_spread_24 bit_drop_bit_eq)

lemma bit_compact_bits_21: "bit (compact_bits_21 w) j \<longleftrightarrow> j < 24 \<and> bit w (3 * j)"
proof -
  have "bit (compact_bits_21 w) j \<longleftrightarrow>
      (j < 8 \<and> bit w (0 + 3 * j))
      \<or> (8 \<le> j \<and> j < 32 \<and> j - 8 < 8 \<and> bit w (24 + 3 * (j - 8)))
      \<or> (16 \<le> j \<and> j < 32 \<and> j - 16 < 8 \<and> bit w (48 + 3 * (j - 16)))"
    using bit_compact_part [of 0 w j]
    unfolding compact_bits_21_def Let_def bit_or_iff bit_push_bit_iff bit_compact_part
      drop_bit_0 id_apply
    by simp
  also have "\<dots> \<longleftrightarrow> j < 24 \<and> bit w (3 * j)"
  proof -
    consider "j < 8" | "8 \<le> j" "j < 16" | "16 \<le> j" by linarith
    then show ?thesis
    proof cases
      case 2
      then have "24 + 3 * (j - 8) = 3 * j" by simp
      with 2 show ?thesis by simp
    next
      case 3
      then have e: "48 + 3 * (j - 16) = 3 * j" by simp
      from 3 have "\<not> j < 8" "j < 32 \<and> j - 16 < 8 \<longleftrightarrow> j < 24" "\<not> j - 8 < 8" by auto
      with 3 show ?thesis unfolding e by auto
    qed simp
  qed
  finally show ?thesis .
qed


section \<open>Round trips\<close>

lemma bit_morton_encode_u32:
  "bit (morton_encode_u32 a b c) n \<longleftrightarrow>
     n < 63 \<and> (if n mod 3 = 0 then bit a (n div 3)
               else if n mod 3 = 1 then bit b (n div 3) else bit c (n div 3))"
proof -
  have d: "n = 3 * (n div 3) + n mod 3" by simp
  have div1: "Suc (3 * k) div 3 = k" for k :: nat by simp
  have div2: "Suc (Suc (3 * k)) div 3 = k \<and> Suc (Suc (3 * k)) mod 3 = 2" for k :: nat
    by (simp add: mod_Suc)
  have "n mod 3 < 3" by simp
  then consider "n mod 3 = 0" | "n mod 3 = 1" | "n mod 3 = 2" by linarith
  then show ?thesis
  proof cases
    case 1
    then obtain k where k: "n = 3 * k" by auto
    have "(3 * k - 1) mod 3 \<noteq> 0" "(3 * k - 2) mod 3 \<noteq> 0" if "0 < k"
      using that by (cases k; simp add: mod_Suc)+
    then show ?thesis
      unfolding morton_encode_u32_def bit_or_iff bit_push_bit_iff bit_spread_bits_21
      by (cases "k = 0") (auto simp: k)
  next
    case 2
    with d obtain k where k: "n = 3 * k + 1" by metis
    have "(3 * k - 1) mod 3 \<noteq> 0" if "0 < k" using that by (cases k) (simp_all add: mod_Suc)
    then show ?thesis
      unfolding morton_encode_u32_def bit_or_iff bit_push_bit_iff bit_spread_bits_21
      using div1 [of k] by (cases "k = 0") (auto simp: k)
  next
    case 3
    with d obtain k where k: "n = 3 * k + 2" by metis
    show ?thesis
      unfolding morton_encode_u32_def bit_or_iff bit_push_bit_iff bit_spread_bits_21
      using div2 [of k] by (auto simp: k)
  qed
qed

lemma morton_decode_encode_u32:
  assumes "unat a < 2 ^ 21" "unat b < 2 ^ 21" "unat c < 2 ^ 21"
  shows "morton_decode_u32 (morton_encode_u32 a b c) = (a, b, c)"
proof -
  have lo: "j < 21" if "unat w < 2 ^ 21" "bit w j" for w :: u32 and j
  proof (rule ccontr)
    assume "\<not> j < 21"
    then have "unat w < 2 ^ j" using that(1) power_increasing [of 21 j "2 :: nat"] by linarith
    then have "\<not> bit (unat w) j" by (simp add: bit_iff_odd)
    with that(2) show False by (simp add: bit_unat_iff)
  qed
  have lo': "j < 24 \<and> 3 * j + i < 63 \<and> bit w j \<longleftrightarrow> bit w j"
    if "unat w < 2 ^ 21" "i < 3" for w :: u32 and i j
    using lo [OF that(1), of j] that(2) by auto
  have dm: "(3 * j + i) mod 3 = i" "(3 * j + i) div 3 = j" if "i < 3" for i j :: nat
    using that by simp_all
  have "compact_bits_21 (morton_encode_u32 a b c) = a"
    using lo' [OF assms(1), of 0] dm [of 0]
    by (intro bit_eqI) (simp add: bit_compact_bits_21 bit_morton_encode_u32)
  moreover have "compact_bits_21 (drop_bit 1 (morton_encode_u32 a b c)) = b"
    using lo' [OF assms(2), of 1] dm [of 1]
    by (intro bit_eqI)
      (simp add: bit_compact_bits_21 bit_morton_encode_u32 bit_drop_bit_eq add.commute [of 1] del: One_nat_def)
  moreover have "compact_bits_21 (drop_bit 2 (morton_encode_u32 a b c)) = c"
    using lo' [OF assms(3), of 2] dm [of 2]
    by (intro bit_eqI)
      (simp add: bit_compact_bits_21 bit_morton_encode_u32 bit_drop_bit_eq add.commute [of 2])
  ultimately show ?thesis by (simp add: morton_decode_u32_def)
qed

lemma unat_morton_bias: "int (unat (morton_bias v)) = max 0 (min (sint v + 1048576) 2097151)"
proof -
  have "- (2 ^ 31) \<le> sint v" "sint v < 2 ^ 31"
    using sint_ge [of v] sint_lt [of v] by simp_all
  then have "sint (of_int_sat (sint v + MORTON_COORDINATE_BIAS) :: i32)
      = min (sint v + 1048576) (2 ^ 31 - 1)"
    unfolding MORTON_COORDINATE_BIAS_def sint_of_int_sat by simp
  then have "morton_bias v = word_of_int (max 0 (min (sint v + 1048576) 2097151))"
    unfolding morton_bias_def by (simp add: min.assoc)
  moreover have "0 \<le> max 0 (min (sint v + 1048576) (2097151 :: int))"
    "max 0 (min (sint v + 1048576) 2097151) < (2 :: int) ^ 32" by simp_all
  moreover from this have "uint (word_of_int (max 0 (min (sint v + 1048576) 2097151)) :: u32)
      = max 0 (min (sint v + 1048576) 2097151)"
    unfolding uint_word_of_int_eq by (intro take_bit_int_eq_self) simp_all
  ultimately show ?thesis by simp
qed

lemma sint_morton_clamp: "sint (morton_clamp v) = max (- 1048576) (min (sint v) 1048575)"
  unfolding morton_clamp_def by (subst sint_of_int_range) simp_all

lemma morton_unbias: "morton_bias v - word_of_int MORTON_COORDINATE_BIAS = morton_clamp v"
proof -
  have "morton_bias v = word_of_int (max 0 (min (sint v + 1048576) 2097151))"
    by (simp add: unat_morton_bias [symmetric])
  also have "max 0 (min (sint v + 1048576) 2097151) = max (- 1048576) (min (sint v) 1048575) + 1048576"
    by simp
  finally show ?thesis
    unfolding morton_clamp_def MORTON_COORDINATE_BIAS_def by simp
qed

lemma morton_decode_encode_i32:
  "morton_decode_i32 (morton_encode_i32 px py pz)
     = (morton_clamp px, morton_clamp py, morton_clamp pz)"
proof -
  have "unat (morton_bias v) < 2 ^ 21" for v
  proof -
    have "int (unat (morton_bias v)) < int (2 ^ 21)" unfolding unat_morton_bias by simp
    then show ?thesis by (simp only: of_nat_less_iff)
  qed
  then show ?thesis
    by (simp add: morton_decode_i32_def morton_encode_i32_def morton_decode_encode_u32 morton_unbias)
qed

text \<open>
  Encoding a signed cell coordinate triple and decoding the code returns every coordinate
  clamped to \<open>-2^20 .. 2^20 - 1\<close>, for all \<open>i32\<close> inputs; in particular the round trip is the
  identity on the documented range of plus or minus one million.
\<close>

theorem morton_i32_roundtrip:
  "morton_decode_i32 (morton_encode_i32 px py pz)
     = (morton_clamp px, morton_clamp py, morton_clamp pz)"
  by (rule morton_decode_encode_i32)

lemma sint_to_i32: "sint (Fixed64_to_i32 a) = sint (raw a) div 2 ^ 32"
proof -
  have "- (2 ^ 63) \<le> sint (raw a)" "sint (raw a) < 2 ^ 63"
    using sint_ge [of "raw a"] sint_lt [of "raw a"] by simp_all
  then have "- (2 ^ 31) \<le> sint (raw a) div 2 ^ 32" "sint (raw a) div 2 ^ 32 < 2 ^ 31" by simp_all
  then have "sint (word_of_int (sint (raw a) div 2 ^ 32) :: i32) = sint (raw a) div 2 ^ 32"
    by (subst sint_of_int_range) simp_all
  moreover have "Fixed64_to_i32 a = word_of_int (sint (raw a) div 2 ^ 32)"
    unfolding Fixed64_to_i32_def FRACTIONAL_BITS_def
    unfolding sint_shift_right [symmetric] by (rule ucast_as_of_int) simp
  ultimately show ?thesis by simp
qed

lemma floor_of_to_i32: "Fixed64_from_i32 (Fixed64_to_i32 a) = Fixed64_floor a"
  by (rule Fixed64_eqI) (simp only: sint_from_i32 sint_to_i32 sint_floor)

text \<open>
  Position round trip: a position whose three coordinates lie in \<open>-2^20 .. 2^20\<close> (in whole
  units, upper bound excluded) is decoded from its Morton code as the lower corner of its unit
  cell, the componentwise floor.
\<close>

theorem morton_vec3_roundtrip:
  assumes "\<forall>c \<in> {vec_x pos, vec_y pos, vec_z pos}. - (2 ^ 52) \<le> sint (raw c) \<and> sint (raw c) < 2 ^ 52"
  shows "morton_decode_vec3 (morton_encode_vec3 pos) =
    \<lparr>vec_x = Fixed64_floor (vec_x pos), vec_y = Fixed64_floor (vec_y pos),
     vec_z = Fixed64_floor (vec_z pos)\<rparr>"
proof -
  have "morton_clamp (Fixed64_to_i32 c) = Fixed64_to_i32 c"
    if "- (2 ^ 52) \<le> sint (raw c)" "sint (raw c) < 2 ^ 52" for c
  proof (rule sint_eqD)
    have "- 1048576 \<le> sint (raw c) div 2 ^ 32" "sint (raw c) div 2 ^ 32 < 1048576"
      using that by simp_all
    then show "sint (morton_clamp (Fixed64_to_i32 c)) = sint (Fixed64_to_i32 c)"
      unfolding sint_morton_clamp sint_to_i32 by simp
  qed
  with assms show ?thesis
    by (simp add: morton_decode_vec3_def morton_encode_vec3_def morton_decode_encode_i32 floor_of_to_i32)
qed

theorem morton_vec3_roundtrip_witness:
  "morton_decode_vec3 (morton_encode_vec3 (Vec3Fix_from_i32 (- 7) 1000000 0)) =
     Vec3Fix_from_i32 (- 7) 1000000 0"
  using morton_vec3_roundtrip [of "Vec3Fix_from_i32 (- 7) 1000000 0"]
  by (simp add: Vec3Fix_from_i32_def sint_from_i32 Fixed64_eqI sint_floor)

end
