(* ===== verification/Quantize.thy ===== *)
theory Quantize
  imports FixedPoint "HOL-Library.Monad_Syntax"
begin

text \<open>
  Cell-relative quantisation of \<^verbatim>\<open>eidolon-core/src/quant.rs\<close>: the fixed-point path of
  \<open>QuantizedCellCoord\<close> (a 64 m by 32 m by 64 m cell in 16, 12 and 16 bits), the discrete yaw
  and the three packed wire formats of 7, 5 and 3 bytes. The conversions from and to \<open>f64\<close> are
  not modelled.
\<close>

section \<open>Data\<close>

definition CELL_HORIZONTAL_SIZE :: Fixed64 where "CELL_HORIZONTAL_SIZE = Fixed64_from_i32 64"
definition CELL_VERTICAL_SIZE :: Fixed64 where "CELL_VERTICAL_SIZE = Fixed64_from_i32 32"
definition MAX_QUANTIZED_HORIZONTAL :: u16 where "MAX_QUANTIZED_HORIZONTAL = 0xFFFF"
definition MAX_QUANTIZED_VERTICAL :: u16 where "MAX_QUANTIZED_VERTICAL = 0x0FFF"
definition FLAG_CELL_ANCHOR :: u8 where "FLAG_CELL_ANCHOR = push_bit 3 1"

record QuantizedCellCoord =
  qc_x :: u16
  qc_y :: u16
  qc_z :: u16

datatype QuantizedYaw = QuantizedYaw (yaw_byte: u8)

datatype QuantizedYaw6Bit = QuantizedYaw6Bit (yaw6_byte: u8)

datatype QuantizedYaw4Bit = QuantizedYaw4Bit (yaw4_byte: u8)

record MidfieldQuantizedCoord =
  mid_x :: u16
  mid_y :: u8
  mid_z :: u16

record HorizonQuantizedCoord =
  hor_x :: u8
  hor_y :: u8
  hor_z :: u8

section \<open>Quantisation of a cell\<close>

definition QuantizedCellCoord_new :: "u16 \<Rightarrow> u16 \<Rightarrow> u16 \<Rightarrow> QuantizedCellCoord" where
  "QuantizedCellCoord_new px py pz =
     (let clamped_y = if py > MAX_QUANTIZED_VERTICAL then MAX_QUANTIZED_VERTICAL else py
      in \<lparr>qc_x = px, qc_y = clamped_y, qc_z = pz\<rparr>)"

text \<open>
  The raw values are cast to \<open>u64\<close>; the products stay below \<open>2^48\<close>. \<open>None\<close> is the panic of a
  \<open>clamp\<close> with crossed bounds.
\<close>

definition quantize_axis :: "nat \<Rightarrow> u16 \<Rightarrow> Fixed64 \<Rightarrow> u16" where
  "quantize_axis shift mx clamped =
     (let scaled = drop_bit shift (raw clamped)
      in ucast (min (drop_bit 32 (scaled * ucast mx)) (ucast mx)))"

definition QuantizedCellCoord_quantize ::
  "Fixed64 \<Rightarrow> Fixed64 \<Rightarrow> Fixed64 \<Rightarrow> QuantizedCellCoord option"
where
  "QuantizedCellCoord_quantize local_x local_y local_z =
     do {
       x_clamped \<leftarrow> Fixed64_clamp local_x Fixed64_ZERO CELL_HORIZONTAL_SIZE;
       y_clamped \<leftarrow> Fixed64_clamp local_y Fixed64_ZERO CELL_VERTICAL_SIZE;
       z_clamped \<leftarrow> Fixed64_clamp local_z Fixed64_ZERO CELL_HORIZONTAL_SIZE;
       Some \<lparr>qc_x = quantize_axis 6 MAX_QUANTIZED_HORIZONTAL x_clamped,
             qc_y = quantize_axis 5 MAX_QUANTIZED_VERTICAL y_clamped,
             qc_z = quantize_axis 6 MAX_QUANTIZED_HORIZONTAL z_clamped\<rparr>
     }"

definition QuantizedCellCoord_dequantize :: "QuantizedCellCoord \<Rightarrow> Vec3Fix" where
  "QuantizedCellCoord_dequantize q =
     (let x_frac = Fixed64_div (Fixed64_from_i32 (ucast (qc_x q)))
                     (Fixed64_from_i32 (ucast MAX_QUANTIZED_HORIZONTAL));
          y_frac = Fixed64_div (Fixed64_from_i32 (ucast (qc_y q AND MAX_QUANTIZED_VERTICAL)))
                     (Fixed64_from_i32 (ucast MAX_QUANTIZED_VERTICAL));
          z_frac = Fixed64_div (Fixed64_from_i32 (ucast (qc_z q)))
                     (Fixed64_from_i32 (ucast MAX_QUANTIZED_HORIZONTAL))
      in \<lparr>vec_x = x_frac * CELL_HORIZONTAL_SIZE, vec_y = y_frac * CELL_VERTICAL_SIZE,
          vec_z = z_frac * CELL_HORIZONTAL_SIZE\<rparr>)"

definition QuantizedCellCoord_quantize_from_global ::
  "Vec3Fix \<Rightarrow> (i32 \<times> i32 \<times> i32 \<times> QuantizedCellCoord) option"
where
  "QuantizedCellCoord_quantize_from_global pos =
     (let cell_x = ucast (signed_drop_bit 38 (raw (vec_x pos)));
          cell_y = ucast (signed_drop_bit 37 (raw (vec_y pos)));
          cell_z = ucast (signed_drop_bit 38 (raw (vec_z pos)));
          local_x = vec_x pos - Fixed64_from_i32 (cell_x * 64);
          local_y = vec_y pos - Fixed64_from_i32 (cell_y * 32);
          local_z = vec_z pos - Fixed64_from_i32 (cell_z * 64)
      in do {
        quant \<leftarrow> QuantizedCellCoord_quantize local_x local_y local_z;
        Some (cell_x, cell_y, cell_z, quant)
      })"

definition QuantizedCellCoord_dequantize_to_global ::
  "i32 \<Rightarrow> i32 \<Rightarrow> i32 \<Rightarrow> QuantizedCellCoord \<Rightarrow> Vec3Fix"
where
  "QuantizedCellCoord_dequantize_to_global cell_x cell_y cell_z quant =
     (let cell_origin = \<lparr>vec_x = Fixed64_from_i32 (cell_x * 64),
                         vec_y = Fixed64_from_i32 (cell_y * 32),
                         vec_z = Fixed64_from_i32 (cell_z * 64)\<rparr>
      in Vec3Fix_add cell_origin (QuantizedCellCoord_dequantize quant))"

definition QuantizedCellCoord_is_valid :: "QuantizedCellCoord \<Rightarrow> bool" where
  "QuantizedCellCoord_is_valid q \<longleftrightarrow> qc_y q \<le> MAX_QUANTIZED_VERTICAL"

section \<open>Discrete headings\<close>

definition shortest_arc_delta :: "QuantizedYaw \<Rightarrow> QuantizedYaw \<Rightarrow> i8" where
  "shortest_arc_delta a target = yaw_byte target - yaw_byte a"

definition advance_toward :: "QuantizedYaw \<Rightarrow> QuantizedYaw \<Rightarrow> u8 \<Rightarrow> QuantizedYaw" where
  "advance_toward a target max_step =
     (let delta = shortest_arc_delta a target in
      if delta = 0 then a
      else if sint delta > 0
      then (let step = min delta max_step in QuantizedYaw (yaw_byte a + step))
      else (let step = min (- delta) max_step in QuantizedYaw (yaw_byte a - step)))"

definition yaw6_from_quantized_yaw :: "QuantizedYaw \<Rightarrow> QuantizedYaw6Bit" where
  "yaw6_from_quantized_yaw yaw = QuantizedYaw6Bit (drop_bit 2 (yaw_byte yaw))"

definition yaw6_to_quantized_yaw :: "QuantizedYaw6Bit \<Rightarrow> QuantizedYaw" where
  "yaw6_to_quantized_yaw yaw = QuantizedYaw (push_bit 2 (yaw6_byte yaw AND 0x3F))"

definition yaw4_from_quantized_yaw :: "QuantizedYaw \<Rightarrow> QuantizedYaw4Bit" where
  "yaw4_from_quantized_yaw yaw = QuantizedYaw4Bit (drop_bit 4 (yaw_byte yaw))"

definition yaw4_to_quantized_yaw :: "QuantizedYaw4Bit \<Rightarrow> QuantizedYaw" where
  "yaw4_to_quantized_yaw yaw = QuantizedYaw (push_bit 4 (yaw4_byte yaw AND 0x0F))"

section \<open>Wire formats\<close>

definition pack_with_yaw_and_flags :: "QuantizedCellCoord \<Rightarrow> QuantizedYaw \<Rightarrow> u8 \<Rightarrow> u8 list" where
  "pack_with_yaw_and_flags q yaw flags =
     (let y_bounded = qc_y q AND MAX_QUANTIZED_VERTICAL;
          yaw_val = yaw_byte yaw;
          flags_nibble = flags AND 0x0F
      in [ucast (qc_x q AND 0xFF),
          ucast (drop_bit 8 (qc_x q) AND 0xFF),
          ucast (qc_z q AND 0xFF),
          ucast (drop_bit 8 (qc_z q) AND 0xFF),
          ucast (y_bounded AND 0xFF),
          ucast (drop_bit 8 y_bounded AND 0x0F) OR push_bit 4 (yaw_val AND 0x0F),
          (drop_bit 4 yaw_val AND 0x0F) OR push_bit 4 flags_nibble])"

definition unpack_with_yaw_and_flags :: "u8 list \<Rightarrow> QuantizedCellCoord \<times> QuantizedYaw \<times> u8" where
  "unpack_with_yaw_and_flags bytes =
     (let px = ucast (bytes ! 0) OR push_bit 8 (ucast (bytes ! 1));
          pz = ucast (bytes ! 2) OR push_bit 8 (ucast (bytes ! 3));
          py = ucast (bytes ! 4) OR push_bit 8 (ucast (bytes ! 5 AND 0x0F));
          yaw = (drop_bit 4 (bytes ! 5) AND 0x0F) OR push_bit 4 (bytes ! 6 AND 0x0F);
          flags = drop_bit 4 (bytes ! 6) AND 0x0F
      in (\<lparr>qc_x = px, qc_y = py, qc_z = pz\<rparr>, QuantizedYaw yaw, flags))"

definition Midfield_pack :: "MidfieldQuantizedCoord \<Rightarrow> QuantizedYaw6Bit \<Rightarrow> u8 \<Rightarrow> u8 list" where
  "Midfield_pack q yaw flags =
     (let x_val = mid_x q AND 0x03FF;
          z_val = mid_z q AND 0x03FF;
          y_val = mid_y q;
          yaw_val = yaw6_byte yaw AND 0x3F;
          flags_nibble = flags AND 0x0F
      in [ucast (x_val AND 0xFF),
          ucast (drop_bit 8 x_val AND 0x03) OR push_bit 2 (ucast (z_val AND 0x3F)),
          ucast (drop_bit 6 z_val AND 0x0F) OR push_bit 4 (y_val AND 0x0F),
          (drop_bit 4 y_val AND 0x0F) OR push_bit 4 (yaw_val AND 0x0F),
          (drop_bit 4 yaw_val AND 0x03) OR push_bit 2 flags_nibble])"

definition Midfield_unpack :: "u8 list \<Rightarrow> MidfieldQuantizedCoord \<times> QuantizedYaw6Bit \<times> u8" where
  "Midfield_unpack bytes =
     (let px = ucast (bytes ! 0) OR push_bit 8 (ucast (bytes ! 1 AND 0x03));
          pz = ucast (drop_bit 2 (bytes ! 1) AND 0x3F) OR push_bit 6 (ucast (bytes ! 2 AND 0x0F));
          py = (drop_bit 4 (bytes ! 2) AND 0x0F) OR push_bit 4 (bytes ! 3 AND 0x0F);
          yaw = (drop_bit 4 (bytes ! 3) AND 0x0F) OR push_bit 4 (bytes ! 4 AND 0x03);
          flags = drop_bit 2 (bytes ! 4) AND 0x0F
      in (\<lparr>mid_x = px, mid_y = py, mid_z = pz\<rparr>, QuantizedYaw6Bit yaw, flags))"

definition Horizon_pack :: "HorizonQuantizedCoord \<Rightarrow> QuantizedYaw4Bit \<Rightarrow> u8 \<Rightarrow> u8 list" where
  "Horizon_pack q heading flags =
     (let x_val = hor_x q AND 0x3F;
          z_val = hor_z q AND 0x3F;
          y_val = hor_y q AND 0x1F;
          heading_val = yaw4_byte heading AND 0x0F;
          flags_val = flags AND 0x07
      in [x_val OR push_bit 6 (z_val AND 0x03),
          (drop_bit 2 z_val AND 0x0F) OR push_bit 4 (y_val AND 0x0F),
          (drop_bit 4 y_val AND 0x01) OR push_bit 1 heading_val OR push_bit 5 flags_val])"

definition Horizon_unpack :: "u8 list \<Rightarrow> HorizonQuantizedCoord \<times> QuantizedYaw4Bit \<times> u8" where
  "Horizon_unpack bytes =
     (let px = bytes ! 0 AND 0x3F;
          pz = (drop_bit 6 (bytes ! 0) AND 0x03) OR push_bit 2 (bytes ! 1 AND 0x0F);
          py = (drop_bit 4 (bytes ! 1) AND 0x0F) OR push_bit 4 (bytes ! 2 AND 0x01);
          heading = drop_bit 1 (bytes ! 2) AND 0x0F;
          flags = drop_bit 5 (bytes ! 2) AND 0x07
      in (\<lparr>hor_x = px, hor_y = py, hor_z = pz\<rparr>, QuantizedYaw4Bit heading, flags))"

section \<open>Packing and unpacking\<close>

lemma and_max_vertical: "w AND MAX_QUANTIZED_VERTICAL = take_bit 12 w"
  by (simp add: MAX_QUANTIZED_VERTICAL_def take_bit_eq_mask mask_eq_exp_minus_1)

lemma unpack_pack_7:
  "unpack_with_yaw_and_flags (pack_with_yaw_and_flags q yaw flags)
     = (q\<lparr>qc_y := qc_y q AND MAX_QUANTIZED_VERTICAL\<rparr>, yaw, flags AND 0x0F)"
proof -
  have "ucast (ucast (w AND 0xFF) :: u8) OR push_bit 8 (ucast (ucast (drop_bit 8 w AND 0xFF) :: u8)) = w"
    for w :: u16
    unfolding packed_bits by auto
  moreover have "ucast (ucast ((w AND MAX_QUANTIZED_VERTICAL) AND 0xFF) :: u8)
      OR push_bit 8 (ucast ((ucast (drop_bit 8 (w AND MAX_QUANTIZED_VERTICAL) AND 0x0F)
          OR push_bit 4 (y AND 0x0F) :: u8) AND 0x0F))
      = w AND MAX_QUANTIZED_VERTICAL" for w :: u16 and y
    unfolding packed_bits and_max_vertical by auto
  moreover have "(drop_bit 4 (ucast (w AND 0x0F) OR push_bit 4 (y AND 0x0F)) AND 0x0F)
      OR push_bit 4 (((drop_bit 4 y AND 0x0F) OR push_bit 4 (f AND 0x0F)) AND 0x0F) = y"
    for w :: u16 and y f :: u8
    unfolding packed_bits by auto
  moreover have "drop_bit 4 ((drop_bit 4 y AND 0x0F) OR push_bit 4 (f AND 0x0F)) AND 0x0F = f AND 0x0F"
    for y f :: u8
    unfolding packed_bits by auto
  ultimately show ?thesis
    unfolding unpack_with_yaw_and_flags_def pack_with_yaw_and_flags_def Let_def nth_bytes by simp
qed

lemma pack_unpack_7:
  assumes "length bytes = 7"
  shows "(case unpack_with_yaw_and_flags bytes of (q, yaw, flags) \<Rightarrow> pack_with_yaw_and_flags q yaw flags)
    = bytes"
proof -
  obtain b0 b1 b2 b3 b4 b5 b6 where bytes: "bytes = [b0, b1, b2, b3, b4, b5, b6]"
    using assms by (auto simp: numeral_eq_Suc length_Suc_conv)
  have "ucast ((ucast a OR push_bit 8 (ucast b)) AND (0xFF :: u16)) = a"
    "ucast (drop_bit 8 (ucast a OR push_bit 8 (ucast b)) AND (0xFF :: u16)) = b" for a b :: u8
    unfolding packed_bits by (auto dest: bit_imp_le_length)
  moreover have "ucast (((ucast a OR push_bit 8 (ucast (b AND 0x0F))) AND MAX_QUANTIZED_VERTICAL)
      AND (0xFF :: u16)) = a" for a b :: u8
    unfolding packed_bits and_max_vertical by auto
  moreover have "ucast (drop_bit 8 ((ucast a OR push_bit 8 (ucast (b AND 0x0F))) AND MAX_QUANTIZED_VERTICAL)
        AND (0x0F :: u16))
      OR push_bit 4 (((drop_bit 4 b AND 0x0F) OR push_bit 4 (c AND 0x0F)) AND 0x0F) = b" for a b c :: u8
    unfolding packed_bits and_max_vertical by (auto dest: bit_imp_le_length)
  moreover have "(drop_bit 4 ((drop_bit 4 b AND 0x0F) OR push_bit 4 (c AND 0x0F)) AND 0x0F)
      OR push_bit 4 ((drop_bit 4 c AND 0x0F) AND 0x0F) = c" for b c :: u8
    unfolding packed_bits by auto
  ultimately show ?thesis
    unfolding unpack_with_yaw_and_flags_def pack_with_yaw_and_flags_def Let_def bytes nth_bytes by simp
qed

text \<open>
  The 7-byte transform format is a bijection: unpacking a packed transform returns the
  coordinate with its elevation cut to 12 bits, the heading and the low 4 flag bits, and packing
  what was unpacked from any 7-byte buffer returns that buffer.
\<close>

theorem wire_7_bijection:
  assumes "length bytes = 7"
  shows "unpack_with_yaw_and_flags (pack_with_yaw_and_flags q yaw flags)
      = (q\<lparr>qc_y := qc_y q AND MAX_QUANTIZED_VERTICAL\<rparr>, yaw, flags AND 0x0F)
    \<and> (case unpack_with_yaw_and_flags bytes of (q', yaw', flags') \<Rightarrow> pack_with_yaw_and_flags q' yaw' flags')
      = bytes"
  using unpack_pack_7 pack_unpack_7 [OF assms] by blast

theorem wire_7_bijection_witness:
  "(case unpack_with_yaw_and_flags [1, 2, 3, 4, 5, 0xA6, 0x3B] of (q', yaw', flags') \<Rightarrow>
      pack_with_yaw_and_flags q' yaw' flags') = [1, 2, 3, 4, 5, 0xA6, 0x3B]"
  using wire_7_bijection [of "[1, 2, 3, 4, 5, 0xA6, 0x3B]"] by simp

lemma Midfield_unpack_pack:
  "Midfield_unpack (Midfield_pack m yaw flags) =
     (\<lparr>mid_x = mid_x m AND 0x03FF, mid_y = mid_y m, mid_z = mid_z m AND 0x03FF\<rparr>,
      QuantizedYaw6Bit (yaw6_byte yaw AND 0x3F), flags AND 0x0F)"
proof -
  have "ucast (ucast ((w AND 0x03FF) AND 0xFF) :: u8)
      OR push_bit 8 (ucast ((ucast (drop_bit 8 (w AND 0x03FF) AND 0x03)
           OR push_bit 2 (ucast ((v AND 0x03FF) AND 0x3F)) :: u8) AND 0x03)) = w AND 0x03FF"
    for w v :: u16
    unfolding packed_bits by auto
  moreover have "ucast (drop_bit 2 (ucast (drop_bit 8 (w AND 0x03FF) AND 0x03)
           OR push_bit 2 (ucast ((v AND 0x03FF) AND 0x3F)) :: u8) AND 0x3F)
      OR push_bit 6 (ucast ((ucast (drop_bit 6 (v AND 0x03FF) AND 0x0F) OR push_bit 4 (y AND 0x0F)) AND 0x0F))
      = v AND 0x03FF" for w v :: u16 and y :: u8
    unfolding packed_bits by auto
  moreover have "(drop_bit 4 (ucast (drop_bit 6 (v AND 0x03FF) AND 0x0F) OR push_bit 4 (y AND 0x0F)) AND 0x0F)
      OR push_bit 4 (((drop_bit 4 y AND 0x0F) OR push_bit 4 ((a AND 0x3F) AND 0x0F)) AND 0x0F) = y"
    for v :: u16 and y a :: u8
    unfolding packed_bits by auto
  moreover have "(drop_bit 4 ((drop_bit 4 y AND 0x0F) OR push_bit 4 ((a AND 0x3F) AND 0x0F)) AND 0x0F)
      OR push_bit 4 (((drop_bit 4 (a AND 0x3F) AND 0x03) OR push_bit 2 (f AND 0x0F)) AND 0x03)
      = a AND 0x3F" for y a f :: u8
    unfolding packed_bits by auto
  moreover have "drop_bit 2 ((drop_bit 4 (a AND 0x3F) AND 0x03) OR push_bit 2 (f AND 0x0F)) AND 0x0F
      = f AND 0x0F" for a f :: u8
    unfolding packed_bits by auto
  ultimately show ?thesis
    unfolding Midfield_unpack_def Midfield_pack_def Let_def nth_bytes by simp
qed

lemma Horizon_unpack_pack:
  "Horizon_unpack (Horizon_pack h heading flags) =
     (\<lparr>hor_x = hor_x h AND 0x3F, hor_y = hor_y h AND 0x1F, hor_z = hor_z h AND 0x3F\<rparr>,
      QuantizedYaw4Bit (yaw4_byte heading AND 0x0F), flags AND 0x07)"
proof -
  have five: "n < (5 :: nat) \<longleftrightarrow> n < 4 \<or> n = 4" for n by auto
  have "((w AND 0x3F) OR push_bit 6 ((v AND 0x3F) AND 0x03)) AND 0x3F = w AND 0x3F" for w v :: u8
    unfolding packed_bits by auto
  moreover have "(drop_bit 6 ((w AND 0x3F) OR push_bit 6 ((v AND 0x3F) AND 0x03)) AND 0x03)
      OR push_bit 2 (((drop_bit 2 (v AND 0x3F) AND 0x0F) OR push_bit 4 ((y AND 0x1F) AND 0x0F)) AND 0x0F)
      = v AND 0x3F" for w v y :: u8
    unfolding packed_bits by (auto simp del: add_2_eq_Suc)
  moreover have "(drop_bit 4 ((drop_bit 2 (v AND 0x3F) AND 0x0F) OR push_bit 4 ((y AND 0x1F) AND 0x0F)) AND 0x0F)
      OR push_bit 4 (((drop_bit 4 (y AND 0x1F) AND 0x01) OR push_bit 1 (a AND 0x0F) OR push_bit 5 (f AND 0x07))
        AND 0x01) = y AND 0x1F" for v y a f :: u8
    unfolding packed_bits by (auto simp: five)
  moreover have "drop_bit 1 ((drop_bit 4 (y AND 0x1F) AND 0x01) OR push_bit 1 (a AND 0x0F)
      OR push_bit 5 (f AND 0x07)) AND 0x0F = a AND 0x0F" for y a f :: u8
    unfolding packed_bits by auto
  moreover have "drop_bit 5 ((drop_bit 4 (y AND 0x1F) AND 0x01) OR push_bit 1 (a AND 0x0F)
      OR push_bit 5 (f AND 0x07)) AND 0x07 = f AND 0x07" for y a f :: u8
    unfolding packed_bits by auto
  ultimately show ?thesis
    unfolding Horizon_unpack_def Horizon_pack_def Let_def nth_bytes prod.inject
      QuantizedYaw4Bit.inject HorizonQuantizedCoord.simps QuantizedYaw4Bit.sel by metis
qed

text \<open>
  The coarse tiers lose nothing but the bits above their widths: unpacking a packed
  midfield transform (5 bytes) or horizon transform (3 bytes) returns every component masked to
  its declared number of bits.
\<close>

theorem coarse_tiers_roundtrip:
  "Midfield_unpack (Midfield_pack m yaw flags) =
     (\<lparr>mid_x = mid_x m AND 0x03FF, mid_y = mid_y m, mid_z = mid_z m AND 0x03FF\<rparr>,
      QuantizedYaw6Bit (yaw6_byte yaw AND 0x3F), flags AND 0x0F)
   \<and> Horizon_unpack (Horizon_pack h heading flags) =
     (\<lparr>hor_x = hor_x h AND 0x3F, hor_y = hor_y h AND 0x1F, hor_z = hor_z h AND 0x3F\<rparr>,
      QuantizedYaw4Bit (yaw4_byte heading AND 0x0F), flags AND 0x07)"
  using Midfield_unpack_pack Horizon_unpack_pack by blast

section \<open>Headings\<close>

text \<open>The step taken is the magnitude of the arc or the bound, whichever is smaller.\<close>

lemma uint_of_int_range: "0 \<le> k \<Longrightarrow> k < 2 ^ LENGTH('a) \<Longrightarrow> uint (word_of_int k :: 'a::len word) = k"
  by (simp add: uint_word_of_int_eq take_bit_int_eq_self del: of_int_eq_numeral_iff)

lemma min_as_of_int:
  fixes m :: u8
  assumes "0 \<le> k" "k < 256"
  shows "min (word_of_int k) m = word_of_int (min k (uint m))"
proof -
  have "uint (word_of_int k :: u8) = k" using assms by (intro uint_of_int_range) simp_all
  then show ?thesis by (simp add: min_def word_le_def)
qed

lemma sint_arc_after_turn:
  fixes d m :: u8
  shows "sint d > 0 \<Longrightarrow> sint (d - min d m) = sint d - min (sint d) (uint m)"
    and "sint d < 0 \<Longrightarrow> sint (d + min (- d) m) = sint d + min (- sint d) (uint m)"
proof -
  have b: "- 128 \<le> sint d" "sint d < 128" using sint_ge [of d] sint_lt [of d] by simp_all
  have m: "0 \<le> uint m" by simp
  have d: "d = word_of_int (sint d)" by simp
  show "sint (d - min d m) = sint d - min (sint d) (uint m)" if p: "sint d > 0"
  proof -
    have "d - min d m = word_of_int (sint d - min (sint d) (uint m))"
      using p b min_as_of_int [of "sint d" m] by simp
    moreover have "- 128 \<le> sint d - min (sint d) (uint m)" "sint d - min (sint d) (uint m) < 128"
      using p b m by linarith+
    ultimately show ?thesis by (simp only:) (subst sint_of_int_range; simp)
  qed
  show "sint (d + min (- d) m) = sint d + min (- sint d) (uint m)" if p: "sint d < 0"
  proof -
    have "d + min (- d) m = word_of_int (sint d + min (- sint d) (uint m))"
      using p b min_as_of_int [of "- sint d" m] by simp
    moreover have "- 128 \<le> sint d + min (- sint d) (uint m)" "sint d + min (- sint d) (uint m) < 128"
      using p b m by linarith+
    ultimately show ?thesis by (simp only:) (subst sint_of_int_range; simp)
  qed
qed

text \<open>
  Turning: one call of \<open>advance_toward\<close> shortens the remaining signed arc by exactly the
  smaller of the arc and \<open>max_step\<close>, keeping its direction, so repeated calls reach the target
  and never overshoot it, across the 255 to 0 rollover included.
\<close>

theorem advance_toward_shortens:
  "sint (shortest_arc_delta (advance_toward a target max_step) target) =
     (let d = sint (shortest_arc_delta a target) in sgn d * (\<bar>d\<bar> - min \<bar>d\<bar> (uint max_step)))"
proof -
  define d where "d = shortest_arc_delta a target"
  have t: "yaw_byte target = yaw_byte a + d" by (simp add: d_def shortest_arc_delta_def)
  consider "d = 0" | "sint d > 0" | "sint d < 0"
    by (metis linorder_neqE_linordered_idom sint_0 sint_eqD)
  then show ?thesis
  proof cases
    case 1
    then show ?thesis by (simp add: advance_toward_def d_def)
  next
    case 2
    then have "d \<noteq> 0" by auto
    then have "shortest_arc_delta (advance_toward a target max_step) target = d - min d max_step"
      using 2 t by (simp add: advance_toward_def d_def [symmetric] shortest_arc_delta_def [of "QuantizedYaw _"])
    then show ?thesis using 2 sint_arc_after_turn(1) [OF 2] by (simp add: d_def [symmetric] Let_def)
  next
    case 3
    then have "d \<noteq> 0" by auto
    then have "shortest_arc_delta (advance_toward a target max_step) target = d + min (- d) max_step"
      using 3 t by (simp add: advance_toward_def d_def [symmetric] shortest_arc_delta_def [of "QuantizedYaw _"])
    then show ?thesis using 3 sint_arc_after_turn(2) [OF 3] by (simp add: d_def [symmetric] Let_def)
  qed
qed

section \<open>Quantisation error\<close>

definition axis_bits :: "nat \<Rightarrow> int \<Rightarrow> int \<Rightarrow> int" where
  "axis_bits s mx r = (r div 2 ^ s) * mx div 2 ^ 32"

lemma uint_quantize_axis:
  assumes r: "0 \<le> sint (raw v)" "sint (raw v) \<le> 2 ^ (32 + s)" and s: "s \<le> 6"
  shows "uint (quantize_axis s mx v) = axis_bits s (uint mx) (sint (raw v))"
    and "axis_bits s (uint mx) (sint (raw v)) \<le> uint mx"
proof -
  let ?r = "sint (raw v)"
  have m: "0 \<le> uint mx" "uint mx < 2 ^ 16" using uint_bounded [of mx] by simp_all
  have "?r div 2 ^ s \<le> 2 ^ (32 + s) div 2 ^ s" using r by (intro zdiv_mono1) simp_all
  also have "\<dots> = 2 ^ 32" by (simp add: power_add)
  finally have t: "0 \<le> ?r div 2 ^ s" "?r div 2 ^ s \<le> 2 ^ 32"
    using r by (simp_all add: pos_imp_zdiv_nonneg_iff)
  have p: "(?r div 2 ^ s) * uint mx \<le> 2 ^ 32 * uint mx" using t m by (intro mult_right_mono)
  then have q: "axis_bits s (uint mx) ?r \<le> uint mx"
    unfolding axis_bits_def using zdiv_mono1 [OF p, of "2 ^ 32"] by simp
  have q0: "0 \<le> axis_bits s (uint mx) ?r"
    unfolding axis_bits_def using t m by (simp add: pos_imp_zdiv_nonneg_iff)
  have "?r < 2 ^ 63" using sint_lt [of "raw v"] by simp
  then have u: "uint (raw v) = ?r"
    unfolding uint_sint using r by (intro take_bit_int_eq_self) simp_all
  have d: "uint (drop_bit s (raw v)) = ?r div 2 ^ s" by (simp only: uint_drop_bit u)
  have c: "uint (ucast mx :: u64) = uint mx"
    unfolding unsigned_ucast_eq using m by (intro take_bit_int_eq_self) simp_all
  have "(2 :: int) ^ 32 * uint mx < 2 ^ 64" using m by simp
  then have "uint (drop_bit s (raw v)) * uint (ucast mx :: u64) < 2 ^ LENGTH(64)"
    using p unfolding d c by simp
  from iffD1 [OF uint_mult_lem this] have "uint (drop_bit s (raw v) * ucast mx) = (?r div 2 ^ s) * uint mx"
    unfolding d c .
  then have f: "uint (drop_bit 32 (drop_bit s (raw v) * ucast mx)) = axis_bits s (uint mx) ?r"
    by (simp only: uint_drop_bit axis_bits_def)
  then have "min (drop_bit 32 (drop_bit s (raw v) * ucast mx)) (ucast mx)
      = drop_bit 32 (drop_bit s (raw v) * ucast mx)"
    using q by (simp add: min_def word_le_def c)
  then have "uint (quantize_axis s mx v) = take_bit 16 (axis_bits s (uint mx) ?r)"
    unfolding quantize_axis_def Let_def by (simp only: unsigned_ucast_eq f) simp
  also have "\<dots> = axis_bits s (uint mx) ?r"
    using q q0 m by (intro take_bit_int_eq_self) simp_all
  finally show "uint (quantize_axis s mx v) = axis_bits s (uint mx) ?r" .
  show "axis_bits s (uint mx) ?r \<le> uint mx" by (rule q)
qed

lemma axis_error:
  fixes r mx :: int and s :: nat
  assumes "0 \<le> r" "0 < mx"
  defines "e \<equiv> (axis_bits s mx r * 2 ^ 32) div mx"
  shows "2 ^ s * e \<le> r" and "r - 2 ^ s * e < 2 ^ s * (2 ^ 32 div mx + 2)"
proof -
  define t where "t = r div 2 ^ s"
  define q where "q = t * mx div 2 ^ 32"
  have e: "e = (q * 2 ^ 32) div mx" by (simp add: e_def axis_bits_def q_def t_def)
  have t: "2 ^ s * t \<le> r" "r < 2 ^ s * (t + 1)"
  proof -
    have "r = 2 ^ s * t + r mod 2 ^ s" by (simp add: t_def)
    moreover have "0 \<le> r mod 2 ^ s" "r mod 2 ^ s < 2 ^ s" by simp_all
    ultimately show "2 ^ s * t \<le> r" "r < 2 ^ s * (t + 1)" unfolding distrib_left by linarith+
  qed
  have q: "q * 2 ^ 32 \<le> t * mx" "t * mx < q * 2 ^ 32 + 2 ^ 32" unfolding q_def by simp_all
  have er: "mx * e \<le> q * 2 ^ 32" "q * 2 ^ 32 < mx * e + mx"
    using assms(2) mult_div_mod_eq [of mx "q * 2 ^ 32"] pos_mod_bound [of mx "q * 2 ^ 32"]
      pos_mod_sign [of mx "q * 2 ^ 32"] unfolding e by linarith+
  have "mx * e \<le> mx * t" using order_trans [OF er(1) q(1)] by (simp only: mult.commute)
  then have et: "e \<le> t" using assms(2) by (simp only: mult_le_cancel_left_pos)
  then show "2 ^ s * e \<le> r" using t(1) by (meson mult_left_mono order_trans zero_le_numeral zero_le_power)
  have "t * mx < mx * e + mx + 2 ^ 32" using er(2) q(2) by linarith
  then have "(t - e - 1) * mx \<le> 2 ^ 32" by (simp add: algebra_simps)
  then have "t - e - 1 \<le> 2 ^ 32 div mx"
    using zdiv_mono1 [of "(t - e - 1) * mx" "2 ^ 32" mx] assms(2) by simp
  then have "2 ^ s * (t + 1) \<le> 2 ^ s * (e + (2 ^ 32 div mx + 2))" by (intro mult_left_mono) simp_all
  with t(2) show "r - 2 ^ s * e < 2 ^ s * (2 ^ 32 div mx + 2)" by (simp add: distrib_left)
qed

lemma sint_from_u16:
  "sint (raw (Fixed64_from_i32 (ucast (w :: u16)))) = uint w * 2 ^ 32"
proof -
  have "0 \<le> uint w" "uint w < 2 ^ 16" using uint_bounded [of w] by simp_all
  then have "sint (ucast w :: i32) = uint w"
    unfolding ucast_eq by (intro sint_of_int_range) (auto intro: order_trans [of _ 0])
  then show ?thesis by (simp add: sint_from_i32)
qed

lemma sint_axis_dequantize:
  assumes "uint q \<le> uint mx" "0 < uint mx" "c = word_of_int (2 ^ s)" "s \<le> 6"
  shows "sint (raw (Fixed64_div (Fixed64_from_i32 (ucast (q :: u16))) (Fixed64_from_i32 (ucast (mx :: u16)))
           * Fixed64_from_i32 c)) = 2 ^ s * ((uint q * 2 ^ 32) div uint mx)"
proof -
  let ?q = "uint q" and ?m = "uint mx"
  have qb: "0 \<le> ?q" "?q < 2 ^ 16" "?m < 2 ^ 16" using uint_bounded [of q] uint_bounded [of mx] by simp_all
  have nz: "raw (Fixed64_from_i32 (ucast mx)) \<noteq> 0"
    using assms(2) sint_from_u16 [of mx] by force
  have sd: "(?q * 2 ^ 32 * 2 ^ 32) sdiv (?m * 2 ^ 32) = ?q * 2 ^ 32 div ?m"
    using assms(2) qb(1) by (cases "?q = 0") (auto simp: signed_divide_int_def sgn_mult mult.commute)
  have le: "?q * 2 ^ 32 div ?m \<le> 2 ^ 32"
    using assms(1,2) zdiv_mono1 [of "?q * 2 ^ 32" "?m * 2 ^ 32" ?m] by simp
  have ge: "0 \<le> ?q * 2 ^ 32 div ?m"
    using assms(2) qb(1) by (simp add: pos_imp_zdiv_nonneg_iff)
  have d: "sint (raw (Fixed64_div (Fixed64_from_i32 (ucast q)) (Fixed64_from_i32 (ucast mx))))
      = ?q * 2 ^ 32 div ?m"
    unfolding sint_div [OF nz] sint_from_u16 sd using le ge
    by (intro clamp_i64_id) (simp_all add: i64_MIN_def i64_MAX_def)
  have s: "(1 :: int) \<le> 2 ^ s" "(2 :: int) ^ s \<le> 2 ^ 6" using assms(4) power_increasing [of s 6 "2 :: int"] by simp_all
  have "sint c = 2 ^ s"
    using s unfolding assms(3) by (intro sint_of_int_range) (auto intro: order_trans [of _ 0])
  then have "sint (raw (Fixed64_from_i32 c)) = 2 ^ s * 2 ^ 32"
    by (simp add: sint_from_i32)
  moreover have "(?q * 2 ^ 32 div ?m) * 2 ^ s \<le> 2 ^ 32 * 2 ^ 6" "0 \<le> (?q * 2 ^ 32 div ?m) * 2 ^ s"
    using mult_mono [OF le s(2)] ge by simp_all
  ultimately show ?thesis
    unfolding sint_mul d by (subst clamp_i64_id) (simp_all add: i64_MIN_def i64_MAX_def)
qed

text \<open>One axis of the global decomposition: the cell origin and the offset inside the cell.\<close>

lemma axis_cell:
  fixes v :: Fixed64 and s :: nat
  assumes "s \<le> 6"
  defines "cell \<equiv> (ucast (signed_drop_bit (32 + s) (raw v)) :: i32)"
    and "r \<equiv> sint (raw v)"
  shows "sint (raw (Fixed64_from_i32 (cell * word_of_int (2 ^ s)))) = r - r mod 2 ^ (32 + s)"
    and "sint (raw (v - Fixed64_from_i32 (cell * word_of_int (2 ^ s)))) = r mod 2 ^ (32 + s)"
proof -
  let ?w = "2 ^ (32 + s) :: int"
  have r: "- (2 ^ 63) \<le> r" "r < 2 ^ 63" unfolding r_def
    using sint_ge [of "raw v"] sint_lt [of "raw v"] by simp_all
  have m: "0 \<le> r mod ?w" "r mod ?w < ?w" "r = (r div ?w) * ?w + r mod ?w"
    by (simp_all only: div_mult_mod_eq pos_mod_sign pos_mod_bound zero_less_power zero_less_numeral)
  have w: "?w \<le> 2 ^ 63" "(2 :: int) ^ 63 = 2 ^ (31 - s) * ?w"
    using assms(1) power_increasing [of "32 + s" 63 "2 :: int"]
    by (simp_all add: power_add [symmetric] del: power_Suc)
  have "(r div ?w) * 2 ^ s * 2 ^ 32 = r - r mod ?w"
    using m(3) by (simp add: power_add algebra_simps)
  have cell: "cell * word_of_int (2 ^ s) = word_of_int ((r div ?w) * 2 ^ s)"
    unfolding cell_def r_def by (simp add: ucast_as_of_int sint_shift_right)
  have "(r div ?w) * 2 ^ s * 2 ^ 32 = r - r mod ?w" by fact
  moreover have "- (2 ^ 63) \<le> r - r mod ?w"
  proof -
    have "- (2 ^ (31 - s)) \<le> r div ?w"
    proof -
      have "- (2 ^ (31 - s)) * ?w div ?w \<le> r div ?w"
        using zdiv_mono1 [OF r(1), of ?w] unfolding w(2) by simp
      moreover have "- (2 ^ (31 - s)) * ?w div ?w = - (2 ^ (31 - s))"
        by (rule nonzero_mult_div_cancel_right) simp
      ultimately show ?thesis by simp
    qed
    then have "- (2 ^ (31 - s)) * ?w \<le> (r div ?w) * ?w" by (intro mult_right_mono) simp_all
    then show ?thesis using m(3) unfolding w(2) by linarith
  qed
  moreover have "r - r mod ?w < 2 ^ 63" using r m by linarith
  moreover have "- (2 ^ 63) \<le> X * 2 ^ 32 \<Longrightarrow> X * 2 ^ 32 < 2 ^ 63 \<Longrightarrow> - (2 ^ 31) \<le> X \<and> X < 2 ^ 31"
    for X :: int by simp
  ultimately have b: "- (2 ^ 31) \<le> (r div ?w) * 2 ^ s" "(r div ?w) * 2 ^ s < 2 ^ 31" by metis+
  have sc: "sint (cell * word_of_int (2 ^ s)) = (r div ?w) * 2 ^ s"
    unfolding cell by (rule sint_of_int_range) (use b in simp_all)
  show f: "sint (raw (Fixed64_from_i32 (cell * word_of_int (2 ^ s)))) = r - r mod ?w"
    unfolding sint_from_i32 sc by fact
  have "i64_MIN \<le> r mod ?w" by (rule order_trans [OF _ m(1)]) (simp add: i64_MIN_def)
  moreover have "r mod ?w \<le> i64_MAX" using less_le_trans [OF m(2) w(1)] by (simp add: i64_MAX_def)
  ultimately show "sint (raw (v - Fixed64_from_i32 (cell * word_of_int (2 ^ s)))) = r mod ?w"
    unfolding sint_sub f r_def [symmetric] by (simp add: clamp_i64_id)
qed

text \<open>One axis of the whole trip: the reconstructed coordinate is below the original by less than a step.\<close>

definition axis_trip :: "nat \<Rightarrow> u16 \<Rightarrow> Fixed64 \<Rightarrow> Fixed64" where
  "axis_trip s mx v =
     (let base = Fixed64_from_i32 (ucast (signed_drop_bit (32 + s) (raw v)) * word_of_int (2 ^ s));
          q = quantize_axis s mx (v - base)
      in base + Fixed64_div (Fixed64_from_i32 (ucast q)) (Fixed64_from_i32 (ucast mx))
           * Fixed64_from_i32 (word_of_int (2 ^ s)))"

lemma axis_trip_error:
  assumes "s \<le> 6" "0 < uint mx"
  shows "sint (raw (axis_trip s mx v)) \<le> sint (raw v)"
    and "sint (raw v) - sint (raw (axis_trip s mx v)) < 2 ^ s * (2 ^ 32 div uint mx + 2)"
proof -
  let ?r = "sint (raw v)"
  define base where "base = Fixed64_from_i32 (ucast (signed_drop_bit (32 + s) (raw v)) * word_of_int (2 ^ s))"
  define l where "l = ?r mod 2 ^ (32 + s)"
  have l: "0 \<le> l" "l < 2 ^ (32 + s)" by (simp_all add: l_def)
  have base: "sint (raw base) = ?r - l" "sint (raw (v - base)) = l"
    using axis_cell [OF assms(1), of v] by (simp_all add: base_def l_def)
  define q where "q = quantize_axis s mx (v - base)"
  have q: "uint q = axis_bits s (uint mx) l" "uint q \<le> uint mx"
    using uint_quantize_axis [of "v - base" s mx] l assms(1) unfolding q_def base by simp_all
  define e where "e = 2 ^ s * ((axis_bits s (uint mx) l * 2 ^ 32) div uint mx)"
  have e: "e \<le> l" "l - e < 2 ^ s * (2 ^ 32 div uint mx + 2)"
    using axis_error [OF l(1) assms(2), of s] unfolding e_def by simp_all
  have e0: "0 \<le> e"
    using q(2) assms(2) unfolding e_def q(1) [symmetric] by (simp add: pos_imp_zdiv_nonneg_iff)
  have "sint (raw (Fixed64_div (Fixed64_from_i32 (ucast q)) (Fixed64_from_i32 (ucast mx))
      * Fixed64_from_i32 (word_of_int (2 ^ s)))) = e"
    using sint_axis_dequantize [OF q(2) assms(2) refl assms(1)] unfolding q(1) e_def .
  then have "sint (raw (axis_trip s mx v)) = clamp_i64 (?r - l + e)"
    unfolding axis_trip_def Let_def base_def [symmetric] q_def [symmetric] sint_add base(1) by simp
  also have "\<dots> = ?r - l + e"
    using sint_i64_bounds [of "raw base"] sint_i64_bounds [of "raw v"] e(1) e0
    unfolding base(1) by (intro clamp_i64_id) linarith+
  finally have t: "sint (raw (axis_trip s mx v)) = ?r - l + e" .
  show "sint (raw (axis_trip s mx v)) \<le> ?r" using t e by linarith
  show "?r - sint (raw (axis_trip s mx v)) < 2 ^ s * (2 ^ 32 div uint mx + 2)" using t e by linarith
qed

text \<open>
  Global round trip: every world position is quantised (the clamps never panic) to a valid
  cell coordinate, and rebuilding the position from the cell indices and the quantised offset
  gives a point below the original on each axis by less than 64 * 65539 raw units horizontally
  (0.977 mm) and 32 * 1048834 raw units vertically (7.815 mm).
\<close>

theorem global_roundtrip_error:
  "\<exists>cx cy cz q p. QuantizedCellCoord_quantize_from_global pos = Some (cx, cy, cz, q)
     \<and> QuantizedCellCoord_is_valid q
     \<and> p = QuantizedCellCoord_dequantize_to_global cx cy cz q
     \<and> sint (raw (vec_x pos)) - sint (raw (vec_x p)) \<in> {0 ..< 64 * 65539}
     \<and> sint (raw (vec_y pos)) - sint (raw (vec_y p)) \<in> {0 ..< 32 * 1048834}
     \<and> sint (raw (vec_z pos)) - sint (raw (vec_z p)) \<in> {0 ..< 64 * 65539}"
proof -
  define cx :: i32 where "cx = ucast (signed_drop_bit 38 (raw (vec_x pos)))"
  define cy :: i32 where "cy = ucast (signed_drop_bit 37 (raw (vec_y pos)))"
  define cz :: i32 where "cz = ucast (signed_drop_bit 38 (raw (vec_z pos)))"
  define lx where "lx = vec_x pos - Fixed64_from_i32 (cx * 64)"
  define ly where "ly = vec_y pos - Fixed64_from_i32 (cy * 32)"
  define lz where "lz = vec_z pos - Fixed64_from_i32 (cz * 64)"
  have l: "0 \<le> sint (raw lx)" "sint (raw lx) < 2 ^ 38" "0 \<le> sint (raw ly)" "sint (raw ly) < 2 ^ 37"
    "0 \<le> sint (raw lz)" "sint (raw lz) < 2 ^ 38"
    using axis_cell(2) [of 6 "vec_x pos"] axis_cell(2) [of 5 "vec_y pos"] axis_cell(2) [of 6 "vec_z pos"]
    by (simp_all add: lx_def ly_def lz_def cx_def cy_def cz_def)
  have sizes: "sint (raw CELL_HORIZONTAL_SIZE) = 2 ^ 38" "sint (raw CELL_VERTICAL_SIZE) = 2 ^ 37"
    by (simp_all add: CELL_HORIZONTAL_SIZE_def CELL_VERTICAL_SIZE_def sint_from_i32)
  have clamp: "Fixed64_clamp lx Fixed64_ZERO CELL_HORIZONTAL_SIZE = Some lx"
    "Fixed64_clamp ly Fixed64_ZERO CELL_VERTICAL_SIZE = Some ly"
    "Fixed64_clamp lz Fixed64_ZERO CELL_HORIZONTAL_SIZE = Some lz"
    using l by (simp_all add: Fixed64_clamp_def sint_raw_extremes sizes)
  define q where "q = \<lparr>qc_x = quantize_axis 6 MAX_QUANTIZED_HORIZONTAL lx,
    qc_y = quantize_axis 5 MAX_QUANTIZED_VERTICAL ly, qc_z = quantize_axis 6 MAX_QUANTIZED_HORIZONTAL lz\<rparr>"
  have quant: "QuantizedCellCoord_quantize_from_global pos = Some (cx, cy, cz, q)"
    unfolding QuantizedCellCoord_quantize_from_global_def QuantizedCellCoord_quantize_def Let_def
      cx_def [symmetric] cy_def [symmetric] cz_def [symmetric]
      lx_def [symmetric] ly_def [symmetric] lz_def [symmetric] clamp
    by (simp add: q_def)
  have mx: "uint MAX_QUANTIZED_HORIZONTAL = 65535" "uint MAX_QUANTIZED_VERTICAL = 4095"
    by (simp_all add: MAX_QUANTIZED_HORIZONTAL_def MAX_QUANTIZED_VERTICAL_def)
  have qy: "uint (qc_y q) \<le> 4095"
    using uint_quantize_axis [of ly 5 MAX_QUANTIZED_VERTICAL] l unfolding q_def mx by simp
  then have valid: "QuantizedCellCoord_is_valid q"
    by (simp add: QuantizedCellCoord_is_valid_def word_le_def mx)
  have mask: "qc_y q AND MAX_QUANTIZED_VERTICAL = qc_y q"
  proof -
    have "uint (take_bit 12 (qc_y q)) = uint (qc_y q)"
      unfolding unsigned_take_bit_eq by (rule take_bit_int_eq_self) (use qy in simp_all)
    then show ?thesis unfolding and_max_vertical by (simp add: word_uint_eq_iff)
  qed
  define p where "p = QuantizedCellCoord_dequantize_to_global cx cy cz q"
  have "vec_x p = axis_trip 6 MAX_QUANTIZED_HORIZONTAL (vec_x pos)"
    "vec_y p = axis_trip 5 MAX_QUANTIZED_VERTICAL (vec_y pos)"
    "vec_z p = axis_trip 6 MAX_QUANTIZED_HORIZONTAL (vec_z pos)"
    unfolding p_def QuantizedCellCoord_dequantize_to_global_def QuantizedCellCoord_dequantize_def
      axis_trip_def Let_def Vec3Fix_add_def mask CELL_HORIZONTAL_SIZE_def CELL_VERTICAL_SIZE_def
    by (simp_all add: q_def lx_def ly_def lz_def cx_def cy_def cz_def)
  then have "sint (raw (vec_x pos)) - sint (raw (vec_x p)) \<in> {0 ..< 64 * 65539}"
    "sint (raw (vec_y pos)) - sint (raw (vec_y p)) \<in> {0 ..< 32 * 1048834}"
    "sint (raw (vec_z pos)) - sint (raw (vec_z p)) \<in> {0 ..< 64 * 65539}"
    using axis_trip_error [of 6 MAX_QUANTIZED_HORIZONTAL] axis_trip_error [of 5 MAX_QUANTIZED_VERTICAL]
    by (simp_all add: mx)
  with quant valid p_def show ?thesis by blast
qed

end
