(* ===== verification/Delta.thy ===== *)
theory Delta
  imports Quantize
begin

text \<open>
  The adaptive delta transforms of \<^verbatim>\<open>eidolon-core/src/delta.rs\<close>: the choice of a tier
  against an acknowledged anchor, its application on the receiving side, and the 1, 2, 4 or 8
  byte wire form. Differences of two \<open>u16\<close> are computed in \<open>i32\<close> by the source and never leave
  its range; they are integers here. The \<open>i8\<close> fields wrap, as in a build without overflow
  checks.
\<close>

section \<open>Data\<close>

definition TIER1_HORIZONTAL_STEP :: int where "TIER1_HORIZONTAL_STEP = 16"
definition TIER1_VERTICAL_STEP :: int where "TIER1_VERTICAL_STEP = 2"
definition TIER1_YAW_STEP :: int where "TIER1_YAW_STEP = 4"
definition TIER2_HORIZONTAL_STEP :: int where "TIER2_HORIZONTAL_STEP = 8"
definition TIER2_VERTICAL_STEP :: int where "TIER2_VERTICAL_STEP = 2"

datatype DeltaTier = TierStationary | TierSmall | TierMedium | TierFull

definition DeltaTier_from_tag :: "u8 \<Rightarrow> DeltaTier" where
  "DeltaTier_from_tag tag =
     (let t = tag AND 0x03 in
      if t = 0 then TierStationary else if t = 1 then TierSmall
      else if t = 2 then TierMedium else TierFull)"

fun DeltaTier_tag :: "DeltaTier \<Rightarrow> u8" where
  "DeltaTier_tag TierStationary = 0"
| "DeltaTier_tag TierSmall = 1"
| "DeltaTier_tag TierMedium = 2"
| "DeltaTier_tag TierFull = 3"

datatype DeltaTransform =
    Stationary
  | Small i8 i8 i8 i8           \<comment> \<open>dx, dz, dy, dyaw\<close>
  | Medium i8 i8 i8 QuantizedYaw \<comment> \<open>dx, dz, dy, yaw\<close>
  | Full QuantizedCellCoord QuantizedYaw u8

fun DeltaTransform_tier :: "DeltaTransform \<Rightarrow> DeltaTier" where
  "DeltaTransform_tier Stationary = TierStationary"
| "DeltaTransform_tier (Small dx dz dy dyaw) = TierSmall"
| "DeltaTransform_tier (Medium dx dz dy yaw) = TierMedium"
| "DeltaTransform_tier (Full coord yaw flags) = TierFull"

section \<open>Choosing and applying a delta\<close>

text \<open>Rounding to the nearest multiple of a step, ties away from zero, with Rust's truncating division.\<close>

definition round_step :: "int \<Rightarrow> int \<Rightarrow> int" where
  "round_step step diff = (diff + (step sdiv 2) * sgn diff) sdiv step"

definition DeltaTransform_compute ::
  "QuantizedCellCoord \<Rightarrow> QuantizedYaw \<Rightarrow> QuantizedCellCoord \<Rightarrow> QuantizedYaw \<Rightarrow> u8 \<Rightarrow> DeltaTransform"
where
  "DeltaTransform_compute base_coord base_yaw target_coord target_yaw target_flags =
     (if target_flags AND FLAG_CELL_ANCHOR \<noteq> 0 then Full target_coord target_yaw target_flags
      else
        let diff_x = int (unat (qc_x target_coord)) - int (unat (qc_x base_coord));
            diff_y = int (unat (qc_y target_coord)) - int (unat (qc_y base_coord));
            diff_z = int (unat (qc_z target_coord)) - int (unat (qc_z base_coord));
            diff_yaw = (yaw_byte target_yaw - yaw_byte base_yaw :: i8)
        in
        if \<bar>diff_x\<bar> < TIER1_HORIZONTAL_STEP \<and> \<bar>diff_z\<bar> < TIER1_HORIZONTAL_STEP
           \<and> \<bar>diff_y\<bar> < TIER1_VERTICAL_STEP \<and> diff_yaw = 0
        then Stationary
        else
          let s_dx = round_step TIER1_HORIZONTAL_STEP diff_x;
              s_dz = round_step TIER1_HORIZONTAL_STEP diff_z;
              s_dy = round_step TIER1_VERTICAL_STEP diff_y;
              s_dyaw = round_step TIER1_YAW_STEP (sint diff_yaw)
          in
          if s_dx \<in> {- 8 .. 7} \<and> s_dz \<in> {- 8 .. 7} \<and> s_dy \<in> {- 4 .. 3} \<and> s_dyaw \<in> {- 4 .. 3}
          then Small (word_of_int s_dx) (word_of_int s_dz) (word_of_int s_dy) (word_of_int s_dyaw)
          else
            let m_dx = round_step TIER2_HORIZONTAL_STEP diff_x;
                m_dz = round_step TIER2_HORIZONTAL_STEP diff_z;
                m_dy = round_step TIER2_VERTICAL_STEP diff_y
            in
            if m_dx \<in> {- 128 .. 127} \<and> m_dz \<in> {- 128 .. 127} \<and> m_dy \<in> {- 32 .. 31}
            then Medium (word_of_int m_dx) (word_of_int m_dz) (word_of_int m_dy) target_yaw
            else Full target_coord target_yaw target_flags)"

definition offset_axis :: "u16 \<Rightarrow> i8 \<Rightarrow> int \<Rightarrow> int \<Rightarrow> u16" where
  "offset_axis base d step hi = word_of_int (max 0 (min (int (unat base) + sint d * step) hi))"

fun DeltaTransform_apply ::
  "DeltaTransform \<Rightarrow> QuantizedCellCoord \<Rightarrow> QuantizedYaw \<Rightarrow> QuantizedCellCoord \<times> QuantizedYaw \<times> u8"
where
  "DeltaTransform_apply Stationary base_coord base_yaw = (base_coord, base_yaw, 0)"
| "DeltaTransform_apply (Small dx dz dy dyaw) base_coord base_yaw =
     (let new_x = offset_axis (qc_x base_coord) dx TIER1_HORIZONTAL_STEP 65535;
          new_z = offset_axis (qc_z base_coord) dz TIER1_HORIZONTAL_STEP 65535;
          new_y = offset_axis (qc_y base_coord) dy TIER1_VERTICAL_STEP 4095;
          new_yaw_byte = yaw_byte base_yaw + dyaw * word_of_int TIER1_YAW_STEP
      in (QuantizedCellCoord_new new_x new_y new_z, QuantizedYaw new_yaw_byte, 0))"
| "DeltaTransform_apply (Medium dx dz dy yaw) base_coord base_yaw =
     (let new_x = offset_axis (qc_x base_coord) dx TIER2_HORIZONTAL_STEP 65535;
          new_z = offset_axis (qc_z base_coord) dz TIER2_HORIZONTAL_STEP 65535;
          new_y = offset_axis (qc_y base_coord) dy TIER2_VERTICAL_STEP 4095
      in (QuantizedCellCoord_new new_x new_y new_z, yaw, 0))"
| "DeltaTransform_apply (Full coord yaw flags) base_coord base_yaw = (coord, yaw, flags)"

section \<open>Wire form\<close>

text \<open>The slice is returned updated with the number of bytes written; \<open>None\<close> when it is too short.\<close>

fun DeltaTransform_pack_to_slice :: "DeltaTransform \<Rightarrow> u8 list \<Rightarrow> (u8 list \<times> nat) option" where
  "DeltaTransform_pack_to_slice Stationary out =
     (if out = [] then None else Some (out[0 := DeltaTier_tag TierStationary], 1))"
| "DeltaTransform_pack_to_slice (Small dx dz dy dyaw) out =
     (if length out < 2 then None
      else
        let u_dx = (scast (dx + 8) :: u16) AND 0x0F;
            u_dz = (scast (dz + 8) :: u16) AND 0x0F;
            u_dy = (scast (dy + 4) :: u16) AND 0x07;
            u_dyaw = (scast (dyaw + 4) :: u16) AND 0x07;
            packed = ucast (DeltaTier_tag TierSmall) OR push_bit 2 u_dx OR push_bit 6 u_dz
                       OR push_bit 10 u_dy OR push_bit 13 u_dyaw
        in Some (out[0 := ucast (packed AND 0xFF), 1 := ucast (drop_bit 8 packed AND 0xFF)], 2))"
| "DeltaTransform_pack_to_slice (Medium dx dz dy yaw) out =
     (if length out < 4 then None
      else
        let u_dy = (dy + 32) AND 0x3F
        in Some (out[0 := DeltaTier_tag TierMedium OR push_bit 2 u_dy, 1 := dx, 2 := dz,
                     3 := yaw_byte yaw], 4))"
| "DeltaTransform_pack_to_slice (Full coord yaw flags) out =
     (if length out < 8 then None
      else
        let full_7b = pack_with_yaw_and_flags coord yaw flags
        in Some ((DeltaTier_tag TierFull OR push_bit 2 (flags AND 0x0F)) # full_7b @ drop 8 out, 8))"

definition DeltaTransform_unpack_from_slice :: "u8 list \<Rightarrow> (DeltaTransform \<times> nat) option" where
  "DeltaTransform_unpack_from_slice bytes =
     (if bytes = [] then None
      else case DeltaTier_from_tag (bytes ! 0) of
        TierStationary \<Rightarrow> Some (Stationary, 1)
      | TierSmall \<Rightarrow>
          (if length bytes < 2 then None
           else
             let packed = (ucast (bytes ! 0) :: u16) OR push_bit 8 (ucast (bytes ! 1));
                 u_dx = ucast (drop_bit 2 packed AND 0x0F);
                 u_dz = ucast (drop_bit 6 packed AND 0x0F);
                 u_dy = ucast (drop_bit 10 packed AND 0x07);
                 u_dyaw = ucast (drop_bit 13 packed AND 0x07)
             in Some (Small (u_dx - 8) (u_dz - 8) (u_dy - 4) (u_dyaw - 4), 2))
      | TierMedium \<Rightarrow>
          (if length bytes < 4 then None
           else
             let u_dy = drop_bit 2 (bytes ! 0) AND 0x3F;
                 dy = u_dy - 32;
                 dx = bytes ! 1;
                 dz = bytes ! 2;
                 yaw = QuantizedYaw (bytes ! 3)
             in Some (Medium dx dz dy yaw, 4))
      | TierFull \<Rightarrow>
          (if length bytes < 8 then None
           else
             let buf_7b = take 7 (drop 1 bytes)
             in (case unpack_with_yaw_and_flags buf_7b of
                   (coord, yaw, flags) \<Rightarrow> Some (Full coord yaw flags, 8))))"

section \<open>Reconstruction error\<close>

lemma round_step_pos:
  assumes "d \<noteq> 0" "0 < h"
  shows "round_step (2 * h) d = sgn d * ((\<bar>d\<bar> + h) div (2 * h))"
proof -
  have h: "2 * h sdiv 2 = h" using assms by (simp add: signed_divide_int_def sgn_mult)
  have "sgn (d + h * sgn d) = sgn d" "\<bar>d + h * sgn d\<bar> = \<bar>d\<bar> + h"
    using assms by (auto simp: sgn_if)
  then show ?thesis
    unfolding round_step_def h signed_divide_int_def using assms by (simp add: sgn_mult)
qed

lemma round_step_error:
  assumes "0 < h"
  shows "\<bar>d - 2 * h * round_step (2 * h) d\<bar> \<le> h"
proof (cases "d = 0")
  case True
  then show ?thesis using assms by (simp add: round_step_def)
next
  case False
  let ?q = "(\<bar>d\<bar> + h) div (2 * h)"
  have "\<bar>d\<bar> + h = 2 * h * ?q + (\<bar>d\<bar> + h) mod (2 * h)" by simp
  moreover have "0 \<le> (\<bar>d\<bar> + h) mod (2 * h)" "(\<bar>d\<bar> + h) mod (2 * h) < 2 * h"
    using assms by simp_all
  ultimately have "\<bar>\<bar>d\<bar> - 2 * h * ?q\<bar> \<le> h" by linarith
  moreover have "d - 2 * h * round_step (2 * h) d = sgn d * (\<bar>d\<bar> - 2 * h * ?q)"
    unfolding round_step_pos [OF False assms] by (simp add: algebra_simps abs_mult_sgn)
  ultimately show ?thesis using False by (simp add: abs_mult)
qed

lemma uint_offset_axis:
  assumes "0 \<le> hi" "hi \<le> 65535"
  shows "int (unat (offset_axis base d step hi)) = max 0 (min (int (unat base) + sint d * step) hi)"
proof -
  let ?v = "max 0 (min (int (unat base) + sint d * step) hi)"
  have "uint (word_of_int ?v :: u16) = ?v"
    unfolding uint_word_of_int_eq using assms by (intro take_bit_int_eq_self) simp_all
  then show ?thesis by (simp add: offset_axis_def)
qed

lemma clamp_closer:
  "\<bar>t - x\<bar> \<le> h \<Longrightarrow> 0 \<le> t \<Longrightarrow> t \<le> hi \<Longrightarrow> \<bar>t - max 0 (min x hi)\<bar> \<le> (h :: int)"
  by linarith

text \<open>An axis rounded to a step and rebuilt is off by half a step, whatever the clamp does.\<close>

lemma offset_axis_error:
  assumes "0 < h" "hi \<le> 65535" "int (unat tgt) \<le> hi"
    and "round_step (2 * h) (int (unat tgt) - int (unat base)) \<in> {- 128 .. 127}"
  shows "\<bar>int (unat tgt) - int (unat (offset_axis base
      (word_of_int (round_step (2 * h) (int (unat tgt) - int (unat base)))) (2 * h) hi))\<bar> \<le> h"
proof -
  let ?d = "int (unat tgt) - int (unat base)"
  have s: "sint (word_of_int (round_step (2 * h) ?d) :: i8) = round_step (2 * h) ?d"
    using assms(4) by (intro sint_of_int_range) simp_all
  have "0 \<le> hi" using assms(3) by (rule order_trans [rotated]) simp
  have "\<bar>int (unat tgt) - (int (unat base) + round_step (2 * h) ?d * (2 * h))\<bar> \<le> h"
    using round_step_error [OF assms(1), of ?d] by (simp add: algebra_simps)
  then show ?thesis
    unfolding uint_offset_axis [OF \<open>0 \<le> hi\<close> assms(2)] s
    by (rule clamp_closer) (use assms(3) in simp_all)
qed

lemma new_coord_valid:
  "unat py \<le> 4095 \<Longrightarrow> QuantizedCellCoord_new px py pz = \<lparr>qc_x = px, qc_y = py, qc_z = pz\<rparr>"
  by (simp add: QuantizedCellCoord_new_def MAX_QUANTIZED_VERTICAL_def word_less_nat_alt)

definition coord_within :: "int \<Rightarrow> int \<Rightarrow> QuantizedCellCoord \<Rightarrow> QuantizedCellCoord \<Rightarrow> bool" where
  "coord_within h v a b \<longleftrightarrow>
     \<bar>int (unat (qc_x a)) - int (unat (qc_x b))\<bar> \<le> h \<and> \<bar>int (unat (qc_y a)) - int (unat (qc_y b))\<bar> \<le> v
     \<and> \<bar>int (unat (qc_z a)) - int (unat (qc_z b))\<bar> \<le> h"

definition yaw_within :: "int \<Rightarrow> QuantizedYaw \<Rightarrow> QuantizedYaw \<Rightarrow> bool" where
  "yaw_within k a b \<longleftrightarrow> \<bar>sint (shortest_arc_delta a b)\<bar> \<le> k"

lemma yaw_small_error:
  fixes base tgt :: u8
  assumes "round_step 4 (sint (tgt - base)) \<in> {- 4 .. 3}"
  shows "\<bar>sint (tgt - (base + word_of_int (round_step 4 (sint (tgt - base))) * 4))\<bar> \<le> 2"
proof -
  let ?d = "sint (tgt - base)"
  let ?e = "?d - 4 * round_step 4 ?d"
  have e: "\<bar>?e\<bar> \<le> 2" using round_step_error [of 2 ?d] by simp
  have "tgt - (base + word_of_int (round_step 4 ?d) * 4) = word_of_int ?e"
    by (simp add: algebra_simps)
  moreover have "sint (word_of_int ?e :: u8) = ?e"
    by (rule sint_of_int_range) (use e in \<open>simp_all add: abs_le_iff\<close>)
  ultimately show ?thesis using e by (simp only:)
qed

lemma bounds_offset_4095: "unat (offset_axis base d step 4095) \<le> 4095"
  using uint_offset_axis [of 4095 base d step] by linarith

lemma steps:
  "TIER1_HORIZONTAL_STEP = 2 * 8" "TIER1_VERTICAL_STEP = 2 * 1" "TIER1_YAW_STEP = 4"
  "TIER2_HORIZONTAL_STEP = 2 * 4" "TIER2_VERTICAL_STEP = 2 * 1"
  by (simp_all add: TIER1_HORIZONTAL_STEP_def TIER1_VERTICAL_STEP_def TIER1_YAW_STEP_def
      TIER2_HORIZONTAL_STEP_def TIER2_VERTICAL_STEP_def)

text \<open>The conditions under which each tier is chosen, read back from the result.\<close>

abbreviation diff_of :: "u16 \<Rightarrow> u16 \<Rightarrow> int" where
  "diff_of base tgt \<equiv> int (unat tgt) - int (unat base)"

lemma compute_Stationary:
  "DeltaTransform_compute base byaw target tyaw flags = Stationary \<Longrightarrow>
     coord_within 15 1 base target \<and> tyaw = byaw"
  by (cases tyaw; cases byaw)
    (auto simp: DeltaTransform_compute_def Let_def coord_within_def steps split: if_splits)

lemma compute_Small:
  assumes "DeltaTransform_compute base byaw target tyaw flags = Small dx dz dy dyaw"
  shows "dx = word_of_int (round_step (2 * 8) (diff_of (qc_x base) (qc_x target)))"
    and "dz = word_of_int (round_step (2 * 8) (diff_of (qc_z base) (qc_z target)))"
    and "dy = word_of_int (round_step (2 * 1) (diff_of (qc_y base) (qc_y target)))"
    and "dyaw = word_of_int (round_step 4 (sint (yaw_byte tyaw - yaw_byte byaw)))"
    and "round_step (2 * 8) (diff_of (qc_x base) (qc_x target)) \<in> {- 8 .. 7}"
    and "round_step (2 * 8) (diff_of (qc_z base) (qc_z target)) \<in> {- 8 .. 7}"
    and "round_step (2 * 1) (diff_of (qc_y base) (qc_y target)) \<in> {- 4 .. 3}"
    and "round_step 4 (sint (yaw_byte tyaw - yaw_byte byaw)) \<in> {- 4 .. 3}"
  using assms unfolding DeltaTransform_compute_def Let_def steps
  by (simp_all only: DeltaTransform.inject DeltaTransform.distinct split: if_splits)

lemma compute_Medium:
  assumes "DeltaTransform_compute base byaw target tyaw flags = Medium dx dz dy yaw"
  shows "dx = word_of_int (round_step (2 * 4) (diff_of (qc_x base) (qc_x target)))"
    and "dz = word_of_int (round_step (2 * 4) (diff_of (qc_z base) (qc_z target)))"
    and "dy = word_of_int (round_step (2 * 1) (diff_of (qc_y base) (qc_y target)))"
    and "yaw = tyaw"
    and "round_step (2 * 4) (diff_of (qc_x base) (qc_x target)) \<in> {- 128 .. 127}"
    and "round_step (2 * 4) (diff_of (qc_z base) (qc_z target)) \<in> {- 128 .. 127}"
    and "round_step (2 * 1) (diff_of (qc_y base) (qc_y target)) \<in> {- 32 .. 31}"
  using assms unfolding DeltaTransform_compute_def Let_def steps
  by (simp_all only: DeltaTransform.inject DeltaTransform.distinct split: if_splits)

lemma compute_Full:
  "DeltaTransform_compute base byaw target tyaw flags = Full coord yaw fl \<Longrightarrow>
     coord = target \<and> yaw = tyaw \<and> fl = flags"
  unfolding DeltaTransform_compute_def Let_def by (auto split: if_splits)

text \<open>
  C37. What the receiver reconstructs: for a target with a 12-bit elevation, applying the
  computed delta to the same anchor gives the target exactly in the Full tier, and otherwise a
  coordinate within 15 horizontal units and 1 vertical unit (8 and 1 in the Small tier, 4 and 1
  in the Medium tier), with a heading within 2 of the 256 steps (exact except in the Small tier).
\<close>

theorem delta_apply_compute_error:
  assumes "unat (qc_y target) \<le> 4095"
  shows "case DeltaTransform_apply (DeltaTransform_compute base byaw target tyaw flags) base byaw of
    (coord, yaw, fl) \<Rightarrow>
      (case DeltaTransform_compute base byaw target tyaw flags of
         Stationary \<Rightarrow> coord_within 15 1 coord target \<and> yaw = tyaw
       | Small _ _ _ _ \<Rightarrow> coord_within 8 1 coord target \<and> yaw_within 2 yaw tyaw
       | Medium _ _ _ _ \<Rightarrow> coord_within 4 1 coord target \<and> yaw = tyaw
       | Full _ _ _ \<Rightarrow> coord = target \<and> yaw = tyaw \<and> fl = flags)"
proof (cases "DeltaTransform_compute base byaw target tyaw flags")
  case Stationary
  then show ?thesis using compute_Stationary [OF Stationary] by simp
next
  case (Small dx dz dy dyaw)
  note s = compute_Small [OF Small]
  have "uint w \<le> 65535" for w :: u16 using uint_bounded [of w] by simp
  moreover have "uint (qc_y target) \<le> 4095" using assms by (metis int_nat_eq of_nat_le_iff of_nat_numeral uint_nat)
  ultimately have "coord_within 8 1 (\<lparr>qc_x = offset_axis (qc_x base) dx (2 * 8) 65535,
      qc_y = offset_axis (qc_y base) dy (2 * 1) 4095, qc_z = offset_axis (qc_z base) dz (2 * 8) 65535\<rparr>) target"
    using offset_axis_error [of 8 65535 "qc_x target" "qc_x base"] s(5)
      offset_axis_error [of 1 4095 "qc_y target" "qc_y base"] s(7)
      offset_axis_error [of 8 65535 "qc_z target" "qc_z base"] s(6) assms
    unfolding coord_within_def s(1-3) by (simp add: abs_minus_commute)
  moreover have "yaw_within 2 (QuantizedYaw (yaw_byte byaw + dyaw * 4)) tyaw"
    using yaw_small_error [OF s(8)] unfolding yaw_within_def shortest_arc_delta_def s(4) by simp
  ultimately show ?thesis
    by (simp add: Small Let_def new_coord_valid bounds_offset_4095 steps)
next
  case (Medium dx dz dy yaw)
  note s = compute_Medium [OF Medium]
  have "uint w \<le> 65535" for w :: u16 using uint_bounded [of w] by simp
  moreover have "uint (qc_y target) \<le> 4095" using assms by (metis int_nat_eq of_nat_le_iff of_nat_numeral uint_nat)
  ultimately have "coord_within 4 1 (\<lparr>qc_x = offset_axis (qc_x base) dx (2 * 4) 65535,
      qc_y = offset_axis (qc_y base) dy (2 * 1) 4095, qc_z = offset_axis (qc_z base) dz (2 * 4) 65535\<rparr>) target"
    using offset_axis_error [of 4 65535 "qc_x target" "qc_x base"] s(5)
      offset_axis_error [of 1 4095 "qc_y target" "qc_y base"] s(7)
      offset_axis_error [of 4 65535 "qc_z target" "qc_z base"] s(6) assms
    unfolding coord_within_def s(1-3) by (simp add: abs_minus_commute)
  then show ?thesis
    by (simp add: Medium Let_def new_coord_valid bounds_offset_4095 steps s(4))
next
  case (Full coord yaw fl)
  then show ?thesis using compute_Full [OF Full] by simp
qed

theorem delta_apply_compute_error_witness:
  "case DeltaTransform_apply
      (DeltaTransform_compute (QuantizedCellCoord_new 1000 20 1000) (QuantizedYaw 255)
        (QuantizedCellCoord_new 1100 22 970) (QuantizedYaw 4) 0)
      (QuantizedCellCoord_new 1000 20 1000) (QuantizedYaw 255) of
    (coord, yaw, fl) \<Rightarrow>
      (case DeltaTransform_compute (QuantizedCellCoord_new 1000 20 1000) (QuantizedYaw 255)
          (QuantizedCellCoord_new 1100 22 970) (QuantizedYaw 4) 0 of
         Stationary \<Rightarrow> coord_within 15 1 coord (QuantizedCellCoord_new 1100 22 970) \<and> yaw = QuantizedYaw 4
       | Small _ _ _ _ \<Rightarrow> coord_within 8 1 coord (QuantizedCellCoord_new 1100 22 970)
           \<and> yaw_within 2 yaw (QuantizedYaw 4)
       | Medium _ _ _ _ \<Rightarrow> coord_within 4 1 coord (QuantizedCellCoord_new 1100 22 970) \<and> yaw = QuantizedYaw 4
       | Full _ _ _ \<Rightarrow> coord = QuantizedCellCoord_new 1100 22 970 \<and> yaw = QuantizedYaw 4 \<and> fl = 0)"
  by (rule delta_apply_compute_error) (simp add: QuantizedCellCoord_new_def MAX_QUANTIZED_VERTICAL_def)

section \<open>Wire round trip\<close>

text \<open>The transforms the wire can carry: every field within its declared number of bits.\<close>

fun DeltaTransform_wf :: "DeltaTransform \<Rightarrow> bool" where
  "DeltaTransform_wf Stationary \<longleftrightarrow> True"
| "DeltaTransform_wf (Small dx dz dy dyaw) \<longleftrightarrow>
     take_bit 4 (dx + 8) = dx + 8 \<and> take_bit 4 (dz + 8) = dz + 8
     \<and> take_bit 3 (dy + 4) = dy + 4 \<and> take_bit 3 (dyaw + 4) = dyaw + 4"
| "DeltaTransform_wf (Medium dx dz dy yaw) \<longleftrightarrow> take_bit 6 (dy + 32) = dy + 32"
| "DeltaTransform_wf (Full coord yaw flags) \<longleftrightarrow>
     qc_y coord AND MAX_QUANTIZED_VERTICAL = qc_y coord \<and> flags AND 0x0F = flags"

lemma scast_take_bit:
  "n < 8 \<Longrightarrow> take_bit n (scast (w :: i8) :: u16) = ucast (take_bit n w)"
  by (rule bit_word_eqI) (auto simp: bit_take_bit_iff bit_ucast_iff bit_signed_iff min_def)

lemma u16_of_bytes:
  "(ucast (ucast (w AND 0xFF) :: u8) :: u16) OR push_bit 8 (ucast (ucast (drop_bit 8 w AND 0xFF) :: u8)) = w"
  unfolding packed_bits by auto

lemma Small_fields:
  fixes a b c d :: u8
  defines "packed \<equiv> (ucast (1 :: u8) :: u16) OR push_bit 2 (ucast (take_bit 4 a)) OR push_bit 6 (ucast (take_bit 4 b))
    OR push_bit 10 (ucast (take_bit 3 c)) OR push_bit 13 (ucast (take_bit 3 d))"
  shows "ucast (drop_bit 2 packed AND 0x0F) = take_bit 4 a"
    and "ucast (drop_bit 6 packed AND 0x0F) = take_bit 4 b"
    and "ucast (drop_bit 10 packed AND 0x07) = take_bit 3 c"
    and "ucast (drop_bit 13 packed AND 0x07) = take_bit 3 d"
    and "(ucast (packed AND 0xFF) :: u8) AND 0x03 = 1"
  unfolding packed_def packed_bits by (auto simp: bit_1_iff)

lemma Medium_fields:
  fixes a :: u8
  shows "drop_bit 2 (2 OR push_bit 2 (a AND 0x3F)) AND 0x3F = take_bit 6 a"
    and "(2 OR push_bit 2 (a AND 0x3F)) AND 0x03 = 2"
    and "((3 :: u8) OR push_bit 2 (a AND 0x0F)) AND 0x03 = 3"
proof -
  have "bit (push_bit 1 1 :: u8) n \<longleftrightarrow> n = 1" "bit (mask 2 :: u8) n \<longleftrightarrow> n < 2" for n
    unfolding bit_push_bit_iff bit_1_iff bit_mask_iff possible_bit_word by auto
  then have b: "bit (2 :: u8) n \<longleftrightarrow> n = 1" "bit (3 :: u8) n \<longleftrightarrow> n < 2" for n
    by (simp_all add: mask_eq_exp_minus_1)
  show "drop_bit 2 (2 OR push_bit 2 (a AND 0x3F)) AND 0x3F = take_bit 6 a"
    "(2 OR push_bit 2 (a AND 0x3F)) AND 0x03 = 2" "((3 :: u8) OR push_bit 2 (a AND 0x0F)) AND 0x03 = 3"
    unfolding packed_bits unfolding b by auto
qed

lemma pack_unpack_wf:
  assumes "DeltaTransform_wf d" "8 \<le> length out"
  shows "\<exists>out' n. DeltaTransform_pack_to_slice d out = Some (out', n) \<and> drop n out' = drop n out
    \<and> length out' = length out \<and> DeltaTransform_unpack_from_slice out' = Some (d, n)"
proof -
  obtain b0 b1 b2 b3 b4 b5 b6 b7 rest where out: "out = b0 # b1 # b2 # b3 # b4 # b5 # b6 # b7 # rest"
    using assms(2) by (auto simp: numeral_eq_Suc Suc_le_length_iff)
  show ?thesis
  proof (cases d)
    case Stationary
    then show ?thesis
      by (simp add: out DeltaTransform_unpack_from_slice_def DeltaTier_from_tag_def)
  next
    case (Small dx dz dy dyaw)
    define packed :: u16 where "packed = ucast (1 :: u8) OR push_bit 2 (ucast (take_bit 4 (dx + 8)))
      OR push_bit 6 (ucast (take_bit 4 (dz + 8))) OR push_bit 10 (ucast (take_bit 3 (dy + 4)))
      OR push_bit 13 (ucast (take_bit 3 (dyaw + 4)))"
    let ?out = "ucast (packed AND 0xFF) # ucast (drop_bit 8 packed AND 0xFF) # b2 # b3 # b4 # b5 # b6 # b7 # rest"
    have pack: "DeltaTransform_pack_to_slice d out = Some (?out, 2)"
      unfolding Small out DeltaTransform_pack_to_slice.simps Let_def and_mask_take_bit packed_def
      by (simp add: scast_take_bit)
    have "ucast (drop_bit 2 packed AND 0x0F) = dx + 8" "ucast (drop_bit 6 packed AND 0x0F) = dz + 8"
      "ucast (drop_bit 10 packed AND 0x07) = dy + 4" "ucast (drop_bit 13 packed AND 0x07) = dyaw + 4"
      using assms(1) unfolding Small packed_def Small_fields by (simp_all only: DeltaTransform_wf.simps)
    moreover have "(ucast (packed AND 0xFF) :: u8) AND 0x03 = 1"
      unfolding packed_def by (rule Small_fields)
    ultimately have "DeltaTransform_unpack_from_slice ?out = Some (d, 2)"
      unfolding DeltaTransform_unpack_from_slice_def DeltaTier_from_tag_def Let_def nth_bytes Small
        u16_of_bytes by simp
    with pack show ?thesis by (simp add: out)
  next
    case (Medium dx dz dy yaw)
    let ?out = "(2 OR push_bit 2 ((dy + 32) AND 0x3F)) # dx # dz # yaw_byte yaw # b4 # b5 # b6 # b7 # rest"
    have "DeltaTransform_pack_to_slice d out = Some (?out, 4)"
      unfolding Medium out by (simp add: Let_def)
    moreover have "DeltaTransform_unpack_from_slice ?out = Some (d, 4)"
      using assms(1) Medium_fields(1,2) [of "dy + 32"]
      unfolding DeltaTransform_unpack_from_slice_def DeltaTier_from_tag_def Let_def nth_bytes Medium
      by (simp add: and_mask_take_bit)
    ultimately show ?thesis by (simp add: out)
  next
    case (Full coord yaw flags)
    let ?p = "pack_with_yaw_and_flags coord yaw flags"
    let ?out = "(3 OR push_bit 2 (flags AND 0x0F)) # ?p @ rest"
    have l: "length ?p = 7" by (simp add: pack_with_yaw_and_flags_def Let_def)
    have "DeltaTransform_pack_to_slice d out = Some (?out, 8)"
      unfolding Full out by (simp add: Let_def)
    moreover have "DeltaTransform_unpack_from_slice ?out = Some (d, 8)"
      using assms(1) Medium_fields(3) [of flags] l
      unfolding DeltaTransform_unpack_from_slice_def DeltaTier_from_tag_def Let_def nth_bytes Full
      by (simp add: unpack_pack_7)
    ultimately show ?thesis using l by (simp add: out)
  qed
qed

text \<open>Every computed delta fits the wire, for a valid target.\<close>

lemma take_bit_offset:
  fixes k :: int
  assumes "0 \<le> k + 2 ^ m" "k + 2 ^ m < 2 ^ n"
  shows "take_bit n (word_of_int k + word_of_int (2 ^ m) :: i8) = word_of_int k + word_of_int (2 ^ m)"
proof -
  have "take_bit n (word_of_int (k + 2 ^ m) :: i8) = word_of_int (take_bit n (k + 2 ^ m))"
    by (rule take_bit_of_int)
  then show ?thesis using assms by (simp add: take_bit_int_eq_self)
qed

lemma compute_wf:
  assumes "qc_y target AND MAX_QUANTIZED_VERTICAL = qc_y target" "flags AND 0x0F = flags"
  shows "DeltaTransform_wf (DeltaTransform_compute base byaw target tyaw flags)"
proof (cases "DeltaTransform_compute base byaw target tyaw flags")
  case (Small dx dz dy dyaw)
  note s = compute_Small [OF Small]
  have "take_bit 4 (word_of_int k + 8 :: i8) = word_of_int k + 8" if "k \<in> {- 8 .. 7}" for k
    using take_bit_offset [of k 3 4] that by simp
  moreover have "take_bit 3 (word_of_int k + 4 :: i8) = word_of_int k + 4" if "k \<in> {- 4 .. 3}" for k
    using take_bit_offset [of k 2 3] that by simp
  ultimately show ?thesis unfolding Small DeltaTransform_wf.simps s(1-4) using s(5-8) by blast
next
  case (Medium dx dz dy yaw)
  note s = compute_Medium [OF Medium]
  have "take_bit 6 (word_of_int k + 32 :: i8) = word_of_int k + 32" if "k \<in> {- 32 .. 31}" for k
    using take_bit_offset [of k 5 6] that by simp
  then show ?thesis unfolding Medium DeltaTransform_wf.simps s(3) using s(7) by blast
next
  case (Full coord yaw fl)
  then show ?thesis using compute_Full [OF Full] assms by simp
qed simp

text \<open>
  Transmission: for a valid target and 4-bit flags, the computed delta always packs into a
  buffer of at least 8 bytes, touches only the bytes it reports, and unpacking the buffer gives
  back the same delta and the same length.
\<close>

theorem delta_wire_roundtrip:
  assumes "qc_y target AND MAX_QUANTIZED_VERTICAL = qc_y target" "flags AND 0x0F = flags"
    and "8 \<le> length out"
  shows "\<exists>out' n. DeltaTransform_pack_to_slice (DeltaTransform_compute base byaw target tyaw flags) out
        = Some (out', n)
    \<and> drop n out' = drop n out \<and> length out' = length out
    \<and> DeltaTransform_unpack_from_slice out' = Some (DeltaTransform_compute base byaw target tyaw flags, n)"
  using pack_unpack_wf [OF compute_wf [OF assms(1,2)] assms(3)] by blast

theorem delta_wire_roundtrip_witness:
  "\<exists>out' n. DeltaTransform_pack_to_slice
        (DeltaTransform_compute (QuantizedCellCoord_new 1000 20 1000) (QuantizedYaw 255)
          (QuantizedCellCoord_new 1100 22 970) (QuantizedYaw 4) 0) (replicate 9 0) = Some (out', n)
    \<and> DeltaTransform_unpack_from_slice out' =
        Some (DeltaTransform_compute (QuantizedCellCoord_new 1000 20 1000) (QuantizedYaw 255)
          (QuantizedCellCoord_new 1100 22 970) (QuantizedYaw 4) 0, n)"
  using delta_wire_roundtrip [of "QuantizedCellCoord_new 1100 22 970" 0 "replicate 9 0"
      "QuantizedCellCoord_new 1000 20 1000" "QuantizedYaw 255" "QuantizedYaw 4"]
  by (auto simp: QuantizedCellCoord_new_def MAX_QUANTIZED_VERTICAL_def)

end
