(* ===== verification/NetErrors.thy ===== *)
theory NetErrors
  imports Prelude
begin

text \<open>
  The error enums of \<^verbatim>\<open>eidolon-net/src/error.rs\<close>, with the source's variants; the components of
  the network crate return them on the left of a sum.
\<close>

datatype BitstreamError =
    BufferOverflow nat nat      \<comment> \<open>required bits, available bits\<close>
  | UnexpectedEof nat nat       \<comment> \<open>requested bits, remaining bits\<close>
  | InvalidVarint
  | InvalidBitWidth nat

datatype NetError =
    BitstreamErr BitstreamError
  | InvalidMagic "u8 list" "u8 list"        \<comment> \<open>expected, received\<close>
  | UnsupportedVersion u16 u16              \<comment> \<open>expected, received\<close>
  | InvalidChannel u8
  | PayloadTooLarge nat nat                 \<comment> \<open>length, max\<close>
  | TruncatedPacket nat nat                 \<comment> \<open>expected, actual length\<close>
  | QueueFull
  | CorruptedData
  | ConnectionTimedOut
  | AuthenticationFailed
  | ReplayDetected u64 u64                  \<comment> \<open>sequence, window bottom\<close>
  | RateLimitExceeded u32
  | StaleAuthorityEpoch u32 u32             \<comment> \<open>current, packet epoch\<close>
  | IncompatibleProtocolVersion u16 u16     \<comment> \<open>server, client version\<close>
  | MemoryQuotaExceeded nat nat             \<comment> \<open>current, max bytes\<close>

end
