(* ===== verification/Bitstream.thy ===== *)
theory Bitstream
  imports Delta NetErrors
begin

text \<open>
  The bit-level serialiser of \<^verbatim>\<open>eidolon-net/src/bitstream.rs\<close>: a writer and a reader over a
  byte slice with a cursor counted in bits, most significant bit first, their byte-aligned fast
  paths, variable-length integers, and the delta and multi-resolution transforms built on them.

  A buffer is read as the function \<open>bit_at\<close> from bit positions to bits. Every writer is
  specified by the bits it sets and every reader by the bits it reads; the locale \<open>codec\<close> states
  what a writer and a reader of the same value owe each other, so that the round trip of a
  composite format is proved once. Lengths and cursors are \<open>nat\<close>: eight times the length of a
  slice stays below \<open>usize::MAX\<close>.
\<close>

section \<open>Data\<close>

record BitWriter =
  bw_buffer :: "u8 list"
  bw_offset :: nat

record BitReader =
  br_buffer :: "u8 list"
  br_offset :: nat

datatype MultiResTier = TierTactical | TierMidfield | TierHorizon | TierMotionless

fun MultiResTier_tag :: "MultiResTier \<Rightarrow> u8" where
  "MultiResTier_tag TierTactical = 0"
| "MultiResTier_tag TierMidfield = 1"
| "MultiResTier_tag TierHorizon = 2"
| "MultiResTier_tag TierMotionless = 3"

definition MultiResTier_from_tag :: "u8 \<Rightarrow> MultiResTier" where
  "MultiResTier_from_tag tag =
     (let t = tag AND 0x03 in
      if t = 0 then TierTactical else if t = 1 then TierMidfield
      else if t = 2 then TierHorizon else TierMotionless)"

datatype MultiResTransform =
    MultiTactical QuantizedCellCoord QuantizedYaw u8
  | MultiMidfield MidfieldQuantizedCoord QuantizedYaw6Bit u8
  | MultiHorizon HorizonQuantizedCoord QuantizedYaw4Bit u8
  | MultiStationary

record MultiResBatchEntry =
  be_entity_id :: u32
  be_transform :: MultiResTransform

section \<open>The writer\<close>

definition BitWriter_new :: "u8 list \<Rightarrow> BitWriter" where
  "BitWriter_new buffer = \<lparr>bw_buffer = map (\<lambda>_. 0) buffer, bw_offset = 0\<rparr>"

definition BitWriter_from_existing :: "u8 list \<Rightarrow> nat \<Rightarrow> BitWriter" where
  "BitWriter_from_existing buffer off = \<lparr>bw_buffer = buffer, bw_offset = off\<rparr>"

definition BitWriter_byte_len :: "BitWriter \<Rightarrow> nat" where
  "BitWriter_byte_len w = (bw_offset w + 7) div 8"

definition BitWriter_total_bits :: "BitWriter \<Rightarrow> nat" where
  "BitWriter_total_bits w = length (bw_buffer w) * 8"

definition BitWriter_remaining_bits :: "BitWriter \<Rightarrow> nat" where
  "BitWriter_remaining_bits w = BitWriter_total_bits w - bw_offset w"

definition BitWriter_as_bytes :: "BitWriter \<Rightarrow> u8 list" where
  "BitWriter_as_bytes w =
     (if BitWriter_byte_len w \<le> length (bw_buffer w) then take (BitWriter_byte_len w) (bw_buffer w)
      else [])"

definition write_bit :: "bool \<Rightarrow> BitWriter \<Rightarrow> BitWriter \<times> (BitstreamError + unit)" where
  "write_bit value w =
     (let byte_idx = bw_offset w div 8;
          bit_idx = bw_offset w mod 8
      in if byte_idx < length (bw_buffer w)
      then
        (let mask = push_bit (7 - bit_idx) (1 :: u8);
             byte = bw_buffer w ! byte_idx;
             byte' = (if value then byte OR mask else byte AND NOT mask)
         in (w\<lparr>bw_buffer := (bw_buffer w)[byte_idx := byte'], bw_offset := bw_offset w + 1\<rparr>, Inr ()))
      else (w, Inl (BufferOverflow 1 0)))"

text \<open>The chunk loop: each round fills what is left of the current byte.\<close>

definition low_mask :: "nat \<Rightarrow> u8" where
  "low_mask tk = ucast (push_bit tk (1 :: u16) - 1)"

function write_bits_loop :: "u64 \<Rightarrow> nat \<Rightarrow> BitWriter \<Rightarrow> BitWriter" where
  "write_bits_loop cur_val rem_bits w =
     (if rem_bits = 0 then w
      else
        let byte_idx = bw_offset w div 8;
            bit_idx = bw_offset w mod 8;
            avail = 8 - bit_idx;
            tk = min rem_bits avail;
            shift_src = rem_bits - tk;
            chunk = ucast (drop_bit shift_src cur_val) AND low_mask tk;
            shift_dst = avail - tk;
            mask = push_bit shift_dst (low_mask tk);
            buf = (if byte_idx < length (bw_buffer w)
                   then (bw_buffer w)[byte_idx :=
                          (bw_buffer w ! byte_idx AND NOT mask) OR push_bit shift_dst chunk]
                   else bw_buffer w)
        in write_bits_loop cur_val (rem_bits - tk)
             (w\<lparr>bw_buffer := buf, bw_offset := bw_offset w + tk\<rparr>))"
  by pat_completeness auto
termination
proof (relation "measure (\<lambda>(c, n, w). n)")
  fix c :: u64 and n byte_idx bit_idx avail tk shift_src shift_dst :: nat and chunk mask :: u8
    and w :: BitWriter and buf
  assume "n \<noteq> 0" "bit_idx = bw_offset w mod 8" "avail = 8 - bit_idx" "tk = min n avail"
  then have "0 < tk" by simp
  then show "((c, n - tk, w\<lparr>bw_buffer := buf, bw_offset := bw_offset w + tk\<rparr>), c, n, w)
      \<in> measure (\<lambda>(c, n, w). n)"
    using \<open>n \<noteq> 0\<close> by simp
qed simp

declare write_bits_loop.simps [simp del]

text \<open>The byte-aligned writes of a whole number of bytes; \<open>None\<close> when the subslice does not exist.\<close>

definition put_bytes :: "nat \<Rightarrow> u8 list \<Rightarrow> BitWriter \<Rightarrow> BitWriter option" where
  "put_bytes byte_idx bs w =
     (if byte_idx + length bs \<le> length (bw_buffer w)
      then Some (w\<lparr>bw_buffer := slice_put (bw_buffer w) byte_idx bs,
                   bw_offset := bw_offset w + 8 * length bs\<rparr>)
      else None)"

definition write_bits_slow :: "u64 \<Rightarrow> nat \<Rightarrow> BitWriter \<Rightarrow> BitWriter" where
  "write_bits_slow value num_bits w =
     (let cur_val = (if num_bits = 64 then value else value AND (push_bit num_bits 1 - 1))
      in write_bits_loop cur_val num_bits w)"

definition write_bits_fast :: "u64 \<Rightarrow> nat \<Rightarrow> BitWriter \<Rightarrow> BitWriter option" where
  "write_bits_fast value num_bits w =
     (if bw_offset w mod 8 = 0
      then
        (let byte_idx = bw_offset w div 8 in
         if num_bits = 8 then put_bytes byte_idx [ucast value] w
         else if num_bits = 16 then put_bytes byte_idx (be_bytes 2 (unat (ucast value :: u16))) w
         else if num_bits = 32 then put_bytes byte_idx (be_bytes 4 (unat (ucast value :: u32))) w
         else if num_bits = 64 then put_bytes byte_idx (be_bytes 8 (unat value)) w
         else None)
      else None)"

definition write_bits :: "u64 \<Rightarrow> nat \<Rightarrow> BitWriter \<Rightarrow> BitWriter \<times> (BitstreamError + unit)" where
  "write_bits value num_bits w =
     (if num_bits = 0 then (w, Inr ())
      else if num_bits > 64 then (w, Inl (InvalidBitWidth num_bits))
      else
        let remaining = BitWriter_remaining_bits w in
        if num_bits > remaining then (w, Inl (BufferOverflow num_bits remaining))
        else case write_bits_fast value num_bits w of
               Some w' \<Rightarrow> (w', Inr ())
             | None \<Rightarrow> (write_bits_slow value num_bits w, Inr ()))"

definition write_u8 :: "u8 \<Rightarrow> BitWriter \<Rightarrow> BitWriter \<times> (BitstreamError + unit)" where
  "write_u8 val w =
     (case (if bw_offset w mod 8 = 0 then put_bytes (bw_offset w div 8) [val] w else None) of
        Some w' \<Rightarrow> (w', Inr ())
      | None \<Rightarrow> write_bits (ucast val) 8 w)"

definition write_u16 :: "u16 \<Rightarrow> BitWriter \<Rightarrow> BitWriter \<times> (BitstreamError + unit)" where
  "write_u16 val w =
     (case (if bw_offset w mod 8 = 0 then put_bytes (bw_offset w div 8) (be_bytes 2 (unat val)) w
            else None) of
        Some w' \<Rightarrow> (w', Inr ())
      | None \<Rightarrow> write_bits (ucast val) 16 w)"

definition write_u32 :: "u32 \<Rightarrow> BitWriter \<Rightarrow> BitWriter \<times> (BitstreamError + unit)" where
  "write_u32 val w =
     (case (if bw_offset w mod 8 = 0 then put_bytes (bw_offset w div 8) (be_bytes 4 (unat val)) w
            else None) of
        Some w' \<Rightarrow> (w', Inr ())
      | None \<Rightarrow> write_bits (ucast val) 32 w)"

definition write_u64 :: "u64 \<Rightarrow> BitWriter \<Rightarrow> BitWriter \<times> (BitstreamError + unit)" where
  "write_u64 val w =
     (case (if bw_offset w mod 8 = 0 then put_bytes (bw_offset w div 8) (be_bytes 8 (unat val)) w
            else None) of
        Some w' \<Rightarrow> (w', Inr ())
      | None \<Rightarrow> write_bits val 64 w)"

function write_varint_loop ::
  "u64 \<Rightarrow> nat \<Rightarrow> BitWriter \<Rightarrow> BitWriter \<times> (BitstreamError + nat)"
where
  "write_varint_loop value bytes_written w =
     (let byte = ucast (value AND 0x7F) :: u8;
          value' = drop_bit 7 value;
          byte' = (if value' \<noteq> 0 then byte OR 0x80 else byte)
      in sbind (write_u8 byte')
           (\<lambda>_. if value' = 0 then sreturn (bytes_written + 1)
                else write_varint_loop value' (bytes_written + 1)) w)"
  by pat_completeness auto
termination
proof (relation "measure (\<lambda>(v, n, w). unat v)")
  fix v v' :: u64 and n :: nat and w s :: BitWriter and b b' :: u8 and u :: unit
  assume v': "v' = drop_bit 7 v" and nz: "v' \<noteq> 0"
  have "unat v' = unat v div 2 ^ 7" unfolding v' by (rule unat_drop_bit)
  moreover have "0 < unat v'" using nz by (simp add: unat_gt_0)
  ultimately have "unat v' < unat v" by (cases "unat v = 0") simp_all
  then show "((v', n + 1, s), v, n, w) \<in> measure (\<lambda>(v, n, w). unat v)" by simp
qed simp

declare write_varint_loop.simps [simp del]

definition write_varint :: "u64 \<Rightarrow> BitWriter \<Rightarrow> BitWriter \<times> (BitstreamError + nat)" where
  "write_varint value = write_varint_loop value 0"

definition write_bytes :: "u8 list \<Rightarrow> BitWriter \<Rightarrow> BitWriter \<times> (BitstreamError + unit)" where
  "write_bytes bytes w =
     (let bits_needed = length bytes * 8 in
      if bits_needed > BitWriter_remaining_bits w
      then (w, Inl (BufferOverflow bits_needed (BitWriter_remaining_bits w)))
      else case (if bw_offset w mod 8 = 0 then put_bytes (bw_offset w div 8) bytes w else None) of
             Some w' \<Rightarrow> (w', Inr ())
           | None \<Rightarrow> for_each write_u8 bytes w)"

definition flush_byte_alignment :: "BitWriter \<Rightarrow> BitWriter \<times> (BitstreamError + unit)" where
  "flush_byte_alignment w =
     (let rem = bw_offset w mod 8 in
      if rem \<noteq> 0 then write_bits 0 (8 - rem) w else (w, Inr ()))"

fun write_delta_transform :: "DeltaTransform \<Rightarrow> BitWriter \<Rightarrow> BitWriter \<times> (BitstreamError + unit)" where
  "write_delta_transform Stationary = write_bits (ucast (DeltaTier_tag TierStationary)) 2"
| "write_delta_transform (Small dx dz dy dyaw) =
     sbind (write_bits (ucast (DeltaTier_tag TierSmall)) 2) (\<lambda>_.
       let u_dx = scast (dx + 8) AND 0x0F;
           u_dz = scast (dz + 8) AND 0x0F;
           u_dy = scast (dy + 4) AND 0x07;
           u_dyaw = scast (dyaw + 4) AND 0x07
       in sbind (write_bits u_dx 4) (\<lambda>_.
          sbind (write_bits u_dz 4) (\<lambda>_.
          sbind (write_bits u_dy 3) (\<lambda>_.
          write_bits u_dyaw 3))))"
| "write_delta_transform (Medium dx dz dy yaw) =
     sbind (write_bits (ucast (DeltaTier_tag TierMedium)) 2) (\<lambda>_.
       let u_dx = ucast dx;
           u_dz = ucast dz;
           u_dy = scast (dy + 32) AND 0x3F;
           u_yaw = ucast (yaw_byte yaw)
       in sbind (write_bits u_dy 6) (\<lambda>_.
          sbind (write_bits u_dx 8) (\<lambda>_.
          sbind (write_bits u_dz 8) (\<lambda>_.
          write_bits u_yaw 8))))"
| "write_delta_transform (Full coord yaw flags) =
     sbind (write_bits (ucast (DeltaTier_tag TierFull)) 2) (\<lambda>_.
       write_bytes (pack_with_yaw_and_flags coord yaw flags))"

fun write_multires_transform ::
  "MultiResTransform \<Rightarrow> BitWriter \<Rightarrow> BitWriter \<times> (BitstreamError + unit)"
where
  "write_multires_transform MultiStationary = write_bits (ucast (MultiResTier_tag TierMotionless)) 2"
| "write_multires_transform (MultiTactical coord yaw flags) =
     sbind (write_bits (ucast (MultiResTier_tag TierTactical)) 2)
       (\<lambda>_. write_bytes (pack_with_yaw_and_flags coord yaw flags))"
| "write_multires_transform (MultiMidfield coord yaw flags) =
     sbind (write_bits (ucast (MultiResTier_tag TierMidfield)) 2)
       (\<lambda>_. write_bytes (Midfield_pack coord yaw flags))"
| "write_multires_transform (MultiHorizon coord heading flags) =
     sbind (write_bits (ucast (MultiResTier_tag TierHorizon)) 2)
       (\<lambda>_. write_bytes (Horizon_pack coord heading flags))"

definition write_batch_entry ::
  "MultiResBatchEntry \<Rightarrow> BitWriter \<Rightarrow> BitWriter \<times> (BitstreamError + unit)"
where
  "write_batch_entry entry =
     sbind (write_varint (ucast (be_entity_id entry)))
       (\<lambda>_. write_multires_transform (be_transform entry))"

definition write_multires_batch ::
  "MultiResBatchEntry list \<Rightarrow> BitWriter \<Rightarrow> BitWriter \<times> (BitstreamError + unit)"
where
  "write_multires_batch entries =
     sbind (write_varint (of_nat (length entries))) (\<lambda>_. for_each write_batch_entry entries)"

section \<open>The reader\<close>

definition BitReader_new :: "u8 list \<Rightarrow> BitReader" where
  "BitReader_new buffer = \<lparr>br_buffer = buffer, br_offset = 0\<rparr>"

definition BitReader_remaining_bits :: "BitReader \<Rightarrow> nat" where
  "BitReader_remaining_bits r = length (br_buffer r) * 8 - br_offset r"

definition read_bit :: "BitReader \<Rightarrow> BitReader \<times> (BitstreamError + bool)" where
  "read_bit r =
     (let byte_idx = br_offset r div 8;
          bit_idx = br_offset r mod 8
      in if byte_idx < length (br_buffer r)
      then
        (let mask = push_bit (7 - bit_idx) (1 :: u8);
             is_set = (br_buffer r ! byte_idx AND mask) \<noteq> 0
         in (r\<lparr>br_offset := br_offset r + 1\<rparr>, Inr is_set))
      else (r, Inl (UnexpectedEof 1 0)))"

function read_bits_loop :: "u64 \<Rightarrow> nat \<Rightarrow> BitReader \<Rightarrow> BitReader \<times> u64" where
  "read_bits_loop value rem_bits r =
     (if rem_bits = 0 then (r, value)
      else
        let byte_idx = br_offset r div 8;
            bit_idx = br_offset r mod 8;
            avail = 8 - bit_idx;
            tk = min rem_bits avail;
            shift = avail - tk;
            mask = push_bit shift (low_mask tk);
            value' = (if byte_idx < length (br_buffer r)
                      then
                        (let chunk = ucast (drop_bit shift (br_buffer r ! byte_idx AND mask))
                         in push_bit tk value OR chunk)
                      else value)
        in read_bits_loop value' (rem_bits - tk) (r\<lparr>br_offset := br_offset r + tk\<rparr>))"
  by pat_completeness auto
termination
proof (relation "measure (\<lambda>(c, n, w). n)")
  fix c c' :: u64 and n byte_idx bit_idx avail tk shift :: nat and mask :: u8 and r :: BitReader
  assume "n \<noteq> 0" "bit_idx = br_offset r mod 8" "avail = 8 - bit_idx" "tk = min n avail"
  then have "0 < tk" by simp
  then show "((c', n - tk, r\<lparr>br_offset := br_offset r + tk\<rparr>), c, n, r) \<in> measure (\<lambda>(c, n, w). n)"
    using \<open>n \<noteq> 0\<close> by simp
qed simp

declare read_bits_loop.simps [simp del]

text \<open>The byte-aligned reads of a whole number of bytes.\<close>

definition get_bytes :: "nat \<Rightarrow> nat \<Rightarrow> BitReader \<Rightarrow> u8 list option" where
  "get_bytes byte_idx n r =
     (if byte_idx + n \<le> length (br_buffer r) then Some (take n (drop byte_idx (br_buffer r))) else None)"

definition read_be :: "nat \<Rightarrow> BitReader \<Rightarrow> (BitReader \<times> nat) option" where
  "read_be n r =
     (if br_offset r mod 8 = 0
      then (case get_bytes (br_offset r div 8) n r of
              Some bytes \<Rightarrow> Some (r\<lparr>br_offset := br_offset r + 8 * n\<rparr>, from_be bytes)
            | None \<Rightarrow> None)
      else None)"

definition read_bits_fast :: "nat \<Rightarrow> BitReader \<Rightarrow> (BitReader \<times> nat) option" where
  "read_bits_fast num_bits r =
     (if num_bits = 8 then read_be 1 r
      else if num_bits = 16 then read_be 2 r
      else if num_bits = 32 then read_be 4 r
      else if num_bits = 64 then read_be 8 r
      else None)"

definition read_bits :: "nat \<Rightarrow> BitReader \<Rightarrow> BitReader \<times> (BitstreamError + u64)" where
  "read_bits num_bits r =
     (if num_bits = 0 then (r, Inr 0)
      else if num_bits > 64 then (r, Inl (InvalidBitWidth num_bits))
      else
        let remaining = BitReader_remaining_bits r in
        if num_bits > remaining then (r, Inl (UnexpectedEof num_bits remaining))
        else case read_bits_fast num_bits r of
               Some (r', v) \<Rightarrow> (r', Inr (of_nat v))
             | None \<Rightarrow> (case read_bits_loop 0 num_bits r of (r', v) \<Rightarrow> (r', Inr v)))"

definition read_u8 :: "BitReader \<Rightarrow> BitReader \<times> (BitstreamError + u8)" where
  "read_u8 r =
     (case read_be 1 r of
        Some (r', v) \<Rightarrow> (r', Inr (of_nat v))
      | None \<Rightarrow> sbind (read_bits 8) (\<lambda>v. sreturn (ucast v)) r)"

definition read_u16 :: "BitReader \<Rightarrow> BitReader \<times> (BitstreamError + u16)" where
  "read_u16 r =
     (case read_be 2 r of
        Some (r', v) \<Rightarrow> (r', Inr (of_nat v))
      | None \<Rightarrow> sbind (read_bits 16) (\<lambda>v. sreturn (ucast v)) r)"

definition read_u32 :: "BitReader \<Rightarrow> BitReader \<times> (BitstreamError + u32)" where
  "read_u32 r =
     (case read_be 4 r of
        Some (r', v) \<Rightarrow> (r', Inr (of_nat v))
      | None \<Rightarrow> sbind (read_bits 32) (\<lambda>v. sreturn (ucast v)) r)"

definition read_u64 :: "BitReader \<Rightarrow> BitReader \<times> (BitstreamError + u64)" where
  "read_u64 r =
     (case read_be 8 r of
        Some (r', v) \<Rightarrow> (r', Inr (of_nat v))
      | None \<Rightarrow> read_bits 64 r)"

text \<open>The loop \<open>for i in 0..10\<close>; \<open>shift\<close> is seven times \<open>i\<close>.\<close>

primrec read_varint_loop :: "nat \<Rightarrow> u64 \<Rightarrow> nat \<Rightarrow> BitReader \<Rightarrow> BitReader \<times> (BitstreamError + u64)" where
  "read_varint_loop 0 result shift = serror InvalidVarint"
| "read_varint_loop (Suc n) result shift =
     sbind read_u8 (\<lambda>byte.
       let v = ucast (byte AND 0x7F) :: u64 in
       if n = 0 \<and> v AND 0x7E \<noteq> 0 then serror InvalidVarint
       else
         let result' = result OR push_bit shift v in
         if byte AND 0x80 = 0 then sreturn result'
         else read_varint_loop n result' (shift + 7))"

definition read_varint :: "BitReader \<Rightarrow> BitReader \<times> (BitstreamError + u64)" where
  "read_varint = read_varint_loop 10 0 0"

text \<open>\<open>read_bytes\<close> fills a slice of a given length; the filled slice is the result.\<close>

definition read_bytes :: "nat \<Rightarrow> BitReader \<Rightarrow> BitReader \<times> (BitstreamError + u8 list)" where
  "read_bytes n r =
     (let bits_needed = n * 8 in
      if bits_needed > BitReader_remaining_bits r
      then (r, Inl (UnexpectedEof bits_needed (BitReader_remaining_bits r)))
      else case (if br_offset r mod 8 = 0 then get_bytes (br_offset r div 8) n r else None) of
             Some bytes \<Rightarrow> (r\<lparr>br_offset := br_offset r + bits_needed\<rparr>, Inr bytes)
           | None \<Rightarrow> repeat_n n read_u8 r)"

definition read_delta_transform :: "BitReader \<Rightarrow> BitReader \<times> (BitstreamError + DeltaTransform)" where
  "read_delta_transform =
     sbind (read_bits 2) (\<lambda>tag.
       case DeltaTier_from_tag (ucast tag) of
         TierStationary \<Rightarrow> sreturn Stationary
       | TierSmall \<Rightarrow>
           sbind (read_bits 4) (\<lambda>u_dx.
           sbind (read_bits 4) (\<lambda>u_dz.
           sbind (read_bits 3) (\<lambda>u_dy.
           sbind (read_bits 3) (\<lambda>u_dyaw.
             sreturn (Small (ucast u_dx - 8) (ucast u_dz - 8) (ucast u_dy - 4) (ucast u_dyaw - 4))))))
       | TierMedium \<Rightarrow>
           sbind (read_bits 6) (\<lambda>u_dy.
           sbind (read_bits 8) (\<lambda>dx.
           sbind (read_bits 8) (\<lambda>dz.
           sbind (read_bits 8) (\<lambda>yaw_byte.
             sreturn (Medium (ucast dx) (ucast dz) (ucast u_dy - 32) (QuantizedYaw (ucast yaw_byte)))))))
       | TierFull \<Rightarrow>
           sbind (read_bytes 7) (\<lambda>buf_7b.
             case unpack_with_yaw_and_flags buf_7b of
               (coord, yaw, flags) \<Rightarrow> sreturn (Full coord yaw flags)))"

definition read_multires_transform :: "BitReader \<Rightarrow> BitReader \<times> (BitstreamError + MultiResTransform)" where
  "read_multires_transform =
     sbind (read_bits 2) (\<lambda>tag.
       case MultiResTier_from_tag (ucast tag) of
         TierMotionless \<Rightarrow> sreturn MultiStationary
       | TierTactical \<Rightarrow>
           sbind (read_bytes 7) (\<lambda>buf.
             case unpack_with_yaw_and_flags buf of
               (coord, yaw, flags) \<Rightarrow> sreturn (MultiTactical coord yaw flags))
       | TierMidfield \<Rightarrow>
           sbind (read_bytes 5) (\<lambda>buf.
             case Midfield_unpack buf of
               (coord, yaw, flags) \<Rightarrow> sreturn (MultiMidfield coord yaw flags))
       | TierHorizon \<Rightarrow>
           sbind (read_bytes 3) (\<lambda>buf.
             case Horizon_unpack buf of
               (coord, heading, flags) \<Rightarrow> sreturn (MultiHorizon coord heading flags)))"

definition read_batch_entry :: "BitReader \<Rightarrow> BitReader \<times> (BitstreamError + MultiResBatchEntry)" where
  "read_batch_entry =
     sbind read_varint (\<lambda>entity_id.
     sbind read_multires_transform (\<lambda>transform.
       sreturn \<lparr>be_entity_id = ucast entity_id, be_transform = transform\<rparr>))"

text \<open>The output vector is cleared and filled; it and the count are the result.\<close>

definition read_multires_batch :: "BitReader \<Rightarrow> BitReader \<times> (BitstreamError + MultiResBatchEntry list \<times> nat)" where
  "read_multires_batch =
     sbind read_varint (\<lambda>count.
     sbind (repeat_n (unat count) read_batch_entry) (\<lambda>entries. sreturn (entries, unat count)))"

definition align_to_byte :: "BitReader \<Rightarrow> BitReader" where
  "align_to_byte r =
     (let rem = br_offset r mod 8 in
      if rem \<noteq> 0 then r\<lparr>br_offset := br_offset r + (8 - rem)\<rparr> else r)"

section \<open>Buffers as bits\<close>

definition bit_at :: "u8 list \<Rightarrow> nat \<Rightarrow> bool" where
  "bit_at buf i \<longleftrightarrow> i div 8 < length buf \<and> bit (buf ! (i div 8)) (7 - i mod 8)"

text \<open>\<open>buf'\<close> is \<open>buf\<close> with the \<open>n\<close> bits from position \<open>off\<close> replaced.\<close>

definition sets_bits :: "u8 list \<Rightarrow> nat \<Rightarrow> nat \<Rightarrow> (nat \<Rightarrow> bool) \<Rightarrow> u8 list \<Rightarrow> bool" where
  "sets_bits buf off n f buf' \<longleftrightarrow> length buf' = length buf
     \<and> (\<forall>i. bit_at buf' i = (if off \<le> i \<and> i < off + n then f (i - off) else bit_at buf i))"

lemma bit_at_update:
  "bit_at (buf[k := b]) i \<longleftrightarrow>
     (if i div 8 = k then k < length buf \<and> bit b (7 - i mod 8) else bit_at buf i)"
  by (auto simp: bit_at_def)

lemma bit_low_mask: "t \<le> 8 \<Longrightarrow> bit (low_mask t) j \<longleftrightarrow> j < t"
proof -
  assume "t \<le> 8"
  have "low_mask t = ucast (mask t :: u16)"
    by (simp add: low_mask_def mask_eq_exp_minus_1 push_bit_eq_mult)
  then show ?thesis using \<open>t \<le> 8\<close> by (auto simp: bit_ucast_iff bit_mask_iff)
qed

text \<open>One round of the writing loop replaces \<open>tk\<close> bits inside the current byte.\<close>

lemma bit_chunk_byte:
  assumes "0 < tk" "tk \<le> 8 - b" "b < 8" and that: "m < 8"
  shows "bit ((byte AND NOT (push_bit (8 - b - tk) (low_mask tk)))
      OR push_bit (8 - b - tk) ((ucast (drop_bit sh (v :: u64)) :: u8) AND low_mask tk)) (7 - m)
    \<longleftrightarrow> (if b \<le> m \<and> m < b + tk then bit v (sh + (b + tk - 1 - m)) else bit byte (7 - m))"
proof -
  have k: "8 - b - tk \<le> 7 - m \<longleftrightarrow> m < b + tk" "7 - m - (8 - b - tk) < tk \<longleftrightarrow> b \<le> m \<or> b + tk \<le> m"
    using assms that by auto
  have e: "b \<le> m \<Longrightarrow> m < b + tk \<Longrightarrow> 7 - m - (8 - b - tk) = b + tk - 1 - m"
    using assms that by auto
  have t: "tk \<le> 8" using assms by simp
  show ?thesis
    unfolding bit_or_iff bit_and_iff bit_not_iff bit_push_bit_iff bit_low_mask [OF t] bit_ucast_iff
      bit_drop_bit_eq comp_apply
    using k e assms that by (auto simp: bit_imp_le_length)
qed

lemma sets_bits_refl [simp]: "sets_bits buf off 0 f buf"
  by (auto simp: sets_bits_def)

text \<open>Two adjacent replacements are one.\<close>

lemma sets_bits_trans:
  assumes "sets_bits buf off n f buf'" "sets_bits buf' (off + n) m g buf''"
    and "\<And>j. j < n \<Longrightarrow> h j = f j" "\<And>j. j < m \<Longrightarrow> h (n + j) = g j"
  shows "sets_bits buf off (n + m) h buf''"
  unfolding sets_bits_def
proof (intro conjI allI)
  show "length buf'' = length buf" using assms(1,2) by (simp add: sets_bits_def)
  fix i
  have "bit_at buf'' i = (if off + n \<le> i \<and> i < off + n + m then g (i - (off + n)) else bit_at buf' i)"
    "bit_at buf' i = (if off \<le> i \<and> i < off + n then f (i - off) else bit_at buf i)"
    using assms(1,2) by (simp_all add: sets_bits_def)
  moreover have "off + n \<le> i \<Longrightarrow> i < off + n + m \<Longrightarrow> h (i - off) = g (i - (off + n))"
    using assms(4) [of "i - (off + n)"] by simp
  moreover have "off \<le> i \<Longrightarrow> i < off + n \<Longrightarrow> h (i - off) = f (i - off)"
    using assms(3) [of "i - off"] by simp
  ultimately show "bit_at buf'' i = (if off \<le> i \<and> i < off + (n + m) then h (i - off) else bit_at buf i)"
    by auto
qed

lemma in_byte_range:
  fixes off n i :: nat
  assumes "n \<le> 8 - off mod 8"
  shows "off \<le> i \<and> i < off + n \<longleftrightarrow> i div 8 = off div 8 \<and> off mod 8 \<le> i mod 8 \<and> i mod 8 < off mod 8 + n"
    (is "?l \<longleftrightarrow> ?r")
proof
  have o: "off = 8 * (off div 8) + off mod 8" "off mod 8 < 8" by simp_all
  have i: "i = 8 * (i div 8) + i mod 8" "i mod 8 < 8" by simp_all
  {
    assume ?l
    with o i assms have "8 * (off div 8) \<le> 8 * (i div 8) + 7" "8 * (i div 8) < 8 * (off div 8) + 8"
      by linarith+
    then have "i div 8 = off div 8" by linarith
    with \<open>?l\<close> o i show ?r by linarith
  }
  {
    assume ?r
    with o i show ?l by linarith
  }
qed

lemma sets_bits_chunk:
  assumes "0 < tk" "tk \<le> 8 - off mod 8" "off div 8 < length buf"
    and "\<And>m. m < 8 \<Longrightarrow> bit b (7 - m) \<longleftrightarrow>
      (if off mod 8 \<le> m \<and> m < off mod 8 + tk then f (m - off mod 8) else bit (buf ! (off div 8)) (7 - m))"
  shows "sets_bits buf off tk f (buf[off div 8 := b])"
  unfolding sets_bits_def
proof (intro conjI allI)
  fix i
  have "i div 8 = off div 8 \<Longrightarrow> i - off = i mod 8 - off mod 8"
    by (metis add_diff_cancel_left mult_div_mod_eq)
  then show "bit_at (buf[off div 8 := b]) i =
      (if off \<le> i \<and> i < off + tk then f (i - off) else bit_at buf i)"
    unfolding in_byte_range [OF assms(2)] bit_at_update
    using assms(3) assms(4) [of "i mod 8"] by (auto simp: bit_at_def)
qed simp

lemma write_bits_loop_spec:
  "bw_offset w + n \<le> 8 * length (bw_buffer w) \<Longrightarrow>
    bw_offset (write_bits_loop v n w) = bw_offset w + n
    \<and> sets_bits (bw_buffer w) (bw_offset w) n (\<lambda>j. bit v (n - 1 - j)) (bw_buffer (write_bits_loop v n w))"
proof (induction v n w rule: write_bits_loop.induct)
  case (1 v n w)
  show ?case
  proof (cases "n = 0")
    case True
    then show ?thesis by (simp add: write_bits_loop.simps)
  next
    case False
    define off where "off = bw_offset w"
    define tk where "tk = min n (8 - off mod 8)"
    have tk: "0 < tk" "tk \<le> 8 - off mod 8" "tk \<le> n" using False by (auto simp: tk_def)
    have idx: "off div 8 < length (bw_buffer w)"
      using "1.prems" False by (simp add: off_def [symmetric])
    let ?b = "(bw_buffer w ! (off div 8) AND NOT (push_bit (8 - off mod 8 - tk) (low_mask tk)))
      OR push_bit (8 - off mod 8 - tk) (ucast (drop_bit (n - tk) v) AND low_mask tk)"
    let ?w = "w\<lparr>bw_buffer := (bw_buffer w)[off div 8 := ?b], bw_offset := off + tk\<rparr>"
    have step: "write_bits_loop v n w = write_bits_loop v (n - tk) ?w"
      using False idx by (subst write_bits_loop.simps) (simp add: Let_def off_def tk_def)
    have chunk: "sets_bits (bw_buffer w) off tk (\<lambda>j. bit v (n - 1 - j)) (bw_buffer ?w)"
    proof -
      have "bit ?b (7 - m) \<longleftrightarrow> (if off mod 8 \<le> m \<and> m < off mod 8 + tk then bit v (n - 1 - (m - off mod 8))
          else bit (bw_buffer w ! (off div 8)) (7 - m))" if "m < 8" for m
        using bit_chunk_byte [OF tk(1,2) _ that, of "bw_buffer w ! (off div 8)" "n - tk" v] tk(3)
        by (auto simp: algebra_simps)
      then show ?thesis using sets_bits_chunk [OF tk(1,2) idx] by simp
    qed
    have "bw_offset (write_bits_loop v (n - tk) ?w) = bw_offset ?w + (n - tk)
      \<and> sets_bits (bw_buffer ?w) (bw_offset ?w) (n - tk) (\<lambda>j. bit v (n - tk - 1 - j))
          (bw_buffer (write_bits_loop v (n - tk) ?w))"
      using "1.IH" [OF False refl refl refl refl refl refl refl refl refl] idx "1.prems" tk(3)
      by (simp add: off_def [symmetric] tk_def [symmetric])
    then have "bw_offset (write_bits_loop v n w) = off + n"
      and rest: "sets_bits (bw_buffer ?w) (off + tk) (n - tk) (\<lambda>j. bit v (n - tk - 1 - j))
          (bw_buffer (write_bits_loop v n w))"
      using tk(3) unfolding step by simp_all
    moreover have "sets_bits (bw_buffer w) off (tk + (n - tk)) (\<lambda>j. bit v (n - 1 - j))
        (bw_buffer (write_bits_loop v n w))"
      by (rule sets_bits_trans [OF chunk rest]) (simp_all add: diff_diff_add add.commute)
    ultimately show ?thesis using tk(3) by (simp add: off_def)
  qed
qed

lemma sets_bits_put:
  assumes "off mod 8 = 0" "off div 8 + length bs \<le> length buf"
  shows "sets_bits buf off (8 * length bs) (\<lambda>j. bit (bs ! (j div 8)) (7 - j mod 8))
    (slice_put buf (off div 8) bs)"
  unfolding sets_bits_def
proof (intro conjI allI)
  fix i
  obtain k where off: "off = 8 * k" using assms(1) by auto
  have idx: "off \<le> i \<and> i < off + 8 * length bs \<longleftrightarrow> k \<le> i div 8 \<and> i div 8 < k + length bs"
    unfolding off by (auto simp: less_mult_imp_div_less)
  have "k \<le> i div 8 \<Longrightarrow> (i - off) div 8 = i div 8 - k \<and> (i - off) mod 8 = i mod 8"
  proof -
    assume "k \<le> i div 8"
    then have "8 * k \<le> i" by simp
    then obtain d where "i = 8 * k + d" using le_Suc_ex by blast
    then show ?thesis unfolding off by simp
  qed
  then show "bit_at (slice_put buf (off div 8) bs) i =
      (if off \<le> i \<and> i < off + 8 * length bs then bit (bs ! ((i - off) div 8)) (7 - (i - off) mod 8)
       else bit_at buf i)"
    unfolding idx using assms(2) by (auto simp: bit_at_def nth_slice_put off)
qed (simp add: assms)

lemma put_bytes_spec:
  assumes "bw_offset w mod 8 = 0" "put_bytes (bw_offset w div 8) bs w = Some w'"
  shows "bw_offset w' = bw_offset w + 8 * length bs
    \<and> sets_bits (bw_buffer w) (bw_offset w) (8 * length bs) (\<lambda>j. bit (bs ! (j div 8)) (7 - j mod 8))
        (bw_buffer w')"
  using assms sets_bits_put [OF assms(1)] by (auto simp: put_bytes_def split: if_splits)

lemma sets_bits_cong:
  "sets_bits buf off n f buf' \<Longrightarrow> (\<And>j. j < n \<Longrightarrow> f j = g j) \<Longrightarrow> sets_bits buf off n g buf'"
  by (auto simp: sets_bits_def)

lemma bit_be_bytes_at:
  "j < 8 * k \<Longrightarrow> bit (be_bytes k v ! (j div 8)) (7 - j mod 8) \<longleftrightarrow> bit v (8 * k - 1 - j)"
proof -
  assume j: "j < 8 * k"
  then have d: "j div 8 < k" by (simp add: less_mult_imp_div_less)
  have "j = 8 * (j div 8) + j mod 8" "j mod 8 < 8" by simp_all
  with d have "8 * (k - 1 - j div 8) + (7 - j mod 8) = 8 * k - 1 - j"
    by (simp add: diff_mult_distrib2)
  moreover have "7 - j mod 8 < 8" by (rule le_less_trans [OF diff_le_self]) simp
  ultimately show ?thesis using d by (simp only: bit_be_bytes simp_thms)
qed

lemma be_bytes_1: "be_bytes 1 (unat (b :: u8)) = [b]"
proof -
  have "unat b < 256" using unat_less_pow [of b] by simp
  then have "be_bytes (Suc 0) (unat b) = [b]" by simp
  then show ?thesis by simp
qed

text \<open>An aligned write of \<open>k\<close> big-endian bytes sets the same bits as the loop.\<close>

lemma put_be_spec:
  assumes "bw_offset w mod 8 = 0" "put_bytes (bw_offset w div 8) (be_bytes k (unat v)) w = Some w'"
  shows "bw_offset w' = bw_offset w + 8 * k
    \<and> sets_bits (bw_buffer w) (bw_offset w) (8 * k) (\<lambda>j. bit v (8 * k - 1 - j)) (bw_buffer w')"
  using put_bytes_spec [OF assms] by (auto intro: sets_bits_cong simp: bit_be_bytes_at bit_unat_iff)

text \<open>What a successful write of \<open>n\<close> bits leaves behind.\<close>

definition wrote :: "BitWriter \<Rightarrow> nat \<Rightarrow> (nat \<Rightarrow> bool) \<Rightarrow> BitWriter \<Rightarrow> bool" where
  "wrote w n f w' \<longleftrightarrow> bw_offset w' = bw_offset w + n
     \<and> sets_bits (bw_buffer w) (bw_offset w) n f (bw_buffer w')"

lemma wrote_cong: "wrote w n f w' \<Longrightarrow> (\<And>j. j < n \<Longrightarrow> f j = g j) \<Longrightarrow> wrote w n g w'"
  by (auto simp: wrote_def intro: sets_bits_cong)

lemma write_bits_fast_spec:
  assumes "write_bits_fast v n w = Some w'"
  shows "wrote w n (\<lambda>j. bit v (n - 1 - j)) w'"
proof -
  have al: "bw_offset w mod 8 = 0" using assms by (auto simp: write_bits_fast_def split: if_splits)
  consider "n = 8" "put_bytes (bw_offset w div 8) (be_bytes 1 (unat (ucast v :: u8))) w = Some w'"
    | "n = 16" "put_bytes (bw_offset w div 8) (be_bytes 2 (unat (ucast v :: u16))) w = Some w'"
    | "n = 32" "put_bytes (bw_offset w div 8) (be_bytes 4 (unat (ucast v :: u32))) w = Some w'"
    | "n = 64" "put_bytes (bw_offset w div 8) (be_bytes 8 (unat v)) w = Some w'"
    using assms unfolding write_bits_fast_def Let_def be_bytes_1 by (simp split: if_splits)
  then show ?thesis
  proof cases
    case 1
    have "wrote w (8 * 1) (\<lambda>j. bit (ucast v :: u8) (8 * 1 - 1 - j)) w'"
      unfolding wrote_def by (rule put_be_spec [OF al 1(2)])
    then show ?thesis unfolding 1(1) by (auto elim!: wrote_cong simp: bit_ucast_iff)
  next
    case 2
    have "wrote w (8 * 2) (\<lambda>j. bit (ucast v :: u16) (8 * 2 - 1 - j)) w'"
      unfolding wrote_def by (rule put_be_spec [OF al 2(2)])
    then show ?thesis unfolding 2(1) by (auto elim!: wrote_cong simp: bit_ucast_iff)
  next
    case 3
    have "wrote w (8 * 4) (\<lambda>j. bit (ucast v :: u32) (8 * 4 - 1 - j)) w'"
      unfolding wrote_def by (rule put_be_spec [OF al 3(2)])
    then show ?thesis unfolding 3(1) by (auto elim!: wrote_cong simp: bit_ucast_iff)
  next
    case 4
    have "wrote w (8 * 8) (\<lambda>j. bit v (8 * 8 - 1 - j)) w'"
      unfolding wrote_def by (rule put_be_spec [OF al 4(2)])
    then show ?thesis unfolding 4(1) by simp
  qed
qed

definition fits :: "BitWriter \<Rightarrow> nat \<Rightarrow> bool" where
  "fits w n \<longleftrightarrow> bw_offset w + n \<le> 8 * length (bw_buffer w)"

lemma write_bits_slow_spec:
  assumes "n \<le> 64" "fits w n"
  shows "wrote w n (\<lambda>j. bit v (n - 1 - j)) (write_bits_slow v n w)"
proof -
  define c where "c = (if n = 64 then v else v AND (push_bit n 1 - 1))"
  have m: "bit c i \<longleftrightarrow> bit v i" if "i < n" for i
    using that unfolding c_def by (auto simp: bit_and_iff bit_mask_iff mask_eq_exp_minus_1 [symmetric] push_bit_eq_mult
        dest: bit_imp_le_length)
  show ?thesis
    using write_bits_loop_spec [of w n c] assms(2)
    unfolding write_bits_slow_def Let_def wrote_def fits_def c_def [symmetric]
    by (auto elim!: sets_bits_cong simp: m)
qed

lemma write_bits_ok:
  assumes "n \<le> 64" "fits w n"
  shows "\<exists>w'. write_bits v n w = (w', Inr ()) \<and> wrote w n (\<lambda>j. bit v (n - 1 - j)) w'"
proof -
  have r: "n \<le> BitWriter_remaining_bits w" using assms(2)
    by (simp add: fits_def BitWriter_remaining_bits_def BitWriter_total_bits_def)
  show ?thesis
  proof (cases "n = 0")
    case True
    then show ?thesis by (simp add: write_bits_def wrote_def)
  next
    case False
    then show ?thesis
      using assms r write_bits_fast_spec [of v n w] write_bits_slow_spec [OF assms, of v]
      by (cases "write_bits_fast v n w") (auto simp: write_bits_def Let_def)
  qed
qed

lemma write_bits_err:
  assumes "\<not> (n \<le> 64 \<and> fits w n)" "0 < n"
  shows "\<exists>e. write_bits v n w = (w, Inl e)"
  using assms by (auto simp: write_bits_def Let_def fits_def BitWriter_remaining_bits_def
      BitWriter_total_bits_def)

text \<open>The fixed-width writers are \<open>write_bits\<close> at their width.\<close>

lemma wrote_unique:
  assumes "wrote w n f w1" "wrote w n f w2"
  shows "w1 = w2"
proof -
  have b: "bit_at (bw_buffer w1) i = bit_at (bw_buffer w2) i" for i
    using assms by (simp add: wrote_def sets_bits_def)
  have l: "length (bw_buffer w1) = length (bw_buffer w2)"
    using assms by (simp add: wrote_def sets_bits_def)
  have "bw_buffer w1 = bw_buffer w2"
  proof (rule nth_equalityI [OF l])
    fix k assume k: "k < length (bw_buffer w1)"
    show "bw_buffer w1 ! k = bw_buffer w2 ! k"
    proof (rule bit_word_eqI)
      fix j :: nat assume "j < LENGTH(8)"
      then obtain d where d: "7 - j = d" "d < 8" "7 - d = j" by auto
      then have "(8 * k + (7 - j)) div 8 = k" "(8 * k + (7 - j)) mod 8 = 7 - j" "7 - (7 - j) = j"
        unfolding d(1) by simp_all
      then show "bit (bw_buffer w1 ! k) j = bit (bw_buffer w2 ! k) j"
        using b [of "8 * k + (7 - j)"] k l by (simp add: bit_at_def)
    qed
  qed
  then show ?thesis using assms by (simp add: wrote_def)
qed

lemma aligned_write_eq:
  fixes v :: "'a::len word"
  assumes "bw_offset w mod 8 = 0" "put_bytes (bw_offset w div 8) (be_bytes k (unat v)) w = Some w'"
    and "8 * k \<le> 64" "8 * k \<le> LENGTH('a)"
  shows "write_bits (ucast v) (8 * k) w = (w', Inr ())"
proof -
  have p: "wrote w (8 * k) (\<lambda>j. bit v (8 * k - 1 - j)) w'"
    unfolding wrote_def by (rule put_be_spec [OF assms(1,2)])
  have "fits w (8 * k)"
  proof -
    have "bw_offset w div 8 + k \<le> length (bw_buffer w)"
      using assms(2) by (auto simp: put_bytes_def split: if_splits)
    moreover have "bw_offset w = 8 * (bw_offset w div 8)" using assms(1) by auto
    ultimately show ?thesis unfolding fits_def by linarith
  qed
  then obtain w2 where w2: "write_bits (ucast v) (8 * k) w = (w2, Inr ())"
    "wrote w (8 * k) (\<lambda>j. bit (ucast v :: u64) (8 * k - 1 - j)) w2"
    using write_bits_ok [OF assms(3)] by blast
  have "wrote w (8 * k) (\<lambda>j. bit v (8 * k - 1 - j)) w2"
    by (rule wrote_cong [OF w2(2)]) (use assms(3,4) in \<open>auto simp: bit_ucast_iff\<close>)
  then show ?thesis using w2(1) wrote_unique [OF p] by simp
qed

lemma write_u8_eq: "write_u8 v w = write_bits (ucast v) 8 w"
  using aligned_write_eq [of w 1 v] unfolding write_u8_def be_bytes_1
  by (auto split: option.splits if_splits)

lemma write_u16_eq: "write_u16 v w = write_bits (ucast v) 16 w"
  using aligned_write_eq [of w 2 v] unfolding write_u16_def by (auto split: option.splits if_splits)

lemma write_u32_eq: "write_u32 v w = write_bits (ucast v) 32 w"
  using aligned_write_eq [of w 4 v] unfolding write_u32_def by (auto split: option.splits if_splits)

lemma write_u64_eq: "write_u64 v w = write_bits v 64 w"
  using aligned_write_eq [of w 8 v] unfolding write_u64_def by (auto split: option.splits if_splits)

section \<open>What a read returns\<close>

definition rfits :: "BitReader \<Rightarrow> nat \<Rightarrow> bool" where
  "rfits r n \<longleftrightarrow> br_offset r + n \<le> 8 * length (br_buffer r)"

lemma bit_read_chunk:
  assumes "0 < tk" "tk \<le> 8 - b" "b < 8"
  shows "bit (push_bit tk (val :: u64)
        OR ucast (drop_bit (8 - b - tk) ((byte :: u8) AND push_bit (8 - b - tk) (low_mask tk)))) k
    \<longleftrightarrow> k < 64 \<and> (if k < tk then bit byte (7 - (b + tk - 1 - k)) else bit val (k - tk))"
proof -
  have t: "tk \<le> 8" using assms by simp
  have e: "k < tk \<Longrightarrow> 8 - b - tk + k = 7 - (b + tk - 1 - k)" using assms by auto
  show ?thesis
    unfolding bit_or_iff bit_and_iff bit_push_bit_iff bit_low_mask [OF t] bit_ucast_iff
      bit_drop_bit_eq comp_apply
    using e assms by (auto simp: bit_imp_le_length)
qed

lemma read_bits_loop_spec:
  "rfits r n \<Longrightarrow> \<exists>v. read_bits_loop val n r = (r\<lparr>br_offset := br_offset r + n\<rparr>, v)
    \<and> (\<forall>k. bit v k \<longleftrightarrow> k < 64 \<and> (if k < n then bit_at (br_buffer r) (br_offset r + n - 1 - k)
         else bit val (k - n)))"
proof (induction val n r rule: read_bits_loop.induct)
  case (1 val n r)
  show ?case
  proof (cases "n = 0")
    case True
    then show ?thesis by (auto simp: read_bits_loop.simps dest: bit_imp_le_length)
  next
    case False
    define off where "off = br_offset r"
    define tk where "tk = min n (8 - off mod 8)"
    have tk: "0 < tk" "tk \<le> 8 - off mod 8" "tk \<le> n" using False by (auto simp: tk_def)
    have idx: "off div 8 < length (br_buffer r)"
      using "1.prems" False by (simp add: off_def [symmetric] rfits_def)
    let ?byte = "br_buffer r ! (off div 8)"
    let ?sh = "8 - off mod 8 - tk"
    define val' where "val' = push_bit tk val OR ucast (drop_bit ?sh (?byte AND push_bit ?sh (low_mask tk)))"
    let ?r = "r\<lparr>br_offset := off + tk\<rparr>"
    have step: "read_bits_loop val n r = read_bits_loop val' (n - tk) ?r"
      using False idx by (subst read_bits_loop.simps) (simp add: Let_def off_def tk_def val'_def)
    have ih: "rfits ?r (n - tk) \<Longrightarrow>
        \<exists>v. read_bits_loop val' (n - tk) ?r = (?r\<lparr>br_offset := br_offset ?r + (n - tk)\<rparr>, v)
        \<and> (\<forall>k. bit v k \<longleftrightarrow> k < 64 \<and> (if k < n - tk
             then bit_at (br_buffer ?r) (br_offset ?r + (n - tk) - 1 - k) else bit val' (k - (n - tk))))"
      using "1.IH" [OF False refl refl refl refl refl refl refl] idx
      unfolding off_def tk_def val'_def Let_def by (simp only: if_True)
    have "rfits ?r (n - tk)" using "1.prems" tk(3) by (simp add: rfits_def off_def)
    note ih [OF this]
    then obtain v where v: "read_bits_loop val n r = (r\<lparr>br_offset := off + n\<rparr>, v)"
      "\<And>k. bit v k \<longleftrightarrow> k < 64 \<and> (if k < n - tk then bit_at (br_buffer r) (off + n - 1 - k)
         else bit val' (k - (n - tk)))"
      using tk(3) unfolding step by auto
    have "bit val' (k - (n - tk)) \<longleftrightarrow> (if k < n then bit_at (br_buffer r) (off + n - 1 - k) else bit val (k - n))"
      if "\<not> k < n - tk" "k < 64" for k
    proof -
      define d where "d = k - (n - tk)"
      have kd: "k < n \<longleftrightarrow> d < tk" "k - n = d - tk" "d < 64"
        using that tk by (auto simp: d_def)
      have k4: "off + n - 1 - k = off + (tk - 1 - d)" if "d < tk"
        using that \<open>\<not> k < n - tk\<close> tk by (auto simp: d_def)
      have at: "bit_at (br_buffer r) (off + (tk - 1 - d)) \<longleftrightarrow> bit ?byte (7 - (off mod 8 + tk - 1 - d))"
        if "d < tk"
      proof -
        define m where "m = tk - 1 - d"
        have m: "off mod 8 + m < 8" using tk that by (auto simp: m_def)
        have o: "off = 8 * (off div 8) + off mod 8" by simp
        have "(off + m) div 8 = off div 8" "(off + m) mod 8 = off mod 8 + m"
          using m by (metis (no_types) o add.assoc div_mult_self4 div_less add_0_right zero_neq_numeral mult.commute,
              metis (no_types) o add.assoc mod_mult_self4 mod_less mult.commute)
        moreover have "off mod 8 + tk - 1 - d = off mod 8 + m" using that by (simp add: m_def)
        ultimately show ?thesis using idx unfolding bit_at_def m_def [symmetric] by simp
      qed
      have "bit val' d \<longleftrightarrow> (if d < tk then bit ?byte (7 - (off mod 8 + tk - 1 - d)) else bit val (d - tk))"
        unfolding val'_def bit_read_chunk [OF tk(1,2) mod_less_divisor [OF zero_less_numeral]]
        using kd(3) by simp
      then show ?thesis unfolding kd(1,2) d_def [symmetric] using at k4 by simp
    qed
    then show ?thesis using v by (auto simp: off_def)
  qed
qed

lemma bit_from_be:
  assumes "k < 8 * length bs"
  shows "bit (from_be bs) k \<longleftrightarrow> bit (bs ! (length bs - 1 - k div 8)) (k mod 8)"
proof -
  have "k div 8 < length bs" using assms by (simp add: less_mult_imp_div_less)
  then have "length bs - 1 - (length bs - 1 - k div 8) = k div 8"
    and "length bs - 1 - k div 8 < length bs" by auto
  then show ?thesis
    using bit_be_bytes [of "length bs - 1 - k div 8" "length bs" "from_be bs" "k mod 8"]
    by (simp add: be_bytes_from_be)
qed

lemma bit_from_be_high: "8 * length bs \<le> k \<Longrightarrow> \<not> bit (from_be bs) k"
proof -
  assume "8 * length bs \<le> k"
  then have "(2 :: nat) ^ (8 * length bs) \<le> 2 ^ k" by simp
  moreover have "from_be bs < 2 ^ (8 * length bs)" using from_be_less [of bs] by (simp add: power_mult)
  ultimately have "from_be bs < 2 ^ k" by linarith
  then show ?thesis by (simp add: bit_iff_odd)
qed

lemma read_be_spec:
  assumes "read_be n r = Some (r', m)"
  shows "r' = r\<lparr>br_offset := br_offset r + 8 * n\<rparr> \<and> rfits r (8 * n)
    \<and> (\<forall>k. bit m k \<longleftrightarrow> k < 8 * n \<and> bit_at (br_buffer r) (br_offset r + 8 * n - 1 - k))"
proof -
  define q where "q = br_offset r div 8"
  define bs where "bs = take n (drop q (br_buffer r))"
  have al: "br_offset r = 8 * q" and le: "q + n \<le> length (br_buffer r)" and m: "m = from_be bs"
    and r': "r' = r\<lparr>br_offset := br_offset r + 8 * n\<rparr>"
    using assms by (auto simp: read_be_def get_bytes_def q_def bs_def split: if_splits)
  have l: "length bs = n" using le by (simp add: bs_def)
  have "bit m k \<longleftrightarrow> bit_at (br_buffer r) (br_offset r + 8 * n - 1 - k)" if k: "k < 8 * n" for k
  proof -
    define i where "i = n - 1 - k div 8"
    have kd: "k div 8 < n" using k by (simp add: less_mult_imp_div_less)
    have ks: "k = 8 * (k div 8) + k mod 8" "k mod 8 < 8" by simp_all
    have pos: "br_offset r + 8 * n - 1 - k = 8 * (q + i) + (7 - k mod 8)"
    proof -
      have n: "n = i + 1 + k div 8" using kd by (simp add: i_def)
      have lin: "n = i + 1 + a \<Longrightarrow> c < 8 \<Longrightarrow> 8 * q + 8 * n - 1 - (8 * a + c) = 8 * (q + i) + (7 - c)" for a c
        by simp
      show ?thesis using lin [OF n ks(2)] unfolding al ks(1) [symmetric] .
    qed
    have b: "7 - k mod 8 < 8" "7 - (7 - k mod 8) = k mod 8" using ks(2) by linarith+
    have "i < n" using kd by (simp add: i_def)
    have dm: "(8 * a + c) div 8 = a" "(8 * a + c) mod 8 = c" if "c < 8" for a c :: nat
      using that by simp_all
    have "bit_at (br_buffer r) (8 * (q + i) + (7 - k mod 8)) \<longleftrightarrow> bit (br_buffer r ! (q + i)) (k mod 8)"
      unfolding bit_at_def dm [OF b(1)] b(2) using \<open>i < n\<close> le by simp
    moreover have "bs ! i = br_buffer r ! (q + i)" using \<open>i < n\<close> le by (simp add: bs_def)
    ultimately show ?thesis
      unfolding m pos using bit_from_be [of k bs] k by (simp add: l i_def)
  qed
  moreover have "\<not> bit m k" if "8 * n \<le> k" for k
    using bit_from_be_high [of bs k] that by (simp add: m l)
  ultimately have "\<forall>k. bit m k \<longleftrightarrow> k < 8 * n \<and> bit_at (br_buffer r) (br_offset r + 8 * n - 1 - k)"
    by (meson not_less)
  then show ?thesis using r' al le by (simp add: rfits_def)
qed

lemma read_bits_ok:
  assumes "n \<le> 64" "rfits r n"
  shows "\<exists>v. read_bits n r = (r\<lparr>br_offset := br_offset r + n\<rparr>, Inr v)
    \<and> (\<forall>k. bit v k \<longleftrightarrow> k < n \<and> bit_at (br_buffer r) (br_offset r + n - 1 - k))"
proof -
  have rem: "n \<le> BitReader_remaining_bits r"
    using assms(2) by (simp add: rfits_def BitReader_remaining_bits_def)
  consider "n = 0" | "0 < n" "read_bits_fast n r = None" | r' m where "0 < n" "read_bits_fast n r = Some (r', m)"
    by (cases "n = 0"; cases "read_bits_fast n r") auto
  then show ?thesis
  proof cases
    case 1
    then show ?thesis by (simp add: read_bits_def)
  next
    case 2
    obtain v where "read_bits_loop 0 n r = (r\<lparr>br_offset := br_offset r + n\<rparr>, v)"
      "\<forall>k. bit v k \<longleftrightarrow> k < 64 \<and> (if k < n then bit_at (br_buffer r) (br_offset r + n - 1 - k)
         else bit (0 :: u64) (k - n))"
      using read_bits_loop_spec [OF assms(2)] by blast
    then show ?thesis using 2 assms(1) rem by (auto simp: read_bits_def Let_def)
  next
    case 3
    then obtain c where c: "n = 8 * c" "read_be c r = Some (r', m)"
      by (auto simp: read_bits_fast_def split: if_splits)
    note spec = read_be_spec [OF c(2), folded c(1)]
    have "read_bits n r = (r', Inr (of_nat m))"
      using 3 assms(1) rem by (simp add: read_bits_def Let_def)
    moreover have "bit (of_nat m :: u64) k \<longleftrightarrow> k < n \<and> bit_at (br_buffer r) (br_offset r + n - 1 - k)" for k
    proof -
      have "bit (of_nat m :: u64) k \<longleftrightarrow> k < 64 \<and> bit m k" by (simp add: bit_simps)
      then show ?thesis using spec assms(1) by (meson less_le_trans)
    qed
    ultimately show ?thesis using spec by blast
  qed
qed

lemma read_bits_unique:
  assumes "read_be k r = Some (r', m)" "8 * k \<in> {8, 16, 32, 64}"
  shows "read_bits (8 * k) r = (r', Inr (of_nat m))"
proof -
  have "rfits r (8 * k)" using read_be_spec [OF assms(1)] by simp
  then have "8 * k \<le> BitReader_remaining_bits r" by (simp add: rfits_def BitReader_remaining_bits_def)
  moreover have "read_bits_fast (8 * k) r = Some (r', m)"
    using assms by (auto simp: read_bits_fast_def)
  ultimately show ?thesis using assms(2) by (auto simp: read_bits_def Let_def)
qed

text \<open>The fixed-width readers are \<open>read_bits\<close> at their width, cast.\<close>

lemma ucast_of_nat_u64: "LENGTH('a) \<le> 64 \<Longrightarrow> (ucast (of_nat m :: u64) :: 'a::len word) = of_nat m"
  by (rule bit_word_eqI) (simp add: bit_simps)

lemma read_u8_eq: "read_u8 = sbind (read_bits 8) (\<lambda>v. sreturn (ucast v))"
  using read_bits_unique [of 1]
  by (auto simp: fun_eq_iff read_u8_def sbind_def sreturn_def ucast_of_nat_u64 split: option.splits)

lemma read_u16_eq: "read_u16 = sbind (read_bits 16) (\<lambda>v. sreturn (ucast v))"
  using read_bits_unique [of 2]
  by (auto simp: fun_eq_iff read_u16_def sbind_def sreturn_def ucast_of_nat_u64 split: option.splits)

lemma read_u32_eq: "read_u32 = sbind (read_bits 32) (\<lambda>v. sreturn (ucast v))"
  using read_bits_unique [of 4]
  by (auto simp: fun_eq_iff read_u32_def sbind_def sreturn_def ucast_of_nat_u64 split: option.splits)

lemma read_u64_eq: "read_u64 = read_bits 64"
  using read_bits_unique [of 8] by (auto simp: fun_eq_iff read_u64_def split: option.splits)

section \<open>Writers and the readers of what they wrote\<close>

text \<open>
  \<open>extends w w'\<close>: the writer only advanced and left the bits before its start alone.
  \<open>sees w w' r\<close>: the reader stands where the writer started, on a buffer that holds what was
  written between the two cursors.
\<close>

definition extends :: "BitWriter \<Rightarrow> BitWriter \<Rightarrow> bool" where
  "extends w w' \<longleftrightarrow> length (bw_buffer w') = length (bw_buffer w) \<and> bw_offset w \<le> bw_offset w'
     \<and> (fits w 0 \<longrightarrow> fits w' 0)
     \<and> (\<forall>i < bw_offset w. bit_at (bw_buffer w') i = bit_at (bw_buffer w) i)"

definition sees :: "BitWriter \<Rightarrow> BitWriter \<Rightarrow> BitReader \<Rightarrow> bool" where
  "sees w w' r \<longleftrightarrow> br_offset r = bw_offset w \<and> bw_offset w' \<le> 8 * length (br_buffer r)
     \<and> (\<forall>i. bw_offset w \<le> i \<and> i < bw_offset w' \<longrightarrow> bit_at (br_buffer r) i = bit_at (bw_buffer w') i)"

lemma extends_refl [simp]: "extends w w"
  by (simp add: extends_def)

lemma extends_trans: "extends w w1 \<Longrightarrow> extends w1 w2 \<Longrightarrow> extends w w2"
  by (auto simp: extends_def)

lemma sees_split:
  assumes "extends w w1" "extends w1 w2" "sees w w2 r"
  shows "sees w w1 r" and "sees w1 w2 (r\<lparr>br_offset := bw_offset w1\<rparr>)"
  using assms by (auto simp: extends_def sees_def)

text \<open>
  The contract of a value format: a successful write extends the buffer, and a reader that sees
  it returns the image of the value (the value masked to the format's widths) and stops exactly
  where the writer stopped.
\<close>

locale codec =
  fixes enc :: "'a \<Rightarrow> BitWriter \<Rightarrow> BitWriter \<times> (BitstreamError + 'c)"
    and dec :: "BitReader \<Rightarrow> BitReader \<times> (BitstreamError + 'b)"
    and img :: "'a \<Rightarrow> 'b"
    and ok :: "'a \<Rightarrow> bool"
  assumes enc_extends: "enc v w = (w', Inr c) \<Longrightarrow> extends w w'"
    and dec_enc: "ok v \<Longrightarrow> enc v w = (w', Inr c) \<Longrightarrow> sees w w' r \<Longrightarrow>
      dec r = (r\<lparr>br_offset := bw_offset w'\<rparr>, Inr (img v))"
begin

text \<open>A value followed by anything that extends the buffer.\<close>

lemma dec_first:
  assumes "ok v" "enc v w = (w1, Inr c)" "extends w1 w2" "sees w w2 r"
  shows "dec r = (r\<lparr>br_offset := bw_offset w1\<rparr>, Inr (img v))"
    and "sees w1 w2 (r\<lparr>br_offset := bw_offset w1\<rparr>)"
  using dec_enc [OF assms(1,2)] sees_split [OF enc_extends [OF assms(2)] assms(3,4)] by simp_all

lemma for_each_extends: "for_each enc vs w = (w', Inr ()) \<Longrightarrow> extends w w'"
proof (induction vs arbitrary: w)
  case (Cons v vs)
  then obtain w1 c where "enc v w = (w1, Inr c)" "for_each enc vs w1 = (w', Inr ())"
    by (auto simp: sbind_Inr)
  then show ?case using Cons.IH enc_extends extends_trans by blast
qed simp

text \<open>A sequence of values is read back by as many reads.\<close>

lemma repeat_dec:
  "\<forall>v\<in>set vs. ok v \<Longrightarrow> for_each enc vs w = (w', Inr ()) \<Longrightarrow> sees w w' r \<Longrightarrow>
    repeat_n (length vs) dec r = (r\<lparr>br_offset := bw_offset w'\<rparr>, Inr (map img vs))"
proof (induction vs arbitrary: w r)
  case Nil
  then show ?case by (simp add: sees_def)
next
  case (Cons v vs)
  then obtain w1 c where w1: "enc v w = (w1, Inr c)" "for_each enc vs w1 = (w', Inr ())"
    by (auto simp: sbind_Inr)
  from Cons.prems(1) have "ok v" by simp
  note first = dec_first [OF this w1(1) for_each_extends [OF w1(2)] Cons.prems(3)]
  have "repeat_n (length vs) dec (r\<lparr>br_offset := bw_offset w1\<rparr>)
      = (r\<lparr>br_offset := bw_offset w'\<rparr>, Inr (map img vs))"
    using Cons.IH [OF _ w1(2) first(2)] Cons.prems(1) by simp
  with first(1) show ?case by (simp add: sbind_def sreturn_def)
qed

end

lemma wrote_extends: "wrote w n f w' \<Longrightarrow> n \<le> 64 \<and> fits w n \<or> n = 0 \<Longrightarrow> extends w w'"
  by (auto simp: wrote_def sets_bits_def extends_def fits_def)

lemma write_bits_InrD:
  assumes "write_bits v n w = (w', Inr c)"
  shows "wrote w n (\<lambda>j. bit v (n - 1 - j)) w'" and "n \<le> 64"
    and "n \<le> 64 \<and> fits w n \<or> n = 0"
proof -
  show c: "n \<le> 64 \<and> fits w n \<or> n = 0" using assms write_bits_err [of n w v] by fastforce
  from c show "n \<le> 64" by auto
  from c show "wrote w n (\<lambda>j. bit v (n - 1 - j)) w'"
    using assms write_bits_ok [of n w v] by (auto simp: write_bits_def wrote_def)
qed

interpretation bits: codec "\<lambda>v. write_bits v n" "read_bits n" "take_bit n" "\<lambda>_. True" for n
proof
  fix v :: u64 and w w' c
  assume "write_bits v n w = (w', Inr c)"
  then show "extends w w'" using write_bits_InrD wrote_extends by blast
next
  fix v :: u64 and w w' c r
  assume "write_bits v n w = (w', Inr c)" and s: "sees w w' r"
  note w = write_bits_InrD [OF this(1)]
  have off: "bw_offset w' = br_offset r + n" using w(1) s by (simp add: wrote_def sees_def)
  have "rfits r n" using s off by (simp add: sees_def rfits_def)
  then obtain u where u: "read_bits n r = (r\<lparr>br_offset := br_offset r + n\<rparr>, Inr u)"
    "\<forall>k. bit u k \<longleftrightarrow> k < n \<and> bit_at (br_buffer r) (br_offset r + n - 1 - k)"
    using read_bits_ok [OF w(2)] by blast
  have "u = take_bit n v"
  proof (rule bit_word_eqI)
    fix k
    show "bit u k \<longleftrightarrow> bit (take_bit n v) k"
    proof (cases "k < n")
      case True
      then have i: "br_offset r \<le> br_offset r + n - 1 - k" "br_offset r + n - 1 - k < br_offset r + n"
        "br_offset r + n - 1 - k - br_offset r = n - 1 - k" "n - 1 - (n - 1 - k) = k" by auto
      have "bit_at (br_buffer r) (br_offset r + n - 1 - k) = bit_at (bw_buffer w') (br_offset r + n - 1 - k)"
        using s i off by (simp add: sees_def)
      also have "\<dots> = bit v (n - 1 - (br_offset r + n - 1 - k - br_offset r))"
        using w(1) s i unfolding wrote_def sets_bits_def sees_def by simp
      finally show ?thesis using u(2) True unfolding i by (simp add: bit_take_bit_iff)
    qed (use u(2) in \<open>simp add: bit_take_bit_iff\<close>)
  qed
  then show "read_bits n r = (r\<lparr>br_offset := bw_offset w'\<rparr>, Inr (take_bit n v))"
    using u(1) off by simp
qed

interpretation byte: codec write_u8 read_u8 "\<lambda>b. b" "\<lambda>_. True"
proof
  fix v :: u8 and w w' c
  assume "write_u8 v w = (w', Inr c)"
  then show "extends w w'" unfolding write_u8_eq by (rule bits.enc_extends)
next
  fix v :: u8 and w w' c r
  assume "write_u8 v w = (w', Inr c)" "sees w w' r"
  then have "read_bits 8 r = (r\<lparr>br_offset := bw_offset w'\<rparr>, Inr (take_bit 8 (ucast v)))"
    unfolding write_u8_eq by (intro bits.dec_enc) simp_all
  moreover have "ucast (take_bit 8 (ucast v :: u64)) = v"
    by (rule bit_word_eqI) (simp add: bit_ucast_iff bit_take_bit_iff)
  ultimately show "read_u8 r = (r\<lparr>br_offset := bw_offset w'\<rparr>, Inr v)"
    by (simp add: read_u8_eq sbind_def sreturn_def)
qed

text \<open>Raw bytes: the aligned copies and the byte loops agree.\<close>

lemma put_bytes_Cons:
  assumes "bw_offset w mod 8 = 0" "put_bytes (bw_offset w div 8) (b # bs) w = Some w'"
  shows "\<exists>w1. write_u8 b w = (w1, Inr ()) \<and> bw_offset w1 mod 8 = 0
    \<and> put_bytes (bw_offset w1 div 8) bs w1 = Some w'"
proof -
  define q where "q = bw_offset w div 8"
  have off: "bw_offset w = 8 * q" using assms(1) by (auto simp: q_def)
  have le: "q + Suc (length bs) \<le> length (bw_buffer w)"
    and w': "w' = w\<lparr>bw_buffer := slice_put (bw_buffer w) q (b # bs), bw_offset := 8 * q + 8 * Suc (length bs)\<rparr>"
    using assms(2) by (auto simp: put_bytes_def q_def [symmetric] off split: if_splits)
  let ?w1 = "w\<lparr>bw_buffer := slice_put (bw_buffer w) q [b], bw_offset := 8 * q + 8\<rparr>"
  have "write_u8 b w = (?w1, Inr ())"
    using le by (simp add: write_u8_def put_bytes_def off)
  moreover have "slice_put (slice_put (bw_buffer w) q [b]) (Suc q) bs = slice_put (bw_buffer w) q (b # bs)"
    using le by (simp add: slice_put_def min_def add.commute)
  ultimately show ?thesis using le by (auto simp: w' put_bytes_def add_ac)
qed

lemma put_bytes_for_each:
  "bw_offset w mod 8 = 0 \<Longrightarrow> put_bytes (bw_offset w div 8) bs w = Some w' \<Longrightarrow>
    for_each write_u8 bs w = (w', Inr ())"
proof (induction bs arbitrary: w)
  case Nil
  then show ?case by (auto simp: put_bytes_def slice_put_def split: if_splits)
next
  case (Cons b bs)
  obtain w1 where w1: "write_u8 b w = (w1, Inr ()) \<and> bw_offset w1 mod 8 = 0
      \<and> put_bytes (bw_offset w1 div 8) bs w1 = Some w'"
    using put_bytes_Cons [OF Cons.prems] ..
  then have "for_each write_u8 bs w1 = (w', Inr ())" using Cons.IH [of w1] by simp
  with w1 show ?case by (simp add: sbind_def)
qed

lemma write_bytes_InrD:
  "write_bytes bs w = (w', Inr c) \<Longrightarrow> for_each write_u8 bs w = (w', Inr ())"
  using put_bytes_for_each [of w bs]
  by (auto simp: write_bytes_def Let_def split: if_splits option.splits)

lemma read_bytes_eq:
  assumes "rfits r (8 * n)"
  shows "read_bytes n r = repeat_n n read_u8 r"
proof -
  have "get_bytes (br_offset r div 8) n r = Some bytes \<Longrightarrow> br_offset r mod 8 = 0 \<Longrightarrow>
      repeat_n n read_u8 r = (r\<lparr>br_offset := br_offset r + n * 8\<rparr>, Inr bytes)" for bytes
  proof (induction n arbitrary: r bytes)
    case 0
    then show ?case by (auto simp: get_bytes_def split: if_splits)
  next
    case (Suc n)
    define q where "q = br_offset r div 8"
    have off: "br_offset r = 8 * q" using Suc.prems(2) by (auto simp: q_def)
    have le: "q + Suc n \<le> length (br_buffer r)" and b: "bytes = take (Suc n) (drop q (br_buffer r))"
      using Suc.prems(1) by (auto simp: get_bytes_def q_def [symmetric] split: if_splits)
    let ?r = "r\<lparr>br_offset := 8 * q + 8\<rparr>"
    have u: "read_u8 r = (?r, Inr (br_buffer r ! q))"
      using le off by (simp add: read_u8_def read_be_def get_bytes_def take_Suc_conv_app_nth from_be_def)
    have "repeat_n n read_u8 ?r = (?r\<lparr>br_offset := br_offset ?r + n * 8\<rparr>, Inr (take n (drop (Suc q) (br_buffer r))))"
      using le by (intro Suc.IH) (simp_all add: get_bytes_def)
    moreover have "bytes = br_buffer r ! q # take n (drop (Suc q) (br_buffer r))"
      using le by (simp add: b Cons_nth_drop_Suc [symmetric])
    ultimately show ?case using u off by (simp add: sbind_def sreturn_def add_ac)
  qed
  then show ?thesis using assms
    by (auto simp: read_bytes_def Let_def rfits_def BitReader_remaining_bits_def split: option.splits)
qed

lemma for_each_write_u8_offset:
  "for_each write_u8 bs w = (w', Inr ()) \<Longrightarrow> bw_offset w' = bw_offset w + 8 * length bs"
proof (induction bs arbitrary: w)
  case (Cons b bs)
  then obtain w1 where "write_u8 b w = (w1, Inr ())" "for_each write_u8 bs w1 = (w', Inr ())"
    by (auto simp: sbind_Inr)
  moreover from this have "bw_offset w1 = bw_offset w + 8"
    using write_bits_InrD(1) by (fastforce simp: write_u8_eq wrote_def)
  ultimately show ?case using Cons.IH by fastforce
qed simp

interpretation raw_bytes: codec write_bytes "read_bytes n" "\<lambda>bs. bs" "\<lambda>bs. length bs = n" for n
proof
  fix v w w' c
  assume "write_bytes v w = (w', Inr c)"
  then show "extends w w'" using write_bytes_InrD byte.for_each_extends by blast
next
  fix v :: "u8 list" and w w' c r
  assume n: "length v = n" and "write_bytes v w = (w', Inr c)" and s: "sees w w' r"
  then have w: "for_each write_u8 v w = (w', Inr ())" using write_bytes_InrD by blast
  then have "rfits r (8 * n)"
    using for_each_write_u8_offset [OF w] s n by (simp add: sees_def rfits_def)
  then show "read_bytes n r = (r\<lparr>br_offset := bw_offset w'\<rparr>, Inr v)"
    using byte.repeat_dec [OF _ w s] n read_bytes_eq by simp
qed

section \<open>Variable-length integers\<close>

lemma and_7F: "(v :: 'a::len word) AND 0x7F = take_bit 7 v"
  by (rule and_mask_take_bit)

lemma bit_80: "bit (0x80 :: u8) n \<longleftrightarrow> n = 7"
proof -
  have "bit (push_bit 7 1 :: u8) n \<longleftrightarrow> n = 7"
    unfolding bit_push_bit_iff bit_1_iff by auto
  then show ?thesis by simp
qed

lemma varint_byte:
  fixes v :: u64
  shows "ucast ((ucast (v AND 0x7F) :: u8) AND 0x7F) = take_bit 7 v"
    and "ucast (((ucast (v AND 0x7F) :: u8) OR 0x80) AND 0x7F) = take_bit 7 v"
    and "(ucast (v AND 0x7F) :: u8) AND 0x80 = 0"
    and "((ucast (v AND 0x7F) :: u8) OR 0x80) AND 0x80 \<noteq> 0"
proof -
  show "ucast ((ucast (v AND 0x7F) :: u8) AND 0x7F) = take_bit 7 v"
    "ucast (((ucast (v AND 0x7F) :: u8) OR 0x80) AND 0x7F) = take_bit 7 v"
    unfolding packed_bits unfolding bit_80 by auto
  have b: "bit ((ucast (v AND 0x7F) :: u8) AND 0x80) n \<longleftrightarrow> False"
    "bit (((ucast (v AND 0x7F) :: u8) OR 0x80) AND 0x80) n \<longleftrightarrow> n = 7" for n
    unfolding bit_and_iff bit_or_iff bit_80 and_7F bit_ucast_iff bit_take_bit_iff by auto
  show "(ucast (v AND 0x7F) :: u8) AND 0x80 = 0" using b(1) by (intro bit_eqI) simp
  show "((ucast (v AND 0x7F) :: u8) OR 0x80) AND 0x80 \<noteq> 0"
    using b(2) [of 7] by (metis bit_0_eq bot_apply bot_bool_def)
qed

lemma varint_step:
  "take_bit (7 * i) (v :: u64) OR push_bit (7 * i) (take_bit 7 (drop_bit (7 * i) v)) = take_bit (7 * Suc i) v"
  by (rule bit_word_eqI) (auto simp: bit_or_iff bit_take_bit_iff bit_push_bit_iff bit_drop_bit_eq)

lemma write_varint_loop_step:
  assumes "write_varint_loop v k w = (w', Inr c)"
  obtains w1 where
    "write_u8 (if drop_bit 7 v \<noteq> 0 then (ucast (v AND 0x7F) :: u8) OR 0x80 else ucast (v AND 0x7F)) w = (w1, Inr ())"
    "(if drop_bit 7 v = 0 then sreturn (k + 1) else write_varint_loop (drop_bit 7 v) (k + 1)) w1 = (w', Inr c)"
  using assms by (subst (asm) write_varint_loop.simps) (auto simp: Let_def sbind_Inr)

lemma write_varint_loop_extends:
  "write_varint_loop v k w = (w', Inr c) \<Longrightarrow> extends w w'"
proof (induction v k w arbitrary: w' c rule: write_varint_loop.induct)
  case (1 v k w)
  let ?b = "if drop_bit 7 v \<noteq> 0 then (ucast (v AND 0x7F) :: u8) OR 0x80 else ucast (v AND 0x7F)"
  obtain w1 where w1: "write_u8 ?b w = (w1, Inr ())"
    "(if drop_bit 7 v = 0 then sreturn (k + 1) else write_varint_loop (drop_bit 7 v) (k + 1)) w1 = (w', Inr c)"
    using write_varint_loop_step [OF "1.prems"] .
  have e: "extends w w1" using byte.enc_extends [OF w1(1)] .
  show ?case
  proof (cases "drop_bit 7 v = 0")
    case True
    then show ?thesis using w1(2) e by simp
  next
    case False
    then have "extends w1 w'" using "1.IH" [OF refl refl refl] w1(2) by simp
    with e show ?thesis by (rule extends_trans)
  qed
qed

lemma varint_last_byte: "take_bit 7 (drop_bit 63 (v :: u64)) AND 0x7E = 0"
proof -
  have "take_bit 7 (drop_bit 63 v) = take_bit 1 (drop_bit 63 v)"
    unfolding bit_eq_iff bit_take_bit_iff bit_drop_bit_eq comp_apply by (auto dest: bit_imp_le_length)
  also have "\<dots> AND 0x7E = 0" by (simp add: take_bit_eq_mask mask_eq_exp_minus_1 and.assoc)
  finally show ?thesis .
qed

lemma varint_complete:
  assumes "drop_bit 7 (drop_bit (7 * i) (v :: u64)) = 0"
  shows "take_bit (7 * Suc i) v = v"
proof -
  have "drop_bit (7 * Suc i) v = 0" using assms by (simp add: drop_bit_drop_bit add.commute)
  then show ?thesis by (metis bits_ident add_0 push_bit_0_id push_bit_of_0)
qed

lemma read_write_varint_loop:
  assumes "write_varint_loop (drop_bit (7 * i) v) k w = (w', Inr c)" "i + Suc n = 10" "sees w w' r"
  shows "read_varint_loop (Suc n) (take_bit (7 * i) v) (7 * i) r = (r\<lparr>br_offset := bw_offset w'\<rparr>, Inr v)"
  using assms
proof (induction n arbitrary: i k w r)
  case (0 i k w r)
  then have i: "i = 9" by simp
  have z: "drop_bit 7 (drop_bit (7 * i) v) = 0"
    by (rule bit_word_eqI) (auto simp: i bit_drop_bit_eq dest: bit_imp_le_length)
  let ?b = "ucast (drop_bit (7 * i) v AND 0x7F) :: u8"
  have w1: "write_u8 ?b w = (w', Inr ())"
    using write_varint_loop_step [OF 0(1)] z by (auto split: if_splits)
  have rd: "read_u8 r = (r\<lparr>br_offset := bw_offset w'\<rparr>, Inr ?b)"
    using byte.dec_enc [OF _ w1 0(3)] by simp
  have ov: "take_bit 7 (drop_bit (7 * i) v) AND 0x7E = 0" unfolding i using varint_last_byte by simp
  show ?case
    using rd ov varint_step [of i v] varint_complete [OF z]
    by (simp add: sbind_def Let_def varint_byte sreturn_def)
next
  case (Suc n i k w r)
  let ?x = "drop_bit (7 * i) v"
  let ?b = "if drop_bit 7 ?x \<noteq> 0 then (ucast (?x AND 0x7F) :: u8) OR 0x80 else ucast (?x AND 0x7F)"
  obtain w1 where w1: "write_u8 ?b w = (w1, Inr ())"
    "(if drop_bit 7 ?x = 0 then sreturn (k + 1) else write_varint_loop (drop_bit 7 ?x) (k + 1)) w1 = (w', Inr c)"
    using write_varint_loop_step [OF Suc.prems(1)] .
  have "extends w1 w'" using w1(2) write_varint_loop_extends by (auto split: if_splits)
  note first = byte.dec_first [OF TrueI w1(1) this Suc.prems(3)]
  show ?case
  proof (cases "drop_bit 7 ?x = 0")
    case True
    then show ?thesis
      using first(1) w1(2) varint_step [of i v] varint_complete [OF True]
      by (simp add: sbind_def Let_def varint_byte sreturn_def)
  next
    case False
    have "drop_bit 7 ?x = drop_bit (7 * Suc i) v" by (simp add: drop_bit_drop_bit add.commute)
    then have "read_varint_loop (Suc n) (take_bit (7 * Suc i) v) (7 * Suc i) (r\<lparr>br_offset := bw_offset w1\<rparr>)
        = (r\<lparr>br_offset := bw_offset w'\<rparr>, Inr v)"
      using Suc.IH [of "Suc i" "k + 1" w1 "r\<lparr>br_offset := bw_offset w1\<rparr>"] w1(2) False Suc.prems(2) first(2)
      by simp
    moreover have "read_varint_loop (Suc (Suc n)) (take_bit (7 * i) v) (7 * i) r
        = read_varint_loop (Suc n) (take_bit (7 * Suc i) v) (7 * Suc i) (r\<lparr>br_offset := bw_offset w1\<rparr>)"
    proof -
      obtain b where b: "read_u8 r = (r\<lparr>br_offset := bw_offset w1\<rparr>, Inr b)" "b AND 0x80 \<noteq> 0"
        "ucast (b AND 0x7F) = take_bit 7 ?x"
        using first(1) False varint_byte(2,4) [of ?x] by simp
      then show ?thesis
        using varint_step [of i v] by (subst read_varint_loop.simps) (simp add: sbind_def Let_def add.commute)
    qed
    ultimately show ?thesis by simp
  qed
qed

interpretation varint: codec write_varint read_varint "\<lambda>v. v" "\<lambda>_. True"
proof
  fix v w w' c
  assume "write_varint v w = (w', Inr c)"
  then show "extends w w'" unfolding write_varint_def by (rule write_varint_loop_extends)
next
  fix v w w' c r
  assume "write_varint v w = (w', Inr c)" and s: "sees w w' r"
  then have "write_varint_loop (drop_bit (7 * 0) v) 0 w = (w', Inr c)" by (simp add: write_varint_def)
  from read_write_varint_loop [OF this, of 9 r] s
  show "read_varint r = (r\<lparr>br_offset := bw_offset w'\<rparr>, Inr v)"
    by (simp add: read_varint_def numeral_eq_Suc)
qed

text \<open>A hostile stream of continuation bytes is cut off: at most 80 bits are consumed.\<close>

lemma read_bits_state:
  assumes "read_bits n r = (r', x)"
  shows "r' = r \<or> r' = r\<lparr>br_offset := br_offset r + n\<rparr>"
proof (cases "n \<le> 64 \<and> rfits r n")
  case True
  then show ?thesis using assms read_bits_ok [of n r] by auto
next
  case False
  then show ?thesis
    using assms by (auto simp: read_bits_def Let_def rfits_def BitReader_remaining_bits_def split: if_splits)
qed

definition advances :: "nat \<Rightarrow> BitReader \<Rightarrow> BitReader \<Rightarrow> bool" where
  "advances n r r' \<longleftrightarrow> br_buffer r' = br_buffer r \<and> br_offset r \<le> br_offset r'
     \<and> br_offset r' \<le> br_offset r + n"

lemma read_u8_advances: "read_u8 r = (r', x) \<Longrightarrow> advances 8 r r'"
  using read_bits_state [of 8 r]
  by (auto simp: read_u8_eq sbind_def sreturn_def advances_def split: prod.splits sum.splits)

lemma read_varint_loop_advances:
  "read_varint_loop n res sh r = (r', x) \<Longrightarrow> advances (8 * n) r r'"
proof (induction n arbitrary: res sh r)
  case 0
  then show ?case by (simp add: advances_def)
next
  case (Suc n)
  obtain r1 y where r1: "read_u8 r = (r1, y)" by fastforce
  have a: "advances 8 r r1" by (rule read_u8_advances [OF r1])
  show ?case
  proof (cases y)
    case (Inl e)
    then show ?thesis using Suc.prems a r1 by (auto simp: sbind_def advances_def)
  next
    case (Inr b)
    then have "r' = r1 \<or> advances (8 * n) r1 r'"
      using Suc.prems r1 Suc.IH by (auto simp: sbind_def Let_def split: if_splits)
    then show ?thesis using a by (auto simp: advances_def)
  qed
qed

section \<open>Transforms and batches\<close>

lemma delta_tag: "DeltaTier_from_tag (ucast (take_bit 2 (ucast (DeltaTier_tag t) :: u64))) = t"
  by (cases t) (simp_all add: DeltaTier_from_tag_def)

lemma multires_tag: "MultiResTier_from_tag (ucast (take_bit 2 (ucast (MultiResTier_tag t) :: u64))) = t"
  by (cases t) (simp_all add: MultiResTier_from_tag_def)

lemma scast_u64_take_bit: "n < 8 \<Longrightarrow> ucast (take_bit n (scast (w :: i8) :: u64)) = take_bit n w"
  by (rule bit_word_eqI) (auto simp: bit_take_bit_iff bit_ucast_iff bit_signed_iff min_def)

lemma ucast_u64_u8: "ucast (take_bit 8 (ucast (b :: u8) :: u64)) = b"
  by (rule bit_word_eqI) (simp add: bit_ucast_iff bit_take_bit_iff)

text \<open>Two writes in a row, seen from a reader.\<close>

definition extending :: "(BitWriter \<Rightarrow> BitWriter \<times> (BitstreamError + 'c)) \<Rightarrow> bool" where
  "extending m \<longleftrightarrow> (\<forall>w w' c. m w = (w', Inr c) \<longrightarrow> extends w w')"

lemma extending_sbind: "extending m \<Longrightarrow> extending k \<Longrightarrow> extending (sbind m (\<lambda>_. k))"
  unfolding extending_def sbind_Inr using extends_trans by metis

lemma extending_basic:
  "extending (write_bits v n)" "extending (write_bytes bs)" "extending (write_varint v)"
  unfolding extending_def using bits.enc_extends raw_bytes.enc_extends varint.enc_extends by blast+

lemmas extending_intros = extending_sbind extending_basic

lemma bits_then:
  assumes "sbind (write_bits v n) (\<lambda>_. k) w = (w', Inr c)" "extending k" "sees w w' r"
  obtains w1 where "k w1 = (w', Inr c)" "sees w1 w' (r\<lparr>br_offset := bw_offset w1\<rparr>)"
    "read_bits n r = (r\<lparr>br_offset := bw_offset w1\<rparr>, Inr (take_bit n v))"
proof -
  from assms(1) obtain w1 a where w1: "write_bits v n w = (w1, Inr a)" "k w1 = (w', Inr c)"
    by (auto simp: sbind_Inr)
  then have "extends w1 w'" using assms(2) by (auto simp: extending_def)
  from bits.dec_first [OF TrueI w1(1) this assms(3)] w1(2) show thesis using that by blast
qed

lemma extending_delta: "extending (write_delta_transform d)"
  by (cases d) (simp_all add: Let_def extending_intros)

lemma extending_multires: "extending (write_multires_transform t)"
  by (cases t) (simp_all add: Let_def extending_intros)

text \<open>Four fields in a row, and the reader that collects them.\<close>

lemma four_fields:
  assumes "sbind (write_bits a n1) (\<lambda>_. sbind (write_bits b n2) (\<lambda>_.
      sbind (write_bits c n3) (\<lambda>_. write_bits d n4))) w = (w', Inr x)" "sees w w' r"
  shows "sbind (read_bits n1) (\<lambda>p. sbind (read_bits n2) (\<lambda>q. sbind (read_bits n3) (\<lambda>s.
      sbind (read_bits n4) (\<lambda>t. sreturn (f p q s t))))) r
    = (r\<lparr>br_offset := bw_offset w'\<rparr>, Inr (f (take_bit n1 a) (take_bit n2 b) (take_bit n3 c) (take_bit n4 d)))"
proof -
  obtain w2 where s2: "sbind (write_bits b n2) (\<lambda>_. sbind (write_bits c n3) (\<lambda>_. write_bits d n4)) w2 = (w', Inr x)"
    "sees w2 w' (r\<lparr>br_offset := bw_offset w2\<rparr>)"
    "read_bits n1 r = (r\<lparr>br_offset := bw_offset w2\<rparr>, Inr (take_bit n1 a))"
    using bits_then [OF assms(1) _ assms(2)] by (metis extending_intros(1,2))
  obtain w3 where s3: "sbind (write_bits c n3) (\<lambda>_. write_bits d n4) w3 = (w', Inr x)"
    "sees w3 w' (r\<lparr>br_offset := bw_offset w3\<rparr>)"
    "read_bits n2 (r\<lparr>br_offset := bw_offset w2\<rparr>) = (r\<lparr>br_offset := bw_offset w3\<rparr>, Inr (take_bit n2 b))"
    using bits_then [OF s2(1) _ s2(2)] by (auto simp: extending_intros)
  obtain w4 where s4: "write_bits d n4 w4 = (w', Inr x)" "sees w4 w' (r\<lparr>br_offset := bw_offset w4\<rparr>)"
    "read_bits n3 (r\<lparr>br_offset := bw_offset w3\<rparr>) = (r\<lparr>br_offset := bw_offset w4\<rparr>, Inr (take_bit n3 c))"
    using bits_then [OF s3(1) _ s3(2)] by (auto simp: extending_intros)
  have "read_bits n4 (r\<lparr>br_offset := bw_offset w4\<rparr>) = (r\<lparr>br_offset := bw_offset w'\<rparr>, Inr (take_bit n4 d))"
    using bits.dec_enc [OF TrueI s4(1,2)] by simp
  then show ?thesis by (simp add: sbind_def s2(3) s3(3) s4(3) sreturn_def)
qed

text \<open>A tag followed by a packed payload.\<close>

lemma tagged_bytes:
  assumes "sbind (write_bits t 2) (\<lambda>_. write_bytes p) w = (w', Inr x)" "sees w w' r"
  obtains w1 :: BitWriter where "read_bits 2 r = (r\<lparr>br_offset := bw_offset w1\<rparr>, Inr (take_bit 2 t))"
    "read_bytes (length p) (r\<lparr>br_offset := bw_offset w1\<rparr>) = (r\<lparr>br_offset := bw_offset w'\<rparr>, Inr p)"
proof -
  obtain w1 where s1: "write_bytes p w1 = (w', Inr x)" "sees w1 w' (r\<lparr>br_offset := bw_offset w1\<rparr>)"
    "read_bits 2 r = (r\<lparr>br_offset := bw_offset w1\<rparr>, Inr (take_bit 2 t))"
    by (rule bits_then [OF assms(1) extending_basic(2) assms(2)])
  have "read_bytes (length p) (r\<lparr>br_offset := bw_offset w1\<rparr>) = (r\<lparr>br_offset := bw_offset w'\<rparr>, Inr p)"
    using raw_bytes.dec_enc [OF refl s1(1,2)] by simp
  from that [OF s1(3) this] show thesis .
qed

lemma length_packs:
  "length (pack_with_yaw_and_flags q y f) = 7" "length (Midfield_pack m y6 f) = 5"
  "length (Horizon_pack h y4 f) = 3"
  by (simp_all add: pack_with_yaw_and_flags_def Midfield_pack_def Horizon_pack_def Let_def)

lemma read_write_delta:
  assumes wf: "DeltaTransform_wf d" and wr: "write_delta_transform d w = (w', Inr c)" and s: "sees w w' r"
  shows "read_delta_transform r = (r\<lparr>br_offset := bw_offset w'\<rparr>, Inr d)"
proof (cases d)
  case Stationary
  then have "write_bits (ucast (DeltaTier_tag TierStationary)) 2 w = (w', Inr c)" using wr by simp
  from bits.dec_enc [OF TrueI this s] show ?thesis
    unfolding read_delta_transform_def sbind_def Stationary by (simp only: prod.case sum.case delta_tag) simp
next
  case (Small dx dz dy dyaw)
  let ?a = "scast (dx + 8) AND 0x0F :: u64" and ?b = "scast (dz + 8) AND 0x0F :: u64"
  let ?c = "scast (dy + 4) AND 0x07 :: u64" and ?d = "scast (dyaw + 4) AND 0x07 :: u64"
  let ?k = "sbind (write_bits ?a 4) (\<lambda>_. sbind (write_bits ?b 4) (\<lambda>_.
    sbind (write_bits ?c 3) (\<lambda>_. write_bits ?d 3)))"
  have "sbind (write_bits (ucast (DeltaTier_tag TierSmall)) 2) (\<lambda>_. ?k) w = (w', Inr c)"
    using wr by (simp add: Small Let_def)
  from bits_then [OF this _ s] obtain w1 where s1: "?k w1 = (w', Inr c)"
    "sees w1 w' (r\<lparr>br_offset := bw_offset w1\<rparr>)"
    "read_bits 2 r = (r\<lparr>br_offset := bw_offset w1\<rparr>, Inr (take_bit 2 (ucast (DeltaTier_tag TierSmall))))"
    by (metis extending_intros(1,2))
  have f: "ucast (take_bit 4 ?a) - 8 = dx" "ucast (take_bit 4 ?b) - 8 = dz"
    "ucast (take_bit 3 ?c) - 4 = dy" "ucast (take_bit 3 ?d) - 4 = dyaw"
    using wf by (simp_all add: Small and_mask_take_bit scast_u64_take_bit)
  show ?thesis
    unfolding read_delta_transform_def Small sbind_def [of "read_bits 2"] s1(3) prod.case sum.case delta_tag
      DeltaTier.case four_fields [OF s1(1,2)] f by simp
next
  case (Medium dx dz dy yaw)
  let ?a = "scast (dy + 32) AND 0x3F :: u64"
  let ?k = "sbind (write_bits ?a 6) (\<lambda>_. sbind (write_bits (ucast dx) 8) (\<lambda>_.
    sbind (write_bits (ucast dz) 8) (\<lambda>_. write_bits (ucast (yaw_byte yaw)) 8)))"
  have "sbind (write_bits (ucast (DeltaTier_tag TierMedium)) 2) (\<lambda>_. ?k) w = (w', Inr c)"
    using wr by (simp add: Medium Let_def)
  from bits_then [OF this _ s] obtain w1 where s1: "?k w1 = (w', Inr c)"
    "sees w1 w' (r\<lparr>br_offset := bw_offset w1\<rparr>)"
    "read_bits 2 r = (r\<lparr>br_offset := bw_offset w1\<rparr>, Inr (take_bit 2 (ucast (DeltaTier_tag TierMedium))))"
    by (metis extending_intros(1,2))
  have f: "ucast (take_bit 6 ?a) - 32 = dy"
    using wf by (simp add: Medium and_mask_take_bit scast_u64_take_bit)
  show ?thesis
    unfolding read_delta_transform_def Medium sbind_def [of "read_bits 2"] s1(3) prod.case sum.case delta_tag
      DeltaTier.case four_fields [OF s1(1,2)] f ucast_u64_u8 QuantizedYaw.collapse by simp
next
  case (Full coord yaw flags)
  let ?p = "pack_with_yaw_and_flags coord yaw flags"
  have "sbind (write_bits (ucast (DeltaTier_tag TierFull)) 2) (\<lambda>_. write_bytes ?p) w = (w', Inr c)"
    using wr by (simp add: Full)
  from tagged_bytes [OF this s, unfolded length_packs] obtain w1 :: BitWriter where
    "read_bits 2 r = (r\<lparr>br_offset := bw_offset w1\<rparr>, Inr (take_bit 2 (ucast (DeltaTier_tag TierFull))))"
    "read_bytes 7 (r\<lparr>br_offset := bw_offset w1\<rparr>) = (r\<lparr>br_offset := bw_offset w'\<rparr>, Inr ?p)" .
  with wf show ?thesis
    unfolding read_delta_transform_def sbind_def
    by (simp only: prod.case sum.case delta_tag DeltaTier.case) (simp add: unpack_pack_7 Full)
qed

interpretation delta: codec write_delta_transform read_delta_transform "\<lambda>d. d" DeltaTransform_wf
  by unfold_locales (use extending_delta read_write_delta in \<open>auto simp: extending_def\<close>)

text \<open>What the coarse tiers keep of a transform.\<close>

fun multires_image :: "MultiResTransform \<Rightarrow> MultiResTransform" where
  "multires_image (MultiTactical q yaw flags) =
     MultiTactical (q\<lparr>qc_y := qc_y q AND MAX_QUANTIZED_VERTICAL\<rparr>) yaw (flags AND 0x0F)"
| "multires_image (MultiMidfield m yaw flags) =
     MultiMidfield \<lparr>mid_x = mid_x m AND 0x03FF, mid_y = mid_y m, mid_z = mid_z m AND 0x03FF\<rparr>
       (QuantizedYaw6Bit (yaw6_byte yaw AND 0x3F)) (flags AND 0x0F)"
| "multires_image (MultiHorizon h heading flags) =
     MultiHorizon \<lparr>hor_x = hor_x h AND 0x3F, hor_y = hor_y h AND 0x1F, hor_z = hor_z h AND 0x3F\<rparr>
       (QuantizedYaw4Bit (yaw4_byte heading AND 0x0F)) (flags AND 0x07)"
| "multires_image MultiStationary = MultiStationary"

lemma read_write_multires:
  assumes wr: "write_multires_transform t w = (w', Inr c)" and s: "sees w w' r"
  shows "read_multires_transform r = (r\<lparr>br_offset := bw_offset w'\<rparr>, Inr (multires_image t))"
proof (cases t)
  case (MultiTactical q yaw flags)
  with wr have "sbind (write_bits (ucast (MultiResTier_tag TierTactical)) 2)
      (\<lambda>_. write_bytes (pack_with_yaw_and_flags q yaw flags)) w = (w', Inr c)" by simp
  from tagged_bytes [OF this s, unfolded length_packs] obtain w1 :: BitWriter where
    "read_bits 2 r = (r\<lparr>br_offset := bw_offset w1\<rparr>, Inr (take_bit 2 (ucast (MultiResTier_tag TierTactical))))"
    "read_bytes 7 (r\<lparr>br_offset := bw_offset w1\<rparr>)
      = (r\<lparr>br_offset := bw_offset w'\<rparr>, Inr (pack_with_yaw_and_flags q yaw flags))" .
  then show ?thesis unfolding read_multires_transform_def sbind_def
    by (simp only: prod.case sum.case multires_tag MultiResTier.case) (simp add: unpack_pack_7 MultiTactical)
next
  case (MultiMidfield m yaw flags)
  with wr have "sbind (write_bits (ucast (MultiResTier_tag TierMidfield)) 2)
      (\<lambda>_. write_bytes (Midfield_pack m yaw flags)) w = (w', Inr c)" by simp
  from tagged_bytes [OF this s, unfolded length_packs] obtain w1 :: BitWriter where
    "read_bits 2 r = (r\<lparr>br_offset := bw_offset w1\<rparr>, Inr (take_bit 2 (ucast (MultiResTier_tag TierMidfield))))"
    "read_bytes 5 (r\<lparr>br_offset := bw_offset w1\<rparr>)
      = (r\<lparr>br_offset := bw_offset w'\<rparr>, Inr (Midfield_pack m yaw flags))" .
  then show ?thesis unfolding read_multires_transform_def sbind_def
    by (simp only: prod.case sum.case multires_tag MultiResTier.case) (simp add: Midfield_unpack_pack MultiMidfield)
next
  case (MultiHorizon h heading flags)
  with wr have "sbind (write_bits (ucast (MultiResTier_tag TierHorizon)) 2)
      (\<lambda>_. write_bytes (Horizon_pack h heading flags)) w = (w', Inr c)" by simp
  from tagged_bytes [OF this s, unfolded length_packs] obtain w1 :: BitWriter where
    "read_bits 2 r = (r\<lparr>br_offset := bw_offset w1\<rparr>, Inr (take_bit 2 (ucast (MultiResTier_tag TierHorizon))))"
    "read_bytes 3 (r\<lparr>br_offset := bw_offset w1\<rparr>)
      = (r\<lparr>br_offset := bw_offset w'\<rparr>, Inr (Horizon_pack h heading flags))" .
  then show ?thesis unfolding read_multires_transform_def sbind_def
    by (simp only: prod.case sum.case multires_tag MultiResTier.case) (simp add: Horizon_unpack_pack MultiHorizon)
next
  case MultiStationary
  then have "write_bits (ucast (MultiResTier_tag TierMotionless)) 2 w = (w', Inr c)" using wr by simp
  from bits.dec_enc [OF TrueI this s] show ?thesis
    unfolding read_multires_transform_def sbind_def MultiStationary
    by (simp only: prod.case sum.case multires_tag MultiResTier.case) simp
qed

interpretation multires: codec write_multires_transform read_multires_transform multires_image "\<lambda>_. True"
  by unfold_locales (use extending_multires read_write_multires in \<open>auto simp: extending_def\<close>)

definition entry_image :: "MultiResBatchEntry \<Rightarrow> MultiResBatchEntry" where
  "entry_image e = e\<lparr>be_transform := multires_image (be_transform e)\<rparr>"

interpretation entry: codec write_batch_entry read_batch_entry entry_image "\<lambda>_. True"
proof
  fix e w w' c
  assume "write_batch_entry e w = (w', Inr c)"
  then show "extends w w'"
    using extending_sbind [OF extending_basic(3) extending_multires]
    by (auto simp: write_batch_entry_def extending_def)
next
  fix e w w' c r
  assume wr: "write_batch_entry e w = (w', Inr c)" and s: "sees w w' r"
  obtain w1 a where w1: "write_varint (ucast (be_entity_id e)) w = (w1, Inr a)"
    "write_multires_transform (be_transform e) w1 = (w', Inr c)"
    using wr by (auto simp: write_batch_entry_def sbind_Inr)
  note first = varint.dec_first [OF TrueI w1(1) multires.enc_extends [OF w1(2)] s]
  have "ucast (ucast (be_entity_id e) :: u64) = be_entity_id e"
    by (rule bit_word_eqI) (simp add: bit_ucast_iff)
  then show "read_batch_entry r = (r\<lparr>br_offset := bw_offset w'\<rparr>, Inr (entry_image e))"
    using first(1) multires.dec_enc [OF TrueI w1(2) first(2)]
    by (simp add: read_batch_entry_def sbind_def sreturn_def entry_image_def)
qed

section \<open>Properties\<close>

text \<open>
  Writing bits: a width of 1 to 64 that fits sets exactly the bits at the cursor, most
  significant first, keeps all others and advances the cursor by the width, on the byte-aligned
  fast paths and in the chunk loop alike; every other call is refused with the error the width
  or the capacity calls for and leaves the buffer and the cursor as they were.
\<close>

theorem write_bits_functional:
  "if n = 0 \<or> n \<le> 64 \<and> fits w n
   then \<exists>w'. write_bits v n w = (w', Inr ()) \<and> bw_offset w' = bw_offset w + n
     \<and> length (bw_buffer w') = length (bw_buffer w)
     \<and> (\<forall>i. bit_at (bw_buffer w') i =
          (if bw_offset w \<le> i \<and> i < bw_offset w + n then bit v (bw_offset w + n - 1 - i)
           else bit_at (bw_buffer w) i))
   else write_bits v n w =
     (w, Inl (if n > 64 then InvalidBitWidth n else BufferOverflow n (BitWriter_remaining_bits w)))"
proof (cases "n = 0 \<or> n \<le> 64 \<and> fits w n")
  case True
  obtain w' where w': "write_bits v n w = (w', Inr ())" "wrote w n (\<lambda>j. bit v (n - 1 - j)) w'"
    using True write_bits_ok [of n w v] by (auto simp: write_bits_def wrote_def)
  have "n - 1 - (i - bw_offset w) = bw_offset w + n - 1 - i" if "bw_offset w \<le> i" for i
    using that by simp
  then have "\<forall>i. bit_at (bw_buffer w') i =
      (if bw_offset w \<le> i \<and> i < bw_offset w + n then bit v (bw_offset w + n - 1 - i)
       else bit_at (bw_buffer w) i)"
    using w'(2) by (simp add: wrote_def sets_bits_def)
  then show ?thesis using True w' by (auto simp: wrote_def sets_bits_def)
next
  case False
  then show ?thesis
    by (auto simp: write_bits_def Let_def fits_def BitWriter_remaining_bits_def BitWriter_total_bits_def)
qed

lemma sees_self: "extends w w' \<Longrightarrow> fits w 0 \<Longrightarrow> sees w w' \<lparr>br_buffer = bw_buffer w', br_offset = bw_offset w\<rparr>"
  by (auto simp: extends_def fits_def sees_def)

text \<open>
  C33. Batches: whatever batch of entity updates was written from a cursor inside the buffer, a
  reader placed at that cursor gets the same number of entries back, every entity id unchanged and
  every transform masked to the widths of its tier, and stops where the writer stopped.
\<close>

theorem multires_batch_roundtrip:
  assumes "write_multires_batch entries w = (w', Inr c)" "fits w 0" "length entries < 2 ^ 64"
  shows "read_multires_batch \<lparr>br_buffer = bw_buffer w', br_offset = bw_offset w\<rparr>
    = (\<lparr>br_buffer = bw_buffer w', br_offset = bw_offset w'\<rparr>, Inr (map entry_image entries, length entries))"
proof -
  obtain w1 a where w1: "write_varint (of_nat (length entries)) w = (w1, Inr a)"
    "for_each write_batch_entry entries w1 = (w', Inr c)"
    using assms(1) by (auto simp: write_multires_batch_def sbind_Inr)
  note e = varint.enc_extends [OF w1(1)] entry.for_each_extends [of entries w1 w']
  have "sees w w' \<lparr>br_buffer = bw_buffer w', br_offset = bw_offset w\<rparr>"
    using e w1(2) extends_trans assms(2) sees_self by (metis (full_types) unit.exhaust)
  note first = varint.dec_first [OF TrueI w1(1) e(2) this]
  have c: "c = ()" by simp
  have "unat (of_nat (length entries) :: u64) = length entries"
    using assms(3) by (simp add: unat_of_nat)
  with first w1(2) entry.repeat_dec [OF _ w1(2) [unfolded c] first(2)] show ?thesis
    by (simp add: read_multires_batch_def sbind_def sreturn_def)
qed

lemma batch_example:
  "write_multires_batch [\<lparr>be_entity_id = 300, be_transform = MultiStationary\<rparr>]
     (BitWriter_new (replicate 5 0)) = (\<lparr>bw_buffer = [1, 172, 2, 192, 0], bw_offset = 26\<rparr>, Inr ())"
  by code_simp

theorem multires_batch_roundtrip_witness:
  "read_multires_batch \<lparr>br_buffer = [1, 172, 2, 192, 0], br_offset = 0\<rparr>
     = (\<lparr>br_buffer = [1, 172, 2, 192, 0], br_offset = 26\<rparr>,
        Inr ([\<lparr>be_entity_id = 300, be_transform = MultiStationary\<rparr>], 1))"
  using multires_batch_roundtrip [OF batch_example]
  by (simp add: fits_def BitWriter_new_def entry_image_def)

text \<open>
  A hostile varint, one that continues for ever, is cut off: whatever the stream holds,
  \<open>read_varint\<close> consumes at most ten bytes, never moves backwards, and leaves the buffer alone.
\<close>

theorem read_varint_bounded:
  "case read_varint r of (r', result) \<Rightarrow>
     br_buffer r' = br_buffer r \<and> br_offset r \<le> br_offset r' \<and> br_offset r' \<le> br_offset r + 80"
  using read_varint_loop_advances [of 10 0 0 r] unfolding read_varint_def advances_def
  by (cases "read_varint_loop 10 0 0 r") simp

text \<open>
  Delta transforms on the bit stream: a well-formed delta (\<open>DeltaTransform_wf\<close>, which every
  computed delta satisfies) that was written at any bit position is read back from there unchanged.
\<close>

theorem delta_bitstream_roundtrip:
  assumes "DeltaTransform_wf d" "write_delta_transform d w = (w', Inr c)" "fits w 0"
  shows "read_delta_transform \<lparr>br_buffer = bw_buffer w', br_offset = bw_offset w\<rparr>
    = (\<lparr>br_buffer = bw_buffer w', br_offset = bw_offset w'\<rparr>, Inr d)"
  using delta.dec_enc [OF assms(1,2) sees_self [OF delta.enc_extends [OF assms(2)] assms(3)]] by simp

theorem delta_bitstream_roundtrip_witness:
  "read_delta_transform \<lparr>br_buffer = [0x6D, 0x09, 0], br_offset = 0\<rparr>
     = (\<lparr>br_buffer = [0x6D, 0x09, 0], br_offset = 16\<rparr>, Inr (Small 3 (- 4) (- 3) (- 3)))"
proof -
  have "write_delta_transform (Small 3 (- 4) (- 3) (- 3)) (BitWriter_new [7, 7, 7])
      = (\<lparr>bw_buffer = [0x6D, 0x09, 0], bw_offset = 16\<rparr>, Inr ())" by code_simp
  from delta_bitstream_roundtrip [OF _ this] show ?thesis
    by (simp add: fits_def BitWriter_new_def)
qed

end
