(* ===== verification/Queues.thy ===== *)
theory Queues
  imports NetErrors "HOL-Library.Sublist"
begin

text \<open>
  The bounded queues of the network stages: the packet ring of \<^verbatim>\<open>eidolon-net/src/queue.rs\<close> and
  the ingress and egress queues of \<^verbatim>\<open>eidolon-net/src/backpressure.rs\<close>, which evict the oldest
  unreliable packet when they are full. The three share the same circular array, one record
  here, read as the list of its items from head to tail by \<open>ring_items\<close>. The locale
  \<open>priority_fifo\<close> states what a client of any of them relies on, proves from it that reliable
  items come out in order with none lost, and is interpreted on the three queues.

  \<open>CAP\<close>, a const parameter of the source, is the length of the slot array.
\<close>

section \<open>The circular array\<close>

record 'a Ring =
  ring_slots :: "'a option list"
  ring_head :: nat
  ring_tail :: nat
  ring_len :: nat

abbreviation ring_cap :: "('a, 'z) Ring_scheme \<Rightarrow> nat" where
  "ring_cap q \<equiv> length (ring_slots q)"

type_synonym 'a PacketRingBuffer = "'a Ring"

definition PacketRingBuffer_new :: "nat \<Rightarrow> 'a PacketRingBuffer" where
  "PacketRingBuffer_new CAP =
     \<lparr>ring_slots = replicate CAP None, ring_head = 0, ring_tail = 0, ring_len = 0\<rparr>"

definition ring_is_empty :: "('a, 'z) Ring_scheme \<Rightarrow> bool" where
  "ring_is_empty q \<longleftrightarrow> ring_len q = 0"

definition ring_is_full :: "('a, 'z) Ring_scheme \<Rightarrow> bool" where
  "ring_is_full q \<longleftrightarrow> ring_len q = ring_cap q"

text \<open>\<open>get_mut(tail)\<close>: the slot is written and the tail moves on only when the index exists.\<close>

definition enqueue_tail :: "'a \<Rightarrow> ('a, 'z) Ring_scheme \<Rightarrow> ('a, 'z) Ring_scheme" where
  "enqueue_tail item q =
     (if ring_tail q < ring_cap q
      then q\<lparr>ring_slots := (ring_slots q)[ring_tail q := Some item],
             ring_tail := (ring_tail q + 1) mod ring_cap q,
             ring_len := ring_len q + 1\<rparr>
      else q)"

definition PacketRingBuffer_push ::
  "'a \<Rightarrow> 'a PacketRingBuffer \<Rightarrow> 'a PacketRingBuffer \<times> (NetError + unit)"
where
  "PacketRingBuffer_push item q =
     (if ring_is_full q then (q, Inl QueueFull)
      else if ring_tail q < ring_cap q then (enqueue_tail item q, Inr ())
      else (q, Inl QueueFull))"

text \<open>\<open>slots.get_mut(head)?.take()\<close>: an index out of range returns early.\<close>

definition ring_take :: "('a, 'z) Ring_scheme \<Rightarrow> ('a, 'z) Ring_scheme \<times> 'a option" where
  "ring_take q =
     (if ring_len q = 0 then (q, None)
      else if ring_head q < ring_cap q
      then (q\<lparr>ring_slots := (ring_slots q)[ring_head q := None],
              ring_head := (ring_head q + 1) mod ring_cap q,
              ring_len := ring_len q - 1\<rparr>, ring_slots q ! ring_head q)
      else (q, None))"

definition PacketRingBuffer_pop :: "'a PacketRingBuffer \<Rightarrow> 'a PacketRingBuffer \<times> 'a option" where
  "PacketRingBuffer_pop q = ring_take q"

definition PacketRingBuffer_push_overwrite_oldest ::
  "'a \<Rightarrow> 'a PacketRingBuffer \<Rightarrow> 'a PacketRingBuffer \<times> 'a option"
where
  "PacketRingBuffer_push_overwrite_oldest item q =
     (if ring_cap q = 0 then (q, Some item)
      else case (if ring_is_full q then PacketRingBuffer_pop q else (q, None)) of
             (q1, dropped) \<Rightarrow> (enqueue_tail item q1, dropped))"

definition PacketRingBuffer_peek :: "'a PacketRingBuffer \<Rightarrow> 'a option" where
  "PacketRingBuffer_peek q =
     (if ring_is_empty q then None
      else if ring_head q < ring_cap q then ring_slots q ! ring_head q else None)"

text \<open>\<open>while self.pop().is_some() {}\<close>: every pop that returns an item lowers the length.\<close>

function clear_loop :: "'a PacketRingBuffer \<Rightarrow> 'a PacketRingBuffer" where
  "clear_loop q = (case PacketRingBuffer_pop q of (q1, Some x) \<Rightarrow> clear_loop q1 | (q1, None) \<Rightarrow> q1)"
  by pat_completeness auto
termination
  by (relation "measure ring_len") (auto simp: PacketRingBuffer_pop_def ring_take_def split: if_splits)

definition PacketRingBuffer_clear :: "'a PacketRingBuffer \<Rightarrow> 'a PacketRingBuffer" where
  "PacketRingBuffer_clear q = (clear_loop q)\<lparr>ring_head := 0, ring_tail := 0, ring_len := 0\<rparr>"

section \<open>Backpressure levels\<close>

datatype BackpressureLevel = Normal | Elevated | Saturated | Critical

definition BackpressureLevel_from_utilization :: "u32 \<Rightarrow> BackpressureLevel" where
  "BackpressureLevel_from_utilization pct =
     (if pct \<ge> 95 then Critical else if pct \<ge> 80 then Saturated
      else if pct \<ge> 60 then Elevated else Normal)"

fun level_rank :: "BackpressureLevel \<Rightarrow> u8" where
  "level_rank Normal = 0"
| "level_rank Elevated = 1"
| "level_rank Saturated = 2"
| "level_rank Critical = 3"

record BackpressureCoordinator =
  ingress_pct :: u32
  sim_pct :: u32
  egress_pct :: u32
  effective_level :: BackpressureLevel

definition BackpressureCoordinator_new :: BackpressureCoordinator where
  "BackpressureCoordinator_new =
     \<lparr>ingress_pct = 0, sim_pct = 0, egress_pct = 0, effective_level = Normal\<rparr>"

definition update_pipeline ::
  "u32 \<Rightarrow> u32 \<Rightarrow> u32 \<Rightarrow> BackpressureCoordinator \<Rightarrow> BackpressureCoordinator \<times> BackpressureLevel"
where
  "update_pipeline ingress sim egress c =
     (let i = min ingress 100; s = min sim 100; e = min egress 100;
          max_pct = max (max i s) e;
          level = BackpressureLevel_from_utilization max_pct
      in (c\<lparr>ingress_pct := i, sim_pct := s, egress_pct := e, effective_level := level\<rparr>, level))"

definition should_shed_horizon :: "BackpressureCoordinator \<Rightarrow> bool" where
  "should_shed_horizon c \<longleftrightarrow> level_rank (effective_level c) \<ge> level_rank Elevated"

definition should_shed_mid_range :: "BackpressureCoordinator \<Rightarrow> bool" where
  "should_shed_mid_range c \<longleftrightarrow> level_rank (effective_level c) \<ge> level_rank Saturated"

definition should_decimate_movement :: "BackpressureCoordinator \<Rightarrow> bool" where
  "should_decimate_movement c \<longleftrightarrow> level_rank (effective_level c) \<ge> level_rank Critical"

section \<open>Ingress and egress queues\<close>

record 'a PrioritizedPacket =
  pp_payload :: 'a
  pp_is_reliable :: bool
  pp_sequence :: u16

record BackpressureMetrics =
  reliable_enqueued :: u64
  unreliable_enqueued :: u64
  ingress_stale_dropped :: u64
  egress_unreliable_dropped :: u64
  saturation_events :: u64

definition BackpressureMetrics_default :: BackpressureMetrics where
  "BackpressureMetrics_default =
     \<lparr>reliable_enqueued = 0, unreliable_enqueued = 0, ingress_stale_dropped = 0,
      egress_unreliable_dropped = 0, saturation_events = 0\<rparr>"

text \<open>Both queues have these fields.\<close>

record 'a BoundedQueue = "'a PrioritizedPacket Ring" +
  bq_reliable_count :: nat
  bq_unreliable_count :: nat
  bq_metrics :: BackpressureMetrics

definition BoundedQueue_new :: "nat \<Rightarrow> 'a BoundedQueue" where
  "BoundedQueue_new CAP =
     \<lparr>ring_slots = replicate CAP None, ring_head = 0, ring_tail = 0, ring_len = 0,
      bq_reliable_count = 0, bq_unreliable_count = 0, bq_metrics = BackpressureMetrics_default\<rparr>"

definition utilization_pct :: "'a BoundedQueue \<Rightarrow> u32" where
  "utilization_pct q =
     (if ring_cap q = 0 then 100
      else ucast (((of_nat (ring_len q) :: u64) * 100) div of_nat (ring_cap q)))"

definition backpressure_level :: "'a BoundedQueue \<Rightarrow> BackpressureLevel" where
  "backpressure_level q = BackpressureLevel_from_utilization (utilization_pct q)"

definition BoundedQueue_pop :: "'a BoundedQueue \<Rightarrow> 'a BoundedQueue \<times> 'a PrioritizedPacket option" where
  "BoundedQueue_pop q =
     (case ring_take q of
        (q1, Some pkt) \<Rightarrow>
          (if pp_is_reliable pkt then q1\<lparr>bq_reliable_count := bq_reliable_count q1 - 1\<rparr>
           else q1\<lparr>bq_unreliable_count := bq_unreliable_count q1 - 1\<rparr>, Some pkt)
      | (q1, None) \<Rightarrow> (q1, None))"

text \<open>\<open>drain_into\<close>: the first \<open>count\<close> destination slots are overwritten by pops.\<close>

primrec drain_loop ::
  "nat \<Rightarrow> nat \<Rightarrow> 'a PrioritizedPacket option list \<Rightarrow> 'a BoundedQueue
    \<Rightarrow> 'a BoundedQueue \<times> 'a PrioritizedPacket option list"
where
  "drain_loop 0 i dest q = (q, dest)"
| "drain_loop (Suc n) i dest q =
     (case BoundedQueue_pop q of (q1, pkt) \<Rightarrow> drain_loop n (i + 1) (dest[i := pkt]) q1)"

definition BoundedQueue_drain_into ::
  "'a PrioritizedPacket option list \<Rightarrow> 'a BoundedQueue
    \<Rightarrow> 'a BoundedQueue \<times> 'a PrioritizedPacket option list \<times> nat"
where
  "BoundedQueue_drain_into dest q =
     (let count = min (length dest) (ring_len q) in
      case drain_loop count 0 dest q of (q1, dest1) \<Rightarrow> (q1, dest1, count))"

text \<open>The scan for the first unreliable packet from the head.\<close>

primrec find_unreliable :: "nat list \<Rightarrow> 'a BoundedQueue \<Rightarrow> nat option" where
  "find_unreliable [] q = None"
| "find_unreliable (i # is) q =
     (let idx = (ring_head q + i) mod ring_cap q in
      case (if idx < ring_cap q then ring_slots q ! idx else None) of
        Some pkt \<Rightarrow> if \<not> pp_is_reliable pkt then Some idx else find_unreliable is q
      | None \<Rightarrow> find_unreliable is q)"

text \<open>
  The loop that moves the packets behind the evicted one forward by one slot. It stops at the
  slot before the tail; \<open>None\<close> stands for a loop that never meets it.
\<close>

partial_function (option) shift_loop :: "nat \<Rightarrow> nat \<Rightarrow> 'a option list \<Rightarrow> 'a option list option" where
  "shift_loop cur stop slots =
     (if cur = stop then Some slots
      else
        let nxt = (cur + 1) mod length slots;
            next_val = (if nxt < length slots then slots ! nxt else None);
            slots1 = slots[nxt := None];
            slots2 = slots1[cur := next_val]
        in shift_loop nxt stop slots2)"

definition wrap_pred :: "nat \<Rightarrow> nat \<Rightarrow> nat" where
  "wrap_pred CAP i = (if i = 0 then CAP - 1 else i - 1)"

text \<open>The ingress and egress variants differ in the metric they bump on an eviction.\<close>

definition evict_oldest_unreliable ::
  "(BackpressureMetrics \<Rightarrow> BackpressureMetrics) \<Rightarrow> 'a BoundedQueue \<Rightarrow> 'a BoundedQueue option"
where
  "evict_oldest_unreliable bump q =
     (if bq_unreliable_count q = 0 \<or> ring_len q = 0 then Some q
      else case find_unreliable [0..<ring_len q] q of
        None \<Rightarrow> Some q
      | Some unreliable_pos \<Rightarrow>
          (let stop = wrap_pred (ring_cap q) (ring_tail q) in
           case shift_loop unreliable_pos stop (ring_slots q) of
             None \<Rightarrow> None
           | Some slots \<Rightarrow>
               Some (q\<lparr>ring_slots := slots[stop := None], ring_tail := stop,
                       ring_len := ring_len q - 1,
                       bq_unreliable_count := bq_unreliable_count q - 1,
                       bq_metrics := bump (bq_metrics q)\<rparr>)))"

definition bump_ingress_dropped :: "BackpressureMetrics \<Rightarrow> BackpressureMetrics" where
  "bump_ingress_dropped m = m\<lparr>ingress_stale_dropped := ingress_stale_dropped m + 1\<rparr>"

definition bump_egress_dropped :: "BackpressureMetrics \<Rightarrow> BackpressureMetrics" where
  "bump_egress_dropped m = m\<lparr>egress_unreliable_dropped := egress_unreliable_dropped m + 1\<rparr>"

definition count_reliable :: "'a BoundedQueue \<Rightarrow> 'a BoundedQueue" where
  "count_reliable q =
     q\<lparr>bq_reliable_count := bq_reliable_count q + 1,
       bq_metrics := (bq_metrics q)\<lparr>reliable_enqueued := reliable_enqueued (bq_metrics q) + 1\<rparr>\<rparr>"

definition count_unreliable :: "'a BoundedQueue \<Rightarrow> 'a BoundedQueue" where
  "count_unreliable q =
     q\<lparr>bq_unreliable_count := bq_unreliable_count q + 1,
       bq_metrics := (bq_metrics q)\<lparr>unreliable_enqueued := unreliable_enqueued (bq_metrics q) + 1\<rparr>\<rparr>"

definition count_saturation :: "'a BoundedQueue \<Rightarrow> 'a BoundedQueue" where
  "count_saturation q =
     q\<lparr>bq_metrics := (bq_metrics q)\<lparr>saturation_events := saturation_events (bq_metrics q) + 1\<rparr>\<rparr>"

definition BoundedIngressQueue_push ::
  "'a \<Rightarrow> bool \<Rightarrow> u16 \<Rightarrow> 'a BoundedQueue \<Rightarrow> ('a BoundedQueue \<times> (NetError + unit)) option"
where
  "BoundedIngressQueue_push payload is_reliable sequence q =
     (let packet = \<lparr>pp_payload = payload, pp_is_reliable = is_reliable, pp_sequence = sequence\<rparr> in
      if is_reliable
      then
        (if ring_is_full q
         then
           (if bq_unreliable_count q > 0
            then (case evict_oldest_unreliable bump_ingress_dropped q of
                    None \<Rightarrow> None
                  | Some q1 \<Rightarrow> Some (count_reliable (enqueue_tail packet q1), Inr ()))
            else Some (count_saturation q, Inl QueueFull))
         else Some (count_reliable (enqueue_tail packet q), Inr ()))
      else
        (if ring_is_full q \<or> utilization_pct q \<ge> 95
         then Some (count_saturation (q\<lparr>bq_metrics := bump_ingress_dropped (bq_metrics q)\<rparr>), Inl QueueFull)
         else Some (count_unreliable (enqueue_tail packet q), Inr ())))"

definition egress_enqueue ::
  "'a PrioritizedPacket \<Rightarrow> 'a BoundedQueue \<Rightarrow> 'a BoundedQueue \<times> (NetError + unit)"
where
  "egress_enqueue packet q =
     (if ring_tail q < ring_cap q
      then (if pp_is_reliable packet then count_reliable (enqueue_tail packet q)
            else count_unreliable (enqueue_tail packet q), Inr ())
      else (q, Inl QueueFull))"

definition BoundedEgressQueue_push ::
  "'a \<Rightarrow> bool \<Rightarrow> u16 \<Rightarrow> 'a BoundedQueue \<Rightarrow> ('a BoundedQueue \<times> (NetError + unit)) option"
where
  "BoundedEgressQueue_push payload is_reliable sequence q =
     (let packet = \<lparr>pp_payload = payload, pp_is_reliable = is_reliable, pp_sequence = sequence\<rparr> in
      if ring_is_full q
      then
        (if bq_unreliable_count q > 0
         then (case evict_oldest_unreliable (\<lambda>m. m) q of
                 None \<Rightarrow> None
               | Some q1 \<Rightarrow>
                   Some (egress_enqueue packet (q1\<lparr>bq_metrics := bump_egress_dropped (bq_metrics q1)\<rparr>)))
         else Some (count_saturation q, Inl QueueFull))
      else Some (egress_enqueue packet q))"

section \<open>The ring as a list\<close>

abbreviation ring_pos :: "('a, 'z) Ring_scheme \<Rightarrow> nat \<Rightarrow> nat" where
  "ring_pos q i \<equiv> (ring_head q + i) mod ring_cap q"

definition ring_items :: "('a, 'z) Ring_scheme \<Rightarrow> 'a list" where
  "ring_items q = map (\<lambda>i. the (ring_slots q ! ring_pos q i)) [0..<ring_len q]"

definition ring_wf :: "('a, 'z) Ring_scheme \<Rightarrow> bool" where
  "ring_wf q \<longleftrightarrow> ring_len q \<le> ring_cap q \<and> (0 < ring_cap q \<longrightarrow> ring_head q < ring_cap q)
     \<and> (0 < ring_cap q \<longrightarrow> ring_tail q = ring_pos q (ring_len q))
     \<and> (\<forall>i < ring_cap q. ring_slots q ! ring_pos q i \<noteq> None \<longleftrightarrow> i < ring_len q)"

lemma length_ring_items [simp]: "length (ring_items q) = ring_len q"
  by (simp add: ring_items_def)

lemma ring_items_Nil: "ring_items q = [] \<longleftrightarrow> ring_len q = 0"
  by (metis length_0_conv length_ring_items)

lemma enqueue_tail_spec:
  assumes "ring_wf q" "ring_len q < ring_cap q"
  shows "ring_wf (enqueue_tail x q)" and "ring_items (enqueue_tail x q) = ring_items q @ [x]"
    and "ring_cap (enqueue_tail x q) = ring_cap q" and "ring_len (enqueue_tail x q) = ring_len q + 1"
    and "ring_tail q < ring_cap q"
proof -
  let ?c = "ring_cap q" and ?n = "ring_len q"
  have c: "0 < ?c" using assms(2) by linarith
  have t: "ring_tail q = ring_pos q ?n" using assms c by (simp add: ring_wf_def)
  then show tail: "ring_tail q < ?c" using c by simp
  have e: "enqueue_tail x q = q\<lparr>ring_slots := (ring_slots q)[ring_pos q ?n := Some x],
      ring_tail := (ring_pos q ?n + 1) mod ?c, ring_len := ?n + 1\<rparr>"
    using tail t by (simp add: enqueue_tail_def)
  show "ring_cap (enqueue_tail x q) = ?c" "ring_len (enqueue_tail x q) = ?n + 1" by (simp_all add: e)
  have at: "(ring_slots q)[ring_pos q ?n := Some x] ! ring_pos q i =
      (if i = ?n then Some x else ring_slots q ! ring_pos q i)" if "i < ?c" for i
    using that assms(2) c by (simp add: nth_list_update ring_pos_eq)
  show "ring_wf (enqueue_tail x q)"
    using assms c at unfolding e ring_wf_def by (auto simp: mod_Suc_eq)
  show "ring_items (enqueue_tail x q) = ring_items q @ [x]"
    using assms(2) at unfolding e ring_items_def by simp
qed

lemma ring_take_spec:
  assumes "ring_wf q" "0 < ring_len q"
  obtains x q' where "ring_take q = (q', Some x)" "ring_wf q'" "ring_items q = x # ring_items q'"
    "ring_len q' = ring_len q - 1" "ring_cap q' = ring_cap q"
    "q' = q\<lparr>ring_slots := (ring_slots q)[ring_head q := None],
            ring_head := (ring_head q + 1) mod ring_cap q, ring_len := ring_len q - 1\<rparr>"
proof -
  let ?c = "ring_cap q" and ?n = "ring_len q" and ?h = "ring_head q"
  have c: "0 < ?c" "?n \<le> ?c" and h: "?h < ?c" using assms by (auto simp: ring_wf_def)
  have slot: "i < ?c \<Longrightarrow> ring_slots q ! ring_pos q i \<noteq> None \<longleftrightarrow> i < ?n" for i
    using assms(1) by (simp add: ring_wf_def)
  have h0: "ring_pos q 0 = ?h" using h by simp
  obtain x where x: "ring_slots q ! ?h = Some x" using slot [of 0] c(1) assms(2) h0 by auto
  let ?q = "q\<lparr>ring_slots := (ring_slots q)[?h := None], ring_head := (?h + 1) mod ?c, ring_len := ?n - 1\<rparr>"
  have take: "ring_take q = (?q, Some x)" using assms(2) h x by (simp add: ring_take_def)
  have pos: "ring_pos ?q i = (?h + Suc i) mod ?c" for i by (simp add: mod_add_left_eq)
  have at: "(ring_slots q)[?h := None] ! ((?h + Suc i) mod ?c) =
      (if Suc i = ?c then None else ring_slots q ! ring_pos q (Suc i))" if "i < ?c" for i
  proof (cases "Suc i = ?c")
    case True
    then have "(?h + Suc i) mod ?c = ?h" using h by simp
    then show ?thesis using True h by simp
  next
    case False
    then have "Suc i < ?c" using that by simp
    then have "(?h + Suc i) mod ?c \<noteq> ?h" using ring_pos_eq [of "Suc i" ?c 0 ?h] h0 c by simp
    then show ?thesis using False h by simp
  qed
  have "ring_slots ?q ! ring_pos ?q i \<noteq> None \<longleftrightarrow> i < ring_len ?q" if "i < ?c" for i
  proof -
    have "ring_slots ?q ! ring_pos ?q i = (if Suc i = ?c then None else ring_slots q ! ring_pos q (Suc i))"
      unfolding pos using at [OF that] by simp
    moreover have "Suc i \<noteq> ?c \<Longrightarrow> ring_slots q ! ring_pos q (Suc i) \<noteq> None \<longleftrightarrow> Suc i < ?n"
      using slot [of "Suc i"] that by simp
    ultimately show ?thesis using that c(2) by auto
  qed
  moreover have "ring_tail ?q = ring_pos ?q (ring_len ?q)"
    using assms c(1) unfolding pos by (simp add: ring_wf_def)
  ultimately have wf: "ring_wf ?q" using c h by (simp add: ring_wf_def)
  have "[0..<?n] = 0 # map Suc [0..<?n - 1]" using assms(2) by (simp add: upt_conv_Cons map_Suc_upt)
  then have items: "ring_items q = x # ring_items ?q"
    using c h0 x at assms(2) unfolding ring_items_def pos by (auto simp: comp_def)
  show thesis by (rule that [OF take wf items]) simp_all
qed

section \<open>Eviction\<close>

text \<open>On lists, an eviction removes the first item that fails the reliability test.\<close>

primrec drop_first :: "('a \<Rightarrow> bool) \<Rightarrow> 'a list \<Rightarrow> 'a list" where
  "drop_first P [] = []"
| "drop_first P (x # xs) = (if P x then xs else x # drop_first P xs)"

lemma drop_first_split:
  "find_index P xs = Some j \<Longrightarrow> drop_first P xs = take j xs @ drop (Suc j) xs"
  by (induction xs arbitrary: j) (auto split: if_splits)

lemma filter_drop_first [simp]: "filter (\<lambda>x. \<not> P x) (drop_first P xs) = filter (\<lambda>x. \<not> P x) xs"
  by (induction xs) auto

lemma filter_drop_first_P: "filter P (drop_first P xs) = tl (filter P xs)"
  by (induction xs) auto

lemma subseq_drop_first: "subseq (drop_first P xs) xs"
  by (induction xs) auto

lemma shift_loop_spec:
  "j \<le> m \<Longrightarrow> m < length slots \<Longrightarrow>
    \<exists>slots'. shift_loop ((h + j) mod length slots) ((h + m) mod length slots) slots = Some slots'
      \<and> length slots' = length slots
      \<and> (\<forall>i < length slots. slots' ! ((h + i) mod length slots) =
           (if j \<le> i \<and> i < m then slots ! ((h + Suc i) mod length slots)
            else if i = m \<and> j < m then None else slots ! ((h + i) mod length slots)))"
proof (induction "m - j" arbitrary: j slots)
  case 0
  then show ?case by (subst shift_loop.simps) auto
next
  case (Suc d)
  let ?c = "length slots"
  have c: "0 < ?c" "j < m" "Suc j < ?c" "j < ?c" using Suc.hyps(2) Suc.prems by linarith+
  have ne: "(h + j) mod ?c \<noteq> (h + m) mod ?c" using c Suc.prems by (simp add: ring_pos_eq)
  have nxt: "((h + j) mod ?c + 1) mod ?c = (h + Suc j) mod ?c" by (simp add: mod_Suc_eq)
  let ?s = "slots[(h + Suc j) mod ?c := None, (h + j) mod ?c := slots ! ((h + Suc j) mod ?c)]"
  have step: "shift_loop ((h + j) mod ?c) ((h + m) mod ?c) slots
      = shift_loop ((h + Suc j) mod ?c) ((h + m) mod ?c) ?s"
    using ne c(1) by (subst shift_loop.simps) (simp only: Let_def nxt if_False if_True mod_less_divisor)
  have at: "?s ! ((h + i) mod ?c) = (if i = j then slots ! ((h + Suc j) mod ?c)
      else if i = Suc j then None else slots ! ((h + i) mod ?c))" if "i < ?c" for i
    using that c by (simp add: nth_list_update ring_pos_eq del: add_Suc_right)
  have "d = m - Suc j" "Suc j \<le> m" "m < length ?s" using Suc.hyps(2) c Suc.prems by simp_all
  from Suc.hyps(1) [OF this] obtain slots' where s':
    "shift_loop ((h + Suc j) mod ?c) ((h + m) mod ?c) ?s = Some slots'" "length slots' = ?c"
    "\<forall>i < ?c. slots' ! ((h + i) mod ?c) =
           (if Suc j \<le> i \<and> i < m then ?s ! ((h + Suc i) mod ?c)
            else if i = m \<and> Suc j < m then None else ?s ! ((h + i) mod ?c))"
    by auto
  have "slots' ! ((h + i) mod ?c) = (if j \<le> i \<and> i < m then slots ! ((h + Suc i) mod ?c)
      else if i = m \<and> j < m then None else slots ! ((h + i) mod ?c))" if "i < ?c" for i
  proof (cases "Suc j \<le> i \<and> i < m")
    case True
    then have "Suc i < ?c" using Suc.prems by simp
    then show ?thesis using s'(3) that at [of "Suc i"] True by (simp del: add_Suc_right)
  next
    case False
    then have m: "i = Suc j \<Longrightarrow> m = Suc j" using c by linarith
    have k: "j \<le> i \<and> i < m \<longleftrightarrow> i = j" using False c by auto
    show ?thesis
      using s'(3) [rule_format, OF that] at [OF that] False c m k
      by (cases "i = j"; cases "i = Suc j") (auto simp del: add_Suc_right)
  qed
  then show ?case using step s' by auto
qed

lemma ring_slot_items:
  "ring_wf q \<Longrightarrow> i < ring_len q \<Longrightarrow> ring_slots q ! ring_pos q i = Some (ring_items q ! i)"
  by (auto simp: ring_wf_def ring_items_def)

lemma find_unreliable_eq:
  assumes "ring_wf q"
  shows "find_unreliable [0..<ring_len q] q =
    map_option (ring_pos q) (find_index (\<lambda>p. \<not> pp_is_reliable p) (ring_items q))"
proof -
  have "find_unreliable is q = map_option (\<lambda>k. ring_pos q (is ! k))
      (find_index (\<lambda>i. \<not> pp_is_reliable (ring_items q ! i)) is)" if "\<forall>i\<in>set is. i < ring_len q" for "is"
    using that
  proof (induction "is")
    case (Cons i "is")
    have "ring_pos q i < ring_cap q"
    proof (rule mod_less_divisor)
      show "0 < ring_cap q" using Cons.prems assms unfolding ring_wf_def by force
    qed
    then show ?case
      using Cons ring_slot_items [OF assms, of i] by (simp add: Let_def option.map_comp comp_def)
  qed simp
  then have "find_unreliable [0..<ring_len q] q = map_option (\<lambda>k. ring_pos q ([0..<ring_len q] ! k))
      (find_index (\<lambda>i. \<not> pp_is_reliable (ring_items q ! i)) [0..<ring_len q])" by simp
  moreover have "find_index (\<lambda>i. \<not> pp_is_reliable (ring_items q ! i)) [0..<ring_len q]
      = find_index (\<lambda>p. \<not> pp_is_reliable p) (ring_items q)"
    using find_index_map [of "\<lambda>p. \<not> pp_is_reliable p" "nth (ring_items q)" "[0..<length (ring_items q)]"]
    unfolding map_nth by simp
  moreover have "k < ring_len q" if "find_index P (ring_items q) = Some k" for P k
    using find_index_less [OF that] by simp
  ultimately show ?thesis
    by (cases "find_index (\<lambda>p. \<not> pp_is_reliable p) (ring_items q)") simp_all
qed

definition bq_wf :: "'a BoundedQueue \<Rightarrow> bool" where
  "bq_wf q \<longleftrightarrow> ring_wf q \<and> bq_reliable_count q = length (filter pp_is_reliable (ring_items q))
     \<and> bq_unreliable_count q = length (filter (\<lambda>p. \<not> pp_is_reliable p) (ring_items q))"

lemma wrap_pred_tail:
  assumes "ring_wf q" "0 < ring_len q"
  shows "wrap_pred (ring_cap q) (ring_tail q) = ring_pos q (ring_len q - 1)"
proof -
  have c: "0 < ring_cap q" "ring_tail q = ring_pos q (ring_len q)"
    using assms by (auto simp: ring_wf_def)
  have "Suc (ring_pos q (ring_len q - 1)) mod ring_cap q = ring_tail q"
    using assms(2) c by (simp add: mod_Suc_eq)
  moreover have "ring_pos q (ring_len q - 1) < ring_cap q" using c(1) by (rule mod_less_divisor)
  ultimately show ?thesis
    unfolding wrap_pred_def by (auto simp: mod_Suc split: if_splits)
qed

lemma evict_spec:
  assumes "bq_wf q" "0 < bq_unreliable_count q"
  obtains q' where "evict_oldest_unreliable bump q = Some q'" "bq_wf q'"
    "ring_items q' = drop_first (\<lambda>p. \<not> pp_is_reliable p) (ring_items q)"
    "ring_cap q' = ring_cap q" "ring_len q' = ring_len q - 1" "0 < ring_len q"
    "bq_unreliable_count q' = bq_unreliable_count q - 1"
proof -
  let ?U = "\<lambda>p. \<not> pp_is_reliable p" and ?c = "ring_cap q" and ?n = "ring_len q"
  have wf: "ring_wf q" using assms(1) by (simp add: bq_wf_def)
  have "filter ?U (ring_items q) \<noteq> []" using assms by (auto simp: bq_wf_def)
  then obtain j where j: "find_index ?U (ring_items q) = Some j"
    by (metis (no_types, lifting) filter_False find_index_None_iff option.exhaust)
  have jn: "j < ?n" using find_index_less [OF j] by simp
  then have n: "0 < ?n" "?n \<le> ?c" using wf by (auto simp: ring_wf_def)
  have stop: "wrap_pred ?c (ring_tail q) = ring_pos q (?n - 1)" using wrap_pred_tail [OF wf n(1)] .
  have "j \<le> ?n - 1" "?n - 1 < length (ring_slots q)" using jn n by linarith+
  from shift_loop_spec [OF this, of "ring_head q"] obtain slots where slots:
    "shift_loop (ring_pos q j) (ring_pos q (?n - 1)) (ring_slots q) = Some slots" "length slots = ?c"
    "\<And>i. i < ?c \<Longrightarrow> slots ! ring_pos q i = (if j \<le> i \<and> i < ?n - 1 then ring_slots q ! ring_pos q (Suc i)
       else if i = ?n - 1 \<and> j < ?n - 1 then None else ring_slots q ! ring_pos q i)" by auto
  let ?slots = "slots[ring_pos q (?n - 1) := None]"
  let ?q = "q\<lparr>ring_slots := ?slots, ring_tail := ring_pos q (?n - 1), ring_len := ?n - 1,
    bq_unreliable_count := bq_unreliable_count q - 1, bq_metrics := bump (bq_metrics q)\<rparr>"
  have ev: "evict_oldest_unreliable bump q = Some ?q"
    using assms(2) n(1) slots(1) by (simp add: evict_oldest_unreliable_def find_unreliable_eq [OF wf] j Let_def stop)
  have at: "?slots ! ring_pos q i = (if j \<le> i \<and> i < ?n - 1 then ring_slots q ! ring_pos q (Suc i)
       else if i = ?n - 1 then None else ring_slots q ! ring_pos q i)" if "i < ?c" for i
  proof (cases "i = ?n - 1")
    case True
    have "ring_pos q (?n - 1) < length slots" unfolding slots(2) by (rule mod_less_divisor) (use n in linarith)
    then have "?slots ! ring_pos q (?n - 1) = None" by (rule nth_list_update_eq)
    then show ?thesis unfolding True by simp
  next
    case False
    then have "ring_pos q (?n - 1) \<noteq> ring_pos q i" using that n by (subst ring_pos_eq) auto
    then have "?slots ! ring_pos q i = slots ! ring_pos q i" by (rule nth_list_update_neq)
    then show ?thesis using slots(3) [OF that] False by simp
  qed
  have old: "ring_slots q ! ring_pos q i \<noteq> None \<longleftrightarrow> i < ?n" if "i < ?c" for i
    using wf that by (simp add: ring_wf_def)
  have items: "ring_items ?q = drop_first ?U (ring_items q)"
  proof (rule nth_equalityI)
    show l: "length (ring_items ?q) = length (drop_first ?U (ring_items q))"
      using jn by (simp add: drop_first_split [OF j])
    fix i assume "i < length (ring_items ?q)"
    then have i: "i < ?n - 1" by simp
    then have "ring_items ?q ! i = the (?slots ! ring_pos q i)"
      using slots(2) by (simp add: ring_items_def)
    also have "\<dots> = (if j \<le> i then ring_items q ! Suc i else ring_items q ! i)"
      using at [of i] i n ring_slot_items [OF wf, of "Suc i"] ring_slot_items [OF wf, of i] by simp
    also have "\<dots> = drop_first ?U (ring_items q) ! i"
      using i jn unfolding drop_first_split [OF j] by (simp add: nth_append min_def)
    finally show "ring_items ?q ! i = drop_first ?U (ring_items q) ! i" .
  qed
  have "?slots ! ring_pos q i \<noteq> None \<longleftrightarrow> i < ?n - 1" if "i < ?c" for i
    using at [OF that] old [of i] old [of "Suc i"] that n jn by auto
  then have wf': "ring_wf ?q" using wf n slots(2) by (simp add: ring_wf_def)
  have "length (filter ?U (ring_items ?q)) = bq_unreliable_count q - 1"
    "filter pp_is_reliable (ring_items ?q) = filter pp_is_reliable (ring_items q)"
    using assms(1) filter_drop_first [of ?U "ring_items q"]
    unfolding items filter_drop_first_P by (simp_all add: bq_wf_def)
  then have "bq_wf ?q" using wf' assms(1) by (simp add: bq_wf_def ring_items_def)
  then show thesis using that [OF ev _ items] n slots(2) by simp
qed

section \<open>What a client of a queue relies on\<close>

text \<open>A history of calls: what was accepted and what was delivered, in order.\<close>

datatype 'p queue_op = Push 'p | Pop

fun run_ops ::
  "('p \<Rightarrow> 'q \<Rightarrow> ('q \<times> (NetError + unit)) option) \<Rightarrow> ('q \<Rightarrow> 'q \<times> 'p option) \<Rightarrow> 'p queue_op list
    \<Rightarrow> 'q \<Rightarrow> ('q \<times> 'p list \<times> 'p list) option"
where
  "run_ops push pop [] q = Some (q, [], [])"
| "run_ops push pop (Push p # ops) q =
     (case push p q of
        None \<Rightarrow> None
      | Some (q1, Inl e) \<Rightarrow> run_ops push pop ops q1
      | Some (q1, Inr _) \<Rightarrow>
          map_option (\<lambda>(q2, acc, del). (q2, p # acc, del)) (run_ops push pop ops q1))"
| "run_ops push pop (Pop # ops) q =
     (case pop q of
        (q1, None) \<Rightarrow> run_ops push pop ops q1
      | (q1, Some p) \<Rightarrow> map_option (\<lambda>(q2, acc, del). (q2, acc, p # del)) (run_ops push pop ops q1))"

locale priority_fifo =
  fixes push :: "'p \<Rightarrow> 'q \<Rightarrow> ('q \<times> (NetError + unit)) option"
    and pop :: "'q \<Rightarrow> 'q \<times> 'p option"
    and wf :: "'q \<Rightarrow> bool"
    and items :: "'q \<Rightarrow> 'p list"
    and cap :: "'q \<Rightarrow> nat"
    and reliable :: "'p \<Rightarrow> bool"
  assumes push_total: "wf q \<Longrightarrow> \<exists>q' r. push p q = Some (q', r)"
    and push_wf: "wf q \<Longrightarrow> push p q = Some (q', r) \<Longrightarrow> wf q' \<and> cap q' = cap q"
    and push_ok: "wf q \<Longrightarrow> push p q = Some (q', Inr u) \<Longrightarrow>
      filter reliable (items q') = filter reliable (items q @ [p]) \<and> subseq (items q') (items q @ [p])"
    and push_err: "wf q \<Longrightarrow> push p q = Some (q', Inl e) \<Longrightarrow> items q' = items q"
    and pop_wf: "wf q \<Longrightarrow> pop q = (q', x) \<Longrightarrow> wf q' \<and> cap q' = cap q"
    and pop_some: "wf q \<Longrightarrow> pop q = (q', Some p) \<Longrightarrow> items q = p # items q'"
    and pop_none: "wf q \<Longrightarrow> pop q = (q', None) \<Longrightarrow> items q = [] \<and> items q' = []"
    and bounded: "wf q \<Longrightarrow> length (items q) \<le> cap q"
begin

lemma run_total: "wf q \<Longrightarrow> \<exists>q' acc del. run_ops push pop ops q = Some (q', acc, del)"
proof (induction ops arbitrary: q)
  case (Cons oper ops)
  show ?case
  proof (cases oper)
    case (Push p)
    obtain q1 r where q1: "push p q = Some (q1, r)" using push_total [OF Cons.prems] by blast
    then obtain q' acc del where "run_ops push pop ops q1 = Some (q', acc, del)"
      using Cons.IH push_wf [OF Cons.prems q1] by blast
    with q1 show ?thesis by (cases r) (simp_all add: Push)
  next
    case Pop
    obtain q1 r where q1: "pop q = (q1, r)" by fastforce
    then obtain q' acc del where "run_ops push pop ops q1 = Some (q', acc, del)"
      using Cons.IH pop_wf [OF Cons.prems q1] by blast
    with q1 show ?thesis by (cases r) (simp_all add: Pop)
  qed
qed simp

text \<open>
  Along any history the delivered items followed by the stored ones are a subsequence of what was
  stored and accepted, and the reliable ones among them are exactly the reliable ones accepted.
\<close>

lemma run_reliable:
  "wf q \<Longrightarrow> run_ops push pop ops q = Some (q', acc, del) \<Longrightarrow>
    wf q' \<and> cap q' = cap q \<and> filter reliable (del @ items q') = filter reliable (items q @ acc)
    \<and> subseq (del @ items q') (items q @ acc)"
proof (induction ops arbitrary: q q' acc del)
  case (Cons oper ops)
  show ?case
  proof (cases oper)
    case (Push p)
    obtain q1 r where q1: "push p q = Some (q1, r)" using push_total [OF Cons.prems(1)] by blast
    note wf1 = push_wf [OF Cons.prems(1) q1]
    show ?thesis
    proof (cases r)
      case (Inl e)
      then show ?thesis
        using Cons.IH [of q1 q' acc del] Cons.prems wf1 q1 push_err [OF Cons.prems(1), of p q1 e]
        by (simp add: Push)
    next
      case (Inr u)
      then obtain acc1 where acc: "acc = p # acc1" "run_ops push pop ops q1 = Some (q', acc1, del)"
        using Cons.prems(2) q1 by (auto simp: Push)
      have ok: "filter reliable (items q1) = filter reliable (items q @ [p])" "subseq (items q1) (items q @ [p])"
        using push_ok [OF Cons.prems(1)] q1 Inr by auto
      have "subseq (items q1 @ acc1) ((items q @ [p]) @ acc1)" using ok(2) by (rule list_emb_append_mono) simp
      then show ?thesis
        using Cons.IH [OF _ acc(2)] wf1 ok(1) subseq_order.order_trans by (fastforce simp: acc(1))
    qed
  next
    case Pop
    obtain q1 r where q1: "pop q = (q1, r)" by fastforce
    note wf1 = pop_wf [OF Cons.prems(1) q1]
    show ?thesis
    proof (cases r)
      case None
      then show ?thesis
        using Cons.IH [of q1 q' acc del] Cons.prems wf1 q1 pop_none [OF Cons.prems(1)] by (simp add: Pop)
    next
      case (Some p)
      then obtain del1 where del: "del = p # del1" "run_ops push pop ops q1 = Some (q', acc, del1)"
        using Cons.prems(2) q1 by (auto simp: Pop)
      have "items q = p # items q1" using pop_some [OF Cons.prems(1)] q1 Some by simp
      then show ?thesis using Cons.IH [OF _ del(2)] wf1 by (simp add: del(1))
    qed
  qed
qed simp

end

section \<open>The three queues meet the contract\<close>

lemma ring_take_cases:
  assumes "ring_wf q" "ring_take q = (q', r)"
  shows "ring_wf q' \<and> ring_cap q' = ring_cap q
    \<and> (case r of Some p \<Rightarrow> ring_items q = p # ring_items q' | None \<Rightarrow> ring_items q = [] \<and> q' = q)"
proof (cases "ring_len q = 0")
  case True
  then show ?thesis using assms by (auto simp: ring_take_def ring_items_Nil)
next
  case False
  then have "0 < ring_len q" by simp
  from ring_take_spec [OF assms(1) this] obtain x q1 where "ring_take q = (q1, Some x)" "ring_wf q1"
    "ring_items q = x # ring_items q1" "ring_cap q1 = ring_cap q" by metis
  then show ?thesis using assms(2) by simp
qed

lemma PacketRingBuffer_push_spec:
  assumes "ring_wf q"
  shows "PacketRingBuffer_push x q =
    (if ring_len q < ring_cap q then (enqueue_tail x q, Inr ()) else (q, Inl QueueFull))"
  using assms enqueue_tail_spec(5) [OF assms]
  by (auto simp: PacketRingBuffer_push_def ring_is_full_def ring_wf_def)

interpretation packets: priority_fifo "\<lambda>x q. Some (PacketRingBuffer_push x q)" PacketRingBuffer_pop
  ring_wf ring_items ring_cap "\<lambda>_. True"
proof
  fix q q' :: "'a PacketRingBuffer" and p e u and r :: "'a option"
  assume wf: "ring_wf q"
  show "\<exists>q' r. Some (PacketRingBuffer_push p q) = Some (q', r)" by (simp add: surj_pair)
  {
    fix r :: "NetError + unit"
    assume "Some (PacketRingBuffer_push p q) = Some (q', r)"
    then show "ring_wf q' \<and> ring_cap q' = ring_cap q"
      using wf enqueue_tail_spec(1,3) [OF wf] by (auto simp: PacketRingBuffer_push_spec split: if_splits)
  }
  {
    assume "Some (PacketRingBuffer_push p q) = Some (q', Inr u)"
    then show "filter (\<lambda>_. True) (ring_items q') = filter (\<lambda>_. True) (ring_items q @ [p])
        \<and> subseq (ring_items q') (ring_items q @ [p])"
      using wf enqueue_tail_spec(2) [OF wf] by (auto simp: PacketRingBuffer_push_spec split: if_splits)
  }
  {
    assume "Some (PacketRingBuffer_push p q) = Some (q', Inl e)"
    then show "ring_items q' = ring_items q"
      using wf by (auto simp: PacketRingBuffer_push_spec split: if_splits)
  }
  {
    assume "PacketRingBuffer_pop q = (q', r)"
    then show "ring_wf q' \<and> ring_cap q' = ring_cap q"
      using ring_take_cases [OF wf] by (simp add: PacketRingBuffer_pop_def)
  }
  {
    assume "PacketRingBuffer_pop q = (q', Some p)"
    then show "ring_items q = p # ring_items q'"
      using ring_take_cases [OF wf] by (fastforce simp: PacketRingBuffer_pop_def)
  }
  {
    assume "PacketRingBuffer_pop q = (q', None)"
    then show "ring_items q = [] \<and> ring_items q' = []"
      using ring_take_cases [OF wf] by (fastforce simp: PacketRingBuffer_pop_def)
  }
  show "length (ring_items q) \<le> ring_cap q" using wf by (simp add: ring_wf_def)
qed

lemma ring_counts [simp]:
  "ring_items (q\<lparr>bq_metrics := m\<rparr>) = ring_items q" "ring_wf (q\<lparr>bq_metrics := m\<rparr>) = ring_wf q"
  "ring_items (q\<lparr>bq_reliable_count := k\<rparr>) = ring_items q" "ring_wf (q\<lparr>bq_reliable_count := k\<rparr>) = ring_wf q"
  "ring_items (q\<lparr>bq_unreliable_count := k\<rparr>) = ring_items q" "ring_wf (q\<lparr>bq_unreliable_count := k\<rparr>) = ring_wf q"
  by (simp_all add: ring_items_def ring_wf_def)

lemma enqueue_counts [simp]:
  "bq_reliable_count (enqueue_tail x q) = bq_reliable_count q"
  "bq_unreliable_count (enqueue_tail x q) = bq_unreliable_count q"
  by (simp_all add: enqueue_tail_def)

lemma bq_wf_metrics [simp]: "bq_wf (q\<lparr>bq_metrics := m\<rparr>) = bq_wf q"
  by (simp add: bq_wf_def)

text \<open>A packet that found room, with its counters.\<close>

definition admit :: "'a PrioritizedPacket \<Rightarrow> 'a BoundedQueue \<Rightarrow> 'a BoundedQueue" where
  "admit p q = (if pp_is_reliable p then count_reliable (enqueue_tail p q) else count_unreliable (enqueue_tail p q))"

lemma admit_spec:
  assumes "bq_wf q" "ring_len q < ring_cap q"
  shows "bq_wf (admit p q)" "ring_items (admit p q) = ring_items q @ [p]" "ring_cap (admit p q) = ring_cap q"
proof -
  note e = enqueue_tail_spec(1-3) [of q p]
  have wf: "ring_wf q" using assms(1) by (simp add: bq_wf_def)
  show items: "ring_items (admit p q) = ring_items q @ [p]"
    using e(2) [OF wf assms(2)] by (simp add: admit_def count_reliable_def count_unreliable_def)
  have "ring_wf (admit p q)"
    using e(1) [OF wf assms(2)] by (simp add: admit_def count_reliable_def count_unreliable_def)
  with items show "bq_wf (admit p q)"
    using assms(1) by (auto simp: bq_wf_def admit_def count_reliable_def count_unreliable_def)
  show "ring_cap (admit p q) = ring_cap q"
    using e(3) [OF wf assms(2)] by (simp add: admit_def count_reliable_def count_unreliable_def)
qed

text \<open>The list each push leaves: the common policy when room has to be made.\<close>

abbreviation unreliable :: "'a PrioritizedPacket \<Rightarrow> bool" where
  "unreliable p \<equiv> \<not> pp_is_reliable p"

definition ingress_policy ::
  "nat \<Rightarrow> 'a PrioritizedPacket \<Rightarrow> 'a PrioritizedPacket list \<Rightarrow> bool \<Rightarrow> 'a PrioritizedPacket list option"
where
  "ingress_policy CAP p xs critical =
     (if unreliable p then (if length xs = CAP \<or> critical then None else Some (xs @ [p]))
      else if length xs < CAP then Some (xs @ [p])
      else if \<exists>x\<in>set xs. unreliable x then Some (drop_first unreliable xs @ [p]) else None)"

definition egress_policy ::
  "nat \<Rightarrow> 'a PrioritizedPacket \<Rightarrow> 'a PrioritizedPacket list \<Rightarrow> 'a PrioritizedPacket list option"
where
  "egress_policy CAP p xs =
     (if length xs < CAP then Some (xs @ [p])
      else if \<exists>x\<in>set xs. unreliable x then Some (drop_first unreliable xs @ [p]) else None)"

definition ingress_push :: "'a PrioritizedPacket \<Rightarrow> 'a BoundedQueue \<Rightarrow> ('a BoundedQueue \<times> (NetError + unit)) option" where
  "ingress_push p q = BoundedIngressQueue_push (pp_payload p) (pp_is_reliable p) (pp_sequence p) q"

definition egress_push :: "'a PrioritizedPacket \<Rightarrow> 'a BoundedQueue \<Rightarrow> ('a BoundedQueue \<times> (NetError + unit)) option" where
  "egress_push p q = BoundedEgressQueue_push (pp_payload p) (pp_is_reliable p) (pp_sequence p) q"

lemma unreliable_count_iff:
  "bq_wf q \<Longrightarrow> 0 < bq_unreliable_count q \<longleftrightarrow> (\<exists>x\<in>set (ring_items q). unreliable x)"
  by (auto simp: bq_wf_def filter_empty_conv)

text \<open>A push is its policy on lists: accepted with the list the policy gives, or refused unchanged.\<close>

definition follows ::
  "'a BoundedQueue \<Rightarrow> 'a PrioritizedPacket list option \<Rightarrow> ('a BoundedQueue \<times> (NetError + unit)) option \<Rightarrow> bool"
where
  "follows q policy result \<longleftrightarrow>
     (\<exists>q' r. result = Some (q', r) \<and> bq_wf q' \<and> ring_cap q' = ring_cap q
        \<and> (case policy of Some xs \<Rightarrow> r = Inr () \<and> ring_items q' = xs
           | None \<Rightarrow> r = Inl QueueFull \<and> ring_items q' = ring_items q))"

lemma full_iff: "ring_wf q \<Longrightarrow> ring_is_full q \<longleftrightarrow> \<not> ring_len q < ring_cap q"
  by (auto simp: ring_is_full_def ring_wf_def)

lemma follows_saturated: "bq_wf q \<Longrightarrow> bq_wf q' \<Longrightarrow> ring_items q' = ring_items q \<Longrightarrow> ring_cap q' = ring_cap q \<Longrightarrow>
    follows q None (Some (q', Inl QueueFull))"
  by (simp add: follows_def)

lemma follows_admit: "bq_wf q \<Longrightarrow> ring_len q < ring_cap q \<Longrightarrow>
    follows q (Some (ring_items q @ [p])) (Some (admit p q, Inr ()))"
  by (simp add: follows_def admit_spec)

lemma evict_admit:
  assumes "bq_wf q" "\<exists>x\<in>set (ring_items q). unreliable x"
  obtains q1 where "evict_oldest_unreliable bump q = Some q1" "bq_wf q1" "ring_len q1 < ring_cap q1"
    "\<And>m. follows q (Some (drop_first unreliable (ring_items q) @ [p])) (Some (admit p (q1\<lparr>bq_metrics := m\<rparr>), Inr ()))"
    "follows q (Some (drop_first unreliable (ring_items q) @ [p])) (Some (admit p q1, Inr ()))"
proof -
  have u: "0 < bq_unreliable_count q" using assms unreliable_count_iff by blast
  obtain q1 where q1: "evict_oldest_unreliable bump q = Some q1" "bq_wf q1"
    "ring_items q1 = drop_first unreliable (ring_items q)" "ring_cap q1 = ring_cap q"
    "ring_len q1 = ring_len q - 1" "0 < ring_len q"
    using evict_spec [OF assms(1) u] by metis
  have "ring_len q \<le> ring_cap q" using assms(1) by (simp add: bq_wf_def ring_wf_def)
  then have room: "ring_len q1 < ring_cap q1" using q1 by linarith
  have "follows q (Some (drop_first unreliable (ring_items q) @ [p])) (Some (admit p (q1\<lparr>bq_metrics := m\<rparr>), Inr ()))" for m
    using admit_spec [of "q1\<lparr>bq_metrics := m\<rparr>" p] q1 room by (simp add: follows_def)
  moreover have "follows q (Some (drop_first unreliable (ring_items q) @ [p])) (Some (admit p q1, Inr ()))"
    using admit_spec [of q1 p] q1 room by (simp add: follows_def)
  ultimately show thesis using that q1(1,2) room by blast
qed

lemma packet_eta: "\<lparr>pp_payload = pp_payload p, pp_is_reliable = pp_is_reliable p, pp_sequence = pp_sequence p\<rparr> = (p :: 'a PrioritizedPacket)"
  by simp

lemma ingress_push_spec:
  assumes "bq_wf q"
  shows "follows q (ingress_policy (ring_cap q) p (ring_items q) (utilization_pct q \<ge> 95)) (ingress_push p q)"
proof -
  have wf: "ring_wf q" using assms by (simp add: bq_wf_def)
  then have len: "ring_len q \<le> ring_cap q" by (simp add: ring_wf_def)
  have shut: "bq_wf (count_saturation q)" "bq_wf (count_saturation (q\<lparr>bq_metrics := m\<rparr>))"
    "ring_items (count_saturation q) = ring_items q" "ring_items (count_saturation (q\<lparr>bq_metrics := m\<rparr>)) = ring_items q"
    "ring_cap (count_saturation q) = ring_cap q" "ring_cap (count_saturation (q\<lparr>bq_metrics := m\<rparr>)) = ring_cap q"
    for m using assms by (simp_all add: count_saturation_def)
  note defs = ingress_push_def BoundedIngressQueue_push_def packet_eta Let_def full_iff [OF wf]
  consider "unreliable p" "ring_len q = ring_cap q \<or> 95 \<le> utilization_pct q"
    | "unreliable p" "ring_len q < ring_cap q" "\<not> 95 \<le> utilization_pct q"
    | "pp_is_reliable p" "ring_len q < ring_cap q"
    | "pp_is_reliable p" "\<not> ring_len q < ring_cap q" "\<exists>x\<in>set (ring_items q). unreliable x"
    | "pp_is_reliable p" "\<not> ring_len q < ring_cap q" "\<not> (\<exists>x\<in>set (ring_items q). unreliable x)"
    using len by linarith
  then show ?thesis
  proof cases
    case 1
    then show ?thesis unfolding defs ingress_policy_def
      by (auto intro!: follows_saturated simp: assms shut)
  next
    case 2
    then have "ingress_push p q = Some (admit p q, Inr ())" unfolding defs by (simp add: admit_def)
    then show ?thesis using 2 follows_admit [OF assms] by (simp add: ingress_policy_def)
  next
    case 3
    then have "ingress_push p q = Some (admit p q, Inr ())" unfolding defs by (simp add: admit_def)
    then show ?thesis using 3 follows_admit [OF assms] by (simp add: ingress_policy_def)
  next
    case 4
    obtain q1 where q1: "evict_oldest_unreliable bump_ingress_dropped q = Some q1"
      "follows q (Some (drop_first unreliable (ring_items q) @ [p])) (Some (admit p q1, Inr ()))"
      using evict_admit [OF assms 4(3)] by metis
    have "ingress_push p q = Some (admit p q1, Inr ())"
      using 4 q1(1) unreliable_count_iff [OF assms] unfolding defs by (simp add: admit_def)
    then show ?thesis using 4 q1(2) by (simp add: ingress_policy_def)
  next
    case 5
    then have "ingress_push p q = Some (count_saturation q, Inl QueueFull)"
      using unreliable_count_iff [OF assms] unfolding defs by simp
    then show ?thesis using 5 follows_saturated [OF assms shut(1)] shut by (auto simp: ingress_policy_def)
  qed
qed

lemma egress_push_spec:
  assumes "bq_wf q"
  shows "follows q (egress_policy (ring_cap q) p (ring_items q)) (egress_push p q)"
proof -
  have wf: "ring_wf q" using assms by (simp add: bq_wf_def)
  note defs = egress_push_def BoundedEgressQueue_push_def packet_eta Let_def full_iff [OF wf]
  have enq: "egress_enqueue p r = (admit p r, Inr ())" if "bq_wf r" "ring_len r < ring_cap r" for r
    using that enqueue_tail_spec(5) [of r] by (simp add: egress_enqueue_def admit_def bq_wf_def)
  consider "ring_len q < ring_cap q"
    | "\<not> ring_len q < ring_cap q" "\<exists>x\<in>set (ring_items q). unreliable x"
    | "\<not> ring_len q < ring_cap q" "\<not> (\<exists>x\<in>set (ring_items q). unreliable x)" by blast
  then show ?thesis
  proof cases
    case 1
    then have "egress_push p q = Some (admit p q, Inr ())" using enq [OF assms] unfolding defs by simp
    then show ?thesis using 1 follows_admit [OF assms] by (simp add: egress_policy_def)
  next
    case 2
    obtain q1 where q1: "evict_oldest_unreliable (\<lambda>m. m) q = Some q1" "bq_wf q1" "ring_len q1 < ring_cap q1"
      "\<And>m. follows q (Some (drop_first unreliable (ring_items q) @ [p])) (Some (admit p (q1\<lparr>bq_metrics := m\<rparr>), Inr ()))"
      using evict_admit [OF assms 2(2)] by metis
    let ?q = "q1\<lparr>bq_metrics := bump_egress_dropped (bq_metrics q1)\<rparr>"
    have "egress_push p q = Some (admit p ?q, Inr ())"
      using 2 q1(1-3) unreliable_count_iff [OF assms] enq [of ?q] unfolding defs by simp
    then show ?thesis using 2 q1(4) by (simp add: egress_policy_def)
  next
    case 3
    then have "egress_push p q = Some (count_saturation q, Inl QueueFull)"
      using unreliable_count_iff [OF assms] unfolding defs by simp
    moreover have "follows q None (Some (count_saturation q, Inl QueueFull))"
      using assms by (intro follows_saturated) (simp_all add: count_saturation_def)
    ultimately show ?thesis using 3 by (simp add: egress_policy_def)
  qed
qed

text \<open>\<open>pop\<close> keeps the counters in step with the list.\<close>

lemma BoundedQueue_pop_spec:
  assumes "bq_wf q" "BoundedQueue_pop q = (q', r)"
  shows "bq_wf q' \<and> ring_cap q' = ring_cap q
    \<and> (case r of Some p \<Rightarrow> ring_items q = p # ring_items q' | None \<Rightarrow> ring_items q = [] \<and> ring_items q' = [])"
proof (cases "ring_len q = 0")
  case True
  then show ?thesis
    using assms by (auto simp: BoundedQueue_pop_def ring_take_def ring_items_Nil)
next
  case False
  have wf: "ring_wf q" "0 < ring_len q" using assms(1) False by (simp_all add: bq_wf_def)
  obtain x q1 where t: "ring_take q = (q1, Some x)" "ring_wf q1" "ring_items q = x # ring_items q1"
    "ring_cap q1 = ring_cap q"
    "q1 = q\<lparr>ring_slots := (ring_slots q)[ring_head q := None],
            ring_head := (ring_head q + 1) mod ring_cap q, ring_len := ring_len q - 1\<rparr>"
    using ring_take_spec [OF wf] by metis
  have "bq_reliable_count q1 = bq_reliable_count q" "bq_unreliable_count q1 = bq_unreliable_count q"
    using t(5) by simp_all
  then show ?thesis using assms t(1-4) by (auto simp: BoundedQueue_pop_def bq_wf_def)
qed

lemma drop_first_keeps:
  "filter pp_is_reliable (drop_first unreliable xs @ [p]) = filter pp_is_reliable (xs @ [p])"
  "subseq (drop_first unreliable xs @ [p]) (xs @ [p])"
proof -
  have "filter (\<lambda>x. \<not> unreliable x) (drop_first unreliable xs) = filter (\<lambda>x. \<not> unreliable x) xs"
    by (rule filter_drop_first)
  then show "filter pp_is_reliable (drop_first unreliable xs @ [p]) = filter pp_is_reliable (xs @ [p])" by simp
  show "subseq (drop_first unreliable xs @ [p]) (xs @ [p])"
    by (intro list_emb_append_mono subseq_drop_first) simp
qed

lemma ingress_policy_keeps:
  "ingress_policy c p xs b = Some ys \<Longrightarrow>
    filter pp_is_reliable ys = filter pp_is_reliable (xs @ [p]) \<and> subseq ys (xs @ [p])"
  using drop_first_keeps [of xs p] by (auto simp: ingress_policy_def split: if_splits)

lemma egress_policy_keeps:
  "egress_policy c p xs = Some ys \<Longrightarrow>
    filter pp_is_reliable ys = filter pp_is_reliable (xs @ [p]) \<and> subseq ys (xs @ [p])"
  using drop_first_keeps [of xs p] by (auto simp: egress_policy_def split: if_splits)

lemma bounded_fifo:
  assumes follows: "\<And>q p. bq_wf q \<Longrightarrow> \<exists>pol. follows q pol (push p q)
      \<and> (\<forall>ys. pol = Some ys \<longrightarrow> filter pp_is_reliable ys = filter pp_is_reliable (ring_items q @ [p])
           \<and> subseq ys (ring_items q @ [p]))"
  shows "priority_fifo push BoundedQueue_pop bq_wf ring_items ring_cap pp_is_reliable"
proof
  fix q q' :: "'a BoundedQueue" and p u e and r :: "NetError + unit" and x
  assume wf: "bq_wf q"
  obtain pol where pol: "follows q pol (push p q)"
    "\<And>ys. pol = Some ys \<Longrightarrow> filter pp_is_reliable ys = filter pp_is_reliable (ring_items q @ [p])
       \<and> subseq ys (ring_items q @ [p])" using follows [OF wf] by blast
  show "\<exists>q' r. push p q = Some (q', r)" using pol(1) by (auto simp: follows_def)
  show "bq_wf q' \<and> ring_cap q' = ring_cap q" if "push p q = Some (q', r)"
    using pol(1) that by (auto simp: follows_def)
  show "filter pp_is_reliable (ring_items q') = filter pp_is_reliable (ring_items q @ [p])
      \<and> subseq (ring_items q') (ring_items q @ [p])" if "push p q = Some (q', Inr u)"
    using pol that by (cases pol) (auto simp: follows_def)
  show "ring_items q' = ring_items q" if "push p q = Some (q', Inl e)"
    using pol(1) that by (cases pol) (auto simp: follows_def)
  show "bq_wf q' \<and> ring_cap q' = ring_cap q" if "BoundedQueue_pop q = (q', x)"
    using BoundedQueue_pop_spec [OF wf that] by simp
  show "ring_items q = p # ring_items q'" if "BoundedQueue_pop q = (q', Some p)"
    using BoundedQueue_pop_spec [OF wf that] by simp
  show "ring_items q = [] \<and> ring_items q' = []" if "BoundedQueue_pop q = (q', None)"
    using BoundedQueue_pop_spec [OF wf that] by simp
  show "length (ring_items q) \<le> ring_cap q" using wf by (simp add: bq_wf_def ring_wf_def)
qed

interpretation ingress: priority_fifo ingress_push BoundedQueue_pop bq_wf ring_items ring_cap pp_is_reliable
  using ingress_push_spec ingress_policy_keeps by (intro bounded_fifo) blast

interpretation egress: priority_fifo egress_push BoundedQueue_pop bq_wf ring_items ring_cap pp_is_reliable
  using egress_push_spec egress_policy_keeps by (intro bounded_fifo) blast

lemma bq_wf_new: "bq_wf (BoundedQueue_new CAP)"
  by (simp add: bq_wf_def ring_wf_def ring_items_def BoundedQueue_new_def)

lemma ring_wf_new: "ring_wf (PacketRingBuffer_new CAP)"
  by (simp add: ring_wf_def PacketRingBuffer_new_def)

section \<open>Properties\<close>

text \<open>
  C20. The packet ring is a bounded FIFO: along any sequence of pushes and pops from an empty
  ring, what comes out followed by what is still stored is exactly what was accepted, in order,
  and never more than \<open>CAP\<close> items are stored.
\<close>

theorem packet_ring_fifo:
  fixes ops :: "'a queue_op list"
  shows "\<exists>q acc del. run_ops (\<lambda>x q. Some (PacketRingBuffer_push x q)) PacketRingBuffer_pop ops (PacketRingBuffer_new CAP)
      = Some (q, acc, del)
    \<and> del @ ring_items q = acc \<and> length (ring_items q) \<le> CAP"
proof -
  let ?q = "PacketRingBuffer_new CAP :: 'a PacketRingBuffer"
  obtain q acc del where r: "run_ops (\<lambda>x q. Some (PacketRingBuffer_push x q)) PacketRingBuffer_pop ops ?q = Some (q, acc, del)"
    using packets.run_total [OF ring_wf_new] by blast
  note run = packets.run_reliable [OF ring_wf_new r]
  have "ring_items ?q = []" "ring_cap ?q = CAP" by (simp_all add: ring_items_def PacketRingBuffer_new_def)
  then show ?thesis using r run packets.bounded [of q] by auto
qed

text \<open>
  C7. Reliable traffic survives backpressure: along any sequence of pushes and pops on an ingress
  queue, and likewise on an egress queue, every call returns (the eviction loop always stops), the
  reliable packets delivered or still stored are exactly the reliable packets accepted, in the
  order they were accepted, unreliable packets are only ever dropped and never reordered, and
  the capacity holds.
\<close>

theorem reliable_never_dropped:
  fixes ops :: "'a PrioritizedPacket queue_op list"
  shows "(\<exists>q acc del. run_ops ingress_push BoundedQueue_pop ops (BoundedQueue_new CAP) = Some (q, acc, del)
      \<and> filter pp_is_reliable (del @ ring_items q) = filter pp_is_reliable acc
      \<and> subseq (del @ ring_items q) acc \<and> length (ring_items q) \<le> CAP)
   \<and> (\<exists>q acc del. run_ops egress_push BoundedQueue_pop ops (BoundedQueue_new CAP) = Some (q, acc, del)
      \<and> filter pp_is_reliable (del @ ring_items q) = filter pp_is_reliable acc
      \<and> subseq (del @ ring_items q) acc \<and> length (ring_items q) \<le> CAP)"
proof -
  let ?q = "BoundedQueue_new CAP :: 'a BoundedQueue"
  have e: "ring_items ?q = []" "ring_cap ?q = CAP" by (simp_all add: ring_items_def BoundedQueue_new_def)
  obtain q acc del where r: "run_ops ingress_push BoundedQueue_pop ops ?q = Some (q, acc, del)"
    using ingress.run_total [OF bq_wf_new] by blast
  note ingress = ingress.run_reliable [OF bq_wf_new r] ingress.bounded [of q]
  obtain q' acc' del' where r': "run_ops egress_push BoundedQueue_pop ops ?q = Some (q', acc', del')"
    using egress.run_total [OF bq_wf_new] by blast
  note egress = egress.run_reliable [OF bq_wf_new r'] egress.bounded [of q']
  from r r' ingress egress show ?thesis unfolding e by auto
qed

text \<open>
  What one push does, on every branch: on a queue whose counters agree with its contents (all
  reachable ones do), a push of either queue is its policy on the list of stored packets. A
  reliable packet is appended while there is room, takes the place of the oldest unreliable one
  when the queue is full, and is refused exactly when the queue is full of reliable packets; an
  unreliable one is refused by the ingress queue when it is full or above 95 percent, and displaces
  the oldest unreliable one on the egress side. A refused push reports \<open>QueueFull\<close> and leaves
  the stored packets alone.
\<close>

theorem bounded_push_functional:
  assumes "bq_wf q"
  shows "follows q (ingress_policy (ring_cap q) p (ring_items q) (utilization_pct q \<ge> 95)) (ingress_push p q)
    \<and> follows q (egress_policy (ring_cap q) p (ring_items q)) (egress_push p q)"
  using ingress_push_spec [OF assms] egress_push_spec [OF assms] by blast

theorem bounded_push_functional_witness:
  "follows \<lparr>ring_slots = [Some \<lparr>pp_payload = 5 :: nat, pp_is_reliable = False, pp_sequence = 0\<rparr>],
       ring_head = 0, ring_tail = 0, ring_len = 1, bq_reliable_count = 0, bq_unreliable_count = 1,
       bq_metrics = BackpressureMetrics_default\<rparr>
     (Some [\<lparr>pp_payload = 7, pp_is_reliable = True, pp_sequence = 1\<rparr>])
     (ingress_push \<lparr>pp_payload = 7, pp_is_reliable = True, pp_sequence = 1\<rparr>
       \<lparr>ring_slots = [Some \<lparr>pp_payload = 5, pp_is_reliable = False, pp_sequence = 0\<rparr>],
        ring_head = 0, ring_tail = 0, ring_len = 1, bq_reliable_count = 0, bq_unreliable_count = 1,
        bq_metrics = BackpressureMetrics_default\<rparr>)"
proof -
  let ?q = "\<lparr>ring_slots = [Some \<lparr>pp_payload = 5 :: nat, pp_is_reliable = False, pp_sequence = 0\<rparr>],
    ring_head = 0, ring_tail = 0, ring_len = 1, bq_reliable_count = 0, bq_unreliable_count = 1,
    bq_metrics = BackpressureMetrics_default\<rparr>"
  have items: "ring_items ?q = [\<lparr>pp_payload = 5, pp_is_reliable = False, pp_sequence = 0\<rparr>]"
    by (simp add: ring_items_def)
  have "bq_wf ?q" unfolding bq_wf_def items by (simp add: ring_wf_def)
  from bounded_push_functional [OF this, of "\<lparr>pp_payload = 7, pp_is_reliable = True, pp_sequence = 1\<rparr>"]
  show ?thesis unfolding items by (simp add: ingress_policy_def)
qed

end
