(* ===== verification/Channel.thy ===== *)
theory Channel
  imports NetErrors
begin

text \<open>
  Sequenced and reliable channels of \<^verbatim>\<open>eidolon-net/src/channel.rs\<close>: the receive history that an
  unreliable stream acknowledges (\<open>UnreliableSequencer\<close>), and the reliable ordered channel with its
  send window, its reorder buffer and its retransmission timers (\<open>ReliableChannel\<close>).

  Sequence numbers on the wire are 16 bits wide and wrap. The properties number the packets by
  unbounded integers, their positions, of which the wire carries the value modulo \<open>2 ^ 16\<close>.
\<close>

definition MAX_RELIABLE_PAYLOAD :: nat where
  "MAX_RELIABLE_PAYLOAD = 256"

definition DEFAULT_RETRY_TICKS :: u32 where
  "DEFAULT_RETRY_TICKS = 4"

definition DEFAULT_MAX_RETRIES :: u8 where
  "DEFAULT_MAX_RETRIES = 16"

section \<open>The unreliable sequencer\<close>

record UnreliableSequencer =
  us_next_outgoing :: u16
  us_highest :: u16
  us_bitfield :: u32
  us_received_any :: bool

definition UnreliableSequencer_new :: UnreliableSequencer where
  "UnreliableSequencer_new =
     \<lparr>us_next_outgoing = 0, us_highest = 0, us_bitfield = 0, us_received_any = False\<rparr>"

definition next_sequence :: "UnreliableSequencer \<Rightarrow> UnreliableSequencer \<times> u16" where
  "next_sequence s = (s\<lparr>us_next_outgoing := us_next_outgoing s + 1\<rparr>, us_next_outgoing s)"

definition ack_data :: "UnreliableSequencer \<Rightarrow> u16 \<times> u32" where
  "ack_data s = (us_highest s, us_bitfield s)"

text \<open>The difference of the sequence numbers, read as a signed 16-bit integer.\<close>

definition is_sequence_newer :: "u16 \<Rightarrow> u16 \<Rightarrow> bool" where
  "is_sequence_newer seq_a seq_b \<longleftrightarrow> 0 < sint (seq_a - seq_b)"

definition process_incoming_sequence :: "u16 \<Rightarrow> UnreliableSequencer \<Rightarrow> UnreliableSequencer \<times> bool" where
  "process_incoming_sequence seq s =
     (if \<not> us_received_any s
      then (s\<lparr>us_received_any := True, us_highest := seq, us_bitfield := 0\<rparr>, True)
      else if is_sequence_newer seq (us_highest s)
      then
        (let diff = unat (seq - us_highest s) in
         (s\<lparr>us_bitfield := (if diff < 32 then push_bit diff (us_bitfield s) OR push_bit (diff - 1) 1
                            else if diff = 32 then push_bit 31 1
                            else 0),
            us_highest := seq\<rparr>, True))
      else
        (let diff = unat (us_highest s - seq) in
         (if diff > 0 \<and> diff \<le> 32
          then s\<lparr>us_bitfield := us_bitfield s OR push_bit (diff - 1) 1\<rparr>
          else s, False)))"

section \<open>The reliable channel\<close>

text \<open>
  A payload is an array of 256 bytes of which the first \<open>len\<close> are the message. The arrays of slots
  are lists whose lengths are the capacities of the type's parameters.
\<close>

record PendingReliablePacket =
  pr_sequence :: u16
  pr_payload :: "u8 list"
  pr_len :: nat
  pr_retry_countdown :: u32
  pr_retry_count :: u8

record IncomingReliablePacket =
  in_sequence :: u16
  in_payload :: "u8 list"
  in_len :: nat

record ReliableChannel =
  rc_next_outgoing :: u16
  rc_expected_incoming :: u16
  rc_pending :: "PendingReliablePacket option list"
  rc_reorder :: "IncomingReliablePacket option list"
  rc_max_retries :: u8
  rc_timed_out :: bool

definition ReliableChannel_new :: "nat \<Rightarrow> nat \<Rightarrow> ReliableChannel" where
  "ReliableChannel_new PENDING_CAP ORDERED_CAP =
     \<lparr>rc_next_outgoing = 0, rc_expected_incoming = 0, rc_pending = replicate PENDING_CAP None,
      rc_reorder = replicate ORDERED_CAP None, rc_max_retries = DEFAULT_MAX_RETRIES,
      rc_timed_out = False\<rparr>"

text \<open>The zeroed array with the data copied to its front.\<close>

definition payload_of :: "u8 list \<Rightarrow> u8 list" where
  "payload_of data = slice_put (replicate MAX_RELIABLE_PAYLOAD 0) 0 data"

text \<open>The loop over the occupied slots keeps the packet of the greatest age seen so far.\<close>

primrec oldest_loop ::
  "u16 \<Rightarrow> PendingReliablePacket option list \<Rightarrow> u16 option \<Rightarrow> u16 \<Rightarrow> u16 option"
where
  "oldest_loop next_out [] oldest max_age = oldest"
| "oldest_loop next_out (slot # slots) oldest max_age =
     (case slot of
        None \<Rightarrow> oldest_loop next_out slots oldest max_age
      | Some pending \<Rightarrow>
          (let age = next_out - pr_sequence pending in
           if oldest = None \<or> age > max_age
           then oldest_loop next_out slots (Some (pr_sequence pending)) age
           else oldest_loop next_out slots oldest max_age))"

definition oldest_pending_seq :: "ReliableChannel \<Rightarrow> u16 option" where
  "oldest_pending_seq c = oldest_loop (rc_next_outgoing c) (rc_pending c) None 0"

definition pending_count :: "ReliableChannel \<Rightarrow> nat" where
  "pending_count c = length (filter (\<lambda>s. s \<noteq> None) (rc_pending c))"

definition window_full :: "ReliableChannel \<Rightarrow> bool" where
  "window_full c \<longleftrightarrow>
     (case oldest_pending_seq c of
        Some oldest \<Rightarrow> unat (rc_next_outgoing c - oldest) \<ge> length (rc_pending c)
      | None \<Rightarrow> False)"

definition queue_reliable_message ::
  "u8 list \<Rightarrow> ReliableChannel \<Rightarrow> ReliableChannel \<times> (NetError + u16)"
where
  "queue_reliable_message data c =
     (if length data > MAX_RELIABLE_PAYLOAD
      then (c, Inl (PayloadTooLarge (length data) MAX_RELIABLE_PAYLOAD))
      else if window_full c then (c, Inl QueueFull)
      else
        (case find_index (\<lambda>slot. slot = None) (rc_pending c) of
           None \<Rightarrow> (c, Inl QueueFull)
         | Some i \<Rightarrow>
             (let seq = rc_next_outgoing c;
                  pending = \<lparr>pr_sequence = seq, pr_payload = payload_of data, pr_len = length data,
                             pr_retry_countdown = DEFAULT_RETRY_TICKS, pr_retry_count = 0\<rparr>
              in (c\<lparr>rc_next_outgoing := seq + 1, rc_pending := (rc_pending c)[i := Some pending]\<rparr>,
                  Inr seq))))"

text \<open>The body of the loop over the pending slots: is this packet confirmed?\<close>

definition retires :: "u16 \<Rightarrow> u32 \<Rightarrow> u16 \<Rightarrow> bool" where
  "retires ack ack_bitfield p_seq \<longleftrightarrow>
     (if p_seq = ack then True
      else if is_sequence_newer ack p_seq
      then (let diff = unat (ack - p_seq)
            in diff > 0 \<and> diff \<le> 32 \<and> drop_bit (diff - 1) ack_bitfield AND 1 \<noteq> 0)
      else False)"

definition process_remote_ack :: "u16 \<Rightarrow> u32 \<Rightarrow> ReliableChannel \<Rightarrow> ReliableChannel" where
  "process_remote_ack ack ack_bitfield c =
     c\<lparr>rc_pending := map (\<lambda>slot. case slot of
          None \<Rightarrow> None
        | Some pending \<Rightarrow> if retires ack ack_bitfield (pr_sequence pending) then None else Some pending)
        (rc_pending c)\<rparr>"

definition receive_reliable_packet ::
  "u16 \<Rightarrow> u8 list \<Rightarrow> ReliableChannel \<Rightarrow> ReliableChannel \<times> (NetError + (u8 list \<times> nat) option)"
where
  "receive_reliable_packet seq data c =
     (if length data > MAX_RELIABLE_PAYLOAD
      then (c, Inl (PayloadTooLarge (length data) MAX_RELIABLE_PAYLOAD))
      else if seq = rc_expected_incoming c
      then (c\<lparr>rc_expected_incoming := rc_expected_incoming c + 1\<rparr>, Inr (Some (payload_of data, length data)))
      else if is_sequence_newer seq (rc_expected_incoming c)
      then
        (if \<exists>slot \<in> set (rc_reorder c). case slot of Some incoming \<Rightarrow> in_sequence incoming = seq | None \<Rightarrow> False
         then (c, Inr None)
         else
           (case find_index (\<lambda>slot. slot = None) (rc_reorder c) of
              Some i \<Rightarrow>
                (c\<lparr>rc_reorder := (rc_reorder c)[i := Some \<lparr>in_sequence = seq, in_payload = payload_of data,
                    in_len = length data\<rparr>]\<rparr>, Inr None)
            | None \<Rightarrow> (c, Inl QueueFull)))
      else (c, Inr None))"

definition drain_next_ordered_packet :: "ReliableChannel \<Rightarrow> ReliableChannel \<times> (u8 list \<times> nat) option" where
  "drain_next_ordered_packet c =
     (case find_index (\<lambda>slot. case slot of Some incoming \<Rightarrow> in_sequence incoming = rc_expected_incoming c
          | None \<Rightarrow> False) (rc_reorder c) of
        None \<Rightarrow> (c, None)
      | Some i \<Rightarrow>
          (case rc_reorder c ! i of
             None \<Rightarrow> (c, None)
           | Some incoming \<Rightarrow>
               (c\<lparr>rc_reorder := (rc_reorder c)[i := None],
                  rc_expected_incoming := rc_expected_incoming c + 1\<rparr>,
                Some (in_payload incoming, in_len incoming))))"

text \<open>
  The loop writes the drained packets to \<open>output[count]\<close> from \<open>count = 0\<close>; \<open>room\<close> is the number of
  entries of the output that are left, and the result is the packets in the order of the entries.
\<close>

primrec drain_ordered_packets :: "nat \<Rightarrow> ReliableChannel \<Rightarrow> ReliableChannel \<times> (u8 list \<times> nat) list" where
  "drain_ordered_packets 0 c = (c, [])"
| "drain_ordered_packets (Suc room) c =
     (case drain_next_ordered_packet c of
        (c1, Some packet) \<Rightarrow> (case drain_ordered_packets room c1 of (c2, ps) \<Rightarrow> (c2, packet # ps))
      | (c1, None) \<Rightarrow> (c1, []))"

definition receive_and_drain_ordered ::
  "u16 \<Rightarrow> u8 list \<Rightarrow> nat \<Rightarrow> ReliableChannel \<Rightarrow> ReliableChannel \<times> (NetError + (u8 list \<times> nat) list)"
where
  "receive_and_drain_ordered seq data room =
     sbind (receive_reliable_packet seq data)
       (\<lambda>r c. case r of
          None \<Rightarrow> (c, Inr [])
        | Some first \<Rightarrow>
            (if room = 0 then (c, Inr [])
             else (case drain_ordered_packets (room - 1) c of (c1, ps) \<Rightarrow> (c1, Inr (first # ps)))))"

text \<open>
  The loop over the pending packets: the slots as it leaves them, the calls of \<open>on_retry\<close> it makes
  and whether it stopped because a packet exceeded the retries.
\<close>

primrec retry_loop ::
  "u8 \<Rightarrow> PendingReliablePacket option list \<Rightarrow> PendingReliablePacket option list \<times> (u16 \<times> u8 list) list \<times> bool"
where
  "retry_loop max_retries [] = ([], [], False)"
| "retry_loop max_retries (slot # slots) =
     (case slot of
        None \<Rightarrow> (case retry_loop max_retries slots of (rest, calls, out) \<Rightarrow> (None # rest, calls, out))
      | Some pending \<Rightarrow>
          (if pr_retry_countdown pending = 0
           then
             (let count = saturating_add (pr_retry_count pending) 1 in
              if count > max_retries
              then (Some (pending\<lparr>pr_retry_count := count\<rparr>) # slots, [], True)
              else
                (let shift = min (saturating_sub count 1) 3;
                     pending' = pending\<lparr>pr_retry_count := count,
                       pr_retry_countdown := min (push_bit (unat shift) DEFAULT_RETRY_TICKS) 32\<rparr>;
                     call = (if pr_len pending \<le> length (pr_payload pending)
                             then [(pr_sequence pending, take (pr_len pending) (pr_payload pending))] else [])
                 in case retry_loop max_retries slots of (rest, calls, out) \<Rightarrow> (Some pending' # rest, call @ calls, out)))
           else
             (let pending' = pending\<lparr>pr_retry_countdown := saturating_sub (pr_retry_countdown pending) 1\<rparr>
              in case retry_loop max_retries slots of (rest, calls, out) \<Rightarrow> (Some pending' # rest, calls, out))))"

definition check_retransmissions ::
  "ReliableChannel \<Rightarrow> ReliableChannel \<times> (u16 \<times> u8 list) list \<times> (NetError + unit)"
where
  "check_retransmissions c =
     (if rc_timed_out c then (c, [], Inl ConnectionTimedOut)
      else
        (case retry_loop (rc_max_retries c) (rc_pending c) of
           (slots, calls, out) \<Rightarrow>
             (c\<lparr>rc_pending := slots, rc_timed_out := out\<rparr>, calls,
              if out then Inl ConnectionTimedOut else Inr ())))"

definition set_max_retries :: "u8 \<Rightarrow> ReliableChannel \<Rightarrow> ReliableChannel" where
  "set_max_retries max_retries c = c\<lparr>rc_max_retries := max_retries\<rparr>"

section \<open>Positions and sequence numbers\<close>

text \<open>Two positions less than half the sequence space apart compare as their sequence numbers do.\<close>

abbreviation wire :: "int \<Rightarrow> u16" where
  "wire n \<equiv> word_of_int n"

lemma wire_diff: "wire a - wire b = wire (a - b)"
  by simp

lemma wire_Suc: "wire n + 1 = wire (n + 1)"
  by simp

lemma unat_wire: "0 \<le> n \<Longrightarrow> n < 65536 \<Longrightarrow> unat (wire n) = nat n"
  by (simp add: unsigned_of_int take_bit_int_eq_self)

lemma unat_wire_diff: "b \<le> a \<Longrightarrow> a - b < 65536 \<Longrightarrow> unat (wire a - wire b) = nat (a - b)"
  unfolding wire_diff by (rule unat_wire) simp_all

lemma sint_wire: "- 32768 \<le> n \<Longrightarrow> n < 32768 \<Longrightarrow> sint (wire n) = n"
  by (rule sint_of_int_range) simp_all

lemma wire_newer:
  assumes "b - 32768 \<le> a" and "a < b + 32768"
  shows "is_sequence_newer (wire a) (wire b) \<longleftrightarrow> b < a"
  unfolding is_sequence_newer_def wire_diff using assms by (subst sint_wire) auto

lemma wire_eq_iff: "\<bar>a - b\<bar> < 65536 \<Longrightarrow> wire a = wire b \<longleftrightarrow> a = b"
proof
  assume near: "\<bar>a - b\<bar> < 65536" and "wire a = wire b"
  then have "a mod 65536 = b mod 65536"
    by (simp add: word_of_int_eq_iff take_bit_eq_mod)
  then have "(65536 :: int) dvd a - b"
    by (simp add: mod_eq_dvd_iff)
  with near have "a - b = 0"
    using zdvd_imp_le [of 65536 "\<bar>a - b\<bar>"] by fastforce
  then show "a = b" by simp
qed simp

section \<open>The acknowledged history\<close>

text \<open>
  The sequencer describes a set of received positions: the highest of them, and in bit \<open>k\<close> whether
  the position \<open>k + 1\<close> below it was received.
\<close>

definition tracks :: "int set \<Rightarrow> UnreliableSequencer \<Rightarrow> bool" where
  "tracks R s \<longleftrightarrow> finite R \<and> (us_received_any s \<longleftrightarrow> R \<noteq> {})
     \<and> (R \<noteq> {} \<longrightarrow> us_highest s = wire (Max R) \<and> (\<forall>k<32. bit (us_bitfield s) k \<longleftrightarrow> Max R - 1 - int k \<in> R))"

text \<open>A packet arrives less than half the sequence space away from the newest one.\<close>

definition in_window :: "int set \<Rightarrow> int \<Rightarrow> bool" where
  "in_window R n \<longleftrightarrow> R = {} \<or> \<bar>n - Max R\<bar> < 32768"

lemma tracks_new: "tracks {} UnreliableSequencer_new"
  by (simp add: tracks_def UnreliableSequencer_new_def)

lemma bit_push_top: "bit (push_bit 31 (1 :: u32)) k \<longleftrightarrow> k = 31"
  unfolding bit_push_bit_iff by auto

lemma bit_shifted_history:
  "bit (if d < 32 then push_bit d b OR push_bit (d - 1) 1 else if d = 32 then push_bit 31 1 else 0) k
    \<longleftrightarrow> (if d < 32 then bit (push_bit d (b :: u32)) k \<or> bit (push_bit (d - 1) (1 :: u32)) k
        else d = 32 \<and> k = 31)"
  unfolding bit_push_top [of k, symmetric] bit_or_iff [symmetric] by simp

lemma process_newer:
  assumes t: "tracks R s" "R \<noteq> {}" and n: "Max R < n" "n - Max R < 32768"
  shows "tracks (insert n R) (fst (process_incoming_sequence (wire n) s))"
    and "snd (process_incoming_sequence (wire n) s)"
proof -
  let ?m = "Max R"
  define d where "d = nat (n - ?m)"
  have fin: "finite R" and top: "us_highest s = wire ?m" and any: "us_received_any s"
    and hist: "\<And>k. k < 32 \<Longrightarrow> bit (us_bitfield s) k \<longleftrightarrow> ?m - 1 - int k \<in> R"
    using t by (auto simp: tracks_def)
  have le: "x \<le> ?m" if "x \<in> R" for x using that fin by simp
  have mem: "?m \<in> R" using fin t(2) by simp
  have d: "unat (wire n - us_highest s) = d" and newer: "is_sequence_newer (wire n) (us_highest s)"
    unfolding top d_def using n by (simp_all add: unat_wire_diff wire_newer del: of_int_diff)
  have pos: "0 < d" and n_eq: "n = ?m + int d" using n by (auto simp: d_def)
  have max: "Max (insert n R) = n"
  proof (rule Max_eqI)
    show "finite (insert n R)" using fin by simp
    show "y \<le> n" if "y \<in> insert n R" for y using that le [of y] n by auto
  qed simp
  have step: "process_incoming_sequence (wire n) s =
    (s\<lparr>us_bitfield := (if d < 32 then push_bit d (us_bitfield s) OR push_bit (d - 1) 1
                       else if d = 32 then push_bit 31 1 else 0), us_highest := wire n\<rparr>, True)"
    using any newer by (simp add: process_incoming_sequence_def Let_def d)
  then show "snd (process_incoming_sequence (wire n) s)" by simp
  have bits: "bit (if d < 32 then push_bit d (us_bitfield s) OR push_bit (d - 1) 1
                   else if d = 32 then push_bit 31 1 else 0) k \<longleftrightarrow> n - 1 - int k \<in> insert n R"
    if k: "k < 32" for k
  proof (cases "k < d")
    case True
    have "n - 1 - int k \<in> R \<longleftrightarrow> k = d - 1"
      using True le [of "n - 1 - int k"] mem n_eq by auto
    with True k show ?thesis
      unfolding bit_shifted_history by (auto simp: bit_simps)
  next
    case False
    then have e: "n - 1 - int k = ?m - 1 - int (k - d)" using n_eq by simp
    have "bit (us_bitfield s) (k - d) \<longleftrightarrow> n - 1 - int k \<in> R"
      unfolding e using k by (intro hist) simp
    with False k pos show ?thesis
      unfolding bit_shifted_history by (auto simp: bit_simps)
  qed
  show "tracks (insert n R) (fst (process_incoming_sequence (wire n) s))"
    unfolding tracks_def step max using fin any bits by simp
qed

lemma process_older:
  assumes t: "tracks R s" "R \<noteq> {}" and n: "n \<le> Max R" "Max R - n < 32768"
  shows "tracks (insert n R) (fst (process_incoming_sequence (wire n) s))"
    and "\<not> snd (process_incoming_sequence (wire n) s)"
proof -
  let ?m = "Max R"
  define d where "d = nat (?m - n)"
  have fin: "finite R" and top: "us_highest s = wire ?m" and any: "us_received_any s"
    and hist: "\<And>k. k < 32 \<Longrightarrow> bit (us_bitfield s) k \<longleftrightarrow> ?m - 1 - int k \<in> R"
    using t by (auto simp: tracks_def)
  have mem: "?m \<in> R" using fin t(2) by simp
  have d: "unat (us_highest s - wire n) = d" and newer: "\<not> is_sequence_newer (wire n) (us_highest s)"
    unfolding top d_def using n by (simp_all add: unat_wire_diff wire_newer del: of_int_diff)
  have n_eq: "n = ?m - int d" using n by (auto simp: d_def)
  have max: "Max (insert n R) = ?m"
    using n fin t(2) by simp
  have step: "process_incoming_sequence (wire n) s =
    (if d > 0 \<and> d \<le> 32 then s\<lparr>us_bitfield := us_bitfield s OR push_bit (d - 1) 1\<rparr> else s, False)"
    using any newer by (simp add: process_incoming_sequence_def Let_def d)
  then show "\<not> snd (process_incoming_sequence (wire n) s)" by simp
  have bits: "bit (us_bitfield (fst (process_incoming_sequence (wire n) s))) k \<longleftrightarrow>
      ?m - 1 - int k \<in> insert n R" if k: "k < 32" for k
  proof -
    have "?m - 1 - int k = n \<longleftrightarrow> d = k + 1" using n_eq by auto
    then show ?thesis
      unfolding step using k hist [OF k] by (auto simp: bit_simps)
  qed
  have "us_received_any (fst (process_incoming_sequence (wire n) s))"
    and "us_highest (fst (process_incoming_sequence (wire n) s)) = wire ?m"
    using any top by (simp_all add: step)
  then show "tracks (insert n R) (fst (process_incoming_sequence (wire n) s))"
    unfolding tracks_def max using fin bits by simp
qed

lemma process_first:
  "tracks {} s \<Longrightarrow> tracks {n} (fst (process_incoming_sequence (wire n) s))
     \<and> snd (process_incoming_sequence (wire n) s)"
  by (auto simp: tracks_def process_incoming_sequence_def)

lemma process_step:
  assumes "tracks R s" and "in_window R n"
  shows "tracks (insert n R) (fst (process_incoming_sequence (wire n) s))
    \<and> (snd (process_incoming_sequence (wire n) s) \<longleftrightarrow> (\<forall>m\<in>R. m < n))"
proof (cases "R = {}")
  case True
  with assms process_first show ?thesis by simp
next
  case False
  have fin: "finite R" using assms(1) by (simp add: tracks_def)
  then have above: "(\<forall>m\<in>R. m < n) \<longleftrightarrow> Max R < n" using False by simp
  show ?thesis
  proof (cases "Max R < n")
    case True
    with assms False process_newer [OF assms(1) False, of n] above show ?thesis
      by (auto simp: in_window_def)
  next
    case older: False
    with assms False process_older [OF assms(1) False, of n] above show ?thesis
      by (auto simp: in_window_def)
  qed
qed

text \<open>Runs of a sequencer over the packets that arrive, and the positions they arrive at.\<close>

inductive hears :: "int list \<Rightarrow> UnreliableSequencer \<Rightarrow> bool" where
  start: "hears [] UnreliableSequencer_new"
| arrive: "hears ns s \<Longrightarrow> in_window (set ns) n \<Longrightarrow>
    hears (ns @ [n]) (fst (process_incoming_sequence (wire n) s))"

lemma hears_tracks: "hears ns s \<Longrightarrow> tracks (set ns) s"
  by (induction rule: hears.induct) (auto simp: tracks_new process_step)

text \<open>
  The sequencer answers from its true history. Whatever packets arrive, each less than half the
  sequence space away from the newest one so far, in any order and with repetitions, an arrival is
  reported as new exactly when its position is above every earlier one; the highest sequence number
  is that of the greatest position, and bit \<open>k\<close> of the acknowledgement field says whether the
  position \<open>k + 1\<close> below it was received, across wrap-arounds of the 16-bit numbers.
\<close>

theorem sequencer_reports_history:
  assumes run: "hears ns s" and w: "in_window (set ns) n"
  shows "(snd (process_incoming_sequence (wire n) s) \<longleftrightarrow> (\<forall>m\<in>set ns. m < n))
    \<and> (ns \<noteq> [] \<longrightarrow> ack_data s = (wire (Max (set ns)), us_bitfield s)
          \<and> (\<forall>k<32. bit (us_bitfield s) k \<longleftrightarrow> Max (set ns) - 1 - int k \<in> set ns))"
  using process_step [OF hears_tracks [OF run] w] hears_tracks [OF run]
  by (auto simp: tracks_def ack_data_def)

theorem sequencer_reports_history_witness:
  "\<exists>s. hears [65534, 65535, 65537] s \<and> us_highest s = 1 \<and> us_bitfield s = 6
     \<and> \<not> snd (process_incoming_sequence (wire 65536) s)"
proof -
  define s1 where "s1 = fst (process_incoming_sequence (wire 65534) UnreliableSequencer_new)"
  define s2 where "s2 = fst (process_incoming_sequence (wire 65535) s1)"
  define s3 where "s3 = fst (process_incoming_sequence (wire 65537) s2)"
  have 1: "hears [65534] s1"
    unfolding s1_def by (rule hears.arrive [OF hears.start, simplified]) (simp add: in_window_def)
  have 2: "hears [65534, 65535] s2"
    unfolding s2_def by (rule hears.arrive [OF 1, simplified]) (simp add: in_window_def)
  have 3: "hears [65534, 65535, 65537] s3"
    unfolding s3_def by (rule hears.arrive [OF 2, simplified]) (simp add: in_window_def)
  have "us_highest s3 = 1 \<and> us_bitfield s3 = 6"
    unfolding s3_def s2_def s1_def by code_simp
  moreover have "\<not> snd (process_incoming_sequence (wire 65536) s3)"
    using sequencer_reports_history [OF 3, of 65536, THEN conjunct1] by (simp add: in_window_def)
  ultimately show ?thesis using 3 by blast
qed

section \<open>Acknowledgements\<close>

lemma retires_iff:
  assumes t: "tracks R s" "R \<noteq> {}" and w: "\<bar>n - Max R\<bar> < 32768"
  shows "retires (us_highest s) (us_bitfield s) (wire n) \<longleftrightarrow> n \<in> R \<and> Max R - n \<le> 32"
proof -
  let ?m = "Max R"
  define d where "d = nat (?m - n)"
  have fin: "finite R" and top: "us_highest s = wire ?m"
    and hist: "\<And>k. k < 32 \<Longrightarrow> bit (us_bitfield s) k \<longleftrightarrow> ?m - 1 - int k \<in> R"
    using t by (auto simp: tracks_def)
  have mem: "?m \<in> R" and le: "x \<le> ?m" if "x \<in> R" for x using fin t(2) that by simp_all
  have mem: "?m \<in> R" using fin t(2) by simp
  consider (same) "n = ?m" | (below) "n < ?m" | (above) "?m < n" by linarith
  then show ?thesis
  proof cases
    case same
    with mem show ?thesis by (simp add: retires_def top)
  next
    case below
    then have d: "0 < d" "n = ?m - 1 - int (d - 1)" by (auto simp: d_def)
    have ne: "wire n \<noteq> wire ?m" using below w by (subst wire_eq_iff) auto
    have newer: "is_sequence_newer (wire ?m) (wire n)" using below w by (subst wire_newer) auto
    have diff: "unat (wire ?m - wire n) = d" using below w by (simp add: unat_wire_diff d_def del: of_int_diff)
    have odd: "drop_bit k (us_bitfield s) AND 1 \<noteq> 0 \<longleftrightarrow> bit (us_bitfield s) k" for k
      by (simp add: and_one_eq bit_iff_odd_drop_bit odd_iff_mod_2_eq_one)
    have "retires (us_highest s) (us_bitfield s) (wire n) \<longleftrightarrow> d \<le> 32 \<and> bit (us_bitfield s) (d - 1)"
      unfolding retires_def top diff odd Let_def using ne newer d(1) by simp
    also have "\<dots> \<longleftrightarrow> d \<le> 32 \<and> n \<in> R"
      using hist [of "d - 1"] d by auto
    finally show ?thesis using below by (auto simp: d_def)
  next
    case above
    then have "wire n \<noteq> wire ?m" using w by (subst wire_eq_iff) auto
    moreover have "\<not> is_sequence_newer (wire ?m) (wire n)" using above w by (subst wire_newer) auto
    ultimately show ?thesis using le [of n] above by (auto simp: retires_def top)
  qed
qed

lemma hears_nothing: "hears ns s \<Longrightarrow> ns = [] \<Longrightarrow> s = UnreliableSequencer_new"
  by (induction rule: hears.induct) simp_all

lemma retires_nothing: "retires 0 0 sequence \<longleftrightarrow> sequence = 0"
  by (auto simp: retires_def Let_def)

text \<open>
  C27. What acknowledgements retire. When a peer that has received at least one packet sends its
  acknowledgement data, a pending packet of a position less than half the sequence space from the
  peer's newest is retired exactly when the peer has received that position within the last 33, and
  stays untouched in its slot otherwise. The data of a peer that has received nothing is \<open>(0, 0)\<close>:
  it retires the pending packet of sequence number 0, which the peer never received, and no other.
\<close>

theorem acks_retire_exactly_received:
  assumes "hears ns s" and "ack_data s = (ack, field)"
    and "i < length (rc_pending c)" and "rc_pending c ! i = Some p"
    and "pr_sequence p = wire n" and "ns \<noteq> [] \<Longrightarrow> \<bar>n - Max (set ns)\<bar> < 32768"
  shows "rc_pending (process_remote_ack ack field c) ! i =
    (if (if ns = [] then pr_sequence p = 0 else n \<in> set ns \<and> Max (set ns) - n \<le> 32) then None else Some p)"
proof (cases "ns = []")
  case True
  then have "ack = 0" "field = 0" using hears_nothing [OF assms(1)] assms(2) by (simp_all add: ack_data_def UnreliableSequencer_new_def)
  then show ?thesis using assms(3,4) True by (simp add: process_remote_ack_def retires_nothing)
next
  case False
  then show ?thesis using retires_iff [OF hears_tracks [OF assms(1)], of n] assms(2-)
    by (auto simp: process_remote_ack_def ack_data_def)
qed

theorem acks_retire_exactly_received_witness:
  "\<exists>s c. hears [1] s \<and> rc_pending c ! 0 \<noteq> None \<and> rc_pending (process_remote_ack (us_highest s) (us_bitfield s) c) ! 0 \<noteq> None
     \<and> rc_pending c ! 1 \<noteq> None \<and> rc_pending (process_remote_ack (us_highest s) (us_bitfield s) c) ! 1 = None"
proof -
  define s where "s = fst (process_incoming_sequence (wire 1) UnreliableSequencer_new)"
  define c where "c = fst (queue_reliable_message [2] (fst (queue_reliable_message [1] (ReliableChannel_new 2 2))))"
  define p where "p = the (rc_pending c ! 0)"
  define q where "q = the (rc_pending c ! 1)"
  have run: "hears [1] s"
    unfolding s_def by (rule hears.arrive [OF hears.start, simplified]) (simp add: in_window_def)
  have c: "rc_pending c ! 0 \<noteq> None" "rc_pending c ! 1 \<noteq> None" "length (rc_pending c) = 2"
    "pr_sequence p = 0" "pr_sequence q = 1"
    unfolding p_def q_def c_def by code_simp+
  have "rc_pending (process_remote_ack (us_highest s) (us_bitfield s) c) ! 0 = Some p"
    using acks_retire_exactly_received [OF run, of "us_highest s" "us_bitfield s" 0 c p 0] c
    by (simp add: ack_data_def p_def)
  moreover have "rc_pending (process_remote_ack (us_highest s) (us_bitfield s) c) ! 1 = None"
    using acks_retire_exactly_received [OF run, of "us_highest s" "us_bitfield s" 1 c q 1] c
    by (simp add: ack_data_def q_def)
  ultimately show ?thesis using run c(1,2) by blast
qed

text \<open>
  Before anything is received the acknowledgement data is \<open>(0, 0)\<close>, the same as after receiving
  position 0 alone: it retires a pending packet of sequence number 0 that never arrived.
\<close>

lemma ack_of_nothing_retires_first:
  assumes "i < length (rc_pending c)" and "rc_pending c ! i = Some p" and "pr_sequence p = 0"
  shows "rc_pending (process_remote_ack (fst (ack_data UnreliableSequencer_new))
    (snd (ack_data UnreliableSequencer_new)) c) ! i = None"
  using assms by (simp add: process_remote_ack_def retires_def ack_data_def UnreliableSequencer_new_def)

section \<open>The send window\<close>

text \<open>
  The age of a pending packet is its distance from the next outgoing sequence number. Every
  pending packet is at most a window old, and no two have the same number.
\<close>

definition age :: "ReliableChannel \<Rightarrow> PendingReliablePacket \<Rightarrow> nat" where
  "age c p = unat (rc_next_outgoing c - pr_sequence p)"

definition send_window :: "ReliableChannel \<Rightarrow> bool" where
  "send_window c \<longleftrightarrow>
     (\<forall>i p. i < length (rc_pending c) \<and> rc_pending c ! i = Some p \<longrightarrow>
        0 < age c p \<and> age c p \<le> length (rc_pending c)
        \<and> (\<forall>j q. j < length (rc_pending c) \<and> rc_pending c ! j = Some q \<and> pr_sequence q = pr_sequence p \<longrightarrow> j = i))"

lemma send_windowD:
  assumes "send_window c" and "i < length (rc_pending c)" and "rc_pending c ! i = Some p"
  shows "0 < age c p" and "age c p \<le> length (rc_pending c)"
    and "j < length (rc_pending c) \<Longrightarrow> rc_pending c ! j = Some q \<Longrightarrow> pr_sequence q = pr_sequence p \<Longrightarrow> j = i"
  using assms unfolding send_window_def by blast+

lemma oldest_loop_some:
  "\<exists>r. oldest_loop nx slots (Some b) (nx - b) = Some r \<and> nx - b \<le> nx - r
     \<and> (\<forall>p. Some p \<in> set slots \<longrightarrow> nx - pr_sequence p \<le> nx - r)
     \<and> (r = b \<or> (\<exists>p. Some p \<in> set slots \<and> pr_sequence p = r))"
proof (induction slots arbitrary: b)
  case Nil
  then show ?case by simp
next
  case (Cons slot slots)
  show ?case
  proof (cases slot)
    case None
    with Cons [of b] show ?thesis by simp
  next
    case (Some q)
    show ?thesis
    proof (cases "nx - pr_sequence q > nx - b")
      case True
      obtain r where "oldest_loop nx slots (Some (pr_sequence q)) (nx - pr_sequence q) = Some r"
        "nx - pr_sequence q \<le> nx - r" "\<forall>p. Some p \<in> set slots \<longrightarrow> nx - pr_sequence p \<le> nx - r"
        "r = pr_sequence q \<or> (\<exists>p. Some p \<in> set slots \<and> pr_sequence p = r)"
        using Cons [of "pr_sequence q"] by blast
      with True Some show ?thesis by (auto simp: Let_def)
    next
      case False
      obtain r where "oldest_loop nx slots (Some b) (nx - b) = Some r"
        "nx - b \<le> nx - r" "\<forall>p. Some p \<in> set slots \<longrightarrow> nx - pr_sequence p \<le> nx - r"
        "r = b \<or> (\<exists>p. Some p \<in> set slots \<and> pr_sequence p = r)"
        using Cons [of b] by blast
      with False Some show ?thesis by (auto simp: Let_def)
    qed
  qed
qed

lemma oldest_loop_none:
  "oldest_loop nx slots None 0 = (case find_index (\<lambda>s. s \<noteq> None) slots of None \<Rightarrow> None
     | Some i \<Rightarrow> oldest_loop nx (drop (Suc i) slots) (Some (pr_sequence (the (slots ! i))))
                  (nx - pr_sequence (the (slots ! i))))"
  by (induction slots) (auto simp: Let_def split: option.splits)

lemma window_full_iff:
  assumes "0 < length (rc_pending c)"
  shows "window_full c \<longleftrightarrow> (\<exists>p. Some p \<in> set (rc_pending c) \<and> length (rc_pending c) \<le> age c p)"
proof (cases "find_index (\<lambda>s. s \<noteq> None) (rc_pending c)")
  case None
  then have "\<forall>p. Some p \<notin> set (rc_pending c)" by (auto simp: find_index_None_iff)
  with None show ?thesis
    by (simp add: window_full_def oldest_pending_seq_def oldest_loop_none)
next
  case (Some i)
  let ?slots = "rc_pending c" and ?nx = "rc_next_outgoing c"
  obtain q where i: "i < length ?slots" and q: "?slots ! i = Some q" and none: "\<forall>j<i. ?slots ! j = None"
    using find_index_SomeD [OF Some] by auto
  obtain r where r: "oldest_pending_seq c = Some r" "?nx - pr_sequence q \<le> ?nx - r"
    and rest: "\<forall>p. Some p \<in> set (drop (Suc i) ?slots) \<longrightarrow> ?nx - pr_sequence p \<le> ?nx - r"
    and src: "r = pr_sequence q \<or> (\<exists>p. Some p \<in> set (drop (Suc i) ?slots) \<and> pr_sequence p = r)"
    using oldest_loop_some [of ?nx "drop (Suc i) ?slots" "pr_sequence q"] Some q
    by (auto simp: oldest_pending_seq_def oldest_loop_none)
  have split: "?slots = take i ?slots @ Some q # drop (Suc i) ?slots"
    using id_take_nth_drop [OF i] q by simp
  have "Some p \<notin> set (take i ?slots)" for p
    using none i by (auto simp: in_set_conv_nth)
  then have mem: "Some p \<in> set ?slots \<longleftrightarrow> p = q \<or> Some p \<in> set (drop (Suc i) ?slots)" for p
    by (subst split) auto
  have "age c p \<le> unat (?nx - r)" if "Some p \<in> set ?slots" for p
    using that r(2) rest mem by (auto simp: age_def word_le_nat_alt)
  moreover have "\<exists>p. Some p \<in> set ?slots \<and> age c p = unat (?nx - r)"
    using src mem by (auto simp: age_def)
  ultimately show ?thesis
    unfolding window_full_def r(1) by (auto intro: le_trans)
qed

text \<open>A window that is not full leaves a free slot, because the ages of the packets differ.\<close>

lemma age_eq_iff: "age c p = age c q \<longleftrightarrow> pr_sequence p = pr_sequence q"
  by (simp add: age_def word_unat_eq_iff [symmetric])

lemma window_free_slot:
  assumes inv: "send_window c" and pos: "0 < length (rc_pending c)" and free: "\<not> window_full c"
  shows "\<exists>i. find_index (\<lambda>slot. slot = None) (rc_pending c) = Some i"
proof (rule ccontr)
  let ?n = "length (rc_pending c)"
  let ?g = "\<lambda>i. age c (the (rc_pending c ! i))"
  assume "\<nexists>i. find_index (\<lambda>slot. slot = None) (rc_pending c) = Some i"
  then have "find_index (\<lambda>slot. slot = None) (rc_pending c) = None" by (meson not_None_eq)
  then have some: "\<exists>p. rc_pending c ! i = Some p" if "i < ?n" for i
    using that by (auto simp: find_index_None_iff)
  have "inj_on ?g {..<?n}"
  proof (rule inj_onI)
    fix i j
    assume ij: "i \<in> {..<?n}" "j \<in> {..<?n}" "?g i = ?g j"
    obtain p q where "rc_pending c ! i = Some p" "rc_pending c ! j = Some q"
      using some [of i] some [of j] ij(1,2) by (meson lessThan_iff)
    with ij show "i = j" using send_windowD(3) [OF inv, of j q i p] by (simp add: age_eq_iff)
  qed
  then have "card (?g ` {..<?n}) = ?n" by (simp add: card_image)
  moreover have "?g i \<in> {1..<?n}" if i: "i < ?n" for i
  proof -
    obtain p where p: "rc_pending c ! i = Some p" using some [OF i] by blast
    then have "\<not> ?n \<le> age c p"
      using free window_full_iff [OF pos] i nth_mem by metis
    with send_windowD(1) [OF inv i p] p show ?thesis by simp
  qed
  then have "?g ` {..<?n} \<subseteq> {1..<?n}" by auto
  then have "card (?g ` {..<?n}) \<le> ?n - 1" using card_mono [of "{1..<?n}"] by fastforce
  ultimately show False using pos by linarith
qed

subsection \<open>Every operation keeps the window\<close>

lemma send_window_new: "send_window (ReliableChannel_new P R)"
  by (auto simp: send_window_def ReliableChannel_new_def)

text \<open>An operation that only drops pending packets, or changes their timers, keeps it.\<close>

lemma send_window_shrink:
  assumes "send_window c" and "rc_next_outgoing c' = rc_next_outgoing c"
    and "length (rc_pending c') = length (rc_pending c)"
    and "\<And>i p. i < length (rc_pending c) \<Longrightarrow> rc_pending c' ! i = Some p \<Longrightarrow>
      \<exists>q. rc_pending c ! i = Some q \<and> pr_sequence q = pr_sequence p"
  shows "send_window c'"
proof -
  have "age c' p = age c q" if "pr_sequence q = pr_sequence p" for p q
    using that assms(2) by (simp add: age_def)
  then show ?thesis
    using assms unfolding send_window_def by (metis (no_types, lifting))
qed

lemma process_remote_ack_window: "send_window c \<Longrightarrow> send_window (process_remote_ack ack f c)"
  by (erule send_window_shrink) (auto simp: process_remote_ack_def split: option.splits if_splits)

lemma receive_pending:
  "receive_reliable_packet seq data c = (c', r) \<Longrightarrow>
     rc_pending c' = rc_pending c \<and> rc_next_outgoing c' = rc_next_outgoing c"
  by (auto simp: receive_reliable_packet_def split: if_splits option.splits)

lemma drain_next_pending:
  "drain_next_ordered_packet c = (c', r) \<Longrightarrow>
     rc_pending c' = rc_pending c \<and> rc_next_outgoing c' = rc_next_outgoing c"
  by (auto simp: drain_next_ordered_packet_def split: option.splits)

lemma drain_pending:
  "drain_ordered_packets room c = (c', ps) \<Longrightarrow>
     rc_pending c' = rc_pending c \<and> rc_next_outgoing c' = rc_next_outgoing c"
  by (induction room arbitrary: c c' ps) (auto split: prod.splits option.splits dest!: drain_next_pending)

lemma receive_and_drain_pending:
  "receive_and_drain_ordered seq data room c = (c', r) \<Longrightarrow>
     rc_pending c' = rc_pending c \<and> rc_next_outgoing c' = rc_next_outgoing c"
  by (auto simp: receive_and_drain_ordered_def sbind_def split: prod.splits sum.splits option.splits if_splits
      dest!: receive_pending drain_pending)

lemma retry_loop_shape:
  "retry_loop m slots = (slots', calls, out) \<Longrightarrow> length slots' = length slots
     \<and> (\<forall>i p. i < length slots \<and> slots' ! i = Some p \<longrightarrow> (\<exists>q. slots ! i = Some q \<and> pr_sequence q = pr_sequence p))"
proof (induction slots arbitrary: slots' calls out)
  case Nil
  then show ?case by simp
next
  case (Cons slot slots)
  obtain rest c o' where r: "retry_loop m slots = (rest, c, o')" by (cases "retry_loop m slots")
  note IH = Cons.IH [OF r]
  show ?case
    using Cons.prems r IH
    by (auto simp: Let_def nth_Cons less_Suc_eq_0_disj split: option.splits if_splits nat.splits)
qed

lemma check_retransmissions_window:
  "send_window c \<Longrightarrow> check_retransmissions c = (c', calls, r) \<Longrightarrow> send_window c'"
  by (erule send_window_shrink)
    (auto simp: check_retransmissions_def split: if_splits prod.splits dest!: retry_loop_shape)

lemma queue_spec:
  "queue_reliable_message data c = (c', r) \<Longrightarrow>
     (case r of
        Inl e \<Rightarrow> c' = c
      | Inr seq \<Rightarrow> length data \<le> MAX_RELIABLE_PAYLOAD \<and> \<not> window_full c \<and> seq = rc_next_outgoing c
          \<and> (\<exists>i. i < length (rc_pending c) \<and> rc_pending c ! i = None
               \<and> c' = c\<lparr>rc_next_outgoing := seq + 1, rc_pending := (rc_pending c)[i := Some
                   \<lparr>pr_sequence = seq, pr_payload = payload_of data, pr_len = length data,
                    pr_retry_countdown = DEFAULT_RETRY_TICKS, pr_retry_count = 0\<rparr>]\<rparr>))"
  by (auto simp: queue_reliable_message_def Let_def split: if_splits option.splits dest!: find_index_SomeD)

lemma age_after_queue:
  assumes "rc_next_outgoing c' = rc_next_outgoing c + 1" and "age c p < 65535"
  shows "age c' p = Suc (age c p)"
proof -
  have e: "rc_next_outgoing c' - pr_sequence p = rc_next_outgoing c - pr_sequence p + 1"
    unfolding assms(1) by simp
  show ?thesis
    using assms(2) unfolding age_def e by (subst unat_plus_simple [THEN iffD1]) (auto simp: no_olen_add_nat)
qed

lemma queue_window:
  assumes inv: "send_window c" and cap: "length (rc_pending c) < 65536"
    and q: "queue_reliable_message data c = (c', r)"
  shows "send_window c'"
proof (cases r)
  case (Inl e)
  with queue_spec [OF q] inv show ?thesis by simp
next
  case (Inr seq)
  let ?n = "length (rc_pending c)"
  let ?new = "\<lparr>pr_sequence = seq, pr_payload = payload_of data, pr_len = length data,
                    pr_retry_countdown = DEFAULT_RETRY_TICKS, pr_retry_count = 0\<rparr>"
  obtain i where i: "i < ?n" "rc_pending c ! i = None" and free: "\<not> window_full c"
    and seq: "seq = rc_next_outgoing c"
    and c': "c' = c\<lparr>rc_next_outgoing := seq + 1, rc_pending := (rc_pending c)[i := Some ?new]\<rparr>"
    using queue_spec [OF q] Inr by auto
  have nx: "rc_next_outgoing c' = rc_next_outgoing c + 1" by (simp add: c' seq)
  have old: "0 < age c p" "age c p < ?n" "age c' p = Suc (age c p)"
    if "j < ?n" "rc_pending c ! j = Some p" for j p
  proof -
    show "0 < age c p" using send_windowD(1) [OF inv that] .
    show "age c p < ?n"
      using free window_full_iff [of c] that nth_mem i(1) by (metis not_le gr_implies_not0 neq0_conv)
    then show "age c' p = Suc (age c p)" using age_after_queue [OF nx] cap by simp
  qed
  have fresh: "age c' ?new = 1" by (simp add: age_def c')
  have ne: "pr_sequence p \<noteq> seq" if "j < ?n" "rc_pending c ! j = Some p" for j p
    using old(1) [OF that] by (auto simp: age_def seq)
  show ?thesis
    unfolding send_window_def
  proof (intro allI impI, elim conjE)
    fix j p
    assume j: "j < length (rc_pending c')" "rc_pending c' ! j = Some p"
    then have jn: "j < ?n" by (simp add: c')
    have other: "k = j" if "k < ?n" "(rc_pending c)[i := Some ?new] ! k = Some q" "pr_sequence q = pr_sequence p" for k q
      using that j jn i ne send_windowD(3) [OF inv jn, of p k q]
      by (auto simp: c' nth_list_update split: if_splits) (metis)+
    have "0 < age c' p \<and> age c' p \<le> ?n"
    proof (cases "j = i")
      case True
      then have "p = ?new" using j(2) i(1) by (simp add: c')
      with fresh i(1) show ?thesis by simp
    next
      case False
      then have "rc_pending c ! j = Some p" using j(2) by (simp add: c')
      with old [OF jn] show ?thesis by simp
    qed
    with other show "0 < age c' p \<and> age c' p \<le> length (rc_pending c') \<and>
        (\<forall>k q. k < length (rc_pending c') \<and> rc_pending c' ! k = Some q \<and> pr_sequence q = pr_sequence p \<longrightarrow> k = j)"
      by (simp add: c')
  qed
qed

text \<open>Every history of calls on a channel.\<close>

inductive channel_run :: "nat \<Rightarrow> nat \<Rightarrow> ReliableChannel \<Rightarrow> bool" for P R where
  created: "channel_run P R (ReliableChannel_new P R)"
| queued: "channel_run P R c \<Longrightarrow> channel_run P R (fst (queue_reliable_message data c))"
| acked: "channel_run P R c \<Longrightarrow> channel_run P R (process_remote_ack ack field c)"
| received: "channel_run P R c \<Longrightarrow> channel_run P R (fst (receive_reliable_packet seq data c))"
| drained: "channel_run P R c \<Longrightarrow> channel_run P R (fst (drain_ordered_packets room c))"
| received_drained: "channel_run P R c \<Longrightarrow> channel_run P R (fst (receive_and_drain_ordered seq data room c))"
| ticked: "channel_run P R c \<Longrightarrow> channel_run P R (fst (check_retransmissions c))"
| configured: "channel_run P R c \<Longrightarrow> channel_run P R (set_max_retries m c)"

lemma same_pending_window:
  "send_window c \<Longrightarrow> rc_pending c' = rc_pending c \<and> rc_next_outgoing c' = rc_next_outgoing c \<Longrightarrow> send_window c'"
  by (simp add: send_window_def age_def)

lemma queue_length: "queue_reliable_message data c = (c', r) \<Longrightarrow> length (rc_pending c') = length (rc_pending c)"
  by (drule queue_spec) (auto split: sum.splits)

lemma channel_run_window:
  "channel_run P R c \<Longrightarrow> P < 65536 \<Longrightarrow> send_window c \<and> length (rc_pending c) = P"
proof (induction rule: channel_run.induct)
  case created
  show ?case by (simp add: send_window_new) (simp add: ReliableChannel_new_def)
next
  case (queued c data)
  then show ?case by (metis queue_window queue_length prod.collapse)
next
  case (acked c ack field)
  then show ?case by (simp add: process_remote_ack_window) (simp add: process_remote_ack_def)
next
  case (received c seq data)
  then show ?case by (metis receive_pending same_pending_window prod.collapse)
next
  case (drained c room)
  then show ?case by (metis drain_pending same_pending_window prod.collapse)
next
  case (received_drained c seq data room)
  then show ?case by (metis receive_and_drain_pending same_pending_window prod.collapse)
next
  case (ticked c)
  obtain c' calls r where t: "check_retransmissions c = (c', calls, r)" by (metis prod.collapse)
  then have "length (rc_pending c') = length (rc_pending c)"
    by (auto simp: check_retransmissions_def split: if_splits prod.splits dest!: retry_loop_shape)
  with ticked t check_retransmissions_window [OF _ t] show ?case by simp
next
  case (configured c m)
  then show ?case
    using same_pending_window [of c "set_max_retries m c"] by (simp add: set_max_retries_def)
qed

text \<open>
  C11. The send window. However a channel of capacity \<open>P\<close> (below the sequence space) is used, the
  packets it still has to deliver carry different sequence numbers, all among the last \<open>P\<close> it
  assigned; and a message of at most 256 bytes is refused only when the oldest packet in flight is a
  full window old: otherwise it gets the next number and is stored in a free slot. Nothing else is
  changed by a refusal.
\<close>

theorem send_window_invariant:
  assumes run: "channel_run P R c" and P: "0 < P" "P < 65536"
  shows "(\<forall>i<P. \<forall>p. rc_pending c ! i = Some p \<longrightarrow> 0 < age c p \<and> age c p \<le> P
        \<and> (\<forall>j<P. \<forall>q. rc_pending c ! j = Some q \<and> pr_sequence q = pr_sequence p \<longrightarrow> j = i))
    \<and> (\<forall>data c' seq. queue_reliable_message data c = (c', Inr seq) \<longleftrightarrow>
      length data \<le> MAX_RELIABLE_PAYLOAD
      \<and> (\<forall>p. Some p \<in> set (rc_pending c) \<longrightarrow> age c p < P)
      \<and> seq = rc_next_outgoing c
      \<and> (\<exists>i<P. find_index (\<lambda>slot. slot = None) (rc_pending c) = Some i
           \<and> c' = c\<lparr>rc_next_outgoing := seq + 1, rc_pending := (rc_pending c)[i := Some
               \<lparr>pr_sequence = seq, pr_payload = payload_of data, pr_len = length data,
                pr_retry_countdown = DEFAULT_RETRY_TICKS, pr_retry_count = 0\<rparr>]\<rparr>))
    \<and> (\<forall>data c' e. queue_reliable_message data c = (c', Inl e) \<longrightarrow> c' = c)"
proof -
  note inv = channel_run_window [OF run P(2)]
  have pos: "0 < length (rc_pending c)" using inv P by linarith
  have room: "\<not> window_full c \<longleftrightarrow> (\<forall>p. Some p \<in> set (rc_pending c) \<longrightarrow> age c p < P)"
    using window_full_iff [OF pos] inv by (auto simp: not_le)
  have slot: "\<exists>i<P. find_index (\<lambda>slot. slot = None) (rc_pending c) = Some i" if "\<not> window_full c"
    using window_free_slot [OF _ pos that] inv find_index_less by metis
  have distinct: "\<forall>i<P. \<forall>p. rc_pending c ! i = Some p \<longrightarrow> 0 < age c p \<and> age c p \<le> P
        \<and> (\<forall>j<P. \<forall>q. rc_pending c ! j = Some q \<and> pr_sequence q = pr_sequence p \<longrightarrow> j = i)"
    using inv unfolding send_window_def by blast
  have queue: "queue_reliable_message data c = (c', Inr seq) \<longleftrightarrow>
      length data \<le> MAX_RELIABLE_PAYLOAD
      \<and> (\<forall>p. Some p \<in> set (rc_pending c) \<longrightarrow> age c p < P)
      \<and> seq = rc_next_outgoing c
      \<and> (\<exists>i<P. find_index (\<lambda>slot. slot = None) (rc_pending c) = Some i
           \<and> c' = c\<lparr>rc_next_outgoing := seq + 1, rc_pending := (rc_pending c)[i := Some
               \<lparr>pr_sequence = seq, pr_payload = payload_of data, pr_len = length data,
                pr_retry_countdown = DEFAULT_RETRY_TICKS, pr_retry_count = 0\<rparr>]\<rparr>)" for data c' seq
      unfolding room [symmetric]
      using slot by (auto simp: queue_reliable_message_def Let_def split: option.splits)
  have refused: "queue_reliable_message data c = (c', Inl e) \<longrightarrow> c' = c" for data c' e
    using queue_spec [of data c c' "Inl e"] by simp
  show ?thesis
    by (intro conjI, rule distinct, intro allI, rule queue, intro allI, rule refused)
qed

theorem send_window_invariant_witness:
  "\<exists>c. channel_run 2 1 c \<and> (\<forall>c' seq. queue_reliable_message [7] c \<noteq> (c', Inr seq))"
proof -
  define c1 where "c1 = fst (queue_reliable_message [5] (ReliableChannel_new 2 1))"
  define c2 where "c2 = fst (queue_reliable_message [6] c1)"
  have run: "channel_run 2 1 c2"
    unfolding c2_def c1_def by (intro channel_run.intros)
  have "rc_pending c2 ! 0 \<noteq> None \<and> length (rc_pending c2) = 2 \<and> age c2 (the (rc_pending c2 ! 0)) = 2"
    unfolding c2_def c1_def by code_simp
  then have "\<not> (\<forall>p. Some p \<in> set (rc_pending c2) \<longrightarrow> age c2 p < 2)"
    by (metis less_irrefl nth_mem option.collapse zero_less_numeral)
  then have "queue_reliable_message [7] c2 \<noteq> (c', Inr seq)" for c' seq
    using send_window_invariant [OF run] by auto
  with run show ?thesis by blast
qed

section \<open>Ordered delivery\<close>

text \<open>
  The message of a delivered packet is the front of its array. The receiver's state describes a
  position \<open>E\<close>, the number of messages delivered, and every entry of its reorder buffer is a later
  message of the sender, at most half the sequence space ahead and stored once.
\<close>

definition message :: "u8 list \<times> nat \<Rightarrow> u8 list" where
  "message pk = take (snd pk) (fst pk)"

abbreviation pos :: "nat \<Rightarrow> u16" where
  "pos n \<equiv> of_nat n"

definition fits :: "nat \<Rightarrow> u8 list list \<Rightarrow> IncomingReliablePacket \<Rightarrow> bool" where
  "fits E sent e \<longleftrightarrow>
     (\<exists>n. E \<le> n \<and> n < length sent \<and> n < E + 32768 \<and> in_sequence e = pos n
        \<and> message (in_payload e, in_len e) = sent ! n)"

definition buffers :: "ReliableChannel \<Rightarrow> nat \<Rightarrow> u8 list list \<Rightarrow> bool" where
  "buffers c E sent \<longleftrightarrow> rc_expected_incoming c = pos E \<and> E \<le> length sent
     \<and> (\<forall>e. Some e \<in> set (rc_reorder c) \<longrightarrow> fits E sent e) \<and> keyed in_sequence (rc_reorder c)"

definition drained_out :: "ReliableChannel \<Rightarrow> bool" where
  "drained_out c \<longleftrightarrow> (\<forall>e. Some e \<in> set (rc_reorder c) \<longrightarrow> in_sequence e \<noteq> rc_expected_incoming c)"

lemma message_payload_of: "length data \<le> MAX_RELIABLE_PAYLOAD \<Longrightarrow> message (payload_of data, length data) = data"
  by (simp add: message_def payload_of_def slice_put_def)

lemma pos_eq_iff: "E \<le> n \<Longrightarrow> n < E + 32768 \<Longrightarrow> pos n = pos E \<longleftrightarrow> n = E"
  using wire_eq_iff [of "int n" "int E"] by simp

lemma pos_newer: "n < E + 32768 \<Longrightarrow> E \<le> n + 32768 \<Longrightarrow> is_sequence_newer (pos n) (pos E) \<longleftrightarrow> E < n"
  using wire_newer [of "int E" "int n"] by simp

lemma pos_Suc: "pos E + 1 = pos (Suc E)"
  by simp

lemma fits_more: "fits E sent e \<Longrightarrow> fits E (sent @ ys) e"
  unfolding fits_def by (auto simp: nth_append)

lemma fits_advance: "fits E sent e \<Longrightarrow> in_sequence e \<noteq> pos E \<Longrightarrow> fits (Suc E) sent e"
  unfolding fits_def by (metis Suc_leI add_Suc less_SucI nat_less_le)

lemma buffers_more: "buffers c E sent \<Longrightarrow> buffers c E (sent @ ys)"
  by (simp add: buffers_def fits_more)

text \<open>Moving on to the next position, when no entry of the buffer carries the current one.\<close>

lemma buffers_advance:
  "buffers c E sent \<Longrightarrow> drained_out c \<Longrightarrow> E < length sent \<Longrightarrow>
    buffers (c\<lparr>rc_expected_incoming := rc_expected_incoming c + 1\<rparr>) (Suc E) sent"
  by (simp add: buffers_def drained_out_def fits_advance)

lemma drain_next_none:
  "drain_next_ordered_packet c = (c', None) \<Longrightarrow> c' = c \<and> drained_out c"
  by (auto simp: drain_next_ordered_packet_def drained_out_def find_index_None_iff
      split: option.splits dest!: find_index_SomeD)

lemma drain_next_some:
  assumes b: "buffers c E sent" and d: "drain_next_ordered_packet c = (c', Some pk)"
  shows "E < length sent" and "message pk = sent ! E" and "buffers c' (Suc E) sent"
    and "Suc (occupied (rc_reorder c')) = occupied (rc_reorder c)"
proof -
  obtain i e where i: "i < length (rc_reorder c)" "rc_reorder c ! i = Some e"
    and e: "in_sequence e = rc_expected_incoming c"
    and pk: "pk = (in_payload e, in_len e)"
    and c': "c' = c\<lparr>rc_reorder := (rc_reorder c)[i := None], rc_expected_incoming := rc_expected_incoming c + 1\<rparr>"
    using d by (auto simp: drain_next_ordered_packet_def split: option.splits dest!: find_index_SomeD)
  have "fits E sent e" using b i nth_mem unfolding buffers_def by metis
  then obtain n where n: "E \<le> n" "n < length sent" "n < E + 32768" "in_sequence e = pos n"
    "message (in_payload e, in_len e) = sent ! n" unfolding fits_def by blast
  have "n = E" using n(1,3,4) e b pos_eq_iff unfolding buffers_def by metis
  with n pk show E: "E < length sent" and "message pk = sent ! E" by simp_all
  let ?c = "c\<lparr>rc_reorder := (rc_reorder c)[i := None]\<rparr>"
  have one: "keyed in_sequence (rc_reorder c)" using b by (simp add: buffers_def)
  have sub: "\<exists>j. j \<noteq> i \<and> j < length (rc_reorder c) \<and> rc_reorder c ! j = Some f" if "Some f \<in> set (rc_reorder ?c)" for f
    using that i(1) by (auto simp: in_set_conv_nth nth_list_update split: if_splits)
  then have "buffers ?c E sent"
    using b keyed_clear [OF one] unfolding buffers_def by (auto dest!: sub) (metis nth_mem)
  moreover have "drained_out ?c"
    using sub one i e unfolding drained_out_def keyed_def by fastforce
  ultimately show "buffers c' (Suc E) sent"
    using buffers_advance [of ?c E sent] E by (simp add: c')
  show "Suc (occupied (rc_reorder c')) = occupied (rc_reorder c)"
    using occupied_upd_None [of i "rc_reorder c"] i by (simp add: c')
qed

lemma drain_spec:
  "drain_ordered_packets room c = (c', ps) \<Longrightarrow> buffers c E sent \<Longrightarrow> occupied (rc_reorder c) \<le> room \<Longrightarrow>
    buffers c' (E + length ps) sent \<and> map message ps = take (length ps) (drop E sent) \<and> drained_out c'"
proof (induction room arbitrary: c ps E)
  case 0
  then have "\<forall>s\<in>set (rc_reorder c). s = None" by (auto simp: occupied_def filter_empty_conv)
  with 0 show ?case by (auto simp: drained_out_def)
next
  case (Suc room)
  obtain c1 r where n: "drain_next_ordered_packet c = (c1, r)" by (cases "drain_next_ordered_packet c")
  show ?case
  proof (cases r)
    case None
    with n Suc.prems drain_next_none [of c c1] show ?thesis by simp
  next
    case (Some pk)
    note d = drain_next_some [OF Suc.prems(2) n [unfolded Some]]
    obtain qs where qs: "drain_ordered_packets room c1 = (c', qs)" "ps = pk # qs"
      using Suc.prems(1) n Some by (auto split: prod.splits)
    have "occupied (rc_reorder c1) \<le> room" using d(4) Suc.prems(3) by simp
    from Suc.IH [OF qs(1) d(3) this] qs(2) d(1,2) show ?thesis
      by (simp add: Cons_nth_drop_Suc [symmetric])
  qed
qed

lemma receive_spec:
  assumes b: "buffers c E sent" and out: "drained_out c" and n: "n < length sent"
    and near: "n < E + 32768" "E \<le> n + 32768" and len: "length (sent ! n) \<le> MAX_RELIABLE_PAYLOAD"
    and r: "receive_reliable_packet (pos n) (sent ! n) c = (c', r)"
  shows "length (rc_reorder c') = length (rc_reorder c)"
    and "n = E \<Longrightarrow> \<exists>pk. r = Inr (Some pk) \<and> message pk = sent ! E \<and> buffers c' (Suc E) sent"
    and "n \<noteq> E \<Longrightarrow> (\<forall>pk. r \<noteq> Inr (Some pk)) \<and> buffers c' E sent \<and> drained_out c'"
proof -
  have exp: "rc_expected_incoming c = pos E" and E: "E \<le> length sent" and one: "keyed in_sequence (rc_reorder c)"
    and fit: "\<And>e. Some e \<in> set (rc_reorder c) \<Longrightarrow> fits E sent e"
    using b by (auto simp: buffers_def)
  show "length (rc_reorder c') = length (rc_reorder c)"
    using r by (auto simp: receive_reliable_packet_def split: if_splits option.splits)
  show "\<exists>pk. r = Inr (Some pk) \<and> message pk = sent ! E \<and> buffers c' (Suc E) sent" if "n = E"
    using r len that n message_payload_of [OF len] buffers_advance [OF b out]
    by (auto simp: receive_reliable_packet_def exp)
  show "(\<forall>pk. r \<noteq> Inr (Some pk)) \<and> buffers c' E sent \<and> drained_out c'" if ne: "n \<noteq> E"
  proof (cases "c' = c")
    case True
    have "pos n \<noteq> pos E"
      using near ne pos_eq_iff [of E n] pos_eq_iff [of n E] wire_eq_iff [of "int n" "int E"] by auto
    with True r b out show ?thesis
      by (auto simp: receive_reliable_packet_def exp Let_def split: if_splits option.splits)
  next
    case False
    let ?e = "\<lparr>in_sequence = pos n, in_payload = payload_of (sent ! n), in_len = length (sent ! n)\<rparr>"
    have pos: "pos n \<noteq> pos E"
      using near ne wire_eq_iff [of "int n" "int E"] by auto
    obtain i where c': "c' = c\<lparr>rc_reorder := (rc_reorder c)[i := Some ?e]\<rparr>" and r': "r = Inr None"
      and newer: "is_sequence_newer (pos n) (pos E)"
      and dup: "\<not> (\<exists>slot\<in>set (rc_reorder c). case slot of None \<Rightarrow> False | Some f \<Rightarrow> in_sequence f = pos n)"
      using r len pos False
      by (auto simp: receive_reliable_packet_def exp split: if_splits option.splits)
    have "E < n" using newer pos_newer [OF near] by simp
    then have new: "fits E sent ?e"
      unfolding fits_def using n near message_payload_of [OF len] by (intro exI [of _ n]) simp
    have mem: "Some f \<in> set ((rc_reorder c)[i := Some ?e]) \<Longrightarrow> f = ?e \<or> Some f \<in> set (rc_reorder c)" for f
      using set_update_subset_insert [of "rc_reorder c" i "Some ?e"] by blast
    have "keyed in_sequence ((rc_reorder c)[i := Some ?e])"
      using dup by (intro keyed_put [OF one]) (auto split: option.splits)
    then have "buffers c' E sent"
      using mem new fit E exp unfolding buffers_def c' by auto
    moreover have "drained_out c'"
      using out pos exp unfolding drained_out_def c' by (auto dest!: mem)
    ultimately show ?thesis using r' by simp
  qed
qed

lemma drained_length: "drain_ordered_packets room c = (c', ps) \<Longrightarrow> length (rc_reorder c') = length (rc_reorder c)"
  by (induction room arbitrary: c ps)
    (auto simp: drain_next_ordered_packet_def split: prod.splits option.splits)

definition delivered :: "NetError + (u8 list \<times> nat) list \<Rightarrow> u8 list list" where
  "delivered r = (case r of Inl e \<Rightarrow> [] | Inr ps \<Rightarrow> map message ps)"

lemma receive_and_drain_spec:
  assumes b: "buffers c E sent" and out: "drained_out c" and n: "n < length sent"
    and near: "n < E + 32768" "E \<le> n + 32768" and len: "length (sent ! n) \<le> MAX_RELIABLE_PAYLOAD"
    and room: "length (rc_reorder c) < room"
    and r: "receive_and_drain_ordered (pos n) (sent ! n) room c = (c', r)"
  shows "length (rc_reorder c') = length (rc_reorder c)"
    and "\<exists>k. delivered r = take k (drop E sent) \<and> length (delivered r) = k
      \<and> buffers c' (E + k) sent \<and> drained_out c' \<and> (n = E \<longrightarrow> 0 < k)"
proof -
  obtain c1 r1 where rr: "receive_reliable_packet (pos n) (sent ! n) c = (c1, r1)"
    by (cases "receive_reliable_packet (pos n) (sent ! n) c")
  note spec = receive_spec [OF b out n near len rr]
  have "length (rc_reorder c') = length (rc_reorder c) \<and> (\<exists>k. delivered r = take k (drop E sent)
      \<and> length (delivered r) = k \<and> buffers c' (E + k) sent \<and> drained_out c' \<and> (n = E \<longrightarrow> 0 < k))"
  proof (cases "n = E")
    case True
    then obtain pk where pk: "r1 = Inr (Some pk)" "message pk = sent ! E" "buffers c1 (Suc E) sent"
      using spec(2) by blast
    obtain ps where ps: "drain_ordered_packets (room - 1) c1 = (c', ps)" "r = Inr (pk # ps)"
      using r rr pk(1) room by (auto simp: receive_and_drain_ordered_def sbind_def split: prod.splits)
    have occ: "occupied (rc_reorder c1) \<le> room - 1"
      using occupied_le [of "rc_reorder c1"] spec(1) room by linarith
    note d = drain_spec [OF ps(1) pk(3) occ]
    have E: "E < length sent" using n True by simp
    have "delivered r = take (Suc (length ps)) (drop E sent)"
      using d pk(2) E by (simp add: delivered_def ps(2) Cons_nth_drop_Suc [symmetric])
    moreover have "length (delivered r) = Suc (length ps)" by (simp add: delivered_def ps(2))
    moreover have "length (rc_reorder c') = length (rc_reorder c)"
      using drained_length [OF ps(1)] spec(1) by simp
    ultimately show ?thesis using d by (intro conjI exI [of _ "Suc (length ps)"]) simp_all
  next
    case False
    with spec(3) have s: "\<forall>pk. r1 \<noteq> Inr (Some pk)" "buffers c1 E sent" "drained_out c1" by simp_all
    then have "c' = c1 \<and> delivered r = []"
      using r rr by (auto simp: receive_and_drain_ordered_def sbind_def delivered_def
          split: sum.splits option.splits)
    with s spec(1) False show ?thesis by auto
  qed
  then show "length (rc_reorder c') = length (rc_reorder c)"
    and "\<exists>k. delivered r = take k (drop E sent) \<and> length (delivered r) = k
      \<and> buffers c' (E + k) sent \<and> drained_out c' \<and> (n = E \<longrightarrow> 0 < k)" by simp_all
qed

text \<open>
  Two endpoints and a network between them. The sender's user queues messages; the sender takes
  acknowledgements, genuine or not, and ticks; the network hands any message that was sent to the
  receiver, as often and in any order it likes, as long as it is less than half the sequence space
  away from the next one due. The receiver's output has room for more packets than its buffer.
\<close>

inductive transfer ::
  "nat \<Rightarrow> nat \<Rightarrow> ReliableChannel \<Rightarrow> ReliableChannel \<Rightarrow> u8 list list \<Rightarrow> u8 list list \<Rightarrow> bool" for P R where
  opened: "transfer P R (ReliableChannel_new P R) (ReliableChannel_new P R) [] []"
| sent: "transfer P R cs cr sent got \<Longrightarrow> queue_reliable_message data cs = (cs', Inr seq) \<Longrightarrow>
    transfer P R cs' cr (sent @ [data]) got"
| acked: "transfer P R cs cr sent got \<Longrightarrow> transfer P R (process_remote_ack ack field cs) cr sent got"
| ticked: "transfer P R cs cr sent got \<Longrightarrow> transfer P R (fst (check_retransmissions cs)) cr sent got"
| arrived: "transfer P R cs cr sent got \<Longrightarrow> n < length sent \<Longrightarrow>
    n < length got + 32768 \<Longrightarrow> length got \<le> n + 32768 \<Longrightarrow> R < room \<Longrightarrow>
    receive_and_drain_ordered (pos n) (sent ! n) room cr = (cr', r) \<Longrightarrow>
    transfer P R cs cr' sent (got @ delivered r)"

definition receiver_ok :: "nat \<Rightarrow> ReliableChannel \<Rightarrow> u8 list list \<Rightarrow> u8 list list \<Rightarrow> bool" where
  "receiver_ok R c sent got \<longleftrightarrow>
     length (rc_reorder c) = R \<and> buffers c (length got) sent \<and> drained_out c
     \<and> got = take (length got) sent \<and> (\<forall>d\<in>set sent. length d \<le> MAX_RELIABLE_PAYLOAD)"

lemma transfer_receiver: "transfer P R cs cr sent got \<Longrightarrow> receiver_ok R cr sent got"
proof (induction rule: transfer.induct)
  case opened
  show ?case
    by (auto simp: receiver_ok_def ReliableChannel_new_def buffers_def drained_out_def keyed_def)
next
  case (sent cs cr sent got data cs' seq)
  have "length data \<le> MAX_RELIABLE_PAYLOAD" using queue_spec [OF sent.hyps(2)] by simp
  with sent.IH show ?case
    using buffers_more by (auto simp: receiver_ok_def buffers_def)
next
  case (arrived cs cr sent got n room cr' r)
  then have ok: "length (rc_reorder cr) = R" "buffers cr (length got) sent" "drained_out cr"
    "got = take (length got) sent" "\<forall>d\<in>set sent. length d \<le> MAX_RELIABLE_PAYLOAD"
    by (auto simp: receiver_ok_def)
  have len: "length (sent ! n) \<le> MAX_RELIABLE_PAYLOAD" using ok(5) arrived.hyps(2) by simp
  have room: "length (rc_reorder cr) < room" using ok(1) arrived.hyps(5) by simp
  note d = receive_and_drain_spec [OF ok(2,3) arrived.hyps(2-4) len room arrived.hyps(6)]
  then obtain k where k: "delivered r = take k (drop (length got) sent)" "length (delivered r) = k"
    "buffers cr' (length got + k) sent" "drained_out cr'" by blast
  have "got @ delivered r = take (length got + k) sent"
    using ok(4) k(1) by (simp add: take_add)
  moreover have "length (got @ delivered r) = length got + k" using k(2) by simp
  ultimately show ?case
    unfolding receiver_ok_def using k(3,4) d(1) ok(1,5) by simp
qed simp_all

text \<open>The sender's pending packets are messages it was given, under their numbers.\<close>

definition genuine :: "u8 list list \<Rightarrow> PendingReliablePacket \<Rightarrow> bool" where
  "genuine sent p \<longleftrightarrow>
     (\<exists>n<length sent. pr_sequence p = pos n \<and> message (pr_payload p, pr_len p) = sent ! n)"

definition sender_ok :: "ReliableChannel \<Rightarrow> u8 list list \<Rightarrow> bool" where
  "sender_ok c sent \<longleftrightarrow> rc_next_outgoing c = pos (length sent)
     \<and> (\<forall>p. Some p \<in> set (rc_pending c) \<longrightarrow> genuine sent p)"

lemma retry_loop_genuine:
  "retry_loop m slots = (slots', calls, out) \<Longrightarrow> (\<forall>p. Some p \<in> set slots \<longrightarrow> genuine sent p) \<Longrightarrow>
     (\<forall>p. Some p \<in> set slots' \<longrightarrow> genuine sent p)
     \<and> (\<forall>seq bytes. (seq, bytes) \<in> set calls \<longrightarrow> (\<exists>n<length sent. seq = pos n \<and> bytes = sent ! n))"
proof (induction slots arbitrary: slots' calls out)
  case Nil
  then show ?case by simp
next
  case (Cons slot slots)
  obtain rest c o' where r: "retry_loop m slots = (rest, c, o')" by (cases "retry_loop m slots")
  have IH: "\<forall>p. Some p \<in> set rest \<longrightarrow> genuine sent p"
    "\<forall>seq bytes. (seq, bytes) \<in> set c \<longrightarrow> (\<exists>n<length sent. seq = pos n \<and> bytes = sent ! n)"
    using Cons.IH [OF r] Cons.prems(2) by auto
  show ?case
  proof (cases slot)
    case None
    with Cons.prems r IH show ?thesis by auto
  next
    case (Some p)
    then have g: "genuine sent p" using Cons.prems(2) by simp
    then have g': "genuine sent (p\<lparr>pr_retry_count := k\<rparr>)"
      "genuine sent (p\<lparr>pr_retry_count := k, pr_retry_countdown := l\<rparr>)"
      "genuine sent (p\<lparr>pr_retry_countdown := l\<rparr>)" for k l
      by (simp_all add: genuine_def)
    have call: "\<exists>n<length sent. pr_sequence p = pos n \<and> take (pr_len p) (pr_payload p) = sent ! n"
      using g by (simp add: genuine_def message_def)
    show ?thesis
      using Cons.prems r IH Some g' call by (auto simp: Let_def split: if_splits)
  qed
qed

lemma transfer_sender: "transfer P R cs cr sent got \<Longrightarrow> sender_ok cs sent"
proof (induction rule: transfer.induct)
  case opened
  show ?case by (simp add: sender_ok_def ReliableChannel_new_def)
next
  case (sent cs cr sent got data cs' seq)
  have old: "genuine sent p \<Longrightarrow> genuine (sent @ [data]) p" for p
    by (auto simp: genuine_def nth_append)
  let ?new = "\<lparr>pr_sequence = seq, pr_payload = payload_of data, pr_len = length data,
    pr_retry_countdown = DEFAULT_RETRY_TICKS, pr_retry_count = 0\<rparr>"
  obtain i where q: "length data \<le> MAX_RELIABLE_PAYLOAD" "seq = rc_next_outgoing cs"
    "cs' = cs\<lparr>rc_next_outgoing := seq + 1, rc_pending := (rc_pending cs)[i := Some ?new]\<rparr>"
    using queue_spec [OF sent.hyps(2)] by auto
  have "genuine (sent @ [data]) ?new"
    using q(2) sent.IH message_payload_of [OF q(1)] unfolding genuine_def sender_ok_def
    by (intro exI [of _ "length sent"]) simp
  moreover have "Some p \<in> set (rc_pending cs') \<Longrightarrow> p = ?new \<or> Some p \<in> set (rc_pending cs)" for p
    using set_update_subset_insert [of "rc_pending cs" i "Some ?new"] by (auto simp: q(3))
  ultimately show ?case
    using sent.IH old q(2,3) unfolding sender_ok_def by (auto simp: add.commute)
next
  case (acked cs cr sent got ack field)
  have "Some p \<in> set (rc_pending (process_remote_ack ack field cs)) \<Longrightarrow> Some p \<in> set (rc_pending cs)" for p
    by (auto simp: process_remote_ack_def split: option.splits if_splits)
  with acked.IH show ?case by (auto simp: sender_ok_def) (simp add: process_remote_ack_def)
next
  case (ticked cs cr sent got)
  then show ?case
    using retry_loop_genuine [of "rc_max_retries cs" "rc_pending cs"]
    by (auto simp: sender_ok_def check_retransmissions_def split: prod.splits)
qed simp_all

text \<open>
  C1. Reliable ordered delivery. Between two channels that a network may duplicate, lose and
  reorder the packets of, and whose sender takes arbitrary acknowledgements, the receiver's user is
  handed a prefix of the messages that were sent: every message once, in order, with its bytes. A
  new message takes the number of its position, every retransmission carries a message that was
  sent under its own number, and the arrival of the next message due always delivers it.
\<close>

theorem reliable_in_order:
  assumes run: "transfer P R cs cr sent got"
  shows "got = take (length got) sent
    \<and> rc_next_outgoing cs = pos (length sent)
    \<and> (\<forall>seq bytes. (seq, bytes) \<in> set (fst (snd (check_retransmissions cs))) \<longrightarrow>
        (\<exists>n<length sent. seq = pos n \<and> bytes = sent ! n))
    \<and> (\<forall>room. length got < length sent \<and> R < room \<longrightarrow>
        (\<exists>rest. delivered (snd (receive_and_drain_ordered (pos (length got)) (sent ! length got) room cr))
           = sent ! length got # rest))"
proof -
  have R: "receiver_ok R cr sent got" and S: "sender_ok cs sent"
    using transfer_receiver [OF run] transfer_sender [OF run] by simp_all
  have retry: "\<exists>n<length sent. seq = pos n \<and> bytes = sent ! n"
    if "(seq, bytes) \<in> set (fst (snd (check_retransmissions cs)))" for seq bytes
    using that S retry_loop_genuine [of "rc_max_retries cs" "rc_pending cs"]
    by (auto simp: sender_ok_def check_retransmissions_def split: if_splits prod.splits)
  have progress: "\<exists>rest. delivered (snd (receive_and_drain_ordered (pos (length got)) (sent ! length got) room cr))
      = sent ! length got # rest"
    if due: "length got < length sent" and room: "R < room" for room
  proof -
    obtain cr' r where step: "receive_and_drain_ordered (pos (length got)) (sent ! length got) room cr = (cr', r)"
      by (rule prod.exhaust)
    then obtain k where k: "delivered r = take k (drop (length got) sent)" "0 < k"
      using receive_and_drain_spec(2) [of cr "length got" sent "length got" room cr' r] R due room
      by (auto simp: receiver_ok_def)
    then show ?thesis using due step by (cases k) (simp_all add: Cons_nth_drop_Suc [symmetric])
  qed
  from R S retry progress show ?thesis unfolding receiver_ok_def sender_ok_def by blast
qed

theorem reliable_in_order_witness:
  "\<exists>cs cr got. transfer 4 2 cs cr [[1], [2]] got \<and> got = take (length got) [[1], [2]] \<and> length got = 2"
proof -
  define c0 where "c0 = ReliableChannel_new 4 2"
  define c1 where "c1 = fst (queue_reliable_message [1] c0)"
  define c2 where "c2 = fst (queue_reliable_message [2] c1)"
  define d1 where "d1 = receive_and_drain_ordered (pos 1) [2] 3 c0"
  define d2 where "d2 = receive_and_drain_ordered (pos 0) [1] 3 (fst d1)"
  have q: "queue_reliable_message [1] c0 = (c1, Inr 0)" "queue_reliable_message [2] c1 = (c2, Inr 1)"
    unfolding c2_def c1_def c0_def by code_simp+
  have r: "delivered (snd d1) = []" "delivered (snd d2) = [[1], [2]]"
    unfolding d2_def d1_def c0_def by code_simp+
  have "transfer 4 2 c2 c0 [[1], [2]] []"
    using transfer.sent [OF transfer.sent [OF transfer.opened q(1) [unfolded c0_def]] q(2)]
    unfolding c0_def by simp
  then have "transfer 4 2 c2 (fst d1) [[1], [2]] []"
    using transfer.arrived [of 4 2 c2 c0 "[[1], [2]]" "[]" 1 3 "fst d1" "snd d1"] r(1)
    by (simp add: d1_def)
  then have run: "transfer 4 2 c2 (fst d2) [[1], [2]] [[1], [2]]"
    using transfer.arrived [of 4 2 c2 "fst d1" "[[1], [2]]" "[]" 0 3 "fst d2" "snd d2"] r(2)
    by (simp add: d2_def)
  from reliable_in_order [OF run, THEN conjunct1] run show ?thesis by fastforce
qed

section \<open>A silent peer\<close>

text \<open>
  A packet that is never acknowledged loses at least one unit of this budget at every tick that
  does not end in a timeout: the countdown falls, or one of the retries left is used and the
  countdown starts again at no more than 32.
\<close>

definition budget :: "u8 \<Rightarrow> PendingReliablePacket \<Rightarrow> nat" where
  "budget m p = 33 * (unat m + 1 - unat (pr_retry_count p)) + unat (pr_retry_countdown p)"

abbreviation tick :: "ReliableChannel \<Rightarrow> ReliableChannel" where
  "tick c \<equiv> fst (check_retransmissions c)"

lemma unat_retry_countdown: "unat (min (push_bit (unat s) DEFAULT_RETRY_TICKS) 32 :: u32) \<le> 32"
  using min.cobounded2 [of "push_bit (unat s) DEFAULT_RETRY_TICKS" "32 :: u32"] by (simp add: word_le_nat_alt)

lemma unat_saturating_Suc: "unat c < 255 \<Longrightarrow> unat (saturating_add c (1 :: u8)) = Suc (unat c)"
  by (simp add: unat_saturating_add)

lemma retry_loop_budget:
  "retry_loop m slots = (slots', calls, False) \<Longrightarrow> unat m < 255 \<Longrightarrow> i < length slots \<Longrightarrow> slots ! i = Some p \<Longrightarrow>
    \<exists>p'. slots' ! i = Some p' \<and> budget m p' < budget m p"
proof (induction slots arbitrary: slots' calls i)
  case Nil
  then show ?case by simp
next
  case (Cons slot slots)
  show ?case
  proof (cases i)
    case (Suc j)
    obtain rest c o' where r: "retry_loop m slots = (rest, c, o')" by (cases "retry_loop m slots")
    have "o' = False \<and> slots' ! i = rest ! j"
      using Cons.prems(1) r Suc by (auto simp: Let_def split: option.splits if_splits)
    with Cons.IH [of rest c j] r Cons.prems Suc show ?thesis by simp
  next
    case 0
    then have slot: "slot = Some p" using Cons.prems(4) by simp
    show ?thesis
    proof (cases "pr_retry_countdown p = 0")
      case False
      let ?q = "p\<lparr>pr_retry_countdown := saturating_sub (pr_retry_countdown p) 1\<rparr>"
      have "0 < unat (pr_retry_countdown p)" using False by (simp add: unat_gt_0)
      then have "budget m ?q < budget m p" by (simp add: budget_def unat_saturating_sub)
      moreover have "slots' ! i = Some ?q"
        using Cons.prems(1) slot 0 False by (auto simp: Let_def split: prod.splits)
      ultimately show ?thesis by blast
    next
      case True
      let ?k = "saturating_add (pr_retry_count p) 1"
      let ?cd = "min (push_bit (unat (min (saturating_sub ?k 1) 3)) DEFAULT_RETRY_TICKS) 32 :: u32"
      let ?q = "p\<lparr>pr_retry_count := ?k, pr_retry_countdown := ?cd\<rparr>"
      have le: "?k \<le> m" and q: "slots' ! i = Some ?q"
        using Cons.prems(1) slot 0 True by (auto simp: Let_def split: prod.splits if_splits)
      then have "unat (pr_retry_count p) < 255"
        using Cons.prems(2) by (simp add: word_le_nat_alt unat_saturating_add)
      then have "unat ?k = Suc (unat (pr_retry_count p))" by (rule unat_saturating_Suc)
      moreover have "unat ?k \<le> unat m" using le by (simp add: word_le_nat_alt)
      moreover have "unat ?cd \<le> 32" by (rule unat_retry_countdown)
      ultimately have "budget m ?q < budget m p" using True by (simp add: budget_def)
      with q show ?thesis by blast
    qed
  qed
qed

lemma tick_timed_out: "rc_timed_out c \<Longrightarrow> check_retransmissions c = (c, [], Inl ConnectionTimedOut)"
  by (simp add: check_retransmissions_def)

lemma ticks_timed_out: "rc_timed_out c \<Longrightarrow> (tick ^^ n) c = c"
  by (induction n) (simp_all add: tick_timed_out)

lemma tick_budget:
  assumes "\<not> rc_timed_out (tick c)" and "unat (rc_max_retries c) < 255"
    and "i < length (rc_pending c)" and "rc_pending c ! i = Some p"
  shows "rc_max_retries (tick c) = rc_max_retries c \<and> length (rc_pending (tick c)) = length (rc_pending c)
    \<and> (\<exists>p'. rc_pending (tick c) ! i = Some p' \<and> budget (rc_max_retries c) p' < budget (rc_max_retries c) p)"
proof -
  obtain slots calls out where r: "retry_loop (rc_max_retries c) (rc_pending c) = (slots, calls, out)"
    by (cases "retry_loop (rc_max_retries c) (rc_pending c)")
  have "\<not> rc_timed_out c" using assms(1) tick_timed_out [of c] by fastforce
  then have t: "tick c = c\<lparr>rc_pending := slots, rc_timed_out := out\<rparr>"
    using r by (simp add: check_retransmissions_def)
  then have "out = False" using assms(1) by simp
  with t r retry_loop_budget [of _ _ slots calls i p] retry_loop_shape [OF r] assms(2-4) show ?thesis
    by simp
qed

lemma silent_ticks:
  "unat (rc_max_retries c) < 255 \<Longrightarrow> i < length (rc_pending c) \<Longrightarrow> rc_pending c ! i = Some p \<Longrightarrow>
    budget (rc_max_retries c) p \<le> n \<Longrightarrow> rc_timed_out ((tick ^^ Suc n) c)"
proof (induction n arbitrary: c p)
  case 0
  show ?case
  proof (rule ccontr)
    assume "\<not> ?thesis"
    with tick_budget [of c i p] 0 show False by simp
  qed
next
  case (Suc n)
  show ?case
  proof (cases "rc_timed_out (tick c)")
    case True
    then show ?thesis
      using ticks_timed_out [OF True, of "Suc n"] True
      by (simp only: funpow_Suc_right [of "Suc n"] comp_apply)
  next
    case False
    from tick_budget [OF False Suc.prems(1-3)] obtain p' where
      "rc_max_retries (tick c) = rc_max_retries c" "length (rc_pending (tick c)) = length (rc_pending c)"
      "rc_pending (tick c) ! i = Some p'" "budget (rc_max_retries c) p' < budget (rc_max_retries c) p"
      by blast
    with Suc.IH [of "tick c" p'] Suc.prems have "rc_timed_out ((tick ^^ Suc n) (tick c))" by simp
    then show ?thesis by (simp only: funpow_Suc_right [of "Suc n"] comp_apply)
  qed
qed

lemma u8_max [simp]: "\<not> (255 :: u8) < w"
  using unat_less_pow [of w] by (simp add: word_less_nat_alt)

lemma retry_loop_max: "retry_loop 255 slots = (slots', calls, out) \<Longrightarrow> \<not> out"
  by (induction slots arbitrary: slots' calls out)
    (auto simp: Let_def split: option.splits if_splits prod.splits)

text \<open>
  C22. A silent peer is found out. A packet that stays unacknowledged ends the connection: when at
  most 254 retries are allowed, the channel is timed out after a number of ticks bounded by the
  retries and the countdown the packet has left, and from then on every check reports it and
  nothing is sent or changed. With 255 retries allowed the counter saturates and it never is.
\<close>

theorem silent_peer_times_out:
  shows "(unat (rc_max_retries c) < 255 \<and> i < length (rc_pending c) \<and> rc_pending c ! i = Some p
      \<and> 33 * (unat (rc_max_retries c) + 1) + unat (pr_retry_countdown p) < n \<longrightarrow>
        rc_timed_out ((tick ^^ n) c)
        \<and> check_retransmissions ((tick ^^ n) c) = ((tick ^^ n) c, [], Inl ConnectionTimedOut))
    \<and> (rc_max_retries c = 255 \<and> \<not> rc_timed_out c \<longrightarrow> \<not> rc_timed_out (tick c))"
proof (intro conjI impI; (elim conjE)?)
  assume c: "unat (rc_max_retries c) < 255" "i < length (rc_pending c)" "rc_pending c ! i = Some p"
    and n: "33 * (unat (rc_max_retries c) + 1) + unat (pr_retry_countdown p) < n"
  have "budget (rc_max_retries c) p \<le> n - 1" using n by (simp add: budget_def)
  from silent_ticks [OF c this] n show t: "rc_timed_out ((tick ^^ n) c)" by simp
  then show "check_retransmissions ((tick ^^ n) c) = ((tick ^^ n) c, [], Inl ConnectionTimedOut)"
    by (rule tick_timed_out)
next
  assume "rc_max_retries c = 255" "\<not> rc_timed_out c"
  then show "\<not> rc_timed_out (tick c)"
    using retry_loop_max [of "rc_pending c"] by (auto simp: check_retransmissions_def split: prod.splits)
qed

theorem silent_peer_times_out_witness:
  "rc_timed_out ((tick ^^ 600) (fst (queue_reliable_message [9] (ReliableChannel_new 2 2))))
    \<and> \<not> rc_timed_out (tick (set_max_retries 255 (ReliableChannel_new 2 2)))"
proof -
  define c where "c = fst (queue_reliable_message [9] (ReliableChannel_new 2 2))"
  define p where "p = the (rc_pending c ! 0)"
  have c: "rc_pending c ! 0 \<noteq> None" "unat (rc_max_retries c) = 16" "length (rc_pending c) = 2"
    "unat (pr_retry_countdown p) = 4"
    unfolding p_def c_def by code_simp+
  then have "rc_pending c ! 0 = Some p" by (simp add: p_def)
  with c have "rc_timed_out ((tick ^^ 600) c)"
    using silent_peer_times_out [of c 0 p 600] by simp
  moreover have "\<not> rc_timed_out (tick (set_max_retries 255 (ReliableChannel_new 2 2)))"
    using silent_peer_times_out [of "set_max_retries 255 (ReliableChannel_new 2 2)"]
    by (simp add: set_max_retries_def ReliableChannel_new_def)
  ultimately show ?thesis unfolding c_def by simp
qed

end
