(* ===== verification/Crypto.thy ===== *)
theory Crypto
  imports Prelude
begin

text \<open>
  SHA-256 and HMAC-SHA256 of \<^verbatim>\<open>eidolon-net/src/crypto.rs\<close>: the compression of a block, the two
  routines that hash a message (\<open>sha256\<close> over whole blocks with a padded tail, \<open>sha256_concat\<close> byte by
  byte through a buffer), the message authentication code over either, and the comparison of two
  digests. The reference they are compared with is the definition of the standard: the message is
  padded to whole blocks and the compression function is folded over them.

  The Rust arrays are lists whose lengths the definitions keep; \<open>get(i).copied().unwrap_or(0)\<close> and
  \<open>get_mut(i)\<close> are the guarded accesses of the source.
\<close>

definition get_or :: "'a list \<Rightarrow> nat \<Rightarrow> 'a \<Rightarrow> 'a" where
  "get_or l i d = (if i < length l then l ! i else d)"

definition H_INIT :: "u32 list" where
  "H_INIT = [0x6a09e667, 0xbb67ae85, 0x3c6ef372, 0xa54ff53a, 0x510e527f, 0x9b05688c, 0x1f83d9ab, 0x5be0cd19]"

text \<open>The round constants, in rows of four.\<close>

definition K :: "u32 list" where
  "K = concat [
      [0x428a2f98, 0x71374491, 0xb5c0fbcf, 0xe9b5dba5],
      [0x3956c25b, 0x59f111f1, 0x923f82a4, 0xab1c5ed5],
      [0xd807aa98, 0x12835b01, 0x243185be, 0x550c7dc3],
      [0x72be5d74, 0x80deb1fe, 0x9bdc06a7, 0xc19bf174],
      [0xe49b69c1, 0xefbe4786, 0x0fc19dc6, 0x240ca1cc],
      [0x2de92c6f, 0x4a7484aa, 0x5cb0a9dc, 0x76f988da],
      [0x983e5152, 0xa831c66d, 0xb00327c8, 0xbf597fc7],
      [0xc6e00bf3, 0xd5a79147, 0x06ca6351, 0x14292967],
      [0x27b70a85, 0x2e1b2138, 0x4d2c6dfc, 0x53380d13],
      [0x650a7354, 0x766a0abb, 0x81c2c92e, 0x92722c85],
      [0xa2bfe8a1, 0xa81a664b, 0xc24b8b70, 0xc76c51a3],
      [0xd192e819, 0xd6990624, 0xf40e3585, 0x106aa070],
      [0x19a4c116, 0x1e376c08, 0x2748774c, 0x34b0bcb5],
      [0x391c0cb3, 0x4ed8aa4a, 0x5b9cca4f, 0x682e6ff3],
      [0x748f82ee, 0x78a5636f, 0x84c87814, 0x8cc70208],
      [0x90befffa, 0xa4506ceb, 0xbef9a3f7, 0xc67178f2]]"

definition rotr :: "u32 \<Rightarrow> nat \<Rightarrow> u32" where
  "rotr x n = word_rotr n x"

definition ch :: "u32 \<Rightarrow> u32 \<Rightarrow> u32 \<Rightarrow> u32" where
  "ch x y z = (x AND y) XOR (NOT x AND z)"

definition maj :: "u32 \<Rightarrow> u32 \<Rightarrow> u32 \<Rightarrow> u32" where
  "maj x y z = (x AND y) XOR (x AND z) XOR (y AND z)"

definition sigma0 :: "u32 \<Rightarrow> u32" where
  "sigma0 x = rotr x 2 XOR rotr x 13 XOR rotr x 22"

definition sigma1 :: "u32 \<Rightarrow> u32" where
  "sigma1 x = rotr x 6 XOR rotr x 11 XOR rotr x 25"

definition gamma0 :: "u32 \<Rightarrow> u32" where
  "gamma0 x = rotr x 7 XOR rotr x 18 XOR drop_bit 3 x"

definition gamma1 :: "u32 \<Rightarrow> u32" where
  "gamma1 x = rotr x 17 XOR rotr x 19 XOR drop_bit 10 x"

section \<open>One block\<close>

text \<open>
  The message schedule is a buffer of 64 words that is reused from block to block: its first 16
  entries are loaded from the block, the rest are computed from earlier entries.
\<close>

definition load_word :: "u8 list \<Rightarrow> nat \<Rightarrow> u32" where
  "load_word block t =
     (let idx = t * 4;
          b0 = ucast (get_or block idx 0); b1 = ucast (get_or block (idx + 1) 0);
          b2 = ucast (get_or block (idx + 2) 0); b3 = ucast (get_or block (idx + 3) 0)
      in push_bit 24 b0 OR push_bit 16 b1 OR push_bit 8 b2 OR b3)"

definition extend_word :: "u32 list \<Rightarrow> nat \<Rightarrow> u32" where
  "extend_word w t =
     gamma1 (get_or w (t - 2) 0) + get_or w (t - 7) 0 + gamma0 (get_or w (t - 15) 0) + get_or w (t - 16) 0"

definition schedule :: "u32 list \<Rightarrow> u8 list \<Rightarrow> u32 list" where
  "schedule w block =
     (let w1 = foldl (\<lambda>w t. w[t := load_word block t]) w [0..<16]
      in foldl (\<lambda>w t. w[t := extend_word w t]) w1 [16..<64])"

type_synonym working = "u32 \<times> u32 \<times> u32 \<times> u32 \<times> u32 \<times> u32 \<times> u32 \<times> u32"

fun sha_round :: "u32 \<Rightarrow> u32 \<Rightarrow> working \<Rightarrow> working" where
  "sha_round wt kt (a, b, c, d, e, f, g, h) =
     (let t1 = h + sigma1 e + ch e f g + kt + wt;
          t2 = sigma0 a + maj a b c
      in (t1 + t2, a, b, c, d + t1, e, f, g))"

definition rounds :: "u32 list \<Rightarrow> working \<Rightarrow> working" where
  "rounds w s = foldl (\<lambda>s t. sha_round (get_or w t 0) (get_or K t 0) s) s [0..<64]"

definition process_block :: "u32 list \<Rightarrow> u32 list \<Rightarrow> u8 list \<Rightarrow> u32 list \<times> u32 list" where
  "process_block state w block =
     (let w' = schedule w block in
      case rounds w' (state ! 0, state ! 1, state ! 2, state ! 3, state ! 4, state ! 5, state ! 6, state ! 7) of
        (a, b, c, d, e, f, g, h) \<Rightarrow>
          ([state ! 0 + a, state ! 1 + b, state ! 2 + c, state ! 3 + d,
            state ! 4 + e, state ! 5 + f, state ! 6 + g, state ! 7 + h], w'))"

section \<open>Whole messages\<close>

text \<open>The loop over the full blocks returns the state, the schedule and the offset it stops at.\<close>

function chunk_loop :: "u8 list \<Rightarrow> nat \<Rightarrow> u32 list \<Rightarrow> u32 list \<Rightarrow> u32 list \<times> u32 list \<times> nat" where
  "chunk_loop data offset state w =
     (if offset + 64 \<le> length data
      then (case process_block state w (take 64 (drop offset data)) of
              (state1, w1) \<Rightarrow> chunk_loop data (offset + 64) state1 w1)
      else (state, w, offset))"
  by pat_completeness auto
termination
  by (relation "measure (\<lambda>(data, offset, s, w). length data - offset)") auto

definition bit_len :: "nat \<Rightarrow> u64" where
  "bit_len total_len = of_nat total_len * 8"

definition digest_bytes :: "u32 list \<Rightarrow> u8 list" where
  "digest_bytes state = concat (map (\<lambda>word. be_bytes 4 (unat word)) state)"

definition sha256 :: "u8 list \<Rightarrow> u8 list" where
  "sha256 data =
     (case chunk_loop data 0 H_INIT (replicate 64 0) of
        (state, w, offset) \<Rightarrow>
          (let remainder = length data - offset;
               tail = (slice_put (replicate 128 0) 0 (drop offset data))[remainder := 0x80];
               bit_bytes = be_bytes 8 (unat (bit_len (length data)))
           in if remainder < 56
              then (case process_block state w (take 64 (slice_put tail 56 bit_bytes)) of
                      (state1, w1) \<Rightarrow> digest_bytes state1)
              else
                (let tail = slice_put tail 120 bit_bytes in
                 case process_block state w (take 64 tail) of
                   (state1, w1) \<Rightarrow>
                     (case process_block state1 w1 (take 64 (drop 64 tail)) of
                        (state2, w2) \<Rightarrow> digest_bytes state2))))"

text \<open>The streaming variant: a block buffer, its fill level, the hash state and the schedule.\<close>

type_synonym stream = "u8 list \<times> nat \<times> u32 list \<times> u32 list"

fun process_byte :: "u8 \<Rightarrow> stream \<Rightarrow> stream" where
  "process_byte byte (buf, buf_len, state, w) =
     (if buf_len < length buf
      then
        (let buf1 = buf[buf_len := byte]; n = buf_len + 1 in
         if n = 64 then (case process_block state w buf1 of (state1, w1) \<Rightarrow> (buf1, 0, state1, w1))
         else (buf1, n, state, w))
      else (buf, buf_len, state, w))"

text \<open>\<open>while buf_len < stop\<close>: the rest of the buffer is zeroed up to \<open>stop\<close>.\<close>

function zero_fill :: "nat \<Rightarrow> u8 list \<Rightarrow> nat \<Rightarrow> (u8 list \<times> nat) option" where
  "zero_fill stop buf buf_len =
     (if buf_len < stop
      then if buf_len < length buf then zero_fill stop (buf[buf_len := 0]) (buf_len + 1) else None
      else Some (buf, buf_len))"
  by pat_completeness auto
termination
  by (relation "measure (\<lambda>(stop, buf, n). stop - n)") auto

definition sha256_concat :: "u8 list \<Rightarrow> u8 list \<Rightarrow> u8 list option" where
  "sha256_concat a b =
     (case foldl (\<lambda>s byte. process_byte byte s) (replicate 64 0, 0, H_INIT, replicate 64 0) (a @ b @ [0x80]) of
        (buf, buf_len, state, w) \<Rightarrow>
          (case (if buf_len > 56
                 then (case zero_fill 64 buf buf_len of
                         None \<Rightarrow> None
                       | Some (buf1, n1) \<Rightarrow>
                           (case process_block state w buf1 of (state1, w1) \<Rightarrow> Some (buf1, 0, state1, w1)))
                 else Some (buf, buf_len, state, w)) of
             None \<Rightarrow> None
           | Some (buf1, n1, state1, w1) \<Rightarrow>
               (case zero_fill 56 buf1 n1 of
                  None \<Rightarrow> None
                | Some (buf2, n2) \<Rightarrow>
                    (case process_block state1 w1
                       (slice_put buf2 56 (be_bytes 8 (unat (bit_len (length a + length b))))) of
                       (state2, w2) \<Rightarrow> Some (digest_bytes state2)))))"

definition hmac_sha256 :: "u8 list \<Rightarrow> u8 list \<Rightarrow> u8 list option" where
  "hmac_sha256 key data =
     (let k_pad = (if length key > 64 then slice_put (replicate 64 0) 0 (sha256 key)
                   else slice_put (replicate 64 0) 0 key);
          ipad = map (\<lambda>byte. byte XOR 0x36) k_pad;
          opad = map (\<lambda>byte. byte XOR 0x5C) k_pad
      in case (if length data \<le> 1024
               then Some (sha256 (take (64 + length data)
                      (slice_put (slice_put (replicate (64 + 1024) 0) 0 ipad) 64 data)))
               else sha256_concat ipad data) of
           None \<Rightarrow> None
         | Some inner_hash \<Rightarrow> Some (sha256 (opad @ inner_hash)))"

text \<open>The accumulated difference of the bytes.\<close>

definition constant_time_eq :: "u8 list \<Rightarrow> u8 list \<Rightarrow> bool" where
  "constant_time_eq a b \<longleftrightarrow>
     foldl (\<lambda>diff i. diff OR (get_or a i 0 XOR get_or b i 0)) (0 :: u8) [0..<32] = 0"

section \<open>The standard's definition\<close>

text \<open>
  The schedule as the recurrence of the standard, the compression function, the padding, and the
  hash as a fold of the one over the blocks of the other.
\<close>

fun W :: "u8 list \<Rightarrow> nat \<Rightarrow> u32" where
  "W block t =
     (if t < 16 then load_word block t
      else gamma1 (W block (t - 2)) + W block (t - 7) + gamma0 (W block (t - 15)) + W block (t - 16))"

declare upt_rec_numeral [simp del] W.simps [simp del] chunk_loop.simps [simp del] zero_fill.simps [simp del]

definition compress :: "u32 list \<Rightarrow> u8 list \<Rightarrow> u32 list" where
  "compress state block =
     (case rounds (map (W block) [0..<64])
        (state ! 0, state ! 1, state ! 2, state ! 3, state ! 4, state ! 5, state ! 6, state ! 7) of
        (a, b, c, d, e, f, g, h) \<Rightarrow>
          [state ! 0 + a, state ! 1 + b, state ! 2 + c, state ! 3 + d,
           state ! 4 + e, state ! 5 + f, state ! 6 + g, state ! 7 + h])"

fun blocks :: "u8 list \<Rightarrow> u8 list list" where
  "blocks m = (if length m < 64 then [] else take 64 m # blocks (drop 64 m))"

declare blocks.simps [simp del]

definition padding :: "nat \<Rightarrow> u8 list" where
  "padding n = 0x80 # replicate ((119 - n mod 64) mod 64) 0 @ be_bytes 8 (unat (bit_len n))"

definition sha256_reference :: "u8 list \<Rightarrow> u8 list" where
  "sha256_reference m = digest_bytes (foldl compress H_INIT (blocks (m @ padding (length m))))"

subsection \<open>The schedule\<close>

lemma foldl_updates:
  "length (foldl (\<lambda>w t. w[t := f w t]) w ts) = length w"
  by (induction ts arbitrary: w) simp_all

lemma load_loop: "i < length w \<Longrightarrow> foldl (\<lambda>w t. w[t := g t]) w [0..<n] ! i = (if i < n then g i else w ! i)"
proof (induction n)
  case 0
  then show ?case by simp
next
  case (Suc n)
  then show ?case using foldl_updates [of "\<lambda>_. g" w "[0..<n]"] by (auto simp: nth_list_update less_Suc_eq)
qed

lemma extend_word_W:
  "16 \<le> n \<Longrightarrow> n \<le> length w \<Longrightarrow> (\<And>j. j < n \<Longrightarrow> w ! j = W block j) \<Longrightarrow> extend_word w n = W block n"
proof -
  assume n: "16 \<le> n" "n \<le> length w" and w: "\<And>j. j < n \<Longrightarrow> w ! j = W block j"
  have "get_or w (n - k) 0 = W block (n - k)" if "0 < k" "k \<le> 16" for k
  proof -
    have "n - k < length w" and "n - k < n" using n that by linarith+
    then show ?thesis by (simp add: get_or_def w)
  qed
  then show ?thesis
    using n by (subst W.simps) (simp add: extend_word_def)
qed

lemma extend_loop:
  assumes "length w = 64" and "\<And>i. i < 16 \<Longrightarrow> w ! i = W block i" and "n \<le> 64" and "i < n" and "16 \<le> n"
  shows "foldl (\<lambda>w t. w[t := extend_word w t]) w [16..<n] ! i = W block i"
  using assms(3-)
proof (induction n arbitrary: i)
  case 0
  then show ?case by simp
next
  case (Suc n)
  show ?case
  proof (cases "n < 16")
    case True
    with Suc.prems assms(2) show ?thesis by simp
  next
    case False
    let ?w = "foldl (\<lambda>w t. w[t := extend_word w t]) w [16..<n]"
    have len: "length ?w = 64" using foldl_updates [of extend_word w "[16..<n]"] assms(1) by simp
    have IH: "?w ! j = W block j" if "j < n" for j using Suc.IH that Suc.prems False by simp
    have "extend_word ?w n = W block n"
      using False Suc.prems len IH by (intro extend_word_W) simp_all
    with IH Suc.prems False len show ?thesis by (auto simp: nth_list_update less_Suc_eq)
  qed
qed

lemma schedule_W: "length w = 64 \<Longrightarrow> schedule w block = map (W block) [0..<64]"
proof (rule nth_equalityI)
  assume w: "length w = 64"
  let ?w1 = "foldl (\<lambda>w t. w[t := load_word block t]) w [0..<16]"
  have w1: "length ?w1 = 64" using foldl_updates [of "\<lambda>_. load_word block" w "[0..<16]"] w by simp
  then show len: "length (schedule w block) = length (map (W block) [0..<64])"
    using foldl_updates [of extend_word ?w1 "[16..<64]"] by (simp add: schedule_def)
  fix i assume "i < length (schedule w block)"
  then have i: "i < 64" using len by simp
  have "?w1 ! j = W block j" if "j < 16" for j
    using load_loop [of j w "load_word block" 16] that w by (subst W.simps) simp
  from extend_loop [OF w1 this, of 64 i] i show "schedule w block ! i = map (W block) [0..<64] ! i"
    by (simp add: schedule_def)
qed

lemma process_block_compress:
  "length w = 64 \<Longrightarrow> process_block state w block = (compress state block, map (W block) [0..<64])"
  by (simp add: process_block_def compress_def schedule_W split: prod.splits)

subsection \<open>Blocks\<close>

lemma blocks_short [simp]: "length m < 64 \<Longrightarrow> blocks m = []"
  by (subst blocks.simps) simp

lemma blocks_long: "64 \<le> length m \<Longrightarrow> blocks m = take 64 m # blocks (drop 64 m)"
  by (subst blocks.simps) simp

text \<open>The bytes after the last full block.\<close>

abbreviation leftover :: "u8 list \<Rightarrow> u8 list" where
  "leftover m \<equiv> drop (64 * (length m div 64)) m"

lemma length_leftover: "length (leftover m) = length m mod 64"
  by (simp add: minus_mult_div_eq_mod)

lemma leftover_step: "64 \<le> length m \<Longrightarrow> leftover (drop 64 m) = leftover m"
proof -
  assume m: "64 \<le> length m"
  then have "64 * (length m div 64) = 64 * (length (drop 64 m) div 64) + 64"
    using le_div_geq [of 64 "length m"] by simp
  then show ?thesis by (simp add: add.commute)
qed

lemma blocks_append: "blocks (m @ x) = blocks m @ blocks (leftover m @ x)"
proof (induction m rule: blocks.induct)
  case (1 m)
  show ?case
  proof (cases "length m < 64")
    case True
    then show ?thesis by simp
  next
    case False
    then have "blocks (m @ x) = take 64 m # blocks (drop 64 m @ x)" by (simp add: blocks_long)
    with 1 False leftover_step [of m] blocks_long [of m] show ?thesis by simp
  qed
qed

lemma chunk_loop_spec:
  "chunk_loop data offset st w = (st', w', off') \<Longrightarrow> length w = 64 \<Longrightarrow> offset \<le> length data \<Longrightarrow>
    length w' = 64 \<and> st' = foldl compress st (blocks (drop offset data)) \<and> drop off' data = leftover (drop offset data)
    \<and> off' \<le> length data"
proof (induction data offset st w arbitrary: st' w' off' rule: chunk_loop.induct)
  case (1 data offset st w)
  show ?case
  proof (cases "offset + 64 \<le> length data")
    case False
    with 1 show ?thesis by (subst (asm) chunk_loop.simps) auto
  next
    case True
    let ?block = "take 64 (drop offset data)"
    have pb: "process_block st w ?block = (compress st ?block, map (W ?block) [0..<64])"
      using 1 by (intro process_block_compress)
    then have "chunk_loop data (offset + 64) (compress st ?block) (map (W ?block) [0..<64]) = (st', w', off')"
      using "1.prems"(1) True by (subst (asm) chunk_loop.simps) simp
    from "1.IH" [OF True pb [symmetric] this] True show ?thesis
      using blocks_long [of "drop offset data"] leftover_step [of "drop offset data"]
      by (simp add: add.commute)
  qed
qed

subsection \<open>The block routine\<close>

lemma blocks_two: "length t = 128 \<Longrightarrow> blocks t = [take 64 t, take 64 (drop 64 t)]"
  by (simp add: blocks_long)

lemma blocks_one: "length t = 64 \<Longrightarrow> blocks t = [t]"
  by (simp add: blocks_long)

text \<open>The zeroed tail with the remainder, the marker and the length is the padded remainder.\<close>

lemma marked_tail:
  fixes r :: "u8 list"
  assumes "length r < 128"
  shows "(slice_put (replicate 128 0) 0 r)[length r := 0x80] = r @ 0x80 # replicate (127 - length r) 0"
proof -
  have "128 - length r = Suc (127 - length r)" using assms by simp
  then have "replicate (128 - length r) (0 :: u8) = 0 # replicate (127 - length r) 0" by simp
  then show ?thesis by (simp add: slice_put_def)
qed

lemma short_tail:
  "length r < 56 \<Longrightarrow> take 64 (slice_put ((slice_put (replicate 128 0) 0 r)[length r := 0x80]) 56 (be_bytes 8 v))
    = r @ 0x80 # replicate (55 - length r) 0 @ be_bytes 8 v"
  by (subst marked_tail) (auto simp: slice_put_def take_Cons' min_def)

lemma long_tail:
  "length r < 64 \<Longrightarrow> slice_put ((slice_put (replicate 128 0) 0 r)[length r := 0x80]) 120 (be_bytes 8 v)
    = r @ 0x80 # replicate (119 - length r) 0 @ be_bytes 8 v"
  by (subst marked_tail) (auto simp: slice_put_def take_Cons' drop_Cons' min_def)

lemma zeros_one_block: "x < 56 \<Longrightarrow> (119 - x) mod 64 = 55 - (x :: nat)"
  by (subst le_mod_geq) simp_all

lemma sha256_eq: "sha256 data = sha256_reference data"
proof -
  obtain st w off where c: "chunk_loop data 0 H_INIT (replicate 64 0) = (st, w, off)"
    by (metis prod_cases3)
  from chunk_loop_spec [OF c] have w: "length w = 64" and st: "st = foldl compress H_INIT (blocks data)"
    and d: "drop off data = leftover data" and off: "off \<le> length data"
    by auto
  let ?r = "leftover data" and ?v = "unat (bit_len (length data))"
  have len: "length data - off = length ?r" using arg_cong [OF d, of length] by simp
  have r: "length ?r = length data mod 64" by (rule length_leftover)
  have ref: "sha256_reference data = digest_bytes (foldl compress st (blocks (?r @ padding (length data))))"
    by (simp add: sha256_reference_def blocks_append [of data] st)
  show ?thesis
  proof (cases "length ?r < 56")
    case True
    have z: "(119 - length data mod 64) mod 64 = 55 - length ?r"
      using True unfolding r by (rule zeros_one_block)
    have pad: "?r @ padding (length data) = take 64 (slice_put ((slice_put (replicate 128 0) 0 ?r)[length ?r := 0x80]) 56 (be_bytes 8 ?v))"
      unfolding short_tail [OF True] padding_def z by simp
    have "blocks (?r @ padding (length data)) = [?r @ padding (length data)]"
      using True by (intro blocks_one) (simp add: padding_def z)
    then show ?thesis
      unfolding ref sha256_def c using True
      by (simp only: Let_def prod.case len d if_True pad [symmetric] process_block_compress [OF w] foldl.simps)
  next
    case False
    have small: "length ?r < 64" unfolding r by simp
    then have z: "(119 - length data mod 64) mod 64 = 119 - length ?r"
      using False r by simp
    have pad: "?r @ padding (length data) = slice_put ((slice_put (replicate 128 0) 0 ?r)[length ?r := 0x80]) 120 (be_bytes 8 ?v)"
      unfolding long_tail [OF small] padding_def z by simp
    have two: "blocks (?r @ padding (length data)) = [take 64 (?r @ padding (length data)), take 64 (drop 64 (?r @ padding (length data)))]"
      using False small by (intro blocks_two) (simp add: padding_def z)
    show ?thesis
      unfolding ref two unfolding sha256_def c using False
      by (simp only: Let_def prod.case len d if_False pad [symmetric] process_block_compress [OF w]
          process_block_compress length_map length_upt diff_zero foldl.simps)
  qed
qed

subsection \<open>The streaming routine\<close>

text \<open>The buffer holds the bytes since the last full block of what was fed in.\<close>

definition streams :: "u8 list \<Rightarrow> stream \<Rightarrow> bool" where
  "streams m s \<longleftrightarrow>
     (case s of (buf, n, st, w) \<Rightarrow> length buf = 64 \<and> length w = 64 \<and> n = length (leftover m)
        \<and> take n buf = leftover m \<and> st = foldl compress H_INIT (blocks m))"

lemma leftover_snoc:
  "length (leftover m) < 63 \<Longrightarrow> leftover (m @ [x]) = leftover m @ [x] \<and> blocks (m @ [x]) = blocks m"
proof -
  assume l: "length (leftover m) < 63"
  then have m: "length m mod 64 < 63" unfolding length_leftover .
  then have "Suc (length m) div 64 = length m div 64"
    by (simp add: div_Suc mod_Suc)
  moreover have "64 * (length m div 64) \<le> length m" by simp
  ultimately show ?thesis
    using l by (simp add: blocks_append [of m "[x]"])
qed

lemma leftover_full:
  "length (leftover m) = 63 \<Longrightarrow> leftover (m @ [x]) = [] \<and> blocks (m @ [x]) = blocks m @ [leftover m @ [x]]"
proof -
  assume l: "length (leftover m) = 63"
  then have m: "length m mod 64 = 63" unfolding length_leftover .
  then have "Suc (length m) mod 64 = 0" by (simp add: mod_Suc)
  then have "length (leftover (m @ [x])) = 0" unfolding length_leftover by simp
  then show ?thesis
    using l by (simp add: blocks_append [of m "[x]"] blocks_one)
qed

lemma streams_byte: "streams m s \<Longrightarrow> streams (m @ [x]) (process_byte x s)"
proof -
  assume s: "streams m s"
  obtain buf n st w where e: "s = (buf, n, st, w)" by (cases s)
  have b: "length buf = 64" "length w = 64" "n = length (leftover m)" "take n buf = leftover m"
    "st = foldl compress H_INIT (blocks m)"
    using s unfolding streams_def e prod.case by blast+
  have n: "n < 64" unfolding b(3) length_leftover by simp
  have buf: "take (Suc n) (buf[n := x]) = leftover m @ [x]"
    using n b(1,4) by (simp add: take_Suc_conv_app_nth)
  show ?thesis
  proof (cases "n = 63")
    case True
    then have "buf[n := x] = leftover m @ [x]" using buf b(1) by simp
    with True leftover_full [of m x] b show ?thesis
      by (simp add: e streams_def Let_def process_block_compress)
  next
    case False
    then have "length (leftover m) < 63" using n b(3) by simp
    from leftover_snoc [OF this, of x] False n b buf show ?thesis
      by (simp add: e streams_def Let_def)
  qed
qed

lemma streams_bytes: "streams m s \<Longrightarrow> streams (m @ xs) (foldl (\<lambda>s byte. process_byte byte s) s xs)"
proof (induction xs arbitrary: m s)
  case Nil
  then show ?case by simp
next
  case (Cons x xs)
  from Cons.IH [OF streams_byte [OF Cons.prems, of x]] show ?case by simp
qed

lemma zero_fill_spec:
  "n \<le> stop \<Longrightarrow> stop \<le> length buf \<Longrightarrow>
    \<exists>buf'. zero_fill stop buf n = Some (buf', stop) \<and> length buf' = length buf
      \<and> take stop buf' = take n buf @ replicate (stop - n) 0"
proof (induction stop buf n rule: zero_fill.induct)
  case (1 stop buf n)
  show ?case
  proof (cases "n < stop")
    case False
    with 1 show ?thesis by (subst zero_fill.simps) auto
  next
    case True
    then have l: "n < length buf" using 1 by simp
    have "take (Suc n) (buf[n := 0]) = take n buf @ [0]" using l by (simp add: take_Suc_conv_app_nth)
    moreover have "replicate (stop - n) (0 :: u8) = 0 # replicate (stop - Suc n) 0"
      using True by (metis Suc_diff_Suc replicate_Suc)
    moreover have "zero_fill stop buf n = zero_fill stop (buf[n := 0]) (n + 1)"
      using True l by (subst zero_fill.simps) simp
    ultimately show ?thesis
      using "1.IH" [OF True l] True "1.prems"(2) by simp
  qed
qed

text \<open>The padded message, cut at the fill level the marker leaves.\<close>

lemma padding_split:
  "m @ padding (length m) = (m @ [0x80]) @ replicate ((119 - length m mod 64) mod 64) 0 @ be_bytes 8 (unat (bit_len (length m)))"
  by (simp add: padding_def)

lemma zeros_after_marker:
  "(119 - n mod 64) mod 64 = (if Suc n mod 64 \<le> 56 then 56 - Suc n mod 64 else 120 - Suc n mod 64)"
proof (cases "n mod 64 < 56")
  case True
  then show ?thesis using zeros_one_block [OF True] by (simp add: mod_Suc)
next
  case False
  moreover have "n mod 64 < 64" by simp
  ultimately show ?thesis by (auto simp: mod_Suc)
qed

lemma sha256_concat_eq: "sha256_concat a b = Some (sha256_reference (a @ b))"
proof -
  let ?m = "a @ b" and ?v = "unat (bit_len (length a + length b))"
  have start: "streams [] (replicate 64 0, 0, H_INIT, replicate 64 0)" by (simp add: streams_def)
  obtain buf n st w where f: "foldl (\<lambda>s byte. process_byte byte s)
      (replicate 64 0, 0, H_INIT, replicate 64 0) (a @ b @ [0x80]) = (buf, n, st, w)"
    by (rule prod_cases4)
  have "streams (?m @ [0x80]) (buf, n, st, w)"
    using streams_bytes [OF start, of "a @ b @ [0x80]"] unfolding f by simp
  then have s: "length buf = 64" "length w = 64" "n = length (leftover (?m @ [0x80]))"
      "take n buf = leftover (?m @ [0x80])" "st = foldl compress H_INIT (blocks (?m @ [0x80]))"
    unfolding streams_def prod.case by blast+
  have n: "n = Suc (length ?m) mod 64" unfolding s(3) length_leftover by simp
  have ref: "sha256_reference ?m = digest_bytes (foldl compress st
      (blocks (take n buf @ replicate ((119 - length ?m mod 64) mod 64) 0 @ be_bytes 8 ?v)))"
    unfolding sha256_reference_def padding_split unfolding blocks_append [of "?m @ [0x80]"] s(4,5) by simp
  show ?thesis
  proof (cases "n > 56")
    case False
    then have z: "(119 - length ?m mod 64) mod 64 = 56 - n"
      unfolding zeros_after_marker n by simp
    obtain buf2 where b2: "zero_fill 56 buf n = Some (buf2, 56)" "length buf2 = 64"
      "take 56 buf2 = take n buf @ replicate (56 - n) 0"
      using zero_fill_spec [of n 56 buf] False s(1) by auto
    have "slice_put buf2 56 (be_bytes 8 ?v) = take n buf @ replicate (56 - n) 0 @ be_bytes 8 ?v"
      using b2 by (simp add: slice_put_def)
    moreover have "blocks (take n buf @ replicate (56 - n) 0 @ be_bytes 8 ?v) = [take n buf @ replicate (56 - n) 0 @ be_bytes 8 ?v]"
      using False s(1) by (intro blocks_one) simp
    ultimately show ?thesis
      using False unfolding ref z sha256_concat_def f prod.case
      by (simp add: b2(1) process_block_compress [OF s(2)])
  next
    case True
    have n64: "n < 64" unfolding n by simp
    then have z: "(119 - length ?m mod 64) mod 64 = (64 - n) + 56"
      using True unfolding zeros_after_marker n by simp
    obtain buf1 where b1: "zero_fill 64 buf n = Some (buf1, 64)" "length buf1 = 64"
      "take 64 buf1 = take n buf @ replicate (64 - n) 0"
      using zero_fill_spec [of n 64 buf] n64 s(1) by auto
    then have buf1: "buf1 = take n buf @ replicate (64 - n) 0" by simp
    obtain buf2 where b2: "zero_fill 56 buf1 0 = Some (buf2, 56)" "length buf2 = 64"
      "take 56 buf2 = replicate 56 0"
      using zero_fill_spec [of 0 56 buf1] b1(2) by auto
    let ?last = "replicate 56 0 @ be_bytes 8 ?v"
    have last: "slice_put buf2 56 (be_bytes 8 ?v) = ?last"
      using b2 by (simp add: slice_put_def)
    have "blocks (take n buf @ replicate ((64 - n) + 56) 0 @ be_bytes 8 ?v) = blocks (buf1 @ ?last)"
      unfolding buf1 replicate_add by simp
    also have "\<dots> = [buf1, ?last]"
      using b1(2) by (simp add: blocks_long)
    finally show ?thesis
      using True unfolding ref z sha256_concat_def f prod.case
      by (simp add: b1(1) b2(1) last process_block_compress [OF s(2)] process_block_compress)
  qed
qed

text \<open>
  C14. Both hash routines compute SHA-256. For every message the block routine and, on every split of
  it in two, the byte-by-byte routine return the digest of the standard: the fold of the compression
  function, with its schedule recurrence, over the blocks of the message padded with the marker,
  zeros and its bit length. The streaming routine always returns.
\<close>

theorem sha256_implements_standard:
  "sha256 data = sha256_reference data \<and> sha256_concat a b = Some (sha256_reference (a @ b))"
  by (simp add: sha256_eq sha256_concat_eq)

section \<open>Message authentication\<close>

text \<open>The code of the standard: two nested hashes over the key padded with zeros to a block.\<close>

definition hmac_reference :: "u8 list \<Rightarrow> u8 list \<Rightarrow> u8 list" where
  "hmac_reference key data =
     (let k = (if length key > 64 then sha256_reference key else key);
          k0 = k @ replicate (64 - length k) 0
      in sha256_reference (map (\<lambda>b. b XOR 0x5C) k0 @ sha256_reference (map (\<lambda>b. b XOR 0x36) k0 @ data)))"

lemma foldl_compress_length: "length st = 8 \<Longrightarrow> length (foldl compress st bs) = 8"
  by (induction bs arbitrary: st) (simp_all add: compress_def split: prod.splits)

lemma length_sha256_reference: "length (sha256_reference m) = 32"
proof -
  have "length (concat (map (\<lambda>word. be_bytes 4 (unat word)) st)) = 4 * length st" for st :: "u32 list"
    by (induction st) simp_all
  moreover have "length (foldl compress H_INIT bs) = 8" for bs
    by (rule foldl_compress_length) (simp add: H_INIT_def)
  ultimately show ?thesis by (simp add: sha256_reference_def digest_bytes_def)
qed

lemma hmac_eq: "hmac_sha256 key data = Some (hmac_reference key data)"
proof -
  let ?k = "if length key > 64 then sha256_reference key else key"
  have k: "(if length key > 64 then slice_put (replicate 64 0) 0 (sha256 key) else slice_put (replicate 64 0) 0 key)
      = ?k @ replicate (64 - length ?k) 0"
    by (simp add: slice_put_def sha256_eq length_sha256_reference)
  have len: "length (?k @ replicate (64 - length ?k) (0 :: u8)) = 64"
    by (simp add: length_sha256_reference)
  have inner: "take (64 + length data) (slice_put (slice_put (replicate (64 + 1024) 0) 0 pad) 64 data) = pad @ data"
    if "length pad = 64" "length data \<le> 1024" for pad :: "u8 list"
    using that by (simp add: slice_put_def)
  define k0 where "k0 = ?k @ replicate (64 - length ?k) 0"
  have l0: "length k0 = 64" unfolding k0_def by (rule len)
  have ref: "hmac_reference key data =
    sha256_reference (map (\<lambda>b. b XOR 0x5C) k0 @ sha256_reference (map (\<lambda>b. b XOR 0x36) k0 @ data))"
    unfolding hmac_reference_def Let_def k0_def by (rule refl)
  show ?thesis
    unfolding ref hmac_sha256_def k Let_def k0_def [symmetric]
    using inner [of "map (\<lambda>b. b XOR 0x36) k0"] l0 by (simp add: sha256_eq sha256_concat_eq)
qed

lemma length_hmac_reference: "length (hmac_reference key data) = 32"
  by (simp add: hmac_reference_def Let_def length_sha256_reference)

lemma or_zero_iff: "x OR y = 0 \<longleftrightarrow> x = 0 \<and> y = (0 :: u8)"
  by (auto simp: bit_eq_iff bit_or_iff)

lemma xor_zero_iff: "x XOR y = 0 \<longleftrightarrow> x = (y :: u8)"
  by (auto simp: bit_eq_iff bit_xor_iff)

lemma foldl_or_zero: "foldl (\<lambda>d i. d OR f i) (x :: u8) is = 0 \<longleftrightarrow> x = 0 \<and> (\<forall>i\<in>set is. f i = 0)"
  by (induction "is" arbitrary: x) (auto simp: or_zero_iff)

lemma constant_time_eq_iff:
  "length a = 32 \<Longrightarrow> length b = 32 \<Longrightarrow> constant_time_eq a b \<longleftrightarrow> a = b"
  unfolding constant_time_eq_def foldl_or_zero
  by (auto simp: get_or_def list_eq_iff_nth_eq xor_zero_iff)

text \<open>
  The authentication code is HMAC-SHA256. For every key, longer than a block or not, and every
  message, on the buffered path and on the streaming one, the code returned is that of the
  standard, 32 bytes long; and the comparison of two digests is equality, every byte taken into
  account.
\<close>

theorem hmac_implements_standard:
  "hmac_sha256 key data = Some (hmac_reference key data) \<and> length (hmac_reference key data) = 32
    \<and> (length a = 32 \<and> length b = 32 \<longrightarrow> (constant_time_eq a b \<longleftrightarrow> a = b))"
  by (simp_all add: hmac_eq constant_time_eq_iff length_hmac_reference)

theorem hmac_implements_standard_witness:
  "constant_time_eq (hmac_reference [1] [2]) (hmac_reference [1] [2])
    \<and> \<not> constant_time_eq (replicate 32 0) (replicate 31 0 @ [1])"
  using hmac_implements_standard [of "[1]" "[2]" "hmac_reference [1] [2]" "hmac_reference [1] [2]"]
    hmac_implements_standard [of "[1]" "[2]" "replicate 32 0" "replicate 31 0 @ [1]"]
  by (simp add: replicate_append_same [symmetric] numeral_eq_Suc)

end
