(* ===== verification/Auth.thy ===== *)
theory Auth
  imports NetErrors Crypto
begin

text \<open>
  The session handshake of \<^verbatim>\<open>eidolon-net/src/auth.rs\<close>: its four messages on the wire, the cookie and
  the client's proof, the sliding window against replayed packets and the session context that
  holds it. The locale of messages of a fixed size is the contract the four messages share.
\<close>

section \<open>Messages of fixed size\<close>

text \<open>
  A message type with a fixed wire length: the contract of its \<open>write_to\<close> and \<open>read_from\<close>. A
  buffer that is long enough receives the message in its front and is left alone behind it, a
  shorter one is refused by both.
\<close>

locale fixed_message =
  fixes write_to :: "'m \<Rightarrow> u8 list \<Rightarrow> u8 list \<times> ('e + nat)"
    and read_from :: "u8 list \<Rightarrow> 'e + 'm"
    and len :: nat
    and wf :: "'m \<Rightarrow> bool"
  assumes write_ok: "wf m \<Longrightarrow> len \<le> length out \<Longrightarrow>
      \<exists>bs. length bs = len \<and> write_to m out = (bs @ drop len out, Inr len)
        \<and> (\<forall>rest. read_from (bs @ rest) = Inr m)"
    and write_short: "length out < len \<Longrightarrow> \<exists>e. write_to m out = (out, Inl e)"
    and read_short: "length src < len \<Longrightarrow> \<exists>e. read_from src = Inl e"
    and read_total: "len \<le> length src \<Longrightarrow> \<exists>m. read_from src = Inr m \<and> wf m"
begin

lemma roundtrip:
  "wf m \<Longrightarrow> len \<le> length out \<Longrightarrow> \<exists>out'. write_to m out = (out', Inr len)
     \<and> length out' = length out \<and> drop len out' = drop len out \<and> read_from (out' @ behind) = Inr m"
  using write_ok [of m out] by auto

lemma write_ok_iff: "wf m \<Longrightarrow> (\<exists>out'. write_to m out = (out', Inr len)) \<longleftrightarrow> len \<le> length out"
  using write_ok [of m out] write_short [of out m] by (metis Inl_Inr_False Pair_inject not_le)

lemma read_ok_iff: "(\<exists>m. read_from src = Inr m) \<longleftrightarrow> len \<le> length src"
  using read_short [of src] read_total [of src] by (metis Inl_Inr_False not_le)

text \<open>Two messages that are written alike are the same message.\<close>

lemma write_inj: "wf m \<Longrightarrow> wf m' \<Longrightarrow> len \<le> length out \<Longrightarrow> write_to m out = write_to m' out \<Longrightarrow> m = m'"
  using write_ok [of m out] write_ok [of m' out] by (metis Inr_inject append_same_eq Pair_inject)

end

text \<open>Consecutive fields written to the front of a buffer.\<close>

lemma slice_put_next:
  "length xs = i \<Longrightarrow> slice_put (xs @ ys) i bs = xs @ bs @ drop (length bs) ys"
  by (simp add: slice_put_def)

lemma slice_put_third:
  "length xs + length zs = i \<Longrightarrow> slice_put (xs @ zs @ ys) i bs = xs @ zs @ bs @ drop (length bs) ys"
  using slice_put_next [of "xs @ zs" i ys bs] by simp

lemma slice_put_first: "slice_put ys 0 bs = bs @ drop (length bs) ys"
  by (simp add: slice_put_def)

lemma from_be_word: "from_be (be_bytes 8 (unat (w :: u64))) = unat w" "from_be (be_bytes 4 (unat (v :: u32))) = unat v"
  "from_be (be_bytes 2 (unat (x :: u16))) = unat x"
  using unat_less_pow [of w] unat_less_pow [of v] unat_less_pow [of x]
  by (simp_all add: from_be_be_bytes)

definition NONCE_LEN :: nat where "NONCE_LEN = 16"

definition CHALLENGE_REQ_LEN :: nat where "CHALLENGE_REQ_LEN = 26"

definition CHALLENGE_RESP_LEN :: nat where "CHALLENGE_RESP_LEN = 48"

definition FINALIZE_REQ_LEN :: nat where "FINALIZE_REQ_LEN = 72"

definition FINALIZE_RESP_LEN :: nat where "FINALIZE_RESP_LEN = 44"

lemmas wire_lengths = NONCE_LEN_def CHALLENGE_REQ_LEN_def CHALLENGE_RESP_LEN_def FINALIZE_REQ_LEN_def
  FINALIZE_RESP_LEN_def

lemmas field_layout = slice_put_first slice_put_next slice_put_third from_be_word

text \<open>A big-endian integer read from a buffer at an offset.\<close>

definition read_u64 :: "nat \<Rightarrow> u8 list \<Rightarrow> u64" where
  "read_u64 i src = of_nat (from_be (take 8 (drop i src)))"

definition read_u32 :: "nat \<Rightarrow> u8 list \<Rightarrow> u32" where
  "read_u32 i src = of_nat (from_be (take 4 (drop i src)))"

definition read_u16 :: "nat \<Rightarrow> u8 list \<Rightarrow> u16" where
  "read_u16 i src = of_nat (from_be (take 2 (drop i src)))"

lemmas field_reads = read_u64_def read_u32_def read_u16_def

section \<open>The handshake messages\<close>

record ConnectChallengeRequest =
  cq_account_id :: u64
  cq_client_nonce :: "u8 list"
  cq_protocol_version :: u16

definition ChallengeRequest_write_to ::
  "ConnectChallengeRequest \<Rightarrow> u8 list \<Rightarrow> u8 list \<times> (NetError + nat)"
where
  "ChallengeRequest_write_to m out =
     (if length out < CHALLENGE_REQ_LEN then (out, Inl (TruncatedPacket CHALLENGE_REQ_LEN (length out)))
      else
        (let out = slice_put out 0 (be_bytes 8 (unat (cq_account_id m)));
             out = slice_put out 8 (cq_client_nonce m);
             out = slice_put out (8 + NONCE_LEN) (be_bytes 2 (unat (cq_protocol_version m)))
         in (out, Inr CHALLENGE_REQ_LEN)))"

definition ChallengeRequest_read_from :: "u8 list \<Rightarrow> NetError + ConnectChallengeRequest" where
  "ChallengeRequest_read_from src =
     (if length src < CHALLENGE_REQ_LEN then Inl (TruncatedPacket CHALLENGE_REQ_LEN (length src))
      else Inr \<lparr>cq_account_id = read_u64 0 src, cq_client_nonce = take 16 (drop 8 src),
                cq_protocol_version = read_u16 24 src\<rparr>)"

record ConnectChallengeResponse =
  cr_server_nonce :: "u8 list"
  cr_auth_cookie :: "u8 list"

definition ChallengeResponse_write_to ::
  "ConnectChallengeResponse \<Rightarrow> u8 list \<Rightarrow> u8 list \<times> (NetError + nat)"
where
  "ChallengeResponse_write_to m out =
     (if length out < CHALLENGE_RESP_LEN then (out, Inl (TruncatedPacket CHALLENGE_RESP_LEN (length out)))
      else
        (let out = slice_put out 0 (cr_server_nonce m);
             out = slice_put out NONCE_LEN (cr_auth_cookie m)
         in (out, Inr CHALLENGE_RESP_LEN)))"

definition ChallengeResponse_read_from :: "u8 list \<Rightarrow> NetError + ConnectChallengeResponse" where
  "ChallengeResponse_read_from src =
     (if length src < CHALLENGE_RESP_LEN then Inl (TruncatedPacket CHALLENGE_RESP_LEN (length src))
      else Inr \<lparr>cr_server_nonce = take NONCE_LEN src, cr_auth_cookie = take 32 (drop NONCE_LEN src)\<rparr>)"

record ConnectFinalizeRequest =
  fq_account_id :: u64
  fq_auth_cookie :: "u8 list"
  fq_client_proof :: "u8 list"

definition FinalizeRequest_write_to ::
  "ConnectFinalizeRequest \<Rightarrow> u8 list \<Rightarrow> u8 list \<times> (NetError + nat)"
where
  "FinalizeRequest_write_to m out =
     (if length out < FINALIZE_REQ_LEN then (out, Inl (TruncatedPacket FINALIZE_REQ_LEN (length out)))
      else
        (let out = slice_put out 0 (be_bytes 8 (unat (fq_account_id m)));
             out = slice_put out 8 (fq_auth_cookie m);
             out = slice_put out (8 + 32) (fq_client_proof m)
         in (out, Inr FINALIZE_REQ_LEN)))"

definition FinalizeRequest_read_from :: "u8 list \<Rightarrow> NetError + ConnectFinalizeRequest" where
  "FinalizeRequest_read_from src =
     (if length src < FINALIZE_REQ_LEN then Inl (TruncatedPacket FINALIZE_REQ_LEN (length src))
      else Inr \<lparr>fq_account_id = read_u64 0 src, fq_auth_cookie = take 32 (drop 8 src),
                fq_client_proof = take 32 (drop 40 src)\<rparr>)"

record ConnectFinalizeResponse =
  fr_session_id :: u64
  fr_authority_epoch :: u32
  fr_server_proof :: "u8 list"

definition FinalizeResponse_write_to ::
  "ConnectFinalizeResponse \<Rightarrow> u8 list \<Rightarrow> u8 list \<times> (NetError + nat)"
where
  "FinalizeResponse_write_to m out =
     (if length out < FINALIZE_RESP_LEN then (out, Inl (TruncatedPacket FINALIZE_RESP_LEN (length out)))
      else
        (let out = slice_put out 0 (be_bytes 8 (unat (fr_session_id m)));
             out = slice_put out 8 (be_bytes 4 (unat (fr_authority_epoch m)));
             out = slice_put out (8 + 4) (fr_server_proof m)
         in (out, Inr FINALIZE_RESP_LEN)))"

definition FinalizeResponse_read_from :: "u8 list \<Rightarrow> NetError + ConnectFinalizeResponse" where
  "FinalizeResponse_read_from src =
     (if length src < FINALIZE_RESP_LEN then Inl (TruncatedPacket FINALIZE_RESP_LEN (length src))
      else Inr \<lparr>fr_session_id = read_u64 0 src, fr_authority_epoch = read_u32 8 src,
                fr_server_proof = take 32 (drop 12 src)\<rparr>)"

text \<open>The nonces, cookies and proofs of the source are arrays of 16 and 32 bytes.\<close>

definition challenge_request_wf :: "ConnectChallengeRequest \<Rightarrow> bool" where
  "challenge_request_wf m \<longleftrightarrow> length (cq_client_nonce m) = 16"

definition challenge_response_wf :: "ConnectChallengeResponse \<Rightarrow> bool" where
  "challenge_response_wf m \<longleftrightarrow> length (cr_server_nonce m) = 16 \<and> length (cr_auth_cookie m) = 32"

definition finalize_request_wf :: "ConnectFinalizeRequest \<Rightarrow> bool" where
  "finalize_request_wf m \<longleftrightarrow> length (fq_auth_cookie m) = 32 \<and> length (fq_client_proof m) = 32"

definition finalize_response_wf :: "ConnectFinalizeResponse \<Rightarrow> bool" where
  "finalize_response_wf m \<longleftrightarrow> length (fr_server_proof m) = 32"

interpretation challenge_request: fixed_message ChallengeRequest_write_to ChallengeRequest_read_from
  CHALLENGE_REQ_LEN challenge_request_wf
proof
  fix m :: ConnectChallengeRequest and out :: "u8 list"
  assume "challenge_request_wf m" and "CHALLENGE_REQ_LEN \<le> length out"
  then show "\<exists>bs. length bs = CHALLENGE_REQ_LEN
      \<and> ChallengeRequest_write_to m out = (bs @ drop CHALLENGE_REQ_LEN out, Inr CHALLENGE_REQ_LEN)
      \<and> (\<forall>rest. ChallengeRequest_read_from (bs @ rest) = Inr m)"
    by (intro exI [of _ "be_bytes 8 (unat (cq_account_id m)) @ cq_client_nonce m
          @ be_bytes 2 (unat (cq_protocol_version m))"])
      (simp add: ChallengeRequest_write_to_def ChallengeRequest_read_from_def challenge_request_wf_def
        field_layout field_reads wire_lengths)
qed (simp_all add: ChallengeRequest_write_to_def ChallengeRequest_read_from_def challenge_request_wf_def wire_lengths)

interpretation challenge_response: fixed_message ChallengeResponse_write_to ChallengeResponse_read_from
  CHALLENGE_RESP_LEN challenge_response_wf
proof
  fix m :: ConnectChallengeResponse and out :: "u8 list"
  assume "challenge_response_wf m" and "CHALLENGE_RESP_LEN \<le> length out"
  then show "\<exists>bs. length bs = CHALLENGE_RESP_LEN
      \<and> ChallengeResponse_write_to m out = (bs @ drop CHALLENGE_RESP_LEN out, Inr CHALLENGE_RESP_LEN)
      \<and> (\<forall>rest. ChallengeResponse_read_from (bs @ rest) = Inr m)"
    by (intro exI [of _ "cr_server_nonce m @ cr_auth_cookie m"])
      (simp add: ChallengeResponse_write_to_def ChallengeResponse_read_from_def challenge_response_wf_def
        field_layout field_reads wire_lengths)
qed (simp_all add: ChallengeResponse_write_to_def ChallengeResponse_read_from_def challenge_response_wf_def wire_lengths)

interpretation finalize_request: fixed_message FinalizeRequest_write_to FinalizeRequest_read_from
  FINALIZE_REQ_LEN finalize_request_wf
proof
  fix m :: ConnectFinalizeRequest and out :: "u8 list"
  assume "finalize_request_wf m" and "FINALIZE_REQ_LEN \<le> length out"
  then show "\<exists>bs. length bs = FINALIZE_REQ_LEN
      \<and> FinalizeRequest_write_to m out = (bs @ drop FINALIZE_REQ_LEN out, Inr FINALIZE_REQ_LEN)
      \<and> (\<forall>rest. FinalizeRequest_read_from (bs @ rest) = Inr m)"
    by (intro exI [of _ "be_bytes 8 (unat (fq_account_id m)) @ fq_auth_cookie m @ fq_client_proof m"])
      (simp add: FinalizeRequest_write_to_def FinalizeRequest_read_from_def finalize_request_wf_def
        field_layout field_reads wire_lengths)
qed (simp_all add: FinalizeRequest_write_to_def FinalizeRequest_read_from_def finalize_request_wf_def wire_lengths)

interpretation finalize_response: fixed_message FinalizeResponse_write_to FinalizeResponse_read_from
  FINALIZE_RESP_LEN finalize_response_wf
proof
  fix m :: ConnectFinalizeResponse and out :: "u8 list"
  assume "finalize_response_wf m" and "FINALIZE_RESP_LEN \<le> length out"
  then show "\<exists>bs. length bs = FINALIZE_RESP_LEN
      \<and> FinalizeResponse_write_to m out = (bs @ drop FINALIZE_RESP_LEN out, Inr FINALIZE_RESP_LEN)
      \<and> (\<forall>rest. FinalizeResponse_read_from (bs @ rest) = Inr m)"
    by (intro exI [of _ "be_bytes 8 (unat (fr_session_id m)) @ be_bytes 4 (unat (fr_authority_epoch m))
          @ fr_server_proof m"])
      (simp add: FinalizeResponse_write_to_def FinalizeResponse_read_from_def finalize_response_wf_def
        field_layout field_reads wire_lengths)
qed (simp_all add: FinalizeResponse_write_to_def FinalizeResponse_read_from_def finalize_response_wf_def wire_lengths)

text \<open>
  The handshake messages survive the wire. Each of the four messages written to a buffer long
  enough leaves the bytes behind its wire length alone and is read back from the result, whatever
  follows it; a buffer or a datagram shorter than the wire length is refused by writer and reader.
\<close>

theorem handshake_roundtrip:
  "(challenge_request_wf m1 \<and> CHALLENGE_REQ_LEN \<le> length out \<longrightarrow>
      (\<exists>out'. ChallengeRequest_write_to m1 out = (out', Inr CHALLENGE_REQ_LEN) \<and> length out' = length out
        \<and> drop CHALLENGE_REQ_LEN out' = drop CHALLENGE_REQ_LEN out \<and> ChallengeRequest_read_from (out' @ behind) = Inr m1))
    \<and> (challenge_response_wf m2 \<and> CHALLENGE_RESP_LEN \<le> length out \<longrightarrow>
      (\<exists>out'. ChallengeResponse_write_to m2 out = (out', Inr CHALLENGE_RESP_LEN) \<and> length out' = length out
        \<and> drop CHALLENGE_RESP_LEN out' = drop CHALLENGE_RESP_LEN out \<and> ChallengeResponse_read_from (out' @ behind) = Inr m2))
    \<and> (finalize_request_wf m3 \<and> FINALIZE_REQ_LEN \<le> length out \<longrightarrow>
      (\<exists>out'. FinalizeRequest_write_to m3 out = (out', Inr FINALIZE_REQ_LEN) \<and> length out' = length out
        \<and> drop FINALIZE_REQ_LEN out' = drop FINALIZE_REQ_LEN out \<and> FinalizeRequest_read_from (out' @ behind) = Inr m3))
    \<and> (finalize_response_wf m4 \<and> FINALIZE_RESP_LEN \<le> length out \<longrightarrow>
      (\<exists>out'. FinalizeResponse_write_to m4 out = (out', Inr FINALIZE_RESP_LEN) \<and> length out' = length out
        \<and> drop FINALIZE_RESP_LEN out' = drop FINALIZE_RESP_LEN out \<and> FinalizeResponse_read_from (out' @ behind) = Inr m4))
    \<and> ((\<exists>m. ChallengeRequest_read_from src = Inr m) \<longleftrightarrow> CHALLENGE_REQ_LEN \<le> length src)
    \<and> ((\<exists>m. ChallengeResponse_read_from src = Inr m) \<longleftrightarrow> CHALLENGE_RESP_LEN \<le> length src)
    \<and> ((\<exists>m. FinalizeRequest_read_from src = Inr m) \<longleftrightarrow> FINALIZE_REQ_LEN \<le> length src)
    \<and> ((\<exists>m. FinalizeResponse_read_from src = Inr m) \<longleftrightarrow> FINALIZE_RESP_LEN \<le> length src)"
  by (intro conjI impI; (elim conjE)?)
    ((rule challenge_request.roundtrip challenge_response.roundtrip finalize_request.roundtrip
      finalize_response.roundtrip challenge_request.read_ok_iff challenge_response.read_ok_iff
      finalize_request.read_ok_iff finalize_response.read_ok_iff; assumption)+)

theorem handshake_roundtrip_witness:
  "\<exists>out'. ChallengeRequest_write_to \<lparr>cq_account_id = 7, cq_client_nonce = replicate 16 3, cq_protocol_version = 2\<rparr>
      (replicate 30 0) = (out', Inr 26) \<and> length out' = 30"
  using handshake_roundtrip [THEN conjunct1, of "\<lparr>cq_account_id = 7, cq_client_nonce = replicate 16 3, cq_protocol_version = 2\<rparr>"
      "replicate 30 0"]
  by (simp add: challenge_request_wf_def wire_lengths) blast

section \<open>The replay window\<close>

record ReplayWindow =
  rw_highest :: u64
  rw_window :: u64

definition ReplayWindow_new :: ReplayWindow where
  "ReplayWindow_new = \<lparr>rw_highest = 0, rw_window = 0\<rparr>"

definition check_and_update :: "u64 \<Rightarrow> ReplayWindow \<Rightarrow> ReplayWindow \<times> (NetError + unit)" where
  "check_and_update sequence r =
     (if rw_window r = 0 \<and> rw_highest r = 0 then (\<lparr>rw_highest = sequence, rw_window = 1\<rparr>, Inr ())
      else if sequence > rw_highest r
      then
        (let diff = unat (sequence - rw_highest r) in
         (\<lparr>rw_highest = sequence,
           rw_window = (if diff < 64 then push_bit diff (rw_window r) OR 1 else 1)\<rparr>, Inr ()))
      else
        (let diff = unat (rw_highest r - sequence) in
         if diff \<ge> 64 then (r, Inl (ReplayDetected sequence (saturating_sub (rw_highest r) 63)))
         else
           (let mask = push_bit diff 1 in
            if rw_window r AND mask \<noteq> 0
            then (r, Inl (ReplayDetected sequence (saturating_sub (rw_highest r) 63)))
            else (r\<lparr>rw_window := rw_window r OR mask\<rparr>, Inr ()))))"

record SessionSecurityContext =
  sc_session_id :: u64
  sc_account_id :: u64
  sc_authority_epoch :: u32
  sc_session_key :: "u8 list"
  sc_replay_window :: ReplayWindow
  sc_created_at_tick :: u64
  sc_last_seen_tick :: u64
  sc_ttl_ticks :: u64

definition SessionSecurityContext_new ::
  "u64 \<Rightarrow> u64 \<Rightarrow> u32 \<Rightarrow> u8 list \<Rightarrow> u64 \<Rightarrow> u64 \<Rightarrow> SessionSecurityContext"
where
  "SessionSecurityContext_new session_id account_id authority_epoch session_key current_tick ttl_ticks =
     \<lparr>sc_session_id = session_id, sc_account_id = account_id, sc_authority_epoch = authority_epoch,
      sc_session_key = session_key, sc_replay_window = ReplayWindow_new,
      sc_created_at_tick = current_tick, sc_last_seen_tick = current_tick, sc_ttl_ticks = ttl_ticks\<rparr>"

definition is_expired :: "u64 \<Rightarrow> SessionSecurityContext \<Rightarrow> bool" where
  "is_expired current_tick s \<longleftrightarrow> saturating_sub current_tick (sc_last_seen_tick s) > sc_ttl_ticks s"

definition touch :: "u64 \<Rightarrow> SessionSecurityContext \<Rightarrow> SessionSecurityContext" where
  "touch current_tick s =
     (if current_tick > sc_last_seen_tick s then s\<lparr>sc_last_seen_tick := current_tick\<rparr> else s)"

definition validate_sequence :: "u64 \<Rightarrow> SessionSecurityContext \<Rightarrow> SessionSecurityContext \<times> (NetError + unit)" where
  "validate_sequence sequence s =
     (case check_and_update sequence (sc_replay_window s) of (r, res) \<Rightarrow> (s\<lparr>sc_replay_window := r\<rparr>, res))"

section \<open>The proofs of the handshake\<close>

text \<open>\<open>None\<close> cannot occur: it would be a hash routine that does not return.\<close>

definition compute_auth_cookie :: "u8 list \<Rightarrow> u64 \<Rightarrow> u8 list \<Rightarrow> u8 list \<Rightarrow> u8 list option" where
  "compute_auth_cookie server_secret account_id client_nonce server_nonce =
     (let payload = replicate (8 + NONCE_LEN + NONCE_LEN) 0;
          payload = slice_put payload 0 (be_bytes 8 (unat account_id));
          payload = slice_put payload 8 client_nonce;
          payload = slice_put payload (8 + NONCE_LEN) server_nonce
      in hmac_sha256 server_secret payload)"

definition compute_client_proof :: "u8 list \<Rightarrow> u8 list \<Rightarrow> u8 list \<Rightarrow> u8 list \<Rightarrow> u8 list option" where
  "compute_client_proof account_token auth_cookie client_nonce server_nonce =
     (let payload = replicate (32 + NONCE_LEN + NONCE_LEN) 0;
          payload = slice_put payload 0 auth_cookie;
          payload = slice_put payload 32 client_nonce;
          payload = slice_put payload (32 + NONCE_LEN) server_nonce
      in hmac_sha256 account_token payload)"

definition verify_client_proof :: "u8 list \<Rightarrow> u8 list \<Rightarrow> u8 list \<Rightarrow> u8 list \<Rightarrow> u8 list \<Rightarrow> bool option" where
  "verify_client_proof account_token auth_cookie client_nonce server_nonce provided_proof =
     map_option (\<lambda>expected. constant_time_eq expected provided_proof)
       (compute_client_proof account_token auth_cookie client_nonce server_nonce)"

lemma client_proof_eq:
  "length cookie = 32 \<Longrightarrow> length cn = NONCE_LEN \<Longrightarrow> length sn = NONCE_LEN \<Longrightarrow>
    compute_client_proof tok cookie cn sn = Some (hmac_reference tok (cookie @ cn @ sn))"
  by (simp add: compute_client_proof_def field_layout NONCE_LEN_def hmac_eq)

text \<open>
  The handshake accepts exactly the right proof. The cookie is the authentication code of the
  account and both nonces under the server's secret; a client's proof is accepted if and only if it
  is the authentication code, under the account's token, of the cookie and the two nonces. Both
  computations always return.
\<close>

theorem proof_verification:
  assumes "length cookie = 32" and "length cn = NONCE_LEN" and "length sn = NONCE_LEN" and "length prf = 32"
  shows "compute_auth_cookie secret account cn sn
      = Some (hmac_reference secret (be_bytes 8 (unat account) @ cn @ sn))
    \<and> verify_client_proof tok cookie cn sn prf = Some (prf = hmac_reference tok (cookie @ cn @ sn))"
proof
  show "compute_auth_cookie secret account cn sn
      = Some (hmac_reference secret (be_bytes 8 (unat account) @ cn @ sn))"
    using assms by (simp add: compute_auth_cookie_def field_layout NONCE_LEN_def hmac_eq)
  show "verify_client_proof tok cookie cn sn prf = Some (prf = hmac_reference tok (cookie @ cn @ sn))"
    using assms by (auto simp: verify_client_proof_def client_proof_eq constant_time_eq_iff length_hmac_reference)
qed

theorem proof_verification_witness:
  "verify_client_proof [1] (replicate 32 2) (replicate 16 3) (replicate 16 4)
     (hmac_reference [1] (replicate 32 2 @ replicate 16 3 @ replicate 16 4)) = Some True"
  using proof_verification [of "replicate 32 2" "replicate 16 3" "replicate 16 4"
      "hmac_reference [1] (replicate 32 2 @ replicate 16 3 @ replicate 16 4)" "[1]"]
  by (simp add: NONCE_LEN_def length_hmac_reference)

section \<open>No packet twice\<close>

text \<open>
  The window describes the set of sequence numbers accepted so far: the greatest of them, and in
  bit \<open>k\<close> whether the number \<open>k\<close> below it is among them.
\<close>

definition window_of :: "nat set \<Rightarrow> ReplayWindow \<Rightarrow> bool" where
  "window_of A r \<longleftrightarrow> finite A \<and> (A = {} \<longrightarrow> r = ReplayWindow_new)
     \<and> (A \<noteq> {} \<longrightarrow> unat (rw_highest r) = Max A
          \<and> (\<forall>k<64. bit (rw_window r) k \<longleftrightarrow> k \<le> Max A \<and> Max A - k \<in> A))"

definition acceptable :: "nat set \<Rightarrow> nat \<Rightarrow> bool" where
  "acceptable A n \<longleftrightarrow> A = {} \<or> Max A < n \<or> (Max A - n < 64 \<and> n \<notin> A)"

lemma window_used: "window_of A r \<Longrightarrow> A \<noteq> {} \<Longrightarrow> rw_window r \<noteq> 0"
proof
  assume w: "window_of A r" "A \<noteq> {}" and "rw_window r = 0"
  then have "bit (rw_window r) 0 \<longleftrightarrow> 0 \<le> Max A \<and> Max A - 0 \<in> A"
    unfolding window_of_def by (meson zero_less_numeral)
  moreover have "Max A \<in> A" using w by (simp add: window_of_def)
  ultimately have "bit (rw_window r) 0" by simp
  with \<open>rw_window r = 0\<close> show False by simp
qed

lemma push_bit_or_one: "k < 64 \<Longrightarrow> bit (push_bit d w OR 1 :: u64) k \<longleftrightarrow> k = 0 \<or> (d \<le> k \<and> bit w (k - d))"
  by (auto simp: bit_simps)

lemma mask_bit: "(w :: u64) AND push_bit k 1 \<noteq> 0 \<longleftrightarrow> bit w k"
proof -
  have "w AND push_bit k 1 \<noteq> 0 \<longleftrightarrow> (\<exists>j. bit (w AND push_bit k 1) j)"
    using bit_imp_le_length [of "w AND push_bit k 1"] unfolding bit_eq_iff by auto
  also have "\<dots> \<longleftrightarrow> bit w k"
    unfolding bit_and_iff bit_push_bit_iff bit_1_iff using bit_imp_le_length [of w k] by auto
  finally show ?thesis .
qed

lemma check_and_update_spec:
  assumes w: "window_of A r" and c: "check_and_update seq r = (r', res)"
  shows "if acceptable A (unat seq) then res = Inr () \<and> window_of (insert (unat seq) A) r'
         else r' = r \<and> res = Inl (ReplayDetected seq (saturating_sub (rw_highest r) 63))"
proof (cases "A = {}")
  case True
  then have "r' = \<lparr>rw_highest = seq, rw_window = 1\<rparr> \<and> res = Inr ()"
    using w c by (auto simp: window_of_def check_and_update_def ReplayWindow_new_def)
  moreover have "bit (1 :: u64) k \<longleftrightarrow> k \<le> unat seq \<and> unat seq - k = unat seq" for k
    by (cases "k = 0") (simp_all add: bit_1_iff, linarith)
  ultimately show ?thesis using True by (simp add: acceptable_def window_of_def)
next
  case False
  let ?n = "unat seq" and ?m = "Max A"
  have fin: "finite A" and hi: "unat (rw_highest r) = ?m"
    and bits: "\<And>k. k < 64 \<Longrightarrow> bit (rw_window r) k \<longleftrightarrow> k \<le> ?m \<and> ?m - k \<in> A"
    using w False unfolding window_of_def by blast+
  have used: "\<not> (rw_window r = 0 \<and> rw_highest r = 0)" using window_used [OF w False] by simp
  have mem: "?m \<in> A" using fin False by simp
  have le: "x \<le> ?m" if "x \<in> A" for x using fin that by simp
  show ?thesis
  proof (cases "?m < ?n")
    case True
    have gt: "seq > rw_highest r" using True hi by (simp add: word_less_nat_alt)
    then have d: "unat (seq - rw_highest r) = ?n - ?m" using hi by (simp add: unat_sub order.strict_implies_order)
    define W where "W = (if ?n - ?m < 64 then push_bit (?n - ?m) (rw_window r) OR 1 else 1)"
    have r': "r' = \<lparr>rw_highest = seq, rw_window = W\<rparr>" "res = Inr ()"
      using c used gt d by (auto simp: check_and_update_def Let_def W_def)
    have max: "Max (insert ?n A) = ?n" using fin False True by simp
    have "bit W k \<longleftrightarrow> k \<le> ?n \<and> ?n - k \<in> insert ?n A" if k: "k < 64" for k
    proof (cases "k = 0")
      case True
      then show ?thesis by (simp add: W_def bit_or_iff bit_push_bit_iff)
    next
      case k0: False
      show ?thesis
      proof (cases "?n - ?m \<le> k")
        case True
        then have "bit W k \<longleftrightarrow> bit (rw_window r) (k - (?n - ?m))"
          using k k0 by (simp add: W_def push_bit_or_one)
        also have "\<dots> \<longleftrightarrow> k - (?n - ?m) \<le> ?m \<and> ?m - (k - (?n - ?m)) \<in> A" using k by (intro bits) simp
        also have "\<dots> \<longleftrightarrow> k \<le> ?n \<and> ?n - k \<in> A"
        proof -
          have "k - (?n - ?m) \<le> ?m \<longleftrightarrow> k \<le> ?n" and "?m - (k - (?n - ?m)) = ?n - k"
            using True \<open>?m < ?n\<close> by arith+
          then show ?thesis by simp
        qed
        also have "\<dots> \<longleftrightarrow> k \<le> ?n \<and> ?n - k \<in> insert ?n A" using k0 \<open>?m < ?n\<close> by auto
        finally show ?thesis .
      next
        case False
        have "?n - k \<notin> A" using le [of "?n - k"] False by linarith
        moreover have "\<not> bit W k" using False k k0 by (simp add: W_def push_bit_or_one bit_1_iff)
        ultimately show ?thesis using k0 \<open>?m < ?n\<close> False by auto
      qed
    qed
    then have "window_of (insert ?n A) r'" unfolding window_of_def max using fin by (simp add: r')
    with True r' show ?thesis by (simp add: acceptable_def)
  next
    case False
    then have ngt: "\<not> seq > rw_highest r" using hi by (simp add: word_less_nat_alt)
    then have d: "unat (rw_highest r - seq) = ?m - ?n" using hi by (simp add: unat_sub not_less)
    have in_window: "rw_window r AND push_bit (?m - ?n) 1 \<noteq> 0 \<longleftrightarrow> ?n \<in> A" if near: "?m - ?n < 64"
    proof -
      have "rw_window r AND push_bit k 1 \<noteq> 0 \<longleftrightarrow> bit (rw_window r) k" for k
        by (rule mask_bit)
      then show ?thesis using bits [OF near] False by simp
    qed
    show ?thesis
    proof (cases "acceptable A ?n")
      case False
      then have "64 \<le> ?m - ?n \<or> ?n \<in> A" using \<open>A \<noteq> {}\<close> by (auto simp: acceptable_def)
      with False c used ngt d in_window show ?thesis
        by (auto simp: check_and_update_def Let_def split: if_splits)
    next
      case True
      then have near: "?m - ?n < 64" "?n \<notin> A" using \<open>\<not> ?m < ?n\<close> \<open>A \<noteq> {}\<close> by (auto simp: acceptable_def)
      then have r': "r' = r\<lparr>rw_window := rw_window r OR push_bit (?m - ?n) 1\<rparr>" "res = Inr ()"
        using c used ngt d in_window by (auto simp: check_and_update_def Let_def split: if_splits)
      have "?n \<le> ?m" using \<open>\<not> ?m < ?n\<close> by (rule leI)
      then have max: "Max (insert ?n A) = ?m"
        unfolding Max_insert [OF fin \<open>A \<noteq> {}\<close>] by (rule max_absorb2)
      have "bit (rw_window r') k \<longleftrightarrow> k \<le> ?m \<and> ?m - k \<in> insert ?n A" if k: "k < 64" for k
      proof -
        have "bit (rw_window r') k \<longleftrightarrow> bit (rw_window r) k \<or> k = ?m - ?n"
          using k by (auto simp: r' bit_simps)
        moreover have "k \<le> ?m \<and> ?m - k = ?n \<longleftrightarrow> k = ?m - ?n" using \<open>\<not> ?m < ?n\<close> by auto
        ultimately show ?thesis using bits [OF k] by blast
      qed
      then have "window_of (insert ?n A) r'" unfolding window_of_def max using fin hi by (simp add: r')
      with True r' show ?thesis by simp
    qed
  qed
qed

text \<open>A session that is offered a list of packets, and the sequence numbers it accepts, in order.\<close>

fun session_run :: "u64 list \<Rightarrow> SessionSecurityContext \<Rightarrow> SessionSecurityContext \<times> u64 list" where
  "session_run [] s = (s, [])"
| "session_run (n # ns) s =
     (case validate_sequence n s of
        (s1, Inr u) \<Rightarrow> (case session_run ns s1 of (s2, acc) \<Rightarrow> (s2, n # acc))
      | (s1, Inl e) \<Rightarrow> session_run ns s1)"

lemma session_run_window:
  "session_run ns s = (s', acc) \<Longrightarrow> window_of A (sc_replay_window s) \<Longrightarrow>
    window_of (A \<union> unat ` set acc) (sc_replay_window s') \<and> distinct acc \<and> set acc \<subseteq> set ns
    \<and> (\<forall>n\<in>set acc. unat n \<notin> A)"
proof (induction ns arbitrary: s acc A)
  case Nil
  then show ?case by simp
next
  case (Cons n ns)
  obtain r res where c: "check_and_update n (sc_replay_window s) = (r, res)" by fastforce
  let ?s1 = "s\<lparr>sc_replay_window := r\<rparr>"
  have v: "validate_sequence n s = (?s1, res)" by (simp add: validate_sequence_def c)
  note spec = check_and_update_spec [OF Cons.prems(2) c]
  show ?case
  proof (cases res)
    case (Inl e)
    then have "window_of A (sc_replay_window ?s1)" using spec Cons.prems(2) by (simp split: if_splits)
    moreover have "session_run ns ?s1 = (s', acc)" using Cons.prems(1) v Inl by simp
    ultimately show ?thesis using Cons.IH by fastforce
  next
    case (Inr u)
    then have ok: "acceptable A (unat n)" and w: "window_of (insert (unat n) A) (sc_replay_window ?s1)"
      using spec by (auto split: if_splits)
    have fin: "finite A" using Cons.prems(2) by (simp add: window_of_def)
    have new: "unat n \<notin> A" using ok fin unfolding acceptable_def by (metis Max_ge empty_iff not_less)
    obtain acc1 where acc: "session_run ns ?s1 = (s', acc1)" "acc = n # acc1"
      using Cons.prems(1) v Inr by (auto split: prod.splits)
    from Cons.IH [OF acc(1) w] acc(2) new show ?thesis by auto
  qed
qed

text \<open>
  C3. No packet is accepted twice. Whatever sequence numbers a fresh session is offered, in any
  order, those it accepts are pairwise different and were offered; and the next number is accepted
  exactly when it is the first, is above all accepted ones, or lies within the last 64 and was not
  accepted yet. A rejection changes nothing and names the number and the bottom of the window.
\<close>

theorem replay_window_exact:
  assumes fresh: "sc_replay_window s = ReplayWindow_new" and run: "session_run ns s = (s', acc)"
  shows "distinct acc \<and> set acc \<subseteq> set ns
    \<and> (\<forall>n. (\<exists>s''. validate_sequence n s' = (s'', Inr ())) \<longleftrightarrow> acceptable (unat ` set acc) (unat n))
    \<and> (\<forall>n s'' e. validate_sequence n s' = (s'', Inl e) \<longrightarrow> s'' = s'
      \<and> e = ReplayDetected n (saturating_sub (rw_highest (sc_replay_window s')) 63))"
proof -
  have "window_of {} (sc_replay_window s)" by (simp add: window_of_def fresh)
  note r = session_run_window [OF run this]
  then have w: "window_of (unat ` set acc) (sc_replay_window s')" by simp
  have step: "((\<exists>s''. validate_sequence n s' = (s'', Inr ())) \<longleftrightarrow> acceptable (unat ` set acc) (unat n))
    \<and> (validate_sequence n s' = (s'', Inl e) \<longrightarrow> s'' = s'
      \<and> e = ReplayDetected n (saturating_sub (rw_highest (sc_replay_window s')) 63))" for n s'' e
  proof -
    obtain q res where c: "check_and_update n (sc_replay_window s') = (q, res)" by fastforce
    show ?thesis
      using check_and_update_spec [OF w c] by (auto simp: validate_sequence_def c split: if_splits)
  qed
  from r step show ?thesis by blast
qed

theorem replay_window_exact_witness:
  "\<exists>s' acc. session_run [5, 7, 5, 100] (SessionSecurityContext_new 1 2 3 [] 4 5) = (s', acc) \<and> distinct acc
     \<and> (\<nexists>s''. validate_sequence 20 s' = (s'', Inr ()))"
proof -
  obtain s' acc where r: "session_run [5, 7, 5, 100] (SessionSecurityContext_new 1 2 3 [] 4 5) = (s', acc)"
    by fastforce
  have acc: "snd (session_run [5, 7, 5, 100] (SessionSecurityContext_new 1 2 3 [] 4 5)) = [5, 7, 100]" by code_simp
  have fresh: "sc_replay_window (SessionSecurityContext_new 1 2 3 [] 4 5) = ReplayWindow_new"
    by (simp add: SessionSecurityContext_new_def)
  have "\<not> acceptable (unat ` set acc) (unat (20 :: u64))"
    using acc r by (simp add: acceptable_def)
  with replay_window_exact [OF fresh r] r show ?thesis by blast
qed

end
