(* ===== verification/Authority.thy ===== *)
theory Authority
  imports Auth
begin

text \<open>
  Authority epochs of \<^verbatim>\<open>eidolon-core/src/authority.rs\<close>: the token on the wire and the fencer that
  rejects commands of superseded epochs and repeated sequence numbers.
\<close>

definition AUTHORITY_TOKEN_LEN :: nat where "AUTHORITY_TOKEN_LEN = 24"

datatype AuthorityError =
    StaleEpoch u32 u32             \<comment> \<open>current, packet\<close>
  | SequenceRegression u32 u32     \<comment> \<open>current, packet\<close>
  | InvalidLength

record AuthorityToken =
  at_account_id :: u64
  at_session_id :: u64
  at_authority_epoch :: u32
  at_sequence :: u32

definition AuthorityToken_write_to :: "AuthorityToken \<Rightarrow> u8 list \<Rightarrow> u8 list \<times> (AuthorityError + nat)" where
  "AuthorityToken_write_to t out =
     (if length out < AUTHORITY_TOKEN_LEN then (out, Inl InvalidLength)
      else
        (let out = slice_put out 0 (be_bytes 8 (unat (at_account_id t)));
             out = slice_put out 8 (be_bytes 8 (unat (at_session_id t)));
             out = slice_put out (8 + 8) (be_bytes 4 (unat (at_authority_epoch t)));
             out = slice_put out (8 + 8 + 4) (be_bytes 4 (unat (at_sequence t)))
         in (out, Inr AUTHORITY_TOKEN_LEN)))"

definition AuthorityToken_read_from :: "u8 list \<Rightarrow> AuthorityError + AuthorityToken" where
  "AuthorityToken_read_from src =
     (if length src < AUTHORITY_TOKEN_LEN then Inl InvalidLength
      else Inr \<lparr>at_account_id = read_u64 0 src, at_session_id = read_u64 8 src,
                at_authority_epoch = read_u32 16 src, at_sequence = read_u32 20 src\<rparr>)"

lemma slice_put_fourth:
  "length xs + length ys + length zs = i \<Longrightarrow> slice_put (xs @ ys @ zs @ us) i bs = xs @ ys @ zs @ bs @ drop (length bs) us"
  using slice_put_next [of "xs @ ys @ zs" i us bs] by simp

interpretation authority_token: fixed_message AuthorityToken_write_to AuthorityToken_read_from
  AUTHORITY_TOKEN_LEN "\<lambda>_. True"
proof
  fix m :: AuthorityToken and out :: "u8 list"
  assume "AUTHORITY_TOKEN_LEN \<le> length out"
  then show "\<exists>bs. length bs = AUTHORITY_TOKEN_LEN
      \<and> AuthorityToken_write_to m out = (bs @ drop AUTHORITY_TOKEN_LEN out, Inr AUTHORITY_TOKEN_LEN)
      \<and> (\<forall>rest. AuthorityToken_read_from (bs @ rest) = Inr m)"
    by (intro exI [of _ "be_bytes 8 (unat (at_account_id m)) @ be_bytes 8 (unat (at_session_id m))
          @ be_bytes 4 (unat (at_authority_epoch m)) @ be_bytes 4 (unat (at_sequence m))"])
      (simp add: AuthorityToken_write_to_def AuthorityToken_read_from_def field_layout slice_put_fourth field_reads
        AUTHORITY_TOKEN_LEN_def)
qed (simp_all add: AuthorityToken_write_to_def AuthorityToken_read_from_def AUTHORITY_TOKEN_LEN_def)

section \<open>The fencer\<close>

record AuthorityFencer =
  af_active_epoch :: u32
  af_highest_sequence :: u32

definition AuthorityFencer_new :: "u32 \<Rightarrow> AuthorityFencer" where
  "AuthorityFencer_new initial_epoch = \<lparr>af_active_epoch = initial_epoch, af_highest_sequence = 0\<rparr>"

definition validate_and_advance ::
  "AuthorityToken \<Rightarrow> AuthorityFencer \<Rightarrow> AuthorityFencer \<times> (AuthorityError + unit)"
where
  "validate_and_advance token f =
     (if at_authority_epoch token < af_active_epoch f
      then (f, Inl (StaleEpoch (af_active_epoch f) (at_authority_epoch token)))
      else if at_authority_epoch token > af_active_epoch f
      then (\<lparr>af_active_epoch = at_authority_epoch token, af_highest_sequence = at_sequence token\<rparr>, Inr ())
      else if at_sequence token \<le> af_highest_sequence f
      then (f, Inl (SequenceRegression (af_highest_sequence f) (at_sequence token)))
      else (f\<lparr>af_highest_sequence := at_sequence token\<rparr>, Inr ()))"

definition increment_epoch :: "AuthorityFencer \<Rightarrow> AuthorityFencer \<times> u32" where
  "increment_epoch f =
     (let f' = f\<lparr>af_active_epoch := saturating_add (af_active_epoch f) 1, af_highest_sequence := 0\<rparr>
      in (f', af_active_epoch f'))"

text \<open>What happens to a fencer: commands with their tokens, and handovers.\<close>

datatype fencer_event = Command AuthorityToken | Handover

text \<open>The tokens accepted in the course of the events, oldest first.\<close>

fun fence :: "fencer_event list \<Rightarrow> AuthorityFencer \<Rightarrow> AuthorityFencer \<times> AuthorityToken list" where
  "fence [] f = (f, [])"
| "fence (Handover # es) f = fence es (fst (increment_epoch f))"
| "fence (Command t # es) f =
     (case validate_and_advance t f of
        (f1, Inr u) \<Rightarrow> (case fence es f1 of (f2, acc) \<Rightarrow> (f2, t # acc))
      | (f1, Inl e) \<Rightarrow> fence es f1)"

text \<open>The order of commands: by epoch, then by sequence number.\<close>

definition precedes :: "u32 \<times> u32 \<Rightarrow> u32 \<times> u32 \<Rightarrow> bool" where
  "precedes p q \<longleftrightarrow> fst p < fst q \<or> (fst p = fst q \<and> snd p < snd q)"

abbreviation stamp :: "AuthorityToken \<Rightarrow> u32 \<times> u32" where
  "stamp t \<equiv> (at_authority_epoch t, at_sequence t)"

abbreviation position :: "AuthorityFencer \<Rightarrow> u32 \<times> u32" where
  "position f \<equiv> (af_active_epoch f, af_highest_sequence f)"

lemma precedes_trans: "precedes p q \<Longrightarrow> precedes q r \<Longrightarrow> precedes p r"
  by (auto simp: precedes_def)

lemma validate_spec:
  "validate_and_advance t f = (f', r) \<Longrightarrow>
     (if precedes (position f) (stamp t) then r = Inr () \<and> position f' = stamp t
      else f' = f \<and> (\<exists>e. r = Inl e))"
  by (auto simp: validate_and_advance_def precedes_def split: if_splits)

text \<open>A handover moves on unless the epochs are used up.\<close>

lemma increment_epoch_precedes:
  "af_active_epoch f < - 1 \<Longrightarrow> precedes (position f) (position (fst (increment_epoch f)))"
  "af_active_epoch f < - 1 \<Longrightarrow> af_active_epoch (fst (increment_epoch f)) = af_active_epoch f + 1"
proof -
  assume "af_active_epoch f < - 1"
  then have "unat (af_active_epoch f) < 2 ^ 32 - 1"
    by (simp add: word_less_nat_alt unat_minus_one_eq)
  then have l: "unat (af_active_epoch f) + 1 < 2 ^ 32" by simp
  then show e: "af_active_epoch (fst (increment_epoch f)) = af_active_epoch f + 1"
    by (simp add: increment_epoch_def saturating_add_def Let_def)
  have "unat (af_active_epoch f + 1) = unat (af_active_epoch f) + 1"
    using l by (subst unat_add_lem [THEN iffD1]) simp_all
  then show "precedes (position f) (position (fst (increment_epoch f)))"
    unfolding precedes_def fst_conv e by (simp add: word_less_nat_alt)
qed

text \<open>At no handover of the run are the epochs used up.\<close>

fun epochs_left :: "fencer_event list \<Rightarrow> AuthorityFencer \<Rightarrow> bool" where
  "epochs_left [] f = True"
| "epochs_left (Handover # es) f \<longleftrightarrow> af_active_epoch f < - 1 \<and> epochs_left es (fst (increment_epoch f))"
| "epochs_left (Command t # es) f \<longleftrightarrow> epochs_left es (fst (validate_and_advance t f))"

lemma fence_increasing:
  "fence es f = (f', acc) \<Longrightarrow> epochs_left es f \<Longrightarrow>
    sorted_wrt precedes (map stamp acc)
    \<and> (\<forall>t\<in>set acc. precedes (position f) (stamp t) \<and> (stamp t = position f' \<or> precedes (stamp t) (position f')))
    \<and> (position f' = position f \<or> precedes (position f) (position f'))"
proof (induction es f arbitrary: acc rule: fence.induct)
  case (1 f)
  then show ?case by simp
next
  case (2 es f)
  let ?g = "fst (increment_epoch f)"
  have inc: "precedes (position f) (position ?g)"
    using 2 by (intro increment_epoch_precedes) simp
  have "fence es ?g = (f', acc)" and "epochs_left es ?g" using 2 by simp_all
  note IH = "2.IH" [OF this]
  have "\<forall>t\<in>set acc. precedes (position f) (stamp t)"
    using IH precedes_trans [OF inc] by blast
  moreover have "precedes (position f) (position f')"
    using IH precedes_trans [OF inc] inc by (elim conjE disjE) simp_all
  ultimately show ?case using IH by blast
next
  case (3 t es f)
  obtain f1 r where v: "validate_and_advance t f = (f1, r)" by fastforce
  note spec = validate_spec [OF v]
  show ?case
  proof (cases r)
    case (Inl e)
    then have "f1 = f" using spec by (auto split: if_splits)
    with 3 v Inl show ?thesis by simp
  next
    case (Inr u)
    then have p: "precedes (position f) (stamp t)" "position f1 = stamp t" using spec by (auto split: if_splits)
    obtain acc1 where a: "fence es f1 = (f', acc1)" "acc = t # acc1"
      using 3 v Inr by (auto split: prod.splits)
    have "epochs_left es f1" using "3.prems"(2) v by simp
    note IH = "3.IH"(2) [OF v [symmetric] Inr a(1) this]
    then have later: "\<forall>x\<in>set acc1. precedes (stamp t) (stamp x)"
      and last: "stamp t = position f' \<or> precedes (stamp t) (position f')"
      unfolding p(2) by auto
    have "sorted_wrt precedes (map stamp acc)"
      using IH later unfolding a(2) by (simp del: prod.inject)
    moreover have "\<forall>x\<in>set acc. precedes (position f) (stamp x)"
      using later p(1) precedes_trans [OF p(1)] unfolding a(2) by (simp del: prod.inject)
    moreover have "\<forall>x\<in>set acc. stamp x = position f' \<or> precedes (stamp x) (position f')"
      using IH last unfolding a(2) by (simp del: prod.inject)
    moreover have "precedes (position f) (position f')"
      using last precedes_trans [OF p(1)] p(1) by (elim disjE) simp_all
    ultimately show ?thesis by blast
  qed
qed

lemma sorted_wrt_distinct: "sorted_wrt P xs \<Longrightarrow> (\<And>p. \<not> P p p) \<Longrightarrow> distinct xs"
  by (induction xs) auto

text \<open>
  Fencing. Along any sequence of commands and handovers in which no handover happens at the
  last epoch, the accepted commands have strictly increasing (epoch, sequence number) pairs: no
  command is accepted twice or after a later one, and a command of an epoch below the active one
  is refused. A rejected command leaves the fencer as it was.
\<close>

theorem fencing:
  assumes run: "fence es (AuthorityFencer_new n) = (f, acc)" and left: "epochs_left es (AuthorityFencer_new n)"
  shows "sorted_wrt precedes (map stamp acc) \<and> distinct (map stamp acc)
    \<and> (\<forall>t. (\<exists>f'. validate_and_advance t f = (f', Inr ())) \<longleftrightarrow> precedes (position f) (stamp t))
    \<and> (\<forall>t\<in>set acc. \<not> precedes (position f) (stamp t))
    \<and> (\<forall>t f' e. validate_and_advance t f = (f', Inl e) \<longrightarrow> f' = f)"
proof (intro conjI allI ballI impI)
  show sorted: "sorted_wrt precedes (map stamp acc)" using fence_increasing [OF run left] by blast
  have irrefl: "\<not> precedes p p" for p by (simp add: precedes_def)
  show "distinct (map stamp acc)"
    using sorted irrefl by (rule sorted_wrt_distinct)
  show "(\<exists>f'. validate_and_advance t f = (f', Inr ())) \<longleftrightarrow> precedes (position f) (stamp t)" for t
    using validate_spec [of t f "fst (validate_and_advance t f)" "snd (validate_and_advance t f)"]
    by (cases "validate_and_advance t f") (auto split: if_splits)
  show "validate_and_advance t f = (f', Inl e) \<Longrightarrow> f' = f" for t f' e
    using validate_spec [of t f f' "Inl e"] by (auto split: if_splits)
  fix x assume "x \<in> set acc"
  then have "stamp x = position f \<or> precedes (stamp x) (position f)"
    using fence_increasing [OF run left] by blast
  then show "\<not> precedes (position f) (stamp x)"
  proof
    assume "stamp x = position f"
    then show ?thesis using irrefl [of "position f"] by simp
  next
    assume "precedes (stamp x) (position f)"
    then show ?thesis using irrefl [of "stamp x"] precedes_trans by blast
  qed
qed

theorem fencing_witness:
  "\<exists>f acc. fence [Command \<lparr>at_account_id = 1, at_session_id = 1, at_authority_epoch = 1, at_sequence = 5\<rparr>, Handover]
      (AuthorityFencer_new 1) = (f, acc) \<and> distinct (map stamp acc)"
proof -
  let ?es = "[Command \<lparr>at_account_id = 1, at_session_id = 1, at_authority_epoch = 1, at_sequence = 5\<rparr>, Handover]"
  obtain f acc where r: "fence ?es (AuthorityFencer_new 1) = (f, acc)" by (rule prod.exhaust)
  have "epochs_left ?es (AuthorityFencer_new 1)"
    by (simp add: validate_and_advance_def AuthorityFencer_new_def word_less_nat_alt unat_minus_one_eq)
  with fencing [OF r] r show ?thesis by blast
qed

text \<open>
  At the last epoch a handover leaves the epoch and resets the sequence number: commands that were
  accepted before it are accepted again.
\<close>

lemma handover_at_last_epoch_replays:
  "fst (validate_and_advance t f) = f1 \<Longrightarrow> at_authority_epoch t = - 1 \<Longrightarrow> af_active_epoch f = - 1 \<Longrightarrow>
    0 < at_sequence t \<Longrightarrow> snd (validate_and_advance t (fst (increment_epoch f1))) = Inr ()"
  by (auto simp: validate_and_advance_def increment_epoch_def Let_def saturating_add_def unat_minus_one_eq)

text \<open>
  An authority token written to a buffer of at least 24 bytes is read back from it, and the
  bytes behind it are kept; shorter buffers are refused with \<open>InvalidLength\<close>.
\<close>

theorem authority_token_roundtrip:
  "(AUTHORITY_TOKEN_LEN \<le> length out \<longrightarrow>
      (\<exists>out'. AuthorityToken_write_to t out = (out', Inr AUTHORITY_TOKEN_LEN) \<and> length out' = length out
        \<and> drop AUTHORITY_TOKEN_LEN out' = drop AUTHORITY_TOKEN_LEN out \<and> AuthorityToken_read_from (out' @ behind) = Inr t))
    \<and> (length src < AUTHORITY_TOKEN_LEN \<longrightarrow>
      AuthorityToken_read_from src = Inl InvalidLength \<and> AuthorityToken_write_to t src = (src, Inl InvalidLength))"
proof (intro conjI impI)
  show "AUTHORITY_TOKEN_LEN \<le> length out \<Longrightarrow>
      \<exists>out'. AuthorityToken_write_to t out = (out', Inr AUTHORITY_TOKEN_LEN) \<and> length out' = length out
        \<and> drop AUTHORITY_TOKEN_LEN out' = drop AUTHORITY_TOKEN_LEN out \<and> AuthorityToken_read_from (out' @ behind) = Inr t"
    by (rule authority_token.roundtrip [OF TrueI])
qed (simp_all add: AuthorityToken_read_from_def AuthorityToken_write_to_def)

theorem authority_token_roundtrip_witness:
  "\<exists>out'. AuthorityToken_write_to \<lparr>at_account_id = 1, at_session_id = 2, at_authority_epoch = 3, at_sequence = 4\<rparr>
     (replicate 24 0) = (out', Inr 24)"
  using authority_token_roundtrip [THEN conjunct1, of "replicate 24 0"
      "\<lparr>at_account_id = 1, at_session_id = 2, at_authority_epoch = 3, at_sequence = 4\<rparr>"]
  by (simp add: AUTHORITY_TOKEN_LEN_def) blast

end
