(* ===== verification/Market.thy ===== *)
theory Market
  imports Prelude
begin

text \<open>
  The order book of \<^verbatim>\<open>eidolon-core/src/market.rs\<close>: price-time matching of an incoming order against
  the resting side, fill-or-kill and immediate-or-cancel orders, resting limit orders and
  cancellation. Both sides are arrays of 64 slots; the counters beside them are part of the state.

  The source writes the matching code twice, for an incoming buy and for an incoming sell; the
  definitions take the side as an argument. The quantities are 32 bits wide and the sum of the
  fill-or-kill check wraps, as the source's \<open>+=\<close> does in a release build.
\<close>

definition MAX_ORDERS_PER_SIDE :: nat where
  "MAX_ORDERS_PER_SIDE = 64"

datatype OrderType = Limit | ImmediateOrCancel | FillOrKill

datatype OrderStatus = Active | PartiallyFilled | Filled | Cancelled | Rejected

record MarketOrder =
  mo_order_id :: u64
  mo_account_id :: u64
  mo_item_type_id :: u32
  mo_is_buy :: bool
  mo_unit_price :: u64
  mo_initial_quantity :: u32
  mo_remaining_quantity :: u32
  mo_station_id :: u32
  mo_order_type :: OrderType
  mo_status :: OrderStatus
  mo_placed_tick :: u64
  mo_expiration_tick :: u64

definition MarketOrder_new ::
  "u64 \<Rightarrow> u64 \<Rightarrow> u32 \<Rightarrow> bool \<Rightarrow> u64 \<Rightarrow> u32 \<Rightarrow> u32 \<Rightarrow> OrderType \<Rightarrow> u64 \<Rightarrow> u64 \<Rightarrow> MarketOrder"
where
  "MarketOrder_new order_id account_id item_type_id is_buy unit_price quantity station_id order_type
     placed_tick duration_ticks =
     \<lparr>mo_order_id = order_id, mo_account_id = account_id, mo_item_type_id = item_type_id,
      mo_is_buy = is_buy, mo_unit_price = unit_price, mo_initial_quantity = quantity,
      mo_remaining_quantity = quantity, mo_station_id = station_id, mo_order_type = order_type,
      mo_status = Active, mo_placed_tick = placed_tick,
      mo_expiration_tick = saturating_add placed_tick duration_ticks\<rparr>"

record TradeExecution =
  te_trade_id :: u64
  te_buy_order_id :: u64
  te_sell_order_id :: u64
  te_buyer_account_id :: u64
  te_seller_account_id :: u64
  te_item_type_id :: u32
  te_quantity :: u32
  te_unit_price :: u64
  te_total_price :: u64
  te_station_id :: u32
  te_tick :: u64

datatype MarketError =
    OrderBookFull | DuplicateOrderId | OrderNotFound | UnauthorizedCancellation
  | InvalidOrderParameters | FillOrKillUnfulfilled | OrderNotActive

type_synonym side = "MarketOrder option list"

record OrderBook =
  ob_item_type_id :: u32
  ob_bids :: side
  ob_bid_count :: nat
  ob_asks :: side
  ob_ask_count :: nat
  ob_next_trade_id :: u64

definition OrderBook_new :: "u32 \<Rightarrow> OrderBook" where
  "OrderBook_new item_type_id =
     \<lparr>ob_item_type_id = item_type_id, ob_bids = replicate MAX_ORDERS_PER_SIDE None, ob_bid_count = 0,
      ob_asks = replicate MAX_ORDERS_PER_SIDE None, ob_ask_count = 0, ob_next_trade_id = 1\<rparr>"

text \<open>The orders of a side, in slot order, and the best prices.\<close>

definition orders :: "side \<Rightarrow> MarketOrder list" where
  "orders slots = map the (filter (\<lambda>s. s \<noteq> None) slots)"

definition best_bid_price :: "OrderBook \<Rightarrow> u64 option" where
  "best_bid_price b = (let ps = map mo_unit_price (orders (ob_bids b)) in if ps = [] then None else Some (Max (set ps)))"

definition best_ask_price :: "OrderBook \<Rightarrow> u64 option" where
  "best_ask_price b = (let ps = map mo_unit_price (orders (ob_asks b)) in if ps = [] then None else Some (Min (set ps)))"

text \<open>The side of the buyers or of the sellers, with its counter.\<close>

definition side_of :: "bool \<Rightarrow> OrderBook \<Rightarrow> side" where
  "side_of is_buy b = (if is_buy then ob_bids b else ob_asks b)"

definition count_of :: "bool \<Rightarrow> OrderBook \<Rightarrow> nat" where
  "count_of is_buy b = (if is_buy then ob_bid_count b else ob_ask_count b)"

definition set_side :: "bool \<Rightarrow> side \<Rightarrow> nat \<Rightarrow> OrderBook \<Rightarrow> OrderBook" where
  "set_side is_buy slots count b =
     (if is_buy then b\<lparr>ob_bids := slots, ob_bid_count := count\<rparr>
      else b\<lparr>ob_asks := slots, ob_ask_count := count\<rparr>)"

definition insert_resting_order :: "MarketOrder \<Rightarrow> OrderBook \<Rightarrow> OrderBook \<times> (MarketError + unit)" where
  "insert_resting_order order b =
     (let side = side_of (mo_is_buy order) b; count = count_of (mo_is_buy order) b in
      if count \<ge> MAX_ORDERS_PER_SIDE then (b, Inl OrderBookFull)
      else if \<exists>o' \<in> set (orders side). mo_order_id o' = mo_order_id order then (b, Inl DuplicateOrderId)
      else (case find_index (\<lambda>slot. slot = None) side of
              Some i \<Rightarrow> (set_side (mo_is_buy order) (side[i := Some order]) (count + 1) b, Inr ())
            | None \<Rightarrow> (b, Inl OrderBookFull)))"

definition has_order_id :: "u64 \<Rightarrow> MarketOrder option \<Rightarrow> bool" where
  "has_order_id order_id slot = (case slot of Some o' \<Rightarrow> mo_order_id o' = order_id | None \<Rightarrow> False)"

text \<open>The loop over one side, or \<open>None\<close> when it finds no such order and the next loop runs.\<close>

definition cancel_in ::
  "bool \<Rightarrow> u64 \<Rightarrow> u64 \<Rightarrow> OrderBook \<Rightarrow> (OrderBook \<times> (MarketError + MarketOrder)) option"
where
  "cancel_in is_buy order_id account_id b =
     (case find_index (has_order_id order_id) (side_of is_buy b) of
        None \<Rightarrow> None
      | Some i \<Rightarrow>
          (case side_of is_buy b ! i of
             None \<Rightarrow> None
           | Some o' \<Rightarrow>
               Some (if mo_account_id o' \<noteq> account_id then (b, Inl UnauthorizedCancellation)
                     else (set_side is_buy ((side_of is_buy b)[i := None]) (count_of is_buy b - 1) b,
                           Inr (o'\<lparr>mo_status := Cancelled\<rparr>)))))"

definition cancel_order :: "u64 \<Rightarrow> u64 \<Rightarrow> OrderBook \<Rightarrow> OrderBook \<times> (MarketError + MarketOrder)" where
  "cancel_order order_id account_id b =
     (case cancel_in True order_id account_id b of
        Some r \<Rightarrow> r
      | None \<Rightarrow>
          (case cancel_in False order_id account_id b of
             Some r \<Rightarrow> r
           | None \<Rightarrow> (b, Inl OrderNotFound)))"

section \<open>Matching\<close>

text \<open>
  A buy crosses the asks at or below its price, a sell the bids at or above it; among them the
  best price is taken first, then the earliest tick, then the lowest slot.
\<close>

definition crosses :: "bool \<Rightarrow> u64 \<Rightarrow> u64 \<Rightarrow> bool" where
  "crosses is_buy limit price = (if is_buy then price \<le> limit else price \<ge> limit)"

definition beats :: "bool \<Rightarrow> u64 \<times> u64 \<Rightarrow> u64 \<times> u64 \<Rightarrow> bool" where
  "beats is_buy k best =
     (case (k, best) of
        ((p, t), (best_p, best_t)) \<Rightarrow>
          (if is_buy then p < best_p else p > best_p) \<or> (p = best_p \<and> t < best_t))"

primrec best_scan ::
  "bool \<Rightarrow> u64 \<Rightarrow> side \<Rightarrow> nat \<Rightarrow> (nat \<times> u64 \<times> u64) option \<Rightarrow> (nat \<times> u64 \<times> u64) option"
where
  "best_scan is_buy limit [] i best = best"
| "best_scan is_buy limit (slot # slots) i best =
     best_scan is_buy limit slots (i + 1)
       (case slot of
          None \<Rightarrow> best
        | Some o' \<Rightarrow>
            (if crosses is_buy limit (mo_unit_price o')
             then
               (let this = (mo_unit_price o', mo_placed_tick o') in
                case best of
                  None \<Rightarrow> Some (i, this)
                | Some (j, k) \<Rightarrow> if beats is_buy this k then Some (i, this) else best)
             else best))"

definition best_match_idx :: "MarketOrder \<Rightarrow> OrderBook \<Rightarrow> nat option" where
  "best_match_idx incoming b =
     map_option fst (best_scan (mo_is_buy incoming) (mo_unit_price incoming)
       (side_of (\<not> mo_is_buy incoming) b) 0 None)"

definition trade_of :: "MarketOrder \<Rightarrow> MarketOrder \<Rightarrow> u32 \<Rightarrow> u64 \<Rightarrow> u64 \<Rightarrow> TradeExecution" where
  "trade_of incoming resting matched_qty trade_id current_tick =
     (let buy = (if mo_is_buy incoming then incoming else resting);
          sell = (if mo_is_buy incoming then resting else incoming)
      in \<lparr>te_trade_id = trade_id, te_buy_order_id = mo_order_id buy, te_sell_order_id = mo_order_id sell,
          te_buyer_account_id = mo_account_id buy, te_seller_account_id = mo_account_id sell,
          te_item_type_id = mo_item_type_id incoming, te_quantity = matched_qty,
          te_unit_price = mo_unit_price resting,
          te_total_price = saturating_mul (ucast matched_qty) (mo_unit_price resting),
          te_station_id = mo_station_id sell, te_tick = current_tick\<rparr>)"

text \<open>The trade with the resting order in slot \<open>idx\<close>: the book and the incoming order after it.\<close>

definition execute_match ::
  "nat \<Rightarrow> MarketOrder \<Rightarrow> u64 \<Rightarrow> MarketOrder \<Rightarrow> OrderBook \<Rightarrow> OrderBook \<times> MarketOrder \<times> TradeExecution"
where
  "execute_match idx resting current_tick incoming b =
     (let matched_qty = min (mo_remaining_quantity incoming) (mo_remaining_quantity resting);
          trade = trade_of incoming resting matched_qty (ob_next_trade_id b) current_tick;
          opp = (\<not> mo_is_buy incoming);
          left = mo_remaining_quantity resting - matched_qty;
          b1 = b\<lparr>ob_next_trade_id := ob_next_trade_id b + 1\<rparr>;
          b2 = (if left = 0 then set_side opp ((side_of opp b)[idx := None]) (count_of opp b - 1) b1
                else set_side opp ((side_of opp b)[idx := Some (resting\<lparr>mo_remaining_quantity := left,
                       mo_status := PartiallyFilled\<rparr>)]) (count_of opp b) b1)
      in (b2, incoming\<lparr>mo_remaining_quantity := mo_remaining_quantity incoming - matched_qty\<rparr>, trade))"

text \<open>\<open>room\<close> is the number of entries of the output that are left.\<close>

primrec match_loop ::
  "nat \<Rightarrow> u64 \<Rightarrow> MarketOrder \<Rightarrow> OrderBook \<Rightarrow> OrderBook \<times> MarketOrder \<times> TradeExecution list"
where
  "match_loop 0 current_tick incoming b = (b, incoming, [])"
| "match_loop (Suc room) current_tick incoming b =
     (if mo_remaining_quantity incoming = 0 then (b, incoming, [])
      else
        (case best_match_idx incoming b of
           None \<Rightarrow> (b, incoming, [])
         | Some idx \<Rightarrow>
             (case side_of (\<not> mo_is_buy incoming) b ! idx of
                None \<Rightarrow> (b, incoming, [])
              | Some resting \<Rightarrow>
                  (case execute_match idx resting current_tick incoming b of
                     (b1, incoming1, trade) \<Rightarrow>
                       (case match_loop room current_tick incoming1 b1 of
                          (b2, incoming2, trades) \<Rightarrow> (b2, incoming2, trade # trades))))))"

definition available_qty :: "MarketOrder \<Rightarrow> OrderBook \<Rightarrow> u32" where
  "available_qty incoming b =
     foldl (\<lambda>sum o'. if crosses (mo_is_buy incoming) (mo_unit_price incoming) (mo_unit_price o')
                     then sum + mo_remaining_quantity o' else sum)
       0 (orders (side_of (\<not> mo_is_buy incoming) b))"

text \<open>The status of the incoming order after the loop.\<close>

definition final_status :: "MarketOrder \<Rightarrow> nat \<Rightarrow> OrderStatus" where
  "final_status incoming trade_count =
     (if mo_remaining_quantity incoming = 0 then Filled
      else case mo_order_type incoming of
             ImmediateOrCancel \<Rightarrow> if trade_count > 0 then PartiallyFilled else Cancelled
           | Limit \<Rightarrow> if trade_count > 0 then PartiallyFilled else Active
           | FillOrKill \<Rightarrow> mo_status incoming)"

text \<open>The result carries the trades that were written to the output, also when it is an error.\<close>

definition place_order ::
  "MarketOrder \<Rightarrow> nat \<Rightarrow> u64 \<Rightarrow> OrderBook
    \<Rightarrow> OrderBook \<times> TradeExecution list \<times> (MarketError + nat \<times> MarketOrder)"
where
  "place_order incoming room current_tick b =
     (if mo_unit_price incoming = 0 \<or> mo_initial_quantity incoming = 0
      then (b, [], Inl InvalidOrderParameters)
      else if mo_order_type incoming = FillOrKill \<and> available_qty incoming b < mo_initial_quantity incoming
      then (b, [], Inl FillOrKillUnfulfilled)
      else
        (case match_loop room current_tick incoming b of
           (b1, incoming1, trades) \<Rightarrow>
             (let incoming2 = incoming1\<lparr>mo_status := final_status incoming1 (length trades)\<rparr> in
              if mo_remaining_quantity incoming1 \<noteq> 0 \<and> mo_order_type incoming1 = Limit
              then (case insert_resting_order incoming2 b1 of
                      (b2, Inl e) \<Rightarrow> (b2, trades, Inl e)
                    | (b2, Inr u) \<Rightarrow> (b2, trades, Inr (length trades, incoming2)))
              else (b1, trades, Inr (length trades, incoming2)))))"

section \<open>The best resting order\<close>

abbreviation order_key :: "MarketOrder \<Rightarrow> u64 \<times> u64" where
  "order_key o' \<equiv> (mo_unit_price o', mo_placed_tick o')"

text \<open>What the scan has found in the slots it has passed.\<close>

definition best_in :: "bool \<Rightarrow> u64 \<Rightarrow> side \<Rightarrow> (nat \<times> u64 \<times> u64) option \<Rightarrow> bool" where
  "best_in is_buy limit slots best \<longleftrightarrow>
     (case best of
        None \<Rightarrow> \<forall>o'. Some o' \<in> set slots \<longrightarrow> \<not> crosses is_buy limit (mo_unit_price o')
      | Some (j, k) \<Rightarrow>
          j < length slots
          \<and> (\<exists>o'. slots ! j = Some o' \<and> order_key o' = k \<and> crosses is_buy limit (mo_unit_price o'))
          \<and> (\<forall>o'. Some o' \<in> set slots \<and> crosses is_buy limit (mo_unit_price o') \<longrightarrow>
               \<not> beats is_buy (order_key o') k))"

lemma beats_trans: "\<not> beats b x k \<Longrightarrow> beats b y k \<Longrightarrow> \<not> beats b x y"
  by (auto simp: beats_def split: if_splits prod.splits)

lemma best_in_step:
  assumes "best_in b l pre best"
  shows "best_in b l (pre @ [slot])
    (case slot of
       None \<Rightarrow> best
     | Some o' \<Rightarrow>
         (if crosses b l (mo_unit_price o')
          then (case best of
                  None \<Rightarrow> Some (length pre, order_key o')
                | Some (j, k) \<Rightarrow> if beats b (order_key o') k then Some (length pre, order_key o') else best)
          else best))"
proof (cases slot)
  case None
  with assms show ?thesis by (auto simp: best_in_def nth_append split: option.splits)
next
  case (Some o')
  have irrefl: "\<not> beats b x x" for x by (auto simp: beats_def split: prod.splits)
  show ?thesis
  proof (cases "crosses b l (mo_unit_price o')")
    case False
    with assms Some show ?thesis by (auto simp: best_in_def nth_append split: option.splits)
  next
    case True
    show ?thesis
    proof (cases best)
      case None
      with True assms Some irrefl show ?thesis by (auto simp: best_in_def)
    next
      case jk: (Some jk)
      obtain j k where e: "jk = (j, k)" by (rule prod.exhaust)
      have pre: "j < length pre" "\<exists>q. pre ! j = Some q \<and> order_key q = k \<and> crosses b l (mo_unit_price q)"
        "\<And>q. Some q \<in> set pre \<Longrightarrow> crosses b l (mo_unit_price q) \<Longrightarrow> \<not> beats b (order_key q) k"
        using assms unfolding jk e best_in_def option.case prod.case by blast+
      show ?thesis
      proof (cases "beats b (order_key o') k")
        case beat: True
        have "\<not> beats b (order_key q) (order_key o')" if "Some q \<in> set (pre @ [slot])" "crosses b l (mo_unit_price q)" for q
        proof (cases "q = o'")
          case True
          then show ?thesis using irrefl by simp
        next
          case False
          then have "Some q \<in> set pre" using that(1) Some by simp
          with pre(3) that(2) beat show ?thesis by (metis beats_trans)
        qed
        with True beat Some show ?thesis unfolding jk e best_in_def by auto
      next
        case worse: False
        with True pre Some show ?thesis
          unfolding jk e by (auto simp: best_in_def nth_append)
      qed
    qed
  qed
qed

lemma best_scan_best_in: "best_in b l pre best \<Longrightarrow> best_in b l (pre @ slots) (best_scan b l slots (length pre) best)"
proof (induction slots arbitrary: pre best)
  case Nil
  then show ?case by simp
next
  case (Cons slot slots)
  from Cons.IH [OF best_in_step [OF Cons.prems, of slot]] show ?case
    unfolding best_scan.simps Let_def by simp
qed

lemma best_match_spec:
  "case best_match_idx incoming b of
     None \<Rightarrow> \<forall>o'. Some o' \<in> set (side_of (\<not> mo_is_buy incoming) b) \<longrightarrow>
       \<not> crosses (mo_is_buy incoming) (mo_unit_price incoming) (mo_unit_price o')
   | Some idx \<Rightarrow> idx < length (side_of (\<not> mo_is_buy incoming) b)
       \<and> (\<exists>o'. side_of (\<not> mo_is_buy incoming) b ! idx = Some o'
            \<and> crosses (mo_is_buy incoming) (mo_unit_price incoming) (mo_unit_price o')
            \<and> (\<forall>q. Some q \<in> set (side_of (\<not> mo_is_buy incoming) b)
                 \<and> crosses (mo_is_buy incoming) (mo_unit_price incoming) (mo_unit_price q) \<longrightarrow>
                 \<not> beats (mo_is_buy incoming) (order_key q) (order_key o')))"
proof -
  let ?b = "mo_is_buy incoming" and ?l = "mo_unit_price incoming" and ?s = "side_of (\<not> mo_is_buy incoming) b"
  have "best_in ?b ?l [] None" by (simp add: best_in_def)
  from best_scan_best_in [OF this, of ?s] have "best_in ?b ?l ?s (best_scan ?b ?l ?s 0 None)" by simp
  then show ?thesis
    unfolding best_match_idx_def best_in_def by (auto split: option.splits prod.splits)
qed

lemma best_match_order:
  "best_match_idx incoming b = Some idx \<Longrightarrow>
    \<exists>o'. side_of (\<not> mo_is_buy incoming) b ! idx = Some o' \<and> idx < length (side_of (\<not> mo_is_buy incoming) b)"
  using best_match_spec [of incoming b] by auto

section \<open>The book's invariant\<close>

definition side_ok :: "bool \<Rightarrow> side \<Rightarrow> nat \<Rightarrow> bool" where
  "side_ok is_buy slots count \<longleftrightarrow>
     length slots = MAX_ORDERS_PER_SIDE \<and> count = occupied slots \<and> keyed mo_order_id slots
     \<and> (\<forall>o'. Some o' \<in> set slots \<longrightarrow>
          mo_is_buy o' = is_buy \<and> mo_remaining_quantity o' \<noteq> 0 \<and> mo_unit_price o' \<noteq> 0)"

definition book_ok :: "OrderBook \<Rightarrow> bool" where
  "book_ok b \<longleftrightarrow> (\<forall>is_buy. side_ok is_buy (side_of is_buy b) (count_of is_buy b))"

lemma side_of_set_side [simp]:
  "side_of x (set_side y slots n b) = (if x = y then slots else side_of x b)"
  "count_of x (set_side y slots n b) = (if x = y then n else count_of x b)"
  "side_of x (b\<lparr>ob_next_trade_id := t\<rparr>) = side_of x b" "count_of x (b\<lparr>ob_next_trade_id := t\<rparr>) = count_of x b"
  by (auto simp: side_of_def count_of_def set_side_def)

lemma book_ok_new: "book_ok (OrderBook_new t)"
  by (auto simp: book_ok_def side_ok_def OrderBook_new_def side_of_def count_of_def)

lemma book_okD: "book_ok b \<Longrightarrow> side_ok is_buy (side_of is_buy b) (count_of is_buy b)"
  by (simp add: book_ok_def)

lemma book_ok_set_side: "book_ok b \<Longrightarrow> side_ok x slots n \<Longrightarrow> book_ok (set_side x slots n b)"
  by (auto simp: book_ok_def)

lemma side_ok_clear:
  assumes "side_ok x slots n" and "i < length slots" and "slots ! i = Some o'"
  shows "side_ok x (slots[i := None]) (n - 1)"
proof -
  have "Suc (occupied (slots[i := None])) = occupied slots"
    using assms by (intro occupied_upd_None) simp_all
  moreover have "Some q \<in> set (slots[i := None]) \<Longrightarrow> Some q \<in> set slots" for q
    using set_update_subset_insert [of slots i None] by auto
  ultimately show ?thesis using assms by (auto simp: side_ok_def keyed_clear)
qed

lemma side_ok_reduce:
  assumes "side_ok x slots n" and "i < length slots" and "slots ! i = Some o'"
    and "mo_order_id q = mo_order_id o'" and "mo_is_buy q = x" "mo_remaining_quantity q \<noteq> 0" "mo_unit_price q \<noteq> 0"
  shows "side_ok x (slots[i := Some q]) n"
proof -
  have "Some p \<in> set (slots[i := Some q]) \<Longrightarrow> p = q \<or> Some p \<in> set slots" for p
    using set_update_subset_insert [of slots i "Some q"] by auto
  with assms occupied_upd_replace [of i slots q] keyed_replace [of mo_order_id slots i o' q] show ?thesis
    by (auto simp: side_ok_def)
qed

lemma side_ok_put:
  assumes "side_ok x slots n" and "i < length slots" and "slots ! i = None"
    and "\<And>p. Some p \<in> set slots \<Longrightarrow> mo_order_id p \<noteq> mo_order_id q"
    and "mo_is_buy q = x" "mo_remaining_quantity q \<noteq> 0" "mo_unit_price q \<noteq> 0"
  shows "side_ok x (slots[i := Some q]) (n + 1)"
proof -
  have "Some p \<in> set (slots[i := Some q]) \<Longrightarrow> p = q \<or> Some p \<in> set slots" for p
    using set_update_subset_insert [of slots i "Some q"] by auto
  with assms occupied_upd_Some [of i slots q] keyed_put [of mo_order_id slots q i] show ?thesis
    by (auto simp: side_ok_def)
qed

section \<open>One trade\<close>

text \<open>The quantity that rests on a side at the prices that satisfy a predicate.\<close>

definition slot_qty :: "(u64 \<Rightarrow> bool) \<Rightarrow> MarketOrder option \<Rightarrow> nat" where
  "slot_qty P slot =
     (case slot of None \<Rightarrow> 0 | Some o' \<Rightarrow> if P (mo_unit_price o') then unat (mo_remaining_quantity o') else 0)"

definition side_qty :: "(u64 \<Rightarrow> bool) \<Rightarrow> side \<Rightarrow> nat" where
  "side_qty P slots = sum_list (map (slot_qty P) slots)"

lemma slot_qty_simps [simp]:
  "slot_qty P None = 0"
  "slot_qty P (Some o') = (if P (mo_unit_price o') then unat (mo_remaining_quantity o') else 0)"
  by (simp_all add: slot_qty_def)

lemma side_qty_update:
  "i < length slots \<Longrightarrow> side_qty P (slots[i := s]) + slot_qty P (slots ! i) = side_qty P slots + slot_qty P s"
proof -
  assume i: "i < length slots"
  then have "slot_qty P (slots ! i) \<le> side_qty P slots"
    unfolding side_qty_def by (intro member_le_sum_list) simp_all
  then show ?thesis
    using i by (simp add: side_qty_def map_update sum_list_update)
qed

abbreviation te_qty :: "TradeExecution \<Rightarrow> nat" where
  "te_qty t \<equiv> unat (te_quantity t)"

text \<open>
  What a trade of an incoming order with a resting one is: the smaller of the two quantities, at
  the resting order's price, between the owners of the two orders.
\<close>

definition trade_ok :: "MarketOrder \<Rightarrow> TradeExecution \<Rightarrow> bool" where
  "trade_ok incoming t \<longleftrightarrow>
     te_quantity t \<noteq> 0 \<and> crosses (mo_is_buy incoming) (mo_unit_price incoming) (te_unit_price t)
     \<and> te_total_price t = saturating_mul (ucast (te_quantity t)) (te_unit_price t)
     \<and> (if mo_is_buy incoming
        then te_buy_order_id t = mo_order_id incoming \<and> te_buyer_account_id t = mo_account_id incoming
        else te_sell_order_id t = mo_order_id incoming \<and> te_seller_account_id t = mo_account_id incoming)"

lemma unat_sub_min: "unat (x - min x y) = unat x - unat (min x y)" "unat (y - min x y) = unat y - unat (min x y)"
  for x y :: u32
  by (simp_all add: unat_sub min_def)

lemma execute_match_spec:
  assumes ok: "book_ok b" and m: "best_match_idx incoming b = Some idx"
    and r: "side_of (\<not> mo_is_buy incoming) b ! idx = Some resting"
    and rem: "mo_remaining_quantity incoming \<noteq> 0"
    and e: "execute_match idx resting tk incoming b = (b1, incoming1, t)"
  shows "book_ok b1"
    and "side_of (mo_is_buy incoming) b1 = side_of (mo_is_buy incoming) b"
    and "incoming1 = incoming\<lparr>mo_remaining_quantity := mo_remaining_quantity incoming1\<rparr>"
    and "unat (mo_remaining_quantity incoming1) + te_qty t = unat (mo_remaining_quantity incoming)"
    and "P (mo_unit_price resting) \<Longrightarrow>
      side_qty P (side_of (\<not> mo_is_buy incoming) b1) + te_qty t = side_qty P (side_of (\<not> mo_is_buy incoming) b)"
    and "trade_ok incoming t" and "te_unit_price t = mo_unit_price resting"
    and "Some q \<in> set (side_of (\<not> mo_is_buy incoming) b1) \<Longrightarrow>
      \<exists>q'. Some q' \<in> set (side_of (\<not> mo_is_buy incoming) b) \<and> order_key q = order_key q'"
    and "te_quantity t = min (mo_remaining_quantity incoming) (mo_remaining_quantity resting)"
    and "crosses (mo_is_buy incoming) (mo_unit_price incoming) (mo_unit_price resting)"
    and "mo_remaining_quantity incoming1 \<noteq> 0 \<Longrightarrow>
      occupied (side_of (\<not> mo_is_buy incoming) b1) < occupied (side_of (\<not> mo_is_buy incoming) b)"
proof -
  let ?opp = "\<not> mo_is_buy incoming"
  let ?s = "side_of ?opp b" and ?n = "count_of ?opp b"
  let ?in = "mo_remaining_quantity incoming" and ?out = "mo_remaining_quantity resting"
  let ?q = "min ?in ?out"
  have side: "side_ok ?opp ?s ?n" using ok by (rule book_okD)
  have idx: "idx < length ?s" using best_match_order [OF m] by blast
  have mem: "Some resting \<in> set ?s" using idx r by (metis nth_mem)
  have res: "mo_is_buy resting = ?opp" "?out \<noteq> 0" "mo_unit_price resting \<noteq> 0"
    using side mem by (auto simp: side_ok_def)
  show cross: "crosses (mo_is_buy incoming) (mo_unit_price incoming) (mo_unit_price resting)"
    using best_match_spec [of incoming b] m r by auto
  let ?b1 = "b\<lparr>ob_next_trade_id := ob_next_trade_id b + 1\<rparr>"
  let ?rest = "resting\<lparr>mo_remaining_quantity := ?out - ?q, mo_status := PartiallyFilled\<rparr>"
  have b1: "b1 = (if ?out - ?q = 0 then set_side ?opp (?s[idx := None]) (?n - 1) ?b1
      else set_side ?opp (?s[idx := Some ?rest]) ?n ?b1)"
    and inc: "incoming1 = incoming\<lparr>mo_remaining_quantity := ?in - ?q\<rparr>"
    and t: "t = trade_of incoming resting ?q (ob_next_trade_id b) tk"
    using e by (auto simp: execute_match_def Let_def)
  have okb: "book_ok ?b1" using ok by (simp add: book_ok_def)
  have sides: "side_of ?opp b1 = ?s[idx := (if ?out - ?q = 0 then None else Some ?rest)]"
    by (simp add: b1)
  show "side_of (mo_is_buy incoming) b1 = side_of (mo_is_buy incoming) b" by (simp add: b1)
  show "book_ok b1"
  proof (cases "?out - ?q = 0")
    case True
    then show ?thesis
      using book_ok_set_side [OF okb side_ok_clear [OF side idx r]] by (simp add: b1)
  next
    case False
    have "side_ok ?opp (?s[idx := Some ?rest]) ?n"
      using False res by (intro side_ok_reduce [OF side idx r]) simp_all
    with False book_ok_set_side [OF okb] show ?thesis by (simp add: b1)
  qed
  show "incoming1 = incoming\<lparr>mo_remaining_quantity := mo_remaining_quantity incoming1\<rparr>" by (simp add: inc)
  have qty: "te_quantity t = ?q" by (simp add: t trade_of_def Let_def)
  then show "te_quantity t = min ?in ?out" .
  have le: "unat ?q \<le> unat ?in" "unat ?q \<le> unat ?out" by (simp_all add: word_le_nat_alt [symmetric])
  show "unat (mo_remaining_quantity incoming1) + te_qty t = unat ?in"
    unfolding qty inc using le by (simp add: unat_sub_min)
  show "side_qty P (side_of ?opp b1) + te_qty t = side_qty P ?s" if "P (mo_unit_price resting)"
  proof -
    have "side_qty P (side_of ?opp b1) + unat ?out = side_qty P ?s + (unat ?out - unat ?q)"
      using side_qty_update [OF idx, of P "if ?out - ?q = 0 then None else Some ?rest"] r that
      unfolding sides by (auto simp: unat_sub_min unat_eq_0 [symmetric] simp del: unat_eq_0)
    then show ?thesis unfolding qty using le by linarith
  qed
  have "?q \<noteq> 0" using rem res(2) by (simp add: min_def)
  then show "trade_ok incoming t" using cross unfolding trade_ok_def qty by (simp add: t trade_of_def Let_def)
  show "te_unit_price t = mo_unit_price resting" by (simp add: t trade_of_def Let_def)
  show "\<exists>q'. Some q' \<in> set ?s \<and> order_key q = order_key q'" if "Some q \<in> set (side_of ?opp b1)"
  proof -
    have "Some q = (if ?out - ?q = 0 then None else Some ?rest) \<or> Some q \<in> set ?s"
      using that set_update_subset_insert [of ?s idx] unfolding sides by blast
    then show ?thesis using mem by (auto split: if_splits)
  qed
  show "occupied (side_of ?opp b1) < occupied ?s" if "mo_remaining_quantity incoming1 \<noteq> 0"
  proof -
    have "?out - ?q = 0" using that by (auto simp: inc min_def split: if_splits)
    then show ?thesis
      unfolding sides using occupied_upd_None [of idx ?s] idx r by simp
  qed
qed

section \<open>The whole match\<close>

definition no_cross :: "MarketOrder \<Rightarrow> OrderBook \<Rightarrow> bool" where
  "no_cross incoming b \<longleftrightarrow>
     (\<forall>q. Some q \<in> set (side_of (\<not> mo_is_buy incoming) b) \<longrightarrow>
        \<not> crosses (mo_is_buy incoming) (mo_unit_price incoming) (mo_unit_price q))"

text \<open>The price a buyer meets first is the lower one, a seller the higher one.\<close>

definition better_or_same :: "bool \<Rightarrow> u64 \<Rightarrow> u64 \<Rightarrow> bool" where
  "better_or_same is_buy p q = (if is_buy then p \<le> q else q \<le> p)"

definition total_qty :: "TradeExecution list \<Rightarrow> nat" where
  "total_qty ts = sum_list (map te_qty ts)"

definition matched :: "MarketOrder \<Rightarrow> OrderBook \<Rightarrow> OrderBook \<Rightarrow> MarketOrder \<Rightarrow> TradeExecution list \<Rightarrow> bool" where
  "matched inc b b' inc' ts \<longleftrightarrow>
     book_ok b' \<and> side_of (mo_is_buy inc) b' = side_of (mo_is_buy inc) b
     \<and> inc' = inc\<lparr>mo_remaining_quantity := mo_remaining_quantity inc'\<rparr>
     \<and> unat (mo_remaining_quantity inc') + total_qty ts = unat (mo_remaining_quantity inc)
     \<and> (\<forall>P. (\<forall>p. crosses (mo_is_buy inc) (mo_unit_price inc) p \<longrightarrow> P p) \<longrightarrow>
          side_qty P (side_of (\<not> mo_is_buy inc) b') + total_qty ts = side_qty P (side_of (\<not> mo_is_buy inc) b))
     \<and> (\<forall>t\<in>set ts. trade_ok inc t)
     \<and> (\<forall>t\<in>set ts. \<exists>q. Some q \<in> set (side_of (\<not> mo_is_buy inc) b) \<and> mo_unit_price q = te_unit_price t)
     \<and> sorted_wrt (better_or_same (mo_is_buy inc)) (map te_unit_price ts)
     \<and> (\<forall>q. Some q \<in> set (side_of (\<not> mo_is_buy inc) b') \<longrightarrow>
          (\<exists>q'. Some q' \<in> set (side_of (\<not> mo_is_buy inc) b) \<and> order_key q = order_key q'))"

lemma matched_refl: "book_ok b \<Longrightarrow> matched inc b b inc []"
  by (auto simp: matched_def total_qty_def)

lemma trade_ok_remaining: "trade_ok (inc\<lparr>mo_remaining_quantity := r\<rparr>) t = trade_ok inc t"
  by (simp add: trade_ok_def)

lemma matched_step:
  assumes ok: "book_ok b" and m: "best_match_idx inc b = Some idx"
    and r: "side_of (\<not> mo_is_buy inc) b ! idx = Some resting" and rem: "mo_remaining_quantity inc \<noteq> 0"
    and e: "execute_match idx resting tk inc b = (b1, inc1, t)"
    and later: "matched inc1 b1 b' inc' ts"
  shows "matched inc b b' inc' (t # ts)"
proof -
  note x = execute_match_spec [OF ok m r rem e]
  have inc1: "mo_is_buy inc1 = mo_is_buy inc" "mo_unit_price inc1 = mo_unit_price inc"
    "inc1 = inc\<lparr>mo_remaining_quantity := mo_remaining_quantity inc1\<rparr>"
    using x(3) by (metis MarketOrder.select_convs MarketOrder.surjective MarketOrder.update_convs)+
  have tok: "trade_ok inc1 u = trade_ok inc u" for u
    by (subst inc1(3)) (rule trade_ok_remaining)
  have L: "book_ok b'" "side_of (mo_is_buy inc) b' = side_of (mo_is_buy inc) b1"
    "inc' = inc1\<lparr>mo_remaining_quantity := mo_remaining_quantity inc'\<rparr>"
    "unat (mo_remaining_quantity inc') + total_qty ts = unat (mo_remaining_quantity inc1)"
    "\<And>P. (\<forall>p. crosses (mo_is_buy inc) (mo_unit_price inc) p \<longrightarrow> P p) \<Longrightarrow>
       side_qty P (side_of (\<not> mo_is_buy inc) b') + total_qty ts = side_qty P (side_of (\<not> mo_is_buy inc) b1)"
    "\<forall>u\<in>set ts. trade_ok inc u"
    "\<forall>u\<in>set ts. \<exists>q. Some q \<in> set (side_of (\<not> mo_is_buy inc) b1) \<and> mo_unit_price q = te_unit_price u"
    "sorted_wrt (better_or_same (mo_is_buy inc)) (map te_unit_price ts)"
    "\<forall>q. Some q \<in> set (side_of (\<not> mo_is_buy inc) b') \<longrightarrow>
       (\<exists>q'. Some q' \<in> set (side_of (\<not> mo_is_buy inc) b1) \<and> order_key q = order_key q')"
    using later unfolding matched_def inc1(1,2) tok by blast+
  have best: "\<not> beats (mo_is_buy inc) (order_key q) (order_key resting)"
    if "Some q \<in> set (side_of (\<not> mo_is_buy inc) b)" "crosses (mo_is_buy inc) (mo_unit_price inc) (mo_unit_price q)" for q
    using best_match_spec [of inc b] m r that by auto
  have mem: "Some resting \<in> set (side_of (\<not> mo_is_buy inc) b)"
    using best_match_order [OF m] r by (metis nth_mem)
  have prices: "\<exists>q. Some q \<in> set (side_of (\<not> mo_is_buy inc) b) \<and> mo_unit_price q = te_unit_price u" if "u \<in> set ts" for u
    using L(7) x(8) that by (metis prod.inject)
  have first: "better_or_same (mo_is_buy inc) (te_unit_price t) (te_unit_price u)" if u: "u \<in> set ts" for u
  proof -
    obtain q where q: "Some q \<in> set (side_of (\<not> mo_is_buy inc) b)" "mo_unit_price q = te_unit_price u"
      using prices [OF u] by blast
    have "crosses (mo_is_buy inc) (mo_unit_price inc) (mo_unit_price q)"
      using L(6) u q(2) by (simp add: trade_ok_def)
    from best [OF q(1) this] q(2) show ?thesis
      unfolding x(7) by (auto simp: beats_def better_or_same_def not_less split: if_splits)
  qed
  show ?thesis
    unfolding matched_def
  proof (intro conjI)
    show "book_ok b'" by (rule L(1))
    show "side_of (mo_is_buy inc) b' = side_of (mo_is_buy inc) b" unfolding L(2) by (rule x(2))
    show "inc' = inc\<lparr>mo_remaining_quantity := mo_remaining_quantity inc'\<rparr>"
      using L(3) inc1(3) by (metis MarketOrder.surjective MarketOrder.update_convs(7))
    show "unat (mo_remaining_quantity inc') + total_qty (t # ts) = unat (mo_remaining_quantity inc)"
      using L(4) x(4) by (simp add: total_qty_def)
    show "\<forall>P. (\<forall>p. crosses (mo_is_buy inc) (mo_unit_price inc) p \<longrightarrow> P p) \<longrightarrow>
        side_qty P (side_of (\<not> mo_is_buy inc) b') + total_qty (t # ts) = side_qty P (side_of (\<not> mo_is_buy inc) b)"
    proof (intro allI impI)
      fix P assume P: "\<forall>p. crosses (mo_is_buy inc) (mo_unit_price inc) p \<longrightarrow> P p"
      then have "P (mo_unit_price resting)" using x(10) by simp
      from x(5) [of P, OF this] L(5) [OF P] show
        "side_qty P (side_of (\<not> mo_is_buy inc) b') + total_qty (t # ts) = side_qty P (side_of (\<not> mo_is_buy inc) b)"
        by (simp add: total_qty_def)
    qed
    show "\<forall>u\<in>set (t # ts). trade_ok inc u" using L(6) x(6) by simp
    show "\<forall>u\<in>set (t # ts). \<exists>q. Some q \<in> set (side_of (\<not> mo_is_buy inc) b) \<and> mo_unit_price q = te_unit_price u"
      using prices mem x(7) by auto
    show "sorted_wrt (better_or_same (mo_is_buy inc)) (map te_unit_price (t # ts))"
      using L(8) first by simp
    show "\<forall>q. Some q \<in> set (side_of (\<not> mo_is_buy inc) b') \<longrightarrow>
       (\<exists>q'. Some q' \<in> set (side_of (\<not> mo_is_buy inc) b) \<and> order_key q = order_key q')"
      using L(9) x(8) by metis
  qed
qed

lemma match_loop_spec:
  "match_loop room tk inc b = (b', inc', ts) \<Longrightarrow> book_ok b \<Longrightarrow>
    matched inc b b' inc' ts
    \<and> (occupied (side_of (\<not> mo_is_buy inc) b) \<le> room \<longrightarrow> mo_remaining_quantity inc' = 0 \<or> no_cross inc b')"
proof (induction room arbitrary: inc b ts)
  case 0
  then have "occupied (side_of (\<not> mo_is_buy inc) b) \<le> 0 \<longrightarrow> no_cross inc b"
    by (auto simp: no_cross_def occupied_def filter_empty_conv)
  with 0 matched_refl show ?case by simp
next
  case (Suc room)
  show ?case
  proof (cases "mo_remaining_quantity inc = 0")
    case True
    with Suc.prems matched_refl show ?thesis by simp
  next
    case rem: False
    show ?thesis
    proof (cases "best_match_idx inc b")
      case None
      then have "no_cross inc b" using best_match_spec [of inc b] by (simp add: no_cross_def)
      with None rem Suc.prems matched_refl show ?thesis by simp
    next
      case (Some idx)
      obtain resting where r: "side_of (\<not> mo_is_buy inc) b ! idx = Some resting"
        using best_match_order [OF Some] by blast
      obtain b1 inc1 t where e: "execute_match idx resting tk inc b = (b1, inc1, t)" by (rule prod_cases3)
      obtain us where l: "match_loop room tk inc1 b1 = (b', inc', us)" "ts = t # us"
        using Suc.prems(1) rem Some r e by (auto split: prod.splits)
      note x = execute_match_spec [OF Suc.prems(2) Some r rem e]
      have inc1: "mo_is_buy inc1 = mo_is_buy inc" "mo_unit_price inc1 = mo_unit_price inc"
        using x(3) by (metis MarketOrder.select_convs MarketOrder.surjective MarketOrder.update_convs)+
      have IH: "matched inc1 b1 b' inc' us"
        "occupied (side_of (\<not> mo_is_buy inc) b1) \<le> room \<longrightarrow> mo_remaining_quantity inc' = 0 \<or> no_cross inc1 b'"
        using Suc.IH [OF l(1) x(1)] by (simp_all add: inc1)
      have m: "matched inc b b' inc' ts"
        unfolding l(2) by (rule matched_step [OF Suc.prems(2) Some r rem e IH(1)])
      have "mo_remaining_quantity inc' = 0 \<or> no_cross inc b'"
        if "occupied (side_of (\<not> mo_is_buy inc) b) \<le> Suc room"
      proof (cases "mo_remaining_quantity inc1 = 0")
        case True
        then have "unat (mo_remaining_quantity inc') = 0" using IH(1) by (simp add: matched_def)
        then show ?thesis by (simp add: unat_eq_0)
      next
        case False
        then have "occupied (side_of (\<not> mo_is_buy inc) b1) \<le> room" using x(11) that by simp
        then show ?thesis using IH(2) by (simp add: no_cross_def inc1)
      qed
      with m show ?thesis by blast
    qed
  qed
qed

section \<open>Price-time priority\<close>

text \<open>
  A reference for the loop that shares nothing with it: the orders of the other side within the
  limit in their priority (better price, then earlier tick, then lower slot), and what a quantity
  takes from them one by one while the output has room, each at its own price.
\<close>

definition within_limit :: "MarketOrder \<Rightarrow> u64 \<Rightarrow> bool" where
  "within_limit inc price \<longleftrightarrow> (if mo_is_buy inc then price \<le> mo_unit_price inc else mo_unit_price inc \<le> price)"

definition ahead_of :: "bool \<Rightarrow> side \<Rightarrow> nat \<Rightarrow> nat \<Rightarrow> bool" where
  "ahead_of is_buy slots i j \<longleftrightarrow>
     (let o' = the (slots ! i); q = the (slots ! j) in
      if mo_unit_price o' = mo_unit_price q
      then mo_placed_tick o' < mo_placed_tick q \<or> (mo_placed_tick o' = mo_placed_tick q \<and> i < j)
      else if is_buy then mo_unit_price o' < mo_unit_price q else mo_unit_price q < mo_unit_price o')"

fun insert_by :: "('a \<Rightarrow> 'a \<Rightarrow> bool) \<Rightarrow> 'a \<Rightarrow> 'a list \<Rightarrow> 'a list" where
  "insert_by lt x [] = [x]"
| "insert_by lt x (y # ys) = (if lt x y then x # y # ys else y # insert_by lt x ys)"

definition crossing_slots :: "MarketOrder \<Rightarrow> side \<Rightarrow> nat list" where
  "crossing_slots inc slots =
     filter (\<lambda>i. case slots ! i of None \<Rightarrow> False | Some o' \<Rightarrow> within_limit inc (mo_unit_price o'))
       [0..<length slots]"

definition priority_slots :: "MarketOrder \<Rightarrow> side \<Rightarrow> nat list" where
  "priority_slots inc slots = foldr (insert_by (ahead_of (mo_is_buy inc) slots)) (crossing_slots inc slots) []"

definition resting_queue :: "MarketOrder \<Rightarrow> OrderBook \<Rightarrow> MarketOrder list" where
  "resting_queue inc b = (let slots = side_of (\<not> mo_is_buy inc) b in map (\<lambda>i. the (slots ! i)) (priority_slots inc slots))"

fun fills :: "nat \<Rightarrow> nat \<Rightarrow> MarketOrder list \<Rightarrow> (MarketOrder \<times> nat) list" where
  "fills 0 n os = []"
| "fills (Suc room) n [] = []"
| "fills (Suc room) n (o' # os) =
     (if n = 0 then [] else (let k = min n (unat (mo_remaining_quantity o')) in (o', k) # fills room (n - k) os))"

definition expected_trade :: "MarketOrder \<Rightarrow> MarketOrder \<Rightarrow> nat \<Rightarrow> u64 \<Rightarrow> u64 \<Rightarrow> TradeExecution" where
  "expected_trade inc q n trade_id tk =
     \<lparr>te_trade_id = trade_id,
      te_buy_order_id = mo_order_id (if mo_is_buy inc then inc else q), te_sell_order_id = mo_order_id (if mo_is_buy inc then q else inc),
      te_buyer_account_id = mo_account_id (if mo_is_buy inc then inc else q),
      te_seller_account_id = mo_account_id (if mo_is_buy inc then q else inc),
      te_item_type_id = mo_item_type_id inc, te_quantity = word_of_nat n, te_unit_price = mo_unit_price q,
      te_total_price = saturating_mul (ucast (word_of_nat n :: u32)) (mo_unit_price q),
      te_station_id = mo_station_id (if mo_is_buy inc then q else inc), te_tick = tk\<rparr>"

fun trades_of :: "MarketOrder \<Rightarrow> u64 \<Rightarrow> u64 \<Rightarrow> (MarketOrder \<times> nat) list \<Rightarrow> TradeExecution list" where
  "trades_of inc tk trade_id [] = []"
| "trades_of inc tk trade_id (f # fs) =
     expected_trade inc (fst f) (snd f) trade_id tk # trades_of inc tk (trade_id + 1) fs"

definition priority_trades :: "MarketOrder \<Rightarrow> nat \<Rightarrow> u64 \<Rightarrow> OrderBook \<Rightarrow> TradeExecution list" where
  "priority_trades inc room tk b =
     trades_of inc tk (ob_next_trade_id b) (fills room (unat (mo_remaining_quantity inc)) (resting_queue inc b))"

lemma set_insert_by [simp]: "set (insert_by lt x ys) = insert x (set ys)"
  by (induction ys) auto

lemma length_insert_by [simp]: "length (insert_by lt x ys) = Suc (length ys)"
  by (induction ys) auto

lemma insert_by_sorted:
  assumes trans: "\<And>a b c. lt a b \<Longrightarrow> lt b c \<Longrightarrow> lt a c" and lin: "\<And>a b. a \<noteq> b \<Longrightarrow> lt a b \<or> lt b a"
  shows "sorted_wrt lt ys \<Longrightarrow> x \<notin> set ys \<Longrightarrow> sorted_wrt lt (insert_by lt x ys)"
proof (induction ys)
  case (Cons y ys)
  show ?case
  proof (cases "lt x y")
    case True
    then show ?thesis using Cons.prems trans by auto
  next
    case False
    then have "lt y x" using lin [of x y] Cons.prems(2) by auto
    then show ?thesis using False Cons by auto
  qed
qed simp

text \<open>The reference in terms of the code's comparisons.\<close>

lemma within_limit_crosses: "within_limit inc = crosses (mo_is_buy inc) (mo_unit_price inc)"
  by (auto simp: within_limit_def crosses_def fun_eq_iff)

lemma ahead_of_iff: "ahead_of is_buy slots i j \<longleftrightarrow>
   (let k = order_key (the (slots ! i)); l = order_key (the (slots ! j)) in beats is_buy k l \<or> k = l \<and> i < j)"
  by (auto simp: ahead_of_def beats_def Let_def)

lemma expected_trade_iff: "expected_trade inc q n i tk = trade_of inc q (word_of_nat n) i tk"
  by (simp add: expected_trade_def trade_of_def Let_def)

lemma ahead_of_trans: "ahead_of x slots i j \<Longrightarrow> ahead_of x slots j k \<Longrightarrow> ahead_of x slots i k"
  by (auto simp: ahead_of_iff Let_def beats_def split: if_splits prod.splits)

lemma ahead_of_linear: "i \<noteq> j \<Longrightarrow> ahead_of x slots i j \<or> ahead_of x slots j i"
  by (auto simp: ahead_of_iff Let_def beats_def split: prod.splits)

lemma ahead_of_irrefl: "\<not> ahead_of x slots i i"
  by (auto simp: ahead_of_iff Let_def beats_def split: prod.splits)

lemma priority_slots_spec:
  "set (priority_slots inc slots) = {i. i < length slots \<and> (\<exists>o'. slots ! i = Some o' \<and> crosses (mo_is_buy inc) (mo_unit_price inc) (mo_unit_price o'))}"
  "sorted_wrt (ahead_of (mo_is_buy inc) slots) (priority_slots inc slots)"
  "distinct (priority_slots inc slots)"
proof -
  let ?lt = "ahead_of (mo_is_buy inc) slots"
  have gen: "set (foldr (insert_by ?lt) xs []) = set xs \<and> length (foldr (insert_by ?lt) xs []) = length xs
      \<and> (distinct xs \<longrightarrow> sorted_wrt ?lt (foldr (insert_by ?lt) xs []))" for xs
  proof (induction xs)
    case (Cons x xs)
    have "sorted_wrt ?lt (insert_by ?lt x (foldr (insert_by ?lt) xs []))" if "distinct (x # xs)"
    proof (rule insert_by_sorted)
      show "?lt a c" if "?lt a b" "?lt b c" for a b c using that by (rule ahead_of_trans)
      show "?lt a b \<or> ?lt b a" if "a \<noteq> b" for a b using that by (rule ahead_of_linear)
    qed (use Cons that in simp_all)
    then show ?case using Cons by simp
  qed simp
  have d: "distinct (crossing_slots inc slots)" by (simp add: crossing_slots_def)
  show "set (priority_slots inc slots) = {i. i < length slots \<and> (\<exists>o'. slots ! i = Some o' \<and> crosses (mo_is_buy inc) (mo_unit_price inc) (mo_unit_price o'))}"
    unfolding priority_slots_def using gen by (auto simp: crossing_slots_def within_limit_crosses split: option.splits)
  show "sorted_wrt ?lt (priority_slots inc slots)" unfolding priority_slots_def using gen d by blast
  show "distinct (priority_slots inc slots)"
    unfolding priority_slots_def by (metis gen d card_distinct distinct_card)
qed

text \<open>Two sorted lists of the same elements are the same.\<close>

lemma priority_unique:
  "sorted_wrt (ahead_of x slots) is \<Longrightarrow> sorted_wrt (ahead_of x slots) js \<Longrightarrow> set is = set js \<Longrightarrow> is = js"
proof (induction "is" arbitrary: js)
  case (Cons i "is")
  obtain j js' where j: "js = j # js'" using Cons.prems(3) by (cases js) auto
  have "i = j"
  proof (rule ccontr)
    assume ne: "i \<noteq> j"
    then have "j \<in> set is" "i \<in> set js'" using Cons.prems(3) j by auto
    then have "ahead_of x slots i j" "ahead_of x slots j i" using Cons.prems(1,2) j by auto
    then show False using ahead_of_trans ahead_of_irrefl by blast
  qed
  moreover have "i \<notin> set is" "j \<notin> set js'" using Cons.prems(1,2) j ahead_of_irrefl by auto
  ultimately have "set is = set js'" using Cons.prems(3) j by auto
  then show ?case using Cons.IH [of js'] Cons.prems(1,2) j \<open>i = j\<close> by simp
qed simp

text \<open>The scan keeps the first of the best.\<close>

definition first_best :: "bool \<Rightarrow> u64 \<Rightarrow> side \<Rightarrow> (nat \<times> u64 \<times> u64) option \<Rightarrow> bool" where
  "first_best x l slots best \<longleftrightarrow>
     (\<forall>j k. best = Some (j, k) \<longrightarrow> j < length slots
        \<and> (\<forall>i o'. i < j \<and> slots ! i = Some o' \<and> crosses x l (mo_unit_price o') \<longrightarrow> beats x k (order_key o')))"

lemma beats_before: "\<not> beats x a k \<Longrightarrow> beats x b k \<Longrightarrow> beats x b a"
  by (auto simp: beats_def split: if_splits prod.splits)

lemma best_scan_first:
  "best_in x l pre best \<Longrightarrow> first_best x l pre best \<Longrightarrow> first_best x l (pre @ slots) (best_scan x l slots (length pre) best)"
proof (induction slots arbitrary: pre best)
  case Nil
  then show ?case by simp
next
  case (Cons slot slots)
  let ?best = "case slot of None \<Rightarrow> best
     | Some o' \<Rightarrow> (if crosses x l (mo_unit_price o')
          then (case best of None \<Rightarrow> Some (length pre, order_key o')
                | Some (j, k) \<Rightarrow> if beats x (order_key o') k then Some (length pre, order_key o') else best)
          else best)"
  have keep: "first_best x l (pre @ [slot]) best" using Cons.prems(2) by (auto simp: first_best_def nth_append)
  have new: "first_best x l (pre @ [slot]) (Some (length pre, order_key o'))"
    if slot: "slot = Some o'" and better: "case best of None \<Rightarrow> True | Some (j, k) \<Rightarrow> beats x (order_key o') k" for o'
  proof -
    have "beats x (order_key o') (order_key q)" if q: "pre ! i = Some q" "i < length pre" "crosses x l (mo_unit_price q)" for i q
    proof (cases best)
      case None
      then show ?thesis using Cons.prems(1) q by (auto simp: best_in_def dest: nth_mem)
    next
      case (Some jk)
      obtain j k where jk: "jk = (j, k)" by (rule prod.exhaust)
      have "Some q \<in> set pre" using q by (metis nth_mem)
      then have "\<not> beats x (order_key q) k" using Cons.prems(1) q(3) Some jk by (auto simp: best_in_def)
      moreover have "beats x (order_key o') k" using better Some jk by simp
      ultimately show ?thesis by (rule beats_before)
    qed
    then show ?thesis using slot unfolding first_best_def by (auto simp: nth_append)
  qed
  have "first_best x l (pre @ [slot]) ?best"
    using keep new by (auto split: option.splits prod.splits)
  from Cons.IH [OF best_in_step [OF Cons.prems(1), of slot] this] show ?case unfolding best_scan.simps Let_def by simp
qed

lemma best_match_head:
  "best_match_idx inc b = (case priority_slots inc (side_of (\<not> mo_is_buy inc) b) of [] \<Rightarrow> None | i # is \<Rightarrow> Some i)"
proof -
  let ?x = "mo_is_buy inc" and ?l = "mo_unit_price inc" and ?s = "side_of (\<not> mo_is_buy inc) b"
  note Q = priority_slots_spec [of inc ?s]
  show ?thesis
  proof (cases "best_match_idx inc b")
    case None
    then have "set (priority_slots inc ?s) = {}" using best_match_spec [of inc b] unfolding Q(1) by (auto dest: nth_mem)
    then show ?thesis using None by simp
  next
    case (Some idx)
    obtain o' where o': "idx < length ?s" "?s ! idx = Some o'" "crosses ?x ?l (mo_unit_price o')"
      "\<And>q. Some q \<in> set ?s \<Longrightarrow> crosses ?x ?l (mo_unit_price q) \<Longrightarrow> \<not> beats ?x (order_key q) (order_key o')"
      using best_match_spec [of inc b] Some by auto
    have "best_in ?x ?l [] None" "first_best ?x ?l [] None" by (simp_all add: best_in_def first_best_def)
    from best_scan_first [OF this, of ?s] best_scan_best_in [OF this(1), of ?s]
    have F: "first_best ?x ?l ?s (best_scan ?x ?l ?s 0 None)" "best_in ?x ?l ?s (best_scan ?x ?l ?s 0 None)" by simp_all
    obtain k where k: "best_scan ?x ?l ?s 0 None = Some (idx, k)" using Some by (auto simp: best_match_idx_def)
    then have key: "k = order_key o'" using F(2) o'(2) by (auto simp: best_in_def)
    have mem: "idx \<in> set (priority_slots inc ?s)" using o' unfolding Q(1) by blast
    then obtain i "is" where i: "priority_slots inc ?s = i # is" by (cases "priority_slots inc ?s") auto
    have "i = idx"
    proof (rule ccontr)
      assume "i \<noteq> idx"
      then have pr: "ahead_of ?x ?s i idx" using Q(2) mem i by auto
      obtain q where q: "i < length ?s" "?s ! i = Some q" "crosses ?x ?l (mo_unit_price q)"
      proof -
        have "i \<in> set (priority_slots inc ?s)" using i by simp
        then show ?thesis using that unfolding Q(1) by auto
      qed
      have "\<not> beats ?x (order_key q) (order_key o')" using o'(4) q by (metis nth_mem)
      then have "order_key q = order_key o'" "i < idx" using pr q(2) o'(2) by (auto simp: ahead_of_iff Let_def)
      have "beats ?x k (order_key q)" using F(1) k q(2,3) \<open>i < idx\<close> unfolding first_best_def by blast
      then have "beats ?x (order_key o') (order_key q)" unfolding key .
      then show False using \<open>order_key q = order_key o'\<close> \<open>\<not> beats ?x (order_key q) (order_key o')\<close> by simp
    qed
    then show ?thesis using Some i by simp
  qed
qed

lemma trade_of_remaining: "trade_of (inc\<lparr>mo_remaining_quantity := r\<rparr>) q k i tk = trade_of inc q k i tk"
  by (simp add: trade_of_def Let_def)

lemma trades_of_remaining: "trades_of (inc\<lparr>mo_remaining_quantity := r\<rparr>) tk i fs = trades_of inc tk i fs"
  by (induction fs arbitrary: i) (simp_all add: expected_trade_iff trade_of_remaining)

lemma fills_zero [simp]: "fills room 0 os = []"
  by (cases room; cases os) simp_all

text \<open>The loop trades as the reference says.\<close>

lemma priority_after:
  assumes q: "priority_slots inc slots = i # is"
    and same: "mo_is_buy inc1 = mo_is_buy inc" "mo_unit_price inc1 = mo_unit_price inc"
  shows "priority_slots inc1 (slots[i := None]) = is" "map (\<lambda>j. the (slots[i := None] ! j)) is = map (\<lambda>j. the (slots ! j)) is"
proof -
  note Q = priority_slots_spec [of inc slots] and Q1 = priority_slots_spec [of inc1 "slots[i := None]"]
  have i: "i \<notin> set is" "i < length slots" using Q(1,3) q by auto
  have set1: "set (priority_slots inc1 (slots[i := None])) = set is"
  proof -
    have "set is = set (priority_slots inc slots) - {i}" using q i(1) by auto
    then show ?thesis unfolding Q(1) Q1(1) same using i(2) by (auto simp: nth_list_update)
  qed
  have at: "j \<in> set is \<Longrightarrow> slots[i := None] ! j = slots ! j" for j using i(1) by (cases "j = i") auto
  have pre: "a \<in> set is \<Longrightarrow> b \<in> set is \<Longrightarrow> ahead_of (mo_is_buy inc1) (slots[i := None]) a b = ahead_of (mo_is_buy inc) slots a b" for a b
    using at by (simp add: ahead_of_iff same)
  have "sorted_wrt (ahead_of (mo_is_buy inc) slots) is" using Q(2) q by simp
  then have "sorted_wrt (ahead_of (mo_is_buy inc1) (slots[i := None])) is"
    by (rule sorted_wrt_mono_rel [rotated]) (simp add: pre)
  from priority_unique [OF Q1(2) this set1] show "priority_slots inc1 (slots[i := None]) = is" .
  show "map (\<lambda>j. the (slots[i := None] ! j)) is = map (\<lambda>j. the (slots ! j)) is" using at by simp
qed

lemma match_loop_priority:
  "match_loop room tk inc b = (b', inc', ts) \<Longrightarrow> ts = priority_trades inc room tk b"
proof (induction room arbitrary: inc b b' inc' ts)
  case 0
  then show ?case by (simp add: priority_trades_def)
next
  case (Suc room)
  let ?s = "side_of (\<not> mo_is_buy inc) b"
  show ?case
  proof (cases "mo_remaining_quantity inc = 0")
    case True
    then show ?thesis using Suc.prems by (simp add: priority_trades_def)
  next
    case rem: False
    show ?thesis
    proof (cases "priority_slots inc ?s")
      case Nil
      then show ?thesis using Suc.prems rem by (simp add: best_match_head priority_trades_def resting_queue_def)
    next
      case (Cons i "is")
      have m: "best_match_idx inc b = Some i" by (simp add: best_match_head Cons)
      obtain o' where o': "?s ! i = Some o'" using best_match_order [OF m] by blast
      obtain b1 inc1 t where e: "execute_match i o' tk inc b = (b1, inc1, t)" by (rule prod_cases3)
      obtain us where l: "match_loop room tk inc1 b1 = (b', inc', us)" "ts = t # us"
        using Suc.prems rem m o' e by (auto split: prod.splits)
      let ?k = "min (mo_remaining_quantity inc) (mo_remaining_quantity o')"
      have t: "t = trade_of inc o' ?k (ob_next_trade_id b) tk" and inc1: "inc1 = inc\<lparr>mo_remaining_quantity := mo_remaining_quantity inc - ?k\<rparr>"
        and b1: "side_of (\<not> mo_is_buy inc) b1 = ?s[i := (if mo_remaining_quantity o' - ?k = 0 then None
            else Some (o'\<lparr>mo_remaining_quantity := mo_remaining_quantity o' - ?k, mo_status := PartiallyFilled\<rparr>))]"
          "ob_next_trade_id b1 = ob_next_trade_id b + 1"
        using e by (auto simp: execute_match_def Let_def set_side_def side_of_def)
      have k: "unat ?k = min (unat (mo_remaining_quantity inc)) (unat (mo_remaining_quantity o'))"
        by (simp add: min_def word_le_nat_alt)
      have left: "unat (mo_remaining_quantity inc1) = unat (mo_remaining_quantity inc) - unat ?k" by (simp add: inc1 unat_sub_min)
      have head: "resting_queue inc b = o' # map (\<lambda>j. the (?s ! j)) is" using Cons o' by (simp add: resting_queue_def Let_def)
      have n0: "unat (mo_remaining_quantity inc) \<noteq> 0" using rem by (simp add: unat_eq_0)
      have rest: "us = trades_of inc tk (ob_next_trade_id b + 1) (fills room (unat (mo_remaining_quantity inc1)) (map (\<lambda>j. the (?s ! j)) is))"
      proof (cases "mo_remaining_quantity inc1 = 0")
        case True
        then have "us = []" using l(1) by (cases room) auto
        then show ?thesis using True by simp
      next
        case False
        then have "mo_remaining_quantity o' - ?k = 0" by (auto simp: inc1 min_def split: if_splits)
        then have s1: "side_of (\<not> mo_is_buy inc1) b1 = ?s[i := None]" using b1(1) by (simp add: inc1)
        have "resting_queue inc1 b1 = map (\<lambda>j. the (?s ! j)) is"
          unfolding resting_queue_def Let_def s1 using priority_after [OF Cons, of inc1] by (simp add: inc1)
        then show ?thesis using Suc.IH [OF l(1)] b1(2) by (simp add: priority_trades_def trades_of_remaining inc1)
      qed
      have "fills (Suc room) (unat (mo_remaining_quantity inc)) (resting_queue inc b)
          = (o', unat ?k) # fills room (unat (mo_remaining_quantity inc1)) (map (\<lambda>j. the (?s ! j)) is)"
        unfolding head left k using n0 by (simp add: Let_def)
      then show ?thesis unfolding l(2) priority_trades_def using rest t by (simp add: expected_trade_iff)
    qed
  qed
qed

section \<open>Placing and cancelling\<close>

lemma orders_set: "set (orders slots) = {o'. Some o' \<in> set slots}"
  by (force simp: orders_def)

lemma insert_spec:
  assumes ok: "book_ok b" and q: "mo_remaining_quantity q \<noteq> 0" "mo_unit_price q \<noteq> 0"
    and i: "insert_resting_order q b = (b', r)"
  shows "book_ok b'" and "side_of (\<not> mo_is_buy q) b' = side_of (\<not> mo_is_buy q) b"
    and "r = Inl e \<Longrightarrow> b' = b \<and> (e = OrderBookFull \<or> e = DuplicateOrderId)"
    and "Some p \<in> set (side_of (mo_is_buy q) b') \<Longrightarrow> p = q \<or> Some p \<in> set (side_of (mo_is_buy q) b)"
    and "r = Inr u \<Longrightarrow> Some q \<in> set (side_of (mo_is_buy q) b')
      \<and> side_qty P (side_of (mo_is_buy q) b') = side_qty P (side_of (mo_is_buy q) b) + slot_qty P (Some q)"
proof -
  let ?x = "mo_is_buy q"
  let ?s = "side_of ?x b"
  have full: "b' = b \<and> r = Inl OrderBookFull \<or> b' = b \<and> r = Inl DuplicateOrderId \<or>
    (\<exists>i. i < length ?s \<and> ?s ! i = None \<and> r = Inr () \<and> b' = set_side ?x (?s[i := Some q]) (count_of ?x b + 1) b
       \<and> (\<forall>p. Some p \<in> set ?s \<longrightarrow> mo_order_id p \<noteq> mo_order_id q))"
    using i by (auto simp: insert_resting_order_def Let_def orders_set split: if_splits option.splits
        dest!: find_index_SomeD)
  have side: "side_ok ?x ?s (count_of ?x b)" using ok by (rule book_okD)
  show "book_ok b'"
    using full
  proof (elim disjE exE conjE)
    fix i assume "i < length ?s" "?s ! i = None" "b' = set_side ?x (?s[i := Some q]) (count_of ?x b + 1) b"
      "\<forall>p. Some p \<in> set ?s \<longrightarrow> mo_order_id p \<noteq> mo_order_id q"
    with side_ok_put [OF side, of i q] q book_ok_set_side [OF ok] show "book_ok b'" by simp
  qed (simp_all add: ok)
  show "side_of (\<not> ?x) b' = side_of (\<not> ?x) b" using full by auto
  show "r = Inl e \<Longrightarrow> b' = b \<and> (e = OrderBookFull \<or> e = DuplicateOrderId)" using full by auto
  show "Some p \<in> set (side_of ?x b') \<Longrightarrow> p = q \<or> Some p \<in> set ?s"
    using full by (auto dest!: set_update_subset_insert [THEN subsetD])
  show "Some q \<in> set (side_of ?x b') \<and> side_qty P (side_of ?x b') = side_qty P ?s + slot_qty P (Some q)" if ru: "r = Inr u"
  proof -
    obtain i where i: "i < length ?s" "?s ! i = None" "side_of ?x b' = ?s[i := Some q]"
      using full ru by auto
    with side_qty_update [OF i(1), of P "Some q"] set_update_memI [OF i(1)] show ?thesis by simp
  qed
qed

text \<open>What a successful or failed placement leaves: the stages of the function in one fact.\<close>

lemma place_order_cases:
  assumes "place_order inc room tk b = (b', ts, r)"
  obtains (invalid) "mo_unit_price inc = 0 \<or> mo_initial_quantity inc = 0" "b' = b" "ts = []" "r = Inl InvalidOrderParameters"
  | (unfulfilled) "mo_order_type inc = FillOrKill" "available_qty inc b < mo_initial_quantity inc"
      "b' = b" "ts = []" "r = Inl FillOrKillUnfulfilled"
  | (rested) b1 inc1 inc2 r2 where "mo_unit_price inc \<noteq> 0" "match_loop room tk inc b = (b1, inc1, ts)"
      "mo_remaining_quantity inc1 \<noteq> 0" "mo_order_type inc1 = Limit"
      "inc2 = inc1\<lparr>mo_status := final_status inc1 (length ts)\<rparr>"
      "insert_resting_order inc2 b1 = (b', r2)"
      "r = (case r2 of Inl e \<Rightarrow> Inl e | Inr u \<Rightarrow> Inr (length ts, inc2))"
  | (settled) inc1 where "mo_unit_price inc \<noteq> 0" "match_loop room tk inc b = (b', inc1, ts)"
      "mo_remaining_quantity inc1 = 0 \<or> mo_order_type inc1 \<noteq> Limit"
      "mo_order_type inc = FillOrKill \<longrightarrow> mo_initial_quantity inc \<le> available_qty inc b"
      "r = Inr (length ts, inc1\<lparr>mo_status := final_status inc1 (length ts)\<rparr>)"
proof (cases "mo_unit_price inc = 0 \<or> mo_initial_quantity inc = 0")
  case True
  then have "place_order inc room tk b = (b, [], Inl InvalidOrderParameters)" by (simp add: place_order_def)
  with assms have "b' = b" "ts = []" "r = Inl InvalidOrderParameters" by simp_all
  with True show thesis by (rule invalid)
next
  case valid: False
  show thesis
  proof (cases "mo_order_type inc = FillOrKill \<and> available_qty inc b < mo_initial_quantity inc")
    case True
    then have "place_order inc room tk b = (b, [], Inl FillOrKillUnfulfilled)" using valid by (simp add: place_order_def)
    with assms have "b' = b" "ts = []" "r = Inl FillOrKillUnfulfilled" by simp_all
    with True show thesis by (intro unfulfilled) simp_all
  next
    case False
    obtain b1 inc1 us where m: "match_loop room tk inc b = (b1, inc1, us)" by (rule prod_cases3)
    let ?inc2 = "inc1\<lparr>mo_status := final_status inc1 (length us)\<rparr>"
    have fok: "mo_order_type inc = FillOrKill \<longrightarrow> mo_initial_quantity inc \<le> available_qty inc b"
      using False by (simp add: not_less)
    have price: "mo_unit_price inc \<noteq> 0" using valid by simp
    have place: "place_order inc room tk b =
      (if mo_remaining_quantity inc1 \<noteq> 0 \<and> mo_order_type inc1 = Limit
       then (case insert_resting_order ?inc2 b1 of
               (b2, Inl e) \<Rightarrow> (b2, us, Inl e) | (b2, Inr u) \<Rightarrow> (b2, us, Inr (length us, ?inc2)))
       else (b1, us, Inr (length us, ?inc2)))"
      unfolding place_order_def m prod.case Let_def using valid False by (simp only: if_False)
    show thesis
    proof (cases "mo_remaining_quantity inc1 \<noteq> 0 \<and> mo_order_type inc1 = Limit")
      case True
      obtain b2 r2 where i: "insert_resting_order ?inc2 b1 = (b2, r2)" by (rule prod.exhaust)
      have "b2 = b'" "us = ts" "r = (case r2 of Inl e \<Rightarrow> Inl e | Inr u \<Rightarrow> Inr (length us, ?inc2))"
        using assms True unfolding place i by (cases r2; simp)+
      with True m i price show thesis by (intro rested [of b1 inc1 ?inc2 r2]) (auto split: sum.splits)
    next
      case rest: False
      then have "b1 = b'" "us = ts" "r = Inr (length us, ?inc2)" using assms unfolding place by auto
      with rest m price fok show thesis by (intro settled [of inc1]) auto
    qed
  qed
qed

lemma matched_same_fields:
  "matched inc b b' inc' ts \<Longrightarrow> mo_is_buy inc' = mo_is_buy inc \<and> mo_unit_price inc' = mo_unit_price inc
     \<and> mo_order_type inc' = mo_order_type inc \<and> mo_order_id inc' = mo_order_id inc"
  unfolding matched_def by (metis MarketOrder.select_convs MarketOrder.surjective MarketOrder.update_convs(7))

lemma place_order_ok:
  assumes ok: "book_ok b" and p: "place_order inc room tk b = (b', ts, r)"
  shows "book_ok b'"
  using p
proof (cases rule: place_order_cases)
  case (rested b1 inc1 inc2 r2)
  have m: "matched inc b b1 inc1 ts" using match_loop_spec [OF rested(2) ok] by blast
  then have "book_ok b1" by (simp add: matched_def)
  moreover have "mo_unit_price inc2 \<noteq> 0" using rested(1,5) matched_same_fields [OF m] by simp
  ultimately show ?thesis using insert_spec(1) [OF _ _ _ rested(6)] rested(3,5) by simp
next
  case (settled inc1)
  from match_loop_spec [OF settled(2) ok] show ?thesis by (simp add: matched_def)
qed (simp_all add: ok)

lemma cancel_in_spec:
  assumes ok: "book_ok b" and c: "cancel_in x oid acc b = Some (b', r)"
  shows "book_ok b'"
    and "case r of
      Inl e \<Rightarrow> b' = b \<and> e = UnauthorizedCancellation \<and> (\<exists>o'. Some o' \<in> set (side_of x b) \<and> mo_order_id o' = oid \<and> mo_account_id o' \<noteq> acc)
    | Inr o' \<Rightarrow> mo_order_id o' = oid \<and> mo_account_id o' = acc \<and> mo_status o' = Cancelled
        \<and> side_of (\<not> x) b' = side_of (\<not> x) b
        \<and> (\<exists>i q. i < length (side_of x b) \<and> side_of x b ! i = Some q \<and> o' = q\<lparr>mo_status := Cancelled\<rparr>
             \<and> side_of x b' = (side_of x b)[i := None])"
proof -
  obtain i q where i: "i < length (side_of x b)" "side_of x b ! i = Some q" "mo_order_id q = oid"
    and e: "(b', r) = (if mo_account_id q \<noteq> acc then (b, Inl UnauthorizedCancellation)
      else (set_side x ((side_of x b)[i := None]) (count_of x b - 1) b, Inr (q\<lparr>mo_status := Cancelled\<rparr>)))"
    using c by (auto simp: cancel_in_def has_order_id_def split: option.splits dest!: find_index_SomeD)
  have "Some q \<in> set (side_of x b)" using i(1,2) by (metis nth_mem)
  then show "case r of
      Inl e \<Rightarrow> b' = b \<and> e = UnauthorizedCancellation \<and> (\<exists>o'. Some o' \<in> set (side_of x b) \<and> mo_order_id o' = oid \<and> mo_account_id o' \<noteq> acc)
    | Inr o' \<Rightarrow> mo_order_id o' = oid \<and> mo_account_id o' = acc \<and> mo_status o' = Cancelled
        \<and> side_of (\<not> x) b' = side_of (\<not> x) b
        \<and> (\<exists>i q. i < length (side_of x b) \<and> side_of x b ! i = Some q \<and> o' = q\<lparr>mo_status := Cancelled\<rparr>
             \<and> side_of x b' = (side_of x b)[i := None])"
    using e i by (auto split: if_splits)
  show "book_ok b'"
    using e side_ok_clear [OF book_okD [OF ok] i(1,2)] book_ok_set_side [OF ok] ok by (auto split: if_splits)
qed

lemma cancel_order_cases:
  "cancel_order oid acc b = (b', r) \<Longrightarrow>
     (\<exists>x. cancel_in x oid acc b = Some (b', r)) \<or> b' = b \<and> r = Inl OrderNotFound"
  by (auto simp: cancel_order_def split: option.splits)

text \<open>Every history of placements and cancellations of a book.\<close>

inductive book_run :: "OrderBook \<Rightarrow> bool" where
  opened: "book_run (OrderBook_new item)"
| placed: "book_run b \<Longrightarrow> book_run (fst (place_order inc room tk b))"
| cancelled: "book_run b \<Longrightarrow> book_run (fst (cancel_order oid acc b))"

lemma book_run_ok: "book_run b \<Longrightarrow> book_ok b"
proof (induction rule: book_run.induct)
  case (opened item)
  show ?case by (rule book_ok_new)
next
  case (placed b inc room tk)
  then show ?case using place_order_ok by (metis prod.collapse)
next
  case (cancelled b oid acc)
  obtain b' r where c: "cancel_order oid acc b = (b', r)" by (rule prod.exhaust)
  then show ?case using cancel_order_cases [OF c] cancel_in_spec(1) cancelled.IH by auto
qed

text \<open>
  C30. The book's invariant and cancellation. After any placements and cancellations both counters
  are the numbers of occupied slots, order ids are unique on a side, and every resting order is on
  its own side with a price and a remaining quantity above zero. A cancellation returns and removes
  an order of that id and that account, touching nothing else, or changes nothing.
\<close>

theorem order_book_invariant:
  assumes "book_run b" and "cancel_order oid acc b = (b', r)"
  shows "book_ok b \<and> (case r of
      Inl e \<Rightarrow> b' = b \<and> (e = OrderNotFound \<or> e = UnauthorizedCancellation)
    | Inr o' \<Rightarrow> mo_order_id o' = oid \<and> mo_account_id o' = acc \<and> mo_status o' = Cancelled
        \<and> (\<exists>x i q. side_of x b ! i = Some q \<and> i < length (side_of x b) \<and> o' = q\<lparr>mo_status := Cancelled\<rparr>
             \<and> side_of x b' = (side_of x b)[i := None] \<and> side_of (\<not> x) b' = side_of (\<not> x) b))"
proof
  show ok: "book_ok b" using assms(1) by (rule book_run_ok)
  show "case r of
      Inl e \<Rightarrow> b' = b \<and> (e = OrderNotFound \<or> e = UnauthorizedCancellation)
    | Inr o' \<Rightarrow> mo_order_id o' = oid \<and> mo_account_id o' = acc \<and> mo_status o' = Cancelled
        \<and> (\<exists>x i q. side_of x b ! i = Some q \<and> i < length (side_of x b) \<and> o' = q\<lparr>mo_status := Cancelled\<rparr>
             \<and> side_of x b' = (side_of x b)[i := None] \<and> side_of (\<not> x) b' = side_of (\<not> x) b)"
    using cancel_order_cases [OF assms(2)]
  proof (elim disjE exE conjE)
    fix x assume "cancel_in x oid acc b = Some (b', r)"
    from cancel_in_spec(2) [OF ok this] show ?thesis by (cases r) (simp, auto)
  qed simp
qed

text \<open>
  C8. A placement trades by price and time, and conserves goods. An order that passes the first
  checks is executed exactly against the crossing orders of the other side in their priority (best
  price, then earliest tick, then lowest slot), each for the smaller of the two quantities and at
  the resting order's price, for as long as its quantity and the room of the output last. What is
  traded is taken from both sides in equal amounts. On success the number returned is that of the
  trades, and what is left of a limit order, and only of a limit order, joins its own side. A limit
  order whose remainder cannot rest (side full or duplicate id) gets an error after its trades:
  they stand, and nothing rests. The errors of the first checks change nothing.
\<close>

theorem place_order_conserves:
  assumes run: "book_run b" and p: "place_order inc room tk b = (b', ts, r)"
  defines "opp \<equiv> side_of (\<not> mo_is_buy inc)" and "own \<equiv> side_of (mo_is_buy inc)" and "qty \<equiv> side_qty (\<lambda>_. True)"
  shows "qty (opp b') + total_qty ts = qty (opp b) \<and> total_qty ts \<le> unat (mo_remaining_quantity inc)
    \<and> (\<forall>t\<in>set ts. trade_ok inc t) \<and> sorted_wrt (better_or_same (mo_is_buy inc)) (map te_unit_price ts)
    \<and> (case r of
         Inl e \<Rightarrow> own b' = own b
           \<and> (if e = InvalidOrderParameters \<or> e = FillOrKillUnfulfilled then b' = b \<and> ts = []
              else (e = OrderBookFull \<or> e = DuplicateOrderId) \<and> ts = priority_trades inc room tk b)
       | Inr (n, inc') \<Rightarrow> n = length ts \<and> ts = priority_trades inc room tk b
           \<and> unat (mo_remaining_quantity inc') + total_qty ts = unat (mo_remaining_quantity inc)
           \<and> qty (own b') = qty (own b)
               + (if mo_order_type inc = Limit then unat (mo_remaining_quantity inc') else 0))"
  using p
proof (cases rule: place_order_cases)
  case invalid
  then show ?thesis by (simp add: total_qty_def)
next
  case unfulfilled
  then show ?thesis by (simp add: total_qty_def)
next
  case (rested b1 inc1 inc2 r2)
  have m: "matched inc b b1 inc1 ts" using match_loop_spec [OF rested(2) book_run_ok [OF run]] by blast
  then have M: "book_ok b1" "own b1 = own b" "unat (mo_remaining_quantity inc1) + total_qty ts = unat (mo_remaining_quantity inc)"
    "qty (opp b1) + total_qty ts = qty (opp b)" "\<forall>t\<in>set ts. trade_ok inc t"
    "sorted_wrt (better_or_same (mo_is_buy inc)) (map te_unit_price ts)"
    unfolding matched_def own_def opp_def qty_def by simp_all
  have f: "mo_is_buy inc2 = mo_is_buy inc" "mo_unit_price inc2 \<noteq> 0" "mo_remaining_quantity inc2 = mo_remaining_quantity inc1"
    "mo_order_type inc = Limit"
    using rested(1,4,5) matched_same_fields [OF m] by simp_all
  have rem: "mo_remaining_quantity inc2 \<noteq> 0" using rested(3) f by simp
  note I = insert_spec [OF M(1) rem f(2) rested(6)]
  have opp: "opp b' = opp b1" using I(2) f(1) by (simp add: opp_def)
  note T = match_loop_priority [OF rested(2)]
  show ?thesis
  proof (cases r2)
    case (Inl e)
    then have "b' = b1 \<and> (e = OrderBookFull \<or> e = DuplicateOrderId)" by (rule I(3))
    with M opp Inl rested(7) T show ?thesis by auto
  next
    case (Inr u)
    have "qty (own b') = qty (own b) + unat (mo_remaining_quantity inc1)"
      using I(5) [OF Inr, of "\<lambda>_. True"] f M(2) by (simp add: own_def qty_def)
    with M opp Inr rested(7) f T show ?thesis by auto
  qed
next
  case (settled inc1)
  have m: "matched inc b b' inc1 ts" using match_loop_spec [OF settled(2) book_run_ok [OF run]] by blast
  then have M: "own b' = own b" "unat (mo_remaining_quantity inc1) + total_qty ts = unat (mo_remaining_quantity inc)"
    "qty (opp b') + total_qty ts = qty (opp b)" "\<forall>t\<in>set ts. trade_ok inc t"
    "sorted_wrt (better_or_same (mo_is_buy inc)) (map te_unit_price ts)"
    unfolding matched_def own_def opp_def qty_def by simp_all
  have "mo_order_type inc = Limit \<Longrightarrow> mo_remaining_quantity inc1 = 0"
    using settled(3) matched_same_fields [OF m] by simp
  with M settled(5) match_loop_priority [OF settled(2)] show ?thesis by auto
qed

definition uncrossed :: "OrderBook \<Rightarrow> bool" where
  "uncrossed b \<longleftrightarrow>
     (\<forall>p q. Some p \<in> set (ob_bids b) \<and> Some q \<in> set (ob_asks b) \<longrightarrow> mo_unit_price p < mo_unit_price q)"

lemma uncrossed_sides:
  "uncrossed b \<longleftrightarrow> (\<forall>p q. Some p \<in> set (side_of x b) \<and> Some q \<in> set (side_of (\<not> x) b) \<longrightarrow>
     \<not> crosses x (mo_unit_price p) (mo_unit_price q))"
  by (cases x) (auto simp: uncrossed_def side_of_def crosses_def not_le)

text \<open>
  C34. The book is never crossed. If the output has room for as many trades as the other side has
  slots, a book whose bids are all below its asks is left in such a state by every placement, with
  every kind of order and every result.
\<close>

theorem book_never_crossed:
  assumes run: "book_run b" and un: "uncrossed b" and room: "MAX_ORDERS_PER_SIDE \<le> room"
    and p: "place_order inc room tk b = (b', ts, r)"
  shows "uncrossed b'"
proof -
  let ?x = "mo_is_buy inc"
  have ok: "book_ok b" using run by (rule book_run_ok)
  have occ: "occupied (side_of (\<not> ?x) b) \<le> room"
    using book_okD [OF ok, of "\<not> ?x"] occupied_le [of "side_of (\<not> ?x) b"] room by (simp add: side_ok_def)
  have after: "uncrossed b1" if m: "matched inc b b1 inc1 ts" for b1 inc1
    using un m unfolding uncrossed_sides [of _ ?x] matched_def by (metis prod.inject)
  from p show ?thesis
  proof (cases rule: place_order_cases)
    case (rested b1 inc1 inc2 r2)
    note L = match_loop_spec [OF rested(2) ok]
    then have m: "matched inc b b1 inc1 ts" and nc: "no_cross inc b1" using occ rested(3) by auto
    have f: "mo_is_buy inc2 = ?x" "mo_unit_price inc2 = mo_unit_price inc" "mo_remaining_quantity inc2 \<noteq> 0"
      "mo_unit_price inc2 \<noteq> 0"
      using rested(1,3,5) matched_same_fields [OF m] by simp_all
    have okb: "book_ok b1" using m by (simp add: matched_def)
    note I = insert_spec [OF okb f(3,4) rested(6)]
    show ?thesis
      unfolding uncrossed_sides [of b' ?x]
    proof (intro allI impI, elim conjE)
      fix p q
      assume p: "Some p \<in> set (side_of ?x b')" and "Some q \<in> set (side_of (\<not> ?x) b')"
      then have q: "Some q \<in> set (side_of (\<not> ?x) b1)" using I(2) f(1) by simp
      have "p = inc2 \<or> Some p \<in> set (side_of ?x b1)" using I(4) p f(1) by simp
      then show "\<not> crosses ?x (mo_unit_price p) (mo_unit_price q)"
        using nc after [OF m] q f(2) unfolding uncrossed_sides [of b1 ?x] no_cross_def by auto
    qed
  next
    case (settled inc1)
    with match_loop_spec [OF settled(2) ok] after show ?thesis by blast
  qed (simp_all add: un)
qed

section \<open>A book with one order\<close>

lemma best_scan_nones [simp]: "best_scan is_buy limit (replicate n None) i best = best"
  by (induction n arbitrary: i) simp_all

text \<open>A limit order rests in the first slot of an empty book.\<close>

lemma place_in_empty_book:
  assumes "mo_order_type inc = Limit" "mo_status inc = Active" "mo_unit_price inc \<noteq> 0"
    "mo_initial_quantity inc \<noteq> 0" "mo_remaining_quantity inc \<noteq> 0"
  shows "place_order inc (Suc room) tk (OrderBook_new it) =
    (set_side (mo_is_buy inc) (Some inc # replicate 63 None) 1 (OrderBook_new it), [], Inr (0, inc))"
proof -
  have m: "match_loop (Suc room) tk inc (OrderBook_new it) = (OrderBook_new it, inc, [])"
    by (simp add: best_match_idx_def side_of_def OrderBook_new_def)
  have st: "inc\<lparr>mo_status := final_status inc 0\<rparr> = inc"
    using assms by (cases inc) (simp add: final_status_def)
  have sl: "replicate 64 (None :: MarketOrder option) = None # replicate 63 None"
    by (simp add: numeral_eq_Suc)
  have i: "insert_resting_order inc (OrderBook_new it) =
      (set_side (mo_is_buy inc) (Some inc # replicate 63 None) 1 (OrderBook_new it), Inr ())"
    by (simp add: insert_resting_order_def side_of_def count_of_def OrderBook_new_def MAX_ORDERS_PER_SIDE_def
        orders_def sl Let_def)
  show ?thesis using assms m st i by (simp add: place_order_def del: match_loop.simps)
qed

definition bid_book :: "u32 \<Rightarrow> OrderBook" where
  "bid_book quantity = set_side True (Some (MarketOrder_new 7 9 1 True 100 quantity 1 Limit 0 1000) # replicate 63 None) 1
     (OrderBook_new 1)"

lemma bid_book_run: "quantity \<noteq> 0 \<Longrightarrow> book_run (bid_book quantity)"
  using book_run.placed [OF book_run.opened, of "MarketOrder_new 7 9 1 True 100 quantity 1 Limit 0 1000" "Suc 0" 0 1]
  by (simp add: place_in_empty_book MarketOrder_new_def bid_book_def)

section \<open>Fill or kill\<close>

lemma side_qty_mono: "(\<And>p. P p \<Longrightarrow> Q p) \<Longrightarrow> side_qty P slots \<le> side_qty Q slots"
  unfolding side_qty_def by (rule sum_list_mono) (simp add: slot_qty_def split: option.splits)

lemma side_qty_none: "(\<And>q. Some q \<in> set slots \<Longrightarrow> \<not> P (mo_unit_price q)) \<Longrightarrow> side_qty P slots = 0"
  unfolding side_qty_def by (induction slots) (auto simp: slot_qty_def split: option.splits)

text \<open>The reference, for any room: a prefix of what it is with room for all.\<close>

lemma fills_take: "length os \<le> big \<Longrightarrow> fills room n os = take room (fills big n os)"
proof (induction room n os arbitrary: big rule: fills.induct)
  case (3 room n o' os)
  then obtain big' where big: "big = Suc big'" "length os \<le> big'" by (cases big) auto
  show ?case
  proof (cases "n = 0")
    case False
    then show ?thesis using 3 big by (simp add: Let_def)
  qed simp
next
  case (2 room n)
  then show ?case by (cases big) simp_all
qed simp

lemma fills_sum:
  "length os \<le> room \<Longrightarrow> sum_list (map snd (fills room n os)) = min n (sum_list (map (\<lambda>o'. unat (mo_remaining_quantity o')) os))"
proof (induction room n os rule: fills.induct)
  case (3 room n o' os)
  then show ?case by (auto simp: Let_def min_def)
qed simp_all

lemma fills_bounds: "f \<in> set (fills room n os) \<Longrightarrow> snd f \<le> unat (mo_remaining_quantity (fst f)) \<and> fst f \<in> set os"
  by (induction room n os rule: fills.induct) (auto simp: Let_def split: if_splits)

lemma fills_positive: "(\<And>q. q \<in> set os \<Longrightarrow> mo_remaining_quantity q \<noteq> 0) \<Longrightarrow> f \<in> set (fills room n os) \<Longrightarrow> 0 < snd f"
proof (induction room n os rule: fills.induct)
  case (3 room n o' os)
  have "mo_remaining_quantity o' \<noteq> 0" using 3(2) by simp
  then have "0 < unat (mo_remaining_quantity o')" by (simp add: unat_gt_0)
  then show ?case using 3 by (auto simp: Let_def split: if_splits)
qed simp_all

lemma trades_total:
  "(\<And>f. f \<in> set fs \<Longrightarrow> snd f < 2 ^ 32) \<Longrightarrow> total_qty (trades_of inc tk i fs) = sum_list (map snd fs)"
proof (induction fs arbitrary: i)
  case (Cons f fs)
  have "snd f < 2 ^ 32" using Cons.prems by simp
  then have "te_qty (expected_trade inc (fst f) (snd f) i tk) = snd f" by (simp add: expected_trade_def unat_of_nat)
  then show ?case using Cons by (simp add: total_qty_def)
qed (simp add: total_qty_def)

lemma length_trades [simp]: "length (trades_of inc tk i fs) = length fs"
  by (induction fs arbitrary: i) simp_all

lemma queue_members: "q \<in> set (resting_queue inc b) \<Longrightarrow> Some q \<in> set (side_of (\<not> mo_is_buy inc) b)"
proof -
  let ?s = "side_of (\<not> mo_is_buy inc) b"
  assume "q \<in> set (resting_queue inc b)"
  then obtain i where i: "i \<in> set (priority_slots inc ?s)" "q = the (?s ! i)" by (auto simp: resting_queue_def Let_def)
  then show ?thesis unfolding priority_slots_spec(1) by (auto dest: nth_mem)
qed

lemma queue_quantity:
  "sum_list (map (\<lambda>o'. unat (mo_remaining_quantity o')) (resting_queue inc b))
    = side_qty (crosses (mo_is_buy inc) (mo_unit_price inc)) (side_of (\<not> mo_is_buy inc) b)"
proof -
  let ?s = "side_of (\<not> mo_is_buy inc) b" and ?P = "crosses (mo_is_buy inc) (mo_unit_price inc)"
  let ?q = "\<lambda>i. unat (mo_remaining_quantity (the (?s ! i)))"
  note Q = priority_slots_spec [of inc ?s]
  have "sum_list (map ?q (priority_slots inc ?s)) = sum ?q (set (priority_slots inc ?s))"
    using Q(3) by (simp add: sum_list_distinct_conv_sum_set)
  also have "\<dots> = (\<Sum>i\<in>{0..<length ?s}. slot_qty ?P (?s ! i))"
    by (rule sum.mono_neutral_cong_left) (auto simp: Q(1) slot_qty_def split: option.split)
  also have "\<dots> = side_qty ?P ?s" by (simp add: side_qty_def sum_list_sum_nth)
  finally show ?thesis by (simp add: resting_queue_def Let_def o_def)
qed

lemma available_sum_mod:
  "unat (foldl (\<lambda>sum o'. if P (mo_unit_price o') then sum + mo_remaining_quantity o' else sum) s (orders slots))
    = (unat s + side_qty P slots) mod 2 ^ 32"
proof (induction slots arbitrary: s)
  case Nil
  then show ?case using unat_less_pow [of s] by (simp add: orders_def side_qty_def)
next
  case (Cons slot slots)
  show ?case
  proof (cases slot)
    case None
    then show ?thesis using Cons by (simp add: orders_def side_qty_def)
  next
    case (Some o')
    have "(unat (s + mo_remaining_quantity o') + side_qty P slots) mod 2 ^ 32
        = (unat s + unat (mo_remaining_quantity o') + side_qty P slots) mod 2 ^ 32"
      by (simp add: unat_word_ariths mod_add_left_eq)
    then show ?thesis using Cons Some by (simp add: orders_def side_qty_def add.assoc)
  qed
qed

text \<open>The resting orders a new order takes from, when nothing limits the output.\<close>

definition orders_needed :: "MarketOrder \<Rightarrow> OrderBook \<Rightarrow> nat" where
  "orders_needed inc b =
     length (fills (length (resting_queue inc b)) (unat (mo_remaining_quantity inc)) (resting_queue inc b))"

text \<open>
  C38. What a new fill-or-kill order of positive quantity and price does in a reachable book. It is
  refused, with no trade and no change of the book, when the volume within its limit is too small; the code adds the volume in 32 bits, so a volume of
  \<open>2 ^ 32\<close> or more counts modulo \<open>2 ^ 32\<close>. Otherwise it is filled completely if the output has
  room for the trades that takes. With less room the promise of all or nothing is broken: the order
  is filled in part, by as many trades as there is room for, and the call succeeds.
\<close>

theorem fill_or_kill_all_or_nothing:
  assumes run: "book_run b" and kind: "mo_order_type inc = FillOrKill"
    and new: "mo_remaining_quantity inc = mo_initial_quantity inc" "mo_initial_quantity inc \<noteq> 0" "mo_unit_price inc \<noteq> 0"
    and p: "place_order inc room tk b = (b', ts, r)"
  shows "if unat (mo_initial_quantity inc)
             \<le> side_qty (within_limit inc) (side_of (\<not> mo_is_buy inc) b) mod 2 ^ 32
         then \<exists>inc'. r = Inr (length ts, inc')
           \<and> (if orders_needed inc b \<le> room
              then mo_status inc' = Filled \<and> mo_remaining_quantity inc' = 0 \<and> total_qty ts = unat (mo_initial_quantity inc)
              else length ts = room \<and> total_qty ts < unat (mo_initial_quantity inc))
         else b' = b \<and> ts = [] \<and> r = Inl FillOrKillUnfulfilled"
proof -
  let ?P = "within_limit inc" and ?opp = "side_of (\<not> mo_is_buy inc)"
  let ?n = "unat (mo_initial_quantity inc)" and ?os = "resting_queue inc b"
  let ?all = "fills (length ?os) ?n ?os"
  have ok: "book_ok b" using run by (rule book_run_ok)
  have av: "unat (available_qty inc b) = side_qty ?P (?opp b) mod 2 ^ 32"
    unfolding available_qty_def within_limit_crosses
    using available_sum_mod [of "crosses (mo_is_buy inc) (mo_unit_price inc)" 0] by simp
  from p show ?thesis
  proof (cases rule: place_order_cases)
    case unfulfilled
    then have "\<not> ?n \<le> unat (available_qty inc b)" by (simp add: word_less_nat_alt)
    then have "\<not> ?n \<le> side_qty ?P (?opp b) mod 2 ^ 32" unfolding av .
    with unfulfilled show ?thesis by simp
  next
    case (rested b1 inc1 inc2 r2)
    have "matched inc b b1 inc1 ts" using match_loop_spec [OF rested(2) ok] by blast
    then have False using matched_same_fields rested(4) kind by fastforce
    then show ?thesis ..
  next
    case (settled inc1)
    have m: "matched inc b b' inc1 ts" using match_loop_spec [OF settled(2) ok] by blast
    have enough: "?n \<le> side_qty ?P (?opp b) mod 2 ^ 32" using settled(4) kind av by (simp add: word_le_nat_alt)
    have rem: "unat (mo_remaining_quantity inc1) + total_qty ts = ?n" using m new(1) unfolding matched_def by auto
    have ts: "ts = trades_of inc tk (ob_next_trade_id b) (take room ?all)"
      unfolding match_loop_priority [OF settled(2)] priority_trades_def new(1)
      by (simp only: fills_take [of ?os "length ?os" room ?n, OF order.refl])
    have small: "snd f < 2 ^ 32" if "f \<in> set ?all" for f
      using fills_bounds [OF that] unat_less_pow [of "mo_remaining_quantity (fst f)"] by simp
    have mod_le: "side_qty ?P (?opp b) mod 2 ^ 32 \<le> side_qty ?P (?opp b)" by simp
    have sum_all: "sum_list (map snd ?all) = ?n"
      unfolding fills_sum [of ?os "length ?os" ?n, OF order.refl] queue_quantity [folded within_limit_crosses]
      by (rule min_absorb1) (rule order.trans [OF enough mod_le])
    have total: "total_qty ts = sum_list (map snd (take room ?all))"
      unfolding ts by (rule trades_total) (use small in \<open>blast dest: in_set_takeD\<close>)
    have needed: "orders_needed inc b = length ?all" by (simp add: orders_needed_def new(1))
    show ?thesis
    proof (cases "orders_needed inc b \<le> room")
      case True
      then have "total_qty ts = ?n" using total sum_all needed by simp
      then have "mo_remaining_quantity inc1 = 0" using rem by (simp add: unat_eq_0 [symmetric] del: unat_eq_0)
      then show ?thesis using True settled(5) enough \<open>total_qty ts = ?n\<close> by (simp add: final_status_def)
    next
      case False
      have pos: "0 < snd f" if "f \<in> set ?all" for f
      proof (rule fills_positive [OF _ that])
        show "mo_remaining_quantity q \<noteq> 0" if "q \<in> set ?os" for q
          using queue_members [OF that] book_okD [OF ok, of "\<not> mo_is_buy inc"] by (auto simp: side_ok_def)
      qed
      have split: "sum_list (map snd (take room ?all)) + sum_list (map snd (drop room ?all)) = ?n"
        by (simp add: sum_all flip: sum_list_append map_append)
      have "drop room ?all \<noteq> []" using False needed by simp
      then obtain f fs where f: "drop room ?all = f # fs" by (cases "drop room ?all") auto
      then have "0 < snd f" using pos [of f] by (metis in_set_dropD list.set_intros(1))
      then have "total_qty ts < ?n" using split total f by simp
      moreover have "length ts = room" unfolding ts using False needed by simp
      ultimately show ?thesis using False settled(5) enough by simp
    qed
  qed (use new in simp)
qed

lemma bid_book_sides [simp]:
  "ob_bids (bid_book n) = Some (MarketOrder_new 7 9 1 True 100 n 1 Limit 0 1000) # replicate 63 None"
  "ob_asks (bid_book n) = replicate 64 None"
  by (simp_all add: bid_book_def set_side_def OrderBook_new_def MAX_ORDERS_PER_SIDE_def)

lemma bid_book_qty: "P 100 \<Longrightarrow> side_qty P (ob_bids (bid_book n)) = unat n"
  by (simp add: side_qty_def slot_qty_def MarketOrder_new_def sum_list_replicate)

lemma sell_to_bid_book:
  assumes "inc = MarketOrder_new 2 2 1 False 90 5 1 Limit 1 1000"
  shows "\<exists>b' t r. place_order inc (Suc room) 1 (bid_book 8) = (b', [t], r) \<and> te_quantity t = 5 \<and> \<not> isl r"
proof -
  have m: "best_match_idx inc (bid_book 8) = Some 0"
    by (simp add: best_match_idx_def side_of_def assms MarketOrder_new_def crosses_def)
  obtain b1 inc1 t where e: "execute_match 0 (MarketOrder_new 7 9 1 True 100 8 1 Limit 0 1000) 1 inc (bid_book 8) = (b1, inc1, t)"
    by (rule prod_cases3)
  then have q: "te_quantity t = 5" "mo_remaining_quantity inc1 = 0"
    by (auto simp: execute_match_def Let_def trade_of_def assms MarketOrder_new_def min_def word_le_nat_alt)
  have "match_loop (Suc room) 1 inc (bid_book 8) = (b1, inc1, [t])"
    using m e q by (cases room) (simp_all add: side_of_def assms MarketOrder_new_def)
  with q show ?thesis by (simp add: place_order_def assms MarketOrder_new_def)
qed

theorem order_book_invariant_witness:
  "\<exists>b'. book_run (bid_book 5) \<and> cancel_order 7 9 (bid_book 5) = (b', Inr ((MarketOrder_new 7 9 1 True 100 5 1 Limit 0 1000)\<lparr>mo_status := Cancelled\<rparr>))
    \<and> book_ok (bid_book 5)"
proof -
  have run: "book_run (bid_book 5)" by (rule bid_book_run) simp
  obtain b' r where c: "cancel_order 7 9 (bid_book 5) = (b', r)" by (rule prod.exhaust)
  then have r: "r = Inr ((MarketOrder_new 7 9 1 True 100 5 1 Limit 0 1000)\<lparr>mo_status := Cancelled\<rparr>)"
    by (auto simp: cancel_order_def cancel_in_def side_of_def has_order_id_def MarketOrder_new_def)
  show ?thesis using order_book_invariant [OF run c, THEN conjunct1] c run r by simp
qed

theorem place_order_conserves_witness:
  "\<exists>b' ts r. book_run (bid_book 8)
    \<and> place_order (MarketOrder_new 2 2 1 False 90 5 1 Limit 1 1000) 4 1 (bid_book 8) = (b', ts, r)
    \<and> total_qty ts = 5 \<and> side_qty (\<lambda>_. True) (ob_bids b') = 3"
proof -
  define inc where "inc = MarketOrder_new 2 2 1 False 90 5 1 Limit 1 1000"
  have run: "book_run (bid_book 8)" by (rule bid_book_run) simp
  have buy: "\<not> mo_is_buy inc" by (simp add: inc_def MarketOrder_new_def)
  obtain b' t r where p: "place_order inc (Suc 3) 1 (bid_book 8) = (b', [t], r)" "te_quantity t = 5"
    using sell_to_bid_book [OF inc_def, of 3] by blast
  then have tq: "total_qty [t] = 5" by (simp add: total_qty_def)
  have "side_qty (\<lambda>_. True) (ob_bids b') + total_qty [t] = 8"
    using place_order_conserves [OF run p(1)] buy bid_book_qty [of "\<lambda>_. True" 8] by (simp add: side_of_def)
  with tq have "side_qty (\<lambda>_. True) (ob_bids b') = 3" by simp
  with p(1) run tq show ?thesis unfolding inc_def by (simp add: numeral_eq_Suc)
qed

theorem book_never_crossed_witness:
  "\<exists>b' ts r. place_order (MarketOrder_new 2 2 1 False 90 5 1 Limit 1 1000) 64 1 (bid_book 8) = (b', ts, r)
    \<and> length ts = 1 \<and> uncrossed b'"
proof -
  define inc where "inc = MarketOrder_new 2 2 1 False 90 5 1 Limit 1 1000"
  have run: "book_run (bid_book 8)" by (rule bid_book_run) simp
  have un: "uncrossed (bid_book 8)" by (simp add: uncrossed_def)
  obtain b' t r where p: "place_order inc 64 1 (bid_book 8) = (b', [t], r)"
    using sell_to_bid_book [OF inc_def, of 63] by (auto simp: numeral_eq_Suc)
  have "uncrossed b'" by (rule book_never_crossed [OF run un _ p]) (simp add: MAX_ORDERS_PER_SIDE_def)
  with p show ?thesis unfolding inc_def by auto
qed

theorem fill_or_kill_all_or_nothing_witness:
  "place_order (MarketOrder_new 2 2 1 False 90 9 1 FillOrKill 1 1000) 2 1 (bid_book 8)
    = (bid_book 8, [], Inl FillOrKillUnfulfilled)"
proof -
  define inc where "inc = MarketOrder_new 2 2 1 False 90 9 1 FillOrKill 1 1000"
  have run: "book_run (bid_book 8)" by (rule bid_book_run) simp
  obtain b' ts r where p: "place_order inc 2 1 (bid_book 8) = (b', ts, r)" by (rule prod_cases3)
  have i: "mo_order_type inc = FillOrKill" "mo_remaining_quantity inc = mo_initial_quantity inc"
    "mo_initial_quantity inc = 9" "mo_unit_price inc = 90" "\<not> mo_is_buy inc"
    by (simp_all add: inc_def MarketOrder_new_def)
  have q: "side_qty (crosses False 90) (ob_bids (bid_book 8)) = 8"
    by (simp add: bid_book_qty crosses_def del: bid_book_sides)
  have "b' = bid_book 8 \<and> ts = [] \<and> r = Inl FillOrKillUnfulfilled"
    using fill_or_kill_all_or_nothing [OF run i(1,2) _ _ p] i q by (simp add: side_of_def within_limit_crosses)
  with p show ?thesis by (simp add: inc_def)
qed

end
