(* ===== verification/Locks.thy ===== *)
theory Locks
  imports Prelude
begin

text \<open>
  The generation locks of \<^verbatim>\<open>eidolon-core/src/lock.rs\<close>: a fixed table of entries, each with a token
  and a flag, in which a session acquires, renews, takes over and releases the lock on a resource
  of an account. A resource is the pair of the account and the lock id. The abstract view of the
  table is a map from resources to the tokens that are held.
\<close>

definition MAX_TRACKED_LOCKS :: nat where
  "MAX_TRACKED_LOCKS = 1024"

datatype LockError =
    Contention (ct_account_id: u64) (ct_lock_id: u32) (ct_holder_session_id: u64) (ct_remaining_ticks: u64)
  | StaleGeneration u64 u64
  | SessionMismatch u64 u64
  | LeaseExpired u64 u64
  | CapacityExceeded

record LockToken =
  lt_account_id :: u64
  lt_lock_id :: u32
  lt_generation :: u64
  lt_holder_session_id :: u64
  lt_granted_tick :: u64
  lt_lease_duration_ticks :: u32

definition expires_at :: "LockToken \<Rightarrow> u64" where
  "expires_at t = saturating_add (lt_granted_tick t) (ucast (lt_lease_duration_ticks t))"

definition is_valid_at :: "u64 \<Rightarrow> LockToken \<Rightarrow> bool" where
  "is_valid_at current_tick t \<longleftrightarrow>
     current_tick \<ge> lt_granted_tick t
     \<and> current_tick < saturating_add (lt_granted_tick t) (ucast (lt_lease_duration_ticks t))"

record LockEntry =
  le_token :: LockToken
  le_is_occupied :: bool

definition LockEntry_default :: LockEntry where
  "LockEntry_default =
     \<lparr>le_token = \<lparr>lt_account_id = 0, lt_lock_id = 0, lt_generation = 0, lt_holder_session_id = 0,
        lt_granted_tick = 0, lt_lease_duration_ticks = 0\<rparr>, le_is_occupied = False\<rparr>"

record GenerationLockRegistry =
  lr_entries :: "LockEntry list"
  lr_count :: nat

definition GenerationLockRegistry_new :: "nat \<Rightarrow> GenerationLockRegistry" where
  "GenerationLockRegistry_new cap = \<lparr>lr_entries = replicate cap LockEntry_default, lr_count = 0\<rparr>"

text \<open>The slot the loops look for, and the entry with another token.\<close>

definition slot_holds :: "u64 \<Rightarrow> u32 \<Rightarrow> LockEntry \<Rightarrow> bool" where
  "slot_holds account_id lock_id slot \<longleftrightarrow>
     le_is_occupied slot \<and> lt_account_id (le_token slot) = account_id \<and> lt_lock_id (le_token slot) = lock_id"

definition set_token :: "nat \<Rightarrow> LockToken \<Rightarrow> GenerationLockRegistry \<Rightarrow> GenerationLockRegistry" where
  "set_token i token r = r\<lparr>lr_entries := (lr_entries r)[i := (lr_entries r ! i)\<lparr>le_token := token\<rparr>]\<rparr>"

definition acquire_lock ::
  "u64 \<Rightarrow> u32 \<Rightarrow> u64 \<Rightarrow> u64 \<Rightarrow> u32 \<Rightarrow> bool \<Rightarrow> GenerationLockRegistry
    \<Rightarrow> GenerationLockRegistry \<times> (LockError + LockToken)"
where
  "acquire_lock account_id lock_id session_id current_tick lease_duration_ticks force_takeover r =
     (case find_index (slot_holds account_id lock_id) (lr_entries r) of
        Some i \<Rightarrow>
          (let held = le_token (lr_entries r ! i) in
           if lt_holder_session_id held = session_id
           then let token = held\<lparr>lt_granted_tick := current_tick, lt_lease_duration_ticks := lease_duration_ticks\<rparr>
                in (set_token i token r, Inr token)
           else if is_valid_at current_tick held \<and> \<not> force_takeover
           then (r, Inl (Contention account_id lock_id (lt_holder_session_id held)
                   (saturating_sub (expires_at held) current_tick)))
           else let token = \<lparr>lt_account_id = account_id, lt_lock_id = lock_id,
                      lt_generation = saturating_add (lt_generation held) 1, lt_holder_session_id = session_id,
                      lt_granted_tick = current_tick, lt_lease_duration_ticks = lease_duration_ticks\<rparr>
                in (set_token i token r, Inr token))
      | None \<Rightarrow>
          (case find_index (\<lambda>slot. \<not> le_is_occupied slot) (lr_entries r) of
             Some i \<Rightarrow>
               (let token = \<lparr>lt_account_id = account_id, lt_lock_id = lock_id, lt_generation = 1,
                      lt_holder_session_id = session_id, lt_granted_tick = current_tick,
                      lt_lease_duration_ticks = lease_duration_ticks\<rparr>
                in (r\<lparr>lr_entries := (lr_entries r)[i := \<lparr>le_token = token, le_is_occupied = True\<rparr>],
                      lr_count := lr_count r + 1\<rparr>, Inr token))
           | None \<Rightarrow> (r, Inl CapacityExceeded)))"

definition validate_mutation ::
  "LockToken \<Rightarrow> u64 \<Rightarrow> u64 \<Rightarrow> GenerationLockRegistry \<Rightarrow> LockError + unit"
where
  "validate_mutation token session_id current_tick r =
     (case find_index (slot_holds (lt_account_id token) (lt_lock_id token)) (lr_entries r) of
        Some i \<Rightarrow>
          (let held = le_token (lr_entries r ! i) in
           if lt_holder_session_id held \<noteq> session_id
           then Inl (SessionMismatch (lt_holder_session_id held) session_id)
           else if lt_generation held \<noteq> lt_generation token
           then Inl (StaleGeneration (lt_generation held) (lt_generation token))
           else if \<not> is_valid_at current_tick held
           then Inl (LeaseExpired (expires_at held) current_tick)
           else Inr ())
      | None \<Rightarrow> Inl (LeaseExpired (expires_at token) current_tick))"

definition release_lock ::
  "u64 \<Rightarrow> u32 \<Rightarrow> u64 \<Rightarrow> u64 \<Rightarrow> GenerationLockRegistry \<Rightarrow> GenerationLockRegistry \<times> (LockError + unit)"
where
  "release_lock account_id lock_id session_id generation r =
     (case find_index (slot_holds account_id lock_id) (lr_entries r) of
        Some i \<Rightarrow>
          (let held = le_token (lr_entries r ! i) in
           if lt_holder_session_id held \<noteq> session_id
           then (r, Inl (SessionMismatch (lt_holder_session_id held) session_id))
           else if lt_generation held \<noteq> generation
           then (r, Inl (StaleGeneration (lt_generation held) generation))
           else (r\<lparr>lr_entries := (lr_entries r)[i := (lr_entries r ! i)\<lparr>le_is_occupied := False\<rparr>],
                   lr_count := lr_count r - 1\<rparr>, Inr ()))
      | None \<Rightarrow> (r, Inr ()))"

section \<open>The table as a map\<close>

definition lock_key :: "LockToken \<Rightarrow> u64 \<times> u32" where
  "lock_key t = (lt_account_id t, lt_lock_id t)"

definition lock_entry_slot :: "LockEntry \<Rightarrow> LockToken option" where
  "lock_entry_slot e = (if le_is_occupied e then Some (le_token e) else None)"

abbreviation lock_slots :: "GenerationLockRegistry \<Rightarrow> LockToken option list" where
  "lock_slots r \<equiv> map lock_entry_slot (lr_entries r)"

definition held :: "GenerationLockRegistry \<Rightarrow> u64 \<times> u32 \<Rightarrow> LockToken option" where
  "held r = slot_lookup lock_key (lock_slots r)"

definition lock_ok :: "GenerationLockRegistry \<Rightarrow> bool" where
  "lock_ok r \<longleftrightarrow> keyed lock_key (lock_slots r) \<and> lr_count r = occupied (lock_slots r)"

lemma find_slot: "find_index (slot_holds a l) (lr_entries r) = find_index (has_key lock_key (a, l)) (lock_slots r)"
proof -
  have "slot_holds a l = (\<lambda>e. has_key lock_key (a, l) (lock_entry_slot e))"
    by (auto simp: fun_eq_iff slot_holds_def lock_entry_slot_def lock_key_def)
  then show ?thesis by (simp add: find_index_map)
qed

lemma find_free: "find_index (\<lambda>slot. \<not> le_is_occupied slot) (lr_entries r) = find_index (\<lambda>s. s = None) (lock_slots r)"
  unfolding find_index_map by (simp add: lock_entry_slot_def)

text \<open>The slots after the three kinds of update.\<close>

lemma lock_slots_simps:
  "i < length (lr_entries r) \<Longrightarrow> le_is_occupied (lr_entries r ! i) \<Longrightarrow>
    lock_slots (set_token i t r) = (lock_slots r)[i := Some t]"
  "lock_slots (r\<lparr>lr_entries := (lr_entries r)[i := \<lparr>le_token = t, le_is_occupied = True\<rparr>], lr_count := c\<rparr>)
    = (lock_slots r)[i := Some t]"
  "lock_slots (r\<lparr>lr_entries := (lr_entries r)[i := (lr_entries r ! i)\<lparr>le_is_occupied := False\<rparr>], lr_count := c\<rparr>)
    = (lock_slots r)[i := None]"
  "lr_count (set_token i t r) = lr_count r"
  "length (lr_entries (set_token i t r)) = length (lr_entries r)"
  by (simp_all add: set_token_def map_update lock_entry_slot_def)

lemma held_slot:
  assumes "held r (a, l) = Some t"
  obtains i where "find_index (slot_holds a l) (lr_entries r) = Some i" "i < length (lr_entries r)"
    "le_is_occupied (lr_entries r ! i)" "le_token (lr_entries r ! i) = t" "lock_slots r ! i = Some t"
    "lock_key t = (a, l)"
proof -
  obtain i where i: "find_index (has_key lock_key (a, l)) (lock_slots r) = Some i" "i < length (lock_slots r)"
    "lock_slots r ! i = Some t" "lock_key t = (a, l)"
    using slot_lookup_find [OF assms [unfolded held_def]] by blast
  show ?thesis
  proof (rule that)
    show "find_index (slot_holds a l) (lr_entries r) = Some i" using i(1) by (simp only: find_slot)
    show "i < length (lr_entries r)" using i(2) by simp
    then show "le_is_occupied (lr_entries r ! i)" "le_token (lr_entries r ! i) = t"
      using i(3) by (simp_all add: lock_entry_slot_def split: if_splits)
  qed (use i in simp_all)
qed

lemma not_held_slot: "held r (a, l) = None \<Longrightarrow> find_index (slot_holds a l) (lr_entries r) = None"
  unfolding held_def find_slot by (rule slot_lookup_find_None)

text \<open>What the operations are on the map; a lease ends at the last tick at the latest.\<close>

definition in_lease :: "u64 \<Rightarrow> LockToken \<Rightarrow> bool" where
  "in_lease tick t \<longleftrightarrow> unat (lt_granted_tick t) \<le> unat tick
     \<and> unat tick < min (unat (lt_granted_tick t) + unat (lt_lease_duration_ticks t)) (2 ^ 64 - 1)"

lemma in_lease_iff [simp]: "in_lease tick t = is_valid_at tick t"
proof -
  have "unat (ucast (lt_lease_duration_ticks t) :: u64) = unat (lt_lease_duration_ticks t)"
    using unat_less_pow [of "lt_lease_duration_ticks t"] by (simp add: unsigned_ucast_eq take_bit_nat_eq_self)
  then show ?thesis by (simp add: in_lease_def is_valid_at_def word_le_nat_alt word_less_nat_alt unat_saturating_add)
qed

definition spec_acquire ::
  "u64 \<Rightarrow> u32 \<Rightarrow> u64 \<Rightarrow> u64 \<Rightarrow> u32 \<Rightarrow> bool \<Rightarrow> bool \<Rightarrow> (u64 \<times> u32 \<rightharpoonup> LockToken) \<Rightarrow> LockError + LockToken"
where
  "spec_acquire a l s tk lease force room m =
     (case m (a, l) of
        None \<Rightarrow>
          if room then Inr \<lparr>lt_account_id = a, lt_lock_id = l, lt_generation = 1, lt_holder_session_id = s,
             lt_granted_tick = tk, lt_lease_duration_ticks = lease\<rparr>
          else Inl CapacityExceeded
      | Some t \<Rightarrow>
          if lt_holder_session_id t = s
          then Inr (t\<lparr>lt_granted_tick := tk, lt_lease_duration_ticks := lease\<rparr>)
          else if in_lease tk t \<and> \<not> force
          then Inl (Contention a l (lt_holder_session_id t) (saturating_sub (expires_at t) tk))
          else Inr \<lparr>lt_account_id = a, lt_lock_id = l, lt_generation = saturating_add (lt_generation t) 1,
             lt_holder_session_id = s, lt_granted_tick = tk, lt_lease_duration_ticks = lease\<rparr>)"

definition spec_check :: "u64 \<Rightarrow> u64 \<Rightarrow> LockToken \<Rightarrow> LockError + unit" where
  "spec_check session generation t =
     (if lt_holder_session_id t \<noteq> session then Inl (SessionMismatch (lt_holder_session_id t) session)
      else if lt_generation t \<noteq> generation then Inl (StaleGeneration (lt_generation t) generation)
      else Inr ())"

text \<open>Validation looks at the session first, then the generation, then the lease; a free resource counts as expired.\<close>

definition spec_validate :: "LockToken \<Rightarrow> u64 \<Rightarrow> u64 \<Rightarrow> (u64 \<times> u32 \<rightharpoonup> LockToken) \<Rightarrow> LockError + unit" where
  "spec_validate token session tick m =
     (case m (lock_key token) of
        None \<Rightarrow> Inl (LeaseExpired (expires_at token) tick)
      | Some t \<Rightarrow>
          if lt_holder_session_id t \<noteq> session then Inl (SessionMismatch (lt_holder_session_id t) session)
          else if lt_generation t \<noteq> lt_generation token then Inl (StaleGeneration (lt_generation t) (lt_generation token))
          else if in_lease tick t then Inr ()
          else Inl (LeaseExpired (expires_at t) tick))"

lemma acquire_refines:
  assumes ok: "lock_ok r" and a: "acquire_lock a l s tk lease force r = (r', res)"
  shows "lock_ok r' \<and> length (lr_entries r') = length (lr_entries r)
    \<and> res = spec_acquire a l s tk lease force (lr_count r < length (lr_entries r)) (held r)
    \<and> held r' = (case res of Inl e \<Rightarrow> held r | Inr t \<Rightarrow> (held r)((a, l) \<mapsto> t))
    \<and> (\<forall>e. res = Inl e \<longrightarrow> r' = r)"
proof (cases "held r (a, l)")
  case (Some t)
  have k: "keyed lock_key (lock_slots r)" and c: "lr_count r = occupied (lock_slots r)"
    using ok by (simp_all add: lock_ok_def)
  obtain i where i: "find_index (slot_holds a l) (lr_entries r) = Some i" "i < length (lr_entries r)"
    "le_is_occupied (lr_entries r ! i)" "le_token (lr_entries r ! i) = t" "lock_slots r ! i = Some t"
    "lock_key t = (a, l)"
    using Some by (rule held_slot)
  have upd: "lock_ok (set_token i new r) \<and> held (set_token i new r) = (held r)((a, l) \<mapsto> new)"
    if n: "lock_key new = (a, l)" for new
  proof -
    have "keyed lock_key ((lock_slots r)[i := Some new])"
      by (rule keyed_replace [OF k _ i(5)]) (use i n in simp_all)
    moreover have "occupied ((lock_slots r)[i := Some new]) = occupied (lock_slots r)"
      by (rule occupied_upd_replace) (use i in simp_all)
    moreover have "slot_lookup lock_key ((lock_slots r)[i := Some new]) = (slot_lookup lock_key (lock_slots r))((a, l) \<mapsto> new)"
      using lookup_replace [OF k _ n, of i] i(1) by (simp only: find_slot)
    ultimately show ?thesis
      unfolding lock_ok_def held_def lock_slots_simps(1) [OF i(2,3)] lock_slots_simps(4) by (simp only: c simp_thms)
  qed
  show ?thesis
  proof (cases "lt_holder_session_id t = s")
    case True
    have "lock_key (t\<lparr>lt_granted_tick := tk, lt_lease_duration_ticks := lease\<rparr>) = (a, l)"
      using i(6) by (simp add: lock_key_def)
    from upd [OF this] show ?thesis
      using a True Some i by (auto simp: acquire_lock_def spec_acquire_def Let_def lock_slots_simps)
  next
    case False
    show ?thesis
    proof (cases "is_valid_at tk t \<and> \<not> force")
      case True
      then show ?thesis using a ok False Some i by (auto simp: acquire_lock_def spec_acquire_def Let_def)
    next
      case taken: False
      let ?new = "\<lparr>lt_account_id = a, lt_lock_id = l, lt_generation = saturating_add (lt_generation t) 1,
         lt_holder_session_id = s, lt_granted_tick = tk, lt_lease_duration_ticks = lease\<rparr>"
      have "r' = set_token i ?new r \<and> res = Inr ?new"
        using a False taken i by (auto simp: acquire_lock_def Let_def)
      moreover have "spec_acquire a l s tk lease force (lr_count r < length (lr_entries r)) (held r) = Inr ?new"
        using False taken Some by (auto simp: spec_acquire_def)
      ultimately show ?thesis using upd [of ?new] by (simp add: lock_key_def lock_slots_simps)
    qed
  qed
next
  case None
  have k: "keyed lock_key (lock_slots r)" and c: "lr_count r = occupied (lock_slots r)"
    using ok by (simp_all add: lock_ok_def)
  note f = not_held_slot [OF None]
  show ?thesis
  proof (cases "find_index (\<lambda>slot. \<not> le_is_occupied slot) (lr_entries r)")
    case free: None
    have "\<not> lr_count r < length (lr_entries r)"
    proof
      assume "lr_count r < length (lr_entries r)"
      then obtain i where "i < length (lock_slots r)" "lock_slots r ! i = None"
        using occupied_less_Ex_None [of "lock_slots r"] c by auto
      then show False using free nth_mem by (auto simp: find_index_None_iff lock_entry_slot_def split: if_splits)
    qed
    then show ?thesis using a ok f free None by (auto simp: acquire_lock_def spec_acquire_def)
  next
    case (Some i)
    then have i: "i < length (lock_slots r)" "lock_slots r ! i = None"
      using find_index_SomeD [OF Some] by (auto simp: lock_entry_slot_def)
    let ?new = "\<lparr>lt_account_id = a, lt_lock_id = l, lt_generation = 1, lt_holder_session_id = s,
       lt_granted_tick = tk, lt_lease_duration_ticks = lease\<rparr>"
    have e: "res = Inr ?new" "r' = r\<lparr>lr_entries := (lr_entries r)[i := \<lparr>le_token = ?new, le_is_occupied = True\<rparr>],
        lr_count := lr_count r + 1\<rparr>"
      using a f Some by (auto simp: acquire_lock_def Let_def)
    have key: "lock_key ?new = (a, l)" by (simp add: lock_key_def)
    have slots: "lock_slots r' = (lock_slots r)[i := Some ?new]" unfolding e lock_slots_simps by (rule refl)
    have room: "lr_count r < length (lr_entries r)"
      using occupied_upd_Some [OF i, of ?new] occupied_le [of "(lock_slots r)[i := Some ?new]"] c by simp
    have "lock_ok r' \<and> held r' = (held r)((a, l) \<mapsto> ?new)"
      unfolding lock_ok_def held_def slots
      using lookup_put [OF k None [unfolded held_def] key i] occupied_upd_Some [OF i, of ?new] c by (simp add: e(2))
    then show ?thesis using e room None by (simp add: spec_acquire_def)
  qed
qed

lemma validate_refines:
  "validate_mutation token s tk r =
     (case held r (lock_key token) of
        None \<Rightarrow> Inl (LeaseExpired (expires_at token) tk)
      | Some t \<Rightarrow> (case spec_check s (lt_generation token) t of
                     Inl e \<Rightarrow> Inl e
                   | Inr u \<Rightarrow> if is_valid_at tk t then Inr () else Inl (LeaseExpired (expires_at t) tk)))"
proof (cases "held r (lt_account_id token, lt_lock_id token)")
  case None
  from not_held_slot [OF this] None show ?thesis by (simp add: validate_mutation_def lock_key_def)
next
  case (Some t)
  then show ?thesis
    by (rule held_slot) (use Some in \<open>simp add: validate_mutation_def lock_key_def Let_def spec_check_def\<close>)
qed

lemma release_refines:
  assumes ok: "lock_ok r" and a: "release_lock a l s g r = (r', res)"
  shows "lock_ok r' \<and> length (lr_entries r') = length (lr_entries r)
    \<and> (case held r (a, l) of
         None \<Rightarrow> r' = r \<and> res = Inr ()
       | Some t \<Rightarrow> res = spec_check s g t \<and> held r' = (if res = Inr () then (held r)((a, l) := None) else held r)
           \<and> (res \<noteq> Inr () \<longrightarrow> r' = r))"
proof (cases "held r (a, l)")
  case None
  from not_held_slot [OF this] None show ?thesis using a ok by (simp add: release_lock_def)
next
  case (Some t)
  have k: "keyed lock_key (lock_slots r)" and c: "lr_count r = occupied (lock_slots r)"
    using ok by (simp_all add: lock_ok_def)
  obtain i where i: "find_index (slot_holds a l) (lr_entries r) = Some i" "i < length (lr_entries r)"
    "le_is_occupied (lr_entries r ! i)" "le_token (lr_entries r ! i) = t" "lock_slots r ! i = Some t"
    "lock_key t = (a, l)"
    using Some by (rule held_slot)
  show ?thesis
  proof (cases "spec_check s g t")
    case (Inl e)
    then show ?thesis using a ok i Some
      by (auto simp: release_lock_def spec_check_def Let_def split: if_splits)
  next
    case (Inr u)
    let ?r = "r\<lparr>lr_entries := (lr_entries r)[i := (lr_entries r ! i)\<lparr>le_is_occupied := False\<rparr>], lr_count := lr_count r - 1\<rparr>"
    have e: "r' = ?r" "res = Inr ()"
      using a i Inr by (auto simp: release_lock_def spec_check_def Let_def split: if_splits)
    have "lock_slots r' = (lock_slots r)[i := None]" "lr_count r' = lr_count r - 1"
      unfolding e lock_slots_simps by simp_all
    moreover have "occupied ((lock_slots r)[i := None]) = occupied (lock_slots r) - 1"
      using occupied_upd_None [of i "lock_slots r"] i by simp
    moreover have "slot_lookup lock_key ((lock_slots r)[i := None]) = (slot_lookup lock_key (lock_slots r))((a, l) := None)"
      using lookup_clear [OF k, of "(a, l)" i] i(1) by (simp only: find_slot)
    ultimately have "lock_ok r' \<and> held r' = (held r)((a, l) := None)"
      using keyed_clear [OF k] c by (simp only: lock_ok_def held_def simp_thms)
    then show ?thesis using e Some Inr by simp
  qed
qed

section \<open>Histories\<close>

inductive lock_run :: "nat \<Rightarrow> GenerationLockRegistry \<Rightarrow> bool" for cap where
  opened: "lock_run cap (GenerationLockRegistry_new cap)"
| acquired: "lock_run cap r \<Longrightarrow> lock_run cap (fst (acquire_lock a l s tk lease force r))"
| released: "lock_run cap r \<Longrightarrow> lock_run cap (fst (release_lock a l s g r))"

lemma lock_run_ok: "lock_run cap r \<Longrightarrow> lock_ok r \<and> length (lr_entries r) = cap"
proof (induction rule: lock_run.induct)
  case opened
  show ?case by (simp add: lock_ok_def GenerationLockRegistry_new_def lock_entry_slot_def LockEntry_default_def)
next
  case (acquired r a l s tk lease force)
  then show ?case using acquire_refines [of r a l s tk lease force] by (metis prod.collapse)
next
  case (released r a l s g)
  then show ?case using release_refines [of r a l s g] by (metis prod.collapse)
qed

text \<open>
  C23. The lock table refines a map from resources to tokens. After every history of acquisitions
  and releases an acquisition renews, refuses, takes over or grants as the map says, and is refused
  for lack of space exactly when the resource is free and all entries are used; a validation
  gives the answer of the map, success or the first of the errors that applies (wrong session,
  stale generation, expired lease); a release removes the resource of its holder, and is refused
  with the error of the map otherwise. A refused operation changes nothing. The map forgets a
  released resource with its generation, as the code does: the next grant of the resource has
  generation 1 again, although the module documents the generation as monotonic.
\<close>

theorem lock_table_refines_map:
  assumes run: "lock_run cap r"
  shows "(\<forall>a l s tk lease force. case acquire_lock a l s tk lease force r of (r', res) \<Rightarrow>
            res = spec_acquire a l s tk lease force (lr_count r < cap) (held r)
            \<and> held r' = (case res of Inl e \<Rightarrow> held r | Inr t \<Rightarrow> (held r)((a, l) \<mapsto> t))
            \<and> (\<forall>e. res = Inl e \<longrightarrow> r' = r))
    \<and> (\<forall>token s tk. validate_mutation token s tk r = spec_validate token s tk (held r))
    \<and> (\<forall>a l s g. case release_lock a l s g r of (r', res) \<Rightarrow>
            case held r (a, l) of
              None \<Rightarrow> r' = r \<and> res = Inr ()
            | Some t \<Rightarrow> res = spec_check s g t
                \<and> held r' = (if res = Inr () then (held r)((a, l) := None) else held r)
                \<and> (res \<noteq> Inr () \<longrightarrow> r' = r))"
proof (intro conjI allI)
  have ok: "lock_ok r" and n: "length (lr_entries r) = cap" using lock_run_ok [OF run] by simp_all
  show "case acquire_lock a l s tk lease force r of (r', res) \<Rightarrow>
            res = spec_acquire a l s tk lease force (lr_count r < cap) (held r)
            \<and> held r' = (case res of Inl e \<Rightarrow> held r | Inr t \<Rightarrow> (held r)((a, l) \<mapsto> t))
            \<and> (\<forall>e. res = Inl e \<longrightarrow> r' = r)" for a l s tk lease force
    using acquire_refines [OF ok, of a l s tk lease force] n by (auto split: prod.splits)
  show "validate_mutation token s tk r = spec_validate token s tk (held r)" for token s tk
    unfolding validate_refines by (auto simp: spec_check_def spec_validate_def split: option.splits)
  show "case release_lock a l s g r of (r', res) \<Rightarrow>
            case held r (a, l) of
              None \<Rightarrow> r' = r \<and> res = Inr ()
            | Some t \<Rightarrow> res = spec_check s g t
                \<and> held r' = (if res = Inr () then (held r)((a, l) := None) else held r)
                \<and> (res \<noteq> Inr () \<longrightarrow> r' = r)" for a l s g
    using release_refines [OF ok, of a l s g] by (auto split: prod.splits option.splits)
qed

text \<open>Everything but a successful release of the resource \<open>k\<close>.\<close>

inductive kept :: "u64 \<times> u32 \<Rightarrow> GenerationLockRegistry \<Rightarrow> GenerationLockRegistry \<Rightarrow> bool" for k r where
  here: "kept k r r"
| acquired: "kept k r r1 \<Longrightarrow> kept k r (fst (acquire_lock a l s tk lease force r1))"
| released: "kept k r r1 \<Longrightarrow> (a, l) \<noteq> k \<or> snd (release_lock a l s g r1) \<noteq> Inr ()
    \<Longrightarrow> kept k r (fst (release_lock a l s g r1))"

text \<open>The lock is held at generation \<open>g\<close> by a session of \<open>S\<close>, or its generation has moved on.\<close>

definition passed :: "u64 \<times> u32 \<Rightarrow> u64 \<Rightarrow> u64 set \<Rightarrow> GenerationLockRegistry \<Rightarrow> bool" where
  "passed k g S r \<longleftrightarrow>
     (\<exists>t. held r k = Some t \<and> g \<le> lt_generation t \<and> (lt_generation t = g \<longrightarrow> lt_holder_session_id t \<in> S))"

lemma kept_passed:
  assumes "kept k r r1" and "lock_ok r" and "passed k g S r" and g: "g \<noteq> - 1"
  shows "lock_ok r1 \<and> passed k g S r1"
  using assms(1)
proof (induction rule: kept.induct)
  case here
  show ?case using assms(2,3) by simp
next
  case (acquired r1 a l s' tk lease force)
  obtain r' res where e: "acquire_lock a l s' tk lease force r1 = (r', res)" by (rule prod.exhaust)
  note R = acquire_refines [OF conjunct1 [OF acquired.IH] e]
  obtain t where t: "held r1 k = Some t" "g \<le> lt_generation t" "lt_generation t = g \<longrightarrow> lt_holder_session_id t \<in> S"
    using acquired.IH by (auto simp: passed_def)
  have "passed k g S r'"
  proof (cases "res")
    case (Inl err)
    then show ?thesis using R acquired.IH by simp
  next
    case (Inr new)
    have "g \<le> lt_generation new \<and> (lt_generation new = g \<longrightarrow> lt_holder_session_id new \<in> S)" if "k = (a, l)"
      using R Inr t that sat_succ_greater [OF g t(2)] by (auto simp: spec_acquire_def split: if_splits)
    then show ?thesis using R Inr t by (auto simp: passed_def)
  qed
  with R e show ?case by simp
next
  case (released r1 a l s' g')
  obtain r' res where e: "release_lock a l s' g' r1 = (r', res)" by (rule prod.exhaust)
  have "held r' k = held r1 k"
    using release_refines [OF conjunct1 [OF released.IH] e] released.hyps(2) e by (auto split: option.splits if_splits)
  then show ?case using release_refines [OF conjunct1 [OF released.IH] e] released.IH e by (simp add: passed_def)
qed

lemma takeover_fences:
  assumes run: "lock_run cap r0" and first: "acquire_lock a l s tk lease force r0 = (r1, Inr tok1)"
    and between: "kept (a, l) r1 r2" and second: "acquire_lock a l s' tk' lease' force' r2 = (r3, Inr tok2)"
    and other: "s' \<noteq> s" and small: "lt_generation tok1 \<noteq> - 1" and after: "kept (a, l) r3 r4"
  shows "(\<forall>x now. \<exists>e. validate_mutation tok1 x now r4 = Inl e)
    \<and> (\<forall>now. validate_mutation tok2 s' now r3 = Inr () \<longleftrightarrow> is_valid_at now tok2)"
proof -
  let ?g = "lt_generation tok1"
  note R1 = acquire_refines [OF conjunct1 [OF lock_run_ok [OF run]] first]
  have k1: "lock_key tok1 = (a, l)" "lt_holder_session_id tok1 = s"
    using R1 held_slot [of r0 a l] by (auto simp: spec_acquire_def lock_key_def split: option.splits if_splits)
  have "passed (a, l) ?g {s} r1" using R1 k1 by (auto simp: passed_def)
  with kept_passed [OF between _ _ small, of "{s}"] R1
  have r2: "lock_ok r2" "passed (a, l) ?g {s} r2" by auto
  note R2 = acquire_refines [OF r2(1) second]
  obtain t where t: "held r2 (a, l) = Some t" "?g \<le> lt_generation t" "lt_generation t = ?g \<longrightarrow> lt_holder_session_id t \<in> {s}"
    using r2(2) unfolding passed_def by blast
  have k2: "lock_key tok2 = (a, l)" "lt_holder_session_id tok2 = s'" and gt: "?g < lt_generation tok2"
    using R2 held_slot [OF t(1)] t other sat_succ_greater [OF small t(2)]
    by (auto simp: spec_acquire_def lock_key_def split: if_splits)
  have "passed (a, l) ?g {} r3" using R2 gt by (auto simp: passed_def)
  with kept_passed [OF after _ _ small, of "{}"] R2 have "passed (a, l) ?g {} r4" by blast
  then obtain t4 where t4: "held r4 (a, l) = Some t4" "lt_generation t4 \<noteq> ?g" unfolding passed_def by blast
  have "\<exists>e. validate_mutation tok1 x now r4 = Inl e" for x now
    unfolding validate_refines k1 t4(1) using t4(2) by (auto simp: spec_check_def)
  moreover have "validate_mutation tok2 s' now r3 = Inr () \<longleftrightarrow> is_valid_at now tok2" for now
    unfolding validate_refines k2 using R2 k2 by (simp add: spec_check_def)
  ultimately show ?thesis by blast
qed

text \<open>
  C12. A takeover fences the old holder. When a session was granted a lock and another session is
  granted it later, the token of the first validates for no session and at no tick any more,
  whatever is acquired afterwards, as long as the lock is not released; the new token validates
  exactly within its lease.
\<close>

theorem takeover_fences_old_token:
  assumes run: "lock_run cap r0" and first: "acquire_lock a l s tk lease force r0 = (r1, Inr tok1)"
    and between: "kept (a, l) r1 r2" and second: "acquire_lock a l s' tk' lease' force' r2 = (r3, Inr tok2)"
    and other: "s' \<noteq> s" and small: "lt_generation tok1 \<noteq> - 1" and after: "kept (a, l) r3 r4"
  shows "(\<forall>x now. \<exists>e. validate_mutation tok1 x now r4 = Inl e)
    \<and> (\<forall>now. validate_mutation tok2 s' now r3 = Inr () \<longleftrightarrow> is_valid_at now tok2)"
  using assms by (rule takeover_fences)

theorem lock_table_refines_map_witness:
  "\<exists>r. lock_run 1 r \<and> (\<exists>t. held r (7, 0) = Some t \<and> lt_holder_session_id t = 10)
    \<and> snd (acquire_lock 8 0 11 1 100 False r) = Inl CapacityExceeded"
proof -
  define r0 where "r0 = GenerationLockRegistry_new 1"
  define r where "r = fst (acquire_lock 7 0 10 0 100 False r0)"
  have run0: "lock_run 1 r0" unfolding r0_def by (rule lock_run.opened)
  have run: "lock_run 1 r" unfolding r_def using run0 by (rule lock_run.acquired)
  have h0: "held r0 k = None" for k
    by (simp add: r0_def GenerationLockRegistry_new_def held_def slot_lookup_def lock_entry_slot_def LockEntry_default_def)
  have c0: "lr_count r0 = 0" by (simp add: r0_def GenerationLockRegistry_new_def)
  obtain r' res where e: "acquire_lock 7 0 10 0 100 False r0 = (r', res)" by (rule prod.exhaust)
  have h: "\<exists>t. held r' = [(7, 0) \<mapsto> t] \<and> lt_holder_session_id t = 10"
    using lock_table_refines_map [OF run0, THEN conjunct1, rule_format, of 7 0 10 0 100 False] e h0 c0
    by (auto simp: spec_acquire_def fun_eq_iff)
  have "lr_count r = 1" by (simp add: r_def r0_def GenerationLockRegistry_new_def LockEntry_default_def
      acquire_lock_def slot_holds_def Let_def)
  moreover have "r = r'" by (simp add: r_def e)
  ultimately have "snd (acquire_lock 8 0 11 1 100 False r) = Inl CapacityExceeded"
    using lock_table_refines_map [OF run, THEN conjunct1, rule_format, of 8 0 11 1 100 False] h
    by (auto simp: spec_acquire_def split: prod.splits)
  with run h \<open>r = r'\<close> show ?thesis by auto
qed

text \<open>A takeover, and what a release and a new acquisition make of the fenced token.\<close>

definition lock_token :: "u64 \<Rightarrow> u64 \<Rightarrow> u64 \<Rightarrow> LockToken" where
  "lock_token generation session tick = \<lparr>lt_account_id = 7, lt_lock_id = 0, lt_generation = generation,
     lt_holder_session_id = session, lt_granted_tick = tick, lt_lease_duration_ticks = 100\<rparr>"

definition lock_table :: "LockToken \<Rightarrow> GenerationLockRegistry" where
  "lock_table t = \<lparr>lr_entries = [\<lparr>le_token = t, le_is_occupied = True\<rparr>], lr_count = 1\<rparr>"

lemmas lock_example_simps = lock_token_def lock_table_def acquire_lock_def release_lock_def validate_mutation_def
  slot_holds_def set_token_def is_valid_at_def saturating_add_def Let_def GenerationLockRegistry_new_def
  LockEntry_default_def

lemma lock_example:
  "acquire_lock 7 0 10 0 100 False (GenerationLockRegistry_new 1) = (lock_table (lock_token 1 10 0), Inr (lock_token 1 10 0))"
  "acquire_lock 7 0 20 5 100 True (lock_table (lock_token 1 10 0)) = (lock_table (lock_token 2 20 5), Inr (lock_token 2 20 5))"
  by (simp_all add: lock_example_simps)

theorem takeover_fences_old_token_witness:
  "\<exists>e. validate_mutation (lock_token 1 10 0) 10 6 (lock_table (lock_token 2 20 5)) = Inl e"
  using takeover_fences_old_token [OF lock_run.opened lock_example(1) kept.here lock_example(2) _ _ kept.here]
  by (simp add: lock_token_def)

lemma release_revives_fenced_token:
  "let r1 = fst (release_lock 7 0 20 2 (lock_table (lock_token 2 20 5)));
       r2 = fst (acquire_lock 7 0 10 6 100 False r1)
   in validate_mutation (lock_token 1 10 0) 10 7 r2 = Inr ()"
  by (simp add: lock_example_simps)

end
