(* ===== verification/WorldErrors.thy ===== *)
theory WorldErrors
  imports Prelude
begin

text \<open>
  The errors of the crate eidolon-world (\<^verbatim>\<open>eidolon-world/src/error.rs\<close>), which its journal, its
  transactions and its item transfers share. A \<open>&'static str\<close> is a string.
\<close>

datatype ZoneId = ZoneId u32

datatype InstanceId = InstanceId u64

datatype WorldError =
    ZoneNotFound ZoneId
  | EntityNotFound u32
  | EntityAlreadyExists u32
  | ZoneFull ZoneId
  | InstanceNotFound InstanceId
  | InstancePoolExhausted
  | InvalidInstanceState string string
  | SnapshotCorrupted
  | InvalidSnapshot string
  | PartyFull
  | PartitionSevered ZoneId ZoneId
  | BoundaryEntityFrozen u32
  | LeaseExpired u64 ZoneId
  | WalBufferFull
  | WalStorageUnavailable
  | WalCorruptedRecord string
  | WalChecksumMismatch u32 u32
  | WalLsnRegression u64 u64
  | TransactionAborted string
  | InsufficientBalance u64 u64
  | ItemNotFound u32
  | DuplicateTransaction u64
  | StaleSessionMutation u64 u64
  | ReconstructionFailed string
  | QuorumFailed nat nat
  | StructureNotFound u32
  | PieceNotFound u32
  | StructurallyUnsound
  | InteriorCellNotFound u32
  | InteriorCellFull
  | ShardNotFound u32
  | TerrainTileNotFound i32 i32
  | PreAuthExpired
  | PreAuthInvalid
  | ChunkCapacityExceeded

end
