(* ===== verification/Wal.thy ===== *)
theory Wal
  imports WorldErrors
begin

text \<open>
  The write-ahead journal of the crate eidolon-world. From \<^verbatim>\<open>wal.rs\<close>: the record with its Adler-32
  checksum, its encoding, the bounded ring of records between the simulation and the storage, and
  the journal that moves records from the ring to a sink. From \<^verbatim>\<open>hibernation.rs\<close>: the checksum.

  The sink is a trait object; the definitions take its two methods as arguments and the locale
  \<open>batch_sink\<close> (theory Journal) states what a sink owes the journal. The mutexes are never contended within one
  call and never poisoned, since nothing panics while they are held.
\<close>

section \<open>The checksum\<close>

definition adler_step :: "u32 \<times> u32 \<Rightarrow> u8 \<Rightarrow> u32 \<times> u32" where
  "adler_step ab byte =
     (case ab of (a, b) \<Rightarrow> let a1 = (a + ucast byte) mod 65521 in (a1, (b + a1) mod 65521))"

definition compute_adler32 :: "u8 list \<Rightarrow> u32" where
  "compute_adler32 data = (case foldl adler_step (1, 0) data of (a, b) \<Rightarrow> push_bit 16 b OR a)"

section \<open>Records\<close>

definition MAX_WAL_PAYLOAD_LEN :: nat where
  "MAX_WAL_PAYLOAD_LEN = 128"

definition WAL_HEADER_LEN :: nat where
  "WAL_HEADER_LEN = 30"

definition OP_CURRENCY_DELTA :: u8 where
  "OP_CURRENCY_DELTA = 0x04"

definition OP_INVENTORY_MUTATION :: u8 where
  "OP_INVENTORY_MUTATION = 0x05"

record WalRecord =
  wr_lsn :: u64
  wr_tick :: u64
  wr_account_id :: u64
  wr_entity_id :: u32
  wr_opcode :: u8
  wr_payload_len :: u8
  wr_payload :: "u8 list"
  wr_checksum :: u32

definition WalRecord_default :: WalRecord where
  "WalRecord_default = \<lparr>wr_lsn = 0, wr_tick = 0, wr_account_id = 0, wr_entity_id = 0, wr_opcode = 0,
     wr_payload_len = 0, wr_payload = replicate MAX_WAL_PAYLOAD_LEN 0, wr_checksum = 0\<rparr>"

definition wal_header_bytes :: "WalRecord \<Rightarrow> u8 list" where
  "wal_header_bytes r =
     be_bytes 8 (unat (wr_lsn r)) @ be_bytes 8 (unat (wr_tick r)) @ be_bytes 8 (unat (wr_account_id r))
     @ be_bytes 4 (unat (wr_entity_id r)) @ [wr_opcode r, wr_payload_len r]"

definition compute_checksum :: "WalRecord \<Rightarrow> u32" where
  "compute_checksum r =
     (let len = min (unat (wr_payload_len r)) MAX_WAL_PAYLOAD_LEN
      in compute_adler32 (wal_header_bytes r) XOR compute_adler32 (take len (wr_payload r)))"

definition WalRecord_new :: "u64 \<Rightarrow> u64 \<Rightarrow> u64 \<Rightarrow> u32 \<Rightarrow> u8 \<Rightarrow> u8 list \<Rightarrow> WorldError + WalRecord" where
  "WalRecord_new lsn tick account_id entity_id opcode payload_data =
     (if length payload_data > MAX_WAL_PAYLOAD_LEN
      then Inl (WalCorruptedRecord ''Payload exceeds maximum 128 bytes limit'')
      else
        (let r = \<lparr>wr_lsn = lsn, wr_tick = tick, wr_account_id = account_id, wr_entity_id = entity_id,
               wr_opcode = opcode, wr_payload_len = of_nat (length payload_data),
               wr_payload = slice_put (replicate MAX_WAL_PAYLOAD_LEN 0) 0 payload_data, wr_checksum = 0\<rparr>
         in Inr (r\<lparr>wr_checksum := compute_checksum r\<rparr>)))"

definition WalRecord_encode :: "WalRecord \<Rightarrow> u8 list \<Rightarrow> u8 list \<times> (WorldError + nat)" where
  "WalRecord_encode r out =
     (let p_len = min (unat (wr_payload_len r)) MAX_WAL_PAYLOAD_LEN;
          total_len = WAL_HEADER_LEN + p_len + 4 in
      if length out < total_len then (out, Inl (WalCorruptedRecord ''Destination buffer too small''))
      else
        (let out1 = slice_put out 0 (wal_header_bytes r);
             out2 = slice_put out1 WAL_HEADER_LEN (take p_len (wr_payload r));
             out3 = slice_put out2 (WAL_HEADER_LEN + p_len) (be_bytes 4 (unat (wr_checksum r)))
         in (out3, Inr total_len)))"

text \<open>\<open>from_be_bytes\<close> of the bytes from an index on.\<close>

definition be_at :: "u8 list \<Rightarrow> nat \<Rightarrow> nat \<Rightarrow> 'a::len word" where
  "be_at buf i n = word_of_nat (from_be (take n (drop i buf)))"

definition WalRecord_decode :: "u8 list \<Rightarrow> WorldError + WalRecord \<times> nat" where
  "WalRecord_decode buf =
     (if length buf < WAL_HEADER_LEN + 4 then Inl (WalCorruptedRecord ''Buffer truncated before header'')
      else
        (let payload_len = buf ! 29; p_len = unat payload_len; total_len = WAL_HEADER_LEN + p_len + 4 in
         if p_len > MAX_WAL_PAYLOAD_LEN then Inl (WalCorruptedRecord ''Payload length header invalid'')
         else if length buf < total_len then Inl (WalCorruptedRecord ''Buffer truncated before trailer'')
         else
           (let r = \<lparr>wr_lsn = be_at buf 0 8, wr_tick = be_at buf 8 8, wr_account_id = be_at buf 16 8,
                  wr_entity_id = be_at buf 24 4, wr_opcode = buf ! 28, wr_payload_len = payload_len,
                  wr_payload = slice_put (replicate MAX_WAL_PAYLOAD_LEN 0) 0 (take p_len (drop WAL_HEADER_LEN buf)),
                  wr_checksum = be_at buf (WAL_HEADER_LEN + p_len) 4\<rparr>;
                calculated = compute_checksum r in
            if calculated \<noteq> wr_checksum r then Inl (WalChecksumMismatch (wr_checksum r) calculated)
            else Inr (r, total_len))))"

section \<open>What a record's bytes are\<close>

text \<open>
  A record as \<open>new\<close> and \<open>decode\<close> make it: the payload padded with zeros and the checksum in place.
\<close>

definition wal_wf :: "WalRecord \<Rightarrow> bool" where
  "wal_wf r \<longleftrightarrow> length (wr_payload r) = MAX_WAL_PAYLOAD_LEN \<and> unat (wr_payload_len r) \<le> MAX_WAL_PAYLOAD_LEN
     \<and> drop (unat (wr_payload_len r)) (wr_payload r) = replicate (MAX_WAL_PAYLOAD_LEN - unat (wr_payload_len r)) 0
     \<and> wr_checksum r = compute_checksum r"

definition wal_bytes :: "WalRecord \<Rightarrow> u8 list" where
  "wal_bytes r = wal_header_bytes r @ take (unat (wr_payload_len r)) (wr_payload r) @ be_bytes 4 (unat (wr_checksum r))"

lemma length_wal_header [simp]: "length (wal_header_bytes r) = 30"
  by (simp add: wal_header_bytes_def)

lemma length_wal_bytes: "wal_wf r \<Longrightarrow> length (wal_bytes r) = WAL_HEADER_LEN + unat (wr_payload_len r) + 4"
  by (simp add: wal_bytes_def wal_wf_def WAL_HEADER_LEN_def)

lemma padded_payload:
  "length p \<le> 128 \<Longrightarrow> slice_put (replicate 128 (0 :: u8)) 0 p = p @ replicate (128 - length p) 0"
  by (simp add: slice_put_def)

lemma WalRecord_new_wf:
  assumes "WalRecord_new lsn tick acc ent opc data = Inr r"
  shows "wal_wf r \<and> wr_lsn r = lsn \<and> wr_tick r = tick \<and> wr_account_id r = acc \<and> wr_entity_id r = ent
    \<and> wr_opcode r = opc \<and> take (unat (wr_payload_len r)) (wr_payload r) = data"
proof -
  have le: "length data \<le> 128" using assms by (auto simp: WalRecord_new_def MAX_WAL_PAYLOAD_LEN_def split: if_splits)
  then have n: "unat (of_nat (length data) :: u8) = length data" by (simp add: unat_of_nat)
  show ?thesis
    using assms le by (auto simp: WalRecord_new_def MAX_WAL_PAYLOAD_LEN_def wal_wf_def compute_checksum_def Let_def
        padded_payload n wal_header_bytes_def)
qed

lemma encode_wf:
  assumes "wal_wf r"
  shows "WalRecord_encode r out =
    (if length out < length (wal_bytes r) then (out, Inl (WalCorruptedRecord ''Destination buffer too small''))
     else (wal_bytes r @ drop (length (wal_bytes r)) out, Inr (length (wal_bytes r))))"
proof -
  have l: "min (unat (wr_payload_len r)) MAX_WAL_PAYLOAD_LEN = unat (wr_payload_len r)"
    "length (take (unat (wr_payload_len r)) (wr_payload r)) = unat (wr_payload_len r)"
    using assms by (simp_all add: wal_wf_def)
  show ?thesis
    unfolding WalRecord_encode_def length_wal_bytes [OF assms] Let_def l(1)
    using l(2) by (auto simp: wal_bytes_def slice_put_def WAL_HEADER_LEN_def add.commute)
qed

section \<open>Decoding\<close>

lemma be_at_eq: "i + n \<le> length buf \<Longrightarrow> 8 * n \<le> LENGTH('a) \<Longrightarrow> be_bytes n (unat (be_at buf i n :: 'a::len word)) = take n (drop i buf)"
proof -
  assume a: "i + n \<le> length buf" "8 * n \<le> LENGTH('a)"
  let ?v = "from_be (take n (drop i buf))"
  have l: "length (take n (drop i buf)) = n" using a by simp
  have "?v < 256 ^ n" using from_be_less [of "take n (drop i buf)"] unfolding l .
  also have "(256 :: nat) ^ n = 2 ^ (8 * n)" by (simp add: power_mult)
  also have "\<dots> \<le> 2 ^ LENGTH('a)" using a(2) by (intro power_increasing) simp_all
  finally have "unat (word_of_nat ?v :: 'a word) = ?v" by (simp add: unat_of_nat take_bit_nat_eq_self_iff)
  then show ?thesis unfolding be_at_def using be_bytes_from_be [of "take n (drop i buf)"] l by simp
qed

lemma be_at_bytes:
  fixes w :: "'a::len word"
  assumes "take n (drop i buf) = be_bytes n (unat w)" and n: "LENGTH('a) = 8 * n"
  shows "be_at buf i n = w"
proof -
  have "2 ^ LENGTH('a) = (256 :: nat) ^ n" by (simp add: n power_mult)
  then have "from_be (be_bytes n (unat w)) = unat w" using unat_less_pow [of w] by (simp add: from_be_be_bytes)
  then show ?thesis using assms(1) by (simp add: be_at_def)
qed

lemma take_drop_split: "take (m + n) (drop i xs) = take m (drop i xs) @ take n (drop (i + m) xs)"
  by (simp add: take_add add.commute)

lemma take_two: "i + 1 < length xs \<Longrightarrow> take 2 (drop i xs) = [xs ! i, xs ! (i + 1)]"
  by (rule nth_equalityI) (auto simp: less_Suc_eq numeral_2_eq_2)

text \<open>The record the decoder reads from the first bytes of a buffer that is long enough.\<close>

definition wal_read :: "u8 list \<Rightarrow> WalRecord" where
  "wal_read buf =
     \<lparr>wr_lsn = be_at buf 0 8, wr_tick = be_at buf 8 8, wr_account_id = be_at buf 16 8,
      wr_entity_id = be_at buf 24 4, wr_opcode = buf ! 28, wr_payload_len = buf ! 29,
      wr_payload = take (unat (buf ! 29)) (drop 30 buf) @ replicate (128 - unat (buf ! 29)) 0,
      wr_checksum = be_at buf (30 + unat (buf ! 29)) 4\<rparr>"

lemma wal_read_bytes:
  assumes p: "unat (buf ! 29) \<le> 128" and l: "34 + unat (buf ! 29) \<le> length buf"
  shows "wal_header_bytes (wal_read buf) = take 30 buf"
    and "wal_bytes (wal_read buf) = take (34 + unat (buf ! 29)) buf"
proof -
  have b: "be_bytes 8 (unat (be_at buf i 8 :: u64)) = take 8 (drop i buf)" if "i \<le> 16" for i
    using that l by (intro be_at_eq) simp_all
  have b4: "be_bytes 4 (unat (be_at buf i 4 :: u32)) = take 4 (drop i buf)" if "i \<le> 30 + unat (buf ! 29)" for i
    using that l by (intro be_at_eq) simp_all
  have "take 30 buf = take 8 (drop 0 buf) @ take 8 (drop 8 buf) @ take 8 (drop 16 buf) @ take 4 (drop 24 buf) @ take 2 (drop 28 buf)"
    using take_drop_split [of 8 22 0 buf] take_drop_split [of 8 14 8 buf] take_drop_split [of 8 6 16 buf]
      take_drop_split [of 4 2 24 buf] by simp
  moreover have "take 2 (drop 28 buf) = [buf ! 28, buf ! 29]" using l take_two [of 28 buf] by simp
  ultimately show h: "wal_header_bytes (wal_read buf) = take 30 buf"
    by (simp add: wal_header_bytes_def wal_read_def b b4)
  have pl: "take (unat (buf ! 29)) (wr_payload (wal_read buf)) = take (unat (buf ! 29)) (drop 30 buf)"
    using l by (simp add: wal_read_def)
  have "take (34 + unat (buf ! 29)) buf = take 30 buf @ take (unat (buf ! 29)) (drop 30 buf) @ take 4 (drop (30 + unat (buf ! 29)) buf)"
    using take_drop_split [of 30 "unat (buf ! 29) + 4" 0 buf] take_drop_split [of "unat (buf ! 29)" 4 30 buf]
    by (simp add: add.commute add.left_commute)
  then show "wal_bytes (wal_read buf) = take (34 + unat (buf ! 29)) buf"
    unfolding wal_bytes_def h using pl b4 [of "30 + unat (buf ! 29)"] by (simp add: wal_read_def)
qed

lemma decode_eq:
  "WalRecord_decode buf =
     (if length buf < 34 then Inl (WalCorruptedRecord ''Buffer truncated before header'')
      else if unat (buf ! 29) > 128 then Inl (WalCorruptedRecord ''Payload length header invalid'')
      else if length buf < 34 + unat (buf ! 29) then Inl (WalCorruptedRecord ''Buffer truncated before trailer'')
      else if compute_checksum (wal_read buf) \<noteq> wr_checksum (wal_read buf)
      then Inl (WalChecksumMismatch (wr_checksum (wal_read buf)) (compute_checksum (wal_read buf)))
      else Inr (wal_read buf, 34 + unat (buf ! 29)))"
proof -
  have "slice_put (replicate MAX_WAL_PAYLOAD_LEN 0) 0 (take (unat (buf ! 29)) (drop WAL_HEADER_LEN buf))
      = take (unat (buf ! 29)) (drop 30 buf) @ replicate (128 - unat (buf ! 29)) 0"
    if "unat (buf ! 29) \<le> 128" "34 + unat (buf ! 29) \<le> length buf"
    using that padded_payload [of "take (unat (buf ! 29)) (drop 30 buf)"]
    by (simp add: MAX_WAL_PAYLOAD_LEN_def WAL_HEADER_LEN_def min_absorb2)
  then have e: "unat (buf ! 29) \<le> 128 \<Longrightarrow> 34 + unat (buf ! 29) \<le> length buf \<Longrightarrow>
      \<lparr>wr_lsn = be_at buf 0 8, wr_tick = be_at buf 8 8, wr_account_id = be_at buf 16 8,
       wr_entity_id = be_at buf 24 4, wr_opcode = buf ! 28, wr_payload_len = buf ! 29,
       wr_payload = slice_put (replicate MAX_WAL_PAYLOAD_LEN 0) 0 (take (unat (buf ! 29)) (drop WAL_HEADER_LEN buf)),
       wr_checksum = be_at buf (WAL_HEADER_LEN + unat (buf ! 29)) 4\<rparr> = wal_read buf"
    by (simp add: wal_read_def WAL_HEADER_LEN_def)
  have n: "WAL_HEADER_LEN + 4 = 34" "WAL_HEADER_LEN + unat (buf ! 29) + 4 = 34 + unat (buf ! 29)" "MAX_WAL_PAYLOAD_LEN = 128"
    by (simp_all add: WAL_HEADER_LEN_def MAX_WAL_PAYLOAD_LEN_def)
  show ?thesis unfolding WalRecord_decode_def Let_def n using e unfolding n by (simp add: not_less)
qed

lemma wal_read_wf: "unat (buf ! 29) \<le> 128 \<Longrightarrow> 34 + unat (buf ! 29) \<le> length buf \<Longrightarrow>
    wal_wf (wal_read buf) \<longleftrightarrow> wr_checksum (wal_read buf) = compute_checksum (wal_read buf)"
  by (auto simp: wal_wf_def wal_read_def MAX_WAL_PAYLOAD_LEN_def)

lemma take_drop_append: "i + n \<le> length xs \<Longrightarrow> take n (drop i (xs @ ys)) = take n (drop i xs)"
  by simp

lemma wal_read_of_bytes:
  assumes "wal_wf r"
  shows "wal_read (wal_bytes r @ rest) = r" and "(wal_bytes r @ rest) ! 29 = wr_payload_len r"
proof -
  let ?p = "unat (wr_payload_len r)" and ?b = "wal_bytes r @ rest"
  have lp: "length (take ?p (wr_payload r)) = ?p" using assms by (simp add: wal_wf_def)
  have at: "take 8 (drop 0 ?b) = be_bytes 8 (unat (wr_lsn r))" "take 8 (drop 8 ?b) = be_bytes 8 (unat (wr_tick r))"
    "take 8 (drop 16 ?b) = be_bytes 8 (unat (wr_account_id r))" "take 4 (drop 24 ?b) = be_bytes 4 (unat (wr_entity_id r))"
    "take ?p (drop 30 ?b) = take ?p (wr_payload r)" "take 4 (drop (30 + ?p) ?b) = be_bytes 4 (unat (wr_checksum r))"
    unfolding wal_bytes_def wal_header_bytes_def using lp by (simp_all add: drop_append)
  show l: "?b ! 29 = wr_payload_len r" by (simp add: wal_bytes_def wal_header_bytes_def nth_append)
  have o: "?b ! 28 = wr_opcode r" by (simp add: wal_bytes_def wal_header_bytes_def nth_append)
  have pad: "take ?p (wr_payload r) @ replicate (128 - ?p) 0 = wr_payload r"
    using assms append_take_drop_id [of ?p "wr_payload r"] unfolding wal_wf_def MAX_WAL_PAYLOAD_LEN_def by simp
  show "wal_read ?b = r"
    unfolding wal_read_def l o using at by (simp add: be_at_bytes pad)
qed

lemma decode_iff:
  "WalRecord_decode buf = Inr (r, n) \<longleftrightarrow> wal_wf r \<and> n = length (wal_bytes r) \<and> (\<exists>rest. buf = wal_bytes r @ rest)"
proof
  assume d: "WalRecord_decode buf = Inr (r, n)"
  then have c: "unat (buf ! 29) \<le> 128" "34 + unat (buf ! 29) \<le> length buf" "r = wal_read buf" "n = 34 + unat (buf ! 29)"
    "compute_checksum (wal_read buf) = wr_checksum (wal_read buf)"
    unfolding decode_eq by (simp_all split: if_splits)
  then have wf: "wal_wf r" using wal_read_wf by metis
  have b: "wal_bytes r = take n buf" unfolding c(3,4) using wal_read_bytes(2) [OF c(1,2)] .
  then have "buf = wal_bytes r @ drop n buf" by simp
  moreover have "n = length (wal_bytes r)" using b c by simp
  ultimately show "wal_wf r \<and> n = length (wal_bytes r) \<and> (\<exists>rest. buf = wal_bytes r @ rest)" using wf by blast
next
  assume "wal_wf r \<and> n = length (wal_bytes r) \<and> (\<exists>rest. buf = wal_bytes r @ rest)"
  then obtain rest where wf: "wal_wf r" and n: "n = length (wal_bytes r)" and buf: "buf = wal_bytes r @ rest" by blast
  have "unat (wr_payload_len r) \<le> 128" "wr_checksum r = compute_checksum r" "length (wal_bytes r) = 34 + unat (wr_payload_len r)"
    using wf length_wal_bytes [OF wf] by (simp_all add: wal_wf_def MAX_WAL_PAYLOAD_LEN_def WAL_HEADER_LEN_def)
  then show "WalRecord_decode buf = Inr (r, n)"
    unfolding decode_eq buf n using wal_read_of_bytes [OF wf, of rest] by simp
qed

text \<open>
  The journal's record format. Encoding a record that \<open>new\<close> made, or that was decoded, fills the
  front of a buffer that is long enough and leaves a shorter one alone; and the decoder accepts
  exactly the buffers that begin with such an encoding, with its record and its length.
\<close>

theorem wal_record_roundtrip:
  shows "(\<forall>lsn tick acc ent opc data r. WalRecord_new lsn tick acc ent opc data = Inr r \<longrightarrow> wal_wf r
        \<and> take (unat (wr_payload_len r)) (wr_payload r) = data)
    \<and> (\<forall>r out. wal_wf r \<longrightarrow> WalRecord_encode r out =
        (if length out < 34 + unat (wr_payload_len r)
         then (out, Inl (WalCorruptedRecord ''Destination buffer too small''))
         else (wal_bytes r @ drop (length (wal_bytes r)) out, Inr (34 + unat (wr_payload_len r)))))
    \<and> (\<forall>buf r n. WalRecord_decode buf = Inr (r, n) \<longleftrightarrow> wal_wf r \<and> n = length (wal_bytes r) \<and> (\<exists>rest. buf = wal_bytes r @ rest))"
proof (intro conjI allI impI)
  fix r out assume "wal_wf r"
  then show "WalRecord_encode r out =
        (if length out < 34 + unat (wr_payload_len r)
         then (out, Inl (WalCorruptedRecord ''Destination buffer too small''))
         else (wal_bytes r @ drop (length (wal_bytes r)) out, Inr (34 + unat (wr_payload_len r))))"
    by (simp add: encode_wf length_wal_bytes WAL_HEADER_LEN_def add.commute)
next
  show "WalRecord_decode buf = Inr (r, n) \<longleftrightarrow> wal_wf r \<and> n = length (wal_bytes r) \<and> (\<exists>rest. buf = wal_bytes r @ rest)" for buf r n
    by (rule decode_iff)
qed (use WalRecord_new_wf in blast)+

theorem wal_record_roundtrip_witness:
  "\<exists>r. WalRecord_new 1 0 7 0 OP_CURRENCY_DELTA [9] = Inr r
    \<and> WalRecord_decode (fst (WalRecord_encode r (replicate 40 0))) = Inr (r, 35)"
proof -
  obtain r where r: "WalRecord_new 1 0 7 0 OP_CURRENCY_DELTA [9] = Inr r"
    by (simp add: WalRecord_new_def MAX_WAL_PAYLOAD_LEN_def Let_def)
  have wf: "wal_wf r" and t: "take (unat (wr_payload_len r)) (wr_payload r) = [9]"
    using wal_record_roundtrip [THEN conjunct1, rule_format, OF r] by simp_all
  then have "length (take (unat (wr_payload_len r)) (wr_payload r)) = unat (wr_payload_len r)"
    unfolding wal_wf_def length_take by (simp add: min_absorb2)
  then have "unat (wr_payload_len r) = 1" unfolding t by simp
  then show ?thesis using r wf wal_record_roundtrip [THEN conjunct2, THEN conjunct1, rule_format, OF wf, of "replicate 40 0"]
    wal_record_roundtrip [THEN conjunct2, THEN conjunct2, rule_format, of _ r 35]
    by (simp add: length_wal_bytes WAL_HEADER_LEN_def)
qed

section \<open>Corruption\<close>

text \<open>The low half of the checksum is one more than the sum of the bytes, modulo 65521.\<close>

definition byte_sum :: "u8 list \<Rightarrow> nat" where
  "byte_sum bs = sum_list (map unat bs)"

lemma adler_fold:
  assumes "unat a < 65521" "unat b < 65521"
  shows "\<exists>a' b'. foldl adler_step (a, b) bs = (a', b') \<and> unat a' = (unat a + byte_sum bs) mod 65521 \<and> unat b' < 65521"
  using assms
proof (induction bs arbitrary: a b)
  case Nil
  then show ?case by (simp add: byte_sum_def)
next
  case (Cons x bs)
  let ?a = "(a + ucast x) mod 65521"
  have x: "unat (ucast x :: u32) = unat x" "unat x < 256" using unat_less_pow [of x] by (simp_all add: unsigned_ucast_eq take_bit_nat_eq_self_iff)
  have "unat (a + ucast x) = unat a + unat x"
    using Cons.prems x by (subst unat_add_lem [THEN iffD1]) simp_all
  then have a: "unat ?a = (unat a + unat x) mod 65521" by (simp add: unat_mod)
  have b: "unat ((b + ?a) mod 65521) < 65521" by (simp add: unat_mod)
  have "unat ?a < 65521" using a by simp
  from Cons.IH [OF this b] show ?case
    by (auto simp: adler_step_def Let_def a byte_sum_def mod_add_left_eq add.assoc)
qed

lemma adler_low: "unat (take_bit 16 (compute_adler32 bs)) = (1 + byte_sum bs) mod 65521"
proof -
  obtain a b where f: "foldl adler_step (1, 0) bs = (a, b)" and a: "unat a = (1 + byte_sum bs) mod 65521"
    using adler_fold [of 1 0 bs] by auto
  have "take_bit 16 (push_bit 16 b OR a) = take_bit 16 a" by (auto simp: bit_eq_iff bit_simps)
  moreover have "(1 + byte_sum bs) mod 65521 < 65521" by simp
  then have "unat a < 2 ^ 16" unfolding a [symmetric] by simp
  then have "unat (take_bit 16 a) = unat a" by (simp add: unsigned_take_bit_eq take_bit_nat_eq_self_iff)
  ultimately show ?thesis using f a by (simp add: compute_adler32_def)
qed

lemma byte_sum_update:
  "i < length bs \<Longrightarrow> byte_sum (bs[i := x]) + unat (bs ! i) = byte_sum bs + unat x"
  by (induction bs arbitrary: i) (auto simp: byte_sum_def split: nat.splits)

lemma mod_shift_eq:
  fixes s t u v :: nat
  assumes m: "(1 + s) mod 65521 = (1 + t) mod 65521" and e: "s + v = t + u" and u: "u < 256" and v: "v < 256"
  shows "u = v"
proof -
  obtain j k where jk: "1 + s = 65521 * j + (1 + s) mod 65521" "1 + t = 65521 * k + (1 + s) mod 65521"
    using mult_div_mod_eq m by metis
  show ?thesis
  proof (cases j k rule: linorder_cases)
    case less
    then have "65521 * j + 65521 \<le> 65521 * k" by simp
    with jk e u v show ?thesis by linarith
  next
    case equal
    with jk e show ?thesis by linarith
  next
    case greater
    then have "65521 * k + 65521 \<le> 65521 * j" by simp
    with jk e u v show ?thesis by linarith
  qed
qed

lemma adler_detects:
  assumes "i < length bs" "x \<noteq> bs ! i"
  shows "take_bit 16 (compute_adler32 (bs[i := x])) \<noteq> take_bit 16 (compute_adler32 bs)"
proof
  assume "take_bit 16 (compute_adler32 (bs[i := x])) = take_bit 16 (compute_adler32 bs)"
  then have "(1 + byte_sum (bs[i := x])) mod 65521 = (1 + byte_sum bs) mod 65521"
    using adler_low by metis
  moreover have "byte_sum (bs[i := x]) + unat (bs ! i) = byte_sum bs + unat x"
    using assms(1) by (rule byte_sum_update)
  moreover have "unat x < 256" "unat (bs ! i) < 256" using unat_less_pow [of x] unat_less_pow [of "bs ! i"] by simp_all
  ultimately have "unat x = unat (bs ! i)" by (rule mod_shift_eq)
  then show False using assms(2) unsigned_word_eqI by blast
qed

lemma xor_cancel:
  fixes a b c :: "'a::len word"
  shows "a XOR c = b XOR c \<longleftrightarrow> a = b" and "c XOR a = c XOR b \<longleftrightarrow> a = b"
  by (auto simp: bit_eq_iff bit_xor_iff)

lemma checksum_read:
  assumes "unat (buf ! 29) \<le> 128" "34 + unat (buf ! 29) \<le> length buf"
  shows "compute_checksum (wal_read buf)
    = compute_adler32 (take 30 buf) XOR compute_adler32 (take (unat (buf ! 29)) (drop 30 buf))"
proof -
  have "wr_payload_len (wal_read buf) = buf ! 29"
    "take (unat (buf ! 29)) (wr_payload (wal_read buf)) = take (unat (buf ! 29)) (drop 30 buf)"
    using assms by (simp_all add: wal_read_def)
  then show ?thesis unfolding compute_checksum_def Let_def wal_read_bytes(1) [OF assms]
    using assms(1) by (simp add: MAX_WAL_PAYLOAD_LEN_def min_absorb1)
qed

text \<open>
  C39. The checksum detects every corrupted byte. When one byte of a stored record other than its
  length is replaced by a different one, the decoder reports a checksum mismatch.
\<close>

theorem wal_detects_corrupt_byte:
  assumes d: "WalRecord_decode buf = Inr (r, n)" and i: "i < n" "i \<noteq> 29" and x: "x \<noteq> buf ! i"
  shows "\<exists>stored computed. WalRecord_decode (buf[i := x]) = Inl (WalChecksumMismatch stored computed)"
proof -
  let ?b = "buf[i := x]" and ?p = "unat (buf ! 29)"
  have c: "?p \<le> 128" "34 + ?p \<le> length buf" "n = 34 + ?p"
    "compute_checksum (wal_read buf) = wr_checksum (wal_read buf)"
    using d unfolding decode_eq by (simp_all split: if_splits)
  have len: "?b ! 29 = buf ! 29" using i(2) by simp
  have c': "unat (?b ! 29) \<le> 128" "34 + unat (?b ! 29) \<le> length ?b" using c len by simp_all
  have S: "compute_checksum (wal_read ?b) = compute_adler32 (take 30 ?b) XOR compute_adler32 (take ?p (drop 30 ?b))"
    "compute_checksum (wal_read buf) = compute_adler32 (take 30 buf) XOR compute_adler32 (take ?p (drop 30 buf))"
    using checksum_read [OF c'] checksum_read [OF c(1,2)] unfolding len by blast+
  have W: "wr_checksum (wal_read ?b) = be_at ?b (30 + ?p) 4" "wr_checksum (wal_read buf) = be_at buf (30 + ?p) 4"
    unfolding wal_read_def len by simp_all
  have "compute_checksum (wal_read ?b) \<noteq> wr_checksum (wal_read ?b)"
  proof -
    consider "i < 30" | "30 \<le> i" "i < 30 + ?p" | "30 + ?p \<le> i" by linarith
    then show ?thesis
    proof cases
      case 1
      have "take_bit 16 (compute_adler32 ((take 30 buf)[i := x])) \<noteq> take_bit 16 (compute_adler32 (take 30 buf))"
        by (rule adler_detects) (use 1 c x in simp_all)
      moreover have "take 30 ?b = (take 30 buf)[i := x]" "drop 30 ?b = drop 30 buf" "drop (30 + ?p) ?b = drop (30 + ?p) buf"
        using 1 by (simp_all add: take_update_swap)
      ultimately show ?thesis using c(4) unfolding S W be_at_def by (metis xor_cancel(1))
    next
      case 2
      have "take_bit 16 (compute_adler32 ((take ?p (drop 30 buf))[i - 30 := x]))
          \<noteq> take_bit 16 (compute_adler32 (take ?p (drop 30 buf)))"
        by (rule adler_detects) (use 2 c x in simp_all)
      moreover have "take ?p (drop 30 ?b) = (take ?p (drop 30 buf))[i - 30 := x]" "take 30 ?b = take 30 buf"
        "drop (30 + ?p) ?b = drop (30 + ?p) buf"
        using 2 take_update_swap [of ?p "drop 30 buf" "i - 30" x] by (simp_all add: drop_update_swap del: take_drop)
      ultimately show ?thesis using c(4) unfolding S W be_at_def by (metis xor_cancel(2))
    next
      case 3
      have "take 30 ?b = take 30 buf" "take ?p (drop 30 ?b) = take ?p (drop 30 buf)"
        using 3 by (simp_all add: drop_update_swap)
      moreover have "(be_at ?b (30 + ?p) 4 :: u32) \<noteq> be_at buf (30 + ?p) 4"
      proof
        assume "(be_at ?b (30 + ?p) 4 :: u32) = be_at buf (30 + ?p) 4"
        then have "take 4 (drop (30 + ?p) ?b) = take 4 (drop (30 + ?p) buf)"
          using be_at_eq [of "30 + ?p" 4 ?b, where 'a = 32] be_at_eq [of "30 + ?p" 4 buf, where 'a = 32] c by simp
        then have "take 4 (drop (30 + ?p) ?b) ! (i - (30 + ?p)) = take 4 (drop (30 + ?p) buf) ! (i - (30 + ?p))"
          by (rule arg_cong)
        moreover have "i - (30 + ?p) < 4" "30 + ?p + (i - (30 + ?p)) = i" using 3 i c by simp_all
        ultimately have "?b ! i = buf ! i" using c by (simp only: nth_take nth_drop length_list_update)
        then show False using x i c by simp
      qed
      ultimately show ?thesis using c(4) unfolding S W by metis
    qed
  qed
  then show ?thesis unfolding decode_eq using c' by simp
qed

theorem wal_detects_corrupt_byte_witness:
  "\<exists>r stored computed. WalRecord_new 1 0 7 0 OP_CURRENCY_DELTA [9] = Inr r
    \<and> WalRecord_decode ((wal_bytes r)[0 := wal_bytes r ! 0 + 1]) = Inl (WalChecksumMismatch stored computed)"
proof -
  obtain r where r: "WalRecord_new 1 0 7 0 OP_CURRENCY_DELTA [9] = Inr r"
    by (simp add: WalRecord_new_def MAX_WAL_PAYLOAD_LEN_def Let_def)
  have wf: "wal_wf r" using WalRecord_new_wf [OF r] by simp
  have "WalRecord_decode (wal_bytes r) = Inr (r, length (wal_bytes r))" by (simp add: decode_iff wf)
  from wal_detects_corrupt_byte [OF this, of 0 "wal_bytes r ! 0 + 1"] r wf show ?thesis
    by (simp add: length_wal_bytes WAL_HEADER_LEN_def)
qed

end
