(* ===== verification/Journal.thy ===== *)
theory Journal
  imports Wal
begin

text \<open>
  The journal of \<^verbatim>\<open>eidolon-world/src/wal.rs\<close>: the bounded ring of records, the sink it is flushed to,
  and \<open>append\<close> and \<open>flush_pending\<close>. The property of the journal is that its sink and its ring
  together always hold the records appended so far, in order, with the durable sequence number at
  the seam.
\<close>

section \<open>The ring\<close>

record RingState =
  rs_slots :: "WalRecord list"
  rs_head :: nat
  rs_tail :: nat
  rs_len :: nat

definition WalRingBuffer_new :: "nat \<Rightarrow> RingState" where
  "WalRingBuffer_new CAP = \<lparr>rs_slots = replicate CAP WalRecord_default, rs_head = 0, rs_tail = 0, rs_len = 0\<rparr>"

abbreviation rs_cap :: "RingState \<Rightarrow> nat" where
  "rs_cap st \<equiv> length (rs_slots st)"

definition wal_try_push :: "WalRecord \<Rightarrow> RingState \<Rightarrow> RingState \<times> (WorldError + unit)" where
  "wal_try_push r st =
     (if rs_len st \<ge> rs_cap st then (st, Inl WalBufferFull)
      else
        (let tail = rs_tail st in
         if tail < rs_cap st
         then (st\<lparr>rs_slots := (rs_slots st)[tail := r], rs_tail := (tail + 1) mod rs_cap st, rs_len := rs_len st + 1\<rparr>,
               Inr ())
         else (st, Inl WalBufferFull)))"

text \<open>The destination afterwards and the number of records copied to its front.\<close>

definition peek_batch :: "WalRecord list \<Rightarrow> RingState \<Rightarrow> WalRecord list \<times> nat" where
  "peek_batch dest st =
     (let count = min (length dest) (rs_len st);
          item = (\<lambda>i. let idx = (rs_head st + i) mod rs_cap st
                      in if idx < rs_cap st then rs_slots st ! idx else dest ! i)
      in (map item [0..<count] @ drop count dest, count))"

definition advance_head :: "nat \<Rightarrow> RingState \<Rightarrow> RingState" where
  "advance_head count st =
     (let actual = min count (rs_len st)
      in st\<lparr>rs_head := (rs_head st + actual) mod rs_cap st, rs_len := rs_len st - actual\<rparr>)"

primrec drain_items :: "WalRecord list \<Rightarrow> RingState \<Rightarrow> RingState \<times> WalRecord list" where
  "drain_items [] st = (st, [])"
| "drain_items (item # items) st =
     (let head = rs_head st;
          x = (if head < rs_cap st then rs_slots st ! head else item)
      in case drain_items items (st\<lparr>rs_head := (head + 1) mod rs_cap st\<rparr>) of (st1, xs) \<Rightarrow> (st1, x # xs))"

definition drain_batch :: "WalRecord list \<Rightarrow> RingState \<Rightarrow> RingState \<times> WalRecord list \<times> nat" where
  "drain_batch dest st =
     (let count = min (length dest) (rs_len st)
      in case drain_items (take count dest) st of
           (st1, xs) \<Rightarrow> (st1\<lparr>rs_len := rs_len st - count\<rparr>, xs @ drop count dest, count))"

text \<open>The records of the ring from head to tail.\<close>

definition ring_contents :: "RingState \<Rightarrow> WalRecord list" where
  "ring_contents st = map (\<lambda>i. rs_slots st ! ((rs_head st + i) mod rs_cap st)) [0..<rs_len st]"

definition ring_ok :: "RingState \<Rightarrow> bool" where
  "ring_ok st \<longleftrightarrow> 0 < rs_cap st \<and> rs_len st \<le> rs_cap st \<and> rs_head st < rs_cap st
     \<and> rs_tail st = (rs_head st + rs_len st) mod rs_cap st"

lemma ring_new: "0 < cap \<Longrightarrow> ring_ok (WalRingBuffer_new cap) \<and> ring_contents (WalRingBuffer_new cap) = []"
  by (simp add: ring_ok_def ring_contents_def WalRingBuffer_new_def)

lemma length_ring_contents [simp]: "length (ring_contents st) = rs_len st"
  by (simp add: ring_contents_def)

lemma push_contents:
  assumes "ring_ok st" and "wal_try_push r st = (st', res)"
  shows "if rs_len st < rs_cap st
    then res = Inr () \<and> ring_ok st' \<and> ring_contents st' = ring_contents st @ [r] \<and> rs_cap st' = rs_cap st
    else res = Inl WalBufferFull \<and> st' = st"
proof (cases "rs_len st < rs_cap st")
  case False
  then show ?thesis using assms(2) by (simp add: wal_try_push_def)
next
  case True
  let ?c = "rs_cap st" and ?n = "rs_len st"
  have t: "rs_tail st = (rs_head st + ?n) mod ?c" "rs_tail st < ?c" using assms(1) by (simp_all add: ring_ok_def)
  have e: "res = Inr ()" "st' = st\<lparr>rs_slots := (rs_slots st)[rs_tail st := r], rs_tail := (rs_tail st + 1) mod ?c, rs_len := ?n + 1\<rparr>"
    using assms(2) True t(2) by (auto simp: wal_try_push_def Let_def)
  have at: "(rs_slots st)[rs_tail st := r] ! ((rs_head st + i) mod ?c)
      = (if i = ?n then r else rs_slots st ! ((rs_head st + i) mod ?c))" if "i \<le> ?n" for i
    using that t True ring_pos_eq [of i ?c ?n "rs_head st"] by (auto simp: nth_list_update)
  have "ring_contents st' = ring_contents st @ [r]"
    unfolding ring_contents_def e(2) using at by simp
  moreover have "ring_ok st'" using assms(1) True t unfolding ring_ok_def e(2) by (simp add: mod_Suc_eq)
  ultimately show ?thesis using True e by simp
qed

lemma peek_contents:
  assumes "ring_ok st" and "peek_batch dest st = (dest', n)"
  shows "n = min (length dest) (rs_len st) \<and> take n dest' = take n (ring_contents st) \<and> length dest' = length dest"
proof -
  let ?n = "min (length dest) (rs_len st)"
  have i: "(rs_head st + i) mod rs_cap st < rs_cap st" for i using assms(1) by (simp add: ring_ok_def)
  have e: "n = ?n" "dest' = map (\<lambda>i. rs_slots st ! ((rs_head st + i) mod rs_cap st)) [0..<?n] @ drop ?n dest"
    using assms(2) i by (auto simp: peek_batch_def Let_def)
  have "take ?n [0..<rs_len st] = [0..<?n]" by simp
  then show ?thesis unfolding e ring_contents_def take_map by simp
qed

lemma advance_contents:
  assumes "ring_ok st"
  shows "ring_ok (advance_head n st) \<and> ring_contents (advance_head n st) = drop n (ring_contents st)
    \<and> rs_cap (advance_head n st) = rs_cap st"
proof -
  let ?a = "min n (rs_len st)" and ?c = "rs_cap st"
  have d: "drop n [0..<rs_len st] = drop ?a [0..<rs_len st]" by (simp add: min_def)
  have t: "((rs_head st + ?a) mod ?c + (rs_len st - ?a)) mod ?c = (rs_head st + rs_len st) mod ?c"
    unfolding mod_add_left_eq by simp
  have "ring_contents (advance_head n st)
      = map (\<lambda>i. rs_slots st ! ((rs_head st + i) mod ?c)) (map (\<lambda>i. ?a + i) [0..<rs_len st - ?a])"
    by (simp add: ring_contents_def advance_head_def Let_def mod_add_left_eq add.assoc)
  also have "map (\<lambda>i. ?a + i) [0..<rs_len st - ?a] = drop n [0..<rs_len st]"
    unfolding d by (rule nth_equalityI) simp_all
  finally have "ring_contents (advance_head n st) = drop n (ring_contents st)"
    by (simp add: ring_contents_def drop_map)
  then show ?thesis using assms t unfolding ring_ok_def advance_head_def Let_def by auto
qed

lemma drain_items_eq:
  assumes "rs_head st < rs_cap st"
  shows "drain_items items st =
    (st\<lparr>rs_head := (rs_head st + length items) mod rs_cap st\<rparr>,
     map (\<lambda>i. rs_slots st ! ((rs_head st + i) mod rs_cap st)) [0..<length items])"
  using assms
proof (induction items arbitrary: st)
  case Nil
  then show ?case by simp
next
  case (Cons x items)
  let ?st = "st\<lparr>rs_head := (rs_head st + 1) mod rs_cap st\<rparr>"
  have h: "rs_head ?st < rs_cap ?st" using Cons.prems by (cases "rs_cap st") simp_all
  have "map (\<lambda>i. rs_slots st ! ((rs_head st + i) mod rs_cap st)) [0..<length (x # items)]
      = rs_slots st ! rs_head st # map (\<lambda>i. rs_slots st ! ((rs_head st + Suc i) mod rs_cap st)) [0..<length items]"
    using Cons.prems by (simp add: map_upt_Suc del: upt_Suc)
  then show ?case using Cons.prems Cons.IH [OF h] by (simp add: Let_def mod_Suc_eq mod_add_left_eq)
qed

text \<open>Draining is peeking and then advancing.\<close>

lemma drain_is_peek_advance:
  assumes "ring_ok st"
  shows "drain_batch dest st = (case peek_batch dest st of (dest', n) \<Rightarrow> (advance_head n st, dest', n))"
  using assms drain_items_eq [of st "take (min (length dest) (rs_len st)) dest"]
  by (simp add: drain_batch_def peek_batch_def advance_head_def ring_ok_def Let_def min_def)

section \<open>The sink\<close>

text \<open>
  What the journal needs of a sink: a batch is stored as a whole behind the earlier ones or, with
  an error, not at all, and a flush stores nothing.
\<close>

locale batch_sink =
  fixes write_batch :: "WalRecord list \<Rightarrow> 's \<Rightarrow> 's \<times> (WorldError + unit)"
    and flush :: "'s \<Rightarrow> 's \<times> (WorldError + unit)"
    and stored :: "'s \<Rightarrow> WalRecord list"
  assumes write_stores: "write_batch rs s = (s', Inr u) \<Longrightarrow> stored s' = stored s @ rs"
    and write_fails: "write_batch rs s = (s', Inl e) \<Longrightarrow> stored s' = stored s"
    and flush_keeps: "flush s = (s', res) \<Longrightarrow> stored s' = stored s"

record MockDurableStorage =
  ms_records :: "WalRecord list"
  ms_is_available :: bool

definition MockDurableStorage_new :: MockDurableStorage where
  "MockDurableStorage_new = \<lparr>ms_records = [], ms_is_available = True\<rparr>"

definition set_available :: "bool \<Rightarrow> MockDurableStorage \<Rightarrow> MockDurableStorage" where
  "set_available available s = s\<lparr>ms_is_available := available\<rparr>"

definition mock_write_batch :: "WalRecord list \<Rightarrow> MockDurableStorage \<Rightarrow> MockDurableStorage \<times> (WorldError + unit)" where
  "mock_write_batch rs s =
     (if \<not> ms_is_available s then (s, Inl WalStorageUnavailable)
      else (s\<lparr>ms_records := ms_records s @ rs\<rparr>, Inr ()))"

definition mock_flush :: "MockDurableStorage \<Rightarrow> MockDurableStorage \<times> (WorldError + unit)" where
  "mock_flush s = (if \<not> ms_is_available s then (s, Inl WalStorageUnavailable) else (s, Inr ()))"

section \<open>The journal\<close>

record 's WriteAheadJournal =
  wj_current_lsn :: u64
  wj_durable_lsn :: u64
  wj_ring :: RingState
  wj_sink :: 's
  wj_scratch :: "WalRecord list"

definition WriteAheadJournal_new :: "nat \<Rightarrow> 's \<Rightarrow> 's WriteAheadJournal" where
  "WriteAheadJournal_new CAP sink =
     \<lparr>wj_current_lsn = 0, wj_durable_lsn = 0, wj_ring = WalRingBuffer_new CAP, wj_sink = sink,
      wj_scratch = replicate 128 WalRecord_default\<rparr>"

definition is_flushed :: "u64 \<Rightarrow> 's WriteAheadJournal \<Rightarrow> bool" where
  "is_flushed lsn j \<longleftrightarrow> lsn \<le> wj_durable_lsn j"

definition pending_records :: "'s WriteAheadJournal \<Rightarrow> nat" where
  "pending_records j = rs_len (wj_ring j)"

definition wal_append ::
  "u64 \<Rightarrow> u64 \<Rightarrow> u32 \<Rightarrow> u8 \<Rightarrow> u8 list \<Rightarrow> 's WriteAheadJournal \<Rightarrow> 's WriteAheadJournal \<times> (WorldError + u64)"
where
  "wal_append tick account_id entity_id opcode payload_data j =
     (let next_lsn = saturating_add (wj_current_lsn j) 1 in
      case WalRecord_new next_lsn tick account_id entity_id opcode payload_data of
        Inl e \<Rightarrow> (j, Inl e)
      | Inr r \<Rightarrow>
          (case wal_try_push r (wj_ring j) of
             (ring, Inl e) \<Rightarrow> (j\<lparr>wj_ring := ring\<rparr>, Inl e)
           | (ring, Inr u) \<Rightarrow> (j\<lparr>wj_ring := ring, wj_current_lsn := next_lsn\<rparr>, Inr next_lsn)))"

function flush_loop ::
  "(WalRecord list \<Rightarrow> 's \<Rightarrow> 's \<times> (WorldError + unit)) \<Rightarrow> nat \<Rightarrow> 's WriteAheadJournal
    \<Rightarrow> 's WriteAheadJournal \<times> (WorldError + nat)"
where
  "flush_loop write_batch total_flushed j =
     (case peek_batch (wj_scratch j) (wj_ring j) of
        (scratch, count) \<Rightarrow>
          let j1 = j\<lparr>wj_scratch := scratch\<rparr>; batch = take count scratch in
          if count = 0 then (j1, Inr total_flushed)
          else
            (case write_batch batch (wj_sink j1) of
               (sink, Inl e) \<Rightarrow> (j1\<lparr>wj_sink := sink\<rparr>, Inl e)
             | (sink, Inr u) \<Rightarrow>
                 (let j2 = j1\<lparr>wj_sink := sink, wj_ring := advance_head count (wj_ring j1)\<rparr>;
                      j3 = (if batch \<noteq> [] \<and> wr_lsn (last batch) > wj_durable_lsn j2
                            then j2\<lparr>wj_durable_lsn := wr_lsn (last batch)\<rparr> else j2)
                  in flush_loop write_batch (total_flushed + count) j3)))"
  by pat_completeness auto
termination
  by (relation "measure (\<lambda>(w, n, j). rs_len (wj_ring j))")
    (auto simp: peek_batch_def advance_head_def Let_def split: if_splits)

declare flush_loop.simps [simp del]

definition flush_pending ::
  "(WalRecord list \<Rightarrow> 's \<Rightarrow> 's \<times> (WorldError + unit)) \<Rightarrow> ('s \<Rightarrow> 's \<times> (WorldError + unit))
    \<Rightarrow> 's WriteAheadJournal \<Rightarrow> 's WriteAheadJournal \<times> (WorldError + nat)"
where
  "flush_pending write_batch flush j =
     (case flush_loop write_batch 0 j of
        (j1, Inl e) \<Rightarrow> (j1, Inl e)
      | (j1, Inr total_flushed) \<Rightarrow>
          if total_flushed > 0
          then (case flush (wj_sink j1) of
                  (sink, Inl e) \<Rightarrow> (j1\<lparr>wj_sink := sink\<rparr>, Inl e)
                | (sink, Inr u) \<Rightarrow> (j1\<lparr>wj_sink := sink\<rparr>, Inr total_flushed))
          else (j1, Inr total_flushed))"

section \<open>The log behind the journal\<close>

definition numbered :: "WalRecord list \<Rightarrow> bool" where
  "numbered log \<longleftrightarrow> (\<forall>i<length log. unat (wr_lsn (log ! i)) = Suc i \<and> wal_wf (log ! i))"

text \<open>The durable sequence number is the seam between what is stored and what is in the ring.\<close>

definition seam :: "('s \<Rightarrow> WalRecord list) \<Rightarrow> WalRecord list \<Rightarrow> WalRecord list \<Rightarrow> 's WriteAheadJournal \<Rightarrow> bool" where
  "seam stored base log j \<longleftrightarrow>
     ring_ok (wj_ring j) \<and> length (wj_scratch j) = 128 \<and> numbered log
     \<and> unat (wj_current_lsn j) = length log \<and> unat (wj_durable_lsn j) \<le> length log
     \<and> stored (wj_sink j) = base @ take (unat (wj_durable_lsn j)) log
     \<and> ring_contents (wj_ring j) = drop (unat (wj_durable_lsn j)) log"

text \<open>
  The histories of a journal, with the records appended so far. Between two calls the storage may
  change in ways \<open>env\<close> allows, as when it becomes unreachable.
\<close>

inductive journal_run ::
  "(WalRecord list \<Rightarrow> 's \<Rightarrow> 's \<times> (WorldError + unit)) \<Rightarrow> ('s \<Rightarrow> 's \<times> (WorldError + unit)) \<Rightarrow> ('s \<Rightarrow> 's \<Rightarrow> bool)
    \<Rightarrow> nat \<Rightarrow> 's \<Rightarrow> WalRecord list \<Rightarrow> 's WriteAheadJournal \<Rightarrow> bool"
  for write_batch flush env CAP sink
where
  opened: "journal_run write_batch flush env CAP sink [] (WriteAheadJournal_new CAP sink)"
| appended: "journal_run write_batch flush env CAP sink log j \<Longrightarrow>
    wal_append tick acc ent opc data j = (j', Inr lsn) \<Longrightarrow> WalRecord_new lsn tick acc ent opc data = Inr r \<Longrightarrow>
    journal_run write_batch flush env CAP sink (log @ [r]) j'"
| refused: "journal_run write_batch flush env CAP sink log j \<Longrightarrow>
    wal_append tick acc ent opc data j = (j', Inl e) \<Longrightarrow> journal_run write_batch flush env CAP sink log j'"
| flushed: "journal_run write_batch flush env CAP sink log j \<Longrightarrow> flush_pending write_batch flush j = (j', res) \<Longrightarrow>
    journal_run write_batch flush env CAP sink log j'"
| outside: "journal_run write_batch flush env CAP sink log j \<Longrightarrow> env (wj_sink j) s \<Longrightarrow>
    journal_run write_batch flush env CAP sink log (j\<lparr>wj_sink := s\<rparr>)"

lemma append_seam:
  assumes s: "seam stored base log j" and a: "wal_append tick acc ent opc data j = (j', res)"
  shows "case res of
      Inl e \<Rightarrow> j' = j \<and> (e = WalBufferFull \<longleftrightarrow> length data \<le> 128) \<and> (length data \<le> 128 \<longrightarrow> rs_len (wj_ring j) = rs_cap (wj_ring j))
    | Inr lsn \<Rightarrow> lsn = saturating_add (wj_current_lsn j) 1 \<and> (\<exists>r. WalRecord_new lsn tick acc ent opc data = Inr r
        \<and> (length log + 1 < 2 ^ 64 \<longrightarrow> seam stored base (log @ [r]) j'))"
proof (cases "WalRecord_new (saturating_add (wj_current_lsn j) 1) tick acc ent opc data")
  case (Inl e)
  then have "j' = j" "res = Inl e" "e \<noteq> WalBufferFull" "\<not> length data \<le> 128"
    using a by (auto simp: wal_append_def Let_def WalRecord_new_def MAX_WAL_PAYLOAD_LEN_def split: if_splits)
  then show ?thesis by simp
next
  case (Inr r)
  let ?lsn = "saturating_add (wj_current_lsn j) 1"
  have data: "length data \<le> 128"
    using Inr by (auto simp: WalRecord_new_def MAX_WAL_PAYLOAD_LEN_def split: if_splits)
  have ok: "ring_ok (wj_ring j)" using s by (simp add: seam_def)
  obtain ring pr where p: "wal_try_push r (wj_ring j) = (ring, pr)" by (rule prod.exhaust)
  note P = push_contents [OF ok p]
  show ?thesis
  proof (cases "rs_len (wj_ring j) < rs_cap (wj_ring j)")
    case False
    then have "j' = j" "res = Inl WalBufferFull"
      using a Inr p P by (auto simp: wal_append_def Let_def)
    then show ?thesis using data ok False by (simp add: ring_ok_def)
  next
    case True
    then have e: "res = Inr ?lsn" "j' = j\<lparr>wj_ring := ring, wj_current_lsn := ?lsn\<rparr>"
      using a Inr p P by (auto simp: wal_append_def Let_def)
    have "seam stored base (log @ [r]) j'" if l: "length log + 1 < 2 ^ 64"
    proof -
      have lsn: "unat ?lsn = Suc (length log)" using s l by (simp add: seam_def unat_saturating_add)
      have r: "wal_wf r" "wr_lsn r = ?lsn" using WalRecord_new_wf [OF Inr] by simp_all
      have "numbered (log @ [r])" using s r lsn by (auto simp: seam_def numbered_def nth_append less_Suc_eq)
      moreover have "unat (wj_durable_lsn j) \<le> length log" using s by (simp add: seam_def)
      ultimately show ?thesis using s P True lsn unfolding seam_def e(2) by simp
    qed
    then show ?thesis using e Inr by auto
  qed
qed

context batch_sink
begin

lemma flush_loop_seam:
  "flush_loop write_batch n j = (j', res) \<Longrightarrow> seam stored base log j \<Longrightarrow>
    seam stored base log j' \<and> wj_current_lsn j' = wj_current_lsn j
    \<and> (\<forall>m. res = Inr m \<longrightarrow> m = n + rs_len (wj_ring j) \<and> rs_len (wj_ring j') = 0)"
proof (induction "rs_len (wj_ring j)" arbitrary: n j rule: less_induct)
  case less
  note s = less.prems(2) and e = less.prems(1)
  have ok: "ring_ok (wj_ring j)" using s by (simp add: seam_def)
  obtain scratch count where p: "peek_batch (wj_scratch j) (wj_ring j) = (scratch, count)" by (rule prod.exhaust)
  note P = peek_contents [OF ok p]
  have scr: "length scratch = 128" using P s by (simp add: seam_def)
  have count: "count = min 128 (rs_len (wj_ring j))" using P s by (simp add: seam_def)
  let ?j1 = "j\<lparr>wj_scratch := scratch\<rparr>" and ?d = "unat (wj_durable_lsn j)" and ?batch = "take count scratch"
  have s1: "seam stored base log ?j1" using s scr by (simp add: seam_def)
  show ?case
  proof (cases "count = 0")
    case True
    then have "j' = ?j1" "res = Inr n" using e p by (auto simp: flush_loop.simps [of _ _ j])
    then show ?thesis using s1 True count by simp
  next
    case False
    have "ring_contents (wj_ring j) = drop ?d log" using s by (simp add: seam_def)
    with P have batch: "?batch = take count (drop ?d log)" by metis
    have len: "rs_len (wj_ring j) = length log - ?d" using s length_ring_contents [of "wj_ring j"] by (simp add: seam_def)
    then have room: "?d + count \<le> length log" using count False by simp
    have ne: "?batch \<noteq> []" using False scr by auto
    have "last ?batch = log ! (?d + count - 1)"
      unfolding batch using False room by (simp add: last_conv_nth)
    then have last: "unat (wr_lsn (last ?batch)) = ?d + count"
      using s room False by (simp add: seam_def numbered_def)
    obtain sink wr where w: "write_batch ?batch (wj_sink ?j1) = (sink, wr)" by (rule prod.exhaust)
    show ?thesis
    proof (cases wr)
      case (Inl err)
      have "stored sink = stored (wj_sink ?j1)" using w Inl write_fails by blast
      moreover have "j' = ?j1\<lparr>wj_sink := sink\<rparr>" "res = Inl err"
        using e p False w Inl by (auto simp: flush_loop.simps [of _ _ j] Let_def)
      ultimately show ?thesis using s1 by (simp add: seam_def)
    next
      case (Inr u)
      let ?j3 = "?j1\<lparr>wj_sink := sink, wj_ring := advance_head count (wj_ring j), wj_durable_lsn := wr_lsn (last ?batch)\<rparr>"
      have gt: "wr_lsn (last ?batch) > wj_durable_lsn j" using last False by (simp add: word_less_nat_alt)
      have rec: "flush_loop write_batch (n + count) ?j3 = (j', res)"
        using e p False w Inr ne gt by (simp add: flush_loop.simps [of _ _ j] Let_def)
      have A: "ring_ok (wj_ring ?j3)" "ring_contents (wj_ring ?j3) = drop (?d + count) log"
        using advance_contents [OF ok, of count] s by (simp_all add: seam_def add.commute)
      have "stored sink = base @ take ?d log @ ?batch"
        using write_stores w Inr s by (fastforce simp: seam_def)
      then have "stored sink = base @ take (?d + count) log" unfolding batch by (simp add: take_add)
      then have s3: "seam stored base log ?j3" using s1 A last room by (simp add: seam_def)
      have n3: "rs_len (wj_ring ?j3) = rs_len (wj_ring j) - count"
        using count by (simp add: advance_head_def Let_def)
      have "rs_len (wj_ring ?j3) < rs_len (wj_ring j)" using n3 False count by simp
      from less.hyps [OF this rec s3] show ?thesis using n3 count by auto
    qed
  qed
qed

lemma flush_pending_seam:
  assumes "flush_pending write_batch flush j = (j', res)" and s: "seam stored base log j"
  shows "seam stored base log j' \<and> wj_current_lsn j' = wj_current_lsn j
    \<and> (\<forall>m. res = Inr m \<longrightarrow> m = rs_len (wj_ring j) \<and> rs_len (wj_ring j') = 0)"
proof -
  obtain j1 r1 where l: "flush_loop write_batch 0 j = (j1, r1)" by (rule prod.exhaust)
  note L = flush_loop_seam [OF l s]
  obtain sink fr where f: "flush (wj_sink j1) = (sink, fr)" by (rule prod.exhaust)
  have "seam stored base log (j1\<lparr>wj_sink := sink\<rparr>)"
    using conjunct1 [OF L] flush_keeps [OF f] by (simp add: seam_def)
  then show ?thesis using assms(1) l f L
    by (auto simp: flush_pending_def split: sum.splits if_splits)
qed

lemma journal_seam:
  assumes run: "journal_run write_batch flush env CAP sink log j" and cap: "0 < CAP"
    and env: "\<And>s s'. env s s' \<Longrightarrow> stored s' = stored s" and len: "length log < 2 ^ 64"
  shows "seam stored (stored sink) log j"
  using run len
proof (induction rule: journal_run.induct)
  case opened
  show ?case using ring_new [OF cap] by (simp add: seam_def WriteAheadJournal_new_def numbered_def)
next
  case (appended log j tick acc ent opc data j' lsn r)
  then have "seam stored (stored sink) log j" by simp
  from append_seam [OF this appended.hyps(2)] appended show ?case by simp
next
  case (refused log j tick acc ent opc data j' e)
  then show ?case using append_seam by fastforce
next
  case (flushed log j j' res)
  then show ?case using flush_pending_seam by blast
next
  case (outside log j s)
  then show ?case using env [OF outside.hyps(2)] by (simp add: seam_def)
qed

end

interpretation mock: batch_sink mock_write_batch mock_flush ms_records
  by unfold_locales (auto simp: mock_write_batch_def mock_flush_def split: if_splits)

text \<open>A reachable storage takes everything.\<close>

lemma flush_loop_available:
  "flush_loop mock_write_batch n j = (j', res) \<Longrightarrow> ms_is_available (wj_sink j) \<Longrightarrow>
    (\<exists>m. res = Inr m) \<and> ms_is_available (wj_sink j')"
proof (induction "rs_len (wj_ring j)" arbitrary: n j rule: less_induct)
  case less
  obtain scratch count where p: "peek_batch (wj_scratch j) (wj_ring j) = (scratch, count)" by (rule prod.exhaust)
  show ?case
  proof (cases "count = 0")
    case True
    then show ?thesis using less.prems p by (auto simp: flush_loop.simps [of _ _ j])
  next
    case False
    have w: "mock_write_batch rs (wj_sink j) = (wj_sink j\<lparr>ms_records := ms_records (wj_sink j) @ rs\<rparr>, Inr ())" for rs
      using less.prems(2) by (simp add: mock_write_batch_def)
    obtain j3 where j3: "flush_loop mock_write_batch (n + count) j3 = (j', res)" "ms_is_available (wj_sink j3)"
      "wj_ring j3 = advance_head count (wj_ring j)"
    proof -
      let ?batch = "take count scratch"
      let ?j2 = "j\<lparr>wj_scratch := scratch, wj_sink := wj_sink j\<lparr>ms_records := ms_records (wj_sink j) @ ?batch\<rparr>,
        wj_ring := advance_head count (wj_ring j)\<rparr>"
      let ?j3 = "if ?batch \<noteq> [] \<and> wr_lsn (last ?batch) > wj_durable_lsn ?j2
        then ?j2\<lparr>wj_durable_lsn := wr_lsn (last ?batch)\<rparr> else ?j2"
      have "flush_loop mock_write_batch n j = flush_loop mock_write_batch (n + count) ?j3"
        using False by (subst flush_loop.simps) (simp add: p w Let_def)
      moreover have "ms_is_available (wj_sink ?j3)" "wj_ring ?j3 = advance_head count (wj_ring j)"
        using less.prems(2) by simp_all
      ultimately show ?thesis using that less.prems(1) by metis
    qed
    have "rs_len (wj_ring j3) < rs_len (wj_ring j)"
      unfolding j3(3) using p False by (auto simp: advance_head_def peek_batch_def Let_def)
    from less.hyps [OF this j3(1,2)] show ?thesis .
  qed
qed

text \<open>The histories over the storage of the source, which may become unreachable and come back.\<close>

abbreviation mock_run :: "nat \<Rightarrow> WalRecord list \<Rightarrow> MockDurableStorage WriteAheadJournal \<Rightarrow> bool" where
  "mock_run \<equiv> \<lambda>CAP. journal_run mock_write_batch mock_flush (\<lambda>s s'. \<exists>a. s' = set_available a s) CAP MockDurableStorage_new"

lemma mock_seam:
  assumes "mock_run CAP log j" "0 < CAP" "length log < 2 ^ 64"
  shows "seam ms_records [] log j"
proof -
  have e: "ms_records s' = ms_records s" if "\<exists>a. s' = set_available a s" for s s'
    using that by (auto simp: set_available_def)
  have n: "ms_records MockDurableStorage_new = []" by (simp add: MockDurableStorage_new_def)
  show ?thesis using mock.journal_seam [OF assms(1,2) e assms(3)] unfolding n .
qed

lemma numbered_stored:
  assumes "numbered log" "i < length log"
  shows "log ! i \<in> set (take d log) \<longleftrightarrow> unat (wr_lsn (log ! i)) \<le> d"
proof
  assume "log ! i \<in> set (take d log)"
  then obtain k where k: "k < d" "k < length log" "log ! k = log ! i" by (auto simp: in_set_conv_nth)
  then have "Suc k = Suc i" using assms unfolding numbered_def by metis
  then show "unat (wr_lsn (log ! i)) \<le> d" using assms k by (simp add: numbered_def)
next
  assume "unat (wr_lsn (log ! i)) \<le> d"
  then have "i < d" using assms by (simp add: numbered_def)
  then show "log ! i \<in> set (take d log)" using assms(2) by (auto simp: in_set_conv_nth intro!: exI [of _ i])
qed

text \<open>
  C4. The journal loses, repeats and reorders nothing. After any appends, flushes and outages the
  records stored and the records in the ring are together the records appended so far, in order and
  numbered from 1, with the durable sequence number at the seam; a record is reported as flushed
  exactly when it is stored. A flush that succeeds stores all of them and returns how many were
  pending, a flush that fails stores a longer prefix and keeps the rest, and with the storage
  reachable no flush fails. An append is refused only for a payload above 128 bytes or a full ring.
\<close>

theorem journal_keeps_log:
  assumes run: "mock_run CAP log j" and cap: "0 < CAP" and len: "length log < 2 ^ 64"
  shows "ms_records (wj_sink j) = take (unat (wj_durable_lsn j)) log
    \<and> ring_contents (wj_ring j) = drop (unat (wj_durable_lsn j)) log
    \<and> (\<forall>i<length log. unat (wr_lsn (log ! i)) = Suc i
         \<and> (is_flushed (wr_lsn (log ! i)) j \<longleftrightarrow> log ! i \<in> set (ms_records (wj_sink j))))
    \<and> (\<forall>j' res. flush_pending mock_write_batch mock_flush j = (j', res) \<longrightarrow>
         (ms_is_available (wj_sink j) \<longrightarrow> (\<exists>n. res = Inr n))
         \<and> (case res of
              Inr n \<Rightarrow> n = pending_records j \<and> ms_records (wj_sink j') = log
            | Inl e \<Rightarrow> ms_records (wj_sink j') @ ring_contents (wj_ring j') = log))
    \<and> (\<forall>tick acc ent opc data j' e. wal_append tick acc ent opc data j = (j', Inl e) \<longrightarrow>
         j' = j \<and> (length data > 128 \<or> pending_records j = rs_cap (wj_ring j)))"
proof (intro conjI allI impI)
  have s: "seam ms_records [] log j" using run cap len by (rule mock_seam)
  show "ms_records (wj_sink j) = take (unat (wj_durable_lsn j)) log"
    and "ring_contents (wj_ring j) = drop (unat (wj_durable_lsn j)) log"
    using s by (simp_all add: seam_def)
  show "unat (wr_lsn (log ! i)) = Suc i" if "i < length log" for i
    using s that by (simp add: seam_def numbered_def)
  show "is_flushed (wr_lsn (log ! i)) j \<longleftrightarrow> log ! i \<in> set (ms_records (wj_sink j))" if "i < length log" for i
    using numbered_stored [OF _ that] s by (simp add: seam_def is_flushed_def word_le_nat_alt)
next
  fix j' res
  assume f: "flush_pending mock_write_batch mock_flush j = (j', res)"
  have s: "seam ms_records [] log j" using run cap len by (rule mock_seam)
  note F = mock.flush_pending_seam [OF f s]
  obtain j1 r1 where l: "flush_loop mock_write_batch 0 j = (j1, r1)" by (rule prod.exhaust)
  show "\<exists>n. res = Inr n" if "ms_is_available (wj_sink j)"
    using flush_loop_available [OF l that] f l by (auto simp: flush_pending_def mock_flush_def split: if_splits)
  show "case res of
      Inr n \<Rightarrow> n = pending_records j \<and> ms_records (wj_sink j') = log
    | Inl e \<Rightarrow> ms_records (wj_sink j') @ ring_contents (wj_ring j') = log"
  proof (cases res)
    case (Inl e)
    then show ?thesis using F by (simp add: seam_def)
  next
    case (Inr n)
    then have "ring_contents (wj_ring j') = []" using F length_ring_contents [of "wj_ring j'"] by (metis length_0_conv)
    then show ?thesis using F Inr by (simp add: seam_def pending_records_def)
  qed
next
  fix tick acc ent opc data j' e
  assume a: "wal_append tick acc ent opc data j = (j', Inl e)"
  have s: "seam ms_records [] log j" using run cap len by (rule mock_seam)
  from append_seam [OF s a] show "j' = j" and "length data > 128 \<or> pending_records j = rs_cap (wj_ring j)"
    by (auto simp: pending_records_def)
qed

text \<open>A journal whose storage became unreachable after one record.\<close>

theorem journal_keeps_log_witness:
  "\<exists>log j. mock_run 4 log j \<and> length log = 1 \<and> \<not> ms_is_available (wj_sink j)
    \<and> ms_records (wj_sink j) @ ring_contents (wj_ring j) = log"
proof -
  let ?j0 = "WriteAheadJournal_new 4 MockDurableStorage_new"
  have r0: "mock_run 4 [] ?j0" by (rule journal_run.opened)
  obtain j1 res where a: "wal_append 1 7 0 OP_CURRENCY_DELTA [9] ?j0 = (j1, res)" by (rule prod.exhaust)
  have "seam ms_records [] [] ?j0" using r0 by (rule mock_seam) simp_all
  from append_seam [OF this a] obtain lsn r where r: "res = Inr lsn" "WalRecord_new lsn 1 7 0 OP_CURRENCY_DELTA [9] = Inr r"
    by (auto simp: WriteAheadJournal_new_def WalRingBuffer_new_def split: sum.splits)
  have r1: "mock_run 4 [r] j1" using journal_run.appended [OF r0 a [unfolded r(1)] r(2)] by simp
  let ?j2 = "j1\<lparr>wj_sink := set_available False (wj_sink j1)\<rparr>"
  have r2: "mock_run 4 [r] ?j2" by (rule journal_run.outside [OF r1]) blast
  have "\<not> ms_is_available (wj_sink ?j2)" by (simp add: set_available_def)
  moreover have "ms_records (wj_sink ?j2) @ ring_contents (wj_ring ?j2) = [r]"
    using journal_keeps_log [OF r2] by simp
  ultimately show ?thesis using r2 by (intro exI [of _ "[r]"] exI [of _ ?j2]) simp
qed

end
