(* ===== verification/DiskJournal.thy ===== *)
theory DiskJournal
  imports Journal
begin

text \<open>
  The journal on disk. From \<^verbatim>\<open>eidolon-world/src/durable_journal.rs\<close>: framed records appended to a
  file and synchronised, and the recovery that reads them back up to the first damage.

  A file is its bytes with the number of them that the last successful sync made durable, and a
  schedule of faults, one entry for each call that writes or syncs and consumed by it: \<open>None\<close> for a
  call that succeeds, \<open>Some n\<close> for one that fails, \<open>write_all\<close> after at most \<open>n\<close> bytes. An empty
  schedule never fails. A crash leaves a prefix of the file that is at least its durable part; that
  the unsynchronised bytes reach the disk in order is a simplification.
\<close>

section \<open>Files\<close>

record JournalFile =
  jf_bytes :: "u8 list"
  jf_synced :: nat
  jf_faults :: "nat option list"

definition write_all :: "u8 list \<Rightarrow> JournalFile \<Rightarrow> JournalFile \<times> bool" where
  "write_all bs f =
     (case jf_faults f of
        Some n # rest \<Rightarrow> (f\<lparr>jf_bytes := jf_bytes f @ take n bs, jf_faults := rest\<rparr>, False)
      | faults \<Rightarrow> (f\<lparr>jf_bytes := jf_bytes f @ bs, jf_faults := tl faults\<rparr>, True))"

definition sync_data :: "JournalFile \<Rightarrow> JournalFile \<times> bool" where
  "sync_data f =
     (case jf_faults f of
        Some n # rest \<Rightarrow> (f\<lparr>jf_faults := rest\<rparr>, False)
      | faults \<Rightarrow> (f\<lparr>jf_synced := length (jf_bytes f), jf_faults := tl faults\<rparr>, True))"

text \<open>What may be left of a file when the machine stops.\<close>

definition crash_image :: "JournalFile \<Rightarrow> u8 list \<Rightarrow> bool" where
  "crash_image f bs \<longleftrightarrow> (\<exists>m. jf_synced f \<le> m \<and> bs = take m (jf_bytes f))"

section \<open>One journal file\<close>

definition JOURNAL_MAGIC :: u32 where
  "JOURNAL_MAGIC = 0xE1D04A52"

datatype CommitDurability = InMemoryBuffered | LocalDiskFsync | DistributedQuorum

datatype io_error = InvalidData WorldError | WriteFailed | TimedOut nat nat

record DurableFileJournal =
  dj_file :: JournalFile
  dj_records_written :: u64
  dj_bytes_written :: u64

definition journal_open :: "JournalFile \<Rightarrow> DurableFileJournal" where
  "journal_open f = \<lparr>dj_file = f, dj_records_written = 0, dj_bytes_written = of_nat (length (jf_bytes f))\<rparr>"

definition RECORD_BUF_LEN :: nat where
  "RECORD_BUF_LEN = WAL_HEADER_LEN + MAX_WAL_PAYLOAD_LEN + 4"

definition frame_header :: "nat \<Rightarrow> u8 list" where
  "frame_header encoded_len = be_bytes 4 (unat JOURNAL_MAGIC) @ be_bytes 4 (unat (of_nat encoded_len :: u32))"

definition append_and_sync :: "WalRecord \<Rightarrow> DurableFileJournal \<Rightarrow> DurableFileJournal \<times> (io_error + nat)" where
  "append_and_sync r j =
     (case WalRecord_encode r (replicate RECORD_BUF_LEN 0) of
        (buf, Inl e) \<Rightarrow> (j, Inl (InvalidData e))
      | (buf, Inr encoded_len) \<Rightarrow>
          (case write_all (frame_header encoded_len) (dj_file j) of
             (f, False) \<Rightarrow> (j\<lparr>dj_file := f\<rparr>, Inl WriteFailed)
           | (f, True) \<Rightarrow>
               (case write_all (take encoded_len buf) f of
                  (f, False) \<Rightarrow> (j\<lparr>dj_file := f\<rparr>, Inl WriteFailed)
                | (f, True) \<Rightarrow>
                    (case sync_data f of
                       (f, False) \<Rightarrow> (j\<lparr>dj_file := f\<rparr>, Inl WriteFailed)
                     | (f, True) \<Rightarrow>
                         (let total_written = 8 + encoded_len
                          in (\<lparr>dj_file = f, dj_records_written = dj_records_written j + 1,
                               dj_bytes_written = dj_bytes_written j + of_nat total_written\<rparr>, Inr total_written))))))"

text \<open>The sink of the write-ahead journal; the buffer is the one the loop reuses.\<close>

primrec write_frames ::
  "WalRecord list \<Rightarrow> u8 list \<Rightarrow> DurableFileJournal \<Rightarrow> DurableFileJournal \<times> (WorldError + unit)"
where
  "write_frames [] buf j = (j, Inr ())"
| "write_frames (r # rs) buf j =
     (case WalRecord_encode r buf of
        (buf, Inl e) \<Rightarrow> (j, Inl e)
      | (buf, Inr encoded_len) \<Rightarrow>
          (case write_all (frame_header encoded_len) (dj_file j) of
             (f, False) \<Rightarrow> (j\<lparr>dj_file := f\<rparr>, Inl WalStorageUnavailable)
           | (f, True) \<Rightarrow>
               (case write_all (take encoded_len buf) f of
                  (f, False) \<Rightarrow> (j\<lparr>dj_file := f\<rparr>, Inl WalStorageUnavailable)
                | (f, True) \<Rightarrow>
                    write_frames rs buf
                      \<lparr>dj_file = f, dj_records_written = dj_records_written j + 1,
                       dj_bytes_written = dj_bytes_written j + of_nat (8 + encoded_len)\<rparr>)))"

definition disk_write_batch :: "WalRecord list \<Rightarrow> DurableFileJournal \<Rightarrow> DurableFileJournal \<times> (WorldError + unit)" where
  "disk_write_batch rs j = write_frames rs (replicate RECORD_BUF_LEN 0) j"

definition disk_flush :: "DurableFileJournal \<Rightarrow> DurableFileJournal \<times> (WorldError + unit)" where
  "disk_flush j =
     (case sync_data (dj_file j) of
        (f, ok) \<Rightarrow> (j\<lparr>dj_file := f\<rparr>, if ok then Inr () else Inl WalStorageUnavailable))"

text \<open>The records from the cursor on; \<open>None\<close> is a file that does not exist.\<close>

function recover_loop :: "u8 list \<Rightarrow> nat \<Rightarrow> WalRecord list" where
  "recover_loop buffer cursor =
     (if \<not> cursor + 8 \<le> length buffer then []
      else if (be_at buffer cursor 4 :: u32) \<noteq> JOURNAL_MAGIC then []
      else
        (let record_len = unat (be_at buffer (cursor + 4) 4 :: u32); start = cursor + 8 in
         if start + record_len > length buffer then []
         else
           (case WalRecord_decode (take record_len (drop start buffer)) of
              Inr (r, consumed) \<Rightarrow> r # recover_loop buffer (start + consumed)
            | Inl e \<Rightarrow> [])))"
  by pat_completeness auto
termination
  by (relation "measure (\<lambda>(buffer, cursor). length buffer - cursor)") auto

declare recover_loop.simps [simp del]

definition recover_from_journal :: "u8 list option \<Rightarrow> WalRecord list" where
  "recover_from_journal file = (case file of None \<Rightarrow> [] | Some buffer \<Rightarrow> recover_loop buffer 0)"

section \<open>Recovery after a crash\<close>

definition frame :: "WalRecord \<Rightarrow> u8 list" where
  "frame r = frame_header (length (wal_bytes r)) @ wal_bytes r"

abbreviation frames :: "WalRecord list \<Rightarrow> u8 list" where
  "frames rs \<equiv> concat (map frame rs)"

lemma length_frame_header [simp]: "length (frame_header n) = 8"
  by (simp add: frame_header_def)

lemma length_frame: "wal_wf r \<Longrightarrow> length (frame r) = 42 + unat (wr_payload_len r)"
  by (simp add: frame_def length_wal_bytes WAL_HEADER_LEN_def)

lemma be_at_append: "be_at (pre @ xs) (length pre + k) n = be_at xs k n"
  by (simp add: be_at_def)

lemma frame_header_at:
  assumes "n < 2 ^ 32"
  shows "be_at (frame_header n @ xs) 0 4 = JOURNAL_MAGIC" and "unat (be_at (frame_header n @ xs) 4 4 :: u32) = n"
proof -
  show "be_at (frame_header n @ xs) 0 4 = JOURNAL_MAGIC"
    by (rule be_at_bytes) (simp_all add: frame_header_def)
  have "(be_at (frame_header n @ xs) 4 4 :: u32) = of_nat n"
    by (rule be_at_bytes) (simp_all add: frame_header_def)
  then show "unat (be_at (frame_header n @ xs) 4 4 :: u32) = n" using assms by (simp add: unat_of_nat)
qed

lemma length_wal_bytes_less: "wal_wf r \<Longrightarrow> length (wal_bytes r) < 2 ^ 32"
  by (simp add: length_wal_bytes WAL_HEADER_LEN_def wal_wf_def MAX_WAL_PAYLOAD_LEN_def)

text \<open>One step over a whole frame, and the end at a torn one.\<close>

lemma recover_frame:
  assumes wf: "wal_wf r"
  shows "recover_loop (pre @ frame r @ rest) (length pre)
    = r # recover_loop (pre @ frame r @ rest) (length pre + length (frame r))"
proof -
  let ?buf = "pre @ frame r @ rest" and ?n = "length (wal_bytes r)"
  have m: "(be_at ?buf (length pre) 4 :: u32) = JOURNAL_MAGIC"
    using be_at_append [of pre "frame r @ rest" 0 4, where 'a = 32] frame_header_at(1) [OF length_wal_bytes_less [OF wf], of "wal_bytes r @ rest"]
    by (simp add: frame_def)
  have l: "unat (be_at ?buf (length pre + 4) 4 :: u32) = ?n"
    using be_at_append [of pre "frame r @ rest" 4 4, where 'a = 32] frame_header_at(2) [OF length_wal_bytes_less [OF wf], of "wal_bytes r @ rest"]
    by (simp add: frame_def)
  have d: "WalRecord_decode (take ?n (drop (length pre + 8) ?buf)) = Inr (r, ?n)"
    by (simp add: frame_def decode_iff wf)
  have room: "length pre + 8 + ?n \<le> length ?buf" by (simp add: frame_def)
  have "recover_loop ?buf (length pre) = r # recover_loop ?buf (length pre + 8 + ?n)"
    by (subst recover_loop.simps) (use m l d room in \<open>simp add: Let_def\<close>)
  then show ?thesis by (simp add: frame_def add.assoc)
qed

lemma recover_torn:
  assumes wf: "wal_wf r" and n: "n < length (frame r)"
  shows "recover_loop (pre @ take n (frame r)) (length pre) = []"
proof (cases "n < 8")
  case True
  then show ?thesis using n by (subst recover_loop.simps) simp
next
  case False
  have t: "take n (frame r) = frame_header (length (wal_bytes r)) @ take (n - 8) (wal_bytes r)"
    using False by (simp add: frame_def)
  have l: "unat (be_at (pre @ take n (frame r)) (length pre + 4) 4 :: u32) = length (wal_bytes r)"
    unfolding be_at_append t by (rule frame_header_at(2) [OF length_wal_bytes_less [OF wf]])
  have "length (pre @ take n (frame r)) < length pre + 8 + length (wal_bytes r)"
    using n by (simp add: frame_def)
  then show ?thesis unfolding recover_loop.simps [of _ "length pre"] Let_def l by (simp only: if_True if_cancel)
qed

lemma recover_frames:
  "\<forall>r\<in>set rs. wal_wf r \<Longrightarrow>
    recover_loop (pre @ frames rs @ tail) (length pre) = rs @ recover_loop (pre @ frames rs @ tail) (length pre + length (frames rs))"
proof (induction rs arbitrary: pre)
  case Nil
  then show ?case by simp
next
  case (Cons r rs)
  let ?buf = "pre @ frames (r # rs) @ tail"
  have "recover_loop ?buf (length pre) = r # recover_loop ?buf (length pre + length (frame r))"
    using recover_frame [of r pre "frames rs @ tail"] Cons.prems by simp
  moreover have "recover_loop ?buf (length pre + length (frame r))
      = rs @ recover_loop ?buf (length pre + length (frame r) + length (frames rs))"
    using Cons.IH [of "pre @ frame r"] Cons.prems by simp
  ultimately show ?case by (simp add: add.assoc)
qed

lemma recover_prefix:
  assumes "\<forall>r\<in>set rs. wal_wf r" and "wal_wf r"
  shows "recover_loop (frames rs @ take n (frame r)) 0 = (if n < length (frame r) then rs else rs @ [r])"
proof (cases "n < length (frame r)")
  case True
  then show ?thesis
    using recover_frames [OF assms(1), of "[]" "take n (frame r)"] recover_torn [OF assms(2) True, of "frames rs"] by simp
next
  case False
  have "\<forall>x\<in>set (rs @ [r]). wal_wf x" using assms by auto
  from recover_frames [OF this, of "[]" "[]"] have "recover_loop (frames (rs @ [r])) 0 = (rs @ [r]) @ recover_loop (frames (rs @ [r])) (length (frames (rs @ [r])))"
    by simp
  also have "recover_loop (frames (rs @ [r])) (length (frames (rs @ [r]))) = []" by (subst recover_loop.simps) simp
  finally show ?thesis using False by simp
qed

text \<open>What the two writers leave in the file.\<close>

lemma write_all_synced: "write_all bs f = (f', ok) \<Longrightarrow> jf_synced f' = jf_synced f"
  by (auto simp: write_all_def split: list.splits option.splits)

lemma sync_data_synced: "sync_data f = (f', ok) \<Longrightarrow> jf_synced f' = (if ok then length (jf_bytes f) else jf_synced f)"
  by (auto simp: sync_data_def split: list.splits option.splits)

lemma write_all_bytes:
  assumes "write_all bs f = (f', ok)"
  shows "\<exists>n. jf_bytes f' = jf_bytes f @ take n bs \<and> (ok \<longrightarrow> n = length bs)"
proof (cases ok)
  case True
  then show ?thesis using assms
    by (intro exI [of _ "length bs"]) (auto simp: write_all_def split: list.splits option.splits)
next
  case False
  then show ?thesis using assms by (auto simp: write_all_def split: list.splits option.splits)
qed

lemma sync_data_bytes: "sync_data f = (f', ok) \<Longrightarrow> jf_bytes f' = jf_bytes f"
  by (auto simp: sync_data_def split: list.splits option.splits)

lemma encode_in_record_buf:
  assumes "wal_wf r" and "length buf = RECORD_BUF_LEN"
  shows "\<exists>buf'. WalRecord_encode r buf = (buf', Inr (length (wal_bytes r))) \<and> take (length (wal_bytes r)) buf' = wal_bytes r
    \<and> length buf' = RECORD_BUF_LEN"
proof -
  have "length (wal_bytes r) \<le> RECORD_BUF_LEN"
    using assms(1) by (simp add: length_wal_bytes RECORD_BUF_LEN_def wal_wf_def)
  then show ?thesis using assms by (simp add: encode_wf)
qed

lemma write_frame_bytes:
  assumes h: "write_all (frame_header (length (wal_bytes r))) f = (f1, ok1)"
    and b: "ok1 \<Longrightarrow> write_all (wal_bytes r) f1 = (f2, ok2)"
  shows "\<exists>n. jf_bytes (if ok1 then f2 else f1) = jf_bytes f @ take n (frame r) \<and> (ok1 \<and> ok2 \<longrightarrow> n = length (frame r))"
proof (cases ok1)
  case True
  obtain n where n: "jf_bytes f2 = jf_bytes f1 @ take n (wal_bytes r)" "ok2 \<longrightarrow> n = length (wal_bytes r)"
    using write_all_bytes [OF b [OF True]] by blast
  moreover have "jf_bytes f1 = jf_bytes f @ frame_header (length (wal_bytes r))"
    using write_all_bytes [OF h] True by auto
  ultimately show ?thesis using True by (intro exI [of _ "8 + n"]) (simp add: frame_def)
next
  case False
  obtain n where "jf_bytes f1 = jf_bytes f @ take n (frame_header (length (wal_bytes r)))"
    using write_all_bytes [OF h] by blast
  then show ?thesis using False by (intro exI [of _ "min n 8"]) (simp add: frame_def min_def)
qed

lemma append_and_sync_bytes:
  assumes wf: "wal_wf r" and a: "append_and_sync r j = (j', res)"
  shows "\<exists>n. jf_bytes (dj_file j') = jf_bytes (dj_file j) @ take n (frame r)
    \<and> (\<forall>k. res = Inr k \<longrightarrow> n = length (frame r) \<and> k = length (frame r))
    \<and> jf_synced (dj_file j') = (if isl res then jf_synced (dj_file j) else length (jf_bytes (dj_file j')))"
proof -
  obtain buf where e: "WalRecord_encode r (replicate RECORD_BUF_LEN 0) = (buf, Inr (length (wal_bytes r)))"
    "take (length (wal_bytes r)) buf = wal_bytes r"
    using encode_in_record_buf [OF wf, of "replicate RECORD_BUF_LEN 0"] by auto
  obtain f1 ok1 where h: "write_all (frame_header (length (wal_bytes r))) (dj_file j) = (f1, ok1)" by (rule prod.exhaust)
  obtain f2 ok2 where b: "write_all (wal_bytes r) f1 = (f2, ok2)" by (rule prod.exhaust)
  obtain f3 ok3 where y: "sync_data f2 = (f3, ok3)" by (rule prod.exhaust)
  obtain n where n: "jf_bytes (if ok1 then f2 else f1) = jf_bytes (dj_file j) @ take n (frame r)"
    "ok1 \<and> ok2 \<longrightarrow> n = length (frame r)"
    using write_frame_bytes [OF h b] by blast
  have "8 + length (wal_bytes r) = length (frame r)" by (simp add: frame_def)
  then have "jf_bytes (dj_file j') = jf_bytes (dj_file j) @ take n (frame r)
      \<and> (\<forall>k. res = Inr k \<longrightarrow> n = length (frame r) \<and> k = length (frame r))
      \<and> jf_synced (dj_file j') = (if isl res then jf_synced (dj_file j) else length (jf_bytes (dj_file j')))"
    using a e h b y n sync_data_bytes [OF y] sync_data_synced [OF y] write_all_synced [OF h] write_all_synced [OF b]
    by (cases ok1; cases ok2; cases ok3) (auto simp: append_and_sync_def)
  then show ?thesis by (rule exI)
qed

lemma write_frames_bytes:
  "\<forall>r\<in>set rs. wal_wf r \<Longrightarrow> length buf = RECORD_BUF_LEN \<Longrightarrow> write_frames rs buf j = (j', res) \<Longrightarrow>
    \<exists>n. jf_bytes (dj_file j') = jf_bytes (dj_file j) @ take n (frames rs) \<and> (res = Inr () \<longrightarrow> n = length (frames rs))
      \<and> jf_synced (dj_file j') = jf_synced (dj_file j)"
proof (induction rs arbitrary: buf j)
  case Nil
  then show ?case by simp
next
  case (Cons r rs)
  have wf: "wal_wf r" using Cons.prems by simp
  obtain buf' where e: "WalRecord_encode r buf = (buf', Inr (length (wal_bytes r)))"
    "take (length (wal_bytes r)) buf' = wal_bytes r" "length buf' = RECORD_BUF_LEN"
    using encode_in_record_buf [OF wf Cons.prems(2)] by auto
  obtain f1 ok1 where h: "write_all (frame_header (length (wal_bytes r))) (dj_file j) = (f1, ok1)" by (rule prod.exhaust)
  obtain f2 ok2 where b: "write_all (wal_bytes r) f1 = (f2, ok2)" by (rule prod.exhaust)
  obtain n where n: "jf_bytes (if ok1 then f2 else f1) = jf_bytes (dj_file j) @ take n (frame r)"
    "ok1 \<and> ok2 \<longrightarrow> n = length (frame r)"
    using write_frame_bytes [OF h b] by blast
  show ?case
  proof (cases "ok1 \<and> ok2")
    case True
    let ?j = "\<lparr>dj_file = f2, dj_records_written = dj_records_written j + 1,
      dj_bytes_written = dj_bytes_written j + of_nat (8 + length (wal_bytes r))\<rparr>"
    have "write_frames rs buf' ?j = (j', res)" using Cons.prems(3) e h b True by simp
    from Cons.IH [OF _ e(3) this] Cons.prems(1)
    obtain m where m: "jf_bytes (dj_file j') = jf_bytes f2 @ take m (frames rs)" "res = Inr () \<longrightarrow> m = length (frames rs)"
      "jf_synced (dj_file j') = jf_synced f2"
      by auto
    have "jf_bytes f2 = jf_bytes (dj_file j) @ frame r" "jf_synced f2 = jf_synced (dj_file j)"
      using n True write_all_synced [OF h] write_all_synced [OF b] by simp_all
    with m show ?thesis by (intro exI [of _ "length (frame r) + m"]) simp
  next
    case False
    then have "jf_bytes (dj_file j') = jf_bytes (if ok1 then f2 else f1)" "res \<noteq> Inr ()"
        "jf_synced (dj_file j') = jf_synced (dj_file j)"
      using Cons.prems(3) e h b write_all_synced [OF h] write_all_synced [OF b] by (cases ok1; cases ok2; auto)+
    then show ?thesis using n(1) by (intro exI [of _ "min n (length (frame r))"]) (simp add: min_def)
  qed
qed

lemma length_frames_take: "length (frames (take d rs)) \<le> length (frames rs)"
  by (metis append_take_drop_id concat_append le_add1 length_append map_append)

lemma recover_cut_batch:
  assumes "\<forall>r\<in>set rs. wal_wf r" and "\<forall>r\<in>set batch. wal_wf r"
  shows "\<exists>k. recover_loop (frames rs @ take n (frames batch)) 0 = rs @ take k batch"
  using assms
proof (induction batch arbitrary: rs n)
  case Nil
  then show ?case using recover_frames [OF Nil(1), of "[]" "[]"] by (simp add: recover_loop.simps [of _ "length _"])
next
  case (Cons r batch)
  show ?case
  proof (cases "n < length (frame r)")
    case True
    then have "take n (frames (r # batch)) = take n (frame r)" by simp
    then show ?thesis using recover_prefix [of rs r n] Cons.prems True by (intro exI [of _ 0]) simp
  next
    case False
    then have "frames rs @ take n (frames (r # batch)) = frames (rs @ [r]) @ take (n - length (frame r)) (frames batch)" by simp
    moreover obtain k where "recover_loop (frames (rs @ [r]) @ take (n - length (frame r)) (frames batch)) 0 = (rs @ [r]) @ take k batch"
      using Cons.IH [of "rs @ [r]" "n - length (frame r)"] Cons.prems by auto
    ultimately show ?thesis by (intro exI [of _ "Suc k"]) simp
  qed
qed

text \<open>A crash of a file that holds the first bytes of some frames, the first \<open>d\<close> of them durable.\<close>

lemma recover_crash:
  assumes wf: "\<forall>r\<in>set log. wal_wf r" and bytes: "jf_bytes f = take n (frames log)"
    and d: "length (frames (take d log)) \<le> jf_synced f" "length (frames (take d log)) \<le> n" and c: "crash_image f bs"
  shows "\<exists>k\<ge>min d (length log). recover_from_journal (Some bs) = take k log"
proof -
  obtain m where m: "jf_synced f \<le> m" "bs = take m (jf_bytes f)" using c by (auto simp: crash_image_def)
  let ?done = "take d log" and ?rest = "drop d log"
  have bs: "bs = take (min m n) (frames (?done @ ?rest))" unfolding m(2) bytes by simp
  have "bs = frames ?done @ take (min m n - length (frames ?done)) (frames ?rest)"
    unfolding bs map_append concat_append using d m(1) by simp
  moreover have "\<forall>r\<in>set ?done. wal_wf r" "\<forall>r\<in>set ?rest. wal_wf r" using wf by (auto dest: in_set_takeD in_set_dropD)
  ultimately obtain k where "recover_loop bs 0 = ?done @ take k ?rest" using recover_cut_batch by metis
  moreover have "?done @ take k ?rest = take (d + k) log" by (simp add: take_add)
  ultimately show ?thesis by (intro exI [of _ "d + k"]) (simp add: recover_from_journal_def)
qed

text \<open>
  The life of a journal from its opening on a file of whole frames, as long as no failed call leaves
  a torn frame: the records in the file, how many of them a successful sync made durable, and the
  journal.
\<close>

inductive disk_run :: "WalRecord list \<Rightarrow> nat \<Rightarrow> DurableFileJournal \<Rightarrow> bool" where
  opened: "\<forall>r\<in>set rs. wal_wf r \<Longrightarrow>
    disk_run rs (length rs) (journal_open \<lparr>jf_bytes = frames rs, jf_synced = length (frames rs), jf_faults = faults\<rparr>)"
| appended: "disk_run rs d j \<Longrightarrow> wal_wf r \<Longrightarrow> append_and_sync r j = (j', Inr n) \<Longrightarrow> disk_run (rs @ [r]) (length (rs @ [r])) j'"
| wrote: "disk_run rs d j \<Longrightarrow> \<forall>r\<in>set batch. wal_wf r \<Longrightarrow> disk_write_batch batch j = (j', Inr ()) \<Longrightarrow> disk_run (rs @ batch) d j'"
| append_failed: "disk_run rs d j \<Longrightarrow> wal_wf r \<Longrightarrow> append_and_sync r j = (j', Inl e) \<Longrightarrow>
    jf_bytes (dj_file j') = frames (rs @ take k [r]) \<Longrightarrow> disk_run (rs @ take k [r]) d j'"
| write_failed: "disk_run rs d j \<Longrightarrow> \<forall>r\<in>set batch. wal_wf r \<Longrightarrow> disk_write_batch batch j = (j', Inl e) \<Longrightarrow>
    jf_bytes (dj_file j') = frames (rs @ take k batch) \<Longrightarrow> disk_run (rs @ take k batch) d j'"
| flushed: "disk_run rs d j \<Longrightarrow> disk_flush j = (j', Inr ()) \<Longrightarrow> disk_run rs (length rs) j'"
| flush_failed: "disk_run rs d j \<Longrightarrow> disk_flush j = (j', Inl e) \<Longrightarrow> disk_run rs d j'"

lemma disk_flush_file:
  "disk_flush j = (j', res) \<Longrightarrow> jf_bytes (dj_file j') = jf_bytes (dj_file j)
    \<and> jf_synced (dj_file j') = (if isl res then jf_synced (dj_file j) else length (jf_bytes (dj_file j)))"
  by (auto simp: disk_flush_def dest: sync_data_bytes sync_data_synced split: prod.splits if_splits)

lemma disk_run_file:
  "disk_run log d j \<Longrightarrow> (\<forall>r\<in>set log. wal_wf r) \<and> jf_bytes (dj_file j) = frames log \<and> d \<le> length log
    \<and> length (frames (take d log)) \<le> jf_synced (dj_file j)"
proof (induction rule: disk_run.induct)
  case (opened rs faults)
  then show ?case by (simp add: journal_open_def)
next
  case (appended rs d j r j' n)
  then show ?case using append_and_sync_bytes [OF appended.hyps(2,3)] by auto
next
  case (wrote rs d j batch j')
  then show ?case using write_frames_bytes [OF wrote.hyps(2) _ wrote.hyps(3) [unfolded disk_write_batch_def]] by auto
next
  case (append_failed rs d j r j' e k)
  then show ?case using append_and_sync_bytes [OF append_failed.hyps(2,3)] by (auto dest: in_set_takeD)
next
  case (write_failed rs d j batch j' e k)
  then show ?case using write_frames_bytes [OF write_failed.hyps(2) _ write_failed.hyps(3) [unfolded disk_write_batch_def]]
    by (auto dest: in_set_takeD)
next
  case (flushed rs d j j')
  then show ?case using disk_flush_file [OF flushed.hyps(2)] by simp
next
  case (flush_failed rs d j j' e)
  then show ?case using disk_flush_file [OF flush_failed.hyps(2)] by simp
qed

text \<open>
  C15. The disk journal survives a crash at any point. Take a journal opened on a file of whole
  frames in which no failed call has left a torn frame since, and let one more append or batch be
  under way, which may fail in any of its writes and syncs. If the machine stops then, with any part of the
  bytes on disk that includes what the last successful sync covered, the recovery returns the
  records in order up to some point, at least all that were durable; after an append that reported
  success that is every record, the new one included. Without a crash a successful call leaves all
  records in the file. The theorem does not cover calls after a write that failed inside a frame,
  nor a file opened with such a frame: what they append behind it is lost
  (\<open>torn_tail_hides_later_records\<close>).
\<close>

theorem disk_journal_recovers:
  assumes run: "disk_run log d j"
  shows "(\<forall>bs. crash_image (dj_file j) bs \<longrightarrow> (\<exists>k\<ge>d. recover_from_journal (Some bs) = take k log))
    \<and> (\<forall>r j' res. wal_wf r \<and> append_and_sync r j = (j', res) \<longrightarrow>
        (\<forall>bs. crash_image (dj_file j') bs \<longrightarrow>
          (\<exists>k\<ge>(if isl res then d else length (log @ [r])). recover_from_journal (Some bs) = take k (log @ [r])))
        \<and> (\<forall>n. res = Inr n \<longrightarrow> n = length (frame r) \<and> jf_bytes (dj_file j') = frames (log @ [r])))
    \<and> (\<forall>batch j' res. (\<forall>r\<in>set batch. wal_wf r) \<and> disk_write_batch batch j = (j', res) \<longrightarrow>
        (\<forall>bs. crash_image (dj_file j') bs \<longrightarrow> (\<exists>k\<ge>d. recover_from_journal (Some bs) = take k (log @ batch)))
        \<and> (res = Inr () \<longrightarrow> recover_from_journal (Some (jf_bytes (dj_file j'))) = log @ batch
             \<and> jf_bytes (dj_file j') = frames (log @ batch)))"
proof (intro conjI allI impI; (elim conjE)?)
  note F = disk_run_file [OF run]
  show "\<exists>k\<ge>d. recover_from_journal (Some bs) = take k log" if "crash_image (dj_file j) bs" for bs
    using recover_crash [of log "dj_file j" "length (frames log)" d bs] F that
    by (auto simp: min_absorb1 length_frames_take)
next
  note F = disk_run_file [OF run]
  fix r j' res
  assume wf: "wal_wf r" and a: "append_and_sync r j = (j', res)"
  obtain n where n: "jf_bytes (dj_file j') = frames log @ take n (frame r)"
    "\<forall>k. res = Inr k \<longrightarrow> n = length (frame r) \<and> k = length (frame r)"
    "jf_synced (dj_file j') = (if isl res then jf_synced (dj_file j) else length (jf_bytes (dj_file j')))"
    using append_and_sync_bytes [OF wf a] F by auto
  show "k = length (frame r)" "jf_bytes (dj_file j') = frames (log @ [r])" if "res = Inr k" for k
    using n that by simp_all
  fix bs assume c: "crash_image (dj_file j') bs"
  let ?d = "if isl res then d else length (log @ [r])"
  have "jf_bytes (dj_file j') = take (length (frames log) + n) (frames (log @ [r]))" using n(1) by simp
  moreover have "length (frames (take ?d (log @ [r]))) \<le> jf_synced (dj_file j')"
      "length (frames (take ?d (log @ [r]))) \<le> length (frames log) + n"
    using n F length_frames_take [of d log] by (cases res; auto)+
  moreover have "\<forall>x\<in>set (log @ [r]). wal_wf x" using F wf by auto
  ultimately obtain k where "k \<ge> min ?d (length (log @ [r]))" "recover_from_journal (Some bs) = take k (log @ [r])"
    using recover_crash [OF _ _ _ _ c] by blast
  then show "\<exists>k\<ge>?d. recover_from_journal (Some bs) = take k (log @ [r])" using F by (intro exI [of _ k]) auto
next
  note F = disk_run_file [OF run]
  fix batch j' res
  assume wf: "\<forall>r\<in>set batch. wal_wf r" and b: "disk_write_batch batch j = (j', res)"
  obtain n where n: "jf_bytes (dj_file j') = frames log @ take n (frames batch)" "res = Inr () \<longrightarrow> n = length (frames batch)"
    "jf_synced (dj_file j') = jf_synced (dj_file j)"
    using write_frames_bytes [OF wf _ b [unfolded disk_write_batch_def]] F by auto
  have all: "\<forall>x\<in>set (log @ batch). wal_wf x" using F wf by auto
  show "jf_bytes (dj_file j') = frames (log @ batch)" if "res = Inr ()" using n that by simp
  then show "recover_from_journal (Some (jf_bytes (dj_file j'))) = log @ batch" if "res = Inr ()"
    using recover_frames [OF all, of "[]" "[]"] that
    by (simp add: recover_from_journal_def recover_loop.simps [of _ "_ + _"])
  fix bs assume c: "crash_image (dj_file j') bs"
  have "jf_bytes (dj_file j') = take (length (frames log) + n) (frames (log @ batch))" using n(1) by simp
  moreover have "length (frames (take d (log @ batch))) \<le> jf_synced (dj_file j')"
      "length (frames (take d (log @ batch))) \<le> length (frames log) + n"
    using n F length_frames_take [of d log] by auto
  ultimately obtain k where "k \<ge> min d (length (log @ batch))" "recover_from_journal (Some bs) = take k (log @ batch)"
    using recover_crash [OF all _ _ _ c] by blast
  then show "\<exists>k\<ge>d. recover_from_journal (Some bs) = take k (log @ batch)" using F by (intro exI [of _ k]) auto
qed

text \<open>
  A file that ends in a torn frame header hides everything appended behind it: reopening does not
  cut the tail, and the recovery stops there. The length of the file only has to stay below the
  number the magic of the next frame is taken for.
\<close>

lemma torn_tail_hides_later_records:
  assumes wf: "\<forall>r\<in>set rs. wal_wf r" and next_frame: "take 4 later = take 4 (frame r)"
    and l: "length later < unat JOURNAL_MAGIC"
  shows "recover_loop (frames rs @ take 4 (frame r) @ later) 0 = rs"
proof -
  let ?buf = "frames rs @ take 4 (frame r) @ later"
  have m: "take 4 (frame r) = be_bytes 4 (unat JOURNAL_MAGIC)" by (simp add: frame_def frame_header_def)
  have "(be_at ?buf (length (frames rs) + 4) 4 :: u32) = JOURNAL_MAGIC"
    unfolding be_at_append by (rule be_at_bytes) (simp_all add: next_frame m)
  then have "recover_loop ?buf (length (frames rs)) = []"
    using l by (subst recover_loop.simps) (simp add: m)
  then show ?thesis using recover_frames [OF wf, of "[]" "take 4 (frame r) @ later"] by simp
qed

text \<open>An append that fails in the middle of the record.\<close>

theorem disk_journal_recovers_witness:
  "\<exists>r j' res. wal_wf r
    \<and> append_and_sync r (journal_open \<lparr>jf_bytes = [], jf_synced = 0, jf_faults = [None, Some 5]\<rparr>) = (j', res)
    \<and> res = Inl WriteFailed \<and> (\<exists>k. recover_from_journal (Some (take 13 (jf_bytes (dj_file j')))) = take k [r])"
proof -
  let ?j = "journal_open \<lparr>jf_bytes = [], jf_synced = 0, jf_faults = [None, Some 5]\<rparr>"
  have run: "disk_run [] 0 ?j" using disk_run.opened [of "[]"] by simp
  obtain r where "WalRecord_new 1 0 7 0 OP_CURRENCY_DELTA [9] = Inr r"
    by (simp add: WalRecord_new_def MAX_WAL_PAYLOAD_LEN_def Let_def)
  then have wf: "wal_wf r" using WalRecord_new_wf by blast
  obtain buf where e: "WalRecord_encode r (replicate RECORD_BUF_LEN 0) = (buf, Inr (length (wal_bytes r)))"
    using encode_in_record_buf [OF wf, of "replicate RECORD_BUF_LEN 0"] by auto
  obtain j' res where a: "append_and_sync r ?j = (j', res)" by (rule prod.exhaust)
  then have res: "res = Inl WriteFailed" "jf_synced (dj_file j') = 0"
    by (auto simp: append_and_sync_def e write_all_def journal_open_def)
  then have "crash_image (dj_file j') (take 13 (jf_bytes (dj_file j')))" by (auto simp: crash_image_def)
  then have "\<exists>k. recover_from_journal (Some (take 13 (jf_bytes (dj_file j')))) = take k ([] @ [r])"
    using disk_journal_recovers [OF run] wf a by blast
  then show ?thesis using wf a res(1) by auto
qed

end
