(* ===== verification/QuorumJournal.thy ===== *)
theory QuorumJournal
  imports DiskJournal "HOL-Library.AList"
begin

text \<open>
  The replicated journal of \<^verbatim>\<open>eidolon-world/src/replicated_journal.rs\<close>: a record is appended to a
  primary file and to the replicas, an acknowledgement is required of a quorum, and the recovery
  keeps the records that enough files hold. The map from sequence numbers to a record and its
  acknowledgements is an association list; only its sorted keys are iterated over.
\<close>

datatype ReplicationMode =
    LocalOnly
  | SynchronousQuorum (total_nodes: nat) (required_acks: nat)
  | AsynchronousMirror

record ReplicatedJournalSink =
  rj_primary :: DurableFileJournal
  rj_replicas :: "DurableFileJournal list"
  rj_mode :: ReplicationMode
  rj_records_replicated :: u64
  rj_bytes_replicated :: u64
  rj_quorum_successes :: u64
  rj_quorum_failures :: u64



definition set_mode :: "ReplicationMode \<Rightarrow> ReplicatedJournalSink \<Rightarrow> ReplicatedJournalSink" where
  "set_mode mode s = s\<lparr>rj_mode := mode\<rparr>"




section \<open>Recovery\<close>

type_synonym ack_map = "(u64 \<times> WalRecord \<times> nat) list"

definition count_ack :: "ack_map \<Rightarrow> WalRecord \<Rightarrow> ack_map" where
  "count_ack m r =
     (case map_of m (wr_lsn r) of
        None \<Rightarrow> AList.update (wr_lsn r) (r, 1) m
      | Some (r0, acks) \<Rightarrow> AList.update (wr_lsn r) (r0, acks + 1) m)"

definition ack_map_of :: "u8 list option list \<Rightarrow> ack_map" where
  "ack_map_of files = foldl (\<lambda>m file. foldl count_ack m (recover_from_journal file)) [] files"

primrec commit_scan :: "ack_map \<Rightarrow> nat \<Rightarrow> u64 list \<Rightarrow> u64 \<Rightarrow> WalRecord list" where
  "commit_scan m required [] expected_lsn = []"
| "commit_scan m required (lsn # lsns) expected_lsn =
     (case map_of m lsn of
        None \<Rightarrow> commit_scan m required lsns expected_lsn
      | Some (r, acks) \<Rightarrow>
          if acks \<ge> required
          then if lsn = expected_lsn then r # commit_scan m required lsns (expected_lsn + 1)
               else if lsn < expected_lsn then commit_scan m required lsns expected_lsn
               else []
          else commit_scan m required lsns expected_lsn)"

definition recover_quorum :: "u8 list option list \<Rightarrow> nat \<Rightarrow> WalRecord list" where
  "recover_quorum files required =
     (if files = [] \<or> required = 0 then []
      else (let m = ack_map_of files in commit_scan m required (sort (map fst m)) 1))"

section \<open>What the recovery commits\<close>





























text \<open>
  The recovery counts records and not nodes: two copies of a record in one file, as an append
  leaves them that is repeated after a failed sync, pass for two acknowledgements.
\<close>

lemma recovery_counts_copies:
  assumes wf: "wal_wf r" and lsn: "wr_lsn r = 1"
  shows "recover_quorum [Some (frames [r, r]), None] 2 = [r]"
proof -
  have "recover_from_journal (Some (frames [r, r])) = [r, r]"
    using recover_frames [of "[r, r]" "[]" "[]"] wf
    by (simp add: recover_from_journal_def recover_loop.simps [of _ "length _ + _"])
  then show ?thesis using lsn
    by (simp add: recover_quorum_def ack_map_of_def recover_from_journal_def count_ack_def Let_def)
qed

end
