(* ===== verification/Items.thy ===== *)
theory Items
  imports WorldErrors
begin

text \<open>
  Items and equipment: the blueprints, equipment slots and stat blocks of
  \<^verbatim>\<open>eidolon-core/src/item.rs\<close> and the worn gear of \<^verbatim>\<open>eidolon-world/src/equipment.rs\<close>.
\<close>

definition NUM_EQUIPMENT_SLOTS :: nat where
  "NUM_EQUIPMENT_SLOTS = 9"

datatype EquipmentSlot = Head | Chest | MainHand | OffHand | Legs | Feet | Ring1 | Ring2 | Amulet

definition EquipmentSlot_from_u8 :: "u8 \<Rightarrow> EquipmentSlot option" where
  "EquipmentSlot_from_u8 val =
     (if val = 0 then Some Head else if val = 1 then Some Chest else if val = 2 then Some MainHand
      else if val = 3 then Some OffHand else if val = 4 then Some Legs else if val = 5 then Some Feet
      else if val = 6 then Some Ring1 else if val = 7 then Some Ring2 else if val = 8 then Some Amulet
      else None)"

fun EquipmentSlot_as_u8 :: "EquipmentSlot \<Rightarrow> u8" where
  "EquipmentSlot_as_u8 Head = 0"
| "EquipmentSlot_as_u8 Chest = 1"
| "EquipmentSlot_as_u8 MainHand = 2"
| "EquipmentSlot_as_u8 OffHand = 3"
| "EquipmentSlot_as_u8 Legs = 4"
| "EquipmentSlot_as_u8 Feet = 5"
| "EquipmentSlot_as_u8 Ring1 = 6"
| "EquipmentSlot_as_u8 Ring2 = 7"
| "EquipmentSlot_as_u8 Amulet = 8"

record StatBlock =
  sb_health_bonus :: u32
  sb_mana_bonus :: u32
  sb_attack_power :: u32
  sb_armor :: u32
  sb_speed_bonus :: i32

definition stat_block :: "u32 \<Rightarrow> u32 \<Rightarrow> u32 \<Rightarrow> u32 \<Rightarrow> i32 \<Rightarrow> StatBlock" where
  "stat_block health mana attack armor speed =
     \<lparr>sb_health_bonus = health, sb_mana_bonus = mana, sb_attack_power = attack, sb_armor = armor,
      sb_speed_bonus = speed\<rparr>"

definition StatBlock_ZERO :: StatBlock where
  "StatBlock_ZERO = stat_block 0 0 0 0 0"

definition StatBlock_saturating_add :: "StatBlock \<Rightarrow> StatBlock \<Rightarrow> StatBlock" where
  "StatBlock_saturating_add a b =
     stat_block (saturating_add (sb_health_bonus a) (sb_health_bonus b))
       (saturating_add (sb_mana_bonus a) (sb_mana_bonus b))
       (saturating_add (sb_attack_power a) (sb_attack_power b))
       (saturating_add (sb_armor a) (sb_armor b))
       (of_int_sat (sint (sb_speed_bonus a) + sint (sb_speed_bonus b)))"

record ItemDefinition =
  id_item_id :: u32
  id_name :: string
  id_equip_slot :: "EquipmentSlot option"
  id_stack_limit :: u32
  id_stats :: StatBlock
  id_required_level :: u32

definition item_def :: "u32 \<Rightarrow> string \<Rightarrow> EquipmentSlot option \<Rightarrow> u32 \<Rightarrow> StatBlock \<Rightarrow> ItemDefinition" where
  "item_def item_id name equip_slot stack_limit stats =
     \<lparr>id_item_id = item_id, id_name = name, id_equip_slot = equip_slot, id_stack_limit = stack_limit,
      id_stats = stats, id_required_level = 1\<rparr>"

definition get_item_definition :: "u32 \<Rightarrow> ItemDefinition option" where
  "get_item_definition item_id =
     (if item_id = 1001 then Some (item_def 1001 ''Steel Longsword'' (Some MainHand) 1 (stat_block 0 0 25 0 0))
      else if item_id = 1002 then Some (item_def 1002 ''Iron Kite Shield'' (Some OffHand) 1 (stat_block 50 0 0 30 (- 5)))
      else if item_id = 2001 then Some (item_def 2001 ''Knight's Great Helm'' (Some Head) 1 (stat_block 40 0 0 20 0))
      else if item_id = 2002 then Some (item_def 2002 ''Paladin's Plate Cuirass'' (Some Chest) 1 (stat_block 100 20 5 50 0))
      else if item_id = 2003 then Some (item_def 2003 ''Reinforced Greaves'' (Some Legs) 1 (stat_block 35 0 0 25 0))
      else if item_id = 2004 then Some (item_def 2004 ''Boots of Swiftness'' (Some Feet) 1 (stat_block 15 0 0 10 15))
      else if item_id = 3001 then Some (item_def 3001 ''Ring of Greater Power'' (Some Ring1) 1 (stat_block 10 25 15 0 0))
      else if item_id = 3002 then Some (item_def 3002 ''Amulet of Vitality'' (Some Amulet) 1 (stat_block 80 10 0 5 0))
      else if item_id = 4001 then Some (item_def 4001 ''Greater Health Potion'' None 20 StatBlock_ZERO)
      else if item_id = 4002 then Some (item_def 4002 ''Greater Mana Potion'' None 20 StatBlock_ZERO)
      else None)"

section \<open>Worn gear\<close>

type_synonym EquipmentContainer = "u32 option list"

definition EquipmentContainer_new :: EquipmentContainer where
  "EquipmentContainer_new = replicate NUM_EQUIPMENT_SLOTS None"

definition slot_idx :: "EquipmentSlot \<Rightarrow> nat" where
  "slot_idx slot = unat (EquipmentSlot_as_u8 slot)"

definition equipment_get :: "EquipmentSlot \<Rightarrow> EquipmentContainer \<Rightarrow> u32 option" where
  "equipment_get slot c = (if slot_idx slot < NUM_EQUIPMENT_SLOTS then c ! slot_idx slot else None)"

definition is_compatible :: "EquipmentSlot \<Rightarrow> EquipmentSlot \<Rightarrow> bool" where
  "is_compatible slot allowed_slot \<longleftrightarrow>
     (case (slot, allowed_slot) of
        (Ring1, Ring1) \<Rightarrow> True | (Ring1, Ring2) \<Rightarrow> True | (Ring2, Ring1) \<Rightarrow> True | (Ring2, Ring2) \<Rightarrow> True
      | (a, b) \<Rightarrow> a = b)"

definition equip :: "EquipmentSlot \<Rightarrow> u32 \<Rightarrow> EquipmentContainer \<Rightarrow> EquipmentContainer \<times> (WorldError + u32 option)" where
  "equip slot item_id c =
     (case get_item_definition item_id of
        None \<Rightarrow> (c, Inl (ItemNotFound item_id))
      | Some d \<Rightarrow>
          (case id_equip_slot d of
             None \<Rightarrow> (c, Inl (TransactionAborted ''Item cannot be equipped''))
           | Some allowed_slot \<Rightarrow>
               if \<not> is_compatible slot allowed_slot
               then (c, Inl (TransactionAborted ''Incompatible equipment slot''))
               else (c[slot_idx slot := Some item_id], Inr (c ! slot_idx slot))))"

definition unequip :: "EquipmentSlot \<Rightarrow> EquipmentContainer \<Rightarrow> EquipmentContainer \<times> (WorldError + u32 option)" where
  "unequip slot c =
     (if slot_idx slot \<ge> NUM_EQUIPMENT_SLOTS then (c, Inl (TransactionAborted ''Invalid equipment slot''))
      else (c[slot_idx slot := None], Inr (c ! slot_idx slot)))"

definition compute_stats :: "EquipmentContainer \<Rightarrow> StatBlock" where
  "compute_stats c =
     foldl (\<lambda>total slot.
         case slot of
           None \<Rightarrow> total
         | Some item_id \<Rightarrow>
             (case get_item_definition item_id of
                Some d \<Rightarrow> StatBlock_saturating_add total (id_stats d)
              | None \<Rightarrow> total))
       StatBlock_ZERO c"

lemma slot_idx_less [simp]: "slot_idx slot < 9"
  by (cases slot) (simp_all add: slot_idx_def)

lemma slot_of_u8: "EquipmentSlot_from_u8 v = Some slot \<longleftrightarrow> v = EquipmentSlot_as_u8 slot"
  by (cases slot) (auto simp: EquipmentSlot_from_u8_def)

text \<open>Gear of an account has nine slots; equipping and unequipping touch one of them.\<close>

definition gear_ok :: "EquipmentContainer \<Rightarrow> bool" where
  "gear_ok c \<longleftrightarrow> length c = NUM_EQUIPMENT_SLOTS"

lemma equip_cases:
  assumes "equip slot item_id c = (c', res)"
  shows "case res of Inl e \<Rightarrow> c' = c | Inr prev \<Rightarrow> c' = c[slot_idx slot := Some item_id] \<and> prev = c ! slot_idx slot"
  using assms by (auto simp: equip_def split: option.splits if_splits)

lemma unequip_eq: "unequip slot c = (c[slot_idx slot := None], Inr (c ! slot_idx slot))"
  by (simp add: unequip_def NUM_EQUIPMENT_SLOTS_def not_le)

end
