(* ===== verification/Accounts.thy ===== *)
theory Accounts
  imports Items
begin

text \<open>
  The account of \<^verbatim>\<open>eidolon-world/src/transaction.rs\<close>: two currencies, an inventory of 64 slots and
  the worn gear, with the operations a transaction is made of. What an account owns of an item is
  the sum of its stacks and of the gear slots that hold it; every operation is specified by what it
  does to that number.
\<close>

section \<open>State and operations\<close>

definition MAX_INVENTORY_SLOTS :: nat where
  "MAX_INVENTORY_SLOTS = 64"

record InventoryItem =
  ii_item_id :: u32
  ii_quantity :: u32

record AccountState =
  ac_account_id :: u64
  ac_premium_currency :: u64
  ac_free_currency :: u64
  ac_inventory :: "InventoryItem option list"
  ac_equipment :: EquipmentContainer
  ac_state_version :: u64

definition AccountState_new :: "u64 \<Rightarrow> AccountState" where
  "AccountState_new account_id =
     \<lparr>ac_account_id = account_id, ac_premium_currency = 0, ac_free_currency = 0,
      ac_inventory = replicate MAX_INVENTORY_SLOTS None, ac_equipment = EquipmentContainer_new,
      ac_state_version = 1\<rparr>"

definition bump :: "AccountState \<Rightarrow> AccountState" where
  "bump a = a\<lparr>ac_state_version := ac_state_version a + 1\<rparr>"

definition credit_currency :: "u64 \<Rightarrow> bool \<Rightarrow> AccountState \<Rightarrow> AccountState" where
  "credit_currency amount is_premium a =
     bump (if is_premium
           then a\<lparr>ac_premium_currency := saturating_add (ac_premium_currency a) amount\<rparr>
           else a\<lparr>ac_free_currency := saturating_add (ac_free_currency a) amount\<rparr>)"

definition debit_currency :: "u64 \<Rightarrow> bool \<Rightarrow> AccountState \<Rightarrow> AccountState \<times> (WorldError + unit)" where
  "debit_currency amount is_premium a =
     (if is_premium
      then (if ac_premium_currency a < amount
            then (a, Inl (InsufficientBalance amount (ac_premium_currency a)))
            else (bump (a\<lparr>ac_premium_currency := ac_premium_currency a - amount\<rparr>), Inr ()))
      else (if ac_free_currency a < amount
            then (a, Inl (InsufficientBalance amount (ac_free_currency a)))
            else (bump (a\<lparr>ac_free_currency := ac_free_currency a - amount\<rparr>), Inr ())))"

definition add_item :: "u32 \<Rightarrow> u32 \<Rightarrow> AccountState \<Rightarrow> AccountState \<times> (WorldError + unit)" where
  "add_item item_id quantity a =
     (case find_index (has_key ii_item_id item_id) (ac_inventory a) of
        Some i \<Rightarrow>
          (let x = the (ac_inventory a ! i)
           in (bump (a\<lparr>ac_inventory := (ac_inventory a)[i :=
                 Some (x\<lparr>ii_quantity := saturating_add (ii_quantity x) quantity\<rparr>)]\<rparr>), Inr ()))
      | None \<Rightarrow>
          (case find_index (\<lambda>s. s = None) (ac_inventory a) of
             None \<Rightarrow> (a, Inl (TransactionAborted ''Inventory is full''))
           | Some i \<Rightarrow>
               (bump (a\<lparr>ac_inventory := (ac_inventory a)[i :=
                   Some \<lparr>ii_item_id = item_id, ii_quantity = quantity\<rparr>]\<rparr>), Inr ())))"

definition remove_item :: "u32 \<Rightarrow> u32 \<Rightarrow> AccountState \<Rightarrow> AccountState \<times> (WorldError + unit)" where
  "remove_item item_id quantity a =
     (case find_index (has_key ii_item_id item_id) (ac_inventory a) of
        None \<Rightarrow> (a, Inl (ItemNotFound item_id))
      | Some i \<Rightarrow>
          (let x = the (ac_inventory a ! i) in
           if ii_quantity x < quantity
           then (a, Inl (InsufficientBalance (ucast quantity) (ucast (ii_quantity x))))
           else
             (let left = ii_quantity x - quantity
              in (bump (a\<lparr>ac_inventory := (ac_inventory a)[i :=
                    if left = 0 then None else Some (x\<lparr>ii_quantity := left\<rparr>)]\<rparr>), Inr ()))))"

definition equip_item :: "nat \<Rightarrow> EquipmentSlot \<Rightarrow> AccountState \<Rightarrow> AccountState \<times> (WorldError + unit)" where
  "equip_item inventory_slot_idx slot a =
     (if inventory_slot_idx \<ge> MAX_INVENTORY_SLOTS then (a, Inl (TransactionAborted ''Invalid inventory slot''))
      else
        (case ac_inventory a ! inventory_slot_idx of
           None \<Rightarrow> (a, Inl (TransactionAborted ''No item in inventory slot''))
         | Some item \<Rightarrow>
             (case equip slot (ii_item_id item) (ac_equipment a) of
                (gear, Inl e) \<Rightarrow> (a\<lparr>ac_equipment := gear\<rparr>, Inl e)
              | (gear, Inr prev) \<Rightarrow>
                  (bump (a\<lparr>ac_equipment := gear, ac_inventory := (ac_inventory a)[inventory_slot_idx :=
                      (case prev of
                         Some prev_id \<Rightarrow> Some \<lparr>ii_item_id = prev_id, ii_quantity = 1\<rparr>
                       | None \<Rightarrow> None)]\<rparr>), Inr ()))))"

definition unequip_item :: "EquipmentSlot \<Rightarrow> AccountState \<Rightarrow> AccountState \<times> (WorldError + u32)" where
  "unequip_item slot a =
     (case unequip slot (ac_equipment a) of
        (gear, Inl e) \<Rightarrow> (a\<lparr>ac_equipment := gear\<rparr>, Inl e)
      | (gear, Inr None) \<Rightarrow> (a\<lparr>ac_equipment := gear\<rparr>, Inl (TransactionAborted ''No item equipped in slot''))
      | (gear, Inr (Some item_id)) \<Rightarrow>
          (case add_item item_id 1 (a\<lparr>ac_equipment := gear\<rparr>) of
             (a1, Inl e) \<Rightarrow> (a1\<lparr>ac_equipment := fst (equip slot item_id (ac_equipment a1))\<rparr>, Inl e)
           | (a1, Inr u) \<Rightarrow> (bump a1, Inr item_id)))"

section \<open>What an account owns\<close>

definition stack_count :: "u32 \<Rightarrow> InventoryItem option \<Rightarrow> nat" where
  "stack_count i s = (case s of Some x \<Rightarrow> if ii_item_id x = i then unat (ii_quantity x) else 0 | None \<Rightarrow> 0)"

definition worn_count :: "u32 \<Rightarrow> u32 option \<Rightarrow> nat" where
  "worn_count i s = (if s = Some i then 1 else 0)"

definition owned :: "u32 \<Rightarrow> AccountState \<Rightarrow> nat" where
  "owned i a = sum_list (map (stack_count i) (ac_inventory a)) + sum_list (map (worn_count i) (ac_equipment a))"

text \<open>
  The well-formed account: 64 slots without empty stacks, and gear of nine slots in which every item
  is a blueprint that may be worn there.
\<close>

definition worn_ok :: "EquipmentContainer \<Rightarrow> bool" where
  "worn_ok c \<longleftrightarrow> length c = NUM_EQUIPMENT_SLOTS
     \<and> (\<forall>slot i. c ! slot_idx slot = Some i \<longrightarrow>
          (\<exists>d allowed. get_item_definition i = Some d \<and> id_equip_slot d = Some allowed \<and> is_compatible slot allowed))"

definition stacks_ok :: "InventoryItem option list \<Rightarrow> bool" where
  "stacks_ok slots \<longleftrightarrow> length slots = MAX_INVENTORY_SLOTS \<and> (\<forall>x. Some x \<in> set slots \<longrightarrow> ii_quantity x \<noteq> 0)"

definition account_ok :: "AccountState \<Rightarrow> bool" where
  "account_ok a \<longleftrightarrow> stacks_ok (ac_inventory a) \<and> worn_ok (ac_equipment a)"

lemma stack_count_simps [simp]:
  "stack_count i None = 0"
  "stack_count i (Some x) = (if ii_item_id x = i then unat (ii_quantity x) else 0)"
  by (simp_all add: stack_count_def)

lemma bump_simps [simp]:
  "ac_inventory (bump a) = ac_inventory a" "ac_equipment (bump a) = ac_equipment a"
  "ac_premium_currency (bump a) = ac_premium_currency a" "ac_free_currency (bump a) = ac_free_currency a"
  "ac_account_id (bump a) = ac_account_id a"
  by (simp_all add: bump_def)

lemma account_ok_new: "account_ok (AccountState_new account_id)"
proof -
  have "(replicate 9 None :: u32 option list) ! slot_idx slot = None" for slot by simp
  then show ?thesis
    by (auto simp: account_ok_def stacks_ok_def worn_ok_def AccountState_new_def EquipmentContainer_new_def
        NUM_EQUIPMENT_SLOTS_def MAX_INVENTORY_SLOTS_def)
qed

section \<open>What the operations do to it\<close>

text \<open>A stack replaced in place.\<close>

lemma owned_set_slot:
  assumes "i < length (ac_inventory a)"
  shows "owned k (bump (a\<lparr>ac_inventory := (ac_inventory a)[i := s]\<rparr>)) + stack_count k (ac_inventory a ! i)
    = owned k a + stack_count k s"
  using sum_list_map_update [OF assms, of "stack_count k" s] by (simp add: owned_def)

lemma stacks_ok_set:
  "stacks_ok slots \<Longrightarrow> (\<And>x. s = Some x \<Longrightarrow> ii_quantity x \<noteq> 0) \<Longrightarrow> stacks_ok (slots[i := s])"
  unfolding stacks_ok_def by (auto dest!: set_update_subset_insert [THEN subsetD])

lemma found_stack:
  assumes "find_index (has_key ii_item_id item) slots = Some i"
  shows "i < length slots \<and> slots ! i = Some (the (slots ! i)) \<and> ii_item_id (the (slots ! i)) = item
    \<and> Some (the (slots ! i)) \<in> set slots"
  using find_index_SomeD [OF assms] by (auto elim!: has_keyE) (metis nth_mem option.sel)

lemma sat_add_nonzero: "(q :: u32) \<noteq> 0 \<Longrightarrow> saturating_add x q \<noteq> 0"
  using unat_saturating_add [of x q] by (auto simp: unat_eq_0 [symmetric] unat_gt_0 [symmetric] simp del: unat_gt_0)

lemma add_item_spec:
  assumes ok: "account_ok a" and q: "q \<noteq> 0" and r: "add_item item q a = (a', res)"
  shows "account_ok a' \<and> ac_equipment a' = ac_equipment a \<and> ac_account_id a' = ac_account_id a
    \<and> ac_premium_currency a' = ac_premium_currency a \<and> ac_free_currency a' = ac_free_currency a
    \<and> (case res of
         Inl e \<Rightarrow> a' = a \<and> (\<forall>x. Some x \<in> set (ac_inventory a) \<longrightarrow> ii_item_id x \<noteq> item) \<and> None \<notin> set (ac_inventory a)
       | Inr u \<Rightarrow> owned k a' \<le> owned k a + (if k = item then unat q else 0)
           \<and> (k \<noteq> item \<or> owned k a + unat q < 2 ^ 32 \<longrightarrow> owned k a' = owned k a + (if k = item then unat q else 0)))"
proof (cases "find_index (has_key ii_item_id item) (ac_inventory a)")
  case (Some i)
  note f = found_stack [OF Some]
  let ?x = "the (ac_inventory a ! i)"
  let ?s = "Some (?x\<lparr>ii_quantity := saturating_add (ii_quantity ?x) q\<rparr>)"
  have e: "a' = bump (a\<lparr>ac_inventory := (ac_inventory a)[i := ?s]\<rparr>)" "res = Inr ()"
    using r Some by (simp_all add: add_item_def Let_def)
  have "stacks_ok ((ac_inventory a)[i := ?s])"
    using ok sat_add_nonzero [OF q] by (intro stacks_ok_set) (auto simp: account_ok_def)
  then have ok': "account_ok a'" using ok by (simp add: e account_ok_def)
  have x: "stack_count k (ac_inventory a ! i) = (if k = item then unat (ii_quantity ?x) else 0)"
    using f by (metis stack_count_simps(2))
  have "map (stack_count k) (ac_inventory a) ! i \<le> sum_list (map (stack_count k) (ac_inventory a))"
    using f by (intro elem_le_sum_list) simp
  then have le: "stack_count k (ac_inventory a ! i) \<le> owned k a" using f by (simp add: owned_def)
  have "owned k a' + stack_count k (ac_inventory a ! i) = owned k a + stack_count k ?s"
    unfolding e(1) using f by (intro owned_set_slot) simp
  moreover have "stack_count k ?s = (if k = item then min (unat (ii_quantity ?x) + unat q) (2 ^ 32 - 1) else 0)"
    using f by (auto simp: unat_saturating_add)
  ultimately have "owned k a' \<le> owned k a + (if k = item then unat q else 0)
      \<and> (k \<noteq> item \<or> owned k a + unat q < 2 ^ 32 \<longrightarrow> owned k a' = owned k a + (if k = item then unat q else 0))"
    using x le by (auto simp: min_def split: if_splits)
  with ok' e show ?thesis by simp
next
  case None
  then have free: "\<forall>x. Some x \<in> set (ac_inventory a) \<longrightarrow> ii_item_id x \<noteq> item"
    by (auto simp: find_index_None_iff)
  show ?thesis
  proof (cases "find_index (\<lambda>s. s = None) (ac_inventory a)")
    case no: None
    then have "None \<notin> set (ac_inventory a)" by (auto simp: find_index_None_iff)
    then show ?thesis using r None no ok free by (auto simp: add_item_def)
  next
    case (Some i)
    let ?s = "Some \<lparr>ii_item_id = item, ii_quantity = q\<rparr>"
    have e: "a' = bump (a\<lparr>ac_inventory := (ac_inventory a)[i := ?s]\<rparr>)" "res = Inr ()"
      using r None Some by (simp_all add: add_item_def)
    have "stacks_ok ((ac_inventory a)[i := ?s])" using ok q by (intro stacks_ok_set) (auto simp: account_ok_def)
    then have ok': "account_ok a'" using ok by (simp add: e account_ok_def)
    have "owned k a' + stack_count k (ac_inventory a ! i) = owned k a + stack_count k ?s"
      unfolding e(1) using find_index_SomeD [OF Some] by (intro owned_set_slot) simp
    then have "owned k a' = owned k a + (if k = item then unat q else 0)"
      using find_index_SomeD [OF Some] by auto
    with ok' e show ?thesis by simp
  qed
qed

lemma remove_item_spec:
  assumes ok: "account_ok a" and r: "remove_item item q a = (a', res)"
  shows "account_ok a' \<and> ac_equipment a' = ac_equipment a \<and> ac_account_id a' = ac_account_id a
    \<and> ac_premium_currency a' = ac_premium_currency a \<and> ac_free_currency a' = ac_free_currency a
    \<and> (case res of
         Inl e \<Rightarrow> a' = a
       | Inr u \<Rightarrow> owned k a' + (if k = item then unat q else 0) = owned k a
           \<and> (None \<in> set (ac_inventory a') \<or> (\<exists>x. Some x \<in> set (ac_inventory a') \<and> ii_item_id x = item)))"
proof (cases "find_index (has_key ii_item_id item) (ac_inventory a)")
  case None
  then show ?thesis using r ok by (auto simp: remove_item_def)
next
  case (Some i)
  note f = found_stack [OF Some]
  let ?x = "the (ac_inventory a ! i)"
  show ?thesis
  proof (cases "ii_quantity ?x < q")
    case True
    then show ?thesis using r ok Some by (auto simp: remove_item_def Let_def)
  next
    case False
    let ?left = "ii_quantity ?x - q"
    let ?s = "if ?left = 0 then None else Some (?x\<lparr>ii_quantity := ?left\<rparr>)"
    have e: "a' = bump (a\<lparr>ac_inventory := (ac_inventory a)[i := ?s]\<rparr>)" "res = Inr ()"
      using r Some False by (simp_all add: remove_item_def Let_def)
    have "stacks_ok ((ac_inventory a)[i := ?s])" using ok by (intro stacks_ok_set) (auto simp: account_ok_def split: if_splits)
    then have ok': "account_ok a'" using ok by (simp add: e account_ok_def)
    have left: "unat ?left + unat q = unat (ii_quantity ?x)"
      using False by (simp add: unat_sub word_le_nat_alt not_less)
    have "stack_count k ?s = (if k = item then unat ?left else 0)" using f by auto
    moreover have "stack_count k (ac_inventory a ! i) = (if k = item then unat (ii_quantity ?x) else 0)"
      using f by (metis stack_count_simps(2))
    moreover have "owned k a' + stack_count k (ac_inventory a ! i) = owned k a + stack_count k ?s"
      unfolding e(1) using f by (intro owned_set_slot) simp
    ultimately have "owned k a' + (if k = item then unat q else 0) = owned k a" using left by (auto split: if_splits)
    moreover have "?s \<in> set (ac_inventory a')" using f by (simp add: e(1) set_update_memI)
    ultimately show ?thesis using ok' e f by (auto split: if_splits)
  qed
qed

text \<open>Gear: a slot gets an item that may be worn there, or is cleared.\<close>

lemma slot_idx_inj: "slot_idx s = slot_idx t \<longleftrightarrow> s = t"
  by (cases s; cases t) (simp_all add: slot_idx_def)

lemma worn_ok_equip:
  assumes ok: "worn_ok c" and e: "equip slot item c = (c', Inr prev)"
  shows "worn_ok c' \<and> c' = c[slot_idx slot := Some item] \<and> prev = c ! slot_idx slot"
proof -
  obtain d allowed where d: "get_item_definition item = Some d" "id_equip_slot d = Some allowed" "is_compatible slot allowed"
    and c: "c' = c[slot_idx slot := Some item]" "prev = c ! slot_idx slot"
    using e by (auto simp: equip_def split: option.splits if_splits)
  have "slot_idx s < length c" for s using ok by (simp add: worn_ok_def NUM_EQUIPMENT_SLOTS_def)
  then have "worn_ok c'" using ok d unfolding worn_ok_def c by (auto simp: nth_list_update slot_idx_inj)
  with c show ?thesis by simp
qed

lemma worn_ok_clear: "worn_ok c \<Longrightarrow> worn_ok (c[slot_idx slot := None])"
proof -
  assume ok: "worn_ok c"
  have "slot_idx s < length c" for s using ok by (simp add: worn_ok_def NUM_EQUIPMENT_SLOTS_def)
  then show ?thesis using ok unfolding worn_ok_def by (auto simp: nth_list_update split: if_splits)
qed

lemma re_equip:
  assumes ok: "worn_ok c" and w: "c ! slot_idx slot = Some item"
  shows "fst (equip slot item (c[slot_idx slot := None])) = c"
proof -
  obtain d allowed where "get_item_definition item = Some d" "id_equip_slot d = Some allowed" "is_compatible slot allowed"
    using ok w unfolding worn_ok_def by blast
  then show ?thesis using w by (simp add: equip_def list_update_id [of c "slot_idx slot", unfolded w])
qed

lemma worn_count_update:
  "worn_ok c \<Longrightarrow> sum_list (map (worn_count k) (c[slot_idx slot := v])) + worn_count k (c ! slot_idx slot)
    = sum_list (map (worn_count k) c) + worn_count k v"
  by (rule sum_list_map_update) (simp add: worn_ok_def NUM_EQUIPMENT_SLOTS_def)

lemma equip_item_spec:
  assumes ok: "account_ok a" and r: "equip_item idx slot a = (a', res)"
  shows "account_ok a' \<and> ac_account_id a' = ac_account_id a
    \<and> ac_premium_currency a' = ac_premium_currency a \<and> ac_free_currency a' = ac_free_currency a
    \<and> owned k a' \<le> owned k a \<and> (\<forall>e. res = Inl e \<longrightarrow> a' = a)"
proof (cases "idx < MAX_INVENTORY_SLOTS \<and> ac_inventory a ! idx \<noteq> None")
  case False
  then have "a' = a" using r by (cases "idx < MAX_INVENTORY_SLOTS") (auto simp: equip_item_def)
  then show ?thesis using ok by simp
next
  case True
  then obtain item where item: "ac_inventory a ! idx = Some item" and idx: "idx < length (ac_inventory a)"
    using ok by (auto simp: account_ok_def stacks_ok_def)
  have worn: "worn_ok (ac_equipment a)" using ok by (simp add: account_ok_def)
  obtain gear er where g: "equip slot (ii_item_id item) (ac_equipment a) = (gear, er)" by (rule prod.exhaust)
  show ?thesis
  proof (cases er)
    case (Inl e)
    then have "gear = ac_equipment a" using equip_cases [OF g] by simp
    then show ?thesis using r True item g Inl ok by (auto simp: equip_item_def)
  next
    case (Inr prev)
    note W = worn_ok_equip [OF worn g [unfolded Inr]]
    let ?s = "case prev of Some prev_id \<Rightarrow> Some \<lparr>ii_item_id = prev_id, ii_quantity = 1\<rparr> | None \<Rightarrow> None"
    have e: "a' = bump (a\<lparr>ac_equipment := gear, ac_inventory := (ac_inventory a)[idx := ?s]\<rparr>)" "res = Inr ()"
      using r True item g Inr by (auto simp: equip_item_def)
    have "stacks_ok ((ac_inventory a)[idx := ?s])"
      using ok by (intro stacks_ok_set) (auto simp: account_ok_def split: option.splits)
    moreover have "worn_ok gear" using W by blast
    ultimately have ok': "account_ok a'" by (simp add: e account_ok_def)
    have inv: "sum_list (map (stack_count k) (ac_inventory a')) + stack_count k (Some item)
        = sum_list (map (stack_count k) (ac_inventory a)) + stack_count k ?s"
      using sum_list_map_update [OF idx, of "stack_count k" ?s] item by (simp add: e)
    have gear: "sum_list (map (worn_count k) (ac_equipment a')) + worn_count k prev
        = sum_list (map (worn_count k) (ac_equipment a)) + worn_count k (Some (ii_item_id item))"
      using worn_count_update [OF worn, of k slot "Some (ii_item_id item)"] W by (simp add: e)
    have "ii_quantity item \<noteq> 0" using ok item idx nth_mem by (metis account_ok_def stacks_ok_def)
    then have "worn_count k (Some (ii_item_id item)) \<le> stack_count k (Some item)"
      by (simp add: worn_count_def unat_gt_0 Suc_le_eq)
    moreover have "stack_count k ?s = worn_count k prev" by (simp add: worn_count_def split: option.splits)
    ultimately have "owned k a' \<le> owned k a" using inv gear unfolding owned_def by linarith
    then show ?thesis using ok' e by simp
  qed
qed

lemma unequip_item_spec:
  assumes ok: "account_ok a" and r: "unequip_item slot a = (a', res)"
  shows "account_ok a' \<and> ac_account_id a' = ac_account_id a
    \<and> ac_premium_currency a' = ac_premium_currency a \<and> ac_free_currency a' = ac_free_currency a
    \<and> owned k a' \<le> owned k a \<and> (\<forall>e. res = Inl e \<longrightarrow> a' = a)"
proof (cases "ac_equipment a ! slot_idx slot")
  case None
  then have "a' = a" using r list_update_id [of "ac_equipment a" "slot_idx slot"]
    by (auto simp: unequip_item_def unequip_eq)
  then show ?thesis using ok by simp
next
  case (Some item)
  have worn: "worn_ok (ac_equipment a)" using ok by (simp add: account_ok_def)
  let ?b = "a\<lparr>ac_equipment := (ac_equipment a)[slot_idx slot := None]\<rparr>"
  have okb: "account_ok ?b" using ok worn_ok_clear [OF worn] by (simp add: account_ok_def)
  obtain a1 ar where ad: "add_item item 1 ?b = (a1, ar)" by (rule prod.exhaust)
  note A = add_item_spec [OF okb _ ad, of k, simplified]
  have wc: "owned k ?b + worn_count k (Some item) = owned k a"
    using worn_count_update [OF worn, of k slot None] Some by (simp add: owned_def worn_count_def)
  show ?thesis
  proof (cases ar)
    case (Inl e)
    have "a1 = ?b" using A Inl by simp
    then have "a' = a" using r Some ad Inl re_equip [OF worn Some] by (auto simp: unequip_item_def unequip_eq)
    then show ?thesis using ok by simp
  next
    case (Inr u)
    have e: "a' = bump a1" "res = Inr item" using r Some ad Inr by (auto simp: unequip_item_def unequip_eq)
    have "owned k a1 \<le> owned k ?b + (if k = item then 1 else 0)" using A Inr by (simp split: if_splits)
    moreover have "owned k (bump a1) = owned k a1" by (simp add: owned_def)
    moreover have "worn_count k (Some item) = (if k = item then 1 else 0)" by (simp add: worn_count_def)
    ultimately have "owned k a' \<le> owned k a" using wc unfolding e(1) by simp
    moreover have "account_ok (bump a1)" using conjunct1 [OF A] by (simp add: account_ok_def)
    ultimately show ?thesis using A unfolding e by simp
  qed
qed

end
