(* ===== verification/Transactions.thy ===== *)
theory Transactions
  imports Accounts Locks DiskJournal
begin

text \<open>
  The transaction manager of \<^verbatim>\<open>eidolon-world/src/transaction.rs\<close>: five operations on accounts, each
  gated by a generation lock and by the set of transactions already executed, and logged in the
  write-ahead journal. It rests on the theories of its three parts: \<open>Accounts\<close> for what an
  operation does to an account, \<open>Locks\<close> for who may act, \<open>Journal\<close> for what is durable. The two
  hash maps are maps; a method that fails half way leaves the manager as the source leaves it.
\<close>

section \<open>State\<close>

definition LOCK_WALLET :: u32 where
  "LOCK_WALLET = 0"

definition LOCK_INVENTORY :: u32 where
  "LOCK_INVENTORY = 1"

datatype TransactionOp =
    CurrencyTransfer u64 u64 u64 bool
  | CurrencySpend u64 u64 bool
  | ItemTransfer u64 u64 u32 u32
  | EquipItem u64 u8 u8
  | UnequipItem u64 u8

datatype TransactionStatus = Committed u64 | Aborted

record TransactionManager =
  tm_lock_registry :: GenerationLockRegistry
  tm_accounts :: "u64 \<rightharpoonup> AccountState"
  tm_executed_txs :: "u64 \<rightharpoonup> TransactionStatus"

definition TransactionManager_new :: TransactionManager where
  "TransactionManager_new =
     \<lparr>tm_lock_registry = GenerationLockRegistry_new 1024, tm_accounts = Map.empty, tm_executed_txs = Map.empty\<rparr>"

definition register_account :: "AccountState \<Rightarrow> TransactionManager \<Rightarrow> TransactionManager" where
  "register_account state tm = tm\<lparr>tm_accounts := (tm_accounts tm)(ac_account_id state \<mapsto> state)\<rparr>"

definition tm_acquire_lock ::
  "u64 \<Rightarrow> u32 \<Rightarrow> u64 \<Rightarrow> u64 \<Rightarrow> u32 \<Rightarrow> bool \<Rightarrow> TransactionManager \<Rightarrow> TransactionManager \<times> (LockError + LockToken)"
where
  "tm_acquire_lock account_id lock_id session_id current_tick lease force_takeover tm =
     (case acquire_lock account_id lock_id session_id current_tick lease force_takeover (tm_lock_registry tm) of
        (locks, r) \<Rightarrow> (tm\<lparr>tm_lock_registry := locks\<rparr>, r))"

definition set_account :: "u64 \<Rightarrow> AccountState \<Rightarrow> TransactionManager \<Rightarrow> TransactionManager" where
  "set_account account_id a tm = tm\<lparr>tm_accounts := (tm_accounts tm)(account_id \<mapsto> a)\<rparr>"

section \<open>The operations\<close>

type_synonym 's outcome = "TransactionManager \<times> 's WriteAheadJournal \<times> (WorldError + u64)"

text \<open>The last step of every operation: the record in the journal.\<close>

definition log_mutation ::
  "u64 \<Rightarrow> u64 \<Rightarrow> u8 \<Rightarrow> u8 list \<Rightarrow> TransactionManager \<Rightarrow> 's WriteAheadJournal \<Rightarrow> 's outcome"
where
  "log_mutation current_tick account_id opcode payload tm j =
     (case wal_append current_tick account_id 0 opcode payload j of (j1, r) \<Rightarrow> (tm, j1, r))"

definition bool_byte :: "bool \<Rightarrow> u8" where
  "bool_byte b = (if b then 1 else 0)"

definition exec_currency_spend ::
  "u64 \<Rightarrow> u64 \<Rightarrow> bool \<Rightarrow> LockToken \<Rightarrow> u64 \<Rightarrow> TransactionManager \<Rightarrow> 's WriteAheadJournal \<Rightarrow> 's outcome"
where
  "exec_currency_spend account_id amount is_premium token current_tick tm j =
     (if lt_account_id token \<noteq> account_id \<or> lt_lock_id token \<noteq> LOCK_WALLET
      then (tm, j, Inl (TransactionAborted ''Invalid wallet lock token''))
      else
        (case tm_accounts tm account_id of
           None \<Rightarrow> (tm, j, Inl (TransactionAborted ''Account not found''))
         | Some account \<Rightarrow>
             (case debit_currency amount is_premium account of
                (account, Inl e) \<Rightarrow> (set_account account_id account tm, j, Inl e)
              | (account, Inr u) \<Rightarrow>
                  log_mutation current_tick account_id OP_CURRENCY_DELTA
                    (be_bytes 8 (unat amount) @ [bool_byte is_premium, 0]) (set_account account_id account tm) j)))"

definition exec_currency_transfer ::
  "u64 \<Rightarrow> u64 \<Rightarrow> u64 \<Rightarrow> bool \<Rightarrow> LockToken \<Rightarrow> u64 \<Rightarrow> TransactionManager \<Rightarrow> 's WriteAheadJournal \<Rightarrow> 's outcome"
where
  "exec_currency_transfer from_account to_account amount is_premium token current_tick tm j =
     (if lt_account_id token \<noteq> from_account \<or> lt_lock_id token \<noteq> LOCK_WALLET
      then (tm, j, Inl (TransactionAborted ''Invalid wallet lock token''))
      else if from_account = to_account then (tm, j, Inl (TransactionAborted ''Cannot transfer to self''))
      else
        (case tm_accounts tm from_account of
           None \<Rightarrow> (tm, j, Inl (TransactionAborted ''Source account not found''))
         | Some src \<Rightarrow>
             (let from_balance = (if is_premium then ac_premium_currency src else ac_free_currency src) in
              if from_balance < amount then (tm, j, Inl (InsufficientBalance amount from_balance))
              else if tm_accounts tm to_account = None
              then (tm, j, Inl (TransactionAborted ''Target account not registered''))
              else
                (case debit_currency amount is_premium src of
                   (src1, Inl e) \<Rightarrow> (set_account from_account src1 tm, j, Inl e)
                 | (src1, Inr u) \<Rightarrow>
                     (let tm1 = set_account from_account src1 tm in
                      case tm_accounts tm1 to_account of
                        None \<Rightarrow> (tm1, j, Inl (TransactionAborted ''Target account not registered''))
                      | Some dst \<Rightarrow>
                          log_mutation current_tick from_account OP_CURRENCY_DELTA
                            (be_bytes 8 (unat to_account) @ be_bytes 8 (unat amount) @ [bool_byte is_premium])
                            (set_account to_account (credit_currency amount is_premium dst) tm1) j)))))"

definition exec_item_transfer ::
  "u64 \<Rightarrow> u64 \<Rightarrow> u32 \<Rightarrow> u32 \<Rightarrow> LockToken \<Rightarrow> u64 \<Rightarrow> TransactionManager \<Rightarrow> 's WriteAheadJournal \<Rightarrow> 's outcome"
where
  "exec_item_transfer from_account to_account item_id quantity token current_tick tm j =
     (if lt_account_id token \<noteq> from_account \<or> lt_lock_id token \<noteq> LOCK_INVENTORY
      then (tm, j, Inl (TransactionAborted ''Invalid inventory lock token''))
      else if from_account = to_account then (tm, j, Inl (TransactionAborted ''Cannot transfer to self''))
      else
        (case tm_accounts tm from_account of
           None \<Rightarrow> (tm, j, Inl (TransactionAborted ''Source account not found''))
         | Some src \<Rightarrow>
             if \<not> list_ex (\<lambda>s. case s of Some x \<Rightarrow> ii_item_id x = item_id \<and> ii_quantity x \<ge> quantity | None \<Rightarrow> False)
                  (ac_inventory src)
             then (tm, j, Inl (ItemNotFound item_id))
             else if tm_accounts tm to_account = None
             then (tm, j, Inl (TransactionAborted ''Target account not registered''))
             else
               (case remove_item item_id quantity src of
                  (src1, Inl e) \<Rightarrow> (set_account from_account src1 tm, j, Inl e)
                | (src1, Inr u) \<Rightarrow>
                    (let tm1 = set_account from_account src1 tm in
                     case tm_accounts tm1 to_account of
                       None \<Rightarrow> (tm1, j, Inl (TransactionAborted ''Target account not registered''))
                     | Some dst \<Rightarrow>
                         (case add_item item_id quantity dst of
                            (dst1, Inl e) \<Rightarrow>
                              (set_account from_account (fst (add_item item_id quantity src1))
                                 (set_account to_account dst1 tm1), j, Inl e)
                          | (dst1, Inr u) \<Rightarrow>
                              log_mutation current_tick from_account OP_INVENTORY_MUTATION
                                (be_bytes 8 (unat to_account) @ be_bytes 4 (unat item_id) @ be_bytes 4 (unat quantity))
                                (set_account to_account dst1 tm1) j)))))"

definition exec_equip ::
  "u64 \<Rightarrow> u8 \<Rightarrow> u8 \<Rightarrow> LockToken \<Rightarrow> u64 \<Rightarrow> TransactionManager \<Rightarrow> 's WriteAheadJournal \<Rightarrow> 's outcome"
where
  "exec_equip account_id inventory_slot equip_slot token current_tick tm j =
     (if lt_account_id token \<noteq> account_id \<or> lt_lock_id token \<noteq> LOCK_INVENTORY
      then (tm, j, Inl (TransactionAborted ''Invalid inventory lock token''))
      else
        (case EquipmentSlot_from_u8 equip_slot of
           None \<Rightarrow> (tm, j, Inl (TransactionAborted ''Invalid equipment slot''))
         | Some slot \<Rightarrow>
             (case tm_accounts tm account_id of
                None \<Rightarrow> (tm, j, Inl (TransactionAborted ''Account not found''))
              | Some account \<Rightarrow>
                  (case equip_item (unat inventory_slot) slot account of
                     (account, Inl e) \<Rightarrow> (set_account account_id account tm, j, Inl e)
                   | (account, Inr u) \<Rightarrow>
                       log_mutation current_tick account_id OP_INVENTORY_MUTATION [1, inventory_slot, equip_slot]
                         (set_account account_id account tm) j))))"

definition exec_unequip ::
  "u64 \<Rightarrow> u8 \<Rightarrow> LockToken \<Rightarrow> u64 \<Rightarrow> TransactionManager \<Rightarrow> 's WriteAheadJournal \<Rightarrow> 's outcome"
where
  "exec_unequip account_id equip_slot token current_tick tm j =
     (if lt_account_id token \<noteq> account_id \<or> lt_lock_id token \<noteq> LOCK_INVENTORY
      then (tm, j, Inl (TransactionAborted ''Invalid inventory lock token''))
      else
        (case EquipmentSlot_from_u8 equip_slot of
           None \<Rightarrow> (tm, j, Inl (TransactionAborted ''Invalid equipment slot''))
         | Some slot \<Rightarrow>
             (case tm_accounts tm account_id of
                None \<Rightarrow> (tm, j, Inl (TransactionAborted ''Account not found''))
              | Some account \<Rightarrow>
                  (case unequip_item slot account of
                     (account, Inl e) \<Rightarrow> (set_account account_id account tm, j, Inl e)
                   | (account, Inr item_id) \<Rightarrow>
                       log_mutation current_tick account_id OP_INVENTORY_MUTATION
                         ([2, equip_slot] @ be_bytes 4 (unat item_id)) (set_account account_id account tm) j))))"

fun exec_op ::
  "TransactionOp \<Rightarrow> LockToken \<Rightarrow> u64 \<Rightarrow> TransactionManager \<Rightarrow> 's WriteAheadJournal \<Rightarrow> 's outcome"
where
  "exec_op (CurrencySpend a n p) token tick tm j = exec_currency_spend a n p token tick tm j"
| "exec_op (CurrencyTransfer f t n p) token tick tm j = exec_currency_transfer f t n p token tick tm j"
| "exec_op (ItemTransfer f t i q) token tick tm j = exec_item_transfer f t i q token tick tm j"
| "exec_op (EquipItem a i e) token tick tm j = exec_equip a i e token tick tm j"
| "exec_op (UnequipItem a e) token tick tm j = exec_unequip a e token tick tm j"

definition stale_session :: "LockError \<Rightarrow> u64 \<Rightarrow> WorldError" where
  "stale_session e caller_session_id =
     (case e of
        SessionMismatch expected actual \<Rightarrow> StaleSessionMutation expected actual
      | StaleGeneration expected actual \<Rightarrow> StaleSessionMutation expected actual
      | _ \<Rightarrow> StaleSessionMutation 0 caller_session_id)"

definition execute_transaction ::
  "u64 \<Rightarrow> TransactionOp \<Rightarrow> u64 \<Rightarrow> LockToken \<Rightarrow> u64 \<Rightarrow> TransactionManager \<Rightarrow> 's WriteAheadJournal \<Rightarrow> 's outcome"
where
  "execute_transaction tx_id op caller_session_id token current_tick tm j =
     (if tm_executed_txs tm tx_id \<noteq> None then (tm, j, Inl (DuplicateTransaction tx_id))
      else
        (case validate_mutation token caller_session_id current_tick (tm_lock_registry tm) of
           Inl e \<Rightarrow> (tm, j, Inl (stale_session e caller_session_id))
         | Inr u \<Rightarrow>
             (case exec_op op token current_tick tm j of
                (tm1, j1, Inl e) \<Rightarrow> (tm1, j1, Inl e)
              | (tm1, j1, Inr lsn) \<Rightarrow>
                  (tm1\<lparr>tm_executed_txs := (tm_executed_txs tm1)(tx_id \<mapsto> Committed lsn)\<rparr>, j1, Inr lsn))))"



section \<open>Wealth\<close>

text \<open>The balance of an account in one currency, and the sums over all accounts.\<close>

definition purse :: "bool \<Rightarrow> AccountState \<Rightarrow> nat" where
  "purse is_premium a = unat (if is_premium then ac_premium_currency a else ac_free_currency a)"

definition total :: "(AccountState \<Rightarrow> nat) \<Rightarrow> TransactionManager \<Rightarrow> nat" where
  "total f tm = (\<Sum>i\<in>dom (tm_accounts tm). f (the (tm_accounts tm i)))"

definition ledger_ok :: "TransactionManager \<Rightarrow> bool" where
  "ledger_ok tm \<longleftrightarrow> finite (dom (tm_accounts tm)) \<and> (\<forall>i a. tm_accounts tm i = Some a \<longrightarrow> account_ok a)"

lemma ledger_okD: "ledger_ok tm \<Longrightarrow> tm_accounts tm i = Some a \<Longrightarrow> account_ok a"
  by (simp add: ledger_ok_def)

lemma set_account_simps [simp]:
  "tm_accounts (set_account i a tm) = (tm_accounts tm)(i \<mapsto> a)"
  "tm_lock_registry (set_account i a tm) = tm_lock_registry tm"
  "tm_executed_txs (set_account i a tm) = tm_executed_txs tm"
  by (simp_all add: set_account_def)

lemma total_set:
  assumes "ledger_ok tm" and "tm_accounts tm i = Some a"
  shows "total f (set_account i b tm) + f a = total f tm + f b"
proof -
  let ?d = "dom (tm_accounts tm)"
  have i: "i \<in> ?d" "finite ?d" using assms by (auto simp: ledger_ok_def)
  have "insert i ?d = ?d" using i by blast
  then have "total f (set_account i b tm) = (\<Sum>k\<in>?d. f (the (((tm_accounts tm)(i \<mapsto> b)) k)))"
    by (simp add: total_def)
  also have "\<dots> = f b + (\<Sum>k\<in>?d - {i}. f (the (tm_accounts tm k)))"
    using i by (subst sum.remove [of _ i]) (auto intro!: sum.cong)
  finally have "total f (set_account i b tm) = f b + (\<Sum>k\<in>?d - {i}. f (the (tm_accounts tm k)))" .
  moreover have "total f tm = f a + (\<Sum>k\<in>?d - {i}. f (the (tm_accounts tm k)))"
    using i assms(2) by (simp add: total_def sum.remove [of _ i])
  ultimately show ?thesis by simp
qed

lemma ledger_ok_set: "ledger_ok tm \<Longrightarrow> account_ok a \<Longrightarrow> ledger_ok (set_account i a tm)"
  by (auto simp: ledger_ok_def split: if_splits)

lemma credit_spec:
  "ac_inventory (credit_currency n p a) = ac_inventory a \<and> ac_equipment (credit_currency n p a) = ac_equipment a
    \<and> purse q (credit_currency n p a) = (if q = p then min (purse q a + unat n) (2 ^ 64 - 1) else purse q a)"
  by (auto simp: credit_currency_def purse_def unat_saturating_add)

lemma debit_spec:
  assumes "debit_currency n p a = (a', res)"
  shows "ac_inventory a' = ac_inventory a \<and> ac_equipment a' = ac_equipment a
    \<and> (case res of
         Inl e \<Rightarrow> a' = a \<and> purse p a < unat n
       | Inr u \<Rightarrow> unat n \<le> purse p a \<and> purse q a' = (if q = p then purse q a - unat n else purse q a))"
  using assms by (auto simp: debit_currency_def purse_def word_less_nat_alt unat_sub word_le_nat_alt split: if_splits)

lemma same_goods: "ac_inventory a' = ac_inventory a \<Longrightarrow> ac_equipment a' = ac_equipment a \<Longrightarrow>
    owned k a' = owned k a \<and> account_ok a' = account_ok a"
  by (simp add: owned_def account_ok_def)

text \<open>
  What an operation may do to the ledger: every account stays well formed and no sum over the
  accounts grows.
\<close>

definition no_minting :: "TransactionManager \<Rightarrow> TransactionManager \<Rightarrow> bool" where
  "no_minting tm tm' \<longleftrightarrow> ledger_ok tm' \<and> dom (tm_accounts tm') = dom (tm_accounts tm)
     \<and> (\<forall>k. total (owned k) tm' \<le> total (owned k) tm) \<and> (\<forall>q. total (purse q) tm' \<le> total (purse q) tm)"

lemma no_minting_refl: "ledger_ok tm \<Longrightarrow> no_minting tm tm"
  by (simp add: no_minting_def)

lemma no_minting_one:
  assumes "ledger_ok tm" "tm_accounts tm i = Some a" "account_ok b"
    and "\<And>k. owned k b \<le> owned k a" "\<And>q. purse q b \<le> purse q a"
  shows "no_minting tm (set_account i b tm)"
proof -
  have "total f (set_account i b tm) \<le> total f tm" if "f b \<le> f a" for f
    using total_set [OF assms(1,2), of f b] that by linarith
  then show ?thesis using assms ledger_ok_set [OF assms(1,3)] by (auto simp: no_minting_def)
qed

lemma no_minting_two:
  assumes ok: "ledger_ok tm" and a: "tm_accounts tm i = Some a" "account_ok a'"
    and b: "tm_accounts tm j = Some b" "account_ok b'" and ne: "i \<noteq> j"
    and le: "\<And>k. owned k a' + owned k b' \<le> owned k a + owned k b" "\<And>q. purse q a' + purse q b' \<le> purse q a + purse q b"
  shows "no_minting tm (set_account j b' (set_account i a' tm))"
proof -
  let ?tm1 = "set_account i a' tm"
  have ok1: "ledger_ok ?tm1" using ok a(2) by (rule ledger_ok_set)
  have b1: "tm_accounts ?tm1 j = Some b" using b ne by simp
  have "total f (set_account j b' ?tm1) \<le> total f tm" if "f a' + f b' \<le> f a + f b" for f
    using total_set [OF ok a(1), of f a'] total_set [OF ok1 b1, of f b'] that by linarith
  then show ?thesis using ledger_ok_set [OF ok1 b(2)] le a b by (auto simp: no_minting_def)
qed

lemma log_mutation_eq: "log_mutation tick acc opc pl tm j = (tm', j', res) \<longleftrightarrow>
    tm' = tm \<and> wal_append tick acc 0 opc pl j = (j', res)"
  by (auto simp: log_mutation_def split: prod.splits)

text \<open>Two ledgers in which every account owns the same, and ledgers whose stacks cannot overflow.\<close>

definition same_wealth :: "TransactionManager \<Rightarrow> TransactionManager \<Rightarrow> bool" where
  "same_wealth tm tm' \<longleftrightarrow> dom (tm_accounts tm') = dom (tm_accounts tm)
     \<and> (\<forall>i a b. tm_accounts tm i = Some a \<longrightarrow> tm_accounts tm' i = Some b \<longrightarrow>
          (\<forall>k. owned k b = owned k a) \<and> (\<forall>q. purse q b = purse q a))"

definition modest :: "TransactionManager \<Rightarrow> bool" where
  "modest tm \<longleftrightarrow> (\<forall>i a k. tm_accounts tm i = Some a \<longrightarrow> owned k a < 2 ^ 32)"

text \<open>
  The shape of every operation: refused before the journal, with all accounts as wealthy as before,
  or applied and handed to the journal.
\<close>

definition op_outcome ::
  "u64 \<Rightarrow> TransactionManager \<Rightarrow> 's WriteAheadJournal \<Rightarrow> TransactionManager \<Rightarrow> 's WriteAheadJournal
    \<Rightarrow> WorldError + u64 \<Rightarrow> bool"
where
  "op_outcome tick tm j tm' j' res \<longleftrightarrow>
     no_minting tm tm' \<and> tm_lock_registry tm' = tm_lock_registry tm \<and> tm_executed_txs tm' = tm_executed_txs tm
     \<and> (j' = j \<and> (\<exists>e. res = Inl e) \<and> (modest tm \<longrightarrow> same_wealth tm tm')
        \<or> (\<exists>acc opc pl. length pl \<le> 128 \<and> wal_append tick acc 0 opc pl j = (j', res)))"

lemma same_wealth_refl [simp]: "same_wealth tm tm"
  by (simp add: same_wealth_def)

lemma refused: "ledger_ok tm \<Longrightarrow> op_outcome tick tm j tm j (Inl e)"
  by (simp add: op_outcome_def no_minting_refl)

lemma refused_same:
  "ledger_ok tm \<Longrightarrow> tm_accounts tm i = Some a \<Longrightarrow> op_outcome tick tm j (set_account i a tm) j (Inl e)"
  using refused [of tm tick j e] by (simp add: set_account_def fun_upd_idem)

lemma applied:
  assumes "no_minting tm tm'" "tm_lock_registry tm' = tm_lock_registry tm" "tm_executed_txs tm' = tm_executed_txs tm"
    and "log_mutation tick acc opc pl tm' j = (tm1, j1, res)" "length pl \<le> 128"
  shows "op_outcome tick tm j tm1 j1 res"
  using assms unfolding log_mutation_eq op_outcome_def by blast

lemma exec_spend_outcome:
  assumes ok: "ledger_ok tm" and e: "exec_currency_spend i n p token tick tm j = (tm', j', res)"
  shows "op_outcome tick tm j tm' j' res"
proof (cases "lt_account_id token \<noteq> i \<or> lt_lock_id token \<noteq> LOCK_WALLET")
  case True
  then show ?thesis using e refused [OF ok] by (auto simp: exec_currency_spend_def)
next
  case gate: False
  show ?thesis
  proof (cases "tm_accounts tm i")
    case None
    then show ?thesis using e gate refused [OF ok] by (auto simp: exec_currency_spend_def)
  next
    case (Some a)
    obtain b r where d: "debit_currency n p a = (b, r)" by (rule prod.exhaust)
    note D = debit_spec [OF d]
    show ?thesis
    proof (cases r)
      case (Inl err)
      then have "b = a" using D by simp
      then show ?thesis using e gate Some d Inl refused_same [OF ok Some] by (auto simp: exec_currency_spend_def)
    next
      case (Inr u)
      have le: "purse q b \<le> purse q a" for q using debit_spec [OF d, of q] Inr by auto
      have "no_minting tm (set_account i b tm)"
        using no_minting_one [OF ok Some _ _ le] same_goods [of b a] D ledger_okD [OF ok Some] by simp
      then show ?thesis
        using applied [of tm "set_account i b tm" tick i OP_CURRENCY_DELTA "be_bytes 8 (unat n) @ [bool_byte p, 0]"] e gate Some d Inr
        by (auto simp: exec_currency_spend_def)
    qed
  qed
qed

lemma exec_transfer_outcome:
  assumes ok: "ledger_ok tm" and e: "exec_currency_transfer f t n p token tick tm j = (tm', j', res)"
  shows "op_outcome tick tm j tm' j' res
    \<and> (\<forall>lsn. res = Inr lsn \<longrightarrow> (\<exists>a b a' b'. f \<noteq> t \<and> tm_accounts tm f = Some a \<and> tm_accounts tm t = Some b
        \<and> tm_accounts tm' = (tm_accounts tm)(f \<mapsto> a', t \<mapsto> b')
        \<and> purse p a' + unat n = purse p a \<and> purse p b' = min (purse p b + unat n) (2 ^ 64 - 1)))"
proof (cases "(lt_account_id token = f \<and> lt_lock_id token = LOCK_WALLET) \<and> f \<noteq> t \<and> tm_accounts tm f \<noteq> None")
  case False
  then show ?thesis using e refused [OF ok] by (auto simp: exec_currency_transfer_def split: if_splits)
next
  case gate: True
  then obtain a where a: "tm_accounts tm f = Some a" by blast
  show ?thesis
  proof (cases "purse p a < unat n \<or> tm_accounts tm t = None")
    case True
    then show ?thesis using e gate a refused [OF ok]
      by (auto simp: exec_currency_transfer_def Let_def purse_def word_less_nat_alt split: if_splits)
  next
    case False
    then obtain b where b: "tm_accounts tm t = Some b" by blast
    obtain a' r where d: "debit_currency n p a = (a', r)" by (rule prod.exhaust)
    note D = debit_spec [OF d]
    have r: "r = Inr ()" using debit_spec [OF d, of p] False by (cases r) auto
    let ?b = "credit_currency n p b"
    let ?tm = "set_account t ?b (set_account f a' tm)"
    have e': "log_mutation tick f OP_CURRENCY_DELTA (be_bytes 8 (unat t) @ be_bytes 8 (unat n) @ [bool_byte p]) ?tm j = (tm', j', res)"
      using e gate a b d r False
      by (auto simp: exec_currency_transfer_def Let_def purse_def word_less_nat_alt split: if_splits)
    have pa: "unat n \<le> purse p a" "purse q a' = (if q = p then purse q a - unat n else purse q a)" for q
      using debit_spec [OF d, of q] r by auto
    have le: "purse q a' + purse q ?b \<le> purse q a + purse q b" for q
      using pa(2) [of q] pa(1) credit_spec [of n p b q] by auto
    have goods: "owned k a' = owned k a" "account_ok a'" "owned k ?b = owned k b" "account_ok ?b" for k
      using same_goods [of a' a k] same_goods [of ?b b k] D credit_spec [of n p b] ledger_okD [OF ok a] ledger_okD [OF ok b]
      by simp_all
    have "no_minting tm ?tm"
      using no_minting_two [OF ok a goods(2) b goods(4) _ _ le] gate goods(1,3) by simp
    then have "op_outcome tick tm j tm' j' res" using applied [OF _ _ _ e'] by simp
    moreover have "tm' = ?tm" using e' by (simp add: log_mutation_eq)
    moreover have "purse p a' + unat n = purse p a" "purse p ?b = min (purse p b + unat n) (2 ^ 64 - 1)"
      using pa(1) pa(2) [of p] credit_spec [of n p b p] by simp_all
    moreover have "tm_accounts ?tm = (tm_accounts tm)(f \<mapsto> a', t \<mapsto> ?b)" by simp
    ultimately show ?thesis using gate a b by blast
  qed
qed

lemma exec_item_transfer_outcome:
  assumes ok: "ledger_ok tm" and q: "q \<noteq> 0" and e: "exec_item_transfer f t i q token tick tm j = (tm', j', res)"
  shows "op_outcome tick tm j tm' j' res"
proof (cases "(lt_account_id token = f \<and> lt_lock_id token = LOCK_INVENTORY) \<and> f \<noteq> t \<and> tm_accounts tm f \<noteq> None
    \<and> tm_accounts tm t \<noteq> None")
  case False
  then show ?thesis using e refused [OF ok] by (auto simp: exec_item_transfer_def split: if_splits option.splits)
next
  case gate: True
  then obtain a b where a: "tm_accounts tm f = Some a" and b: "tm_accounts tm t = Some b" by blast
  note oka = ledger_okD [OF ok a] and okb = ledger_okD [OF ok b]
  show ?thesis
  proof (cases "list_ex (\<lambda>s. case s of Some x \<Rightarrow> ii_item_id x = i \<and> ii_quantity x \<ge> q | None \<Rightarrow> False) (ac_inventory a)")
    case False
    then show ?thesis using e gate a refused [OF ok] by (auto simp: exec_item_transfer_def)
  next
    case has: True
    obtain a1 ra where r: "remove_item i q a = (a1, ra)" by (rule prod.exhaust)
    obtain b1 rb where d: "add_item i q b = (b1, rb)" by (rule prod.exhaust)
    note R = remove_item_spec [OF oka r] and A = add_item_spec [OF okb q d]
    show ?thesis
    proof (cases ra)
      case (Inl err)
      then have "a1 = a" using R by simp
      then show ?thesis using e gate a b has r Inl refused_same [OF ok a] by (auto simp: exec_item_transfer_def)
    next
      case taken: (Inr u)
      have ok1: "account_ok a1" using R by blast
      have took: "owned k a1 + (if k = i then unat q else 0) = owned k a" for k
        using remove_item_spec [OF oka r, of k] taken by simp
      have purse1: "purse p a1 = purse p a" "purse p b1 = purse p b" for p using R A by (simp_all add: purse_def)
      show ?thesis
      proof (cases rb)
        case (Inl err)
        have b1: "b1 = b" using A Inl by simp
        obtain a2 r2 where undo: "add_item i q a1 = (a2, r2)" by (rule prod.exhaust)
        note B = add_item_spec [OF ok1 q undo]
        let ?tm = "set_account f a2 (set_account t b (set_account f a1 tm))"
        have e': "tm' = ?tm" "j' = j" "res = Inl err"
          using e gate a b has r taken d Inl b1 undo by (auto simp: exec_item_transfer_def Let_def)
        have tm': "tm' = set_account f a2 tm"
          unfolding e' using gate b by (auto simp: set_account_def fun_upd_twist fun_upd_idem)
        have r2: "r2 = Inr ()"
        proof (cases r2)
          case (Inl err2)
          then have "\<forall>x. Some x \<in> set (ac_inventory a1) \<longrightarrow> ii_item_id x \<noteq> i" "None \<notin> set (ac_inventory a1)"
            using B by simp_all
          then show ?thesis using R taken by auto
        qed simp
        have le: "owned k a2 \<le> owned k a" for k
          using add_item_spec [OF ok1 q undo, of k] r2 took [of k] by (auto split: if_splits)
        have p2: "purse p a2 = purse p a" for p
          using B purse1(1) [of p] by (cases p) (simp_all add: purse_def)
        have "no_minting tm tm'" unfolding tm' using no_minting_one [OF ok a _ le] B p2 by simp
        moreover have "same_wealth tm tm'" if m: "modest tm"
        proof -
          have bound: "owned k a < 2 ^ 32" for k using m a by (simp add: modest_def)
          have "owned k a2 = owned k a" for k
            using add_item_spec [OF ok1 q undo, of k] r2 took [of k] bound [of k] by (auto split: if_splits)
          then show ?thesis unfolding tm' same_wealth_def using a p2 by auto
        qed
        ultimately show ?thesis using e' tm' by (auto simp: op_outcome_def)
      next
        case (Inr u)
        let ?tm = "set_account t b1 (set_account f a1 tm)"
        have e': "log_mutation tick f OP_INVENTORY_MUTATION
            (be_bytes 8 (unat t) @ be_bytes 4 (unat i) @ be_bytes 4 (unat q)) ?tm j = (tm', j', res)"
          using e gate a b has r taken d Inr by (auto simp: exec_item_transfer_def Let_def)
        have "owned k b1 \<le> owned k b + (if k = i then unat q else 0)" for k
          using add_item_spec [OF okb q d, of k] Inr by simp
        then have le: "owned k a1 + owned k b1 \<le> owned k a + owned k b" for k
          using took [of k] by (smt (verit) add.commute add.left_commute add_le_mono1 add_left_mono le_trans)
        have "no_minting tm ?tm"
          using no_minting_two [OF ok a ok1 b _ _ le] A gate purse1 by simp
        then show ?thesis using applied [OF _ _ _ e'] by simp
      qed
    qed
  qed
qed

lemma exec_equip_outcome:
  assumes ok: "ledger_ok tm" and e: "exec_equip i idx es token tick tm j = (tm', j', res)"
  shows "op_outcome tick tm j tm' j' res"
proof (cases "(lt_account_id token = i \<and> lt_lock_id token = LOCK_INVENTORY) \<and> EquipmentSlot_from_u8 es \<noteq> None
    \<and> tm_accounts tm i \<noteq> None")
  case False
  then show ?thesis using e refused [OF ok] by (auto simp: exec_equip_def split: if_splits option.splits)
next
  case gate: True
  then obtain slot a where slot: "EquipmentSlot_from_u8 es = Some slot" and a: "tm_accounts tm i = Some a" by blast
  obtain b r where d: "equip_item (unat idx) slot a = (b, r)" by (rule prod.exhaust)
  note D = equip_item_spec [OF ledger_okD [OF ok a] d]
  show ?thesis
  proof (cases r)
    case (Inl err)
    then have "b = a" using D by simp
    then show ?thesis using e gate slot a d Inl refused_same [OF ok a] by (auto simp: exec_equip_def)
  next
    case (Inr u)
    have "purse q b = purse q a" for q using D by (cases q) (simp_all add: purse_def)
    then have "no_minting tm (set_account i b tm)" using no_minting_one [OF ok a] D by simp
    then show ?thesis
      using applied [of tm "set_account i b tm" tick i OP_INVENTORY_MUTATION "[1, idx, es]"] e gate slot a d Inr
      by (auto simp: exec_equip_def)
  qed
qed

lemma exec_unequip_outcome:
  assumes ok: "ledger_ok tm" and e: "exec_unequip i es token tick tm j = (tm', j', res)"
  shows "op_outcome tick tm j tm' j' res"
proof (cases "(lt_account_id token = i \<and> lt_lock_id token = LOCK_INVENTORY) \<and> EquipmentSlot_from_u8 es \<noteq> None
    \<and> tm_accounts tm i \<noteq> None")
  case False
  then show ?thesis using e refused [OF ok] by (auto simp: exec_unequip_def split: if_splits option.splits)
next
  case gate: True
  then obtain slot a where slot: "EquipmentSlot_from_u8 es = Some slot" and a: "tm_accounts tm i = Some a" by blast
  obtain b r where d: "unequip_item slot a = (b, r)" by (rule prod.exhaust)
  note D = unequip_item_spec [OF ledger_okD [OF ok a] d]
  show ?thesis
  proof (cases r)
    case (Inl err)
    then have "b = a" using D by simp
    then show ?thesis using e gate slot a d Inl refused_same [OF ok a] by (auto simp: exec_unequip_def)
  next
    case (Inr item)
    have "purse q b = purse q a" for q using D by (cases q) (simp_all add: purse_def)
    then have "no_minting tm (set_account i b tm)" using no_minting_one [OF ok a] D by simp
    then show ?thesis
      using applied [of tm "set_account i b tm" tick i OP_INVENTORY_MUTATION "[2, es] @ be_bytes 4 (unat item)"] e gate slot a d Inr
      by (auto simp: exec_unequip_def)
  qed
qed

text \<open>
  A transfer of no items, which the code accepts: it may leave an empty stack in the target, but
  every account owns what it owned before.
\<close>

lemma same_wealth_trans:
  assumes "same_wealth tm tm1" and "tm_accounts tm1 i = Some a" "\<And>k. owned k b = owned k a" "\<And>q. purse q b = purse q a"
  shows "same_wealth tm (set_account i b tm1)"
  using assms unfolding same_wealth_def by (auto split: if_splits)

lemma same_wealth_total:
  assumes "same_wealth tm tm'"
  shows "total (owned k) tm' = total (owned k) tm" "total (purse q) tm' = total (purse q) tm"
proof -
  have d: "dom (tm_accounts tm') = dom (tm_accounts tm)" using assms by (simp add: same_wealth_def)
  have "owned k (the (tm_accounts tm' x)) = owned k (the (tm_accounts tm x))
      \<and> purse q (the (tm_accounts tm' x)) = purse q (the (tm_accounts tm x))" if x: "x \<in> dom (tm_accounts tm)" for x
  proof -
    obtain a b where "tm_accounts tm x = Some a" "tm_accounts tm' x = Some b" using x x [folded d] by blast
    then show ?thesis using assms by (simp add: same_wealth_def)
  qed
  then show "total (owned k) tm' = total (owned k) tm" "total (purse q) tm' = total (purse q) tm"
    unfolding total_def d by (auto intro!: sum.cong)
qed

lemma sat_add_zero: "saturating_add (x :: u32) 0 = x"
  using unat_saturating_add [of x 0] unat_less_pow [of x] by (simp add: word_unat_eq_iff)

lemma add_no_items:
  assumes "add_item i 0 a = (a', res)"
  shows "owned k a' = owned k a \<and> purse q a' = purse q a"
proof (cases "find_index (has_key ii_item_id i) (ac_inventory a)")
  case (Some n)
  note f = found_stack [OF Some]
  have "owned k a' + stack_count k (ac_inventory a ! n) = owned k a + stack_count k (ac_inventory a ! n)"
    using assms Some f owned_set_slot [of n a k "ac_inventory a ! n"]
    by (auto simp: add_item_def Let_def sat_add_zero)
  then show ?thesis using assms Some by (auto simp: add_item_def Let_def purse_def)
next
  case None
  show ?thesis
  proof (cases "find_index (\<lambda>s. s = None) (ac_inventory a)")
    case free: (Some n)
    have n: "n < length (ac_inventory a)" "ac_inventory a ! n = None" using find_index_SomeD [OF free] by simp_all
    show ?thesis using assms None free n owned_set_slot [OF n(1), of k "Some \<lparr>ii_item_id = i, ii_quantity = 0\<rparr>"]
      by (auto simp: add_item_def purse_def)
  qed (use assms None in \<open>auto simp: add_item_def\<close>)
qed

lemma exec_no_items_outcome:
  assumes ok: "ledger_ok tm" and e: "exec_item_transfer f t i 0 token tick tm j = (tm', j', res)"
  shows "same_wealth tm tm' \<and> (j' = j \<and> (\<exists>err. res = Inl err)
    \<or> (\<exists>acc opc pl. length pl \<le> 128 \<and> wal_append tick acc 0 opc pl j = (j', res)))"
proof (cases "(lt_account_id token = f \<and> lt_lock_id token = LOCK_INVENTORY) \<and> f \<noteq> t \<and> tm_accounts tm f \<noteq> None
    \<and> tm_accounts tm t \<noteq> None \<and> list_ex (\<lambda>s. case s of Some x \<Rightarrow> ii_item_id x = i \<and> ii_quantity x \<ge> 0 | None \<Rightarrow> False)
      (ac_inventory (the (tm_accounts tm f)))")
  case False
  then have "tm' = tm \<and> j' = j \<and> isl res"
    using e unfolding exec_item_transfer_def
    by (cases "tm_accounts tm f"; cases "tm_accounts tm t") (auto split: if_splits simp del: word_zero_le word_coorder.extremum)
  then show ?thesis by (auto simp: isl_def)
next
  case gate: True
  then obtain a b where a: "tm_accounts tm f = Some a" and b: "tm_accounts tm t = Some b" by blast
  obtain a1 ra where r: "remove_item i 0 a = (a1, ra)" by (rule prod.exhaust)
  obtain b1 rb where d: "add_item i 0 b = (b1, rb)" by (rule prod.exhaust)
  obtain a2 rc where u: "add_item i 0 a1 = (a2, rc)" by (rule prod.exhaust)
  have R: "owned k a1 = owned k a" "purse q a1 = purse q a" for k q
    using remove_item_spec [OF ledger_okD [OF ok a] r, of k] by (auto simp: purse_def split: sum.splits if_splits)
  have same1: "same_wealth tm (set_account f a1 tm)" by (rule same_wealth_trans [OF same_wealth_refl a R])
  have t: "tm_accounts (set_account f a1 tm) t = Some b" using gate b by auto
  have same2: "same_wealth tm (set_account t b1 (set_account f a1 tm))"
    by (rule same_wealth_trans [OF same1 t]) (use add_no_items [OF d] in simp_all)
  have f1: "tm_accounts (set_account t b1 (set_account f a1 tm)) f = Some a1" using gate by auto
  have same3: "same_wealth tm (set_account f a2 (set_account t b1 (set_account f a1 tm)))"
    by (rule same_wealth_trans [OF same2 f1]) (use add_no_items [OF u] in simp_all)
  show ?thesis
  proof (cases ra)
    case (Inl err)
    then show ?thesis using e gate a b r same1 by (auto simp: exec_item_transfer_def)
  next
    case taken: (Inr u)
    show ?thesis
    proof (cases rb)
      case (Inl err)
      then show ?thesis using e gate a b r taken d u same3 by (auto simp: exec_item_transfer_def Let_def)
    next
      case (Inr v)
      have "log_mutation tick f OP_INVENTORY_MUTATION (be_bytes 8 (unat t) @ be_bytes 4 (unat i) @ be_bytes 4 (unat (0 :: u32)))
          (set_account t b1 (set_account f a1 tm)) j = (tm', j', res)"
        using e gate a b r taken d Inr by (auto simp: exec_item_transfer_def Let_def)
      moreover have "length (be_bytes 8 (unat t) @ be_bytes 4 (unat i) @ be_bytes 4 (unat (0 :: u32))) \<le> 128" by simp
      ultimately show ?thesis using same2 unfolding log_mutation_eq by blast
    qed
  qed
qed

fun op_positive :: "TransactionOp \<Rightarrow> bool" where
  "op_positive (ItemTransfer f t i q) \<longleftrightarrow> q \<noteq> 0"
| "op_positive _ \<longleftrightarrow> True"

lemma exec_op_outcome:
  assumes "ledger_ok tm" "op_positive op" "exec_op op token tick tm j = (tm', j', res)"
  shows "op_outcome tick tm j tm' j' res"
  using assms
  by (cases op) (auto simp: exec_spend_outcome exec_transfer_outcome [THEN conjunct1] exec_item_transfer_outcome
      exec_equip_outcome exec_unequip_outcome)

text \<open>What any operation, of any quantity, does to well-formed accounts.\<close>

lemma exec_op_effect:
  assumes ok: "ledger_ok tm" and e: "exec_op op token tick tm j = (tm', j', res)"
  shows "(op_positive op \<longrightarrow> ledger_ok tm') \<and> (\<forall>k. total (owned k) tm' \<le> total (owned k) tm)
    \<and> (\<forall>q. total (purse q) tm' \<le> total (purse q) tm)
    \<and> (j' = j \<and> (\<exists>err. res = Inl err) \<and> (modest tm \<longrightarrow> same_wealth tm tm')
      \<or> (\<exists>acc opc pl. length pl \<le> 128 \<and> wal_append tick acc 0 opc pl j = (j', res)))"
proof (cases "op_positive op")
  case True
  show ?thesis using exec_op_outcome [OF ok True e] unfolding op_outcome_def no_minting_def by blast
next
  case False
  then obtain f t i where op: "op = ItemTransfer f t i 0" by (cases op) auto
  note S = exec_no_items_outcome [OF ok e [unfolded op exec_op.simps]]
  show ?thesis using S same_wealth_total [OF S [THEN conjunct1]] False by fastforce
qed

lemma execute_cases:
  assumes "execute_transaction tx op s token tick tm j = (tm', j', res)"
  obtains (duplicate) "tm_executed_txs tm tx \<noteq> None" "tm' = tm" "j' = j" "res = Inl (DuplicateTransaction tx)"
  | (stale) e where "tm_executed_txs tm tx = None" "validate_mutation token s tick (tm_lock_registry tm) = Inl e"
      "tm' = tm" "j' = j" "res = Inl (stale_session e s)"
  | (failed) e where "tm_executed_txs tm tx = None" "validate_mutation token s tick (tm_lock_registry tm) = Inr ()"
      "exec_op op token tick tm j = (tm', j', Inl e)" "res = Inl e"
  | (committed) tm1 lsn where "tm_executed_txs tm tx = None" "validate_mutation token s tick (tm_lock_registry tm) = Inr ()"
      "exec_op op token tick tm j = (tm1, j', Inr lsn)" "res = Inr lsn"
      "tm' = tm1\<lparr>tm_executed_txs := (tm_executed_txs tm1)(tx \<mapsto> Committed lsn)\<rparr>"
  using assms unfolding execute_transaction_def by (auto split: if_splits sum.splits prod.splits)

section \<open>The properties of a transaction\<close>

lemma append_with_room:
  assumes "ring_ok (wj_ring j)" "rs_len (wj_ring j) < rs_cap (wj_ring j)" "length pl \<le> 128"
    "wal_append tick acc ent opc pl j = (j', res)"
  shows "\<exists>lsn. res = Inr lsn"
proof -
  obtain r where r: "WalRecord_new (saturating_add (wj_current_lsn j) 1) tick acc ent opc pl = Inr r"
    using assms(3) by (simp add: WalRecord_new_def MAX_WAL_PAYLOAD_LEN_def Let_def)
  obtain ring pr where p: "wal_try_push r (wj_ring j) = (ring, pr)" by (rule prod.exhaust)
  have "pr = Inr ()" using push_contents [OF assms(1) p] assms(2) by simp
  then show ?thesis using assms(4) r p by (auto simp: wal_append_def Let_def)
qed

text \<open>
  C2. A transaction mints nothing and fails as a whole. On well-formed accounts (no empty stack, every
  worn item allowed in its slot) no transaction, whatever its operation and quantity, makes an item
  more numerous over all accounts or increases the sum of a currency. The accounts stay well formed
  unless the operation is an item transfer of quantity 0: the code accepts it and may leave an empty
  stack in the target, from which an item can be worn that nobody gave away
  (\<open>empty_stack_becomes_an_item\<close>), so the bound does not carry over to what follows such a transfer.
  When a transaction reports an error, the journal has room and no account owns \<open>2 ^ 32\<close> units of an
  item, every account owns what it owned before and the journal is unchanged; with a full journal
  that fails (\<open>full_journal_keeps_debit\<close>). A successful currency transfer moves exactly the amount,
  up to the 64-bit limit of the receiver, and changes no third account.
\<close>

theorem transactions_mint_nothing:
  assumes ok: "ledger_ok tm" and e: "execute_transaction tx op s token tick tm j = (tm', j', res)"
  shows "(op_positive op \<longrightarrow> ledger_ok tm')
    \<and> (\<forall>k. total (owned k) tm' \<le> total (owned k) tm) \<and> (\<forall>p. total (purse p) tm' \<le> total (purse p) tm)
    \<and> (\<forall>err. res = Inl err \<and> modest tm \<and> ring_ok (wj_ring j) \<and> rs_len (wj_ring j) < rs_cap (wj_ring j) \<longrightarrow>
         same_wealth tm tm' \<and> j' = j)
    \<and> (\<forall>f t n p lsn. op = CurrencyTransfer f t n p \<and> res = Inr lsn \<longrightarrow>
         (\<exists>a b a' b'. f \<noteq> t \<and> tm_accounts tm f = Some a \<and> tm_accounts tm t = Some b
            \<and> tm_accounts tm' = (tm_accounts tm)(f \<mapsto> a', t \<mapsto> b')
            \<and> purse p a' + unat n = purse p a \<and> purse p b' = min (purse p b + unat n) (2 ^ 64 - 1)))"
  using e
proof (cases rule: execute_cases)
  case (failed err)
  note O = exec_op_effect [OF ok failed(3)]
  have "same_wealth tm tm' \<and> j' = j" if "modest tm" "ring_ok (wj_ring j)" "rs_len (wj_ring j) < rs_cap (wj_ring j)"
    using O that append_with_room [OF that(2,3)] by blast
  then show ?thesis using failed(4) O by simp
next
  case (committed tm1 lsn)
  note O = exec_op_effect [OF ok committed(3)]
  have same: "tm_accounts tm' = tm_accounts tm1" using committed(5) by simp
  then have eqs: "total f tm' = total f tm1" "ledger_ok tm' = ledger_ok tm1" for f
    by (simp_all add: total_def ledger_ok_def)
  have moved: "\<exists>a b a' b'. f \<noteq> t \<and> tm_accounts tm f = Some a \<and> tm_accounts tm t = Some b
      \<and> tm_accounts tm' = (tm_accounts tm)(f \<mapsto> a', t \<mapsto> b')
      \<and> purse p a' + unat n = purse p a \<and> purse p b' = min (purse p b + unat n) (2 ^ 64 - 1)"
    if "op = CurrencyTransfer f t n p" for f t n p
  proof -
    have "exec_currency_transfer f t n p token tick tm j = (tm1, j', Inr lsn)"
      using committed(3) unfolding that exec_op.simps .
    from exec_transfer_outcome [OF ok this, THEN conjunct2, rule_format, OF refl]
    show ?thesis unfolding same .
  qed
  show ?thesis
  proof (intro conjI allI impI; (elim conjE)?)
    show "ledger_ok tm'" if "op_positive op" using O that unfolding eqs by blast
    show "total (owned k) tm' \<le> total (owned k) tm" "total (purse p) tm' \<le> total (purse p) tm" for k p
      using O unfolding eqs by blast+
  qed (use committed(4) moved in \<open>blast | simp\<close>)+
qed (use ok in simp_all)

text \<open>
  Everything that happens to a manager and its journal between two transactions of interest; the
  journal may meanwhile be flushed or change in any other way.
\<close>

inductive tx_steps ::
  "TransactionManager \<times> 's WriteAheadJournal \<Rightarrow> TransactionManager \<times> 's WriteAheadJournal \<Rightarrow> bool" for c
where
  here: "tx_steps c c"
| ran: "tx_steps c (tm1, j) \<Longrightarrow> execute_transaction tx op s token tick tm1 j = (tm2, j2, res) \<Longrightarrow> tx_steps c (tm2, j2)"
| locked: "tx_steps c (tm1, j) \<Longrightarrow> tm_acquire_lock a l s tick lease force tm1 = (tm2, r) \<Longrightarrow> tx_steps c (tm2, j)"
| registered: "tx_steps c (tm1, j) \<Longrightarrow> tx_steps c (register_account state tm1, j)"
| journal: "tx_steps c (tm1, j) \<Longrightarrow> tx_steps c (tm1, j2)"

text \<open>Operations keep the locks and the set of executed transactions.\<close>

lemma exec_op_frame:
  assumes "exec_op op token tick tm j = (tm', j', res)"
  shows "tm_lock_registry tm' = tm_lock_registry tm \<and> tm_executed_txs tm' = tm_executed_txs tm"
  using assms
  by (cases op)
    (auto simp: exec_currency_spend_def exec_currency_transfer_def exec_item_transfer_def exec_equip_def exec_unequip_def
      Let_def log_mutation_eq split: if_splits option.splits prod.splits sum.splits)

lemma execute_frame:
  assumes "execute_transaction tx op s token tick tm j = (tm', j', res)"
  shows "tm_lock_registry tm' = tm_lock_registry tm
    \<and> tm_executed_txs tm' = (case res of Inl e \<Rightarrow> tm_executed_txs tm | Inr lsn \<Rightarrow> (tm_executed_txs tm)(tx \<mapsto> Committed lsn))
    \<and> (\<forall>lsn. res = Inr lsn \<longrightarrow> tm_executed_txs tm tx = None)"
  using assms by (cases rule: execute_cases) (auto dest: exec_op_frame)

lemma steps_executed:
  "tx_steps c c' \<Longrightarrow> tm_executed_txs (fst c) tx \<noteq> None \<Longrightarrow> tm_executed_txs (fst c') tx \<noteq> None"
proof (induction rule: tx_steps.induct)
  case (ran tm1 j tx' op s token tick tm2 j2 res)
  then show ?case using execute_frame [OF ran.hyps(2)] by (auto split: sum.splits)
qed (auto simp: tm_acquire_lock_def register_account_def split: prod.splits)

lemma steps_kept: "tx_steps c c' \<Longrightarrow> kept k (tm_lock_registry (fst c)) (tm_lock_registry (fst c'))"
proof (induction rule: tx_steps.induct)
  case here
  show ?case by (rule kept.here)
next
  case (ran tm1 j tx' op s token tick tm2 j2 res)
  then show ?case using execute_frame [OF ran.hyps(2)] by simp
next
  case (locked tm1 j a l s tick lease force tm2 r)
  have "tm_lock_registry tm2 = fst (acquire_lock a l s tick lease force (tm_lock_registry tm1))"
    using locked.hyps(2) by (auto simp: tm_acquire_lock_def split: prod.splits)
  then show ?case using kept.acquired [OF locked.IH] by simp
next
  case (registered tm1 j state)
  then show ?case by (simp add: register_account_def)
next
  case (journal tm1 j j2)
  then show ?case by simp
qed

text \<open>
  C9. A transaction executes at most once, and only for the holder of the lock. After it committed,
  no later attempt under its id changes anything, whatever happened in between; and an attempt
  without a token that the lock table accepts for the caller changes nothing either.
\<close>

theorem transaction_executes_once:
  assumes first: "execute_transaction tx op s token tick tm j = (tm1, j1, Inr lsn)" and later: "tx_steps (tm1, j1) (tm2, j2)"
  shows "(\<forall>op' s' token' tick' j'. execute_transaction tx op' s' token' tick' tm2 j' = (tm2, j', Inl (DuplicateTransaction tx)))
    \<and> (\<forall>tx' op' s' token' tick' j'. validate_mutation token' s' tick' (tm_lock_registry tm2) \<noteq> Inr () \<longrightarrow>
         (\<exists>e. execute_transaction tx' op' s' token' tick' tm2 j' = (tm2, j', Inl e)))"
proof -
  have "tm_executed_txs tm1 tx \<noteq> None" using execute_frame [OF first] by simp
  then have "tm_executed_txs tm2 tx \<noteq> None" using steps_executed [OF later, of tx] by simp
  then show ?thesis by (auto simp: execute_transaction_def split: sum.splits)
qed

text \<open>
  C13. A fenced session cannot transact. Once another session has been granted the lock of a
  resource, no transaction under the first session's token changes anything, in no state the manager
  reaches: the manager never releases a lock, so a takeover is final.
\<close>

theorem fenced_session_cannot_transact:
  assumes run: "lock_run 1024 (tm_lock_registry tm0)"
    and first: "tm_acquire_lock a l s tk lease force tm0 = (tm1, Inr tok1)" and between: "tx_steps (tm1, j1) (tm2, j2)"
    and second: "tm_acquire_lock a l s' tk' lease' force' tm2 = (tm3, Inr tok2)" and other: "s' \<noteq> s"
    and small: "lt_generation tok1 \<noteq> - 1" and after: "tx_steps (tm3, j3) (tm4, j4)"
  shows "\<exists>e. execute_transaction tx op session tok1 tick tm4 j = (tm4, j, Inl e)"
proof -
  have acq: "acquire_lock a l s tk lease force (tm_lock_registry tm0) = (tm_lock_registry tm1, Inr tok1)"
    "acquire_lock a l s' tk' lease' force' (tm_lock_registry tm2) = (tm_lock_registry tm3, Inr tok2)"
    using first second by (auto simp: tm_acquire_lock_def split: prod.splits)
  have "\<exists>e. validate_mutation tok1 session tick (tm_lock_registry tm4) = Inl e"
    using takeover_fences [OF run acq(1) steps_kept [OF between, simplified] acq(2) other small
      steps_kept [OF after, simplified]] by blast
  then show ?thesis by (auto simp: execute_transaction_def)
qed



section \<open>Examples\<close>

text \<open>
  An account with ten units of premium currency under a lock on its wallet that session 10 holds,
  and a new journal.
\<close>

definition rich :: AccountState where
  "rich = credit_currency 10 True (AccountState_new 7)"

definition tm_example :: TransactionManager where
  "tm_example = \<lparr>tm_lock_registry = lock_table (lock_token 1 10 0), tm_accounts = [7 \<mapsto> rich], tm_executed_txs = Map.empty\<rparr>"

lemma tm_example_ok: "ledger_ok tm_example"
proof -
  have "account_ok rich"
    using account_ok_new [of 7] credit_spec [of 10 True "AccountState_new 7"] by (simp add: rich_def account_ok_def)
  then show ?thesis by (simp add: ledger_ok_def tm_example_def)
qed

lemma spend_example:
  assumes "0 < CAP"
  shows "\<exists>tm' j' lsn. execute_transaction 5 (CurrencySpend 7 4 True) 10 (lock_token 1 10 0) 1 tm_example
      (WriteAheadJournal_new CAP sink) = (tm', j', Inr lsn)"
proof -
  have v: "validate_mutation (lock_token 1 10 0) 10 1 (lock_table (lock_token 1 10 0)) = Inr ()"
    by (simp add: lock_example_simps)
  let ?j = "WriteAheadJournal_new CAP sink" and ?pl = "be_bytes 8 (unat (4 :: u64)) @ [bool_byte True, 0]"
  obtain j' r where w: "wal_append 1 7 0 OP_CURRENCY_DELTA ?pl ?j = (j', r)" by (rule prod.exhaust)
  have j: "ring_ok (wj_ring ?j)" "rs_len (wj_ring ?j) < rs_cap (wj_ring ?j)"
    using assms by (simp_all add: WriteAheadJournal_new_def WalRingBuffer_new_def ring_ok_def)
  obtain lsn where "r = Inr lsn" using append_with_room [OF j _ w] by auto
  moreover obtain b where "debit_currency 4 True rich = (b, Inr ())"
    by (simp add: debit_currency_def rich_def credit_currency_def AccountState_new_def saturating_add_def)
  ultimately show ?thesis using v w
    by (simp add: execute_transaction_def tm_example_def exec_currency_spend_def log_mutation_def
        lock_token_def LOCK_WALLET_def)
qed

theorem transactions_mint_nothing_witness:
  "\<exists>tm' j' lsn. execute_transaction 5 (CurrencySpend 7 4 True) 10 (lock_token 1 10 0) 1 tm_example
      (WriteAheadJournal_new 4 MockDurableStorage_new) = (tm', j', Inr lsn) \<and> total (purse True) tm' \<le> total (purse True) tm_example"
proof -
  obtain tm' j' lsn where e: "execute_transaction 5 (CurrencySpend 7 4 True) 10 (lock_token 1 10 0) 1 tm_example
      (WriteAheadJournal_new 4 MockDurableStorage_new) = (tm', j', Inr lsn)"
    using spend_example [of 4 MockDurableStorage_new] by auto
  from transactions_mint_nothing [OF tm_example_ok e] e show ?thesis by simp
qed

theorem transaction_executes_once_witness:
  "\<exists>tm' j' lsn. execute_transaction 5 (CurrencySpend 7 4 True) 10 (lock_token 1 10 0) 1 tm_example
      (WriteAheadJournal_new 4 MockDurableStorage_new) = (tm', j', Inr lsn)
    \<and> execute_transaction 5 (CurrencySpend 7 4 True) 10 (lock_token 1 10 0) 1 tm' j' = (tm', j', Inl (DuplicateTransaction 5))"
proof -
  obtain tm' j' lsn where e: "execute_transaction 5 (CurrencySpend 7 4 True) 10 (lock_token 1 10 0) 1 tm_example
      (WriteAheadJournal_new 4 MockDurableStorage_new) = (tm', j', Inr lsn)"
    using spend_example [of 4 MockDurableStorage_new] by auto
  note again = transaction_executes_once [OF e tx_steps.here, THEN conjunct1, rule_format]
  show ?thesis by (intro exI conjI) (rule e, rule again)
qed

theorem fenced_session_cannot_transact_witness:
  "\<exists>tm1 tok1 tm3 tok2 e. tm_acquire_lock 7 0 10 0 100 False TransactionManager_new = (tm1, Inr tok1)
    \<and> tm_acquire_lock 7 0 20 5 100 True tm1 = (tm3, Inr tok2)
    \<and> execute_transaction 5 (CurrencySpend 7 4 True) 10 tok1 6 tm3 (WriteAheadJournal_new 4 MockDurableStorage_new)
      = (tm3, WriteAheadJournal_new 4 MockDurableStorage_new, Inl e)"
proof -
  let ?r0 = "GenerationLockRegistry_new 1024"
  have run: "lock_run 1024 ?r0" by (rule lock_run.opened)
  have h0: "held ?r0 k = None" for k
    by (simp add: GenerationLockRegistry_new_def held_def slot_lookup_None lock_entry_slot_def LockEntry_default_def)
  have n0: "lr_count ?r0 < length (lr_entries ?r0)" by (simp add: GenerationLockRegistry_new_def)
  obtain r1 res1 where a1: "acquire_lock 7 0 10 0 100 False ?r0 = (r1, res1)" by (rule prod.exhaust)
  note R1 = acquire_refines [OF conjunct1 [OF lock_run_ok [OF run]] a1]
  then have t1: "res1 = Inr (lock_token 1 10 0)" "held r1 (7, 0) = Some (lock_token 1 10 0)"
    using n0 by (simp_all add: spec_acquire_def h0 lock_token_def)
  obtain r2 res2 where a2: "acquire_lock 7 0 20 5 100 True r1 = (r2, res2)" by (rule prod.exhaust)
  have "\<exists>tok2. res2 = Inr tok2"
    using acquire_refines [OF conjunct1 [OF R1] a2] t1 by (simp add: spec_acquire_def lock_token_def)
  then obtain tok2 where t2: "res2 = Inr tok2" by blast
  let ?tm0 = TransactionManager_new
  have m: "tm_acquire_lock 7 0 10 0 100 False ?tm0 = (?tm0\<lparr>tm_lock_registry := r1\<rparr>, Inr (lock_token 1 10 0))"
    "tm_acquire_lock 7 0 20 5 100 True (?tm0\<lparr>tm_lock_registry := r1\<rparr>) = (?tm0\<lparr>tm_lock_registry := r2\<rparr>, Inr tok2)"
    using a1 a2 t1(1) t2 by (simp_all add: tm_acquire_lock_def TransactionManager_new_def)
  have "lt_generation (lock_token 1 10 0) \<noteq> - 1" by (simp add: lock_token_def)
  from fenced_session_cannot_transact [OF _ m(1) tx_steps.here m(2) _ this tx_steps.here] run m
  show ?thesis by (simp add: TransactionManager_new_def)
qed


text \<open>
  Two ways the source falls short of its promises. With a full journal the debit stays while the
  transaction is reported as failed and its id stays free, so that a retry debits again; and a
  transfer of no items leaves an empty stack behind, which the receiver can wear.
\<close>

lemma full_journal_keeps_debit:
  assumes "tm_accounts tm i = Some a" and "lt_account_id token = i" "lt_lock_id token = LOCK_WALLET"
    and "debit_currency n p a = (b, Inr ())" and "rs_cap (wj_ring j) \<le> rs_len (wj_ring j)"
  shows "exec_currency_spend i n p token tick tm j = (set_account i b tm, j, Inl WalBufferFull)"
  using assms
  by (simp add: exec_currency_spend_def log_mutation_def wal_append_def WalRecord_new_def MAX_WAL_PAYLOAD_LEN_def
      wal_try_push_def Let_def)

lemma empty_stack_becomes_an_item:
  "let b = fst (add_item 1001 0 (AccountState_new 2)); c = fst (equip_item 0 MainHand b)
   in owned 1001 b = 0 \<and> owned 1001 c = 1"
proof -
  have i: "ac_inventory (AccountState_new 2) = None # replicate 63 None" "ac_equipment (AccountState_new 2) = replicate 9 None"
    by (simp_all add: AccountState_new_def MAX_INVENTORY_SLOTS_def EquipmentContainer_new_def NUM_EQUIPMENT_SLOTS_def numeral_eq_Suc)
  have "find_index (has_key ii_item_id 1001) ((None :: InventoryItem option) # replicate 63 None) = None"
    by (auto simp: find_index_None_iff)
  then have b: "fst (add_item 1001 0 (AccountState_new 2))
      = bump ((AccountState_new 2)\<lparr>ac_inventory := Some \<lparr>ii_item_id = 1001, ii_quantity = 0\<rparr> # replicate 63 None\<rparr>)" (is "_ = ?b")
    by (simp add: add_item_def i)
  have e: "equip MainHand 1001 (replicate 9 None) = ((replicate 9 None)[2 := Some 1001], Inr None)"
    by (simp add: equip_def get_item_definition_def item_def_def is_compatible_def slot_idx_def)
  have c: "fst (equip_item 0 MainHand ?b) = bump (?b\<lparr>ac_equipment := (replicate 9 None)[2 := Some 1001], ac_inventory := replicate 64 None\<rparr>)"
    using replicate_Suc [of 63 "None :: InventoryItem option"] by (simp add: equip_item_def MAX_INVENTORY_SLOTS_def i e)
  have "replicate 9 (None :: u32 option) = [None, None, None, None, None, None, None, None, None]"
    by (simp add: numeral_eq_Suc)
  then show ?thesis unfolding Let_def b c
    by (simp add: owned_def i worn_count_def sum_list_replicate)
qed

end
