(* ===== verification/ItemGraph.thy ===== *)
theory ItemGraph
  imports Prelude
begin

text \<open>
  The container and item graph of \<^verbatim>\<open>eidolon-core/src/item_graph.rs\<close>: item instances with
  durability, containers that are bounded arrays of lockable slots, and their operations (insert,
  remove, split and merge of stacks). A method on \<open>&mut self\<close> returns the container it leaves
  behind together with its result, on the error paths too. A container built by
  \<open>Container_new\<close> has at slot \<open>i\<close> the slot index \<open>i\<close>; \<open>container_ok\<close> keeps that, so the
  unchecked \<open>self.slots[slot_idx]\<close> of the source is always in range.
\<close>

section \<open>Items\<close>

definition ITEM_FLAG_SOULBOUND :: u16 where
  "ITEM_FLAG_SOULBOUND = push_bit 0 1"

definition ITEM_FLAG_DAMAGED :: u16 where
  "ITEM_FLAG_DAMAGED = push_bit 1 1"

definition ITEM_FLAG_TRANSACTION_LOCKED :: u16 where
  "ITEM_FLAG_TRANSACTION_LOCKED = push_bit 2 1"

definition ITEM_FLAG_CONTAINER :: u16 where
  "ITEM_FLAG_CONTAINER = push_bit 3 1"

datatype ContainerError =
    SlotOutOfRange
  | SlotNotEmpty
  | SlotEmpty
  | SlotLocked
  | CapacityFull
  | WeightLimitExceeded
  | ItemTypeMismatch
  | StackLimitExceeded
  | InvalidQuantity
  | ItemNotFound
  | RecursiveNestingNotAllowed

record ItemInstance =
  it_instance_id :: u64
  it_type_id :: u32
  it_quantity :: u32
  it_durability :: u16
  it_max_durability :: u16
  it_flags :: u16
  it_creator_id :: "u64 option"
  it_nested_container_id :: "u64 option"

definition ItemInstance_new :: "u64 \<Rightarrow> u32 \<Rightarrow> u32 \<Rightarrow> u16 \<Rightarrow> ItemInstance" where
  "ItemInstance_new instance_id type_id quantity max_durability =
     \<lparr>it_instance_id = instance_id, it_type_id = type_id, it_quantity = max quantity 1,
      it_durability = max_durability, it_max_durability = max_durability, it_flags = 0,
      it_creator_id = None, it_nested_container_id = None\<rparr>"

definition new_crafted :: "u64 \<Rightarrow> u32 \<Rightarrow> u32 \<Rightarrow> u16 \<Rightarrow> u64 \<Rightarrow> ItemInstance" where
  "new_crafted instance_id type_id quantity max_durability creator_id =
     \<lparr>it_instance_id = instance_id, it_type_id = type_id, it_quantity = max quantity 1,
      it_durability = max_durability, it_max_durability = max_durability, it_flags = 0,
      it_creator_id = Some creator_id, it_nested_container_id = None\<rparr>"

definition new_container :: "u64 \<Rightarrow> u32 \<Rightarrow> u16 \<Rightarrow> u64 \<Rightarrow> ItemInstance" where
  "new_container instance_id type_id max_durability nested_container_id =
     \<lparr>it_instance_id = instance_id, it_type_id = type_id, it_quantity = 1,
      it_durability = max_durability, it_max_durability = max_durability, it_flags = ITEM_FLAG_CONTAINER,
      it_creator_id = None, it_nested_container_id = Some nested_container_id\<rparr>"

definition apply_wear :: "u16 \<Rightarrow> ItemInstance \<Rightarrow> ItemInstance \<times> bool" where
  "apply_wear wear_points item =
     (let item = item\<lparr>it_durability := saturating_sub (it_durability item) wear_points\<rparr> in
      if it_durability item = 0 then (item\<lparr>it_flags := it_flags item OR ITEM_FLAG_DAMAGED\<rparr>, True)
      else (item, False))"

definition repair :: "u16 \<Rightarrow> ItemInstance \<Rightarrow> ItemInstance" where
  "repair repair_points item =
     (let item = item\<lparr>it_durability := min (saturating_add (it_durability item) repair_points) (it_max_durability item)\<rparr> in
      if it_durability item > 0 then item\<lparr>it_flags := it_flags item AND NOT ITEM_FLAG_DAMAGED\<rparr> else item)"

definition is_broken :: "ItemInstance \<Rightarrow> bool" where
  "is_broken item \<longleftrightarrow> it_durability item = 0"

section \<open>Containers\<close>

datatype ContainerType =
  PlayerInventory | PlayerEquipment | NestedBag | BankVault | StructureChest | VendorKiosk | CorpseLoot

record ContainerSlot =
  cs_slot_index :: u16
  cs_item :: "ItemInstance option"
  cs_is_locked :: bool

definition ContainerSlot_new :: "u16 \<Rightarrow> ContainerSlot" where
  "ContainerSlot_new slot_index = \<lparr>cs_slot_index = slot_index, cs_item = None, cs_is_locked = False\<rparr>"

record Container =
  co_container_id :: u64
  co_owner_id :: u64
  co_container_type :: ContainerType
  co_capacity :: u16
  co_max_weight_grams :: u32
  co_current_weight_grams :: u32
  co_slots :: "ContainerSlot list"

definition Container_new :: "u64 \<Rightarrow> u64 \<Rightarrow> ContainerType \<Rightarrow> u16 \<Rightarrow> u32 \<Rightarrow> Container" where
  "Container_new container_id owner_id container_type capacity max_weight_grams =
     \<lparr>co_container_id = container_id, co_owner_id = owner_id, co_container_type = container_type,
      co_capacity = capacity, co_max_weight_grams = max_weight_grams, co_current_weight_grams = 0,
      co_slots = map (\<lambda>i. ContainerSlot_new (word_of_nat i)) [0..<unat capacity]\<rparr>"

definition occupied_count :: "Container \<Rightarrow> nat" where
  "occupied_count c = length (filter (\<lambda>s. cs_item s \<noteq> None) (co_slots c))"

definition free_slot_count :: "Container \<Rightarrow> nat" where
  "free_slot_count c = length (filter (\<lambda>s. cs_item s = None) (co_slots c))"

definition slot_is_free :: "ContainerSlot \<Rightarrow> bool" where
  "slot_is_free s \<longleftrightarrow> cs_item s = None \<and> \<not> cs_is_locked s"

definition find_first_empty_slot :: "Container \<Rightarrow> u16 option" where
  "find_first_empty_slot c = map_option cs_slot_index (find slot_is_free (co_slots c))"

definition get_slot :: "u16 \<Rightarrow> Container \<Rightarrow> ContainerSlot option" where
  "get_slot i c = (if unat i < length (co_slots c) then Some (co_slots c ! unat i) else None)"

definition set_slot :: "u16 \<Rightarrow> ContainerSlot \<Rightarrow> Container \<Rightarrow> Container" where
  "set_slot i s c = c\<lparr>co_slots := (co_slots c)[unat i := s]\<rparr>"

definition find_item :: "u64 \<Rightarrow> Container \<Rightarrow> (u16 \<times> ItemInstance) option" where
  "find_item instance_id c =
     (case find (\<lambda>s. case cs_item s of Some item \<Rightarrow> it_instance_id item = instance_id | None \<Rightarrow> False) (co_slots c) of
        Some s \<Rightarrow> Some (cs_slot_index s, the (cs_item s))
      | None \<Rightarrow> None)"

definition lock_slot :: "u16 \<Rightarrow> Container \<Rightarrow> Container \<times> (ContainerError + unit)" where
  "lock_slot i c =
     (case get_slot i c of
        None \<Rightarrow> (c, Inl SlotOutOfRange)
      | Some s \<Rightarrow> if cs_is_locked s then (c, Inl SlotLocked) else (set_slot i (s\<lparr>cs_is_locked := True\<rparr>) c, Inr ()))"

definition unlock_slot :: "u16 \<Rightarrow> Container \<Rightarrow> Container" where
  "unlock_slot i c =
     (case get_slot i c of None \<Rightarrow> c | Some s \<Rightarrow> set_slot i (s\<lparr>cs_is_locked := False\<rparr>) c)"

text \<open>The slot an insertion goes to: the one asked for, if it can take the item, else the first free one.\<close>

definition choose_slot :: "u16 option \<Rightarrow> Container \<Rightarrow> ContainerError + u16" where
  "choose_slot target_slot c =
     (case target_slot of
        Some idx \<Rightarrow>
          (case get_slot idx c of
             None \<Rightarrow> Inl SlotOutOfRange
           | Some s \<Rightarrow> if cs_is_locked s then Inl SlotLocked else if cs_item s \<noteq> None then Inl SlotNotEmpty else Inr idx)
      | None \<Rightarrow> (case find_first_empty_slot c of None \<Rightarrow> Inl CapacityFull | Some idx \<Rightarrow> Inr idx))"

definition insert_item ::
  "ItemInstance \<Rightarrow> u16 option \<Rightarrow> u32 \<Rightarrow> Container \<Rightarrow> Container \<times> (ContainerError + u16)"
where
  "insert_item item target_slot item_weight_grams c =
     (if it_nested_container_id item = Some (co_container_id c) then (c, Inl RecursiveNestingNotAllowed)
      else if co_max_weight_grams c > 0
        \<and> saturating_add (co_current_weight_grams c) item_weight_grams > co_max_weight_grams c
      then (c, Inl WeightLimitExceeded)
      else
        (case choose_slot target_slot c of
           Inl e \<Rightarrow> (c, Inl e)
         | Inr idx \<Rightarrow>
             ((set_slot idx ((co_slots c ! unat idx)\<lparr>cs_item := Some item\<rparr>) c)
                \<lparr>co_current_weight_grams := saturating_add (co_current_weight_grams c) item_weight_grams\<rparr>,
              Inr idx)))"

definition Container_remove_item :: "u16 \<Rightarrow> u32 \<Rightarrow> Container \<Rightarrow> Container \<times> (ContainerError + ItemInstance)" where
  "Container_remove_item i item_weight_grams c =
     (case get_slot i c of
        None \<Rightarrow> (c, Inl SlotOutOfRange)
      | Some s \<Rightarrow>
          if cs_is_locked s then (c, Inl SlotLocked)
          else
            (case cs_item s of
               None \<Rightarrow> (c, Inl SlotEmpty)
             | Some item \<Rightarrow>
                 ((set_slot i (s\<lparr>cs_item := None\<rparr>) c)
                    \<lparr>co_current_weight_grams := saturating_sub (co_current_weight_grams c) item_weight_grams\<rparr>,
                  Inr item)))"

definition split_stack :: "u16 \<Rightarrow> u32 \<Rightarrow> u64 \<Rightarrow> Container \<Rightarrow> Container \<times> (ContainerError + ItemInstance)" where
  "split_stack i split_amount new_instance_id c =
     (if split_amount = 0 then (c, Inl InvalidQuantity)
      else
        (case get_slot i c of
           None \<Rightarrow> (c, Inl SlotOutOfRange)
         | Some s \<Rightarrow>
             if cs_is_locked s then (c, Inl SlotLocked)
             else
               (case cs_item s of
                  None \<Rightarrow> (c, Inl SlotEmpty)
                | Some item \<Rightarrow>
                    if split_amount \<ge> it_quantity item then (c, Inl InvalidQuantity)
                    else
                      (let item = item\<lparr>it_quantity := it_quantity item - split_amount\<rparr> in
                       (set_slot i (s\<lparr>cs_item := Some item\<rparr>) c,
                        Inr (item\<lparr>it_instance_id := new_instance_id, it_quantity := split_amount\<rparr>))))))"

definition commit_remove_item :: "u16 \<Rightarrow> u32 \<Rightarrow> Container \<Rightarrow> Container \<times> (ContainerError + ItemInstance)" where
  "commit_remove_item i item_weight_grams c = Container_remove_item i item_weight_grams (unlock_slot i c)"

definition commit_split_stack :: "u16 \<Rightarrow> u32 \<Rightarrow> u64 \<Rightarrow> Container \<Rightarrow> Container \<times> (ContainerError + ItemInstance)" where
  "commit_split_stack i split_amount new_instance_id c = split_stack i split_amount new_instance_id (unlock_slot i c)"

definition set_item :: "u16 \<Rightarrow> ItemInstance option \<Rightarrow> Container \<Rightarrow> Container" where
  "set_item i item c = set_slot i ((co_slots c ! unat i)\<lparr>cs_item := item\<rparr>) c"

definition merge_stack :: "u16 \<Rightarrow> u16 \<Rightarrow> u32 \<Rightarrow> Container \<Rightarrow> Container \<times> (ContainerError + unit)" where
  "merge_stack from_slot to_slot stack_limit c =
     (if from_slot = to_slot then (c, Inr ())
      else
        (case (get_slot from_slot c, get_slot to_slot c) of
           (None, _) \<Rightarrow> (c, Inl SlotOutOfRange)
         | (_, None) \<Rightarrow> (c, Inl SlotOutOfRange)
         | (Some from_s, Some to_s) \<Rightarrow>
             if cs_is_locked from_s \<or> cs_is_locked to_s then (c, Inl SlotLocked)
             else
               (case (cs_item from_s, cs_item to_s) of
                  (None, _) \<Rightarrow> (c, Inl SlotEmpty)
                | (_, None) \<Rightarrow> (c, Inl SlotEmpty)
                | (Some f, Some t) \<Rightarrow>
                    if it_type_id f \<noteq> it_type_id t then (c, Inl ItemTypeMismatch)
                    else
                      (let available_space = saturating_sub stack_limit (it_quantity t) in
                       if available_space = 0 then (c, Inl StackLimitExceeded)
                       else
                         (let transfer_amount = min (it_quantity f) available_space;
                              c1 = set_item from_slot
                                (if it_quantity f = transfer_amount then None
                                 else Some (f\<lparr>it_quantity := it_quantity f - transfer_amount\<rparr>)) c in
                          (set_item to_slot (Some (t\<lparr>it_quantity := it_quantity t + transfer_amount\<rparr>)) c1, Inr ()))))))"

section \<open>Wear\<close>

text \<open>The damage flag says exactly that the durability is gone; wear and repair keep it so.\<close>

definition damage_flag_ok :: "ItemInstance \<Rightarrow> bool" where
  "damage_flag_ok item \<longleftrightarrow> it_durability item \<le> it_max_durability item \<and> (bit (it_flags item) 1 \<longleftrightarrow> is_broken item)"

lemma damaged_flag_bits:
  "bit (f OR ITEM_FLAG_DAMAGED) n \<longleftrightarrow> bit f n \<or> n = 1"
  "bit (f AND NOT ITEM_FLAG_DAMAGED) n \<longleftrightarrow> bit f n \<and> n \<noteq> 1"
  by (auto simp: ITEM_FLAG_DAMAGED_def bit_simps dest: bit_imp_le_length)

lemma apply_wear_keeps: "damage_flag_ok item \<Longrightarrow> damage_flag_ok (fst (apply_wear w item))"
proof -
  assume ok: "damage_flag_ok item"
  have le: "saturating_sub (it_durability item) w \<le> it_durability item"
    by (simp add: word_le_nat_alt unat_ops)
  have z: "it_durability item = 0 \<Longrightarrow> saturating_sub (it_durability item) w = 0"
    using le by (simp add: word_le_0_iff)
  show ?thesis
    using ok le z unfolding damage_flag_ok_def apply_wear_def Let_def is_broken_def
    by (cases "saturating_sub (it_durability item) w = 0") (auto simp: damaged_flag_bits)
qed

lemma repair_keeps:
  assumes "damage_flag_ok item" and "0 < it_max_durability item"
  shows "damage_flag_ok (repair w item)"
proof -
  define d where "d = min (saturating_add (it_durability item) w) (it_max_durability item)"
  have z: "it_durability item = 0" if "d = 0"
  proof -
    from that assms(2) have "saturating_add (it_durability item) w = 0" by (auto simp: d_def min_def split: if_splits)
    then have "unat (saturating_add (it_durability item) w) = 0" by simp
    then have "unat (it_durability item) = 0" unfolding unat_saturating_add by (auto simp: min_def split: if_splits)
    then show ?thesis by (simp add: unat_eq_0)
  qed
  have "d \<le> it_max_durability item" by (simp add: d_def)
  then show ?thesis
    using assms(1) z unfolding damage_flag_ok_def repair_def Let_def is_broken_def d_def [symmetric]
    by (cases "d = 0") (auto simp: damaged_flag_bits word_neq_0_conv)
qed

section \<open>The contents of a container\<close>

text \<open>A container is a partial map from slot numbers to items.\<close>

definition contents :: "Container \<Rightarrow> nat \<Rightarrow> ItemInstance option" where
  "contents c i = (if i < length (co_slots c) then cs_item (co_slots c ! i) else None)"

definition container_ok :: "Container \<Rightarrow> bool" where
  "container_ok c \<longleftrightarrow> length (co_slots c) = unat (co_capacity c)
     \<and> (\<forall>i<length (co_slots c). cs_slot_index (co_slots c ! i) = word_of_nat i)"

lemma container_ok_new: "container_ok (Container_new i ow t cap mx)"
  by (simp add: container_ok_def Container_new_def ContainerSlot_new_def)

lemma new_simps [simp]:
  "co_container_id (Container_new i ow t cap mx) = i" "co_owner_id (Container_new i ow t cap mx) = ow"
  "co_max_weight_grams (Container_new i ow t cap mx) = mx" "co_current_weight_grams (Container_new i ow t cap mx) = 0"
  by (simp_all add: Container_new_def)

lemma contents_new: "contents (Container_new i ow t cap mx) = Map.empty"
  by (rule ext) (simp add: contents_def Container_new_def ContainerSlot_new_def)

lemma finite_contents: "finite (dom (contents c))"
  by (rule finite_subset [of _ "{..<length (co_slots c)}"]) (auto simp: contents_def split: if_splits)

text \<open>What no operation changes: the identity of the container, its limits and its slots' numbers.\<close>

definition same_box :: "Container \<Rightarrow> Container \<Rightarrow> bool" where
  "same_box c d \<longleftrightarrow> co_container_id d = co_container_id c \<and> co_owner_id d = co_owner_id c \<and> co_capacity d = co_capacity c
     \<and> co_max_weight_grams d = co_max_weight_grams c \<and> map cs_slot_index (co_slots d) = map cs_slot_index (co_slots c)"

lemma same_box_refl [simp]: "same_box c c"
  by (simp add: same_box_def)

lemma same_box_trans: "same_box a b \<Longrightarrow> same_box b c \<Longrightarrow> same_box a c"
  by (simp add: same_box_def)

lemma same_box_length: "same_box c d \<Longrightarrow> length (co_slots d) = length (co_slots c)"
  unfolding same_box_def by (metis length_map)

lemma same_box_ok:
  assumes "same_box c d" and "container_ok c"
  shows "container_ok d"
proof -
  have l: "length (co_slots d) = length (co_slots c)" by (rule same_box_length [OF assms(1)])
  have "cs_slot_index (co_slots d ! i) = word_of_nat i" if "i < length (co_slots d)" for i
  proof -
    have "map cs_slot_index (co_slots d) ! i = map cs_slot_index (co_slots c) ! i" using assms(1) by (simp add: same_box_def)
    then show ?thesis using that l assms(2) by (simp add: container_ok_def)
  qed
  then show ?thesis using l assms by (simp add: container_ok_def same_box_def)
qed

lemma get_slot_Some: "get_slot i c = Some s \<longleftrightarrow> unat i < length (co_slots c) \<and> s = co_slots c ! unat i"
  by (auto simp: get_slot_def)

lemma contents_at: "get_slot i c = Some s \<Longrightarrow> contents c (unat i) = cs_item s"
  by (auto simp: get_slot_Some contents_def)

lemma set_slot_contents:
  "unat i < length (co_slots c) \<Longrightarrow> contents (set_slot i s c) = (contents c)(unat i := cs_item s)"
  by (rule ext) (simp add: contents_def set_slot_def nth_list_update)

lemma set_slot_same_box:
  assumes "unat i < length (co_slots c)" and "cs_slot_index s = cs_slot_index (co_slots c ! unat i)"
  shows "same_box c (set_slot i s c)"
proof -
  have "map cs_slot_index ((co_slots c)[unat i := s]) = map cs_slot_index (co_slots c)"
    using assms by (simp add: map_update) (metis list_update_id nth_map)
  then show ?thesis by (simp add: same_box_def set_slot_def)
qed

lemma set_slot_simps [simp]:
  "co_container_id (set_slot i s c) = co_container_id c" "co_owner_id (set_slot i s c) = co_owner_id c"
  "co_capacity (set_slot i s c) = co_capacity c" "co_max_weight_grams (set_slot i s c) = co_max_weight_grams c"
  "co_current_weight_grams (set_slot i s c) = co_current_weight_grams c"
  "co_slots (set_slot i s c) = (co_slots c)[unat i := s]"
  by (simp_all add: set_slot_def)

lemma weight_update [simp]:
  "contents (c\<lparr>co_current_weight_grams := w\<rparr>) = contents c"
  "same_box d (c\<lparr>co_current_weight_grams := w\<rparr>) = same_box d c"
  "get_slot i (c\<lparr>co_current_weight_grams := w\<rparr>) = get_slot i c"
  by (simp_all add: contents_def fun_eq_iff same_box_def get_slot_def)

section \<open>What each operation does\<close>

lemma lock_slot_cases:
  "lock_slot i c = (c1, Inr u) \<Longrightarrow> \<exists>s. get_slot i c = Some s \<and> \<not> cs_is_locked s \<and> c1 = set_slot i (s\<lparr>cs_is_locked := True\<rparr>) c"
  by (auto simp: lock_slot_def split: option.splits if_splits)

lemma unlocked_eq: "\<not> cs_is_locked s \<Longrightarrow> s\<lparr>cs_is_locked := False\<rparr> = (s :: ContainerSlot)"
  by (cases s) simp

lemma unlock_free:
  assumes "get_slot i c = Some s" and "\<not> cs_is_locked s"
  shows "unlock_slot i c = c"
proof -
  have "s\<lparr>cs_is_locked := False\<rparr> = co_slots c ! unat i" using assms by (simp add: unlocked_eq get_slot_Some)
  then show ?thesis using assms(1) by (simp add: unlock_slot_def set_slot_def)
qed

lemma unlock_lock:
  assumes "lock_slot i c = (c1, Inr u)"
  shows "unlock_slot i c1 = c"
proof -
  obtain s where s: "get_slot i c = Some s" "\<not> cs_is_locked s" "c1 = set_slot i (s\<lparr>cs_is_locked := True\<rparr>) c"
    using lock_slot_cases [OF assms] by blast
  have g: "get_slot i c1 = Some (s\<lparr>cs_is_locked := True\<rparr>)" using s(1) by (auto simp: s(3) get_slot_Some)
  have "(s\<lparr>cs_is_locked := True\<rparr>)\<lparr>cs_is_locked := False\<rparr> = co_slots c ! unat i"
    using unlocked_eq [OF s(2)] s(1) by (simp add: get_slot_Some)
  then show ?thesis by (simp add: unlock_slot_def g) (simp add: s(3) set_slot_def)
qed

lemma find_first_empty_slot_Some:
  assumes "container_ok c" and "find_first_empty_slot c = Some j"
  shows "unat j < length (co_slots c) \<and> slot_is_free (co_slots c ! unat j)"
proof -
  obtain i where i: "i < length (co_slots c)" "slot_is_free (co_slots c ! i)" "j = cs_slot_index (co_slots c ! i)"
    using assms(2) by (auto simp: find_first_empty_slot_def find_Some_iff)
  have b: "i < 2 ^ 16" using i(1) assms(1) unat_less_pow [of "co_capacity c"] by (simp add: container_ok_def)
  have "j = word_of_nat i" using i assms(1) by (simp add: container_ok_def)
  with b have "unat j = i" by (simp add: unat_of_nat)
  with i show ?thesis by simp
qed

lemma find_first_empty_slot_None: "find_first_empty_slot c = None \<longleftrightarrow> (\<forall>s\<in>set (co_slots c). \<not> slot_is_free s)"
  by (auto simp: find_first_empty_slot_def find_None_iff)

lemma choose_slot_ok:
  assumes "container_ok c" and "choose_slot t c = Inr j"
  shows "unat j < length (co_slots c)" "slot_is_free (co_slots c ! unat j)" "\<And>k. t = Some k \<Longrightarrow> k = j"
  using assms find_first_empty_slot_Some [OF assms(1)]
  by (auto simp: choose_slot_def get_slot_def slot_is_free_def split: option.splits if_splits)

lemma insert_item_error: "insert_item item t w c = (c1, Inl e) \<Longrightarrow> c1 = c"
  by (auto simp: insert_item_def split: if_splits sum.splits)

lemma insert_item_effect:
  assumes ok: "container_ok c" and r: "insert_item item t w c = (c1, Inr j)"
  shows "same_box c c1" "contents c (unat j) = None" "contents c1 = (contents c)(unat j \<mapsto> item)"
    "\<And>k. t = Some k \<Longrightarrow> k = j" "map cs_is_locked (co_slots c1) = map cs_is_locked (co_slots c)"
proof -
  have ch: "choose_slot t c = Inr j"
    and c1: "c1 = (set_slot j ((co_slots c ! unat j)\<lparr>cs_item := Some item\<rparr>) c)
      \<lparr>co_current_weight_grams := saturating_add (co_current_weight_grams c) w\<rparr>"
    using r by (auto simp: insert_item_def split: if_splits sum.splits)
  note j = choose_slot_ok [OF ok ch]
  show "same_box c c1" unfolding c1 by (simp add: set_slot_same_box j)
  show "contents c (unat j) = None" using j by (simp add: contents_def slot_is_free_def)
  show "contents c1 = (contents c)(unat j \<mapsto> item)" unfolding c1 by (simp add: set_slot_contents j)
  show "\<And>k. t = Some k \<Longrightarrow> k = j" by (rule j(3))
  show "map cs_is_locked (co_slots c1) = map cs_is_locked (co_slots c)"
    unfolding c1 by (simp add: map_update) (metis j(1) list_update_id nth_map)
qed

lemma remove_item_error: "Container_remove_item i w c = (c1, Inl e) \<Longrightarrow> c1 = c"
  by (auto simp: Container_remove_item_def split: if_splits option.splits)

lemma remove_item_free:
  assumes "get_slot i c = Some s" and "\<not> cs_is_locked s" and "cs_item s = Some item"
  shows "Container_remove_item i w c =
    ((set_slot i (s\<lparr>cs_item := None\<rparr>) c)\<lparr>co_current_weight_grams := saturating_sub (co_current_weight_grams c) w\<rparr>, Inr item)"
  using assms by (simp add: Container_remove_item_def)

lemma split_stack_error: "split_stack i n new c = (c1, Inl e) \<Longrightarrow> c1 = c"
  by (auto simp: split_stack_def Let_def split: if_splits option.splits)

lemma split_stack_free:
  assumes "get_slot i c = Some s" and "\<not> cs_is_locked s" and "cs_item s = Some item" and "0 < n" and "n < it_quantity item"
  shows "split_stack i n new c =
    (set_slot i (s\<lparr>cs_item := Some (item\<lparr>it_quantity := it_quantity item - n\<rparr>)\<rparr>) c,
     Inr (item\<lparr>it_instance_id := new, it_quantity := n\<rparr>))"
  using assms by (simp add: split_stack_def Let_def not_le)

text \<open>The two ways an item leaves a slot, with what remains in the slot.\<close>

definition taken :: "u32 \<Rightarrow> u64 \<Rightarrow> ItemInstance \<Rightarrow> ItemInstance" where
  "taken n new item = (if it_quantity item = n then item else item\<lparr>it_instance_id := new, it_quantity := n\<rparr>)"

definition left_over :: "u32 \<Rightarrow> ItemInstance \<Rightarrow> ItemInstance option" where
  "left_over n item = (if it_quantity item = n then None else Some (item\<lparr>it_quantity := it_quantity item - n\<rparr>))"

lemma taken_left_quantity:
  "n \<le> it_quantity item \<Longrightarrow>
    unat (it_quantity (taken n new item)) + (case left_over n item of Some r \<Rightarrow> unat (it_quantity r) | None \<Rightarrow> 0)
      = unat (it_quantity item)"
  by (auto simp: taken_def left_over_def unat_sub word_le_nat_alt)

lemma taken_kind [simp]: "it_type_id (taken n new item) = it_type_id item" "it_flags (taken n new item) = it_flags item"
  "it_nested_container_id (taken n new item) = it_nested_container_id item"
  by (simp_all add: taken_def)

lemma slot_update_same_box:
  "get_slot i c = Some s \<Longrightarrow> same_box c (set_slot i (s\<lparr>cs_item := x\<rparr>) c)"
  "get_slot i c = Some s \<Longrightarrow> contents (set_slot i (s\<lparr>cs_item := x\<rparr>) c) = (contents c)(unat i := x)"
  "get_slot i c = Some s \<Longrightarrow> map cs_is_locked (co_slots (set_slot i (s\<lparr>cs_item := x\<rparr>) c)) = map cs_is_locked (co_slots c)"
  by (simp_all add: set_slot_same_box set_slot_contents get_slot_Some map_update) (metis list_update_id nth_map)

section \<open>Merging\<close>

text \<open>The stock of a type in a container: the sum of the stacks in its slots.\<close>

definition stack_of :: "u32 \<Rightarrow> ContainerSlot \<Rightarrow> nat" where
  "stack_of t s = (case cs_item s of Some item \<Rightarrow> if it_type_id item = t then unat (it_quantity item) else 0 | None \<Rightarrow> 0)"

definition stock :: "u32 \<Rightarrow> Container \<Rightarrow> nat" where
  "stock t c = sum_list (map (stack_of t) (co_slots c))"

lemma stock_set_slot:
  "unat i < length (co_slots c) \<Longrightarrow> stock t (set_slot i s c) + stack_of t (co_slots c ! unat i) = stock t c + stack_of t s"
  using sum_list_map_update [of "unat i" "co_slots c" "stack_of t" s] by (simp add: stock_def)

lemma stock_set_item:
  "contents c (unat i) = Some old \<Longrightarrow>
    stock t (set_item i x c) + stack_of t (co_slots c ! unat i) = stock t c + stack_of t ((co_slots c ! unat i)\<lparr>cs_item := x\<rparr>)"
  unfolding set_item_def by (rule stock_set_slot) (simp add: contents_def split: if_splits)

lemma stack_of_item: "stack_of t s = (case cs_item s of Some item \<Rightarrow> if it_type_id item = t then unat (it_quantity item) else 0 | None \<Rightarrow> 0)"
  by (simp add: stack_of_def)

lemma merge_stack_cases:
  assumes "merge_stack from_slot to_slot limit c = (c1, Inr u)" and "from_slot \<noteq> to_slot"
  shows "\<exists>f t k. contents c (unat from_slot) = Some f \<and> contents c (unat to_slot) = Some t \<and> it_type_id f = it_type_id t
    \<and> k = min (it_quantity f) (saturating_sub limit (it_quantity t)) \<and> saturating_sub limit (it_quantity t) \<noteq> 0
    \<and> c1 = set_item to_slot (Some (t\<lparr>it_quantity := it_quantity t + k\<rparr>)) (set_item from_slot (left_over k f) c)"
  using assms unfolding merge_stack_def Let_def left_over_def
  by (auto simp: get_slot_def contents_def split: if_splits option.splits prod.splits)

lemma merge_stack_error: "merge_stack from_slot to_slot limit c = (c1, Inl e) \<Longrightarrow> c1 = c"
  unfolding merge_stack_def Let_def by (auto split: if_splits option.splits)

text \<open>A merge moves units from one stack to another: it makes none, loses none, and never wraps.\<close>

theorem merge_stack_conserves:
  assumes "merge_stack from_slot to_slot limit c = (c1, r)"
  shows "stock t c1 = stock t c \<and>
    (\<forall>x. r = Inr () \<and> from_slot \<noteq> to_slot \<and> contents c1 (unat to_slot) = Some x \<longrightarrow> it_quantity x \<le> limit)"
proof (cases "r = Inr () \<and> from_slot \<noteq> to_slot")
  case False
  then have "c1 = c" using assms merge_stack_error [of from_slot to_slot limit c c1]
    by (cases r) (auto simp: merge_stack_def)
  then show ?thesis using False by blast
next
  case True
  then obtain f g k where m: "contents c (unat from_slot) = Some f" "contents c (unat to_slot) = Some g" "it_type_id f = it_type_id g"
      "k = min (it_quantity f) (saturating_sub limit (it_quantity g))" "saturating_sub limit (it_quantity g) \<noteq> 0"
      "c1 = set_item to_slot (Some (g\<lparr>it_quantity := it_quantity g + k\<rparr>)) (set_item from_slot (left_over k f) c)"
    using assms merge_stack_cases by metis
  let ?c = "set_item from_slot (left_over k f) c"
  have ne: "unat from_slot \<noteq> unat to_slot" using True by (simp add: word_unat_eq_iff)
  have kf: "k \<le> it_quantity f" by (simp add: m(4))
  have lt: "it_quantity g < limit" using m(5) by (auto simp: saturating_sub_def not_less split: if_splits)
  have kl: "unat k \<le> unat limit - unat (it_quantity g)"
    unfolding m(4) by (auto simp: min_def word_le_nat_alt unat_ops)
  have sum: "unat (it_quantity g + k) = unat (it_quantity g) + unat k"
    using kl lt unat_less_pow [of limit] by (intro unat_add_lem [THEN iffD1]) (simp add: word_less_nat_alt)
  have tl: "unat to_slot < length (co_slots c)" "cs_item (co_slots c ! unat to_slot) = Some g"
    using m(2) by (auto simp: contents_def split: if_splits)
  have fl: "unat from_slot < length (co_slots c)" "cs_item (co_slots c ! unat from_slot) = Some f"
    using m(1) by (auto simp: contents_def split: if_splits)
  have to: "co_slots ?c ! unat to_slot = co_slots c ! unat to_slot" using ne by (simp add: set_item_def)
  have c2: "contents ?c (unat to_slot) = Some g" using tl to by (simp add: contents_def set_item_def)
  have left: "(case left_over k f of Some x \<Rightarrow> unat (it_quantity x) | None \<Rightarrow> 0) + unat k = unat (it_quantity f)"
    using kf by (auto simp: left_over_def unat_sub word_le_nat_alt)
  have "stock t c1 = stock t c"
    using stock_set_item [OF m(1), of t "left_over k f"] stock_set_item [OF c2, of t "Some (g\<lparr>it_quantity := it_quantity g + k\<rparr>)"]
      left to fl tl sum m(3)
    by (auto simp: m(6) stack_of_item left_over_def split: if_splits option.splits)
  moreover have "contents c1 (unat to_slot) = Some (g\<lparr>it_quantity := it_quantity g + k\<rparr>)"
    using tl by (simp add: m(6) contents_def set_item_def)
  moreover have "it_quantity g + k \<le> limit"
    using kl lt by (simp add: word_le_nat_alt sum word_less_nat_alt)
  ultimately show ?thesis by simp
qed

end
