(* ===== verification/ItemTransfer.thy ===== *)
theory ItemTransfer
  imports ItemGraph
begin

text \<open>
  The item transaction coordinator of \<^verbatim>\<open>eidolon-world/src/item_transaction.rs\<close>: transfers of items
  between the containers of \<open>ItemGraph\<close>, in two phases (validate and lock, then move), with a ring
  of executed transaction ids. \<open>execute_transfer\<close> is refined to an update of the map from
  positions (container, slot) to items; conservation of every item type and uniqueness of
  instances follow. The error paths of the commit phase that do lose items are stated too.
\<close>

section \<open>The coordinator\<close>

definition MAX_TX_DEDUP_CAPACITY :: nat where
  "MAX_TX_DEDUP_CAPACITY = 2048"

datatype ItemTransactionError =
    SourceContainerNotFound
  | TargetContainerNotFound
  | ItemNotFound
  | SlotLocked
  | InsufficientQuantity
  | TargetContainerFull
  | TargetWeightLimitExceeded
  | SoulboundItemUntransferable
  | RecursiveNestingNotAllowed
  | DuplicateTransactionId
  | TargetSlotNotEmpty
  | ItemTypeMismatch

fun from_container_error :: "ContainerError \<Rightarrow> ItemTransactionError" where
  "from_container_error ContainerError.SlotLocked = SlotLocked"
| "from_container_error CapacityFull = TargetContainerFull"
| "from_container_error WeightLimitExceeded = TargetWeightLimitExceeded"
| "from_container_error SlotNotEmpty = TargetSlotNotEmpty"
| "from_container_error ContainerError.ItemTypeMismatch = ItemTypeMismatch"
| "from_container_error ContainerError.RecursiveNestingNotAllowed = RecursiveNestingNotAllowed"
| "from_container_error _ = ItemNotFound"

record ItemTransferIntent =
  in_transaction_id :: u64
  in_source_container_id :: u64
  in_source_slot :: u16
  in_item_instance_id :: u64
  in_target_container_id :: u64
  in_target_slot :: "u16 option"
  in_quantity :: u32
  in_item_weight_grams :: u32

record ItemTransferResult =
  re_transaction_id :: u64
  re_source_container_id :: u64
  re_target_container_id :: u64
  re_target_slot :: u16
  re_item_instance_id :: u64
  re_quantity :: u32

record ItemTransactionCoordinator =
  tc_containers :: "u64 \<rightharpoonup> Container"
  tc_processed_transactions :: "u64 list"
  tc_dedup_cursor :: nat
  tc_next_instance_id :: u64

definition ItemTransactionCoordinator_new :: ItemTransactionCoordinator where
  "ItemTransactionCoordinator_new =
     \<lparr>tc_containers = Map.empty, tc_processed_transactions = replicate MAX_TX_DEDUP_CAPACITY 0,
      tc_dedup_cursor = 0, tc_next_instance_id = 100000\<rparr>"

definition allocate_instance_id :: "ItemTransactionCoordinator \<Rightarrow> ItemTransactionCoordinator \<times> u64" where
  "allocate_instance_id tc =
     (tc\<lparr>tc_next_instance_id := saturating_add (tc_next_instance_id tc) 1\<rparr>, tc_next_instance_id tc)"

definition register_container :: "Container \<Rightarrow> ItemTransactionCoordinator \<Rightarrow> ItemTransactionCoordinator" where
  "register_container c tc = tc\<lparr>tc_containers := (tc_containers tc)(co_container_id c \<mapsto> c)\<rparr>"

definition is_transaction_processed :: "u64 \<Rightarrow> ItemTransactionCoordinator \<Rightarrow> bool" where
  "is_transaction_processed tx_id tc \<longleftrightarrow> tx_id \<in> set (tc_processed_transactions tc)"

definition record_transaction :: "u64 \<Rightarrow> ItemTransactionCoordinator \<Rightarrow> ItemTransactionCoordinator" where
  "record_transaction tx_id tc =
     tc\<lparr>tc_processed_transactions := (tc_processed_transactions tc)[tc_dedup_cursor tc := tx_id],
        tc_dedup_cursor := (tc_dedup_cursor tc + 1) mod MAX_TX_DEDUP_CAPACITY\<rparr>"

section \<open>A transfer\<close>

text \<open>The checks on the source slot and on the target container, in the order of the source.\<close>

definition validate_source ::
  "ItemTransferIntent \<Rightarrow> u64 \<Rightarrow> Container \<Rightarrow> ItemTransactionError + unit"
where
  "validate_source intent dst_owner src =
     (case get_slot (in_source_slot intent) src of
        None \<Rightarrow> Inl ItemNotFound
      | Some slot \<Rightarrow>
          if cs_is_locked slot then Inl SlotLocked
          else
            (case cs_item slot of
               None \<Rightarrow> Inl ItemNotFound
             | Some item \<Rightarrow>
                 if it_instance_id item \<noteq> in_item_instance_id intent then Inl ItemNotFound
                 else if in_quantity intent = 0 \<or> in_quantity intent > it_quantity item then Inl InsufficientQuantity
                 else if it_flags item AND ITEM_FLAG_SOULBOUND \<noteq> 0 \<and> co_owner_id src \<noteq> dst_owner
                 then Inl SoulboundItemUntransferable
                 else if it_nested_container_id item = Some (in_target_container_id intent)
                 then Inl RecursiveNestingNotAllowed
                 else Inr ()))"

definition validate_target :: "ItemTransferIntent \<Rightarrow> Container \<Rightarrow> ItemTransactionError + unit" where
  "validate_target intent dst =
     (if co_max_weight_grams dst > 0
        \<and> saturating_add (co_current_weight_grams dst) (in_item_weight_grams intent) > co_max_weight_grams dst
      then Inl TargetWeightLimitExceeded
      else
        (case in_target_slot intent of
           Some target_slot \<Rightarrow>
             (case get_slot target_slot dst of
                None \<Rightarrow> Inl TargetSlotNotEmpty
              | Some slot \<Rightarrow>
                  if cs_is_locked slot then Inl SlotLocked
                  else if cs_item slot \<noteq> None then Inl TargetSlotNotEmpty
                  else Inr ())
         | None \<Rightarrow>
             if free_slot_count dst = 0 \<and> in_source_container_id intent \<noteq> in_target_container_id intent
             then Inl TargetContainerFull else Inr ()))"

definition put_container :: "u64 \<Rightarrow> Container \<Rightarrow> ItemTransactionCoordinator \<Rightarrow> ItemTransactionCoordinator" where
  "put_container i c tc = tc\<lparr>tc_containers := (tc_containers tc)(i \<mapsto> c)\<rparr>"

definition transfer_result :: "ItemTransferIntent \<Rightarrow> u16 \<Rightarrow> ItemTransferResult" where
  "transfer_result intent slot =
     \<lparr>re_transaction_id = in_transaction_id intent, re_source_container_id = in_source_container_id intent,
      re_target_container_id = in_target_container_id intent, re_target_slot = slot,
      re_item_instance_id = in_item_instance_id intent, re_quantity = in_quantity intent\<rparr>"

text \<open>The item leaves its slot: the whole stack, or a part under a new instance id.\<close>

definition take_out ::
  "ItemTransferIntent \<Rightarrow> u32 \<Rightarrow> u64 \<Rightarrow> Container \<Rightarrow> Container \<times> (ItemTransactionError + ItemInstance)"
where
  "take_out intent weight new_split_id src =
     (case get_slot (in_source_slot intent) src of
        None \<Rightarrow> (src, Inl ItemNotFound)
      | Some slot \<Rightarrow>
          (case cs_item slot of
             None \<Rightarrow> (src, Inl ItemNotFound)
           | Some item \<Rightarrow>
               (case (if it_quantity item = in_quantity intent
                      then commit_remove_item (in_source_slot intent) weight src
                      else commit_split_stack (in_source_slot intent) (in_quantity intent) new_split_id src) of
                  (src1, Inl e) \<Rightarrow> (src1, Inl (from_container_error e))
                | (src1, Inr moved) \<Rightarrow> (src1, Inr moved))))"

definition commit_transfer ::
  "ItemTransferIntent \<Rightarrow> ItemTransactionCoordinator \<Rightarrow> ItemTransactionCoordinator \<times> (ItemTransactionError + ItemTransferResult)"
where
  "commit_transfer intent tc0 =
     (case allocate_instance_id tc0 of
        (tc, new_split_id) \<Rightarrow>
          (case tc_containers tc (in_source_container_id intent) of
             None \<Rightarrow> (tc, Inl SourceContainerNotFound)
           | Some src \<Rightarrow>
               if in_source_container_id intent = in_target_container_id intent
               then
                 (case take_out intent 0 new_split_id src of
                    (src1, Inl e) \<Rightarrow> (put_container (in_source_container_id intent) src1 tc, Inl e)
                  | (src1, Inr item_to_move) \<Rightarrow>
                      (case insert_item item_to_move (in_target_slot intent) 0 src1 of
                         (src2, Inl e) \<Rightarrow> (put_container (in_source_container_id intent) src2 tc, Inl (from_container_error e))
                       | (src2, Inr slot) \<Rightarrow>
                           (put_container (in_source_container_id intent) src2 tc, Inr (transfer_result intent slot))))
               else
                 (case take_out intent (in_item_weight_grams intent) new_split_id src of
                    (src1, Inl e) \<Rightarrow> (put_container (in_source_container_id intent) src1 tc, Inl e)
                  | (src1, Inr item_to_move) \<Rightarrow>
                      (let tc1 = put_container (in_source_container_id intent) src1 tc in
                       case tc_containers tc1 (in_target_container_id intent) of
                         None \<Rightarrow> (tc1, Inl TargetContainerNotFound)
                       | Some dst \<Rightarrow>
                           (case insert_item item_to_move (in_target_slot intent) (in_item_weight_grams intent) dst of
                              (dst1, Inr slot) \<Rightarrow>
                                (put_container (in_target_container_id intent) dst1 tc1, Inr (transfer_result intent slot))
                            | (dst1, Inl e) \<Rightarrow>
                                (put_container (in_source_container_id intent)
                                   (fst (insert_item item_to_move (Some (in_source_slot intent))
                                      (in_item_weight_grams intent) src1))
                                   (put_container (in_target_container_id intent) dst1 tc1),
                                 Inl (from_container_error e)))))))"

definition execute_transfer ::
  "ItemTransferIntent \<Rightarrow> ItemTransactionCoordinator \<Rightarrow> ItemTransactionCoordinator \<times> (ItemTransactionError + ItemTransferResult)"
where
  "execute_transfer intent tc =
     (if is_transaction_processed (in_transaction_id intent) tc then (tc, Inl DuplicateTransactionId)
      else
        (case tc_containers tc (in_source_container_id intent) of
           None \<Rightarrow> (tc, Inl SourceContainerNotFound)
         | Some src \<Rightarrow>
             (case tc_containers tc (in_target_container_id intent) of
                None \<Rightarrow> (tc, Inl TargetContainerNotFound)
              | Some dst \<Rightarrow>
                  (case validate_source intent (co_owner_id dst) src of
                     Inl e \<Rightarrow> (tc, Inl e)
                   | Inr u \<Rightarrow>
                       (case validate_target intent dst of
                          Inl e \<Rightarrow> (tc, Inl e)
                        | Inr u \<Rightarrow>
                            (case lock_slot (in_source_slot intent) src of
                               (src1, Inl e) \<Rightarrow> (tc, Inl (from_container_error e))
                             | (src1, Inr u) \<Rightarrow>
                                 (case commit_transfer intent (put_container (in_source_container_id intent) src1 tc) of
                                    (tc2, r) \<Rightarrow>
                                      (let tc3 =
                                         (case tc_containers tc2 (in_source_container_id intent) of
                                            Some c \<Rightarrow> put_container (in_source_container_id intent)
                                              (unlock_slot (in_source_slot intent) c) tc2
                                          | None \<Rightarrow> tc2) in
                                       case r of
                                         Inr res \<Rightarrow> (record_transaction (in_transaction_id intent) tc3, Inr res)
                                       | Inl e \<Rightarrow> (tc3, Inl e)))))))))"

section \<open>The coordinator as a map from positions to items\<close>

definition holdings :: "ItemTransactionCoordinator \<Rightarrow> u64 \<times> nat \<Rightarrow> ItemInstance option" where
  "holdings tc = (\<lambda>(i, k). case tc_containers tc i of Some c \<Rightarrow> contents c k | None \<Rightarrow> None)"

definition coordinator_ok :: "ItemTransactionCoordinator \<Rightarrow> bool" where
  "coordinator_ok tc \<longleftrightarrow> finite (dom (tc_containers tc)) \<and> length (tc_processed_transactions tc) = MAX_TX_DEDUP_CAPACITY
     \<and> tc_dedup_cursor tc < MAX_TX_DEDUP_CAPACITY
     \<and> (\<forall>i c. tc_containers tc i = Some c \<longrightarrow> co_container_id c = i \<and> container_ok c)"

definition has_room :: "ItemTransferIntent \<Rightarrow> ItemTransactionCoordinator \<Rightarrow> bool" where
  "has_room intent tc \<longleftrightarrow>
     (\<forall>dst. tc_containers tc (in_target_container_id intent) = Some dst \<longrightarrow>
        in_target_slot intent \<noteq> None \<or> find_first_empty_slot dst \<noteq> None)"

lemma coordinator_ok_new: "coordinator_ok ItemTransactionCoordinator_new"
  by (simp add: coordinator_ok_def ItemTransactionCoordinator_new_def MAX_TX_DEDUP_CAPACITY_def)

lemma coordinator_okD:
  "coordinator_ok tc \<Longrightarrow> tc_containers tc i = Some c \<Longrightarrow> container_ok c"
  "coordinator_ok tc \<Longrightarrow> tc_containers tc i = Some c \<Longrightarrow> co_container_id c = i"
  by (auto simp: coordinator_ok_def)

lemma register_ok: "coordinator_ok tc \<Longrightarrow> container_ok c \<Longrightarrow> coordinator_ok (register_container c tc)"
  by (auto simp: coordinator_ok_def register_container_def)

lemma put_ok:
  assumes "coordinator_ok tc" and "tc_containers tc i = Some c" and "same_box c d"
  shows "coordinator_ok (put_container i d tc)"
  using assms same_box_ok [OF assms(3)] by (auto simp: coordinator_ok_def put_container_def same_box_def)

lemma put_holdings:
  "contents d = (contents c)(k := x) \<Longrightarrow> tc_containers tc i = Some c \<Longrightarrow>
    holdings (put_container i d tc) = (holdings tc)((i, k) := x)"
  by (auto simp: holdings_def put_container_def fun_eq_iff)

lemma put_simps [simp]:
  "tc_containers (put_container i d tc) = (tc_containers tc)(i \<mapsto> d)"
  "tc_processed_transactions (put_container i d tc) = tc_processed_transactions tc"
  "tc_dedup_cursor (put_container i d tc) = tc_dedup_cursor tc"
  "tc_next_instance_id (put_container i d tc) = tc_next_instance_id tc"
  by (simp_all add: put_container_def)

lemma bookkeeping_simps [simp]:
  "holdings (tc\<lparr>tc_next_instance_id := n\<rparr>) = holdings tc"
  "holdings (record_transaction t tc) = holdings tc"
  "tc_containers (record_transaction t tc) = tc_containers tc"
  "tc_next_instance_id (record_transaction t tc) = tc_next_instance_id tc"
  "coordinator_ok (tc\<lparr>tc_next_instance_id := n\<rparr>) = coordinator_ok tc"
  by (simp_all add: holdings_def record_transaction_def coordinator_ok_def)

lemma record_ok: "coordinator_ok tc \<Longrightarrow> coordinator_ok (record_transaction t tc)"
  by (simp add: coordinator_ok_def record_transaction_def MAX_TX_DEDUP_CAPACITY_def)

lemma recorded: "coordinator_ok tc \<Longrightarrow> is_transaction_processed t (record_transaction t tc)"
  by (simp add: coordinator_ok_def is_transaction_processed_def record_transaction_def set_update_memI)

section \<open>The commit phase\<close>

lemma take_out_ok:
  assumes s: "get_slot (in_source_slot intent) src = Some s" "\<not> cs_is_locked s" "cs_item s = Some item"
    and n: "0 < in_quantity intent" "in_quantity intent \<le> it_quantity item"
    and l: "lock_slot (in_source_slot intent) src = (src1, Inr u)"
  shows "\<exists>src2. take_out intent w new src1 = (src2, Inr (taken (in_quantity intent) new item)) \<and> same_box src src2
    \<and> contents src2 = (contents src)(unat (in_source_slot intent) := left_over (in_quantity intent) item)
    \<and> map cs_is_locked (co_slots src2) = map cs_is_locked (co_slots src)
    \<and> (w = 0 \<longrightarrow> co_current_weight_grams src2 = co_current_weight_grams src)"
proof -
  let ?i = "in_source_slot intent" and ?n = "in_quantity intent"
  have u: "unlock_slot ?i src1 = src" by (rule unlock_lock [OF l])
  have g: "get_slot ?i src1 = Some (s\<lparr>cs_is_locked := True\<rparr>)"
    using lock_slot_cases [OF l] s(1) by (auto simp: get_slot_Some)
  note box = slot_update_same_box [OF s(1), of "left_over ?n item"]
  show ?thesis
  proof (cases "it_quantity item = ?n")
    case True
    have r: "take_out intent w new src1 = ((set_slot ?i (s\<lparr>cs_item := None\<rparr>) src)
        \<lparr>co_current_weight_grams := saturating_sub (co_current_weight_grams src) w\<rparr>, Inr item)"
      by (simp add: take_out_def g s(3) True commit_remove_item_def u remove_item_free [OF s])
    have "saturating_sub (co_current_weight_grams src) 0 = co_current_weight_grams src" by (simp add: saturating_sub_def)
    with r box True show ?thesis by (auto simp: taken_def left_over_def)
  next
    case False
    then have lt: "?n < it_quantity item" using n(2) by simp
    have r: "take_out intent w new src1 = (set_slot ?i (s\<lparr>cs_item := left_over ?n item\<rparr>) src, Inr (taken ?n new item))"
      using False by (simp add: take_out_def g s(3) commit_split_stack_def u split_stack_free [OF s n(1) lt] taken_def left_over_def)
    with box show ?thesis by auto
  qed
qed

text \<open>An insertion that passed the validation fails only for want of a free slot.\<close>

lemma free_at: "k < length (co_slots c) \<Longrightarrow>
    slot_is_free (co_slots c ! k) \<longleftrightarrow> contents c k = None \<and> \<not> map cs_is_locked (co_slots c) ! k"
  by (simp add: slot_is_free_def contents_def)

lemma insert_succeeds:
  assumes "it_nested_container_id item \<noteq> Some (co_container_id c)"
    and "co_max_weight_grams c = 0 \<or> saturating_add (co_current_weight_grams c) w \<le> co_max_weight_grams c"
    and "\<And>k. t = Some k \<Longrightarrow> unat k < length (co_slots c) \<and> slot_is_free (co_slots c ! unat k)"
    and "t = None \<Longrightarrow> \<exists>k<length (co_slots c). slot_is_free (co_slots c ! k)"
  shows "\<exists>c1 j. insert_item item t w c = (c1, Inr j)"
proof -
  have "\<exists>j. choose_slot t c = Inr j"
  proof (cases t)
    case None
    then obtain k where "k < length (co_slots c)" "slot_is_free (co_slots c ! k)" using assms(4) by blast
    then have "find_first_empty_slot c \<noteq> None" unfolding find_first_empty_slot_None by (metis nth_mem)
    then show ?thesis using None by (auto simp: choose_slot_def)
  next
    case (Some k)
    then show ?thesis using assms(3) [OF Some] by (simp add: choose_slot_def get_slot_def slot_is_free_def)
  qed
  with assms(1,2) show ?thesis by (auto simp: insert_item_def not_less word_neq_0_conv [symmetric])
qed

lemma validated_source:
  "validate_source intent ow src = Inr u \<Longrightarrow>
    \<exists>s item. get_slot (in_source_slot intent) src = Some s \<and> \<not> cs_is_locked s \<and> cs_item s = Some item
      \<and> 0 < in_quantity intent \<and> in_quantity intent \<le> it_quantity item
      \<and> it_instance_id item = in_item_instance_id intent
      \<and> (it_flags item AND ITEM_FLAG_SOULBOUND \<noteq> 0 \<longrightarrow> co_owner_id src = ow)
      \<and> it_nested_container_id item \<noteq> Some (in_target_container_id intent)"
  unfolding validate_source_def
  by (auto simp: not_less word_neq_0_conv split: option.splits if_splits)

lemma validated_target:
  assumes "validate_target intent dst = Inr u"
  shows "co_max_weight_grams dst = 0
      \<or> saturating_add (co_current_weight_grams dst) (in_item_weight_grams intent) \<le> co_max_weight_grams dst"
    and "in_target_slot intent = Some k \<Longrightarrow> unat k < length (co_slots dst) \<and> slot_is_free (co_slots dst ! unat k)"
  using assms unfolding validate_target_def
  by (auto simp: not_less word_neq_0_conv get_slot_def slot_is_free_def split: option.splits if_splits)

definition allocated :: "ItemTransactionCoordinator \<Rightarrow> ItemTransactionCoordinator" where
  "allocated tc = tc\<lparr>tc_next_instance_id := saturating_add (tc_next_instance_id tc) 1\<rparr>"

lemma allocated_simps [simp]:
  "tc_containers (allocated tc) = tc_containers tc" "holdings (allocated tc) = holdings tc"
  "coordinator_ok (allocated tc) = coordinator_ok tc"
  "tc_next_instance_id (allocated tc) = saturating_add (tc_next_instance_id tc) 1"
  "tc_processed_transactions (allocated tc) = tc_processed_transactions tc"
  by (simp_all add: allocated_def)

lemma put_put: "put_container i d (put_container i c tc) = put_container i d tc"
  by (simp add: put_container_def)

lemma allocate_put: "allocate_instance_id (put_container i c tc) = (put_container i c (allocated tc), tc_next_instance_id tc)"
  by (simp add: allocate_instance_id_def put_container_def allocated_def)

lemma weight_at_most: "saturating_add a b \<le> m \<Longrightarrow> saturating_add a 0 \<le> (m :: 'a::len word)"
  unfolding word_le_nat_alt unat_ops using unat_le_pow [of m] by (auto simp: min_def split: if_splits)

text \<open>The commit within one container.\<close>

lemma commit_within:
  fixes intent tc
  defines "i \<equiv> in_source_container_id intent" and "k \<equiv> unat (in_source_slot intent)" and "n \<equiv> in_quantity intent"
  assumes ok: "coordinator_ok tc" and src: "tc_containers tc i = Some src" and same: "in_target_container_id intent = i"
    and s: "get_slot (in_source_slot intent) src = Some s" "\<not> cs_is_locked s" "cs_item s = Some item"
    and n: "0 < n" "n \<le> it_quantity item" and nest: "it_nested_container_id item \<noteq> Some i"
    and t: "validate_target intent src = Inr v" and l: "lock_slot (in_source_slot intent) src = (src1, Inr u)"
  shows "\<exists>d r. commit_transfer intent (put_container i src1 tc) = (put_container i d (allocated tc), r)
      \<and> same_box src d \<and> map cs_is_locked (co_slots d) = map cs_is_locked (co_slots src)
      \<and> (case r of
           Inl e \<Rightarrow> \<not> has_room intent tc \<and> contents d = (contents src)(k := left_over n item)
         | Inr res \<Rightarrow> transfer_result intent (re_target_slot res) = res
             \<and> (\<forall>q. in_target_slot intent = Some q \<longrightarrow> re_target_slot res = q)
             \<and> ((contents src)(k := left_over n item)) (unat (re_target_slot res)) = None
             \<and> contents d = (contents src)(k := left_over n item, unat (re_target_slot res) \<mapsto> taken n (tc_next_instance_id tc) item))"
proof -
  obtain src2 where take: "take_out intent 0 (tc_next_instance_id tc) src1 = (src2, Inr (taken n (tc_next_instance_id tc) item))"
      "same_box src src2" "contents src2 = (contents src)(k := left_over n item)"
      "map cs_is_locked (co_slots src2) = map cs_is_locked (co_slots src)"
      "co_current_weight_grams src2 = co_current_weight_grams src"
    using take_out_ok [OF s n [unfolded n_def] l, of 0 "tc_next_instance_id tc"] unfolding k_def n_def by blast
  have ok2: "container_ok src2" by (rule same_box_ok [OF take(2) coordinator_okD(1) [OF ok src]])
  have id: "co_container_id src2 = i" using take(2) coordinator_okD(2) [OF ok src] by (simp add: same_box_def)
  have mx: "co_max_weight_grams src2 = co_max_weight_grams src" using take(2) by (simp add: same_box_def)
  have len: "length (co_slots src2) = length (co_slots src)" by (rule same_box_length [OF take(2)])
  have c: "commit_transfer intent (put_container i src1 tc) =
      (case insert_item (taken n (tc_next_instance_id tc) item) (in_target_slot intent) 0 src2 of
         (src3, Inl e) \<Rightarrow> (put_container i src3 (allocated tc), Inl (from_container_error e))
       | (src3, Inr slot) \<Rightarrow> (put_container i src3 (allocated tc), Inr (transfer_result intent slot)))"
    unfolding commit_transfer_def allocate_put by (simp add: i_def [symmetric] same take(1) put_put split: prod.split sum.split)
  have occupied: "contents src k = Some item" using s(1,3) contents_at [OF s(1)] by (simp add: k_def)
  have keep: "slot_is_free (co_slots src2 ! q)" if "q < length (co_slots src)" "slot_is_free (co_slots src ! q)" for q
  proof -
    have "contents src q = None" "\<not> map cs_is_locked (co_slots src) ! q" using that free_at [of q src] by simp_all
    moreover from this(1) occupied have "q \<noteq> k" by auto
    ultimately show ?thesis using free_at [of q src2] that(1) len take(3,4) by simp
  qed
  show ?thesis
  proof (cases "insert_item (taken n (tc_next_instance_id tc) item) (in_target_slot intent) 0 src2")
    case (Pair src3 r)
    show ?thesis
    proof (cases r)
      case (Inr j)
      note e = insert_item_effect [OF ok2 Pair [unfolded Inr]]
      show ?thesis unfolding c Pair Inr using e take same_box_trans [OF take(2) e(1)]
        by (auto simp: transfer_result_def)
    next
      case (Inl e)
      have d: "src3 = src2" using insert_item_error Pair Inl by blast
      have "\<not> has_room intent tc"
      proof
        assume room: "has_room intent tc"
        have "\<exists>c1 j. insert_item (taken n (tc_next_instance_id tc) item) (in_target_slot intent) 0 src2 = (c1, Inr j)"
        proof (rule insert_succeeds)
          show "it_nested_container_id (taken n (tc_next_instance_id tc) item) \<noteq> Some (co_container_id src2)" using nest id by simp
          show "co_max_weight_grams src2 = 0 \<or> saturating_add (co_current_weight_grams src2) 0 \<le> co_max_weight_grams src2"
            using validated_target(1) [OF t] weight_at_most unfolding mx take(5) by blast
          show "unat q < length (co_slots src2) \<and> slot_is_free (co_slots src2 ! unat q)" if "in_target_slot intent = Some q" for q
            using validated_target(2) [OF t that] keep len by simp
          show "\<exists>q<length (co_slots src2). slot_is_free (co_slots src2 ! q)" if "in_target_slot intent = None"
          proof -
            have "find_first_empty_slot src \<noteq> None" using room that src same by (auto simp: has_room_def)
            then obtain q where "q < length (co_slots src)" "slot_is_free (co_slots src ! q)"
              unfolding find_first_empty_slot_None by (auto simp: in_set_conv_nth)
            then show ?thesis using keep len by auto
          qed
        qed
        then show False using Pair Inl by auto
      qed
      then show ?thesis unfolding c Pair Inl d using take by auto
    qed
  qed
qed

text \<open>The commit between two containers.\<close>

lemma insert_back:
  assumes "container_ok c" and "contents c k = left" and "unat q = k"
  shows "same_box c (fst (insert_item x (Some q) w c))"
    "map cs_is_locked (co_slots (fst (insert_item x (Some q) w c))) = map cs_is_locked (co_slots c)"
    "contents (fst (insert_item x (Some q) w c)) = contents c
      \<or> left = None \<and> contents (fst (insert_item x (Some q) w c)) = (contents c)(k \<mapsto> x)"
proof -
  obtain d r where d: "insert_item x (Some q) w c = (d, r)" by fastforce
  have "same_box c d \<and> map cs_is_locked (co_slots d) = map cs_is_locked (co_slots c)
    \<and> (contents d = contents c \<or> left = None \<and> contents d = (contents c)(k \<mapsto> x))"
  proof (cases r)
    case (Inl e)
    have "d = c" using insert_item_error [OF d [unfolded Inl]] .
    then show ?thesis by simp
  next
    case (Inr j)
    note e = insert_item_effect [OF assms(1) d [unfolded Inr]]
    have "q = j" using e(4) by simp
    then show ?thesis using e assms(2,3) by auto
  qed
  then show "same_box c (fst (insert_item x (Some q) w c))"
    "map cs_is_locked (co_slots (fst (insert_item x (Some q) w c))) = map cs_is_locked (co_slots c)"
    "contents (fst (insert_item x (Some q) w c)) = contents c
      \<or> left = None \<and> contents (fst (insert_item x (Some q) w c)) = (contents c)(k \<mapsto> x)"
    by (simp_all add: d)
qed

lemma commit_between:
  fixes intent tc
  defines "i \<equiv> in_source_container_id intent" and "k \<equiv> unat (in_source_slot intent)" and "n \<equiv> in_quantity intent"
    and "m \<equiv> in_target_container_id intent"
  assumes ok: "coordinator_ok tc" and src: "tc_containers tc i = Some src" and dst: "tc_containers tc m = Some dst" and ne: "i \<noteq> m"
    and s: "get_slot (in_source_slot intent) src = Some s" "\<not> cs_is_locked s" "cs_item s = Some item"
    and n: "0 < n" "n \<le> it_quantity item" and nest: "it_nested_container_id item \<noteq> Some m"
    and t: "validate_target intent dst = Inr v" and l: "lock_slot (in_source_slot intent) src = (src1, Inr u)"
  shows "\<exists>c d r. commit_transfer intent (put_container i src1 tc) = (put_container i c (put_container m d (allocated tc)), r)
      \<and> same_box src c \<and> map cs_is_locked (co_slots c) = map cs_is_locked (co_slots src) \<and> same_box dst d
      \<and> (case r of
           Inl e \<Rightarrow> \<not> has_room intent tc \<and> d = dst \<and> (contents c = (contents src)(k := left_over n item) \<or> contents c = contents src)
         | Inr res \<Rightarrow> transfer_result intent (re_target_slot res) = res
             \<and> (\<forall>q. in_target_slot intent = Some q \<longrightarrow> re_target_slot res = q)
             \<and> contents dst (unat (re_target_slot res)) = None
             \<and> contents c = (contents src)(k := left_over n item)
             \<and> contents d = (contents dst)(unat (re_target_slot res) \<mapsto> taken n (tc_next_instance_id tc) item))"
proof -
  let ?w = "in_item_weight_grams intent" and ?x = "taken n (tc_next_instance_id tc) item"
  obtain src2 where take: "take_out intent ?w (tc_next_instance_id tc) src1 = (src2, Inr ?x)"
      "same_box src src2" "contents src2 = (contents src)(k := left_over n item)"
      "map cs_is_locked (co_slots src2) = map cs_is_locked (co_slots src)"
    using take_out_ok [OF s n [unfolded n_def] l, of ?w "tc_next_instance_id tc"] unfolding k_def n_def by blast
  have ok2: "container_ok src2" by (rule same_box_ok [OF take(2) coordinator_okD(1) [OF ok src]])
  have swap: "put_container m d (put_container i c tc') = put_container i c (put_container m d tc')" for c d tc'
    using ne by (simp add: put_container_def fun_upd_twist)
  have c: "commit_transfer intent (put_container i src1 tc) =
      (case insert_item ?x (in_target_slot intent) ?w dst of
         (dst1, Inr slot) \<Rightarrow> (put_container i src2 (put_container m dst1 (allocated tc)), Inr (transfer_result intent slot))
       | (dst1, Inl e) \<Rightarrow> (put_container i (fst (insert_item ?x (Some (in_source_slot intent)) ?w src2))
           (put_container m dst1 (allocated tc)), Inl (from_container_error e)))"
    unfolding commit_transfer_def allocate_put using ne dst
    by (simp add: i_def [symmetric] m_def [symmetric] take(1) put_put Let_def swap split: prod.split sum.split)
  show ?thesis
  proof (cases "insert_item ?x (in_target_slot intent) ?w dst")
    case (Pair d r)
    show ?thesis
    proof (cases r)
      case (Inr j)
      note e = insert_item_effect [OF coordinator_okD(1) [OF ok dst] Pair [unfolded Inr]]
      show ?thesis unfolding c Pair Inr using e take by (auto simp: transfer_result_def)
    next
      case (Inl e)
      have d: "d = dst" using insert_item_error Pair Inl by blast
      have "\<exists>c1 j. insert_item ?x (in_target_slot intent) ?w dst = (c1, Inr j)" if "has_room intent tc"
      proof (rule insert_succeeds)
        show "it_nested_container_id ?x \<noteq> Some (co_container_id dst)" using nest coordinator_okD(2) [OF ok dst] by simp
        show "\<exists>q<length (co_slots dst). slot_is_free (co_slots dst ! q)" if "in_target_slot intent = None"
          using \<open>has_room intent tc\<close> that dst unfolding has_room_def m_def find_first_empty_slot_None
          by (auto simp: in_set_conv_nth)
      qed (use validated_target [OF t] in auto)
      then have room: "\<not> has_room intent tc" using Pair Inl by auto
      have k: "contents src2 k = left_over n item" using take(3) by simp
      have occ: "contents src k = Some item" using s(1,3) contents_at [OF s(1)] by (simp add: k_def)
      note bk = insert_back [OF ok2 k meta_eq_to_obj_eq [OF k_def [symmetric]], of ?x ?w]
      have "left_over n item = None \<Longrightarrow> ?x = item" by (auto simp: left_over_def taken_def split: if_splits)
      with bk(3) take(3) occ have "contents (fst (insert_item ?x (Some (in_source_slot intent)) ?w src2)) = (contents src)(k := left_over n item)
          \<or> contents (fst (insert_item ?x (Some (in_source_slot intent)) ?w src2)) = contents src"
        by auto
      then show ?thesis unfolding c Pair Inl d using room bk(1,2) take same_box_trans [OF take(2) bk(1)] by auto
    qed
  qed
qed

section \<open>A whole transfer\<close>

text \<open>
  What a transfer that passed its checks does to the map: the source slot keeps what is left of the
  stack, the target slot, free until then, gets what was taken.
\<close>

definition moved :: "ItemTransferIntent \<Rightarrow> ItemInstance \<Rightarrow> ItemTransactionCoordinator \<Rightarrow> u64 \<times> nat \<Rightarrow> ItemInstance option" where
  "moved intent item tc = (holdings tc)((in_source_container_id intent, unat (in_source_slot intent)) := left_over (in_quantity intent) item)"

definition outcome ::
  "ItemTransferIntent \<Rightarrow> ItemInstance \<Rightarrow> ItemTransactionCoordinator \<Rightarrow> ItemTransactionCoordinator
    \<Rightarrow> ItemTransactionError + ItemTransferResult \<Rightarrow> bool"
where
  "outcome intent item tc tc1 r \<longleftrightarrow>
     coordinator_ok tc1 \<and> tc_next_instance_id tc1 = saturating_add (tc_next_instance_id tc) 1
     \<and> (case r of
          Inl e \<Rightarrow> \<not> has_room intent tc \<and> (holdings tc1 = moved intent item tc \<or> holdings tc1 = holdings tc)
        | Inr res \<Rightarrow> transfer_result intent (re_target_slot res) = res
            \<and> (\<forall>q. in_target_slot intent = Some q \<longrightarrow> re_target_slot res = q)
            \<and> moved intent item tc (in_target_container_id intent, unat (re_target_slot res)) = None
            \<and> holdings tc1 = (moved intent item tc)((in_target_container_id intent, unat (re_target_slot res))
                \<mapsto> taken (in_quantity intent) (tc_next_instance_id tc) item))"

lemma holdings_at: "tc_containers tc i = Some c \<Longrightarrow> holdings tc (i, k) = contents c k"
  by (simp add: holdings_def)

lemma holdings_put: "holdings (put_container i d tc) (j, k) = (if j = i then contents d k else holdings tc (j, k))"
  by (simp add: holdings_def)

lemma commit_outcome:
  assumes ok: "coordinator_ok tc" and src: "tc_containers tc (in_source_container_id intent) = Some src"
    and dst: "tc_containers tc (in_target_container_id intent) = Some dst"
    and s: "get_slot (in_source_slot intent) src = Some s" "\<not> cs_is_locked s" "cs_item s = Some item"
    and n: "0 < in_quantity intent" "in_quantity intent \<le> it_quantity item"
    and nest: "it_nested_container_id item \<noteq> Some (in_target_container_id intent)"
    and t: "validate_target intent dst = Inr v" and l: "lock_slot (in_source_slot intent) src = (src1, Inr u)"
  shows "\<exists>tc1 r c. commit_transfer intent (put_container (in_source_container_id intent) src1 tc) = (tc1, r)
    \<and> outcome intent item tc tc1 r \<and> tc_containers tc1 (in_source_container_id intent) = Some c
    \<and> same_box src c \<and> map cs_is_locked (co_slots c) = map cs_is_locked (co_slots src)"
proof (cases "in_target_container_id intent = in_source_container_id intent")
  case True
  obtain d r where r: "commit_transfer intent (put_container (in_source_container_id intent) src1 tc)
        = (put_container (in_source_container_id intent) d (allocated tc), r)"
      "same_box src d" "map cs_is_locked (co_slots d) = map cs_is_locked (co_slots src)"
      "case r of
         Inl e \<Rightarrow> \<not> has_room intent tc \<and> contents d = (contents src)(unat (in_source_slot intent) := left_over (in_quantity intent) item)
       | Inr res \<Rightarrow> transfer_result intent (re_target_slot res) = res
           \<and> (\<forall>q. in_target_slot intent = Some q \<longrightarrow> re_target_slot res = q)
           \<and> ((contents src)(unat (in_source_slot intent) := left_over (in_quantity intent) item)) (unat (re_target_slot res)) = None
           \<and> contents d = (contents src)(unat (in_source_slot intent) := left_over (in_quantity intent) item,
               unat (re_target_slot res) \<mapsto> taken (in_quantity intent) (tc_next_instance_id tc) item)"
    using commit_within [OF ok src True s n nest [unfolded True] _ l] t dst True src by auto
  have "coordinator_ok (put_container (in_source_container_id intent) d (allocated tc))"
    using put_ok [of "allocated tc", OF _ _ r(2)] ok src by simp
  then have "outcome intent item tc (put_container (in_source_container_id intent) d (allocated tc)) r"
    using r(4) True src by (auto simp: outcome_def moved_def fun_eq_iff holdings_put holdings_at split: sum.splits)
  with r show ?thesis by auto
next
  case False
  obtain c d r where r: "commit_transfer intent (put_container (in_source_container_id intent) src1 tc)
        = (put_container (in_source_container_id intent) c (put_container (in_target_container_id intent) d (allocated tc)), r)"
      "same_box src c" "map cs_is_locked (co_slots c) = map cs_is_locked (co_slots src)" "same_box dst d"
      "case r of
         Inl e \<Rightarrow> \<not> has_room intent tc \<and> d = dst \<and> (contents c = (contents src)(unat (in_source_slot intent) := left_over (in_quantity intent) item)
           \<or> contents c = contents src)
       | Inr res \<Rightarrow> transfer_result intent (re_target_slot res) = res
           \<and> (\<forall>q. in_target_slot intent = Some q \<longrightarrow> re_target_slot res = q)
           \<and> contents dst (unat (re_target_slot res)) = None
           \<and> contents c = (contents src)(unat (in_source_slot intent) := left_over (in_quantity intent) item)
           \<and> contents d = (contents dst)(unat (re_target_slot res) \<mapsto> taken (in_quantity intent) (tc_next_instance_id tc) item)"
    using commit_between [OF ok src dst not_sym [OF False] s n nest t l] by blast
  let ?tc = "put_container (in_source_container_id intent) c (put_container (in_target_container_id intent) d (allocated tc))"
  have ok1: "coordinator_ok (put_container (in_target_container_id intent) d (allocated tc))"
    using put_ok [of "allocated tc", OF _ _ r(4)] ok dst by simp
  have ok2: "coordinator_ok ?tc"
    using put_ok [OF ok1 _ r(2)] src False by simp
  have "outcome intent item tc ?tc r"
  proof (cases r)
    case (Inl e)
    then show ?thesis using r(5) ok2 False src dst
      by (auto simp: outcome_def moved_def fun_eq_iff holdings_put holdings_at)
  next
    case (Inr res)
    then show ?thesis using r(5) ok2 False src dst
      by (auto simp: outcome_def moved_def fun_eq_iff holdings_put holdings_at)
  qed
  with r show ?thesis by auto
qed

lemma unlocked_map: "get_slot i c = Some s \<Longrightarrow> cs_is_locked s = map cs_is_locked (co_slots c) ! unat i"
  by (auto simp: get_slot_Some)

lemma outcome_recorded:
  "outcome intent item tc tc1 (Inr res) \<Longrightarrow> outcome intent item tc (record_transaction t tc1) (Inr res)"
  by (simp add: outcome_def record_ok)

lemma transfer_cases:
  assumes ok: "coordinator_ok tc" and x: "execute_transfer intent tc = (tc1, r)"
  obtains (refused) e where "tc1 = tc" "r = Inl e"
  | (moved) item src dst where "tc_containers tc (in_source_container_id intent) = Some src"
      "tc_containers tc (in_target_container_id intent) = Some dst"
      "holdings tc (in_source_container_id intent, unat (in_source_slot intent)) = Some item"
      "0 < in_quantity intent" "in_quantity intent \<le> it_quantity item" "it_instance_id item = in_item_instance_id intent"
      "it_flags item AND ITEM_FLAG_SOULBOUND \<noteq> 0 \<longrightarrow> co_owner_id src = co_owner_id dst"
      "outcome intent item tc tc1 r" "\<forall>res. r = Inr res \<longrightarrow> is_transaction_processed (in_transaction_id intent) tc1"
proof -
  let ?i = "in_source_container_id intent" and ?k = "in_source_slot intent"
  consider "tc1 = tc" "\<exists>e. r = Inl e"
    | src dst u v where "tc_containers tc ?i = Some src" "tc_containers tc (in_target_container_id intent) = Some dst"
        "validate_source intent (co_owner_id dst) src = Inr u" "validate_target intent dst = Inr v"
    using x unfolding execute_transfer_def by (auto split: if_splits option.splits sum.splits)
  then show thesis
  proof cases
    case 1
    then show ?thesis using refused by blast
  next
    case 2
    obtain s item where s: "get_slot ?k src = Some s" "\<not> cs_is_locked s" "cs_item s = Some item"
        "0 < in_quantity intent" "in_quantity intent \<le> it_quantity item" "it_instance_id item = in_item_instance_id intent"
        "it_flags item AND ITEM_FLAG_SOULBOUND \<noteq> 0 \<longrightarrow> co_owner_id src = co_owner_id dst"
        "it_nested_container_id item \<noteq> Some (in_target_container_id intent)"
      using validated_source [OF 2(3)] by blast
    define src1 where "src1 = set_slot ?k (s\<lparr>cs_is_locked := True\<rparr>) src"
    have l: "lock_slot ?k src = (src1, Inr ())" using s(1,2) by (simp add: lock_slot_def src1_def)
    obtain tc2 q c where c: "commit_transfer intent (put_container ?i src1 tc) = (tc2, q)" "outcome intent item tc tc2 q"
        "tc_containers tc2 ?i = Some c" "same_box src c" "map cs_is_locked (co_slots c) = map cs_is_locked (co_slots src)"
      using commit_outcome [OF ok 2(1,2) s(1-5,8) 2(4) l] by blast
    obtain s2 where s2: "get_slot ?k c = Some s2"
      using s(1) same_box_length [OF c(4)] by (auto simp: get_slot_def split: if_splits)
    have "\<not> cs_is_locked s2" using unlocked_map [OF s2] unlocked_map [OF s(1)] s(2) c(5) by simp
    then have "put_container ?i (unlock_slot ?k c) tc2 = tc2"
      using unlock_free [OF s2] c(3) by (simp add: put_container_def map_upd_triv)
    then have e: "execute_transfer intent tc =
        (case q of Inr res \<Rightarrow> (record_transaction (in_transaction_id intent) tc2, Inr res) | Inl e \<Rightarrow> (tc2, Inl e)) \<or> r = Inl DuplicateTransactionId \<and> tc1 = tc"
      using x 2 l c(1,3) unfolding execute_transfer_def by (auto split: if_splits)
    have h: "holdings tc (?i, unat ?k) = Some item" using holdings_at [OF 2(1)] contents_at [OF s(1)] s(3) by simp
    have okt: "coordinator_ok tc2" using c(2) by (simp add: outcome_def)
    show ?thesis
    proof (cases "r = Inl DuplicateTransactionId \<and> tc1 = tc")
      case True
      then show ?thesis using refused by blast
    next
      case False
      show ?thesis
      proof (cases q)
        case (Inl e1)
        then have "tc1 = tc2" "r = q" using e False x by auto
        then show ?thesis using moved [OF 2(1,2) h s(4-7)] c(2) Inl by simp
      next
        case (Inr res)
        then have "tc1 = record_transaction (in_transaction_id intent) tc2" "r = q" using e False x by auto
        then show ?thesis using moved [OF 2(1,2) h s(4-7)] outcome_recorded [of intent item tc tc2 res] c(2) Inr recorded [OF okt] by simp
      qed
    qed
  qed
qed

section \<open>Conservation and uniqueness\<close>

definition units :: "u32 \<Rightarrow> ItemInstance option \<Rightarrow> nat" where
  "units t x = (case x of Some item \<Rightarrow> if it_type_id item = t then unat (it_quantity item) else 0 | None \<Rightarrow> 0)"

text \<open>All units of an item type, over every slot of every container.\<close>

definition world_total :: "u32 \<Rightarrow> ItemTransactionCoordinator \<Rightarrow> nat" where
  "world_total t tc = entry_sum (units t) (holdings tc)"

text \<open>
  No instance id is in two slots; and no instance carries an id that the counter of the coordinator
  issues before it reaches \<open>lim\<close>.
\<close>

definition ids_distinct :: "ItemTransactionCoordinator \<Rightarrow> bool" where
  "ids_distinct tc \<longleftrightarrow>
     (\<forall>p q a b. holdings tc p = Some a \<longrightarrow> holdings tc q = Some b \<longrightarrow> it_instance_id a = it_instance_id b \<longrightarrow> p = q)"

definition ids_unissued :: "nat \<Rightarrow> ItemTransactionCoordinator \<Rightarrow> bool" where
  "ids_unissued lim tc \<longleftrightarrow>
     (\<forall>p a. holdings tc p = Some a \<longrightarrow> it_instance_id a < tc_next_instance_id tc \<or> lim \<le> unat (it_instance_id a))"

definition run_transfers :: "ItemTransferIntent list \<Rightarrow> ItemTransactionCoordinator \<Rightarrow> ItemTransactionCoordinator" where
  "run_transfers intents tc = fold (\<lambda>intent tc. fst (execute_transfer intent tc)) intents tc"

lemma finite_holdings:
  assumes "coordinator_ok tc"
  shows "finite (dom (holdings tc))"
proof (rule finite_subset)
  show "dom (holdings tc) \<subseteq> (SIGMA i:dom (tc_containers tc). dom (contents (the (tc_containers tc i))))"
    by (auto simp: holdings_def split: option.splits)
  show "finite (SIGMA i:dom (tc_containers tc). dom (contents (the (tc_containers tc i))))"
    using assms finite_contents by (intro finite_SigmaI) (auto simp: coordinator_ok_def)
qed

lemma units_split:
  "n \<le> it_quantity item \<Longrightarrow> units t (Some (taken n new item)) + units t (left_over n item) = units t (Some item)"
  using taken_left_quantity [of n item new] by (auto simp: units_def left_over_def split: if_splits)

lemma moved_total:
  assumes "coordinator_ok tc" and "n = in_quantity intent" and "n \<le> it_quantity item"
    and "holdings tc (in_source_container_id intent, unat (in_source_slot intent)) = Some item"
  shows "entry_sum (units t) (moved intent item tc) + units t (Some (taken n new item)) = world_total t tc"
    and "finite (dom (moved intent item tc))"
proof -
  show "finite (dom (moved intent item tc))" using finite_holdings [OF assms(1)] by (simp add: moved_def dom_fun_upd)
  have "units t None = 0" by (simp add: units_def)
  then have "entry_sum (units t) (moved intent item tc) + units t (Some item) = world_total t tc + units t (left_over n item)"
    using entry_sum_upd [where u = "units t", OF finite_holdings [OF assms(1)]] assms(2,4) unfolding moved_def world_total_def by metis
  with units_split [OF assms(3), of t new]
  show "entry_sum (units t) (moved intent item tc) + units t (Some (taken n new item)) = world_total t tc" by linarith
qed

lemma placed_total:
  assumes "finite (dom h)" and "h p = None"
  shows "entry_sum (units t) (h(p \<mapsto> x)) = entry_sum (units t) h + units t (Some x)"
  using entry_sum_upd [OF assms(1), of "units t" p "Some x"] assms(2) by (simp add: units_def)

lemma left_over_id: "left_over n item = Some a \<Longrightarrow> it_instance_id a = it_instance_id item \<and> it_quantity item \<noteq> n"
  by (auto simp: left_over_def split: if_splits)

lemma taken_id: "it_instance_id (taken n new item) = (if it_quantity item = n then it_instance_id item else new)"
  by (simp add: taken_def)

text \<open>Moving keeps the instances apart: the map after a move or a rollback, and after the item arrived.\<close>

definition apart :: "nat \<Rightarrow> u64 \<Rightarrow> ('p \<Rightarrow> ItemInstance option) \<Rightarrow> bool" where
  "apart lim n h \<longleftrightarrow> (\<forall>p a. h p = Some a \<longrightarrow> it_instance_id a < n \<or> lim \<le> unat (it_instance_id a))
     \<and> (\<forall>p q a b. h p = Some a \<longrightarrow> h q = Some b \<longrightarrow> it_instance_id a = it_instance_id b \<longrightarrow> p = q)"

lemma apart_iff: "apart lim (tc_next_instance_id tc) (holdings tc) \<longleftrightarrow> ids_distinct tc \<and> ids_unissued lim tc"
  by (auto simp: ids_distinct_def ids_unissued_def apart_def)

lemma apart_mono: "apart lim n h \<Longrightarrow> n \<le> m \<Longrightarrow> apart lim m h"
  unfolding apart_def by (meson less_le_trans)

lemma apart_shrink:
  assumes "apart lim n h" and "\<And>p a. g p = Some a \<Longrightarrow> \<exists>b. h p = Some b \<and> it_instance_id b = it_instance_id a"
  shows "apart lim n g"
  using assms unfolding apart_def by metis

lemma apart_place:
  assumes "apart lim n g" and "it_instance_id x < n \<or> lim \<le> unat (it_instance_id x)"
    and "\<And>q b. q \<noteq> p \<Longrightarrow> g q = Some b \<Longrightarrow> it_instance_id b \<noteq> it_instance_id x"
  shows "apart lim n (g(p \<mapsto> x))"
  using assms unfolding apart_def fun_upd_apply by (metis option.inject)

lemma outcome_next: "outcome intent item tc tc1 r \<Longrightarrow> tc_next_instance_id tc1 = saturating_add (tc_next_instance_id tc) 1"
  by (simp add: outcome_def)

lemma next_id_grows: "n \<le> saturating_add n (1 :: 'a::len word)"
  using unat_le_pow [of n] by (simp add: word_le_nat_alt unat_ops)

lemma next_id_fresh: "unat n + 1 < 2 ^ LENGTH('a) \<Longrightarrow> n < saturating_add n (1 :: 'a::len word)"
  by (simp add: word_less_nat_alt unat_ops min_def)

lemma execute_total:
  assumes ok: "coordinator_ok tc" and x: "execute_transfer intent tc = (tc1, r)"
  shows "coordinator_ok tc1 \<and> world_total t tc1 \<le> world_total t tc
    \<and> (has_room intent tc \<or> (\<exists>res. r = Inr res) \<longrightarrow> world_total t tc1 = world_total t tc)"
  using ok x
proof (cases rule: transfer_cases)
  case (refused e)
  then show ?thesis using ok by simp
next
  case (moved item src dst)
  note total = moved_total(1) [OF ok refl moved(5,3), of t "tc_next_instance_id tc"] moved_total(2) [OF ok refl moved(5,3)]
  show ?thesis
  proof (cases r)
    case (Inl e)
    then have "\<not> has_room intent tc" "coordinator_ok tc1"
        "holdings tc1 = moved intent item tc \<or> holdings tc1 = holdings tc"
      using moved(8) by (simp_all add: outcome_def)
    then show ?thesis using total(1) Inl by (auto simp: world_total_def)
  next
    case (Inr res)
    then have o: "coordinator_ok tc1"
        "moved intent item tc (in_target_container_id intent, unat (re_target_slot res)) = None"
        "holdings tc1 = (moved intent item tc)((in_target_container_id intent, unat (re_target_slot res))
          \<mapsto> taken (in_quantity intent) (tc_next_instance_id tc) item)"
      using moved(8) by (simp_all add: outcome_def)
    have "world_total t tc1 = world_total t tc"
      unfolding world_total_def [of t tc1] o(3) placed_total [OF total(2) o(2)] by (rule total(1))
    then show ?thesis using o(1) by simp
  qed
qed

lemma moved_apart:
  assumes "apart lim n (holdings tc)" and "holdings tc (in_source_container_id intent, unat (in_source_slot intent)) = Some item"
  shows "apart lim n (moved intent item tc)"
  using assms(1)
proof (rule apart_shrink)
  show "\<exists>b. holdings tc p = Some b \<and> it_instance_id b = it_instance_id a" if "moved intent item tc p = Some a" for p a
    using that assms(2) left_over_id [of "in_quantity intent" item a] by (auto simp: moved_def split: if_splits)
qed

lemma execute_unique:
  assumes ok: "coordinator_ok tc" and uq: "apart lim (tc_next_instance_id tc) (holdings tc)"
    and n: "unat (tc_next_instance_id tc) < lim" "lim < 2 ^ 64" and x: "execute_transfer intent tc = (tc1, r)"
  shows "apart lim (tc_next_instance_id tc1) (holdings tc1) \<and> unat (tc_next_instance_id tc1) \<le> unat (tc_next_instance_id tc) + 1"
  using ok x
proof (cases rule: transfer_cases)
  case (refused e)
  then show ?thesis using uq by simp
next
  case (moved item src dst)
  let ?n = "tc_next_instance_id tc" and ?m = "moved intent item tc" and ?q = "in_quantity intent"
  let ?s = "(in_source_container_id intent, unat (in_source_slot intent))"
  have nx: "tc_next_instance_id tc1 = saturating_add ?n 1" by (rule outcome_next [OF moved(8)])
  have le: "?n \<le> saturating_add ?n 1" by (rule next_id_grows)
  have lt: "?n < saturating_add ?n 1" using n by (intro next_id_fresh) simp
  have ap: "apart lim ?n ?m" by (rule moved_apart [OF uq moved(3)])
  have "apart lim (saturating_add ?n 1) (holdings tc1)"
  proof (cases r)
    case (Inl e)
    then have "holdings tc1 = ?m \<or> holdings tc1 = holdings tc" using moved(8) by (simp add: outcome_def)
    then show ?thesis using apart_mono [OF ap le] apart_mono [OF uq le] by auto
  next
    case (Inr res)
    let ?p = "(in_target_container_id intent, unat (re_target_slot res))"
    have h: "holdings tc1 = ?m(?p \<mapsto> taken ?q ?n item)" using moved(8) Inr by (simp add: outcome_def)
    have id: "it_instance_id item < ?n \<or> lim \<le> unat (it_instance_id item)" using uq moved(3) by (auto simp: apart_def)
    show ?thesis unfolding h
    proof (rule apart_place [OF apart_mono [OF ap le]])
      show "it_instance_id (taken ?q ?n item) < saturating_add ?n 1 \<or> lim \<le> unat (it_instance_id (taken ?q ?n item))"
        using id lt by (auto simp: taken_id intro: less_trans)
      show "it_instance_id b \<noteq> it_instance_id (taken ?q ?n item)" if "?m z = Some b" for z b
      proof (cases "it_quantity item = ?q")
        case True
        then have "z \<noteq> ?s" "holdings tc z = Some b" using that by (auto simp: moved_def left_over_def split: if_splits)
        moreover have "it_instance_id b = it_instance_id item \<Longrightarrow> z = ?s"
          using uq moved(3) \<open>holdings tc z = Some b\<close> unfolding apart_def by blast
        ultimately show ?thesis using True by (auto simp: taken_id)
      next
        case False
        have "it_instance_id b < ?n \<or> lim \<le> unat (it_instance_id b)" using ap that unfolding apart_def by blast
        then show ?thesis using False n(1) by (auto simp: taken_id)
      qed
    qed
  qed
  then show ?thesis by (simp add: nx unat_ops)
qed

lemma run_unique:
  assumes "coordinator_ok tc" and "apart lim (tc_next_instance_id tc) (holdings tc)"
    and "unat (tc_next_instance_id tc) + length intents \<le> lim" and "lim < 2 ^ 64"
  shows "ids_distinct (run_transfers intents tc)"
  using assms
proof (induction intents arbitrary: tc)
  case Nil
  then show ?case by (simp add: run_transfers_def apart_iff)
next
  case (Cons x xs)
  obtain tc1 r where e: "execute_transfer x tc = (tc1, r)" by fastforce
  have "apart lim (tc_next_instance_id tc1) (holdings tc1) \<and> unat (tc_next_instance_id tc1) \<le> unat (tc_next_instance_id tc) + 1"
    using execute_unique [OF Cons.prems(1,2) _ Cons.prems(4) e] Cons.prems(3) by simp
  then show ?case
    using Cons.IH [of tc1] execute_total [OF Cons.prems(1) e] Cons.prems(3,4) by (simp add: run_transfers_def e)
qed

lemma run_transfers_Cons: "run_transfers (x # xs) tc = run_transfers xs (fst (execute_transfer x tc))"
  by (simp add: run_transfers_def)

section \<open>A small world\<close>

text \<open>A bag with a stack of ten units and an empty vault, and a request to move four units over.\<close>

definition ore :: ItemInstance where
  "ore = ItemInstance_new 7 3 10 100"

definition small_world :: ItemTransactionCoordinator where
  "small_world = register_container (Container_new 2 42 BankVault 2 0)
     (register_container (fst (insert_item ore (Some 1) 50 (Container_new 1 42 PlayerInventory 2 1000)))
       ItemTransactionCoordinator_new)"

definition four_to_vault :: ItemTransferIntent where
  "four_to_vault = \<lparr>in_transaction_id = 9, in_source_container_id = 1, in_source_slot = 1, in_item_instance_id = 7,
     in_target_container_id = 2, in_target_slot = None, in_quantity = 4, in_item_weight_grams = 20\<rparr>"

lemma two_slots: "co_slots (Container_new i ow t 2 mx) = [ContainerSlot_new 0, ContainerSlot_new 1]"
  by (simp add: Container_new_def upt_rec)

lemma ore_bag: "fst (insert_item ore (Some 1) 50 (Container_new 1 42 PlayerInventory 2 1000)) =
   \<lparr>co_container_id = 1, co_owner_id = 42, co_container_type = PlayerInventory, co_capacity = 2, co_max_weight_grams = 1000,
    co_current_weight_grams = 50, co_slots = [ContainerSlot_new 0, (ContainerSlot_new 1)\<lparr>cs_item := Some ore\<rparr>]\<rparr>"
  unfolding insert_item_def choose_slot_def get_slot_def two_slots
  by (simp add: Container_new_def upt_rec ore_def ItemInstance_new_def ContainerSlot_new_def saturating_add_def set_slot_def)

lemmas transfer_steps = execute_transfer_def is_transaction_processed_def register_container_def
  ItemTransactionCoordinator_new_def validate_source_def validate_target_def get_slot_def ContainerSlot_new_def
  ItemInstance_new_def ITEM_FLAG_SOULBOUND_def free_slot_count_def lock_slot_def commit_transfer_def
  allocate_instance_id_def take_out_def commit_split_stack_def unlock_slot_def split_stack_def Let_def insert_item_def
  set_slot_def choose_slot_def find_first_empty_slot_def slot_is_free_def two_slots ore_def saturating_add_def

lemma four_to_vault_result: "snd (execute_transfer four_to_vault small_world) = Inr (transfer_result four_to_vault 0)"
  unfolding small_world_def four_to_vault_def ore_bag by (simp add: transfer_steps)

lemma small_world_ok: "coordinator_ok small_world"
  unfolding small_world_def ore_bag
  by (intro register_ok coordinator_ok_new container_ok_new)
     (auto simp: container_ok_def ContainerSlot_new_def less_Suc_eq)

lemma small_world_holdings: "holdings small_world p = (if p = (1, 1) then Some ore else None)"
  unfolding small_world_def ore_bag
  by (cases p) (auto simp: holdings_def register_container_def ItemTransactionCoordinator_new_def contents_def two_slots
      ContainerSlot_new_def less_Suc_eq)

lemma small_world_unique: "ids_distinct small_world" "ids_unissued lim small_world"
  unfolding ids_distinct_def ids_unissued_def small_world_holdings
  by (auto simp: ore_def ItemInstance_new_def small_world_def register_container_def ItemTransactionCoordinator_new_def split: if_splits)

lemma small_world_next: "tc_next_instance_id small_world = 100000"
  by (simp add: small_world_def register_container_def ItemTransactionCoordinator_new_def)

text \<open>
  Without room a failed split is not undone: in a bag of one slot, a request to split four units off
  the only stack fails with \<open>TargetContainerFull\<close>, and the stack is left with six of its ten units.
\<close>

definition full_bag :: ItemTransactionCoordinator where
  "full_bag = register_container (fst (insert_item ore None 50 (Container_new 1 42 PlayerInventory 1 1000))) ItemTransactionCoordinator_new"

lemma failed_split_loses_units:
  "case execute_transfer (four_to_vault\<lparr>in_source_slot := 0, in_target_container_id := 1\<rparr>) full_bag of
     (tc1, r) \<Rightarrow> r = Inl TargetContainerFull \<and> holdings full_bag (1, 0) = Some ore
       \<and> holdings tc1 (1, 0) = Some (ore\<lparr>it_quantity := 6\<rparr>)"
proof -
  have one: "co_slots (Container_new i ow t 1 mx) = [ContainerSlot_new 0]" for i ow t mx
    by (simp add: Container_new_def)
  have bag: "fst (insert_item ore None 50 (Container_new 1 42 PlayerInventory 1 1000)) =
     \<lparr>co_container_id = 1, co_owner_id = 42, co_container_type = PlayerInventory, co_capacity = 1, co_max_weight_grams = 1000,
      co_current_weight_grams = 50, co_slots = [(ContainerSlot_new 0)\<lparr>cs_item := Some ore\<rparr>]\<rparr>"
    unfolding insert_item_def choose_slot_def find_first_empty_slot_def one
    by (simp add: Container_new_def ore_def ItemInstance_new_def ContainerSlot_new_def saturating_add_def set_slot_def slot_is_free_def)
  show ?thesis
    unfolding full_bag_def bag four_to_vault_def
    by (simp add: transfer_steps put_container_def holdings_def contents_def)
qed

text \<open>
  Registering a container does not look at the ids in it: a stack registered under the id
  \<open>100000\<close>, the first one the coordinator issues, shares it with the stack split off it.
\<close>

definition taken_id_world :: ItemTransactionCoordinator where
  "taken_id_world = put_container 1
     ((fst (insert_item ore (Some 1) 50 (Container_new 1 42 PlayerInventory 2 1000)))
       \<lparr>co_slots := [ContainerSlot_new 0, (ContainerSlot_new 1)\<lparr>cs_item := Some (ore\<lparr>it_instance_id := 100000\<rparr>)\<rparr>]\<rparr>) small_world"

lemma registered_id_is_issued_again:
  "case execute_transfer (four_to_vault\<lparr>in_item_instance_id := 100000\<rparr>) taken_id_world of
     (tc1, r) \<Rightarrow> holdings tc1 (1, 1) = Some (ore\<lparr>it_instance_id := 100000, it_quantity := 6\<rparr>)
       \<and> holdings tc1 (2, 0) = Some (ore\<lparr>it_instance_id := 100000, it_quantity := 4\<rparr>)"
  unfolding taken_id_world_def small_world_def four_to_vault_def ore_bag
  by (simp add: transfer_steps put_container_def holdings_def contents_def)

section \<open>Properties\<close>

text \<open>
  C19. A transfer refines a move in the map from positions (container, slot) to items: when it
  succeeds, the source held the named item with at least the requested quantity and no soulbound
  item changed owner, the source keeps the rest of the stack, the target slot (the requested one,
  if one was requested) was free and holds what was taken, under a new instance id if the stack was
  split, and the transaction is on record. When it fails and the target container had a free
  slot for it, the coordinator is exactly as before.
\<close>
theorem transfer_refines_move:
  assumes "coordinator_ok tc" and "execute_transfer intent tc = (tc1, r)"
  shows "case r of
      Inl e \<Rightarrow> has_room intent tc \<longrightarrow> tc1 = tc
    | Inr res \<Rightarrow> \<exists>item src dst. tc_containers tc (in_source_container_id intent) = Some src
        \<and> tc_containers tc (in_target_container_id intent) = Some dst
        \<and> holdings tc (in_source_container_id intent, unat (in_source_slot intent)) = Some item
        \<and> it_instance_id item = in_item_instance_id intent \<and> 0 < in_quantity intent \<and> in_quantity intent \<le> it_quantity item
        \<and> (it_flags item AND ITEM_FLAG_SOULBOUND \<noteq> 0 \<longrightarrow> co_owner_id src = co_owner_id dst)
        \<and> res = transfer_result intent (re_target_slot res) \<and> in_target_slot intent \<in> {None, Some (re_target_slot res)}
        \<and> moved intent item tc (in_target_container_id intent, unat (re_target_slot res)) = None
        \<and> holdings tc1 = (moved intent item tc)((in_target_container_id intent, unat (re_target_slot res))
            \<mapsto> taken (in_quantity intent) (tc_next_instance_id tc) item)
        \<and> is_transaction_processed (in_transaction_id intent) tc1"
  using assms
proof (cases rule: transfer_cases)
  case (refused e)
  then show ?thesis by simp
next
  case (moved item src dst)
  show ?thesis
  proof (cases r)
    case (Inl e)
    then show ?thesis using moved(8) by (simp add: outcome_def)
  next
    case (Inr res)
    have o: "transfer_result intent (re_target_slot res) = res" "\<forall>q. in_target_slot intent = Some q \<longrightarrow> re_target_slot res = q"
        "moved intent item tc (in_target_container_id intent, unat (re_target_slot res)) = None"
        "holdings tc1 = (moved intent item tc)((in_target_container_id intent, unat (re_target_slot res))
          \<mapsto> taken (in_quantity intent) (tc_next_instance_id tc) item)"
      using moved(8) Inr by (simp_all add: outcome_def)
    have "in_target_slot intent \<in> {None, Some (re_target_slot res)}" using o(2) by (cases "in_target_slot intent") auto
    then show ?thesis unfolding Inr sum.case
      by (intro exI [of _ item] exI [of _ src] exI [of _ dst]) (simp add: moved o Inr)
  qed
qed

lemma transfer_refines_move_witness:
  "\<exists>tc1. execute_transfer four_to_vault small_world = (tc1, Inr (transfer_result four_to_vault 0))
    \<and> holdings tc1 (1, 1) = Some (ore\<lparr>it_quantity := 6\<rparr>)
    \<and> holdings tc1 (2, 0) = Some (ore\<lparr>it_instance_id := 100000, it_quantity := 4\<rparr>)"
proof -
  obtain tc1 where x: "execute_transfer four_to_vault small_world = (tc1, Inr (transfer_result four_to_vault 0))"
    using four_to_vault_result by (cases "execute_transfer four_to_vault small_world") simp
  from transfer_refines_move [OF small_world_ok x]
  have "holdings tc1 = (moved four_to_vault ore small_world)((2, 0) \<mapsto> taken 4 100000 ore)"
    by (auto simp: four_to_vault_def transfer_result_def small_world_holdings small_world_next)
  then have "holdings tc1 (1, 1) = Some (ore\<lparr>it_quantity := 6\<rparr>) \<and> holdings tc1 (2, 0) = Some (ore\<lparr>it_instance_id := 100000, it_quantity := 4\<rparr>)"
    by (simp add: moved_def four_to_vault_def taken_def left_over_def ore_def ItemInstance_new_def)
  with x show ?thesis by blast
qed

text \<open>
  C5. Transfers make nothing. Whatever transfers are requested of a coordinator, in whatever order and
  however they end, the total of each item type over all containers never grows, and it is unchanged
  if every request found a free slot in its target. If no instance id was in two slots before, none is
  afterwards, provided no item was registered under an id that the counter issues during the run
  (which starts at 100000 and which \<open>register_container\<close> does not compare with the ids it gets, see
  \<open>registered_id_is_issued_again\<close>) and the 64-bit counter does not reach its end.
\<close>
theorem transfers_conserve_items:
  assumes "coordinator_ok tc"
  shows "world_total t (run_transfers intents tc) \<le> world_total t tc
    \<and> ((\<forall>k<length intents. has_room (intents ! k) (run_transfers (take k intents) tc))
        \<longrightarrow> world_total t (run_transfers intents tc) = world_total t tc)
    \<and> (ids_distinct tc \<and> ids_unissued (unat (tc_next_instance_id tc) + length intents) tc
          \<and> unat (tc_next_instance_id tc) + length intents < 2 ^ 64
        \<longrightarrow> ids_distinct (run_transfers intents tc))"
proof -
  have "world_total t (run_transfers intents tc) \<le> world_total t tc
    \<and> ((\<forall>k<length intents. has_room (intents ! k) (run_transfers (take k intents) tc))
        \<longrightarrow> world_total t (run_transfers intents tc) = world_total t tc)"
    using assms
  proof (induction intents arbitrary: tc)
    case Nil
    then show ?case by (simp add: run_transfers_def)
  next
    case (Cons x xs)
    obtain tc1 r where e: "execute_transfer x tc = (tc1, r)" by fastforce
    note t = execute_total [OF Cons.prems e, of t]
    have run: "run_transfers (x # xs) tc = run_transfers xs tc1" by (simp add: run_transfers_Cons e)
    have rooms: "has_room x tc \<and> (\<forall>k<length xs. has_room (xs ! k) (run_transfers (take k xs) tc1))"
      if "\<forall>k<length (x # xs). has_room ((x # xs) ! k) (run_transfers (take k (x # xs)) tc)"
      using that [rule_format, of 0] that [rule_format, of "Suc _"] by (auto simp: run_transfers_def e)
    show ?case unfolding run using Cons.IH [of tc1] t rooms by auto
  qed
  then show ?thesis using run_unique [OF assms _ order.refl, unfolded apart_iff] by blast
qed

lemma transfers_conserve_items_witness:
  "world_total 3 (run_transfers [four_to_vault, four_to_vault] small_world) \<le> world_total 3 small_world
    \<and> ids_distinct (run_transfers [four_to_vault, four_to_vault] small_world)"
  using transfers_conserve_items [OF small_world_ok, of 3 "[four_to_vault, four_to_vault]"]
  by (simp add: small_world_unique small_world_next)

end
