(* ===== verification/Identity.thy ===== *)
theory Identity
  imports Prelude
begin

text \<open>
  The identity registry of \<^verbatim>\<open>eidolon-core/src/identity.rs\<close>: accounts, sessions and characters. Two
  tables of slots, one keyed by account and one by character; a login on an account that has a
  session overwrites its ticket and raises its generation, so that authorisations issued before it
  no longer validate.
\<close>

section \<open>Data\<close>

datatype AccountId = AccountId u64

datatype CharacterId = CharacterId u64

datatype SessionTicket = SessionTicket "u8 list"

record CharacterAuthorization =
  au_account_id :: AccountId
  au_character_id :: CharacterId
  au_session_ticket :: SessionTicket
  au_generation :: u64

datatype IdentityError =
    StaleSessionGeneration u64 u64                                  \<comment> \<open>expected, actual\<close>
  | CrossAccountCharacterMismatch CharacterId AccountId AccountId   \<comment> \<open>character, owner, caller\<close>
  | SessionRevoked
  | CharacterNotFound
  | CapacityExceeded

record ActiveSession =
  se_account_id :: AccountId
  se_ticket :: SessionTicket
  se_generation :: u64
  se_active_character :: "CharacterId option"

record CharacterOwnership =
  ch_character_id :: CharacterId
  ch_owner_account :: AccountId

record IdentityRegistry =
  ir_sessions :: "ActiveSession option list"
  ir_characters :: "CharacterOwnership option list"
  ir_session_count :: nat
  ir_character_count :: nat

definition IdentityRegistry_new :: "nat \<Rightarrow> nat \<Rightarrow> IdentityRegistry" where
  "IdentityRegistry_new max_accounts max_characters =
     \<lparr>ir_sessions = replicate max_accounts None, ir_characters = replicate max_characters None,
      ir_session_count = 0, ir_character_count = 0\<rparr>"

section \<open>Operations\<close>

definition register_character ::
  "AccountId \<Rightarrow> CharacterId \<Rightarrow> IdentityRegistry \<Rightarrow> IdentityRegistry \<times> (IdentityError + unit)"
where
  "register_character account_id character_id reg =
     (let new = Some \<lparr>ch_character_id = character_id, ch_owner_account = account_id\<rparr> in
      case find_index (has_key ch_character_id character_id) (ir_characters reg) of
        Some i \<Rightarrow> (reg\<lparr>ir_characters := (ir_characters reg)[i := new]\<rparr>, Inr ())
      | None \<Rightarrow>
          (case find_index (\<lambda>s. s = None) (ir_characters reg) of
             Some i \<Rightarrow> (reg\<lparr>ir_characters := (ir_characters reg)[i := new],
                            ir_character_count := ir_character_count reg + 1\<rparr>, Inr ())
           | None \<Rightarrow> (reg, Inl CapacityExceeded)))"

definition authenticate_session ::
  "AccountId \<Rightarrow> SessionTicket \<Rightarrow> IdentityRegistry \<Rightarrow> IdentityRegistry \<times> (IdentityError + u64)"
where
  "authenticate_session account_id ticket reg =
     (case find_index (has_key se_account_id account_id) (ir_sessions reg) of
        Some i \<Rightarrow>
          (let slot = the (ir_sessions reg ! i);
               next_gen = saturating_add (se_generation slot) 1 in
           (reg\<lparr>ir_sessions := (ir_sessions reg)[i := Some (slot\<lparr>se_ticket := ticket, se_generation := next_gen,
                  se_active_character := None\<rparr>)]\<rparr>, Inr next_gen))
      | None \<Rightarrow>
          (case find_index (\<lambda>s. s = None) (ir_sessions reg) of
             Some i \<Rightarrow> (reg\<lparr>ir_sessions := (ir_sessions reg)[i := Some \<lparr>se_account_id = account_id, se_ticket = ticket,
                              se_generation = 1, se_active_character = None\<rparr>],
                            ir_session_count := ir_session_count reg + 1\<rparr>, Inr 1)
           | None \<Rightarrow> (reg, Inl CapacityExceeded)))"

definition select_character ::
  "SessionTicket \<Rightarrow> CharacterId \<Rightarrow> IdentityRegistry \<Rightarrow> IdentityRegistry \<times> (IdentityError + CharacterAuthorization)"
where
  "select_character ticket character_id reg =
     (case find_index (has_key se_ticket ticket) (ir_sessions reg) of
        None \<Rightarrow> (reg, Inl SessionRevoked)
      | Some i \<Rightarrow>
          (let session = the (ir_sessions reg ! i) in
           case slot_lookup ch_character_id (ir_characters reg) character_id of
             None \<Rightarrow> (reg, Inl CharacterNotFound)
           | Some c \<Rightarrow>
               if ch_owner_account c \<noteq> se_account_id session
               then (reg, Inl (CrossAccountCharacterMismatch character_id (ch_owner_account c) (se_account_id session)))
               else
                 (reg\<lparr>ir_sessions := (ir_sessions reg)[i := Some (session\<lparr>se_active_character := Some character_id\<rparr>)]\<rparr>,
                  Inr \<lparr>au_account_id = se_account_id session, au_character_id = character_id,
                       au_session_ticket = ticket, au_generation = se_generation session\<rparr>)))"

definition validate_character_action ::
  "CharacterAuthorization \<Rightarrow> CharacterId \<Rightarrow> IdentityRegistry \<Rightarrow> IdentityError + unit"
where
  "validate_character_action auth target_character reg =
     (if au_character_id auth \<noteq> target_character
      then Inl (CrossAccountCharacterMismatch target_character (au_account_id auth) (au_account_id auth))
      else
        (case slot_lookup se_account_id (ir_sessions reg) (au_account_id auth) of
           None \<Rightarrow> Inl SessionRevoked
         | Some session \<Rightarrow>
             if se_ticket session \<noteq> au_session_ticket auth then Inl SessionRevoked
             else if se_generation session \<noteq> au_generation auth
             then Inl (StaleSessionGeneration (se_generation session) (au_generation auth))
             else Inr ()))"

definition revoke_session :: "AccountId \<Rightarrow> IdentityRegistry \<Rightarrow> IdentityRegistry" where
  "revoke_session account_id reg =
     (case find_index (has_key se_account_id account_id) (ir_sessions reg) of
        Some i \<Rightarrow> reg\<lparr>ir_sessions := (ir_sessions reg)[i := None], ir_session_count := ir_session_count reg - 1\<rparr>
      | None \<Rightarrow> reg)"

definition active_session_count :: "IdentityRegistry \<Rightarrow> nat" where
  "active_session_count reg = ir_session_count reg"

section \<open>The tables as maps\<close>

definition sessions_of :: "IdentityRegistry \<Rightarrow> AccountId \<rightharpoonup> ActiveSession" where
  "sessions_of reg = slot_lookup se_account_id (ir_sessions reg)"

definition owner_of :: "IdentityRegistry \<Rightarrow> CharacterId \<rightharpoonup> AccountId" where
  "owner_of reg c = map_option ch_owner_account (slot_lookup ch_character_id (ir_characters reg) c)"

definition registry_ok :: "IdentityRegistry \<Rightarrow> bool" where
  "registry_ok reg \<longleftrightarrow> keyed se_account_id (ir_sessions reg) \<and> keyed ch_character_id (ir_characters reg)
     \<and> ir_session_count reg = occupied (ir_sessions reg) \<and> ir_character_count reg = occupied (ir_characters reg)"

lemma registry_ok_new: "registry_ok (IdentityRegistry_new m n)"
  by (simp add: registry_ok_def IdentityRegistry_new_def)

section \<open>What the operations do to the maps\<close>

text \<open>The session an account gets by logging in.\<close>

definition next_session :: "AccountId \<Rightarrow> SessionTicket \<Rightarrow> ActiveSession option \<Rightarrow> ActiveSession" where
  "next_session account_id ticket old =
     \<lparr>se_account_id = account_id, se_ticket = ticket,
      se_generation = (case old of Some s \<Rightarrow> saturating_add (se_generation s) 1 | None \<Rightarrow> 1), se_active_character = None\<rparr>"

lemma full_table: "find_index (\<lambda>s. s = None) slots = None \<longleftrightarrow> occupied slots = length slots"
proof
  assume "find_index (\<lambda>s. s = None) slots = None"
  then have "filter (\<lambda>s. s \<noteq> None) slots = slots" by (simp add: find_index_None_iff filter_id_conv)
  then show "occupied slots = length slots" by (simp add: occupied_def)
next
  assume "occupied slots = length slots"
  then show "find_index (\<lambda>s. s = None) slots = None"
    by (metis (mono_tags, lifting) find_index_None_iff length_filter_less less_irrefl occupied_def)
qed

lemma authenticate_map:
  assumes ok: "registry_ok reg" and a: "authenticate_session acc t reg = (reg1, r)"
  shows "registry_ok reg1 \<and> ir_characters reg1 = ir_characters reg \<and>
    (case r of
       Inr g \<Rightarrow> g = se_generation (next_session acc t (sessions_of reg acc))
         \<and> sessions_of reg1 = (sessions_of reg)(acc \<mapsto> next_session acc t (sessions_of reg acc))
     | Inl e \<Rightarrow> e = CapacityExceeded \<and> reg1 = reg \<and> sessions_of reg acc = None \<and> ir_session_count reg = length (ir_sessions reg))"
proof -
  have k: "keyed se_account_id (ir_sessions reg)" using ok by (simp add: registry_ok_def)
  show ?thesis
  proof (cases "find_index (has_key se_account_id acc) (ir_sessions reg)")
    case (Some i)
    note s = found_slot [OF Some] and l = table_found [OF Some]
    let ?new = "next_session acc t (Some (the (ir_sessions reg ! i)))"
    have new: "(the (ir_sessions reg ! i))\<lparr>se_ticket := t,
        se_generation := saturating_add (se_generation (the (ir_sessions reg ! i))) 1, se_active_character := None\<rparr> = ?new"
      using s(3) by (cases "the (ir_sessions reg ! i)") (simp add: next_session_def)
    have key: "se_account_id ?new = acc" by (simp add: next_session_def)
    have "reg1 = reg\<lparr>ir_sessions := (ir_sessions reg)[i := Some ?new]\<rparr>" "r = Inr (se_generation ?new)"
      using a Some unfolding authenticate_session_def by (simp_all add: Let_def new) (auto simp: next_session_def)
    with ok table_replace [OF k Some key] l show ?thesis by (simp add: registry_ok_def sessions_of_def)
  next
    case None
    have none: "slot_lookup se_account_id (ir_sessions reg) acc = None" using None by (simp add: slot_lookup_def)
    show ?thesis
    proof (cases "find_index (\<lambda>s. s = None) (ir_sessions reg)")
      case full: None
      then have "reg1 = reg" "r = Inl CapacityExceeded" using a None by (simp_all add: authenticate_session_def)
      then show ?thesis using ok none full full_table [of "ir_sessions reg"] by (simp add: registry_ok_def sessions_of_def)
    next
      case (Some i)
      let ?new = "next_session acc t None"
      have key: "se_account_id ?new = acc" by (simp add: next_session_def)
      have "reg1 = reg\<lparr>ir_sessions := (ir_sessions reg)[i := Some ?new], ir_session_count := ir_session_count reg + 1\<rparr>"
          "r = Inr (se_generation ?new)"
        using a None Some by (simp_all add: authenticate_session_def next_session_def)
      with ok table_put [OF k None Some key] none show ?thesis by (simp add: registry_ok_def sessions_of_def)
    qed
  qed
qed

lemma register_map:
  assumes ok: "registry_ok reg" and a: "register_character acc c reg = (reg1, r)"
  shows "registry_ok reg1 \<and> ir_sessions reg1 = ir_sessions reg \<and>
    (case r of
       Inr u \<Rightarrow> owner_of reg1 = (owner_of reg)(c \<mapsto> acc)
     | Inl e \<Rightarrow> e = CapacityExceeded \<and> reg1 = reg \<and> owner_of reg c = None \<and> ir_character_count reg = length (ir_characters reg))"
proof -
  have k: "keyed ch_character_id (ir_characters reg)" using ok by (simp add: registry_ok_def)
  let ?new = "\<lparr>ch_character_id = c, ch_owner_account = acc\<rparr>"
  have key: "ch_character_id ?new = c" by simp
  show ?thesis
  proof (cases "find_index (has_key ch_character_id c) (ir_characters reg)")
    case (Some i)
    then have "reg1 = reg\<lparr>ir_characters := (ir_characters reg)[i := Some ?new]\<rparr>" "r = Inr ()"
      using a by (simp_all add: register_character_def Let_def)
    with ok table_replace [OF k Some key] show ?thesis by (simp add: registry_ok_def owner_of_def fun_eq_iff)
  next
    case None
    have none: "slot_lookup ch_character_id (ir_characters reg) c = None" using None by (simp add: slot_lookup_def)
    show ?thesis
    proof (cases "find_index (\<lambda>s. s = None) (ir_characters reg)")
      case full: None
      then have "reg1 = reg" "r = Inl CapacityExceeded" using a None by (simp_all add: register_character_def)
      then show ?thesis using ok none full full_table [of "ir_characters reg"] by (simp add: registry_ok_def owner_of_def)
    next
      case (Some i)
      then have "reg1 = reg\<lparr>ir_characters := (ir_characters reg)[i := Some ?new], ir_character_count := ir_character_count reg + 1\<rparr>"
          "r = Inr ()"
        using a None by (simp_all add: register_character_def)
      with ok table_put [OF k None Some key] show ?thesis by (simp add: registry_ok_def owner_of_def fun_eq_iff)
    qed
  qed
qed

lemma revoke_map:
  assumes ok: "registry_ok reg"
  shows "registry_ok (revoke_session acc reg) \<and> sessions_of (revoke_session acc reg) = (sessions_of reg)(acc := None)
    \<and> ir_characters (revoke_session acc reg) = ir_characters reg"
proof -
  have k: "keyed se_account_id (ir_sessions reg)" using ok by (simp add: registry_ok_def)
  show ?thesis
  proof (cases "find_index (has_key se_account_id acc) (ir_sessions reg)")
    case None
    then have "sessions_of reg acc = None" by (simp add: sessions_of_def slot_lookup_def)
    then have "sessions_of reg = (sessions_of reg)(acc := None)" by auto
    then show ?thesis using ok None by (simp add: revoke_session_def)
  next
    case (Some i)
    with ok table_clear [OF k Some] show ?thesis by (simp add: revoke_session_def registry_ok_def sessions_of_def)
  qed
qed

lemma select_map:
  assumes ok: "registry_ok reg" and a: "select_character t c reg = (reg1, r)"
  shows "registry_ok reg1 \<and> ir_characters reg1 = ir_characters reg \<and>
    (case r of
       Inr auth \<Rightarrow> \<exists>s. sessions_of reg (au_account_id auth) = Some s \<and> se_ticket s = t \<and> owner_of reg c = Some (au_account_id auth)
         \<and> auth = \<lparr>au_account_id = au_account_id auth, au_character_id = c, au_session_ticket = t, au_generation = se_generation s\<rparr>
         \<and> sessions_of reg1 = (sessions_of reg)(au_account_id auth \<mapsto> s\<lparr>se_active_character := Some c\<rparr>)
     | Inl e \<Rightarrow> reg1 = reg)"
proof -
  have k: "keyed se_account_id (ir_sessions reg)" using ok by (simp add: registry_ok_def)
  consider "reg1 = reg" "\<exists>e. r = Inl e" | i ch where "find_index (has_key se_ticket t) (ir_sessions reg) = Some i"
      "slot_lookup ch_character_id (ir_characters reg) c = Some ch"
      "ch_owner_account ch = se_account_id (the (ir_sessions reg ! i))"
      "reg1 = reg\<lparr>ir_sessions := (ir_sessions reg)[i := Some ((the (ir_sessions reg ! i))\<lparr>se_active_character := Some c\<rparr>)]\<rparr>"
      "r = Inr \<lparr>au_account_id = se_account_id (the (ir_sessions reg ! i)), au_character_id = c, au_session_ticket = t,
          au_generation = se_generation (the (ir_sessions reg ! i))\<rparr>"
  proof (cases "find_index (has_key se_ticket t) (ir_sessions reg)")
    case None
    then show ?thesis using a that(1) by (auto simp: select_character_def)
  next
    case (Some i)
    show ?thesis
    proof (cases "slot_lookup ch_character_id (ir_characters reg) c")
      case None
      then show ?thesis using a Some that(1) by (auto simp: select_character_def)
    next
      case c: (Some ch)
      show ?thesis
      proof (cases "ch_owner_account ch = se_account_id (the (ir_sessions reg ! i))")
        case True
        then show ?thesis using a Some c that(2) by (simp add: select_character_def Let_def)
      next
        case False
        then show ?thesis using a Some c that(1) by (auto simp: select_character_def Let_def)
      qed
    qed
  qed
  then show ?thesis
  proof cases
    case 1
    then show ?thesis using ok by auto
  next
    case 2
    let ?s = "the (ir_sessions reg ! i)"
    note f = found_slot [OF 2(1)]
    have fi: "find_index (has_key se_account_id (se_account_id ?s)) (ir_sessions reg) = Some i" by (rule keyed_find [OF k f(1,2)])
    have key: "se_account_id (?s\<lparr>se_active_character := Some c\<rparr>) = se_account_id ?s" by simp
    note new = table_replace [OF k fi key]
    have o: "owner_of reg c = Some (se_account_id ?s)" using 2(2,3) by (simp add: owner_of_def)
    have s: "sessions_of reg (se_account_id ?s) = Some ?s" using table_found [OF fi] by (simp add: sessions_of_def)
    show ?thesis using ok new o s f(3) unfolding 2(4,5) by (simp add: registry_ok_def sessions_of_def)
  qed
qed

lemma validate_map:
  "validate_character_action auth c reg = Inr u \<longleftrightarrow>
    c = au_character_id auth \<and> (\<exists>s. sessions_of reg (au_account_id auth) = Some s
      \<and> se_ticket s = au_session_ticket auth \<and> se_generation s = au_generation auth)"
  by (auto simp: validate_character_action_def sessions_of_def split: option.splits if_splits)

section \<open>Histories\<close>

datatype IdentityOp =
    RegisterCharacter AccountId CharacterId
  | AuthenticateSession AccountId SessionTicket
  | SelectCharacter SessionTicket CharacterId
  | RevokeSession AccountId

fun apply_op :: "IdentityOp \<Rightarrow> IdentityRegistry \<Rightarrow> IdentityRegistry" where
  "apply_op (RegisterCharacter a c) reg = fst (register_character a c reg)"
| "apply_op (AuthenticateSession a t) reg = fst (authenticate_session a t reg)"
| "apply_op (SelectCharacter t c) reg = fst (select_character t c reg)"
| "apply_op (RevokeSession a) reg = revoke_session a reg"

definition run_identity :: "IdentityOp list \<Rightarrow> IdentityRegistry \<Rightarrow> IdentityRegistry" where
  "run_identity ops reg = fold apply_op ops reg"

text \<open>The account has a session, of at least the given generation.\<close>

definition session_since :: "AccountId \<Rightarrow> u64 \<Rightarrow> IdentityRegistry \<Rightarrow> bool" where
  "session_since acc g reg \<longleftrightarrow> registry_ok reg \<and> (\<exists>s. sessions_of reg acc = Some s \<and> g \<le> se_generation s)"

lemma saturating_add_ge: "g \<le> saturating_add g (h :: 'a::len word)"
  using unat_le_pow [of g] by (simp add: word_le_nat_alt unat_ops)

lemma session_since_step:
  assumes "session_since acc g reg" and "op \<noteq> RevokeSession acc"
  shows "session_since acc g (apply_op op reg)"
proof -
  obtain s where ok: "registry_ok reg" and s: "sessions_of reg acc = Some s" "g \<le> se_generation s"
    using assms(1) by (auto simp: session_since_def)
  show ?thesis
  proof (cases op)
    case (RegisterCharacter a c)
    obtain reg1 r where e: "register_character a c reg = (reg1, r)" by fastforce
    from register_map [OF ok e] s show ?thesis
      by (auto simp: RegisterCharacter e session_since_def sessions_of_def)
  next
    case (AuthenticateSession a t)
    obtain reg1 r where e: "authenticate_session a t reg = (reg1, r)" by fastforce
    note m = authenticate_map [OF ok e]
    show ?thesis
    proof (cases r)
      case (Inl x)
      with m s ok show ?thesis by (auto simp: AuthenticateSession e session_since_def)
    next
      case (Inr n)
      have "g \<le> saturating_add (se_generation s) 1" by (rule order_trans [OF s(2) saturating_add_ge])
      with m s Inr show ?thesis by (auto simp: AuthenticateSession e session_since_def next_session_def)
    qed
  next
    case (SelectCharacter t c)
    obtain reg1 r where e: "select_character t c reg = (reg1, r)" by fastforce
    note m = select_map [OF ok e]
    show ?thesis
    proof (cases r)
      case (Inl x)
      with m s ok show ?thesis by (auto simp: SelectCharacter e session_since_def)
    next
      case (Inr auth)
      then obtain s' where s': "sessions_of reg (au_account_id auth) = Some s'"
          "sessions_of reg1 = (sessions_of reg)(au_account_id auth \<mapsto> s'\<lparr>se_active_character := Some c\<rparr>)"
        using m by auto
      then show ?thesis using m s by (auto simp: SelectCharacter e session_since_def)
    qed
  next
    case (RevokeSession a)
    then show ?thesis using revoke_map [OF ok, of a] s assms(2) by (auto simp: session_since_def)
  qed
qed

lemma session_since_run:
  "session_since acc g reg \<Longrightarrow> RevokeSession acc \<notin> set ops \<Longrightarrow> session_since acc g (run_identity ops reg)"
proof (induction ops arbitrary: reg)
  case Nil
  then show ?case by (simp add: run_identity_def)
next
  case (Cons op ops)
  then show ?case using session_since_step [OF Cons.prems(1), of op] by (auto simp: run_identity_def)
qed

section \<open>A small registry\<close>

text \<open>One account with a character and a session of generation 1.\<close>

definition logged_in :: IdentityRegistry where
  "logged_in = fst (authenticate_session (AccountId 101) (SessionTicket (replicate 16 170))
     (fst (register_character (AccountId 101) (CharacterId 5001) (IdentityRegistry_new 2 2))))"

definition first_authorization :: CharacterAuthorization where
  "first_authorization = \<lparr>au_account_id = AccountId 101, au_character_id = CharacterId 5001,
     au_session_ticket = SessionTicket (replicate 16 170), au_generation = 1\<rparr>"

lemma two_slots_free: "replicate 2 None = [None, None]"
  by (simp add: numeral_2_eq_2)

lemmas identity_steps = register_character_def authenticate_session_def select_character_def validate_character_action_def
  IdentityRegistry_new_def slot_lookup_def logged_in_def first_authorization_def two_slots_free saturating_add_def

lemma logged_in_ok: "registry_ok logged_in"
proof -
  obtain r1 x where r1: "register_character (AccountId 101) (CharacterId 5001) (IdentityRegistry_new 2 2) = (r1, x)" by fastforce
  obtain r2 y where r2: "authenticate_session (AccountId 101) (SessionTicket (replicate 16 170)) r1 = (r2, y)" by fastforce
  have "registry_ok r1" using register_map [OF registry_ok_new r1] by (rule conjunct1)
  from authenticate_map [OF this r2] have "registry_ok r2" by (rule conjunct1)
  then show ?thesis by (simp add: logged_in_def r1 r2)
qed

section \<open>Properties\<close>

text \<open>What any history leaves.\<close>

lemma registry_ok_step:
  assumes "registry_ok reg"
  shows "registry_ok (apply_op op reg)"
proof (cases op)
  case (RegisterCharacter a c)
  then show ?thesis using register_map [OF assms, of a c] by (cases "register_character a c reg") simp
next
  case (AuthenticateSession a t)
  then show ?thesis using authenticate_map [OF assms, of a t] by (cases "authenticate_session a t reg") simp
next
  case (SelectCharacter t c)
  then show ?thesis using select_map [OF assms, of t c] by (cases "select_character t c reg") simp
next
  case (RevokeSession a)
  then show ?thesis using revoke_map [OF assms, of a] by simp
qed

lemma registry_ok_run: "registry_ok reg \<Longrightarrow> registry_ok (run_identity ops reg)"
  by (induction ops arbitrary: reg) (simp_all add: run_identity_def registry_ok_step)

text \<open>A session of a higher generation fences an authorisation.\<close>

lemma session_since_fences:
  assumes "session_since (au_account_id auth) g reg" and "au_generation auth < g"
  shows "\<exists>e. validate_character_action auth c reg = Inl e"
proof -
  have "validate_character_action auth c reg \<noteq> Inr ()"
    using assms unfolding validate_map session_since_def by auto
  then show ?thesis by (cases "validate_character_action auth c reg") auto
qed

text \<open>
  C16. A login fences every authorisation issued before it. Take any history of a registry, an
  authorisation that \<open>select_character\<close> issued in it, any further operations and then a login of
  the same account: from then on that authorisation validates for no character, with the same
  ticket or another, whatever registrations, logins, selections and logouts of other accounts
  follow, as long as the account's own session is not revoked. The one exception is in the 64-bit
  counter: an authorisation of the last generation, where the counter saturates.
\<close>
theorem login_fences_earlier_authorizations:
  assumes "select_character t0 c0 (run_identity history (IdentityRegistry_new m n)) = (reg, Inr auth)"
    and "au_generation auth \<noteq> - 1"
    and "authenticate_session (au_account_id auth) t (run_identity between reg) = (reg1, Inr g)"
    and "RevokeSession (au_account_id auth) \<notin> set between" "RevokeSession (au_account_id auth) \<notin> set later"
  shows "\<exists>e. validate_character_action auth c (run_identity later reg1) = Inl e"
proof -
  let ?acc = "au_account_id auth"
  have ok: "registry_ok (run_identity history (IdentityRegistry_new m n))" by (rule registry_ok_run [OF registry_ok_new])
  obtain s where s: "auth = \<lparr>au_account_id = ?acc, au_character_id = c0, au_session_ticket = t0, au_generation = se_generation s\<rparr>"
      "sessions_of reg = (sessions_of (run_identity history (IdentityRegistry_new m n)))(?acc \<mapsto> s\<lparr>se_active_character := Some c0\<rparr>)"
    using select_map [OF ok assms(1)] by auto
  have gen: "au_generation auth = se_generation s" by (subst s(1)) simp
  have "session_since ?acc (au_generation auth) reg"
    using select_map [OF ok assms(1)] s(2) by (simp add: session_since_def gen)
  from session_since_run [OF this assms(4)]
  obtain s1 where s1: "registry_ok (run_identity between reg)" "sessions_of (run_identity between reg) ?acc = Some s1" "au_generation auth \<le> se_generation s1"
    by (auto simp: session_since_def)
  have "g = saturating_add (se_generation s1) 1" "session_since ?acc g reg1"
    using authenticate_map [OF s1(1) assms(3)] s1(2) by (auto simp: session_since_def next_session_def)
  then have "au_generation auth < g" using sat_succ_greater [OF assms(2) s1(3)] by simp
  with session_since_fences [OF session_since_run [OF \<open>session_since ?acc g reg1\<close> assms(5)]] show ?thesis .
qed

lemma login_fences_earlier_authorizations_witness:
  "\<exists>reg reg1 e. select_character (SessionTicket (replicate 16 170)) (CharacterId 5001) logged_in = (reg, Inr first_authorization)
    \<and> validate_character_action first_authorization (CharacterId 5001) reg = Inr ()
    \<and> authenticate_session (AccountId 101) (SessionTicket (replicate 16 170)) reg = (reg1, Inr 2)
    \<and> validate_character_action first_authorization (CharacterId 5001)
            (run_identity [RegisterCharacter (AccountId 101) (CharacterId 5002), RevokeSession (AccountId 7)] reg1) = Inl e"
proof -
  let ?sel = "select_character (SessionTicket (replicate 16 170)) (CharacterId 5001) logged_in"
  have s1: "snd ?sel = Inr first_authorization" by (simp add: identity_steps)
  then obtain reg where s: "?sel = (reg, Inr first_authorization)" by (metis prod.collapse)
  have f: "fst ?sel = reg" using s by simp
  have v: "validate_character_action first_authorization (CharacterId 5001) reg = Inr ()"
    unfolding f [symmetric] by (simp add: identity_steps)
  have "snd (authenticate_session (AccountId 101) (SessionTicket (replicate 16 170)) reg) = Inr 2"
    unfolding f [symmetric] by (simp add: identity_steps)
  then obtain reg1 where a: "authenticate_session (AccountId 101) (SessionTicket (replicate 16 170)) reg = (reg1, Inr 2)"
    by (metis prod.collapse)
  have run: "logged_in = run_identity [RegisterCharacter (AccountId 101) (CharacterId 5001),
      AuthenticateSession (AccountId 101) (SessionTicket (replicate 16 170))] (IdentityRegistry_new 2 2)"
    by (simp add: logged_in_def run_identity_def)
  have acc: "au_account_id first_authorization = AccountId 101" "au_generation first_authorization \<noteq> - 1"
    by (simp_all add: first_authorization_def)
  have a2: "authenticate_session (au_account_id first_authorization) (SessionTicket (replicate 16 170)) (run_identity [] reg) = (reg1, Inr 2)"
    using a acc(1) by (simp add: run_identity_def)
  show ?thesis
    using s v a login_fences_earlier_authorizations [OF s[unfolded run] acc(2) a2, of
        "[RegisterCharacter (AccountId 101) (CharacterId 5002), RevokeSession (AccountId 7)]" "CharacterId 5001"]
    by (auto simp: first_authorization_def)
qed

text \<open>
  C24. An authorisation is issued only for a character the session's own account owns: when
  \<open>select_character\<close> succeeds, the character's registered owner is the account of a live session
  with the presented ticket, and the authorisation validates for that character and no other; when
  it fails, the registry is unchanged.
\<close>
theorem selected_character_is_owned:
  assumes "registry_ok reg" and "select_character t c reg = (reg1, r)"
  shows "case r of
      Inr auth \<Rightarrow> owner_of reg c = Some (au_account_id auth)
        \<and> (\<exists>s. sessions_of reg (au_account_id auth) = Some s \<and> se_ticket s = t)
        \<and> (\<forall>c1. validate_character_action auth c1 reg1 = Inr () \<longleftrightarrow> c1 = c)
    | Inl e \<Rightarrow> reg1 = reg"
proof (cases r)
  case (Inl e)
  then show ?thesis using select_map [OF assms] by simp
next
  case (Inr auth)
  then obtain s where s: "sessions_of reg (au_account_id auth) = Some s" "se_ticket s = t" "owner_of reg c = Some (au_account_id auth)"
      "auth = \<lparr>au_account_id = au_account_id auth, au_character_id = c, au_session_ticket = t, au_generation = se_generation s\<rparr>"
      "sessions_of reg1 = (sessions_of reg)(au_account_id auth \<mapsto> s\<lparr>se_active_character := Some c\<rparr>)"
    using select_map [OF assms] by auto
  have f: "au_character_id auth = c" "au_session_ticket auth = t" "au_generation auth = se_generation s"
    by (subst s(4), simp)+
  have "validate_character_action auth c1 reg1 = Inr () \<longleftrightarrow> c1 = c" for c1
    unfolding validate_map using s(2,5) f by simp
  with s Inr show ?thesis by auto
qed

lemma selected_character_is_owned_witness:
  "owner_of logged_in (CharacterId 5001) = Some (AccountId 101)
    \<and> snd (select_character (SessionTicket (replicate 16 170)) (CharacterId 5001) logged_in) = Inr first_authorization"
proof -
  have "snd (select_character (SessionTicket (replicate 16 170)) (CharacterId 5001) logged_in) = Inr first_authorization"
    by (simp add: identity_steps)
  then obtain reg1 where a: "select_character (SessionTicket (replicate 16 170)) (CharacterId 5001) logged_in = (reg1, Inr first_authorization)"
    by (metis prod.collapse)
  from selected_character_is_owned [OF logged_in_ok a] a show ?thesis by (simp add: first_authorization_def)
qed

text \<open>
  After a logout the generation starts at 1 again: with the same ticket, an authorisation of the
  revoked session is valid once more.
\<close>

lemma logout_restarts_generation:
  assumes "registry_ok reg" and "sessions_of reg acc = Some s" and "se_generation s = 1" and "se_ticket s = t"
    and "authenticate_session acc t (revoke_session acc reg) = (reg1, Inr g)"
    and "auth = \<lparr>au_account_id = acc, au_character_id = c, au_session_ticket = t, au_generation = 1\<rparr>"
  shows "validate_character_action auth c reg1 = Inr ()"
  using authenticate_map [OF _ assms(5)] revoke_map [OF assms(1), of acc] assms(6)
  unfolding validate_map by (auto simp: next_session_def)

end
