(* ===== verification/Structures.thy ===== *)
theory Structures
  imports Auth Quantize
begin

text \<open>
  Building pieces and interior items of \<^verbatim>\<open>eidolon-core/src/structure.rs\<close>: the bit-packed piece
  record, the decay of load-bearing stability, and the two wire records of interior items.

  \<open>Vec3Fix::from_f64\<close> is applied here to constants only; \<open>lit p q\<close> is \<open>Fixed64::from_f64\<close> of the
  literal \<open>p / q\<close>. It scales by \<open>2^32\<close> and truncates, and no literal of the file lies so close to
  a multiple of \<open>2^-32\<close> that the rounding of the literal to a double changes the truncated value.
\<close>

definition lit :: "int \<Rightarrow> int \<Rightarrow> Fixed64" where
  "lit p q = Fixed64 (of_int_sat ((p * 2 ^ 32) sdiv q))"

definition vec_lit :: "int \<times> int \<Rightarrow> int \<times> int \<Rightarrow> int \<times> int \<Rightarrow> Vec3Fix" where
  "vec_lit a b c = \<lparr>vec_x = lit (fst a) (snd a), vec_y = lit (fst b) (snd b), vec_z = lit (fst c) (snd c)\<rparr>"

section \<open>Building pieces\<close>

definition MAX_STABILITY :: u8 where
  "MAX_STABILITY = 100"

datatype PieceType = Foundation | Wall | DoorFrame | WindowWall | Floor | Roof | Stairs | Pillar

definition PieceType_from_u8 :: "u8 \<Rightarrow> PieceType option" where
  "PieceType_from_u8 v =
     (if v = 0 then Some Foundation else if v = 1 then Some Wall else if v = 2 then Some DoorFrame
      else if v = 3 then Some WindowWall else if v = 4 then Some Floor else if v = 5 then Some Roof
      else if v = 6 then Some Stairs else if v = 7 then Some Pillar else None)"

fun PieceType_as_u8 :: "PieceType \<Rightarrow> u8" where
  "PieceType_as_u8 Foundation = 0"
| "PieceType_as_u8 Wall = 1"
| "PieceType_as_u8 DoorFrame = 2"
| "PieceType_as_u8 WindowWall = 3"
| "PieceType_as_u8 Floor = 4"
| "PieceType_as_u8 Roof = 5"
| "PieceType_as_u8 Stairs = 6"
| "PieceType_as_u8 Pillar = 7"

definition is_foundation :: "PieceType \<Rightarrow> bool" where
  "is_foundation p \<longleftrightarrow> p = Foundation"

fun half_extents :: "PieceType \<Rightarrow> Vec3Fix" where
  "half_extents Foundation = vec_lit (2, 1) (1, 2) (2, 1)"
| "half_extents Wall = vec_lit (2, 1) (3, 2) (1, 10)"
| "half_extents DoorFrame = vec_lit (2, 1) (3, 2) (1, 10)"
| "half_extents WindowWall = vec_lit (2, 1) (3, 2) (1, 10)"
| "half_extents Floor = vec_lit (2, 1) (1, 10) (2, 1)"
| "half_extents Roof = vec_lit (2, 1) (1, 1) (2, 1)"
| "half_extents Stairs = vec_lit (2, 1) (3, 2) (2, 1)"
| "half_extents Pillar = vec_lit (1, 5) (3, 2) (1, 5)"

datatype MaterialType = Wood | Stone | Metal | Reinforced

definition MaterialType_from_u8 :: "u8 \<Rightarrow> MaterialType option" where
  "MaterialType_from_u8 v =
     (let n = v AND 0x0F in
      if n = 0 then Some Wood else if n = 1 then Some Stone else if n = 2 then Some Metal
      else if n = 3 then Some Reinforced else None)"

fun MaterialType_as_u8 :: "MaterialType \<Rightarrow> u8" where
  "MaterialType_as_u8 Wood = 0"
| "MaterialType_as_u8 Stone = 1"
| "MaterialType_as_u8 Metal = 2"
| "MaterialType_as_u8 Reinforced = 3"

fun material_max_health :: "MaterialType \<Rightarrow> u32" where
  "material_max_health Wood = 250"
| "material_max_health Stone = 500"
| "material_max_health Metal = 1000"
| "material_max_health Reinforced = 2000"

fun stability_decay :: "MaterialType \<Rightarrow> u8" where
  "stability_decay Wood = 15"
| "stability_decay Stone = 8"
| "stability_decay Metal = 4"
| "stability_decay Reinforced = 2"

datatype SnapSocket = Center | North | South | East | West | Top | Bottom | Diagonal45

definition SnapSocket_from_u8 :: "u8 \<Rightarrow> SnapSocket option" where
  "SnapSocket_from_u8 v =
     (if v = 0 then Some Center else if v = 1 then Some North else if v = 2 then Some South
      else if v = 3 then Some East else if v = 4 then Some West else if v = 5 then Some Top
      else if v = 6 then Some Bottom else if v = 7 then Some Diagonal45 else None)"

fun SnapSocket_as_u8 :: "SnapSocket \<Rightarrow> u8" where
  "SnapSocket_as_u8 Center = 0"
| "SnapSocket_as_u8 North = 1"
| "SnapSocket_as_u8 South = 2"
| "SnapSocket_as_u8 East = 3"
| "SnapSocket_as_u8 West = 4"
| "SnapSocket_as_u8 Top = 5"
| "SnapSocket_as_u8 Bottom = 6"
| "SnapSocket_as_u8 Diagonal45 = 7"

text \<open>The diagonal offset is \<open>4 * FRAC_1_SQRT_2\<close>, whose truncated raw value is written out.\<close>

fun local_offset :: "SnapSocket \<Rightarrow> Vec3Fix" where
  "local_offset Center = Vec3Fix_ZERO"
| "local_offset North = vec_lit (0, 1) (0, 1) (4, 1)"
| "local_offset South = vec_lit (0, 1) (0, 1) (- 4, 1)"
| "local_offset East = vec_lit (4, 1) (0, 1) (0, 1)"
| "local_offset West = vec_lit (- 4, 1) (0, 1) (0, 1)"
| "local_offset Top = vec_lit (0, 1) (3, 1) (0, 1)"
| "local_offset Bottom = vec_lit (0, 1) (- 3, 1) (0, 1)"
| "local_offset Diagonal45 = \<lparr>vec_x = Fixed64 12148001999, vec_y = Fixed64_ZERO, vec_z = Fixed64 12148001999\<rparr>"

record StructurePieceData =
  pd_piece_type :: u8
  pd_material_and_flags :: u8
  pd_snapped_socket :: u8

definition StructurePieceData_new :: "PieceType \<Rightarrow> MaterialType \<Rightarrow> SnapSocket \<Rightarrow> u8 \<Rightarrow> StructurePieceData" where
  "StructurePieceData_new piece_type material socket variant_flags =
     (let mat_nibble = MaterialType_as_u8 material AND 0x0F;
          flags_nibble = push_bit 4 (variant_flags AND 0x0F)
      in \<lparr>pd_piece_type = PieceType_as_u8 piece_type, pd_material_and_flags = mat_nibble OR flags_nibble,
          pd_snapped_socket = SnapSocket_as_u8 socket\<rparr>)"

definition piece_type_of :: "StructurePieceData \<Rightarrow> PieceType option" where
  "piece_type_of d = PieceType_from_u8 (pd_piece_type d)"

definition material_of :: "StructurePieceData \<Rightarrow> MaterialType option" where
  "material_of d = MaterialType_from_u8 (pd_material_and_flags d AND 0x0F)"

definition variant_flags_of :: "StructurePieceData \<Rightarrow> u8" where
  "variant_flags_of d = drop_bit 4 (pd_material_and_flags d) AND 0x0F"

definition socket_of :: "StructurePieceData \<Rightarrow> SnapSocket option" where
  "socket_of d = SnapSocket_from_u8 (pd_snapped_socket d)"

definition PieceData_encode :: "StructurePieceData \<Rightarrow> u8 list" where
  "PieceData_encode d = [pd_piece_type d, pd_material_and_flags d, pd_snapped_socket d]"

definition PieceData_decode :: "u8 list \<Rightarrow> string + StructurePieceData" where
  "PieceData_decode bytes =
     (let piece = \<lparr>pd_piece_type = bytes ! 0, pd_material_and_flags = bytes ! 1, pd_snapped_socket = bytes ! 2\<rparr> in
      if piece_type_of piece = None then Inl ''Invalid PieceType opcode''
      else if material_of piece = None then Inl ''Invalid MaterialType nibble''
      else if socket_of piece = None then Inl ''Invalid SnapSocket identifier''
      else Inr piece)"

definition calculate_stability :: "bool \<Rightarrow> u8 \<Rightarrow> MaterialType \<Rightarrow> u8" where
  "calculate_stability is_grounded parent_stability material =
     (if is_grounded then MAX_STABILITY else saturating_sub parent_stability (stability_decay material))"

section \<open>Interior items\<close>

record InteriorItemTransform =
  xf_item_instance_id :: u32
  xf_item_type_id :: u32
  xf_local_x_mm :: i16
  xf_local_y_mm :: i16
  xf_local_z_mm :: i16
  xf_local_yaw :: QuantizedYaw
  xf_flags :: u8

definition InteriorItemTransform_encode :: "InteriorItemTransform \<Rightarrow> u8 list" where
  "InteriorItemTransform_encode t =
     (let buf = replicate 14 0;
          buf = slice_put buf 0 (be_bytes 4 (unat (xf_item_instance_id t)));
          buf = slice_put buf 4 (be_bytes 4 (unat (xf_item_type_id t)));
          buf = slice_put buf 8 (be_bytes 2 (unat (xf_local_x_mm t)));
          buf = slice_put buf 10 (be_bytes 2 (unat (xf_local_y_mm t)));
          buf = slice_put buf 12 (be_bytes 2 (unat (xf_local_z_mm t)))
      in buf)"

record InteriorItemRecord =
  ir_item_instance_id :: u32
  ir_item_type_id :: u32
  ir_local_x_mm :: i16
  ir_local_y_mm :: i16
  ir_local_z_mm :: i16
  ir_local_yaw :: u8
  ir_flags :: u8

definition InteriorItemRecord_write_to :: "InteriorItemRecord \<Rightarrow> u8 list \<Rightarrow> u8 list \<times> (string + unit)" where
  "InteriorItemRecord_write_to r out =
     (if length out < 16 then (out, Inl ''Buffer too short for InteriorItemRecord'')
      else
        (let out = slice_put out 0 (be_bytes 4 (unat (ir_item_instance_id r)));
             out = slice_put out 4 (be_bytes 4 (unat (ir_item_type_id r)));
             out = slice_put out 8 (be_bytes 2 (unat (ir_local_x_mm r)));
             out = slice_put out 10 (be_bytes 2 (unat (ir_local_y_mm r)));
             out = slice_put out 12 (be_bytes 2 (unat (ir_local_z_mm r)));
             out = out[14 := ir_local_yaw r, 15 := ir_flags r]
         in (out, Inr ())))"

definition InteriorItemRecord_read_from :: "u8 list \<Rightarrow> string + InteriorItemRecord" where
  "InteriorItemRecord_read_from bytes =
     (if length bytes < 16 then Inl ''Slice too short for InteriorItemRecord''
      else Inr \<lparr>ir_item_instance_id = read_u32 0 bytes, ir_item_type_id = read_u32 4 bytes,
                ir_local_x_mm = read_u16 8 bytes, ir_local_y_mm = read_u16 10 bytes, ir_local_z_mm = read_u16 12 bytes,
                ir_local_yaw = bytes ! 14, ir_flags = bytes ! 15\<rparr>)"

section \<open>Round trips\<close>

lemma from_as_u8 [simp]:
  "PieceType_from_u8 (PieceType_as_u8 p) = Some p" "SnapSocket_from_u8 (SnapSocket_as_u8 s) = Some s"
  "MaterialType_from_u8 (MaterialType_as_u8 m) = Some m"
proof -
  show "PieceType_from_u8 (PieceType_as_u8 p) = Some p" by (cases p) (simp_all add: PieceType_from_u8_def)
  show "SnapSocket_from_u8 (SnapSocket_as_u8 s) = Some s" by (cases s) (simp_all add: SnapSocket_from_u8_def)
  show "MaterialType_from_u8 (MaterialType_as_u8 m) = Some m" by (cases m) (simp_all add: MaterialType_from_u8_def)
qed

lemma nibble_pair:
  "(MaterialType_as_u8 m AND 0x0F OR push_bit 4 (f AND 0x0F)) AND 0x0F = MaterialType_as_u8 m"
  "drop_bit 4 (MaterialType_as_u8 m AND 0x0F OR push_bit 4 (f AND 0x0F)) AND 0x0F = f AND 0x0F"
proof -
  have m: "MaterialType_as_u8 m AND 0x0F = MaterialType_as_u8 m" by (cases m) simp_all
  have low: "take_bit 4 (push_bit 4 (f AND 0x0F)) = 0" by (simp add: take_bit_push_bit)
  have tm: "take_bit 4 (MaterialType_as_u8 m) = MaterialType_as_u8 m" using m by (simp add: and_mask_take_bit)
  show "(MaterialType_as_u8 m AND 0x0F OR push_bit 4 (f AND 0x0F)) AND 0x0F = MaterialType_as_u8 m"
    using tm low m by (simp add: and_mask_take_bit take_bit_or)
  show "drop_bit 4 (MaterialType_as_u8 m AND 0x0F OR push_bit 4 (f AND 0x0F)) AND 0x0F = f AND 0x0F"
  proof -
    have hi: "drop_bit 4 (MaterialType_as_u8 m) = 0" by (cases m) simp_all
    have "drop_bit 4 (push_bit 4 (take_bit 4 f)) = take_bit 4 f" by (auto simp: packed_bits)
    then have "take_bit 4 (drop_bit 4 (MaterialType_as_u8 m OR push_bit 4 (take_bit 4 f))) = take_bit 4 f"
      by (simp add: hi)
    then show ?thesis unfolding and_mask_take_bit tm .
  qed
qed

lemma piece_data_fields:
  "piece_type_of (StructurePieceData_new p m s f) = Some p" "material_of (StructurePieceData_new p m s f) = Some m"
  "socket_of (StructurePieceData_new p m s f) = Some s" "variant_flags_of (StructurePieceData_new p m s f) = f AND 0x0F"
  unfolding StructurePieceData_new_def piece_type_of_def material_of_def socket_of_def variant_flags_of_def Let_def
    StructurePieceData.simps nibble_pair
  by (rule from_as_u8 refl)+

text \<open>A three-byte record is accepted exactly if its fields decode, and it is read back as it was written.\<close>

lemma piece_data_roundtrip:
  "PieceData_decode (PieceData_encode d) =
     (if piece_type_of d = None then Inl ''Invalid PieceType opcode''
      else if material_of d = None then Inl ''Invalid MaterialType nibble''
      else if socket_of d = None then Inl ''Invalid SnapSocket identifier'' else Inr d)"
  by (cases d) (simp add: PieceData_decode_def PieceData_encode_def Let_def)

lemma piece_data_new_roundtrip: "PieceData_decode (PieceData_encode (StructurePieceData_new p m s f)) = Inr (StructurePieceData_new p m s f)"
  by (simp add: piece_data_roundtrip piece_data_fields)

definition record_bytes :: "InteriorItemRecord \<Rightarrow> u8 list" where
  "record_bytes r = be_bytes 4 (unat (ir_item_instance_id r)) @ be_bytes 4 (unat (ir_item_type_id r))
     @ be_bytes 2 (unat (ir_local_x_mm r)) @ be_bytes 2 (unat (ir_local_y_mm r)) @ be_bytes 2 (unat (ir_local_z_mm r))
     @ [ir_local_yaw r, ir_flags r]"

lemma length_record_bytes [simp]: "length (record_bytes r) = 16"
  by (simp add: record_bytes_def)

lemma record_write: "16 \<le> length out \<Longrightarrow> InteriorItemRecord_write_to r out = (record_bytes r @ drop 16 out, Inr ())"
proof -
  assume l: "16 \<le> length out"
  have two: "(xs @ ys)[length xs := a, Suc (length xs) := b] = xs @ [a, b] @ drop 2 ys" if "2 \<le> length ys" for xs ys :: "u8 list" and a b
  proof -
    obtain y z zs where "ys = y # z # zs" using \<open>2 \<le> length ys\<close> by (cases ys; cases "tl ys") auto
    then show ?thesis by (simp add: list_update_append)
  qed
  let ?xs = "be_bytes 4 (unat (ir_item_instance_id r)) @ be_bytes 4 (unat (ir_item_type_id r))
     @ be_bytes 2 (unat (ir_local_x_mm r)) @ be_bytes 2 (unat (ir_local_y_mm r)) @ be_bytes 2 (unat (ir_local_z_mm r))"
  have put: "slice_put (slice_put (slice_put (slice_put (slice_put out 0 (be_bytes 4 (unat (ir_item_instance_id r)))) 4
      (be_bytes 4 (unat (ir_item_type_id r)))) 8 (be_bytes 2 (unat (ir_local_x_mm r)))) 10 (be_bytes 2 (unat (ir_local_y_mm r)))) 12
      (be_bytes 2 (unat (ir_local_z_mm r))) = ?xs @ drop 14 out"
    by (simp add: slice_put_def)
  have "2 \<le> length (drop 14 out)" using l by simp
  from two [OF this, of ?xs "ir_local_yaw r" "ir_flags r"] show ?thesis
    using l put by (simp add: InteriorItemRecord_write_to_def Let_def record_bytes_def)
qed

lemma record_read: "InteriorItemRecord_read_from (record_bytes r @ rest) = Inr r"
  by (cases r) (simp add: InteriorItemRecord_read_from_def record_bytes_def field_reads from_be_word nth_append)

end
