(* ===== verification/Bvh.thy ===== *)
theory Bvh
  imports Structures
begin

text \<open>
  Compound structures of \<^verbatim>\<open>eidolon-spatial/src/bvh.rs\<close>: the pieces of one building in a vector of
  leaf boxes under one outer box, and the raycast that rejects against the outer box first. The
  three slabs of a box test are one definition each, applied to the three axes in turn.
\<close>

record RayHit =
  rh_piece_id :: u32
  rh_distance :: Fixed64
  rh_hit_point :: Vec3Fix
  rh_normal :: Vec3Fix

record BvhLeafPiece =
  lf_piece_id :: u32
  lf_piece_type :: PieceType
  lf_center :: Vec3Fix
  lf_min_bounds :: Vec3Fix
  lf_max_bounds :: Vec3Fix

record CompoundStructure =
  cp_structure_id :: u32
  cp_min_bounds :: Vec3Fix
  cp_max_bounds :: Vec3Fix
  cp_pieces :: "BvhLeafPiece list"

definition nowhere_min :: Vec3Fix where
  "nowhere_min = \<lparr>vec_x = Fixed64_MAX, vec_y = Fixed64_MAX, vec_z = Fixed64_MAX\<rparr>"

definition nowhere_max :: Vec3Fix where
  "nowhere_max = \<lparr>vec_x = Fixed64_MIN, vec_y = Fixed64_MIN, vec_z = Fixed64_MIN\<rparr>"

definition CompoundStructure_new :: "u32 \<Rightarrow> CompoundStructure" where
  "CompoundStructure_new structure_id =
     \<lparr>cp_structure_id = structure_id, cp_min_bounds = nowhere_min, cp_max_bounds = nowhere_max, cp_pieces = []\<rparr>"

definition piece_count :: "CompoundStructure \<Rightarrow> nat" where
  "piece_count c = length (cp_pieces c)"

definition vec_min :: "Vec3Fix \<Rightarrow> Vec3Fix \<Rightarrow> Vec3Fix" where
  "vec_min a b = \<lparr>vec_x = Fixed64_min (vec_x a) (vec_x b), vec_y = Fixed64_min (vec_y a) (vec_y b),
     vec_z = Fixed64_min (vec_z a) (vec_z b)\<rparr>"

definition vec_max :: "Vec3Fix \<Rightarrow> Vec3Fix \<Rightarrow> Vec3Fix" where
  "vec_max a b = \<lparr>vec_x = Fixed64_max (vec_x a) (vec_x b), vec_y = Fixed64_max (vec_y a) (vec_y b),
     vec_z = Fixed64_max (vec_z a) (vec_z b)\<rparr>"

definition add_piece :: "u32 \<Rightarrow> PieceType \<Rightarrow> Vec3Fix \<Rightarrow> CompoundStructure \<Rightarrow> CompoundStructure" where
  "add_piece piece_id piece_type center c =
     (let half = half_extents piece_type;
          min_b = Vec3Fix_sub center half;
          max_b = Vec3Fix_add center half;
          c = (if cp_pieces c = [] then c\<lparr>cp_min_bounds := min_b, cp_max_bounds := max_b\<rparr>
               else c\<lparr>cp_min_bounds := vec_min (cp_min_bounds c) min_b, cp_max_bounds := vec_max (cp_max_bounds c) max_b\<rparr>)
      in c\<lparr>cp_pieces := cp_pieces c @ [\<lparr>lf_piece_id = piece_id, lf_piece_type = piece_type, lf_center = center,
             lf_min_bounds = min_b, lf_max_bounds = max_b\<rparr>]\<rparr>)"

definition recompute_bounds :: "CompoundStructure \<Rightarrow> CompoundStructure" where
  "recompute_bounds c =
     (case cp_pieces c of
        [] \<Rightarrow> c\<lparr>cp_min_bounds := nowhere_min, cp_max_bounds := nowhere_max\<rparr>
      | p # ps \<Rightarrow>
          foldl (\<lambda>c q. c\<lparr>cp_min_bounds := vec_min (cp_min_bounds c) (lf_min_bounds q),
                        cp_max_bounds := vec_max (cp_max_bounds c) (lf_max_bounds q)\<rparr>)
            (c\<lparr>cp_min_bounds := lf_min_bounds p, cp_max_bounds := lf_max_bounds p\<rparr>) ps)"

text \<open>\<open>Vec::swap_remove\<close>: the last element takes the place of the removed one.\<close>

definition swap_remove :: "nat \<Rightarrow> 'a list \<Rightarrow> 'a list" where
  "swap_remove i xs = butlast (xs[i := last xs])"

definition remove_piece :: "u32 \<Rightarrow> CompoundStructure \<Rightarrow> CompoundStructure \<times> bool" where
  "remove_piece piece_id c =
     (case find_index (\<lambda>p. lf_piece_id p = piece_id) (cp_pieces c) of
        Some pos \<Rightarrow> (recompute_bounds (c\<lparr>cp_pieces := swap_remove pos (cp_pieces c)\<rparr>), True)
      | None \<Rightarrow> (c, False))"

section \<open>Rays\<close>

definition ray_epsilon :: Fixed64 where
  "ray_epsilon = lit 1 100000"

text \<open>One slab of the outer box: the range of ray parameters left, or a miss.\<close>

definition aabb_slab ::
  "Fixed64 \<Rightarrow> Fixed64 \<Rightarrow> Fixed64 \<Rightarrow> Fixed64 \<Rightarrow> Fixed64 \<times> Fixed64 \<Rightarrow> (Fixed64 \<times> Fixed64) option"
where
  "aabb_slab origin dir lo hi rng =
     (case rng of (tmin, tmax) \<Rightarrow>
        if Fixed64_abs dir > ray_epsilon
        then
          (let inv_d = Fixed64_div Fixed64_ONE dir;
               t1 = (lo - origin) * inv_d;
               t2 = (hi - origin) * inv_d;
               (t1, t2) = (if t1 > t2 then (t2, t1) else (t1, t2));
               tmin = Fixed64_max tmin t1;
               tmax = Fixed64_min tmax t2
           in if tmin > tmax then None else Some (tmin, tmax))
        else if origin < lo \<or> origin > hi then None else Some (tmin, tmax))"

definition intersect_aabb :: "Vec3Fix \<Rightarrow> Vec3Fix \<Rightarrow> Vec3Fix \<Rightarrow> Vec3Fix \<Rightarrow> Fixed64 \<Rightarrow> bool" where
  "intersect_aabb origin dir min_b max_b max_dist =
     (case aabb_slab (vec_x origin) (vec_x dir) (vec_x min_b) (vec_x max_b) (Fixed64_ZERO, max_dist) of
        None \<Rightarrow> False
      | Some r \<Rightarrow>
          (case aabb_slab (vec_y origin) (vec_y dir) (vec_y min_b) (vec_y max_b) r of
             None \<Rightarrow> False
           | Some r \<Rightarrow> aabb_slab (vec_z origin) (vec_z dir) (vec_z min_b) (vec_z max_b) r \<noteq> None))"

text \<open>One slab of a leaf, which also remembers the normal of the face the ray enters through.\<close>

definition leaf_slab ::
  "Vec3Fix \<times> Vec3Fix \<Rightarrow> Fixed64 \<Rightarrow> Fixed64 \<Rightarrow> Fixed64 \<Rightarrow> Fixed64 \<Rightarrow> Fixed64 \<times> Fixed64 \<times> Vec3Fix
    \<Rightarrow> (Fixed64 \<times> Fixed64 \<times> Vec3Fix) option"
where
  "leaf_slab normals origin dir lo hi state =
     (case state of (tmin, tmax, hit_normal) \<Rightarrow>
        if Fixed64_abs dir > ray_epsilon
        then
          (let inv_d = Fixed64_div Fixed64_ONE dir;
               t1 = (lo - origin) * inv_d;
               t2 = (hi - origin) * inv_d;
               (t1, t2, norm) = (if t1 > t2 then (t2, t1, snd normals) else (t1, t2, fst normals));
               (tmin, hit_normal) = (if t1 > tmin then (t1, norm) else (tmin, hit_normal));
               tmax = Fixed64_min tmax t2
           in if tmin > tmax then None else Some (tmin, tmax, hit_normal))
        else if origin < lo \<or> origin > hi then None else Some (tmin, tmax, hit_normal))"

definition raycast_leaf_aabb :: "Vec3Fix \<Rightarrow> Vec3Fix \<Rightarrow> BvhLeafPiece \<Rightarrow> Fixed64 \<Rightarrow> RayHit option" where
  "raycast_leaf_aabb origin dir piece max_dist =
     (let lo = lf_min_bounds piece; hi = lf_max_bounds piece in
      case leaf_slab (vec_lit (- 1, 1) (0, 1) (0, 1), vec_lit (1, 1) (0, 1) (0, 1))
        (vec_x origin) (vec_x dir) (vec_x lo) (vec_x hi) (Fixed64_ZERO, max_dist, Vec3Fix_ZERO) of
        None \<Rightarrow> None
      | Some s \<Rightarrow>
          (case leaf_slab (vec_lit (0, 1) (- 1, 1) (0, 1), vec_lit (0, 1) (1, 1) (0, 1))
             (vec_y origin) (vec_y dir) (vec_y lo) (vec_y hi) s of
             None \<Rightarrow> None
           | Some s \<Rightarrow>
               (case leaf_slab (vec_lit (0, 1) (0, 1) (- 1, 1), vec_lit (0, 1) (0, 1) (1, 1))
                  (vec_z origin) (vec_z dir) (vec_z lo) (vec_z hi) s of
                  None \<Rightarrow> None
                | Some (tmin, tmax, hit_normal) \<Rightarrow>
                    if tmin \<le> max_dist \<and> tmin \<ge> Fixed64_ZERO
                    then Some \<lparr>rh_piece_id = lf_piece_id piece, rh_distance = tmin,
                               rh_hit_point = Vec3Fix_add origin (Vec3Fix_scale dir tmin), rh_normal = hit_normal\<rparr>
                    else None)))"

text \<open>The narrow phase: the loop over the leaves with the closest hit so far.\<close>

definition closer_leaf :: "Vec3Fix \<Rightarrow> Vec3Fix \<Rightarrow> Fixed64 \<times> RayHit option \<Rightarrow> BvhLeafPiece \<Rightarrow> Fixed64 \<times> RayHit option" where
  "closer_leaf origin dir best piece =
     (case raycast_leaf_aabb origin dir piece (fst best) of
        Some hit \<Rightarrow> if rh_distance hit < fst best then (rh_distance hit, Some hit) else best
      | None \<Rightarrow> best)"

definition raycast :: "Vec3Fix \<Rightarrow> Vec3Fix \<Rightarrow> Fixed64 \<Rightarrow> CompoundStructure \<Rightarrow> RayHit option" where
  "raycast origin dir max_distance c =
     (if cp_pieces c = [] then None
      else if \<not> intersect_aabb origin dir (cp_min_bounds c) (cp_max_bounds c) max_distance then None
      else snd (foldl (closer_leaf origin dir) (max_distance, None) (cp_pieces c)))"

section \<open>The slab test is monotone in the box\<close>

lemma fixed_le: "a \<le> b \<longleftrightarrow> sint (raw a) \<le> sint (raw b)" "a < b \<longleftrightarrow> sint (raw a) < sint (raw b)"
  by (simp_all add: less_eq_Fixed64_def less_Fixed64_def)

lemma fixed_min_max: "Fixed64_min a b = min a b" "Fixed64_max a b = max a b"
  by (auto simp: Fixed64_min_def Fixed64_max_def min_def max_def fixed_le intro: Fixed64_eqI)

lemma clamp_mono: "x \<le> y \<Longrightarrow> clamp_i64 x \<le> clamp_i64 y"
  by (auto simp: clamp_i64_def)

lemma fixed_sub_mono: "v \<le> w \<Longrightarrow> v - u \<le> w - (u :: Fixed64)"
  by (simp add: fixed_le fixed_int clamp_mono)

lemma fixed_mul_mono: "v \<le> w \<Longrightarrow> 0 \<le> sint (raw k) \<Longrightarrow> v * k \<le> w * (k :: Fixed64)"
  by (simp add: fixed_le fixed_int clamp_mono zdiv_mono1 mult_right_mono)

lemma fixed_mul_anti: "v \<le> w \<Longrightarrow> sint (raw k) \<le> 0 \<Longrightarrow> w * k \<le> v * (k :: Fixed64)"
  by (simp add: fixed_le fixed_int clamp_mono zdiv_mono1 mult_right_mono_neg)

text \<open>Where the ray enters and leaves a slab.\<close>

definition slab_in :: "Fixed64 \<Rightarrow> Fixed64 \<Rightarrow> Fixed64 \<Rightarrow> Fixed64 \<Rightarrow> Fixed64" where
  "slab_in origin dir lo hi = min ((lo - origin) * Fixed64_div Fixed64_ONE dir) ((hi - origin) * Fixed64_div Fixed64_ONE dir)"

definition slab_out :: "Fixed64 \<Rightarrow> Fixed64 \<Rightarrow> Fixed64 \<Rightarrow> Fixed64 \<Rightarrow> Fixed64" where
  "slab_out origin dir lo hi = max ((lo - origin) * Fixed64_div Fixed64_ONE dir) ((hi - origin) * Fixed64_div Fixed64_ONE dir)"

lemma slab_nested:
  assumes "lo' \<le> lo" and "lo \<le> hi" and "hi \<le> hi'"
  shows "slab_in o1 d lo' hi' \<le> slab_in o1 d lo hi" and "slab_out o1 d lo hi \<le> slab_out o1 d lo' hi'"
proof -
  let ?k = "Fixed64_div Fixed64_ONE d" and ?t = "\<lambda>v. (v - o1) * Fixed64_div Fixed64_ONE d"
  have "?t lo' \<le> ?t lo \<and> ?t lo \<le> ?t hi \<and> ?t hi \<le> ?t hi' \<or> ?t hi' \<le> ?t hi \<and> ?t hi \<le> ?t lo \<and> ?t lo \<le> ?t lo'"
  proof (cases "0 \<le> sint (raw ?k)")
    case True
    then show ?thesis using assms by (intro disjI1 conjI fixed_mul_mono fixed_sub_mono) auto
  next
    case False
    then show ?thesis using assms by (intro disjI2 conjI fixed_mul_anti fixed_sub_mono) auto
  qed
  then show "slab_in o1 d lo' hi' \<le> slab_in o1 d lo hi" and "slab_out o1 d lo hi \<le> slab_out o1 d lo' hi'"
    unfolding slab_in_def slab_out_def by (auto simp: min_def max_def split: if_splits)
qed

lemma aabb_slab_eq:
  "aabb_slab o1 d lo hi (tmin, tmax) =
     (if Fixed64_abs d > ray_epsilon
      then if max tmin (slab_in o1 d lo hi) > min tmax (slab_out o1 d lo hi) then None
           else Some (max tmin (slab_in o1 d lo hi), min tmax (slab_out o1 d lo hi))
      else if o1 < lo \<or> o1 > hi then None else Some (tmin, tmax))"
proof (cases "(lo - o1) * Fixed64_div Fixed64_ONE d > (hi - o1) * Fixed64_div Fixed64_ONE d")
  case True
  then have "slab_in o1 d lo hi = (hi - o1) * Fixed64_div Fixed64_ONE d" "slab_out o1 d lo hi = (lo - o1) * Fixed64_div Fixed64_ONE d"
    by (simp_all add: slab_in_def slab_out_def)
  with True show ?thesis unfolding aabb_slab_def Let_def fixed_min_max by simp
next
  case False
  then have "slab_in o1 d lo hi = (lo - o1) * Fixed64_div Fixed64_ONE d" "slab_out o1 d lo hi = (hi - o1) * Fixed64_div Fixed64_ONE d"
    by (simp_all add: slab_in_def slab_out_def)
  with False show ?thesis unfolding aabb_slab_def Let_def fixed_min_max by simp
qed

lemma leaf_slab_range:
  "map_option (\<lambda>(tmin, tmax, n). (tmin, tmax)) (leaf_slab ns o1 d lo hi (tmin, tmax, n)) = aabb_slab o1 d lo hi (tmin, tmax)"
proof -
  have swap: "(if t1 > tmin then (t1, m) else (tmin, n)) = (max tmin t1, if t1 > tmin then m else n)" for t1 m
    by (auto simp: max_def not_less dest: antisym)
  show ?thesis
    unfolding leaf_slab_def aabb_slab_def Let_def fixed_min_max
    by (cases "(lo - o1) * Fixed64_div Fixed64_ONE d > (hi - o1) * Fixed64_div Fixed64_ONE d") (simp_all add: swap)
qed

text \<open>A leaf inside the outer box and a range inside the outer range: what passes the leaf's slab passes the outer one.\<close>

lemma aabb_slab_nested:
  assumes box: "lo' \<le> lo" "lo \<le> hi" "hi \<le> hi'" and rng: "tmin' \<le> tmin" "tmax \<le> tmax'"
    and r: "aabb_slab o1 d lo hi (tmin, tmax) = Some (umin, umax)"
  shows "\<exists>vmin vmax. aabb_slab o1 d lo' hi' (tmin', tmax') = Some (vmin, vmax) \<and> vmin \<le> umin \<and> umax \<le> vmax"
proof (cases "Fixed64_abs d > ray_epsilon")
  case True
  then have u: "umin = max tmin (slab_in o1 d lo hi)" "umax = min tmax (slab_out o1 d lo hi)" "umin \<le> umax"
    using r by (auto simp: aabb_slab_eq split: if_splits)
  let ?v = "max tmin' (slab_in o1 d lo' hi')" and ?w = "min tmax' (slab_out o1 d lo' hi')"
  have "?v \<le> umin" unfolding u(1) by (rule max.mono [OF rng(1) slab_nested(1) [OF box]])
  moreover have "umax \<le> ?w" unfolding u(2) by (rule min.mono [OF rng(2) slab_nested(2) [OF box]])
  ultimately have "?v \<le> umin \<and> umax \<le> ?w \<and> ?v \<le> ?w" using order_trans [OF order_trans [OF _ u(3)]] by blast
  then show ?thesis using True unfolding aabb_slab_eq by (simp add: not_less)
next
  case False
  then have "umin = tmin" "umax = tmax" "lo \<le> o1" "o1 \<le> hi"
    using r by (auto simp: aabb_slab_eq not_less split: if_splits)
  moreover from this box have "lo' \<le> o1" "o1 \<le> hi'" by (blast intro: order_trans)+
  ultimately show ?thesis using False rng unfolding aabb_slab_eq by (simp add: not_less)
qed

section \<open>The outer box\<close>

definition box_le :: "Vec3Fix \<Rightarrow> Vec3Fix \<Rightarrow> bool" where
  "box_le a b \<longleftrightarrow> vec_x a \<le> vec_x b \<and> vec_y a \<le> vec_y b \<and> vec_z a \<le> vec_z b"

definition leaf_ok :: "BvhLeafPiece \<Rightarrow> bool" where
  "leaf_ok p \<longleftrightarrow> box_le (lf_min_bounds p) (lf_max_bounds p)"

text \<open>Every leaf lies in the outer box.\<close>

definition compound_ok :: "CompoundStructure \<Rightarrow> bool" where
  "compound_ok c \<longleftrightarrow> (\<forall>p\<in>set (cp_pieces c). leaf_ok p
     \<and> box_le (cp_min_bounds c) (lf_min_bounds p) \<and> box_le (lf_max_bounds p) (cp_max_bounds c))"

lemma box_le_refl [simp]: "box_le a a"
  by (simp add: box_le_def)

lemma box_le_trans: "box_le a b \<Longrightarrow> box_le b c \<Longrightarrow> box_le a c"
  by (auto simp: box_le_def)

lemma vec_min_le: "box_le (vec_min a b) a" "box_le (vec_min a b) b"
  by (simp_all add: box_le_def vec_min_def fixed_min_max)

lemma vec_max_ge: "box_le a (vec_max a b)" "box_le b (vec_max a b)"
  by (simp_all add: box_le_def vec_max_def fixed_min_max)

lemma compound_ok_new: "compound_ok (CompoundStructure_new i)"
  by (simp add: compound_ok_def CompoundStructure_new_def)

lemma half_nonneg:
  "0 \<le> sint (raw (vec_x (half_extents t)))" "0 \<le> sint (raw (vec_y (half_extents t)))" "0 \<le> sint (raw (vec_z (half_extents t)))"
  by (cases t; simp add: vec_lit_def lit_def sint_of_int_sat_i64 clamp_i64_def i64_MAX_def i64_MIN_def)+

lemma centered: "0 \<le> sint (raw h) \<Longrightarrow> c - h \<le> c + (h :: Fixed64)"
  by (simp add: fixed_le fixed_int clamp_mono)

lemma leaf_of_piece_ok: "box_le (Vec3Fix_sub c (half_extents t)) (Vec3Fix_add c (half_extents t))"
  by (simp add: box_le_def Vec3Fix_sub_def Vec3Fix_add_def centered half_nonneg)

lemma add_piece_ok: "compound_ok c \<Longrightarrow> compound_ok (add_piece i t p c)"
  unfolding compound_ok_def add_piece_def Let_def leaf_ok_def
  by (auto simp: leaf_of_piece_ok vec_min_le vec_max_ge intro: box_le_trans [OF vec_min_le(1)] box_le_trans [OF _ vec_max_ge(1)])

lemma expand_fold:
  fixes c :: CompoundStructure and ps :: "BvhLeafPiece list"
  defines "f \<equiv> \<lambda>c q. c\<lparr>cp_min_bounds := vec_min (cp_min_bounds c) (lf_min_bounds q),
      cp_max_bounds := vec_max (cp_max_bounds c) (lf_max_bounds q)\<rparr>"
  shows "cp_pieces (foldl f c ps) = cp_pieces c \<and> box_le (cp_min_bounds (foldl f c ps)) (cp_min_bounds c)
    \<and> box_le (cp_max_bounds c) (cp_max_bounds (foldl f c ps))
    \<and> (\<forall>q\<in>set ps. box_le (cp_min_bounds (foldl f c ps)) (lf_min_bounds q) \<and> box_le (lf_max_bounds q) (cp_max_bounds (foldl f c ps)))"
proof (induction ps arbitrary: c)
  case Nil
  then show ?case by simp
next
  case (Cons q ps)
  have "box_le (cp_min_bounds (f c q)) (cp_min_bounds c)" "box_le (cp_min_bounds (f c q)) (lf_min_bounds q)"
    "box_le (cp_max_bounds c) (cp_max_bounds (f c q))" "box_le (lf_max_bounds q) (cp_max_bounds (f c q))" "cp_pieces (f c q) = cp_pieces c"
    by (simp_all add: f_def vec_min_le vec_max_ge)
  with Cons [of "f c q"] show ?case by (auto intro: box_le_trans)
qed

lemma recompute_ok: "\<forall>p\<in>set (cp_pieces c). leaf_ok p \<Longrightarrow> compound_ok (recompute_bounds c)"
proof (cases "cp_pieces c")
  case Nil
  then show ?thesis by (simp add: compound_ok_def recompute_bounds_def)
next
  case (Cons p ps)
  assume ok: "\<forall>p\<in>set (cp_pieces c). leaf_ok p"
  note e = expand_fold [of "c\<lparr>cp_min_bounds := lf_min_bounds p, cp_max_bounds := lf_max_bounds p\<rparr>" ps]
  show ?thesis using e ok unfolding compound_ok_def recompute_bounds_def Cons by (simp add: Cons)
qed

lemma set_swap_remove:
  assumes "i < length xs"
  shows "set (swap_remove i xs) \<subseteq> set xs"
proof
  fix x
  assume "x \<in> set (swap_remove i xs)"
  then have "x \<in> set (xs[i := last xs])" unfolding swap_remove_def by (rule in_set_butlastD)
  then have "x \<in> insert (last xs) (set xs)" by (rule subsetD [OF set_update_subset_insert])
  moreover have "last xs \<in> set xs" using assms by (intro last_in_set) auto
  ultimately show "x \<in> set xs" by blast
qed

lemma remove_piece_ok: "compound_ok c \<Longrightarrow> compound_ok (fst (remove_piece i c))"
proof (cases "find_index (\<lambda>p. lf_piece_id p = i) (cp_pieces c)")
  case (Some k)
  assume "compound_ok c"
  then have "\<forall>p\<in>set (swap_remove k (cp_pieces c)). leaf_ok p"
    using set_swap_remove [OF find_index_less [OF Some]] by (auto simp: compound_ok_def)
  then show ?thesis using recompute_ok [of "c\<lparr>cp_pieces := swap_remove k (cp_pieces c)\<rparr>"] by (simp add: remove_piece_def Some)
qed (simp add: remove_piece_def)

section \<open>The broad phase loses nothing\<close>

lemma leaf_hit_in_box:
  assumes b: "leaf_ok p" "box_le lo (lf_min_bounds p)" "box_le (lf_max_bounds p) hi" and d: "near \<le> far"
    and h: "raycast_leaf_aabb origin dir p near = Some hit"
  shows "intersect_aabb origin dir lo hi far"
proof -
  let ?lo = "lf_min_bounds p" and ?hi = "lf_max_bounds p"
  let ?nx = "(vec_lit (- 1, 1) (0, 1) (0, 1), vec_lit (1, 1) (0, 1) (0, 1))"
    and ?ny = "(vec_lit (0, 1) (- 1, 1) (0, 1), vec_lit (0, 1) (1, 1) (0, 1))"
    and ?nz = "(vec_lit (0, 1) (0, 1) (- 1, 1), vec_lit (0, 1) (0, 1) (1, 1))"
  obtain a1 b1 n1 a2 b2 n2 a3 b3 n3 where l:
      "leaf_slab ?nx (vec_x origin) (vec_x dir) (vec_x ?lo) (vec_x ?hi) (Fixed64_ZERO, near, Vec3Fix_ZERO) = Some (a1, b1, n1)"
      "leaf_slab ?ny (vec_y origin) (vec_y dir) (vec_y ?lo) (vec_y ?hi) (a1, b1, n1) = Some (a2, b2, n2)"
      "leaf_slab ?nz (vec_z origin) (vec_z dir) (vec_z ?lo) (vec_z ?hi) (a2, b2, n2) = Some (a3, b3, n3)"
    using h unfolding raycast_leaf_aabb_def Let_def by (auto split: option.splits)
  have s: "aabb_slab (vec_x origin) (vec_x dir) (vec_x ?lo) (vec_x ?hi) (Fixed64_ZERO, near) = Some (a1, b1)"
      "aabb_slab (vec_y origin) (vec_y dir) (vec_y ?lo) (vec_y ?hi) (a1, b1) = Some (a2, b2)"
      "aabb_slab (vec_z origin) (vec_z dir) (vec_z ?lo) (vec_z ?hi) (a2, b2) = Some (a3, b3)"
    using leaf_slab_range [of ?nx "vec_x origin" "vec_x dir" "vec_x ?lo" "vec_x ?hi" Fixed64_ZERO near Vec3Fix_ZERO]
      leaf_slab_range [of ?ny "vec_y origin" "vec_y dir" "vec_y ?lo" "vec_y ?hi" a1 b1 n1]
      leaf_slab_range [of ?nz "vec_z origin" "vec_z dir" "vec_z ?lo" "vec_z ?hi" a2 b2 n2] l
    by simp_all
  note bx = b [unfolded leaf_ok_def box_le_def]
  obtain u1 v1 where 1: "aabb_slab (vec_x origin) (vec_x dir) (vec_x lo) (vec_x hi) (Fixed64_ZERO, far) = Some (u1, v1)" "u1 \<le> a1" "b1 \<le> v1"
    using aabb_slab_nested [OF _ _ _ order_refl d s(1)] bx by blast
  obtain u2 v2 where 2: "aabb_slab (vec_y origin) (vec_y dir) (vec_y lo) (vec_y hi) (u1, v1) = Some (u2, v2)" "u2 \<le> a2" "b2 \<le> v2"
    using aabb_slab_nested [OF _ _ _ 1(2,3) s(2)] bx by blast
  obtain u3 v3 where 3: "aabb_slab (vec_z origin) (vec_z dir) (vec_z lo) (vec_z hi) (u2, v2) = Some (u3, v3)"
    using aabb_slab_nested [OF _ _ _ 2(2,3) s(3)] bx by blast
  show ?thesis unfolding intersect_aabb_def by (simp add: 1 2 3)
qed

lemma closer_leaf_near: "fst (closer_leaf origin dir best p) \<le> fst best"
  by (auto simp: closer_leaf_def split: option.split)

lemma narrow_phase_miss:
  assumes "\<And>p near. p \<in> set ps \<Longrightarrow> near \<le> far \<Longrightarrow> raycast_leaf_aabb origin dir p near = None"
  shows "foldl (closer_leaf origin dir) (far, None) ps = (far, None)"
  using assms
proof (induction ps)
  case Nil
  then show ?case by simp
next
  case (Cons p ps)
  have "closer_leaf origin dir (far, None) p = (far, None)"
    using Cons.prems [of p far] by (simp add: closer_leaf_def)
  with Cons show ?case by simp
qed

text \<open>
  C40. The rejection test against the outer box of a compound structure never loses a hit: as long
  as the outer box covers the leaf boxes, the raycast returns what the search over all leaves alone
  returns, for every origin, every direction (axis-parallel rays and rays that start inside
  included) and every distance, with the saturating 32.32 arithmetic of the code. Adding and
  removing pieces keeps the outer box covering.
\<close>
theorem broad_phase_exact:
  assumes "compound_ok c"
  shows "raycast origin dir max_distance c = snd (foldl (closer_leaf origin dir) (max_distance, None) (cp_pieces c))
    \<and> compound_ok (add_piece i t center c) \<and> compound_ok (fst (remove_piece i c))"
proof -
  have "raycast origin dir max_distance c = snd (foldl (closer_leaf origin dir) (max_distance, None) (cp_pieces c))"
  proof (cases "intersect_aabb origin dir (cp_min_bounds c) (cp_max_bounds c) max_distance")
    case True
    then show ?thesis by (simp add: raycast_def)
  next
    case False
    have "raycast_leaf_aabb origin dir p near = None" if "p \<in> set (cp_pieces c)" "near \<le> max_distance" for p near
      using leaf_hit_in_box [OF _ _ _ that(2)] that(1) assms False
      unfolding compound_ok_def by (meson not_None_eq)
    then have "foldl (closer_leaf origin dir) (max_distance, None) (cp_pieces c) = (max_distance, None)"
      by (rule narrow_phase_miss)
    then show ?thesis using False by (simp add: raycast_def)
  qed
  then show ?thesis using add_piece_ok [OF assms] remove_piece_ok [OF assms] by simp
qed

definition slab_house :: CompoundStructure where
  "slab_house = add_piece 2 Pillar (Vec3Fix_from_i32 0 2 0) (add_piece 1 Foundation Vec3Fix_ZERO (CompoundStructure_new 101))"

lemma slab_house_ok: "compound_ok slab_house"
  unfolding slab_house_def by (intro add_piece_ok compound_ok_new)

definition down_ray :: "Vec3Fix \<times> Vec3Fix" where
  "down_ray = (Vec3Fix_from_i32 1 10 1, Vec3Fix_from_i32 0 (- 1) 0)"

lemma broad_phase_exact_witness:
  "raycast (fst down_ray) (snd down_ray) (Fixed64_from_i32 20) slab_house =
      snd (foldl (closer_leaf (fst down_ray) (snd down_ray)) (Fixed64_from_i32 20, None) (cp_pieces slab_house))
    \<and> map_option rh_piece_id (raycast (fst down_ray) (snd down_ray) (Fixed64_from_i32 20) slab_house) = Some 1"
proof -
  have "map_option rh_piece_id (raycast (fst down_ray) (snd down_ray) (Fixed64_from_i32 20) slab_house) = Some 1" by code_simp
  then show ?thesis using broad_phase_exact [OF slab_house_ok, of "fst down_ray" "snd down_ray" "Fixed64_from_i32 20"] by simp
qed

end
