(* ===== verification/Building.thy ===== *)
theory Building
  imports Bvh WorldErrors "HOL-Library.AList" "HOL-Library.Multiset"
begin

text \<open>
  Player structures of \<^verbatim>\<open>eidolon-world/src/building.rs\<close>: prefabs and freeform groups of building
  pieces, the load-bearing stability of a new piece, and the collapse that follows the destruction
  of one. The hash maps the code iterates over are association lists with distinct keys: the order
  of such a list stands for the iteration order, about which nothing is assumed. The propagation
  loop of \<open>destroy_piece\<close> is a partial function, so that its termination is a theorem.
\<close>

section \<open>State\<close>

record StructurePiece =
  sp_piece_id :: u32
  sp_parent_piece_id :: u32
  sp_piece_data :: StructurePieceData
  sp_world_position :: Vec3Fix
  sp_world_yaw :: QuantizedYaw
  sp_stability :: u8
  sp_health :: u32
  sp_max_health :: u32

record StructureInstance =
  si_id :: u32
  si_owner_account_id :: u64
  si_is_prefab :: bool
  si_prefab_type_id :: u32
  si_world_position :: Vec3Fix
  si_world_yaw :: QuantizedYaw
  si_pieces :: "(u32 \<times> StructurePiece) list"
  si_compound :: CompoundStructure
  si_interior_cell_id :: "u32 option"
  si_health :: u32
  si_max_health :: u32
  si_last_maintenance_tick :: u64

record StructureManager =
  sm_structures :: "(u32 \<times> StructureInstance) list"
  sm_next_structure_id :: u32
  sm_next_piece_id :: u32

definition StructureManager_new :: StructureManager where
  "StructureManager_new = \<lparr>sm_structures = [], sm_next_structure_id = 1, sm_next_piece_id = 1\<rparr>"

definition total_structure_count :: "StructureManager \<Rightarrow> nat" where
  "total_structure_count m = length (sm_structures m)"

definition total_piece_count :: "StructureManager \<Rightarrow> nat" where
  "total_piece_count m = sum_list (map (\<lambda>(i, s). length (si_pieces s)) (sm_structures m))"

definition get_structure :: "u32 \<Rightarrow> StructureManager \<Rightarrow> StructureInstance option" where
  "get_structure structure_id m = map_of (sm_structures m) structure_id"

definition put_structure :: "u32 \<Rightarrow> StructureInstance \<Rightarrow> StructureManager \<Rightarrow> StructureManager" where
  "put_structure structure_id s m = m\<lparr>sm_structures := AList.update structure_id s (sm_structures m)\<rparr>"

section \<open>Placing\<close>

definition create_prefab ::
  "u64 \<Rightarrow> u32 \<Rightarrow> Vec3Fix \<Rightarrow> QuantizedYaw \<Rightarrow> u32 option \<Rightarrow> StructureManager \<Rightarrow> StructureManager \<times> (WorldError + u32)"
where
  "create_prefab owner_account_id prefab_type_id position yaw interior_cell_id m =
     (let structure_id = sm_next_structure_id m;
          piece_id = sm_next_piece_id m;
          root_piece = \<lparr>sp_piece_id = piece_id, sp_parent_piece_id = 0,
            sp_piece_data = StructurePieceData_new Foundation Stone Center 0, sp_world_position = position,
            sp_world_yaw = yaw, sp_stability = MAX_STABILITY, sp_health = 5000, sp_max_health = 5000\<rparr>;
          inst = \<lparr>si_id = structure_id, si_owner_account_id = owner_account_id, si_is_prefab = True,
            si_prefab_type_id = prefab_type_id, si_world_position = position, si_world_yaw = yaw,
            si_pieces = [(piece_id, root_piece)],
            si_compound = add_piece piece_id Foundation position (CompoundStructure_new structure_id),
            si_interior_cell_id = interior_cell_id, si_health = 5000, si_max_health = 5000,
            si_last_maintenance_tick = 0\<rparr>
      in (put_structure structure_id inst
            (m\<lparr>sm_next_structure_id := structure_id + 1, sm_next_piece_id := piece_id + 1\<rparr>), Inr structure_id))"

definition place_foundation ::
  "u64 \<Rightarrow> Vec3Fix \<Rightarrow> QuantizedYaw \<Rightarrow> MaterialType \<Rightarrow> StructureManager \<Rightarrow> StructureManager \<times> (WorldError + u32 \<times> u32)"
where
  "place_foundation owner_account_id position yaw material m =
     (let structure_id = sm_next_structure_id m;
          piece_id = sm_next_piece_id m;
          root_piece = \<lparr>sp_piece_id = piece_id, sp_parent_piece_id = 0,
            sp_piece_data = StructurePieceData_new Foundation material Center 0, sp_world_position = position,
            sp_world_yaw = yaw, sp_stability = MAX_STABILITY, sp_health = material_max_health material,
            sp_max_health = material_max_health material\<rparr>;
          inst = \<lparr>si_id = structure_id, si_owner_account_id = owner_account_id, si_is_prefab = False,
            si_prefab_type_id = 0, si_world_position = position, si_world_yaw = yaw,
            si_pieces = [(piece_id, root_piece)],
            si_compound = add_piece piece_id Foundation position (CompoundStructure_new structure_id),
            si_interior_cell_id = None, si_health = material_max_health material,
            si_max_health = material_max_health material, si_last_maintenance_tick = 0\<rparr>
      in (put_structure structure_id inst
            (m\<lparr>sm_next_structure_id := structure_id + 1, sm_next_piece_id := piece_id + 1\<rparr>), Inr (structure_id, piece_id)))"

definition place_piece ::
  "u32 \<Rightarrow> u32 \<Rightarrow> PieceType \<Rightarrow> MaterialType \<Rightarrow> SnapSocket \<Rightarrow> u8 \<Rightarrow> StructureManager \<Rightarrow> StructureManager \<times> (WorldError + u32)"
where
  "place_piece structure_id parent_piece_id piece_type material socket variant_flags m =
     (case map_of (sm_structures m) structure_id of
        None \<Rightarrow> (m, Inl (StructureNotFound structure_id))
      | Some s \<Rightarrow>
          (case map_of (si_pieces s) parent_piece_id of
             None \<Rightarrow> (m, Inl (PieceNotFound parent_piece_id))
           | Some parent \<Rightarrow>
               (let child_stability = calculate_stability (is_foundation piece_type) (sp_stability parent) material in
                if child_stability = 0 then (m, Inl StructurallyUnsound)
                else
                  (let child_pos = Vec3Fix_add (sp_world_position parent) (local_offset socket);
                       piece_id = sm_next_piece_id m;
                       child_piece = \<lparr>sp_piece_id = piece_id, sp_parent_piece_id = parent_piece_id,
                         sp_piece_data = StructurePieceData_new piece_type material socket variant_flags,
                         sp_world_position = child_pos, sp_world_yaw = sp_world_yaw parent,
                         sp_stability = child_stability, sp_health = material_max_health material,
                         sp_max_health = material_max_health material\<rparr>;
                       s = s\<lparr>si_compound := add_piece piece_id piece_type child_pos (si_compound s),
                             si_pieces := AList.update piece_id child_piece (si_pieces s)\<rparr>
                   in (put_structure structure_id s (m\<lparr>sm_next_piece_id := piece_id + 1\<rparr>), Inr piece_id)))))"

section \<open>Collapse\<close>

type_synonym pieces = "(u32 \<times> StructurePiece) list"

text \<open>The ground: roots without a parent that are foundations.\<close>

definition is_root :: "StructurePiece \<Rightarrow> bool" where
  "is_root piece \<longleftrightarrow> sp_parent_piece_id piece = 0 \<and> piece_type_of (sp_piece_data piece) = Some Foundation"

definition roots :: "pieces \<Rightarrow> u32 list" where
  "roots ps = map fst (filter (\<lambda>(i, p). is_root p) ps)"

definition grounded :: "pieces \<Rightarrow> u32 \<Rightarrow> u8 option" where
  "grounded ps i = (if i \<in> set (roots ps) then Some MAX_STABILITY else None)"

text \<open>What a piece would inherit from a parent of the given stability.\<close>

definition inherited :: "u8 \<Rightarrow> StructurePiece \<Rightarrow> u8" where
  "inherited parent_stab piece =
     calculate_stability False parent_stab
       (case material_of (sp_piece_data piece) of Some mat \<Rightarrow> mat | None \<Rightarrow> Wood)"

definition stability_at :: "(u32 \<Rightarrow> u8 option) \<Rightarrow> u32 \<Rightarrow> u8" where
  "stability_at stab i = (case stab i of Some v \<Rightarrow> v | None \<Rightarrow> 0)"

definition offer_child ::
  "u32 \<Rightarrow> u8 \<Rightarrow> u32 \<times> StructurePiece \<Rightarrow> (u32 \<Rightarrow> u8 option) \<times> u32 list \<Rightarrow> (u32 \<Rightarrow> u8 option) \<times> u32 list"
where
  "offer_child parent_id parent_stab entry state =
     (case entry of (child_id, child_piece) \<Rightarrow>
      case state of (stab, queue) \<Rightarrow>
        if sp_parent_piece_id child_piece = parent_id
        then
          (let child_stab = inherited parent_stab child_piece in
           if child_stab > 0 \<and> child_stab > stability_at stab child_id
           then (stab(child_id \<mapsto> child_stab), queue @ [child_id]) else (stab, queue))
        else (stab, queue))"

partial_function (option) propagate :: "pieces \<Rightarrow> (u32 \<Rightarrow> u8 option) \<Rightarrow> u32 list \<Rightarrow> (u32 \<Rightarrow> u8 option) option" where
  "propagate ps stab queue =
     (case queue of
        [] \<Rightarrow> Some stab
      | parent_id # rest \<Rightarrow>
          (case fold (offer_child parent_id (stability_at stab parent_id)) ps (stab, rest) of
             (stab1, queue1) \<Rightarrow> propagate ps stab1 queue1))"

declare propagate.simps [code]

definition remove_from_compound :: "u32 list \<Rightarrow> CompoundStructure \<Rightarrow> CompoundStructure" where
  "remove_from_compound ids c = fold (\<lambda>i c. fst (remove_piece i c)) ids c"

definition destroy_piece ::
  "u32 \<Rightarrow> u32 \<Rightarrow> StructureManager \<Rightarrow> (StructureManager \<times> (WorldError + u32 list)) option"
where
  "destroy_piece structure_id target_piece_id m =
     (case map_of (sm_structures m) structure_id of
        None \<Rightarrow> Some (m, Inl (StructureNotFound structure_id))
      | Some s \<Rightarrow>
          if map_of (si_pieces s) target_piece_id = None then Some (m, Inl (PieceNotFound target_piece_id))
          else
            (let ps = AList.delete target_piece_id (si_pieces s) in
             case propagate ps (grounded ps) (roots ps) of
               None \<Rightarrow> None
             | Some stab \<Rightarrow>
                 (let to_collapse = filter (\<lambda>i. stab i = None) (map fst ps);
                      s = s\<lparr>si_pieces := fold AList.delete to_collapse ps,
                            si_compound := remove_from_compound (target_piece_id # to_collapse) (si_compound s)\<rparr>
                  in Some (put_structure structure_id s m, Inr (target_piece_id # to_collapse)))))"

definition destroy_structure :: "u32 \<Rightarrow> StructureManager \<Rightarrow> StructureManager \<times> (WorldError + unit)" where
  "destroy_structure structure_id m =
     (if map_of (sm_structures m) structure_id \<noteq> None
      then (m\<lparr>sm_structures := AList.delete structure_id (sm_structures m)\<rparr>, Inr ())
      else (m, Inl (StructureNotFound structure_id)))"

definition run_maintenance_cycle :: "u64 \<Rightarrow> u32 \<Rightarrow> StructureManager \<Rightarrow> StructureManager \<times> nat" where
  "run_maintenance_cycle current_tick decay_amount m =
     (let decayed = map (\<lambda>(i, s). (i, s\<lparr>si_last_maintenance_tick := current_tick,
                                       si_health := saturating_sub (si_health s) decay_amount\<rparr>)) (sm_structures m);
          to_remove = map fst (filter (\<lambda>(i, s). si_health s = 0) decayed)
      in (m\<lparr>sm_structures := fold AList.delete to_remove decayed\<rparr>, length to_remove))"

definition raycast_structures :: "Vec3Fix \<Rightarrow> Vec3Fix \<Rightarrow> Fixed64 \<Rightarrow> StructureManager \<Rightarrow> RayHit option" where
  "raycast_structures origin dir max_distance m =
     foldl (\<lambda>closest (i, s).
         case raycast origin dir max_distance (si_compound s) of
           None \<Rightarrow> closest
         | Some hit \<Rightarrow>
             (case closest of
                None \<Rightarrow> Some hit
              | Some cur \<Rightarrow> if rh_distance hit < rh_distance cur then Some hit else closest))
       None (sm_structures m)"

section \<open>The propagation loop\<close>

text \<open>What stands: a grounded root, and what inherits stability from something that stands.\<close>

inductive supported :: "pieces \<Rightarrow> u32 \<Rightarrow> u8 \<Rightarrow> bool" for ps where
  ground: "i \<in> set (roots ps) \<Longrightarrow> supported ps i MAX_STABILITY"
| child: "supported ps p v \<Longrightarrow> (c, x) \<in> set ps \<Longrightarrow> sp_parent_piece_id x = p \<Longrightarrow> 0 < inherited v x
    \<Longrightarrow> supported ps c (inherited v x)"

lemma inherited_mono: "v \<le> w \<Longrightarrow> inherited v x \<le> inherited w x"
  by (simp add: inherited_def calculate_stability_def word_le_nat_alt unat_ops diff_le_mono)

lemma supported_pos: "supported ps i v \<Longrightarrow> 0 < v"
  by (induction rule: supported.induct) (simp_all add: MAX_STABILITY_def)

text \<open>One round of the loop only adds: entries grow, and what grew is in the queue.\<close>

definition grows :: "(u32 \<Rightarrow> u8 option) \<times> u32 list \<Rightarrow> (u32 \<Rightarrow> u8 option) \<times> u32 list \<Rightarrow> bool" where
  "grows a b \<longleftrightarrow> (\<forall>i. stability_at (fst a) i \<le> stability_at (fst b) i) \<and> dom (fst a) \<subseteq> dom (fst b)
     \<and> set (snd a) \<subseteq> set (snd b) \<and> (\<forall>i. fst b i \<noteq> fst a i \<longrightarrow> i \<in> set (snd b))
     \<and> set (snd b) \<subseteq> set (snd a) \<union> dom (fst b)"

lemma grows_refl: "grows a a"
  by (simp add: grows_def)

lemma grows_trans: "grows a b \<Longrightarrow> grows b c \<Longrightarrow> grows a c"
proof -
  assume ab: "grows a b" and bc: "grows b c"
  have "stability_at (fst a) i \<le> stability_at (fst c) i" for i
    using ab bc unfolding grows_def by (meson order_trans)
  moreover have "i \<in> set (snd c)" if "fst c i \<noteq> fst a i" for i
  proof (cases "fst b i = fst a i")
    case True
    then show ?thesis using bc that by (simp add: grows_def)
  next
    case False
    then have "i \<in> set (snd b)" using ab by (simp add: grows_def)
    then show ?thesis using bc by (auto simp: grows_def)
  qed
  moreover have "dom (fst a) \<subseteq> dom (fst c)" "set (snd a) \<subseteq> set (snd c)" "set (snd c) \<subseteq> set (snd a) \<union> dom (fst c)"
    using ab bc unfolding grows_def by blast+
  ultimately show ?thesis unfolding grows_def by blast
qed

lemma grows_offer: "grows state (offer_child p v entry state)"
  by (cases state; cases entry) (auto simp: grows_def offer_child_def Let_def stability_at_def)

lemma grows_fold: "grows state (fold (offer_child p v) qs state)"
proof (induction qs arbitrary: state)
  case (Cons q qs)
  show ?case using grows_trans [OF grows_offer Cons] by simp
qed (simp add: grows_refl)

lemma offered:
  "\<forall>(c, x)\<in>set qs. sp_parent_piece_id x = p \<longrightarrow> inherited v x \<le> stability_at (fst (fold (offer_child p v) qs state)) c"
proof (induction qs arbitrary: state)
  case (Cons q qs)
  obtain c x where q: "q = (c, x)" by fastforce
  have "inherited v x \<le> stability_at (fst (offer_child p v q state)) c" if "sp_parent_piece_id x = p"
    using that by (cases state) (auto simp: q offer_child_def Let_def stability_at_def not_less)
  moreover have "stability_at (fst (offer_child p v q state)) c \<le> stability_at (fst (fold (offer_child p v) qs (offer_child p v q state))) c"
    using grows_fold by (simp add: grows_def)
  ultimately show ?case using Cons [of "offer_child p v q state"] by (auto simp: q intro: order_trans)
qed simp

lemma offers_from:
  assumes "fst (fold (offer_child p v) qs state) i = Some w"
  shows "fst state i = Some w \<or> (\<exists>x. (i, x) \<in> set qs \<and> sp_parent_piece_id x = p \<and> w = inherited v x \<and> 0 < w)"
  using assms
proof (induction qs arbitrary: state)
  case (Cons q qs)
  then have "fst (offer_child p v q state) i = Some w \<or> (\<exists>x. (i, x) \<in> set qs \<and> sp_parent_piece_id x = p \<and> w = inherited v x \<and> 0 < w)"
    by simp
  then show ?case
    by (cases state; cases q) (auto simp: offer_child_def Let_def split: if_splits)
qed simp

text \<open>The measure: room for growth, counted twice, and the length of the queue.\<close>

definition room_left :: "pieces \<Rightarrow> (u32 \<Rightarrow> u8 option) \<Rightarrow> nat" where
  "room_left ps stab = (\<Sum>i\<in>set (map fst ps). 255 - unat (stability_at stab i))"

lemma room_left_raise:
  assumes "i \<in> set (map fst ps)" and "stability_at stab i < v"
  shows "room_left ps (stab(i \<mapsto> v)) < room_left ps stab"
proof -
  have v: "unat (stability_at stab i) < unat v" "unat v \<le> 255"
    using assms(2) unat_le_pow [of v] by (simp_all add: word_less_nat_alt)
  have "255 - unat (stability_at (stab(i \<mapsto> v)) i) < 255 - unat (stability_at stab i)"
    using v by (simp add: stability_at_def)
  moreover have "255 - unat (stability_at (stab(i \<mapsto> v)) j) \<le> 255 - unat (stability_at stab j)" for j
    using v by (auto simp: stability_at_def)
  ultimately show ?thesis unfolding room_left_def
    by (intro sum_strict_mono_ex1) (use assms(1) in auto)
qed

lemma offer_measure:
  assumes "fst entry \<in> set (map fst ps)"
  shows "2 * room_left ps (fst (offer_child p v entry state)) + length (snd (offer_child p v entry state))
    \<le> 2 * room_left ps (fst state) + length (snd state)"
proof -
  obtain c x stab queue where e: "entry = (c, x)" "state = (stab, queue)" by fastforce
  show ?thesis
  proof (cases "sp_parent_piece_id x = p \<and> inherited v x > 0 \<and> inherited v x > stability_at stab c")
    case True
    then show ?thesis using room_left_raise [of c ps stab "inherited v x"] assms by (simp add: e offer_child_def Let_def)
  next
    case False
    then show ?thesis by (auto simp: e offer_child_def Let_def)
  qed
qed

lemma fold_measure:
  "set (map fst qs) \<subseteq> set (map fst ps) \<Longrightarrow>
    2 * room_left ps (fst (fold (offer_child p v) qs state)) + length (snd (fold (offer_child p v) qs state))
      \<le> 2 * room_left ps (fst state) + length (snd state)"
proof (induction qs arbitrary: state)
  case (Cons q qs)
  then have "2 * room_left ps (fst (fold (offer_child p v) (q # qs) state)) + length (snd (fold (offer_child p v) (q # qs) state))
      \<le> 2 * room_left ps (fst (offer_child p v q state)) + length (snd (offer_child p v q state))"
    by simp
  also have "\<dots> \<le> 2 * room_left ps (fst state) + length (snd state)"
    using Cons.prems by (intro offer_measure) simp
  finally show ?case .
qed simp

definition loop_inv :: "pieces \<Rightarrow> (u32 \<Rightarrow> u8 option) \<Rightarrow> u32 list \<Rightarrow> bool" where
  "loop_inv ps stab queue \<longleftrightarrow>
     (\<forall>i v. stab i = Some v \<longrightarrow> supported ps i v)
     \<and> set queue \<subseteq> dom stab
     \<and> (\<forall>i\<in>set (roots ps). MAX_STABILITY \<le> stability_at stab i)
     \<and> (\<forall>p\<in>dom stab. p \<notin> set queue \<longrightarrow>
          (\<forall>(c, x)\<in>set ps. sp_parent_piece_id x = p \<longrightarrow> inherited (stability_at stab p) x \<le> stability_at stab c))"

lemma loop_inv_start: "loop_inv ps (grounded ps) (roots ps)"
  by (auto simp: loop_inv_def grounded_def stability_at_def dom_def intro: supported.ground split: if_splits)

lemma loop_inv_round:
  assumes inv: "loop_inv ps stab (p # rest)"
    and f: "fold (offer_child p (stability_at stab p)) ps (stab, rest) = (stab1, queue1)"
  shows "loop_inv ps stab1 queue1"
proof -
  let ?v = "stability_at stab p"
  have g: "grows (stab, rest) (stab1, queue1)" using grows_fold [of "(stab, rest)" p ?v ps] by (simp add: f)
  have pv: "supported ps p ?v" using inv by (auto simp: loop_inv_def stability_at_def)
  have sound: "supported ps i w" if "stab1 i = Some w" for i w
  proof -
    have "stab i = Some w \<or> (\<exists>x. (i, x) \<in> set ps \<and> sp_parent_piece_id x = p \<and> w = inherited ?v x \<and> 0 < w)"
      using offers_from [of p ?v ps "(stab, rest)" i w] that by (simp add: f)
    then show ?thesis using inv pv by (auto simp: loop_inv_def intro: supported.child)
  qed
  have "set rest \<subseteq> dom stab" using inv by (auto simp: loop_inv_def)
  then have queued: "set queue1 \<subseteq> dom stab1" using g unfolding grows_def fst_conv snd_conv by blast
  have rooted: "\<forall>i\<in>set (roots ps). MAX_STABILITY \<le> stability_at stab1 i"
    using inv g unfolding grows_def loop_inv_def fst_conv snd_conv by (meson order_trans)
  have closed: "inherited (stability_at stab1 q) x \<le> stability_at stab1 c"
    if q: "q \<in> dom stab1" "q \<notin> set queue1" and x: "(c, x) \<in> set ps" "sp_parent_piece_id x = q" for q c x
  proof -
    have same: "stab1 q = stab q" using g q(2) by (auto simp: grows_def)
    have sq: "stability_at stab1 q = stability_at stab q" by (simp add: stability_at_def same)
    show ?thesis
    proof (cases "q = p")
      case True
      then show ?thesis using offered [of ps p ?v "(stab, rest)"] x sq by (auto simp: f)
    next
      case False
      have "q \<notin> set (p # rest)" using False q(2) g by (auto simp: grows_def)
      moreover have "q \<in> dom stab" using q(1) by (simp add: domIff same)
      ultimately have "inherited (stability_at stab q) x \<le> stability_at stab c"
        using inv x unfolding loop_inv_def by blast
      also have "\<dots> \<le> stability_at stab1 c" using g by (simp add: grows_def)
      finally show ?thesis by (simp add: sq)
    qed
  qed
  show ?thesis unfolding loop_inv_def using sound queued rooted closed by blast
qed

lemma propagate_result:
  "loop_inv ps stab queue \<Longrightarrow> \<exists>stab1. propagate ps stab queue = Some stab1 \<and> loop_inv ps stab1 []"
proof (induction "2 * room_left ps stab + length queue" arbitrary: stab queue rule: less_induct)
  case less
  show ?case
  proof (cases queue)
    case Nil
    then show ?thesis using less.prems by (subst propagate.simps) auto
  next
    case (Cons p rest)
    obtain stab1 queue1 where f: "fold (offer_child p (stability_at stab p)) ps (stab, rest) = (stab1, queue1)" by fastforce
    have "2 * room_left ps stab1 + length queue1 < 2 * room_left ps stab + length queue"
      using fold_measure [of ps ps p "stability_at stab p" "(stab, rest)"] by (simp add: f Cons)
    moreover have "loop_inv ps stab1 queue1" using loop_inv_round [OF _ f] less.prems Cons by simp
    ultimately obtain stab2 where "propagate ps stab1 queue1 = Some stab2" "loop_inv ps stab2 []"
      using less.hyps by blast
    moreover have "propagate ps stab queue = propagate ps stab1 queue1"
      by (subst propagate.simps) (simp add: Cons f)
    ultimately show ?thesis by simp
  qed
qed

lemma loop_inv_complete:
  assumes "loop_inv ps stab []" and "supported ps i v"
  shows "v \<le> stability_at stab i"
  using assms(2)
proof (induction rule: supported.induct)
  case (ground i)
  then show ?case using assms(1) by (simp add: loop_inv_def)
next
  case (child p v c x)
  have "p \<in> dom stab" using child.IH supported_pos [OF child.hyps(1)] by (auto simp: stability_at_def split: option.splits)
  then have "inherited (stability_at stab p) x \<le> stability_at stab c"
    using assms(1) child.hyps(2,3) unfolding loop_inv_def by auto
  with inherited_mono [OF child.IH, of x] show ?case by (rule order_trans)
qed

text \<open>When the loop is done it has an entry for exactly the pieces that stand, the best stability of each.\<close>

lemma propagate_supported:
  obtains stab where "propagate ps (grounded ps) (roots ps) = Some stab"
    and "\<forall>i. stab i = None \<longleftrightarrow> (\<nexists>v. supported ps i v)"
    and "\<forall>i v. stab i = Some v \<longrightarrow> supported ps i v \<and> (\<forall>w. supported ps i w \<longrightarrow> w \<le> v)"
proof -
  obtain stab where s: "propagate ps (grounded ps) (roots ps) = Some stab" "loop_inv ps stab []"
    using propagate_result [OF loop_inv_start] by blast
  have sound: "supported ps i v" if "stab i = Some v" for i v using s(2) that by (simp add: loop_inv_def)
  have none: "stab i = None \<longleftrightarrow> (\<nexists>v. supported ps i v)" for i
  proof
    assume "stab i = None"
    then have "stability_at stab i = 0" by (simp add: stability_at_def)
    then show "\<nexists>v. supported ps i v"
      using loop_inv_complete [OF s(2), of i] supported_pos by (metis word_coorder.extremum_strict word_le_0_iff)
  next
    assume "\<nexists>v. supported ps i v"
    then show "stab i = None" using sound by (cases "stab i") auto
  qed
  have best: "supported ps i v \<and> (\<forall>w. supported ps i w \<longrightarrow> w \<le> v)" if "stab i = Some v" for i v
    using sound [OF that] loop_inv_complete [OF s(2), of i] that by (simp add: stability_at_def)
  show thesis by (rule that [OF s(1)]) (use none best in blast)+
qed

section \<open>What a destruction leaves\<close>

text \<open>The leaves of the compound are the pieces of the structure, each once, and the outer box covers them.\<close>

definition structure_ok :: "StructureInstance \<Rightarrow> bool" where
  "structure_ok s \<longleftrightarrow> distinct (map fst (si_pieces s)) \<and> compound_ok (si_compound s)
     \<and> mset (map lf_piece_id (cp_pieces (si_compound s))) = mset (map fst (si_pieces s))"

lemma delete_all: "fold AList.delete ks xs = filter (\<lambda>(k, v). k \<notin> set ks) xs"
proof (induction ks arbitrary: xs)
  case (Cons k ks)
  have "fold AList.delete (k # ks) xs = filter (\<lambda>(i, v). i \<notin> set ks) (filter (\<lambda>(i, v). k \<noteq> i) xs)"
    by (simp add: Cons AList.delete_eq)
  also have "\<dots> = filter (\<lambda>(i, v). i \<notin> set (k # ks)) xs"
    by (auto simp: conj_commute intro: filter_cong)
  finally show ?case .
qed (simp add: case_prod_beta)

lemma mset_swap_remove:
  assumes "i < length xs"
  shows "mset (swap_remove i xs) = mset xs - {#xs ! i#}"
proof -
  have ne: "xs \<noteq> []" using assms by auto
  let ?ys = "xs[i := last xs]"
  have l: "last ?ys = last xs"
    using assms ne by (simp add: last_conv_nth nth_list_update)
  have "mset ?ys = add_mset (last xs) (mset (butlast ?ys))"
    using append_butlast_last_id [of ?ys] l ne by (metis add_mset_add_single list_update_nonempty mset.simps(1,2) union_code mset_append)
  moreover have "mset ?ys = add_mset (last xs) (mset xs - {#xs ! i#})" by (rule mset_update [OF assms])
  ultimately show ?thesis by (simp add: swap_remove_def)
qed

lemma recompute_pieces: "cp_pieces (recompute_bounds c) = cp_pieces c"
proof (cases "cp_pieces c")
  case (Cons p ps)
  then show ?thesis
    using expand_fold [of "c\<lparr>cp_min_bounds := lf_min_bounds p, cp_max_bounds := lf_max_bounds p\<rparr>" ps] by (simp add: recompute_bounds_def)
qed (simp add: recompute_bounds_def)

lemma remove_piece_ids:
  "mset (map lf_piece_id (cp_pieces (fst (remove_piece i c)))) = mset (map lf_piece_id (cp_pieces c)) - {#i#}"
proof (cases "find_index (\<lambda>p. lf_piece_id p = i) (cp_pieces c)")
  case None
  then have "i \<notin># mset (map lf_piece_id (cp_pieces c))" by (auto simp: find_index_None_iff)
  with None show ?thesis by (simp add: remove_piece_def diff_single_trivial)
next
  case (Some k)
  note k = find_index_SomeD [OF Some]
  have "mset (map lf_piece_id (swap_remove k (cp_pieces c))) = image_mset lf_piece_id (mset (cp_pieces c) - {#cp_pieces c ! k#})"
    using mset_swap_remove [of k "cp_pieces c"] k by simp
  also have "\<dots> = mset (map lf_piece_id (cp_pieces c)) - {#i#}"
    using k by (subst image_mset_Diff) auto
  finally show ?thesis by (simp add: remove_piece_def Some recompute_pieces)
qed

lemma remove_all:
  "compound_ok c \<Longrightarrow> compound_ok (remove_from_compound ids c)
    \<and> mset (map lf_piece_id (cp_pieces (remove_from_compound ids c))) = mset (map lf_piece_id (cp_pieces c)) - mset ids"
proof (induction ids arbitrary: c)
  case (Cons i ids)
  have "remove_from_compound (i # ids) c = remove_from_compound ids (fst (remove_piece i c))"
    by (simp add: remove_from_compound_def)
  moreover have "A - {#i#} - B = A - add_mset i B" for A B :: "u32 multiset" by (rule multiset_eqI) auto
  ultimately show ?case
    using Cons.IH [OF remove_piece_ok [OF Cons.prems, of i]] remove_piece_ids [of i c] by simp
qed (simp add: remove_from_compound_def)

lemma key_in_filter: "(i, p) \<in> set xs \<Longrightarrow> i \<in> set (map fst (filter (\<lambda>(k, v). P k) xs)) \<longleftrightarrow> P i"
  by (induction xs) auto

lemma keys_without:
  assumes "distinct (map fst xs)"
  shows "mset (map fst (filter (\<lambda>(k, v). P k) xs)) = mset (map fst xs) - mset (map fst (filter (\<lambda>(k, v). \<not> P k) xs))"
proof -
  have "mset (map fst xs) = mset (map fst (filter (\<lambda>(k, v). P k) xs)) + mset (map fst (filter (\<lambda>(k, v). \<not> P k) xs))"
    by (induction xs) auto
  then show ?thesis by simp
qed

section \<open>Placing keeps the invariant\<close>

lemma add_piece_ids:
  "image_mset lf_piece_id (mset (cp_pieces (add_piece i t p c))) = add_mset i (image_mset lf_piece_id (mset (cp_pieces c)))"
  by (simp add: add_piece_def Let_def)

lemma update_fresh: "k \<notin> set (map fst xs) \<Longrightarrow> AList.update k v xs = xs @ [(k, v)]"
  by (induction xs) auto

lemma first_piece_ok:
  "place_foundation ow pos yaw mat m = (m1, Inr (sid, pid)) \<Longrightarrow>
    \<exists>s. get_structure sid m1 = Some s \<and> structure_ok s \<and> map fst (si_pieces s) = [pid]"
  unfolding place_foundation_def Let_def
  by (auto simp: get_structure_def put_structure_def update_conv structure_ok_def add_piece_ids add_piece_ok compound_ok_new)
     (simp_all add: CompoundStructure_new_def)

lemma place_piece_ok:
  assumes r: "place_piece sid par t mat so fl m = (m1, Inr pid)" and s: "get_structure sid m = Some s" and ok: "structure_ok s"
    and fresh: "sm_next_piece_id m \<notin> set (map fst (si_pieces s))"
  shows "\<exists>s1. get_structure sid m1 = Some s1 \<and> structure_ok s1 \<and> map fst (si_pieces s1) = map fst (si_pieces s) @ [pid]"
proof -
  obtain par_piece where p: "map_of (si_pieces s) par = Some par_piece"
      "calculate_stability (is_foundation t) (sp_stability par_piece) mat \<noteq> 0"
    using r s unfolding place_piece_def get_structure_def Let_def by (auto split: option.splits if_splits)
  have pid: "pid = sm_next_piece_id m"
    using r s p unfolding place_piece_def get_structure_def Let_def by auto
  show ?thesis
    using r s p ok fresh unfolding pid place_piece_def get_structure_def Let_def put_structure_def
    by (auto simp: update_conv update_fresh structure_ok_def add_piece_ids add_piece_ok)
qed

section \<open>Properties\<close>

text \<open>
  C29. Destroying a piece always returns: the propagation loop ends for every set of pieces, every
  parent relation (cycles included) and every iteration order, because each entry that is queued
  again has grown.
\<close>
theorem destroy_piece_terminates: "\<exists>m1 r. destroy_piece structure_id target_piece_id m = Some (m1, r)"
proof -
  have loop: "\<exists>stab. propagate ps (grounded ps) (roots ps) = Some stab" for ps
    using propagate_result [OF loop_inv_start] by blast
  show ?thesis
  proof (cases "map_of (sm_structures m) structure_id")
    case None
    then show ?thesis by (simp add: destroy_piece_def)
  next
    case (Some s)
    obtain stab where "propagate (AList.delete target_piece_id (si_pieces s)) (grounded (AList.delete target_piece_id (si_pieces s)))
        (roots (AList.delete target_piece_id (si_pieces s))) = Some stab"
      using loop by blast
    then show ?thesis by (cases "map_of (si_pieces s) target_piece_id = None") (simp_all add: destroy_piece_def Let_def Some)
  qed
qed

text \<open>
  C21. A collapse takes down exactly the pieces that no longer stand. After a piece is destroyed,
  the structure keeps, in their order, the other pieces that are supported (a grounded root, or a
  child that inherits a positive stability from a supported piece), the ids returned are the target
  and the rest, the compound used for raycasts still holds exactly the pieces of the structure, and
  every other structure is untouched.
\<close>
theorem collapse_exact:
  assumes "map_of (sm_structures m) structure_id = Some s" and "map_of (si_pieces s) target \<noteq> None" and "structure_ok s"
    and "ps = AList.delete target (si_pieces s)"
  shows "\<exists>m1 s1. destroy_piece structure_id target m =
        Some (m1, Inr (target # map fst (filter (\<lambda>(i, p). \<nexists>v. supported ps i v) ps)))
    \<and> get_structure structure_id m1 = Some s1
    \<and> si_pieces s1 = filter (\<lambda>(i, p). \<exists>v. supported ps i v) ps \<and> structure_ok s1
    \<and> (\<forall>j. j \<noteq> structure_id \<longrightarrow> get_structure j m1 = get_structure j m)"
proof -
  obtain stab where st: "propagate ps (grounded ps) (roots ps) = Some stab"
      "\<forall>i. stab i = None \<longleftrightarrow> (\<nexists>v. supported ps i v)"
    by (rule propagate_supported [of ps])
  define fallen where "fallen = map fst (filter (\<lambda>(i, p). \<nexists>v. supported ps i v) ps)"
  define s1 where "s1 = s\<lparr>si_pieces := fold AList.delete fallen ps,
      si_compound := remove_from_compound (target # fallen) (si_compound s)\<rparr>"
  have fallen: "filter (\<lambda>i. stab i = None) (map fst ps) = fallen"
    unfolding fallen_def filter_map using st(2) by (auto simp: o_def intro!: arg_cong [of _ _ "map fst"] filter_cong)
  have d: "destroy_piece structure_id target m = Some (put_structure structure_id s1 m, Inr (target # fallen))"
    unfolding destroy_piece_def Let_def using assms(1,2) by (simp add: assms(4) [symmetric] st(1) fallen s1_def)
  have "i \<notin> set fallen \<longleftrightarrow> (\<exists>v. supported ps i v)" if "(i, p) \<in> set ps" for i p
    unfolding fallen_def key_in_filter [OF that] by blast
  then have kept: "si_pieces s1 = filter (\<lambda>(i, p). \<exists>v. supported ps i v) ps"
    unfolding s1_def StructureInstance.simps delete_all by (auto intro!: filter_cong)
  have dist: "distinct (map fst ps)" and comp: "compound_ok (si_compound s)"
      "mset (map lf_piece_id (cp_pieces (si_compound s))) = mset (map fst (si_pieces s))"
    using assms(3,4) by (auto simp: structure_ok_def distinct_delete)
  have "target \<in> set (map fst (si_pieces s))" using assms(2) by (metis map_of_eq_None_iff set_map)
  then have all: "mset (map fst ps) = mset (map fst (si_pieces s)) - {#target#}"
    unfolding assms(4) delete_keys
    using assms(3) distinct_remove1_removeAll [of "map fst (si_pieces s)" target] mset_remove1 [of target "map fst (si_pieces s)"]
    by (simp add: structure_ok_def)
  have "mset (map lf_piece_id (cp_pieces (si_compound s1))) = mset (map fst ps) - mset fallen"
    using remove_all [OF comp(1), of "target # fallen"] comp(2) all by (simp add: s1_def)
  also have "\<dots> = mset (map fst (si_pieces s1))"
    using keys_without [OF dist, of "\<lambda>i. \<exists>v. supported ps i v"] unfolding kept fallen_def by simp
  finally have "structure_ok s1"
    using remove_all [OF comp(1), of "target # fallen"] dist unfolding structure_ok_def kept
    by (simp add: s1_def distinct_map_filter)
  with d kept show ?thesis
    unfolding fallen_def by (auto simp: get_structure_def put_structure_def update_conv)
qed

text \<open>A cottage: a stone foundation, a wooden wall on it and a roof on the wall.\<close>

definition cottage0 :: StructureManager where
  "cottage0 = fst (place_foundation 42 Vec3Fix_ZERO (QuantizedYaw 0) Stone StructureManager_new)"

definition cottage1 :: StructureManager where
  "cottage1 = fst (place_piece 1 1 Wall Wood Top 0 cottage0)"

definition cottage :: StructureManager where
  "cottage = fst (place_piece 1 2 Roof Wood Top 0 cottage1)"

lemma cottage_ok: "\<exists>s. get_structure 1 cottage = Some s \<and> structure_ok s \<and> map fst (si_pieces s) = [1, 2, 3]"
proof -
  have p0: "place_foundation 42 Vec3Fix_ZERO (QuantizedYaw 0) Stone StructureManager_new = (cottage0, Inr (1, 1))"
    by (simp add: cottage0_def place_foundation_def Let_def StructureManager_new_def)
  have "snd (place_piece 1 1 Wall Wood Top 0 cottage0) = Inr 2" by code_simp
  then have p1: "place_piece 1 1 Wall Wood Top 0 cottage0 = (cottage1, Inr 2)" unfolding cottage1_def by (metis prod.collapse)
  have "snd (place_piece 1 2 Roof Wood Top 0 cottage1) = Inr 3" by code_simp
  then have p2: "place_piece 1 2 Roof Wood Top 0 cottage1 = (cottage, Inr 3)" unfolding cottage_def by (metis prod.collapse)
  have nx: "sm_next_piece_id cottage0 = 2" "sm_next_piece_id cottage1 = 3" by code_simp+
  obtain s0 where s0: "get_structure 1 cottage0 = Some s0" "structure_ok s0" "map fst (si_pieces s0) = [1]"
    using first_piece_ok [OF p0] by (elim exE conjE) (rule that)
  obtain s1 where s1: "get_structure 1 cottage1 = Some s1" "structure_ok s1" "map fst (si_pieces s1) = [1, 2]"
    using place_piece_ok [OF p1 s0(1,2)] s0(3) nx by auto
  show ?thesis using place_piece_ok [OF p2 s1(1,2)] s1(3) nx by auto
qed

lemma collapse_exact_witness:
  "\<exists>m1 s1. destroy_piece 1 2 cottage = Some (m1, Inr [2, 3]) \<and> get_structure 1 m1 = Some s1 \<and> structure_ok s1
    \<and> map fst (si_pieces s1) = [1]"
proof -
  obtain s where s: "get_structure 1 cottage = Some s" "structure_ok s" "map fst (si_pieces s) = [1, 2, 3]"
    using cottage_ok by (elim exE conjE) (rule that)
  have m: "map_of (sm_structures cottage) 1 = Some s" using s(1) by (simp add: get_structure_def)
  have t: "map_of (si_pieces s) 2 \<noteq> None" using s(3) by (metis list.set_intros(1,2) map_of_eq_None_iff set_map)
  have "map_option snd (destroy_piece 1 2 cottage) = Some (Inr [2, 3])" by code_simp
  then obtain m1 where d: "destroy_piece 1 2 cottage = Some (m1, Inr [2, 3])" by auto
  obtain s1 where s1: "get_structure 1 m1 = Some s1" "structure_ok s1"
      "si_pieces s1 = filter (\<lambda>(i, p). \<exists>v. supported (AList.delete 2 (si_pieces s)) i v) (AList.delete 2 (si_pieces s))"
      "[2, 3] = 2 # map fst (filter (\<lambda>(i, p). \<nexists>v. supported (AList.delete 2 (si_pieces s)) i v) (AList.delete 2 (si_pieces s)))"
    using collapse_exact [OF m t s(2) refl] d by auto
  have "map_option (\<lambda>(m1, r). map_option (\<lambda>s. map fst (si_pieces s)) (get_structure 1 m1)) (destroy_piece 1 2 cottage) = Some (Some [1])"
    by code_simp
  then have "map fst (si_pieces s1) = [1]" using d s1(1) by simp
  with d s1(1,2) show ?thesis by auto
qed

text \<open>
  A foundation that was snapped to another one got the stability of the ground when it was placed,
  but the collapse does not count it as a root: it falls with its parent.
\<close>

lemma snapped_foundation_falls:
  "(case place_piece 1 1 Foundation Stone East 0 cottage0 of
      (m1, r) \<Rightarrow> r = Inr 2
        \<and> map_option sp_stability (map_of (si_pieces (the (get_structure 1 m1))) 2) = Some MAX_STABILITY
        \<and> map_option snd (destroy_piece 1 1 m1) = Some (Inr [1, 2]))"
  by code_simp

end
