(* ===== verification/Interior.thy ===== *)
theory Interior
  imports Structures WorldErrors "HOL-Library.RBT"
begin

text \<open>
  Interior cells of \<^verbatim>\<open>eidolon-world/src/interior.rs\<close>: the rooms behind buildings, each with its
  items in a B-tree ordered by instance id (here a red-black tree, with the same interface: an
  ordered map) and its occupants, and the manager that says which room an entity is in. The
  hash maps of the manager, which are only looked up and updated, are maps.
\<close>

section \<open>Cells\<close>

definition MAX_INTERIOR_ITEMS_PER_BUILDING :: nat where
  "MAX_INTERIOR_ITEMS_PER_BUILDING = 3000"

record InteriorCell =
  ic_cell_id :: u32
  ic_parent_building_id :: u32
  ic_owner_account_id :: u64
  ic_items :: "(u32, InteriorItemRecord) rbt"
  ic_occupants :: "u32 set"

definition InteriorCell_new :: "u32 \<Rightarrow> u32 \<Rightarrow> u64 \<Rightarrow> InteriorCell" where
  "InteriorCell_new cell_id parent_building_id owner_account_id =
     \<lparr>ic_cell_id = cell_id, ic_parent_building_id = parent_building_id, ic_owner_account_id = owner_account_id,
      ic_items = RBT.empty, ic_occupants = {}\<rparr>"

definition cell_item_count :: "InteriorCell \<Rightarrow> nat" where
  "cell_item_count cell = length (RBT.entries (ic_items cell))"

definition cell_place_item :: "InteriorItemRecord \<Rightarrow> InteriorCell \<Rightarrow> InteriorCell \<times> (WorldError + unit)" where
  "cell_place_item r cell =
     (if cell_item_count cell \<ge> MAX_INTERIOR_ITEMS_PER_BUILDING \<and> RBT.lookup (ic_items cell) (ir_item_instance_id r) = None
      then (cell, Inl InteriorCellFull)
      else (cell\<lparr>ic_items := RBT.insert (ir_item_instance_id r) r (ic_items cell)\<rparr>, Inr ()))"

definition cell_remove_item :: "u32 \<Rightarrow> InteriorCell \<Rightarrow> InteriorCell \<times> (WorldError + InteriorItemRecord)" where
  "cell_remove_item item_instance_id cell =
     (case RBT.lookup (ic_items cell) item_instance_id of
        None \<Rightarrow> (cell, Inl (ItemNotFound item_instance_id))
      | Some r \<Rightarrow> (cell\<lparr>ic_items := RBT.delete item_instance_id (ic_items cell)\<rparr>, Inr r))"

text \<open>The loop over the items: each record is written to the 16 bytes at the offset; \<open>?\<close> ends it at the first error.\<close>

fun write_records :: "InteriorItemRecord list \<Rightarrow> nat \<Rightarrow> u8 list \<Rightarrow> u8 list \<times> (string + nat)" where
  "write_records [] offset buf = (buf, Inr offset)"
| "write_records (r # rs) offset buf =
     (case InteriorItemRecord_write_to r (take 16 (drop offset buf)) of
        (win, Inl e) \<Rightarrow> (slice_put buf offset win, Inl e)
      | (win, Inr u) \<Rightarrow> write_records rs (offset + 16) (slice_put buf offset win))"

definition serialize_manifest :: "InteriorCell \<Rightarrow> u8 list \<Rightarrow> u8 list \<times> (string + nat)" where
  "serialize_manifest cell out_buffer =
     (let required_bytes = cell_item_count cell * 16 in
      if length out_buffer < required_bytes then (out_buffer, Inl ''Buffer too small for interior scene manifest'')
      else write_records (map snd (RBT.entries (ic_items cell))) 0 out_buffer)"

section \<open>The manager\<close>

record InteriorCellManager =
  im_cells :: "u32 \<rightharpoonup> InteriorCell"
  im_entity_locations :: "u32 \<rightharpoonup> u32"
  im_next_cell_id :: u32

definition InteriorCellManager_new :: InteriorCellManager where
  "InteriorCellManager_new = \<lparr>im_cells = Map.empty, im_entity_locations = Map.empty, im_next_cell_id = 1\<rparr>"

definition create_cell :: "u32 \<Rightarrow> u64 \<Rightarrow> InteriorCellManager \<Rightarrow> InteriorCellManager \<times> u32" where
  "create_cell parent_building_id owner_account_id m =
     (let cell_id = im_next_cell_id m in
      (m\<lparr>im_next_cell_id := cell_id + 1,
         im_cells := (im_cells m)(cell_id \<mapsto> InteriorCell_new cell_id parent_building_id owner_account_id)\<rparr>, cell_id))"

definition destroy_cell :: "u32 \<Rightarrow> InteriorCellManager \<Rightarrow> InteriorCellManager \<times> (WorldError + unit)" where
  "destroy_cell cell_id m =
     (case im_cells m cell_id of
        None \<Rightarrow> (m, Inl (InteriorCellNotFound cell_id))
      | Some cell \<Rightarrow>
          (m\<lparr>im_cells := (im_cells m)(cell_id := None),
             im_entity_locations := (\<lambda>e. if e \<in> ic_occupants cell then None else im_entity_locations m e)\<rparr>, Inr ()))"

definition manager_place_item :: "u32 \<Rightarrow> InteriorItemRecord \<Rightarrow> InteriorCellManager \<Rightarrow> InteriorCellManager \<times> (WorldError + unit)" where
  "manager_place_item cell_id r m =
     (case im_cells m cell_id of
        None \<Rightarrow> (m, Inl (InteriorCellNotFound cell_id))
      | Some cell \<Rightarrow> (case cell_place_item r cell of (cell, res) \<Rightarrow> (m\<lparr>im_cells := (im_cells m)(cell_id \<mapsto> cell)\<rparr>, res)))"

definition manager_remove_item :: "u32 \<Rightarrow> u32 \<Rightarrow> InteriorCellManager \<Rightarrow> InteriorCellManager \<times> (WorldError + InteriorItemRecord)" where
  "manager_remove_item cell_id item_instance_id m =
     (case im_cells m cell_id of
        None \<Rightarrow> (m, Inl (InteriorCellNotFound cell_id))
      | Some cell \<Rightarrow>
          (case cell_remove_item item_instance_id cell of (cell, res) \<Rightarrow> (m\<lparr>im_cells := (im_cells m)(cell_id \<mapsto> cell)\<rparr>, res)))"

text \<open>An entity leaves the cell it is registered in, if there is one: the tables after the two removals.\<close>

definition leave_cell :: "u32 \<Rightarrow> InteriorCellManager \<Rightarrow> InteriorCellManager" where
  "leave_cell entity_id m =
     (case im_entity_locations m entity_id of
        None \<Rightarrow> m
      | Some old_cell_id \<Rightarrow>
          (let m = m\<lparr>im_entity_locations := (im_entity_locations m)(entity_id := None)\<rparr> in
           case im_cells m old_cell_id of
             None \<Rightarrow> m
           | Some old_cell \<Rightarrow>
               m\<lparr>im_cells := (im_cells m)(old_cell_id \<mapsto> old_cell\<lparr>ic_occupants := ic_occupants old_cell - {entity_id}\<rparr>)\<rparr>))"

definition enter_cell :: "u32 \<Rightarrow> u32 \<Rightarrow> InteriorCellManager \<Rightarrow> InteriorCellManager \<times> (WorldError + unit)" where
  "enter_cell entity_id cell_id m =
     (if im_cells m cell_id = None then (m, Inl (InteriorCellNotFound cell_id))
      else
        (let m = leave_cell entity_id m in
         case im_cells m cell_id of
           None \<Rightarrow> (m, Inl (InteriorCellNotFound cell_id))
         | Some cell \<Rightarrow>
             (m\<lparr>im_cells := (im_cells m)(cell_id \<mapsto> cell\<lparr>ic_occupants := insert entity_id (ic_occupants cell)\<rparr>),
                im_entity_locations := (im_entity_locations m)(entity_id \<mapsto> cell_id)\<rparr>, Inr ())))"

definition exit_cell :: "u32 \<Rightarrow> InteriorCellManager \<Rightarrow> InteriorCellManager \<times> (WorldError + u32)" where
  "exit_cell entity_id m =
     (case im_entity_locations m entity_id of
        None \<Rightarrow> (m, Inl (EntityNotFound entity_id))
      | Some cell_id \<Rightarrow> (leave_cell entity_id m, Inr cell_id))"

definition get_entity_cell :: "u32 \<Rightarrow> InteriorCellManager \<Rightarrow> u32 option" where
  "get_entity_cell entity_id m = im_entity_locations m entity_id"

definition is_inside_interior :: "u32 \<Rightarrow> InteriorCellManager \<Rightarrow> bool" where
  "is_inside_interior entity_id m \<longleftrightarrow> im_entity_locations m entity_id \<noteq> None"

definition manager_item_count :: "u32 \<Rightarrow> InteriorCellManager \<Rightarrow> nat" where
  "manager_item_count cell_id m = (case im_cells m cell_id of Some c \<Rightarrow> cell_item_count c | None \<Rightarrow> 0)"

definition build_scene_manifest :: "u32 \<Rightarrow> u8 list \<Rightarrow> InteriorCellManager \<Rightarrow> u8 list \<times> (WorldError + nat)" where
  "build_scene_manifest cell_id out_buffer m =
     (case im_cells m cell_id of
        None \<Rightarrow> (out_buffer, Inl (InteriorCellNotFound cell_id))
      | Some cell \<Rightarrow>
          (case serialize_manifest cell out_buffer of
             (buf, Inl e) \<Rightarrow> (buf, Inl SnapshotCorrupted)
           | (buf, Inr n) \<Rightarrow> (buf, Inr n)))"

section \<open>Where everybody is\<close>

text \<open>The two tables agree: an entity is registered in a cell exactly if it is among the occupants of that cell.\<close>

definition whereabouts_ok :: "InteriorCellManager \<Rightarrow> bool" where
  "whereabouts_ok m \<longleftrightarrow>
     (\<forall>e c. im_entity_locations m e = Some c \<longleftrightarrow> (\<exists>cell. im_cells m c = Some cell \<and> e \<in> ic_occupants cell))"

definition ids_below :: "InteriorCellManager \<Rightarrow> bool" where
  "ids_below m \<longleftrightarrow> (\<forall>c. im_cells m c \<noteq> None \<longrightarrow> c < im_next_cell_id m)"

lemma whereabouts_iff: "whereabouts_ok m \<Longrightarrow> im_entity_locations m e = Some c \<longleftrightarrow> (\<exists>cell. im_cells m c = Some cell \<and> e \<in> ic_occupants cell)"
  by (simp add: whereabouts_ok_def)

lemma whereabouts_None:
  "whereabouts_ok m \<Longrightarrow> im_entity_locations m e = None \<Longrightarrow> im_cells m c = Some cell \<Longrightarrow> e \<notin> ic_occupants cell"
  using whereabouts_iff [of m e c] by auto

lemma leave_cell_tables:
  assumes "whereabouts_ok m"
  shows "im_entity_locations (leave_cell e m) = (im_entity_locations m)(e := None)"
    and "im_cells (leave_cell e m) c = map_option (\<lambda>cell. cell\<lparr>ic_occupants := ic_occupants cell - {e}\<rparr>) (im_cells m c)"
    and "im_next_cell_id (leave_cell e m) = im_next_cell_id m"
proof -
  have out: "cell\<lparr>ic_occupants := ic_occupants cell - {e}\<rparr> = cell" if "e \<notin> ic_occupants cell" for cell :: InteriorCell
    using that by (cases cell) auto
  show "im_cells (leave_cell e m) c = map_option (\<lambda>cell. cell\<lparr>ic_occupants := ic_occupants cell - {e}\<rparr>) (im_cells m c)"
  proof (cases "im_entity_locations m e")
    case None
    then show ?thesis using out whereabouts_None [OF assms None, of c] by (cases "im_cells m c") (auto simp: leave_cell_def)
  next
    case (Some d)
    then obtain old where "im_cells m d = Some old" using whereabouts_iff [OF assms] by blast
    moreover have "e \<notin> ic_occupants cell" if "im_cells m c = Some cell" "c \<noteq> d" for cell
      using whereabouts_iff [OF assms, of e c] Some that by auto
    ultimately show ?thesis using Some out by (cases "im_cells m c") (auto simp: leave_cell_def Let_def)
  qed
  show "im_entity_locations (leave_cell e m) = (im_entity_locations m)(e := None)" "im_next_cell_id (leave_cell e m) = im_next_cell_id m"
    by (auto simp: leave_cell_def Let_def split: option.splits)
qed

lemma leave_cell_ok: "whereabouts_ok m \<Longrightarrow> whereabouts_ok (leave_cell e m)"
  unfolding whereabouts_ok_def [of "leave_cell e m"] by (auto simp: leave_cell_tables whereabouts_iff)

lemma enter_cell_ok:
  assumes ok: "whereabouts_ok m" and r: "enter_cell e c m = (m1, res)"
  shows "whereabouts_ok m1 \<and> (case res of Inr u \<Rightarrow> get_entity_cell e m1 = Some c | Inl x \<Rightarrow> m1 = m) \<and> dom (im_cells m1) = dom (im_cells m)
    \<and> im_next_cell_id m1 = im_next_cell_id m"
proof (cases "im_cells m c")
  case None
  then show ?thesis using r ok by (auto simp: enter_cell_def)
next
  case (Some cell)
  let ?m = "leave_cell e m"
  have c: "im_cells ?m c = Some (cell\<lparr>ic_occupants := ic_occupants cell - {e}\<rparr>)" using Some by (simp add: leave_cell_tables [OF ok])
  have dom: "dom (im_cells ?m) = dom (im_cells m)" by (auto simp: dom_def leave_cell_tables(2) [OF ok])
  have m1: "m1 = ?m\<lparr>im_cells := (im_cells ?m)(c \<mapsto> cell\<lparr>ic_occupants := insert e (ic_occupants cell)\<rparr>),
      im_entity_locations := (im_entity_locations ?m)(e \<mapsto> c)\<rparr>" and res: "res = Inr ()"
    using r Some c by (auto simp: enter_cell_def Let_def insert_absorb)
  have "whereabouts_ok m1"
    unfolding whereabouts_ok_def m1 using Some by (auto simp: leave_cell_tables [OF ok] whereabouts_iff [OF ok])
  moreover have "dom (im_cells m1) = dom (im_cells m)" using dom c by (auto simp: m1)
  ultimately show ?thesis using res by (simp add: m1 get_entity_cell_def leave_cell_tables [OF ok])
qed

datatype InteriorOp =
    CreateCell u32 u64
  | DestroyCell u32
  | PlaceItem u32 InteriorItemRecord
  | RemoveItem u32 u32
  | EnterCell u32 u32
  | ExitCell u32

fun apply_interior :: "InteriorOp \<Rightarrow> InteriorCellManager \<Rightarrow> InteriorCellManager" where
  "apply_interior (CreateCell b ow) m = fst (create_cell b ow m)"
| "apply_interior (DestroyCell c) m = fst (destroy_cell c m)"
| "apply_interior (PlaceItem c r) m = fst (manager_place_item c r m)"
| "apply_interior (RemoveItem c i) m = fst (manager_remove_item c i m)"
| "apply_interior (EnterCell e c) m = fst (enter_cell e c m)"
| "apply_interior (ExitCell e) m = fst (exit_cell e m)"

lemma same_occupants:
  assumes "whereabouts_ok m" and "im_cells m c = Some cell" and "ic_occupants cell1 = ic_occupants cell"
  shows "whereabouts_ok (m\<lparr>im_cells := (im_cells m)(c \<mapsto> cell1)\<rparr>)"
  using assms unfolding whereabouts_ok_def [of "m\<lparr>im_cells := (im_cells m)(c \<mapsto> cell1)\<rparr>"]
  by (auto simp: whereabouts_iff)

lemma cell_ops_occupants:
  "ic_occupants (fst (cell_place_item r cell)) = ic_occupants cell" "ic_occupants (fst (cell_remove_item i cell)) = ic_occupants cell"
  by (auto simp: cell_place_item_def cell_remove_item_def split: option.split)

lemma next_cell_fresh:
  assumes "ids_below m" and "unat (im_next_cell_id m) + 1 < 2 ^ 32"
  shows "im_cells m (im_next_cell_id m) = None" "im_next_cell_id m < im_next_cell_id m + 1"
    "unat (im_next_cell_id m + 1) = unat (im_next_cell_id m) + 1"
proof -
  show u: "unat (im_next_cell_id m + 1) = unat (im_next_cell_id m) + 1" using assms(2) by (simp add: unat_word_ariths)
  then show "im_next_cell_id m < im_next_cell_id m + 1" by (simp add: word_less_nat_alt)
  show "im_cells m (im_next_cell_id m) = None" using assms(1) by (auto simp: ids_below_def)
qed

lemma apply_interior_ok:
  assumes ok: "whereabouts_ok m" and ids: "ids_below m" and n: "unat (im_next_cell_id m) + 1 < 2 ^ 32"
  shows "whereabouts_ok (apply_interior op m) \<and> ids_below (apply_interior op m)
    \<and> unat (im_next_cell_id (apply_interior op m)) \<le> unat (im_next_cell_id m) + 1"
proof (cases op)
  case (CreateCell b ow)
  note f = next_cell_fresh [OF ids n]
  have "whereabouts_ok (fst (create_cell b ow m))"
    using f(1) unfolding whereabouts_ok_def [of "fst (create_cell b ow m)"]
    by (auto simp: create_cell_def Let_def InteriorCell_new_def whereabouts_iff [OF ok])
  moreover have "ids_below (fst (create_cell b ow m))"
    using ids f(2) unfolding ids_below_def by (auto simp: create_cell_def Let_def intro: less_trans)
  ultimately show ?thesis using f(3) by (simp add: CreateCell create_cell_def Let_def)
next
  case (DestroyCell c)
  show ?thesis
  proof (cases "im_cells m c")
    case None
    then show ?thesis using ok ids by (simp add: DestroyCell destroy_cell_def)
  next
    case (Some cell)
    have unique: "d = c" if "im_cells m d = Some x" "e \<in> ic_occupants x" "e \<in> ic_occupants cell" for d x e
      using whereabouts_iff [OF ok, of e d] whereabouts_iff [OF ok, of e c] Some that by auto
    have d: "im_cells (fst (destroy_cell c m)) = (im_cells m)(c := None)"
        "im_entity_locations (fst (destroy_cell c m)) = (\<lambda>e. if e \<in> ic_occupants cell then None else im_entity_locations m e)"
      using Some by (simp_all add: destroy_cell_def)
    have "im_entity_locations (fst (destroy_cell c m)) e = Some k \<longleftrightarrow>
        (\<exists>x. im_cells (fst (destroy_cell c m)) k = Some x \<and> e \<in> ic_occupants x)" for e k
    proof (cases "e \<in> ic_occupants cell")
      case True
      then show ?thesis unfolding d using unique [of k _ e] by auto
    next
      case False
      then show ?thesis unfolding d using whereabouts_iff [OF ok, of e k] Some by auto
    qed
    then have "whereabouts_ok (fst (destroy_cell c m))" unfolding whereabouts_ok_def by blast
    moreover have "ids_below (fst (destroy_cell c m))" using ids Some by (auto simp: ids_below_def destroy_cell_def)
    ultimately show ?thesis by (simp add: DestroyCell) (simp add: destroy_cell_def Some)
  qed
next
  case (PlaceItem c r)
  show ?thesis
  proof (cases "im_cells m c")
    case None
    then show ?thesis using ok ids by (simp add: PlaceItem manager_place_item_def)
  next
    case (Some cell)
    then show ?thesis using same_occupants [OF ok Some cell_ops_occupants(1), of r] ids
      by (cases "cell_place_item r cell") (auto simp: PlaceItem manager_place_item_def ids_below_def)
  qed
next
  case (RemoveItem c i)
  show ?thesis
  proof (cases "im_cells m c")
    case None
    then show ?thesis using ok ids by (simp add: RemoveItem manager_remove_item_def)
  next
    case (Some cell)
    then show ?thesis using same_occupants [OF ok Some cell_ops_occupants(2), of i] ids
      by (cases "cell_remove_item i cell") (auto simp: RemoveItem manager_remove_item_def ids_below_def)
  qed
next
  case (EnterCell e c)
  obtain m1 res where r: "enter_cell e c m = (m1, res)" by fastforce
  have "ids_below m1" using enter_cell_ok [OF ok r] ids unfolding ids_below_def by (metis domIff)
  then show ?thesis using enter_cell_ok [OF ok r] by (simp add: EnterCell r)
next
  case (ExitCell e)
  have "ids_below (leave_cell e m)" using ids by (simp add: ids_below_def leave_cell_tables [OF ok])
  then show ?thesis using leave_cell_ok [OF ok] ok ids
    by (cases "im_entity_locations m e") (simp_all add: ExitCell exit_cell_def leave_cell_tables [OF ok])
qed

definition run_interior :: "InteriorOp list \<Rightarrow> InteriorCellManager \<Rightarrow> InteriorCellManager" where
  "run_interior ops m = fold apply_interior ops m"

lemma run_interior_ok:
  "whereabouts_ok m \<Longrightarrow> ids_below m \<Longrightarrow> unat (im_next_cell_id m) + length ops < 2 ^ 32 \<Longrightarrow> whereabouts_ok (run_interior ops m)"
proof (induction ops arbitrary: m)
  case (Cons op ops)
  from apply_interior_ok [OF Cons.prems(1,2), of op] Cons.prems(3) Cons.IH [of "apply_interior op m"]
  show ?case by (simp add: run_interior_def)
qed (simp add: run_interior_def)

section \<open>The scene manifest\<close>

lemma slice_put_window: "length win = 16 \<Longrightarrow> k + 16 \<le> length buf \<Longrightarrow> slice_put buf k win = take k buf @ win @ drop (k + 16) buf"
  by (simp add: slice_put_def)

lemma write_records_layout:
  "offset + 16 * length rs \<le> length buf \<Longrightarrow>
    write_records rs offset buf =
      (take offset buf @ concat (map record_bytes rs) @ drop (offset + 16 * length rs) buf, Inr (offset + 16 * length rs))"
proof (induction rs arbitrary: offset buf)
  case (Cons r rs)
  have w: "InteriorItemRecord_write_to r (take 16 (drop offset buf)) = (record_bytes r, Inr ())"
    using record_write [of "take 16 (drop offset buf)" r] Cons.prems by simp
  let ?buf = "take offset buf @ record_bytes r @ drop (offset + 16) buf"
  have p: "slice_put buf offset (record_bytes r) = ?buf" using Cons.prems by (intro slice_put_window) simp_all
  have "write_records (r # rs) offset buf = write_records rs (offset + 16) ?buf" by (simp add: w p)
  also have "\<dots> = (take (offset + 16) ?buf @ concat (map record_bytes rs) @ drop (offset + 16 + 16 * length rs) ?buf,
      Inr (offset + 16 + 16 * length rs))"
    using Cons.prems by (intro Cons.IH) simp
  finally show ?case using Cons.prems by (simp add: ac_simps)
qed simp

lemma concat_records: "k < length rs \<Longrightarrow>
    \<exists>behind. drop (16 * k) (concat (map record_bytes rs) @ rest) = record_bytes (rs ! k) @ behind"
proof (induction k arbitrary: rs)
  case 0
  then show ?case by (cases rs) auto
next
  case (Suc k)
  then obtain r rs1 where rs: "rs = r # rs1" by (cases rs) auto
  with Suc obtain behind where "drop (16 * k) (concat (map record_bytes rs1) @ rest) = record_bytes (rs1 ! k) @ behind" by auto
  then show ?case by (auto simp: rs)
qed

section \<open>Properties\<close>

text \<open>
  C31. An entity is in at most one interior cell, and everybody agrees which: starting from a new
  manager, after any sequence of fewer than \<open>2^32 - 1\<close> operations, failed ones included, an entity
  is registered in a cell exactly if the cell exists and has it among its occupants. So a destroyed
  cell leaves no one behind, and entering a cell leaves the previous one.
\<close>
theorem interior_occupancy:
  assumes "length ops + 1 < 2 ^ 32"
  shows "get_entity_cell e (run_interior ops InteriorCellManager_new) = Some c \<longleftrightarrow>
    (\<exists>cell. im_cells (run_interior ops InteriorCellManager_new) c = Some cell \<and> e \<in> ic_occupants cell)"
proof -
  have "whereabouts_ok (run_interior ops InteriorCellManager_new)"
    by (rule run_interior_ok) (use assms in \<open>auto simp: InteriorCellManager_new_def whereabouts_ok_def ids_below_def\<close>)
  then show ?thesis by (simp add: get_entity_cell_def whereabouts_iff)
qed

lemma interior_occupancy_witness:
  "get_entity_cell 7 (run_interior [CreateCell 101 5, CreateCell 102 5, EnterCell 7 1, EnterCell 7 2, DestroyCell 1] InteriorCellManager_new) = Some 2
   \<and> (\<exists>cell. im_cells (run_interior [CreateCell 101 5, CreateCell 102 5, EnterCell 7 1, EnterCell 7 2, DestroyCell 1] InteriorCellManager_new) 2 = Some cell
        \<and> 7 \<in> ic_occupants cell)"
proof -
  have "get_entity_cell 7 (run_interior [CreateCell 101 5, CreateCell 102 5, EnterCell 7 1, EnterCell 7 2, DestroyCell 1] InteriorCellManager_new) = Some 2"
    by code_simp
  then show ?thesis
    using interior_occupancy [of "[CreateCell 101 5, CreateCell 102 5, EnterCell 7 1, EnterCell 7 2, DestroyCell 1]" 7 2] by simp
qed

text \<open>
  The scene manifest of a cell is a faithful copy of its items: a buffer that is long enough
  receives 16 bytes per item, nothing behind them changes, and the record read back from the \<open>k\<close>-th
  window is the \<open>k\<close>-th item in ascending order of instance ids. A shorter buffer is refused and left
  as it was.
\<close>
theorem manifest_roundtrip:
  assumes "im_cells m cell_id = Some cell" and "rs = map snd (RBT.entries (ic_items cell))"
  shows "if 16 * length rs \<le> length out
    then \<exists>buf. build_scene_manifest cell_id out m = (buf, Inr (16 * length rs)) \<and> length buf = length out
      \<and> drop (16 * length rs) buf = drop (16 * length rs) out
      \<and> (\<forall>k<length rs. InteriorItemRecord_read_from (drop (16 * k) buf) = Inr (rs ! k))
    else build_scene_manifest cell_id out m = (out, Inl SnapshotCorrupted)"
proof (cases "16 * length rs \<le> length out")
  case True
  let ?buf = "concat (map record_bytes rs) @ drop (16 * length rs) out"
  have n: "cell_item_count cell = length rs" by (simp add: cell_item_count_def assms(2))
  have "serialize_manifest cell out = (?buf, Inr (16 * length rs))"
    using True write_records_layout [of 0 rs out] n by (simp add: serialize_manifest_def Let_def assms(2) [symmetric])
  then have b: "build_scene_manifest cell_id out m = (?buf, Inr (16 * length rs))"
    by (simp add: build_scene_manifest_def assms(1))
  have l: "length (concat (map record_bytes rs)) = 16 * length rs" by (simp add: length_concat o_def sum_list_triv)
  have "InteriorItemRecord_read_from (drop (16 * k) ?buf) = Inr (rs ! k)" if "k < length rs" for k
    using concat_records [OF that, of "drop (16 * length rs) out"] record_read by auto
  with b l True show ?thesis by auto
next
  case False
  then show ?thesis using assms by (simp add: build_scene_manifest_def serialize_manifest_def cell_item_count_def Let_def)
qed

definition chair :: InteriorItemRecord where
  "chair = \<lparr>ir_item_instance_id = 9, ir_item_type_id = 40, ir_local_x_mm = 1500, ir_local_y_mm = 0, ir_local_z_mm = - 200,
     ir_local_yaw = 64, ir_flags = 1\<rparr>"

definition lamp :: InteriorItemRecord where
  "lamp = \<lparr>ir_item_instance_id = 4, ir_item_type_id = 41, ir_local_x_mm = 10, ir_local_y_mm = 900, ir_local_z_mm = 10,
     ir_local_yaw = 0, ir_flags = 4\<rparr>"

definition furnished :: InteriorCell where
  "furnished = fst (cell_place_item lamp (fst (cell_place_item chair (InteriorCell_new 1 101 5))))"

lemma manifest_roundtrip_witness:
  "\<exists>buf. build_scene_manifest 1 (replicate 40 0) (InteriorCellManager_new\<lparr>im_cells := [1 \<mapsto> furnished]\<rparr>) = (buf, Inr 32)
    \<and> InteriorItemRecord_read_from buf = Inr lamp \<and> InteriorItemRecord_read_from (drop 16 buf) = Inr chair"
proof -
  have e: "map snd (RBT.entries (ic_items furnished)) = [lamp, chair]" by code_simp
  have "im_cells (InteriorCellManager_new\<lparr>im_cells := [1 \<mapsto> furnished]\<rparr>) 1 = Some furnished" by simp
  from manifest_roundtrip [OF this e [symmetric], of "replicate 40 0"]
  obtain buf where b: "build_scene_manifest 1 (replicate 40 0) (InteriorCellManager_new\<lparr>im_cells := [1 \<mapsto> furnished]\<rparr>) = (buf, Inr 32)"
      "\<forall>k<2. InteriorItemRecord_read_from (drop (16 * k) buf) = Inr ([lamp, chair] ! k)"
    by auto
  from b(1) b(2) [rule_format, of 0] b(2) [rule_format, of 1] show ?thesis by auto
qed

end
