(* ===== verification/Rans.thy ===== *)
theory Rans
  imports NetErrors
begin

text \<open>
  The entropy coder of \<^verbatim>\<open>eidolon-net/src/rans.rs\<close>: frequency tables normalised to 256, the streaming
  rANS encoder, which works as a stack, and the decoder that reads the stream from its end. The
  renormalisation loop of the encoder is a partial function, so that encoding returns is part of
  the round-trip theorem.
\<close>

definition RANS_LOWER_BOUND :: u32 where
  "RANS_LOWER_BOUND = push_bit 16 1"

definition RANS_SCALE_BITS :: nat where
  "RANS_SCALE_BITS = 8"

definition RANS_SCALE_SUM :: nat where
  "RANS_SCALE_SUM = 2 ^ RANS_SCALE_BITS"

record RansSymbolTable =
  rt_freqs :: "u16 list"
  rt_cum_freqs :: "u16 list"
  rt_slot_to_symbol :: "u8 list"

section \<open>Building a table\<close>

text \<open>The first entry with the largest value above a bound: its index and the value, or the bound if there is none.\<close>

fun largest :: "nat \<Rightarrow> nat \<Rightarrow> u16 \<Rightarrow> u16 list \<Rightarrow> nat \<times> u16" where
  "largest i max_idx max_val [] = (max_idx, max_val)"
| "largest i max_idx max_val (f # fs) = (if f > max_val then largest (i + 1) i f fs else largest (i + 1) max_idx max_val fs)"

text \<open>The same search among the entries above 1.\<close>

fun largest_above_one :: "nat \<Rightarrow> nat \<Rightarrow> u16 \<Rightarrow> u16 list \<Rightarrow> nat \<times> u16" where
  "largest_above_one i max_idx max_val [] = (max_idx, max_val)"
| "largest_above_one i max_idx max_val (f # fs) =
     (if f > max_val \<and> f > 1 then largest_above_one (i + 1) i f fs else largest_above_one (i + 1) max_idx max_val fs)"

function shrink :: "nat \<Rightarrow> nat \<Rightarrow> u16 list \<Rightarrow> nat \<times> u16 list" where
  "shrink n current_sum freqs =
     (if current_sum > RANS_SCALE_SUM
      then
        (case largest_above_one 0 0 0 (take n freqs) of
           (max_idx, max_val) \<Rightarrow>
             if max_val \<le> 1 then (current_sum, freqs)
             else shrink n (current_sum - 1) (freqs[max_idx := freqs ! max_idx - 1]))
      else (current_sum, freqs))"
  by pat_completeness auto
termination by (relation "measure (\<lambda>(n, s, fs). s)") auto

function expand :: "nat \<Rightarrow> nat \<Rightarrow> u16 list \<Rightarrow> u16 list" where
  "expand n current_sum freqs =
     (if current_sum < RANS_SCALE_SUM
      then
        (case largest 0 0 0 (take n freqs) of
           (max_idx, max_val) \<Rightarrow> expand n (current_sum + 1) (freqs[max_idx := freqs ! max_idx + 1]))
      else freqs)"
  by pat_completeness auto
termination by (relation "measure (\<lambda>(n, s, fs). RANS_SCALE_SUM - s)") auto

declare shrink.simps [simp del] expand.simps [simp del]

text \<open>The running sums, the last of them behind the last entry.\<close>

fun running_sums :: "u16 \<Rightarrow> u16 list \<Rightarrow> u16 list" where
  "running_sums acc [] = [acc]"
| "running_sums acc (f # fs) = acc # running_sums (acc + f) fs"

definition fill :: "nat \<Rightarrow> nat \<Rightarrow> 'a \<Rightarrow> 'a list \<Rightarrow> 'a list" where
  "fill start stop v xs = take start xs @ replicate (stop - start) v @ drop stop xs"

definition fill_symbol :: "u16 list \<Rightarrow> u16 list \<Rightarrow> nat \<Rightarrow> u8 list \<Rightarrow> u8 list" where
  "fill_symbol freqs cum symb slots =
     (let start = min (unat (cum ! symb)) RANS_SCALE_SUM;
          stop = min (start + unat (freqs ! symb)) RANS_SCALE_SUM
      in if start < stop then fill start stop (word_of_nat symb) slots else slots)"

definition scaled_freq :: "u32 \<Rightarrow> u32 \<Rightarrow> u16" where
  "scaled_freq total_raw raw =
     (if raw > 0 then word_of_nat (max ((unat raw * RANS_SCALE_SUM) div unat total_raw) 1) else 0)"

definition from_frequencies :: "u32 list \<Rightarrow> NetError + RansSymbolTable" where
  "from_frequencies raw_freqs =
     (if raw_freqs = [] \<or> length raw_freqs > 256 then Inl CorruptedData
      else
        (let total_raw = sum_list raw_freqs in
         if total_raw = 0 then Inl CorruptedData
         else
           (let n = length raw_freqs;
                scaled = map (scaled_freq total_raw) raw_freqs;
                freqs = scaled @ replicate (256 - n) 0;
                (current_sum, freqs) = shrink n (sum_list (map unat scaled)) freqs;
                freqs = expand n current_sum freqs;
                cum_freqs = running_sums 0 freqs;
                slots = fold (fill_symbol freqs cum_freqs) [0..<n] (replicate RANS_SCALE_SUM 0)
            in Inr \<lparr>rt_freqs = freqs, rt_cum_freqs = cum_freqs, rt_slot_to_symbol = slots\<rparr>)))"

text \<open>The loop over the symbols of a uniform table; the state is the three arrays and the running sum.\<close>

definition uniform_step :: "nat \<Rightarrow> nat \<Rightarrow> nat \<Rightarrow> u16 list \<times> u16 list \<times> u8 list \<times> u16 \<Rightarrow> u16 list \<times> u16 list \<times> u8 list \<times> u16" where
  "uniform_step weight_per_sym remainder i state =
     (case state of (freqs, cum, slots, current_sum) \<Rightarrow>
        let f = word_of_nat weight_per_sym + (if i < remainder then 1 else 0);
            start = unat current_sum;
            stop = min (start + unat f) RANS_SCALE_SUM
        in (freqs[i := f], cum[i := current_sum], fill start stop (word_of_nat i) slots, current_sum + f))"

definition uniform :: "nat \<Rightarrow> RansSymbolTable" where
  "uniform symbol_count =
     (let count = max 1 (min symbol_count 256);
          weight_per_sym = RANS_SCALE_SUM div count;
          remainder = RANS_SCALE_SUM mod count
      in case fold (uniform_step weight_per_sym remainder) [0..<count]
           (replicate 256 0, replicate 257 0, replicate RANS_SCALE_SUM 0, 0) of
           (freqs, cum, slots, current_sum) \<Rightarrow>
             \<lparr>rt_freqs = freqs, rt_cum_freqs = fill count 257 current_sum cum, rt_slot_to_symbol = slots\<rparr>)"

definition mmo_kinematic_tier_table :: RansSymbolTable where
  "mmo_kinematic_tier_table =
     (case from_frequencies [600, 300, 80, 20] of Inr table \<Rightarrow> table | Inl e \<Rightarrow> uniform 4)"

definition mmo_heading_delta_table :: RansSymbolTable where
  "mmo_heading_delta_table =
     (case from_frequencies ((replicate 16 1)[0 := 700, 1 := 100, 15 := 100, 2 := 20, 14 := 20]) of
        Inr table \<Rightarrow> table | Inl e \<Rightarrow> uniform 16)"

section \<open>Encoder\<close>

partial_function (option) emit_bytes :: "u32 \<Rightarrow> u32 \<Rightarrow> u8 list \<Rightarrow> (u32 \<times> u8 list) option" where
  "emit_bytes max_state state out =
     (if state \<ge> max_state then emit_bytes max_state (drop_bit 8 state) (out @ [ucast (state AND 0xFF)])
      else Some (state, out))"

declare emit_bytes.simps [code]

definition put_symbol :: "RansSymbolTable \<Rightarrow> u8 \<Rightarrow> u32 \<times> u8 list \<Rightarrow> (u32 \<times> u8 list) option" where
  "put_symbol table symbol enc =
     (case enc of (state, out) \<Rightarrow>
        let s = unat symbol;
            freq = (ucast (rt_freqs table ! s) :: u32);
            start = (ucast (rt_cum_freqs table ! s) :: u32)
        in if freq = 0 then Some (state, out)
           else
             (let max_state = (RANS_LOWER_BOUND div word_of_nat RANS_SCALE_SUM) * freq * word_of_nat RANS_SCALE_SUM in
              case emit_bytes max_state state out of
                None \<Rightarrow> None
              | Some (state, out) \<Rightarrow>
                  (let q = state div freq; r = state mod freq
                   in Some (push_bit RANS_SCALE_BITS q + r + start, out))))"

text \<open>\<open>to_le_bytes\<close> of the final state, appended.\<close>

definition flush_state :: "u32 \<times> u8 list \<Rightarrow> u8 list" where
  "flush_state enc = snd enc @ rev (be_bytes 4 (unat (fst enc)))"

fun put_all :: "(RansSymbolTable \<times> u8) list \<Rightarrow> u32 \<times> u8 list \<Rightarrow> (u32 \<times> u8 list) option" where
  "put_all [] enc = Some enc"
| "put_all ((table, symb) # rest) enc = (case put_symbol table symb enc of None \<Rightarrow> None | Some enc \<Rightarrow> put_all rest enc)"

definition encode_symbols_forward :: "RansSymbolTable \<Rightarrow> u8 list \<Rightarrow> u8 list \<Rightarrow> u8 list option" where
  "encode_symbols_forward table symbols out =
     map_option flush_state (put_all (map (Pair table) (rev symbols)) (RANS_LOWER_BOUND, out))"

section \<open>Decoder\<close>

record RansDecoder =
  rd_state :: u32
  rd_stream :: "u8 list"
  rd_cursor :: nat

definition RansDecoder_new :: "u8 list \<Rightarrow> NetError + RansDecoder" where
  "RansDecoder_new data =
     (if length data < 4 then Inl (TruncatedPacket 4 (length data))
      else
        (let stream_len = length data - 4;
             state = word_of_nat (from_be (rev (take 4 (drop stream_len data))))
         in Inr \<lparr>rd_state = state, rd_stream = take stream_len data, rd_cursor = stream_len\<rparr>))"

fun consume_bytes :: "u8 list \<Rightarrow> u32 \<Rightarrow> nat \<Rightarrow> u32 \<times> nat" where
  "consume_bytes stream state 0 = (state, 0)"
| "consume_bytes stream state (Suc c) =
     (if state < RANS_LOWER_BOUND
      then consume_bytes stream (push_bit 8 state OR (if c < length stream then ucast (stream ! c) else 0)) c
      else (state, Suc c))"

definition get_symbol :: "RansSymbolTable \<Rightarrow> RansDecoder \<Rightarrow> RansDecoder \<times> u8" where
  "get_symbol table d =
     (let slot = unat (rd_state d AND (word_of_nat RANS_SCALE_SUM - 1));
          symb = rt_slot_to_symbol table ! slot;
          s = unat symb;
          freq = ucast (rt_freqs table ! s);
          start = ucast (rt_cum_freqs table ! s);
          offset = saturating_sub (word_of_nat slot) start;
          state = saturating_add (saturating_mul freq (drop_bit RANS_SCALE_BITS (rd_state d))) offset
      in case consume_bytes (rd_stream d) state (rd_cursor d) of
           (state, cursor) \<Rightarrow> (d\<lparr>rd_state := state, rd_cursor := cursor\<rparr>, symb))"

fun get_all :: "RansSymbolTable list \<Rightarrow> RansDecoder \<Rightarrow> RansDecoder \<times> u8 list" where
  "get_all [] d = (d, [])"
| "get_all (table # rest) d =
     (case get_symbol table d of (d, symb) \<Rightarrow> (case get_all rest d of (d, syms) \<Rightarrow> (d, symb # syms)))"

text \<open>Decoding fills an output slice; the slice is its length before and its content after.\<close>

definition decode_symbols :: "RansSymbolTable \<Rightarrow> u8 list \<Rightarrow> nat \<Rightarrow> NetError + u8 list" where
  "decode_symbols table data out_len =
     (case RansDecoder_new data of
        Inl e \<Rightarrow> Inl e
      | Inr d \<Rightarrow> Inr (snd (get_all (replicate out_len table) d)))"

section \<open>Two interleaved streams\<close>

definition compress_kinematic_stream ::
  "RansSymbolTable \<Rightarrow> RansSymbolTable \<Rightarrow> u8 list \<Rightarrow> u8 list \<Rightarrow> u8 list \<Rightarrow> u8 list option"
where
  "compress_kinematic_stream tier_table heading_table tier_symbols heading_symbols out =
     (if length tier_symbols \<noteq> length heading_symbols then None
      else
        map_option flush_state
          (put_all (concat (map (\<lambda>i. [(heading_table, heading_symbols ! i), (tier_table, tier_symbols ! i)])
             (rev [0..<length tier_symbols]))) (RANS_LOWER_BOUND, out)))"

fun get_pairs :: "RansSymbolTable \<Rightarrow> RansSymbolTable \<Rightarrow> nat \<Rightarrow> RansDecoder \<Rightarrow> u8 list \<times> u8 list" where
  "get_pairs tier_table heading_table 0 d = ([], [])"
| "get_pairs tier_table heading_table (Suc n) d =
     (case get_symbol tier_table d of (d, t) \<Rightarrow>
      case get_symbol heading_table d of (d, h) \<Rightarrow>
      case get_pairs tier_table heading_table n d of (ts, hs) \<Rightarrow> (t # ts, h # hs))"

definition decompress_kinematic_stream ::
  "RansSymbolTable \<Rightarrow> RansSymbolTable \<Rightarrow> u8 list \<Rightarrow> nat \<Rightarrow> NetError + u8 list \<times> u8 list"
where
  "decompress_kinematic_stream tier_table heading_table data n =
     (case RansDecoder_new data of
        Inl e \<Rightarrow> Inl e
      | Inr d \<Rightarrow> Inr (get_pairs tier_table heading_table n d))"

section \<open>One symbol\<close>

text \<open>A symbol has a positive frequency, its range of slots lies in the table and all of them decode to it.\<close>

definition symbol_ok :: "RansSymbolTable \<Rightarrow> u8 \<Rightarrow> bool" where
  "symbol_ok t s \<longleftrightarrow> 0 < unat (rt_freqs t ! unat s) \<and> unat (rt_cum_freqs t ! unat s) + unat (rt_freqs t ! unat s) \<le> 256
     \<and> (\<forall>k. unat (rt_cum_freqs t ! unat s) \<le> k \<and> k < unat (rt_cum_freqs t ! unat s) + unat (rt_freqs t ! unat s)
          \<longrightarrow> rt_slot_to_symbol t ! k = s)"

definition in_range :: "u32 \<Rightarrow> bool" where
  "in_range x \<longleftrightarrow> 2 ^ 16 \<le> unat x \<and> unat x < 2 ^ 24"

lemma scale_simps: "RANS_SCALE_SUM = 256" "unat RANS_LOWER_BOUND = 2 ^ 16" "RANS_LOWER_BOUND = 65536"
  by (simp_all add: RANS_SCALE_SUM_def RANS_SCALE_BITS_def RANS_LOWER_BOUND_def)

text \<open>The arithmetic of a step, on numbers: what the encoder does to the state and how the decoder undoes it.\<close>

lemma step_bounds:
  fixes x f c :: nat
  assumes "0 < f" "c + f \<le> 256" "f * 256 \<le> x" "x < f * 65536"
  shows "2 ^ 16 \<le> x div f * 256 + x mod f + c" "x div f * 256 + x mod f + c < 2 ^ 24"
    "(x div f * 256 + x mod f + c) mod 256 = x mod f + c" "(x div f * 256 + x mod f + c) div 256 = x div f"
proof -
  have r: "x mod f + c < 256" using assms(1,2) mod_less_divisor [of f x] by linarith
  have lo: "256 \<le> x div f" using assms(1,3) by (metis div_le_mono mult.commute nonzero_mult_div_cancel_left not_gr0)
  have hi: "x div f < 65536" using assms(1,4) by (simp add: div_less_iff_less_mult mult.commute)
  show "2 ^ 16 \<le> x div f * 256 + x mod f + c" using lo by simp
  show "x div f * 256 + x mod f + c < 2 ^ 24" using hi r by simp
  show "(x div f * 256 + x mod f + c) mod 256 = x mod f + c" using r by (simp add: add.assoc)
  show "(x div f * 256 + x mod f + c) div 256 = x div f" using r by (simp add: add.assoc)
qed

lemma emit_none: "\<not> state \<ge> m \<Longrightarrow> emit_bytes m state out = Some (state, out)"
  by (subst emit_bytes.simps) simp

lemma emit_one:
  assumes "state \<ge> m" and "\<not> drop_bit 8 state \<ge> m"
  shows "emit_bytes m state out = Some (drop_bit 8 state, out @ [ucast (state AND 0xFF)])"
  using assms by (subst emit_bytes.simps) (simp add: emit_none)

lemma small_nat: "n < 2 ^ 32 \<Longrightarrow> unat (word_of_nat n :: u32) = n"
  by (simp add: unat_of_nat)

lemma unat_widen: "unat (ucast (w :: u16) :: u32) = unat w" "unat (ucast (b :: u8) :: u32) = unat b"
  using unat_less_pow [of w] unat_less_pow [of b] by (simp_all add: unsigned_ucast_eq take_bit_nat_eq_self)

text \<open>The state after the renormalisation, and the bytes it emitted: one or none.\<close>

definition renormalised :: "nat \<Rightarrow> u32 \<Rightarrow> u32" where
  "renormalised f x = (if unat x < f * 65536 then x else drop_bit 8 x)"

definition emitted :: "nat \<Rightarrow> u32 \<Rightarrow> u8 list" where
  "emitted f x = (if unat x < f * 65536 then [] else [ucast (x AND 0xFF)])"

lemma renormalised_bounds:
  assumes "in_range x" "0 < f" "f \<le> 256"
  shows "f * 256 \<le> unat (renormalised f x)" "unat (renormalised f x) < f * 65536"
proof -
  have d: "unat (drop_bit 8 x) = unat x div 256" by (simp add: unat_drop_bit)
  have "unat x div 256 < 65536" using assms(1) by (simp add: in_range_def div_less_iff_less_mult)
  moreover have "(65536 :: nat) \<le> f * 65536" using assms(2) by simp
  ultimately have "unat x div 256 < f * 65536" by linarith
  then show "unat (renormalised f x) < f * 65536" by (simp add: renormalised_def d)
  have "f * 256 \<le> unat x div 256" if "f * 65536 \<le> unat x" using div_le_mono [OF that, of 256] by simp
  moreover have "f * 256 \<le> unat x" using assms(1,3) by (simp add: in_range_def)
  ultimately show "f * 256 \<le> unat (renormalised f x)" by (simp add: renormalised_def d not_less)
qed

lemma emit_bytes_eq:
  assumes "in_range x" "0 < f" "f \<le> 256" and m: "unat m = f * 65536"
  shows "emit_bytes m x out = Some (renormalised f x, out @ emitted f x)"
proof (cases "unat x < f * 65536")
  case True
  then show ?thesis using m by (simp add: emit_none renormalised_def emitted_def word_le_nat_alt)
next
  case False
  then show ?thesis using renormalised_bounds(2) [OF assms(1-3)] m
    by (simp add: emit_one renormalised_def emitted_def word_le_nat_alt)
qed

definition next_state :: "nat \<Rightarrow> nat \<Rightarrow> u32 \<Rightarrow> nat" where
  "next_state f c x = unat (renormalised f x) div f * 256 + unat (renormalised f x) mod f + c"

lemma put_symbol_eq:
  fixes t s
  defines "f \<equiv> unat (rt_freqs t ! unat s)" and "c \<equiv> unat (rt_cum_freqs t ! unat s)"
  assumes ok: "symbol_ok t s" and x: "in_range x"
  shows "put_symbol t s (x, out) = Some (word_of_nat (next_state f c x), out @ emitted f x)"
    and "unat (word_of_nat (next_state f c x) :: u32) = next_state f c x"
    and "in_range (word_of_nat (next_state f c x))"
proof -
  have f: "0 < f" "c + f \<le> 256" "f \<le> 256" using ok by (auto simp: symbol_ok_def f_def c_def)
  let ?freq = "ucast (rt_freqs t ! unat s) :: u32" and ?start = "ucast (rt_cum_freqs t ! unat s) :: u32"
  have uf: "unat ?freq = f" and uc: "unat ?start = c" by (simp_all add: f_def c_def unat_widen)
  let ?m = "(RANS_LOWER_BOUND div word_of_nat RANS_SCALE_SUM) * ?freq * word_of_nat RANS_SCALE_SUM"
  have "?m = word_of_nat (f * 65536)" by (simp add: scale_simps uf [symmetric])
  moreover have "unat (word_of_nat (f * 65536) :: u32) = f * 65536" using f(3) by (intro small_nat) simp
  ultimately have um: "unat ?m = f * 65536" by metis
  let ?y = "renormalised f x"
  note y = renormalised_bounds [OF x f(1,3)]
  note b = step_bounds [OF f(1,2) y]
  show u: "unat (word_of_nat (next_state f c x) :: u32) = next_state f c x"
    using b(2) unfolding next_state_def by (intro small_nat) simp
  show "in_range (word_of_nat (next_state f c x))" using b(1,2) u by (simp add: in_range_def next_state_def)
  have "?freq \<noteq> 0" using uf f(1) by (metis unat_0 less_irrefl)
  moreover have "push_bit RANS_SCALE_BITS (?y div ?freq) + ?y mod ?freq + ?start = word_of_nat (next_state f c x)"
  proof -
    have "?y div ?freq = word_of_nat (unat (?y div ?freq))" "?y mod ?freq = word_of_nat (unat (?y mod ?freq))"
      "?start = word_of_nat (unat ?start)"
      by simp_all
    then have "?y div ?freq = word_of_nat (unat ?y div f)" "?y mod ?freq = word_of_nat (unat ?y mod f)" "?start = word_of_nat c"
      by (simp_all only: unat_div unat_mod uf uc)
    then show ?thesis by (simp add: next_state_def RANS_SCALE_BITS_def push_bit_eq_mult)
  qed
  ultimately show "put_symbol t s (x, out) = Some (word_of_nat (next_state f c x), out @ emitted f x)"
    by (simp add: put_symbol_def Let_def emit_bytes_eq [OF x f(1,3) um])
qed

text \<open>The decoder undoes the step, whatever stands in the stream behind its cursor.\<close>

definition at_state :: "u32 \<Rightarrow> u8 list \<Rightarrow> nat \<Rightarrow> RansDecoder" where
  "at_state x stream cursor = \<lparr>rd_state = x, rd_stream = stream, rd_cursor = cursor\<rparr>"

lemma consume_none: "\<not> x < RANS_LOWER_BOUND \<Longrightarrow> consume_bytes stream x c = (x, c)"
  by (cases c) simp_all

lemma consume_emitted:
  assumes x: "in_range x" and f: "0 < f" and st: "take (length (out @ emitted f x)) stream = out @ emitted f x"
  shows "consume_bytes stream (renormalised f x) (length (out @ emitted f x)) = (x, length out)"
proof (cases "unat x < f * 65536")
  case True
  have "\<not> x < RANS_LOWER_BOUND" using x by (simp add: in_range_def word_less_nat_alt scale_simps)
  then show ?thesis using True by (simp add: renormalised_def emitted_def consume_none)
next
  case False
  let ?b = "ucast (x AND 0xFF) :: u8"
  have e: "emitted f x = [?b]" "renormalised f x = drop_bit 8 x" using False by (simp_all add: emitted_def renormalised_def)
  have len: "length out < length stream" and nth: "stream ! length out = ?b"
  proof -
    have t: "take (Suc (length out)) stream = out @ [?b]" using st e by simp
    from arg_cong [OF t, of length] show "length out < length stream" by simp
    then show "stream ! length out = ?b"
      by (metis t lessI nth_append_length nth_take)
  qed
  have "unat (drop_bit 8 x) < 65536" using x by (simp add: unat_drop_bit in_range_def div_less_iff_less_mult)
  then have lt: "drop_bit 8 x < RANS_LOWER_BOUND" by (simp add: word_less_nat_alt scale_simps)
  have "push_bit 8 (drop_bit 8 x) OR ucast ?b = x"
    by (auto simp: packed_bits bit_simps)
  moreover have "\<not> x < RANS_LOWER_BOUND" using x by (simp add: in_range_def word_less_nat_alt scale_simps)
  ultimately show ?thesis using e len nth lt by (simp add: consume_none)
qed

lemma get_symbol_undoes:
  fixes t s
  defines "f \<equiv> unat (rt_freqs t ! unat s)" and "c \<equiv> unat (rt_cum_freqs t ! unat s)"
  assumes ok: "symbol_ok t s" and x: "in_range x"
    and st: "take (length (out @ emitted f x)) stream = out @ emitted f x"
  shows "get_symbol t (at_state (word_of_nat (next_state f c x)) stream (length (out @ emitted f x))) = (at_state x stream (length out), s)"
proof -
  have f: "0 < f" "c + f \<le> 256" "f \<le> 256" using ok by (auto simp: symbol_ok_def f_def c_def)
  let ?y = "renormalised f x" and ?z = "word_of_nat (next_state f c x) :: u32"
  note y = renormalised_bounds [OF x f(1,3)]
  note b = step_bounds [OF f(1,2) y]
  have uz: "unat ?z = next_state f c x" unfolding f_def c_def by (rule put_symbol_eq(2) [OF ok x])
  have mask: "(word_of_nat RANS_SCALE_SUM - 1 :: u32) = 255" by (simp add: scale_simps)
  have "unat (?z AND 255) = next_state f c x mod 256"
  proof -
    have "?z AND 255 = ?z mod 256" by (simp add: and_mask_take_bit take_bit_eq_mod)
    then have "unat (?z AND 255) = unat ?z mod 256" by (simp only: unat_mod) simp
    then show ?thesis by (simp only: uz)
  qed
  then have slot: "unat (?z AND 255) = unat ?y mod f + c" using b(3) by (simp add: next_state_def)
  have hi: "unat (drop_bit RANS_SCALE_BITS ?z) = unat ?y div f"
    unfolding unat_drop_bit RANS_SCALE_BITS_def uz using b(4) by (simp add: next_state_def)
  have symb: "rt_slot_to_symbol t ! (unat ?y mod f + c) = s"
    using ok mod_less_divisor [OF f(1), of "unat ?y"] unfolding symbol_ok_def f_def [symmetric] c_def [symmetric] by simp
  let ?freq = "ucast (rt_freqs t ! unat s) :: u32" and ?start = "ucast (rt_cum_freqs t ! unat s) :: u32"
  have u: "unat ?freq = f" "unat ?start = c" by (simp_all add: f_def c_def unat_widen)
  have so: "unat (word_of_nat (unat ?y mod f + c) :: u32) = unat ?y mod f + c"
    using mod_less_divisor [OF f(1), of "unat ?y"] f(2) by (intro small_nat) simp
  have yb: "unat ?y < 2 ^ 32" using unat_less_pow [of ?y] by simp
  have mul: "unat (saturating_mul ?freq (drop_bit RANS_SCALE_BITS ?z)) = f * (unat ?y div f)"
  proof -
    have "f * (unat ?y div f) \<le> unat ?y" by (rule times_div_less_eq_dividend)
    then have "min (f * (unat ?y div f)) (2 ^ 32 - 1) = f * (unat ?y div f)" using yb by linarith
    then show ?thesis by (simp only: unat_saturating_mul u hi len_of_numeral_defs) simp
  qed
  have "unat (saturating_add (saturating_mul ?freq (drop_bit RANS_SCALE_BITS ?z)) (saturating_sub (word_of_nat (unat ?y mod f + c)) ?start))
      = min (f * (unat ?y div f) + unat ?y mod f) (2 ^ 32 - 1)"
    by (simp only: unat_saturating_add mul unat_saturating_sub so u) simp
  also have "\<dots> = unat ?y" using yb by simp
  finally have undo: "saturating_add (saturating_mul ?freq (drop_bit RANS_SCALE_BITS ?z))
      (saturating_sub (word_of_nat (unat ?y mod f + c)) ?start) = ?y"
    by (simp add: word_unat_eq_iff)
  show ?thesis
    by (simp add: get_symbol_def at_state_def mask slot symb Let_def undo [unfolded of_nat_add] consume_emitted [OF x f(1) st, unfolded length_append])
qed

section \<open>Whole messages\<close>

lemma put_all_append:
  "put_all (xs @ ys) enc = (case put_all xs enc of None \<Rightarrow> None | Some enc \<Rightarrow> put_all ys enc)"
proof (induction xs arbitrary: enc)
  case (Cons x xs)
  then show ?case by (cases x; cases "put_symbol (fst x) (snd x) enc") auto
qed simp

text \<open>Encoding the message backwards leaves a state from which the decoder reads it forwards, back to where the encoder started.\<close>

lemma coder_inverse:
  assumes "\<forall>(t, s)\<in>set items. symbol_ok t s" and "in_range x0"
  shows "\<exists>x out. put_all (rev items) (x0, out0) = Some (x, out) \<and> in_range x
    \<and> (\<forall>stream. take (length out) stream = out \<longrightarrow>
         take (length out0) stream = out0 \<and> get_all (map fst items) (at_state x stream (length out)) = (at_state x0 stream (length out0), map snd items))"
  using assms(1)
proof (induction items)
  case Nil
  then show ?case using assms(2) by simp
next
  case (Cons e rest)
  obtain t s where e: "e = (t, s)" by fastforce
  obtain x1 out1 where ih: "put_all (rev rest) (x0, out0) = Some (x1, out1)" "in_range x1"
      "\<And>stream. take (length out1) stream = out1 \<Longrightarrow> take (length out0) stream = out0 \<and>
         get_all (map fst rest) (at_state x1 stream (length out1)) = (at_state x0 stream (length out0), map snd rest)"
    using Cons.IH Cons.prems by auto
  have ok: "symbol_ok t s" using Cons.prems e by simp
  let ?f = "unat (rt_freqs t ! unat s)" and ?c = "unat (rt_cum_freqs t ! unat s)"
  let ?x = "word_of_nat (next_state ?f ?c x1) :: u32" and ?out = "out1 @ emitted ?f x1"
  have p: "put_all (rev (e # rest)) (x0, out0) = Some (?x, ?out)"
    by (simp add: e put_all_append ih(1) put_symbol_eq(1) [OF ok ih(2)])
  have d: "take (length out0) stream = out0 \<and>
      get_all (map fst (e # rest)) (at_state ?x stream (length ?out)) = (at_state x0 stream (length out0), map snd (e # rest))"
    if st: "take (length ?out) stream = ?out" for stream
  proof -
    have "take (length out1) stream = out1" using arg_cong [OF st, of "take (length out1)"] by (simp add: min_def)
    from ih(3) [OF this] show ?thesis
      using get_symbol_undoes [OF ok ih(2) st] by (simp add: e)
  qed
  show ?case using p d put_symbol_eq(3) [OF ok ih(2)] by blast
qed

lemma start_in_range: "in_range RANS_LOWER_BOUND"
  by (simp add: in_range_def scale_simps)

lemma new_of_flush: "RansDecoder_new (flush_state (x, out)) = Inr (at_state x out (length out))"
proof -
  have "from_be (be_bytes 4 (unat x)) = unat x" using unat_less_pow [of x] by (intro from_be_be_bytes) simp
  then show ?thesis by (simp add: RansDecoder_new_def flush_state_def at_state_def Let_def)
qed

lemma message_roundtrip:
  assumes "\<forall>s\<in>set symbols. symbol_ok t s"
  shows "\<exists>data. encode_symbols_forward t symbols out = Some data \<and> decode_symbols t data (length symbols) = Inr symbols"
proof -
  let ?items = "map (Pair t) symbols"
  obtain x o1 where c: "put_all (rev ?items) (RANS_LOWER_BOUND, out) = Some (x, o1)"
      "\<And>stream. take (length o1) stream = o1 \<Longrightarrow>
         snd (get_all (map fst ?items) (at_state x stream (length o1))) = map snd ?items"
    using coder_inverse [of ?items, OF _ start_in_range, of out] assms by auto
  have "encode_symbols_forward t symbols out = Some (flush_state (x, o1))"
    using c(1) by (simp add: encode_symbols_forward_def rev_map)
  moreover have "decode_symbols t (flush_state (x, o1)) (length symbols) = Inr symbols"
    using c(2) [of o1] by (simp add: decode_symbols_def new_of_flush o_def map_replicate_const)
  ultimately show ?thesis by blast
qed

text \<open>The interleaved stream is the coding of the pairs in turn.\<close>

definition interleaved :: "RansSymbolTable \<Rightarrow> RansSymbolTable \<Rightarrow> u8 list \<Rightarrow> u8 list \<Rightarrow> (RansSymbolTable \<times> u8) list" where
  "interleaved tt ht ts hs = concat (map (\<lambda>(t, h). [(tt, t), (ht, h)]) (zip ts hs))"

lemma interleaved_rev:
  "length ts = length hs \<Longrightarrow>
    concat (map (\<lambda>i. [(ht, hs ! i), (tt, ts ! i)]) (rev [0..<length ts])) = rev (interleaved tt ht ts hs)"
proof -
  assume l: "length ts = length hs"
  have z: "zip ts hs = map (\<lambda>i. (ts ! i, hs ! i)) [0..<length ts]"
    using l by (intro nth_equalityI) simp_all
  have "rev (concat (map g xs)) = concat (map (\<lambda>i. rev (g i)) (rev xs))" for g :: "nat \<Rightarrow> (RansSymbolTable \<times> u8) list" and xs
    by (induction xs) simp_all
  then show ?thesis by (simp add: interleaved_def z o_def)
qed

lemma get_pairs_interleaved:
  "length ts = length hs \<Longrightarrow> snd (get_all (map fst (interleaved tt ht ts hs)) d) = map snd (interleaved tt ht ts hs)
    \<Longrightarrow> get_pairs tt ht (length ts) d = (ts, hs)"
proof (induction ts hs arbitrary: d rule: list_induct2)
  case (Cons t ts h hs)
  obtain d1 s1 where 1: "get_symbol tt d = (d1, s1)" by fastforce
  obtain d2 s2 where 2: "get_symbol ht d1 = (d2, s2)" by fastforce
  obtain d3 ss where 3: "get_all (map fst (interleaved tt ht ts hs)) d2 = (d3, ss)" by fastforce
  have "s1 = t" "s2 = h" "ss = map snd (interleaved tt ht ts hs)"
    using Cons.prems 1 2 3 by (simp_all add: interleaved_def)
  with Cons.IH [of d2] 1 2 3 show ?case by simp
qed simp

lemma kinematic_roundtrip:
  assumes l: "length ts = length hs" and ok: "\<forall>s\<in>set ts. symbol_ok tt s" "\<forall>s\<in>set hs. symbol_ok ht s"
  shows "\<exists>data. compress_kinematic_stream tt ht ts hs out = Some data \<and> decompress_kinematic_stream tt ht data (length ts) = Inr (ts, hs)"
proof -
  let ?items = "interleaved tt ht ts hs"
  have "\<forall>(t, s)\<in>set ?items. symbol_ok t s"
    using ok by (auto simp: interleaved_def dest: set_zip_leftD set_zip_rightD)
  then obtain x o1 where c: "put_all (rev ?items) (RANS_LOWER_BOUND, out) = Some (x, o1)"
      "\<And>stream. take (length o1) stream = o1 \<Longrightarrow> snd (get_all (map fst ?items) (at_state x stream (length o1))) = map snd ?items"
    using coder_inverse [of ?items, OF _ start_in_range, of out] by auto
  have "compress_kinematic_stream tt ht ts hs out = Some (flush_state (x, o1))"
    unfolding compress_kinematic_stream_def interleaved_rev [OF l] using l c(1) by simp
  moreover have "decompress_kinematic_stream tt ht (flush_state (x, o1)) (length ts) = Inr (ts, hs)"
    using get_pairs_interleaved [OF l c(2) [of o1]] by (simp add: decompress_kinematic_stream_def new_of_flush)
  ultimately show ?thesis by blast
qed

section \<open>Normalised tables\<close>

lemma largest_spec:
  "largest i mi mv fs = (k, v) \<Longrightarrow>
    mv \<le> v \<and> (\<forall>f\<in>set fs. f \<le> v) \<and> (k = mi \<and> v = mv \<or> i \<le> k \<and> k < i + length fs \<and> fs ! (k - i) = v)"
proof (induction fs arbitrary: i mi mv)
  case (Cons f fs)
  show ?case
  proof (cases "f > mv")
    case True
    then have "largest (i + 1) i f fs = (k, v)" using Cons.prems by simp
    from Cons.IH [OF this] True show ?thesis
      by (auto simp: nth_Cons')
  next
    case False
    then have "largest (i + 1) mi mv fs = (k, v)" using Cons.prems by simp
    from Cons.IH [OF this] False show ?thesis by (auto simp: nth_Cons' not_less)
  qed
qed simp

lemma largest_above_one_spec:
  "largest_above_one i mi mv fs = (k, v) \<Longrightarrow>
    mv \<le> v \<and> (\<forall>f\<in>set fs. f \<le> v \<or> f \<le> 1) \<and> (k = mi \<and> v = mv \<or> i \<le> k \<and> k < i + length fs \<and> fs ! (k - i) = v)"
proof (induction fs arbitrary: i mi mv)
  case (Cons f fs)
  show ?case
  proof (cases "f > mv \<and> f > 1")
    case True
    then have "largest_above_one (i + 1) i f fs = (k, v)" using Cons.prems by simp
    from Cons.IH [OF this] True show ?thesis by (auto simp: nth_Cons')
  next
    case False
    then have r: "largest_above_one (i + 1) mi mv fs = (k, v)" using Cons.prems by (simp split: if_splits)
    have "f \<le> mv \<or> f \<le> 1" using False by (auto simp: not_less)
    with Cons.IH [OF r] show ?thesis by (auto simp: nth_Cons' intro: order_trans)
  qed
qed simp

text \<open>The frequencies while they are adjusted: positive exactly where the weights are, zero behind them, and their sum.\<close>

definition freqs_ok :: "u32 list \<Rightarrow> nat \<Rightarrow> u16 list \<Rightarrow> bool" where
  "freqs_ok raw tot freqs \<longleftrightarrow> length freqs = 256 \<and> sum_list (map unat freqs) = tot
     \<and> (\<forall>i<256. 0 < freqs ! i \<longleftrightarrow> i < length raw \<and> 0 < raw ! i)"

lemma freqs_ok_update:
  assumes "freqs_ok raw tot freqs" and "k < 256" "0 < freqs ! k" "0 < v" and "tot + unat v = new + unat (freqs ! k)"
  shows "freqs_ok raw new (freqs[k := v])"
proof -
  have "sum_list (map unat (freqs[k := v])) + unat (freqs ! k) = tot + unat v"
    using sum_list_map_update [of k freqs unat v] assms(1,2) by (simp add: freqs_ok_def)
  then show ?thesis using assms by (auto simp: freqs_ok_def nth_list_update)
qed

lemma sum_list_all_zero: "\<forall>f\<in>set fs. g f = 0 \<Longrightarrow> sum_list (map g fs) = (0 :: nat)"
  by (induction fs) simp_all

lemma sum_list_at_most_ones: "\<forall>f\<in>set fs. g f \<le> 1 \<Longrightarrow> sum_list (map g fs) \<le> length fs"
proof (induction fs)
  case (Cons f fs)
  then have "g f \<le> 1" "sum_list (map g fs) \<le> length fs" by simp_all
  then show ?case by (simp only: list.map sum_list.Cons list.size)
qed simp

lemma freqs_ok_sum_take:
  assumes "freqs_ok raw tot freqs" and "length raw \<le> 256"
  shows "sum_list (map unat (take (length raw) freqs)) = tot"
proof -
  have "unat f = 0" if "f \<in> set (drop (length raw) freqs)" for f
  proof -
    obtain j where j: "j < length (drop (length raw) freqs)" "f = drop (length raw) freqs ! j"
      using \<open>f \<in> set (drop (length raw) freqs)\<close> by (metis in_set_conv_nth)
    then have "f = freqs ! (length raw + j)" "length raw + j < 256" using assms(1) by (simp_all add: freqs_ok_def)
    then have "\<not> 0 < f" using assms(1) by (simp add: freqs_ok_def)
    then show ?thesis by (simp add: word_neq_0_conv [symmetric])
  qed
  then have z: "sum_list (map unat (drop (length raw) freqs)) = 0" by (intro sum_list_all_zero) simp
  have "sum_list (map unat freqs) = sum_list (map unat (take (length raw) freqs)) + sum_list (map unat (drop (length raw) freqs))"
    by (metis append_take_drop_id map_append sum_list_append)
  then show ?thesis using assms(1) by (simp add: z freqs_ok_def)
qed

lemma shrink_ok:
  "freqs_ok raw s freqs \<Longrightarrow> n = length raw \<Longrightarrow> n \<le> 256 \<Longrightarrow> shrink n s freqs = (s1, freqs1) \<Longrightarrow>
    freqs_ok raw s1 freqs1 \<and> s1 \<le> 256"
proof (induction n s freqs rule: shrink.induct)
  case (1 n s freqs)
  show ?case
  proof (cases "s > RANS_SCALE_SUM")
    case False
    then have "shrink n s freqs = (s, freqs)" by (subst shrink.simps) simp
    with False "1.prems"(1,4) show ?thesis by (simp add: scale_simps)
  next
    case True
    obtain k v where kv: "largest_above_one 0 0 0 (take n freqs) = (k, v)" by fastforce
    note sp = largest_above_one_spec [OF kv]
    have sum: "sum_list (map unat (take n freqs)) = s" using freqs_ok_sum_take "1.prems"(1-3) by simp
    have v1: "\<not> v \<le> 1"
    proof
      assume v: "v \<le> 1"
      have "unat f \<le> 1" if "f \<in> set (take n freqs)" for f
      proof -
        have "f \<le> v \<or> f \<le> 1" using sp that by blast
        then have "f \<le> 1" using v by (auto intro: order_trans)
        then show ?thesis by (simp add: word_le_nat_alt)
      qed
      then have "sum_list (map unat (take n freqs)) \<le> length (take n freqs)"
        by (intro sum_list_at_most_ones) blast
      then show False using sum True "1.prems"(3) by (simp add: scale_simps)
    qed
    then have k: "k < length (take n freqs)" "take n freqs ! k = v" using sp by auto
    then have k2: "k < 256" "freqs ! k = v" using "1.prems"(1) by (simp_all add: freqs_ok_def)
    have v2: "1 < unat v" using v1 by (simp add: word_le_nat_alt)
    then have "v \<noteq> 0" by (metis not_less_zero unat_0)
    then have uv: "unat (v - 1) = unat v - 1" by (rule unat_minus_one)
    have "freqs_ok raw (s - 1) (freqs[k := freqs ! k - 1])"
    proof (subst k2(2), rule freqs_ok_update [OF "1.prems"(1) k2(1)])
      show "0 < freqs ! k" using v2 k2(2) by (simp add: word_less_nat_alt)
      show "0 < v - 1" using v2 uv by (simp only: word_less_nat_alt unat_0)
      show "s + unat (v - 1) = s - 1 + unat (freqs ! k)" using uv v2 True k2(2) by simp
    qed
    moreover have "shrink n (s - 1) (freqs[k := freqs ! k - 1]) = (s1, freqs1)"
      using "1.prems"(4) True v1 kv by (subst (asm) shrink.simps) simp
    ultimately show ?thesis using "1.IH" [OF True kv [symmetric] v1] "1.prems"(2,3) by simp
  qed
qed

lemma unat_plus_one_16: "unat (v :: u16) < 2 ^ 16 - 1 \<Longrightarrow> unat (v + 1) = unat v + 1"
  by (simp add: unat_word_ariths)

lemma member_le_sum: "i < length fs \<Longrightarrow> g (fs ! i) \<le> (sum_list (map g fs) :: nat)"
proof (induction fs arbitrary: i)
  case (Cons f fs)
  then show ?case by (cases i) (auto intro: trans_le_add2)
qed simp

lemma expand_ok:
  "freqs_ok raw s freqs \<Longrightarrow> n = length raw \<Longrightarrow> n \<le> 256 \<Longrightarrow> s \<le> 256 \<Longrightarrow> \<exists>r\<in>set raw. 0 < r \<Longrightarrow>
    freqs_ok raw 256 (expand n s freqs)"
proof (induction n s freqs rule: expand.induct)
  case (1 n s freqs)
  show ?case
  proof (cases "s < RANS_SCALE_SUM")
    case False
    then have "expand n s freqs = freqs" by (subst expand.simps) simp
    then show ?thesis using "1.prems" False by (simp add: scale_simps)
  next
    case True
    obtain k v where kv: "largest 0 0 0 (take n freqs) = (k, v)" by fastforce
    note sp = largest_spec [OF kv]
    obtain i where i: "i < n" "0 < raw ! i" using "1.prems"(2,5) by (metis in_set_conv_nth)
    then have "0 < freqs ! i" "freqs ! i \<in> set (take n freqs)"
      using "1.prems"(1-3) by (auto simp: freqs_ok_def in_set_conv_nth intro!: exI [of _ i])
    then have v: "0 < v" using sp by (auto intro: order.strict_trans2)
    then have "k < length (take n freqs)" "take n freqs ! k = v" using sp by auto
    then have k: "k < 256" "freqs ! k = v" "k < length freqs" using "1.prems"(1) by (simp_all add: freqs_ok_def)
    have "unat v \<le> s" using member_le_sum [OF k(3), of unat] k(2) "1.prems"(1) by (simp add: freqs_ok_def)
    then have uv: "unat (v + 1) = unat v + 1" using "1.prems"(4) by (intro unat_plus_one_16) simp
    have "0 < v + 1" using uv by (simp add: word_less_nat_alt)
    then have "freqs_ok raw (s + 1) (freqs[k := freqs ! k + 1])"
      using freqs_ok_update [OF "1.prems"(1) k(1), of "v + 1" "s + 1"] k(2) uv v by simp
    moreover have "expand n s freqs = expand n (s + 1) (freqs[k := freqs ! k + 1])"
      using True kv by (subst expand.simps) simp
    ultimately show ?thesis using "1.IH" [OF True kv [symmetric]] "1.prems"(2-5) True by (simp add: scale_simps)
  qed
qed

lemma running_sums_nth:
  "i \<le> length fs \<Longrightarrow> unat acc + sum_list (map unat fs) < 2 ^ 16 \<Longrightarrow>
    unat (running_sums acc fs ! i) = unat acc + sum_list (map unat (take i fs))"
proof (induction fs arbitrary: acc i)
  case (Cons f fs)
  have u: "unat (acc + f) = unat acc + unat f" using Cons.prems(2) by (intro unat_plus_simple [THEN iffD1]) (simp add: no_olen_add_nat)
  show ?case
  proof (cases i)
    case (Suc j)
    then show ?thesis using Cons.IH [of j "acc + f"] Cons.prems u by simp
  qed simp
qed simp

lemma length_running_sums [simp]: "length (running_sums acc fs) = Suc (length fs)"
  by (induction fs arbitrary: acc) simp_all

lemma fill_nth:
  "start \<le> stop \<Longrightarrow> stop \<le> length xs \<Longrightarrow> k < length xs \<Longrightarrow>
    fill start stop v xs ! k = (if start \<le> k \<and> k < stop then v else xs ! k)"
  by (auto simp: fill_def nth_append)

lemma length_fill [simp]: "start \<le> stop \<Longrightarrow> stop \<le> length xs \<Longrightarrow> length (fill start stop v xs) = length xs"
  by (simp add: fill_def)

text \<open>Symbol by symbol, the slots of the interval of each frequency.\<close>

lemma fill_symbols:
  assumes f: "length freqs = 256" "sum_list (map unat freqs) = 256" and cum: "cum = running_sums 0 freqs" and n: "n \<le> 256"
  shows "length (fold (fill_symbol freqs cum) [0..<n] (replicate 256 0)) = 256
    \<and> (\<forall>i<n. \<forall>k. unat (cum ! i) \<le> k \<and> k < unat (cum ! i) + unat (freqs ! i) \<longrightarrow>
         fold (fill_symbol freqs cum) [0..<n] (replicate 256 0) ! k = word_of_nat i)"
  using n
proof (induction n)
  case (Suc n)
  let ?before = "fold (fill_symbol freqs cum) [0..<n] (replicate 256 0)"
  have at: "unat (cum ! i) = sum_list (map unat (take i freqs))" if "i \<le> 256" for i
    using running_sums_nth [of i freqs 0] f that by (simp add: cum)
  have step: "unat (cum ! i) + unat (freqs ! i) = unat (cum ! Suc i)" if "i < 256" for i
    using that f(1) by (simp add: at take_Suc_conv_app_nth)
  have mono: "unat (cum ! i) \<le> unat (cum ! j)" if "i \<le> j" "j \<le> 256" for i j
  proof -
    have "take j freqs = take i freqs @ drop i (take j freqs)"
      using that by (metis append_take_drop_id min.absorb1 take_take)
    then have "sum_list (map unat (take j freqs)) = sum_list (map unat (take i freqs)) + sum_list (map unat (drop i (take j freqs)))"
      by (metis map_append sum_list_append)
    then show ?thesis using that by (simp add: at)
  qed
  have top: "unat (cum ! 256) = 256" using f at [of 256] by simp
  have b: "unat (cum ! n) + unat (freqs ! n) \<le> 256" using step [of n] mono [of "Suc n" 256] top Suc.prems by simp
  have now: "fold (fill_symbol freqs cum) [0..<Suc n] (replicate 256 0)
      = fill (unat (cum ! n)) (unat (cum ! n) + unat (freqs ! n)) (word_of_nat n) ?before"
    using b by (cases "unat (freqs ! n) = 0") (simp_all add: fill_symbol_def Let_def scale_simps fill_def)
  have ih: "length ?before = 256" "\<And>i k. i < n \<Longrightarrow> unat (cum ! i) \<le> k \<Longrightarrow> k < unat (cum ! i) + unat (freqs ! i) \<Longrightarrow> ?before ! k = word_of_nat i"
    using Suc.IH Suc.prems by simp_all
  have "fill (unat (cum ! n)) (unat (cum ! n) + unat (freqs ! n)) (word_of_nat n) ?before ! k = word_of_nat i"
    if i: "i < Suc n" and k: "unat (cum ! i) \<le> k" "k < unat (cum ! i) + unat (freqs ! i)" for i k
  proof -
    have k2: "k < 256" using k(2) step [of i] mono [of "Suc i" 256] top i Suc.prems by simp
    show ?thesis
    proof (cases "i = n")
      case True
      then show ?thesis using k k2 b ih(1) by (simp add: fill_nth)
    next
      case False
      then have "k < unat (cum ! n)" using k(2) step [of i] mono [of "Suc i" n] i Suc.prems by simp
      then show ?thesis using k k2 b ih i False by (simp add: fill_nth)
    qed
  qed
  then show ?case using b ih(1) unfolding now by simp
qed simp

text \<open>The initial scaling, when the weights fit the 32-bit sum.\<close>

lemma scaled_freq_bounds:
  assumes "unat raw \<le> unat tot" and "0 < unat tot"
  shows "unat (scaled_freq tot raw) \<le> 256" and "0 < scaled_freq tot raw \<longleftrightarrow> 0 < raw"
proof -
  let ?v = "max (unat raw * 256 div unat tot) 1"
  have "unat raw * 256 div unat tot \<le> unat tot * 256 div unat tot" using assms(1) by (intro div_le_mono) simp
  also have "\<dots> = 256" using assms(2) by simp
  finally have le: "?v \<le> 256" by simp
  then have u: "unat (word_of_nat ?v :: u16) = ?v" by (simp add: unat_of_nat)
  show "unat (scaled_freq tot raw) \<le> 256" using le u by (simp add: scaled_freq_def scale_simps)
  have "0 < (word_of_nat ?v :: u16)" using u by (simp only: word_less_nat_alt unat_0)
  then show "0 < scaled_freq tot raw \<longleftrightarrow> 0 < raw" by (simp add: scaled_freq_def scale_simps)
qed

lemma unat_sum_list: "sum_list (map unat ws) < 2 ^ 32 \<Longrightarrow> unat (sum_list (ws :: u32 list)) = sum_list (map unat ws)"
proof (induction ws)
  case (Cons w ws)
  then have "unat (sum_list ws) = sum_list (map unat ws)" by simp
  then show ?case using Cons.prems by (simp add: unat_word_ariths)
qed simp

lemma sum_list_replicate_zero [simp]: "sum_list (map unat (replicate n (0 :: u16))) = 0"
  by (induction n) simp_all

lemma initial_freqs_ok:
  assumes "length raw \<le> 256" and "sum_list (map unat raw) < 2 ^ 32" and "0 < sum_list (map unat raw)"
  shows "freqs_ok raw (sum_list (map unat (map (scaled_freq (sum_list raw)) raw)))
    (map (scaled_freq (sum_list raw)) raw @ replicate (256 - length raw) 0)"
proof -
  have "0 < scaled_freq (sum_list raw) (raw ! i) \<longleftrightarrow> 0 < raw ! i" if "i < length raw" for i
    using member_le_sum [OF that, of unat] assms(2,3) by (intro scaled_freq_bounds(2)) (simp_all add: unat_sum_list)
  then show ?thesis using assms(1) by (auto simp: freqs_ok_def nth_append)
qed

text \<open>What a normalised table is: the frequencies of exactly the weighted symbols are positive, they sum to 256, and the slots invert them.\<close>

definition table_for :: "u32 list \<Rightarrow> RansSymbolTable \<Rightarrow> bool" where
  "table_for raw t \<longleftrightarrow> freqs_ok raw 256 (rt_freqs t) \<and> rt_cum_freqs t = running_sums 0 (rt_freqs t)
     \<and> (\<forall>i<length raw. \<forall>k. unat (rt_cum_freqs t ! i) \<le> k \<and> k < unat (rt_cum_freqs t ! i) + unat (rt_freqs t ! i) \<longrightarrow>
          rt_slot_to_symbol t ! k = word_of_nat i)"

lemma from_frequencies_table:
  assumes "raw \<noteq> []" "length raw \<le> 256" and "sum_list (map unat raw) < 2 ^ 32" and "0 < sum_list (map unat raw)"
  shows "\<exists>t. from_frequencies raw = Inr t \<and> table_for raw t"
proof -
  let ?scaled = "map (scaled_freq (sum_list raw)) raw"
  obtain s1 f1 where s: "shrink (length raw) (sum_list (map unat ?scaled)) (?scaled @ replicate (256 - length raw) 0) = (s1, f1)"
    by fastforce
  have 1: "freqs_ok raw s1 f1" "s1 \<le> 256"
    using shrink_ok [OF initial_freqs_ok [OF assms(2-4)] refl assms(2) s] by simp_all
  let ?f = "expand (length raw) s1 f1"
  have pos: "\<exists>r\<in>set raw. 0 < r"
  proof (rule ccontr)
    assume "\<not> ?thesis"
    then have "\<forall>r\<in>set raw. unat r = 0" by (auto simp: word_neq_0_conv [symmetric])
    then have "sum_list (map unat raw) = 0" by (rule sum_list_all_zero)
    with assms(4) show False by simp
  qed
  have 2: "freqs_ok raw 256 ?f" by (rule expand_ok [OF 1(1) refl assms(2) 1(2) pos])
  then have len: "length ?f = 256" "sum_list (map unat ?f) = 256" by (simp_all add: freqs_ok_def)
  have "sum_list raw \<noteq> 0" using unat_sum_list [OF assms(3)] assms(4) by (metis less_irrefl unat_0)
  then have "from_frequencies raw = Inr \<lparr>rt_freqs = ?f, rt_cum_freqs = running_sums 0 ?f,
      rt_slot_to_symbol = fold (fill_symbol ?f (running_sums 0 ?f)) [0..<length raw] (replicate 256 0)\<rparr>"
    using assms(1,2) s by (simp add: from_frequencies_def Let_def scale_simps)
  moreover have "table_for raw \<lparr>rt_freqs = ?f, rt_cum_freqs = running_sums 0 ?f,
      rt_slot_to_symbol = fold (fill_symbol ?f (running_sums 0 ?f)) [0..<length raw] (replicate 256 0)\<rparr>"
    using 2 fill_symbols [OF len refl assms(2)] by (simp add: table_for_def)
  ultimately show ?thesis by blast
qed

lemma table_for_symbol_ok:
  assumes t: "table_for raw t" and n: "length raw \<le> 256" and s: "unat s < length raw" "0 < raw ! unat s"
  shows "symbol_ok t s"
proof -
  let ?f = "rt_freqs t" and ?i = "unat s"
  have f: "length ?f = 256" "sum_list (map unat ?f) = 256" "?i < 256" "0 < ?f ! ?i"
    using t s n by (simp_all add: table_for_def freqs_ok_def)
  have c: "unat (rt_cum_freqs t ! i) = sum_list (map unat (take i ?f))" if "i \<le> 256" for i
    using running_sums_nth [of i ?f 0] f that t by (simp add: table_for_def)
  have "unat (rt_cum_freqs t ! ?i) + unat (?f ! ?i) = sum_list (map unat (take (Suc ?i) ?f))"
    using f by (simp add: c take_Suc_conv_app_nth)
  also have "\<dots> \<le> sum_list (map unat (take (Suc ?i) ?f)) + sum_list (map unat (drop (Suc ?i) ?f))" by simp
  also have "\<dots> = 256" using f(2) by (metis append_take_drop_id map_append sum_list_append)
  finally show ?thesis using t s f(4) by (simp add: symbol_ok_def table_for_def word_less_nat_alt)
qed

section \<open>Properties\<close>

text \<open>A symbol without weight leaves no trace in the stream.\<close>

lemma zero_frequency_dropped:
  assumes "table_for raw t" and "raw ! unat s = 0 \<or> length raw \<le> unat s"
  shows "put_symbol t s enc = Some enc"
proof -
  have "unat s < 256" using unat_less_pow [of s] by simp
  then have "\<not> 0 < rt_freqs t ! unat s" using assms by (auto simp: table_for_def freqs_ok_def)
  then have "rt_freqs t ! unat s = 0" by (simp add: word_neq_0_conv [symmetric])
  then show ?thesis by (cases enc) (simp add: put_symbol_def)
qed

text \<open>C32. A message over the symbols of positive weight survives coding with the table built from the
  weights: the encoder returns, and the decoder reads the same symbols in the same order.\<close>

theorem rans_roundtrip:
  assumes "length raw \<le> 256" and "sum_list (map unat raw) < 2 ^ 32"
    and "\<forall>s\<in>set symbols. unat s < length raw \<and> 0 < raw ! unat s" and "symbols \<noteq> []"
  shows "\<exists>t data. from_frequencies raw = Inr t \<and> encode_symbols_forward t symbols out = Some data
    \<and> decode_symbols t data (length symbols) = Inr symbols"
proof -
  have s: "unat (last symbols) < length raw" "0 < raw ! unat (last symbols)"
    using bspec [OF assms(3) last_in_set [OF assms(4)]] by simp_all
  have "unat (raw ! unat (last symbols)) \<le> sum_list (map unat raw)" by (rule member_le_sum [OF s(1)])
  moreover have "0 < unat (raw ! unat (last symbols))" using s(2) by (simp only: word_less_nat_alt unat_0)
  ultimately have "0 < sum_list (map unat raw)" by linarith
  moreover have "raw \<noteq> []" using s(1) by (cases raw) simp_all
  ultimately obtain t where t: "from_frequencies raw = Inr t" "table_for raw t"
    using from_frequencies_table [of raw] assms(1,2) by metis
  have "\<forall>s\<in>set symbols. symbol_ok t s" using table_for_symbol_ok [OF t(2) assms(1)] assms(3) by blast
  from message_roundtrip [OF this] t(1) show ?thesis by blast
qed

theorem rans_roundtrip_witness:
  "\<exists>t data. from_frequencies [600, 300, 80, 20] = Inr t \<and> encode_symbols_forward t [0, 1, 0, 2, 3, 0] [] = Some data
    \<and> decode_symbols t data (length [0, 1, 0, 2, 3, 0 :: u8]) = Inr [0, 1, 0, 2, 3, 0]"
  by (rule rans_roundtrip) simp_all

text \<open>Normalisation: from at most 256 weights, not all zero, whose sum fits 32 bits, the frequencies of
  the table are positive exactly at the positive weights and sum to 256.\<close>

theorem normalised_frequencies:
  assumes "raw \<noteq> []" and "length raw \<le> 256" and "sum_list (map unat raw) < 2 ^ 32" and "0 < sum_list (map unat raw)"
  shows "\<exists>t. from_frequencies raw = Inr t \<and> sum_list (map unat (rt_freqs t)) = 256
    \<and> (\<forall>i<256. 0 < rt_freqs t ! i \<longleftrightarrow> i < length raw \<and> 0 < raw ! i)"
  using from_frequencies_table [OF assms] by (auto simp: table_for_def freqs_ok_def)

theorem normalised_frequencies_witness:
  "\<exists>t. from_frequencies [600, 300, 80, 20, 0] = Inr t \<and> sum_list (map unat (rt_freqs t)) = 256
    \<and> (\<forall>i<256. 0 < rt_freqs t ! i \<longleftrightarrow> i < length [600, 300, 80, 20, 0 :: u32] \<and> 0 < [600, 300, 80, 20, 0 :: u32] ! i)"
  by (rule normalised_frequencies) simp_all

end
