(* ===== verification/Party.thy ===== *)
theory Party
  imports FixedPoint WorldErrors
begin

text \<open>
  Parties (\<^verbatim>\<open>eidolon-world/src/party.rs\<close>): groups of at most eight members with a leader, the
  manager's three tables (parties, the party of an account, pending invitations), and the party
  command of the server facade (\<^verbatim>\<open>eidolon-server/src/facade.rs\<close>) that drives them. The tables are
  hash maps that are only looked up, so they are maps here.
\<close>

section \<open>A party\<close>

definition MAX_GROUP_MEMBERS :: nat where
  "MAX_GROUP_MEMBERS = 8"

record PartyMember =
  pm_account_id :: u64
  pm_entity_id :: u32
  pm_name :: string
  pm_health :: u32
  pm_max_health :: u32
  pm_mana :: u32
  pm_max_mana :: u32
  pm_position :: Vec3Fix

record Party =
  pa_party_id :: u64
  pa_leader_account_id :: u64
  pa_members :: "PartyMember list"

definition Party_new :: "u64 \<Rightarrow> PartyMember \<Rightarrow> Party" where
  "Party_new party_id leader =
     \<lparr>pa_party_id = party_id, pa_leader_account_id = pm_account_id leader, pa_members = [leader]\<rparr>"

definition is_member :: "Party \<Rightarrow> u64 \<Rightarrow> bool" where
  "is_member party account_id \<longleftrightarrow> list_ex (\<lambda>m. pm_account_id m = account_id) (pa_members party)"

definition is_leader :: "Party \<Rightarrow> u64 \<Rightarrow> bool" where
  "is_leader party account_id \<longleftrightarrow> pa_leader_account_id party = account_id"

definition add_member :: "PartyMember \<Rightarrow> Party \<Rightarrow> Party \<times> (WorldError + unit)" where
  "add_member member party =
     (if length (pa_members party) \<ge> MAX_GROUP_MEMBERS then (party, Inl (TransactionAborted ''Party is full''))
      else if is_member party (pm_account_id member) then (party, Inl (TransactionAborted ''Player already in party''))
      else (party\<lparr>pa_members := pa_members party @ [member]\<rparr>, Inr ()))"

text \<open>The result tells whether the party is empty.\<close>

definition remove_member :: "u64 \<Rightarrow> Party \<Rightarrow> Party \<times> (WorldError + bool)" where
  "remove_member account_id party =
     (case find_index (\<lambda>m. pm_account_id m = account_id) (pa_members party) of
        None \<Rightarrow> (party, Inl (TransactionAborted ''Player not in party''))
      | Some pos \<Rightarrow>
          (let members = take pos (pa_members party) @ drop (Suc pos) (pa_members party);
               party = party\<lparr>pa_members := members\<rparr>
           in if members = [] then (party, Inr True)
              else if pa_leader_account_id party = account_id
              then (party\<lparr>pa_leader_account_id := pm_account_id (members ! 0)\<rparr>, Inr False)
              else (party, Inr False)))"

definition promote_leader :: "u64 \<Rightarrow> Party \<Rightarrow> Party \<times> (WorldError + unit)" where
  "promote_leader new_leader_id party =
     (if \<not> is_member party new_leader_id then (party, Inl (TransactionAborted ''Player not in party''))
      else (party\<lparr>pa_leader_account_id := new_leader_id\<rparr>, Inr ()))"

definition update_member_vitals :: "u64 \<Rightarrow> u32 \<Rightarrow> u32 \<Rightarrow> Vec3Fix \<Rightarrow> Party \<Rightarrow> Party" where
  "update_member_vitals account_id health mana position party =
     (case find_index (\<lambda>m. pm_account_id m = account_id) (pa_members party) of
        None \<Rightarrow> party
      | Some i \<Rightarrow> party\<lparr>pa_members := (pa_members party)[i := (pa_members party ! i)
          \<lparr>pm_health := health, pm_mana := mana, pm_position := position\<rparr>]\<rparr>)"

section \<open>The manager\<close>

record PartyManager =
  pg_next_party_id :: u64
  pg_parties :: "u64 \<rightharpoonup> Party"
  pg_account_to_party :: "u64 \<rightharpoonup> u64"
  pg_pending_invites :: "u64 \<rightharpoonup> u64"

definition PartyManager_new :: PartyManager where
  "PartyManager_new = \<lparr>pg_next_party_id = 1, pg_parties = Map.empty, pg_account_to_party = Map.empty, pg_pending_invites = Map.empty\<rparr>"

definition create_party :: "PartyMember \<Rightarrow> PartyManager \<Rightarrow> PartyManager \<times> (WorldError + u64)" where
  "create_party leader m =
     (let leader_id = pm_account_id leader in
      if pg_account_to_party m leader_id \<noteq> None then (m, Inl (TransactionAborted ''Player already in a party''))
      else
        (let pid = pg_next_party_id m in
         (m\<lparr>pg_next_party_id := pg_next_party_id m + 1,
            pg_parties := (pg_parties m)(pid \<mapsto> Party_new pid leader),
            pg_account_to_party := (pg_account_to_party m)(leader_id \<mapsto> pid)\<rparr>, Inr pid)))"

definition invite_player :: "u64 \<Rightarrow> u64 \<Rightarrow> u64 \<Rightarrow> PartyManager \<Rightarrow> PartyManager \<times> (WorldError + unit)" where
  "invite_player party_id caller_account target_account m =
     (case pg_parties m party_id of
        None \<Rightarrow> (m, Inl (TransactionAborted ''Party does not exist''))
      | Some party \<Rightarrow>
          if \<not> is_leader party caller_account then (m, Inl (TransactionAborted ''Only party leader can invite''))
          else if length (pa_members party) \<ge> MAX_GROUP_MEMBERS then (m, Inl (TransactionAborted ''Party is full''))
          else if pg_account_to_party m target_account \<noteq> None
          then (m, Inl (TransactionAborted ''Target player already in a party''))
          else (m\<lparr>pg_pending_invites := (pg_pending_invites m)(target_account \<mapsto> party_id)\<rparr>, Inr ()))"

definition accept_invite :: "u64 \<Rightarrow> PartyMember \<Rightarrow> PartyManager \<Rightarrow> PartyManager \<times> (WorldError + u64)" where
  "accept_invite target_account member m =
     (case pg_pending_invites m target_account of
        None \<Rightarrow> (m, Inl (TransactionAborted ''No pending invitation found''))
      | Some party_id \<Rightarrow>
          (let m = m\<lparr>pg_pending_invites := (pg_pending_invites m)(target_account := None)\<rparr> in
           case pg_parties m party_id of
             None \<Rightarrow> (m, Inl (TransactionAborted ''Party no longer exists''))
           | Some party \<Rightarrow>
               (case add_member member party of
                  (party, Inl e) \<Rightarrow> (m, Inl e)
                | (party, Inr u) \<Rightarrow>
                    (m\<lparr>pg_parties := (pg_parties m)(party_id \<mapsto> party),
                       pg_account_to_party := (pg_account_to_party m)(target_account \<mapsto> party_id)\<rparr>, Inr party_id))))"

definition decline_invite :: "u64 \<Rightarrow> PartyManager \<Rightarrow> PartyManager" where
  "decline_invite target_account m = m\<lparr>pg_pending_invites := (pg_pending_invites m)(target_account := None)\<rparr>"

definition leave_party :: "u64 \<Rightarrow> PartyManager \<Rightarrow> PartyManager \<times> (WorldError + u64 option)" where
  "leave_party account_id m =
     (case pg_account_to_party m account_id of
        None \<Rightarrow> (m, Inr None)
      | Some party_id \<Rightarrow>
          (let m = m\<lparr>pg_account_to_party := (pg_account_to_party m)(account_id := None)\<rparr> in
           case pg_parties m party_id of
             None \<Rightarrow> (m, Inr (Some party_id))
           | Some party \<Rightarrow>
               (case remove_member account_id party of
                  (party, Inl e) \<Rightarrow> (m\<lparr>pg_parties := (pg_parties m)(party_id \<mapsto> party)\<rparr>, Inl e)
                | (party, Inr emptied) \<Rightarrow>
                    (m\<lparr>pg_parties := (pg_parties m)(party_id := (if emptied then None else Some party))\<rparr>, Inr (Some party_id)))))"

definition get_party :: "u64 \<Rightarrow> PartyManager \<Rightarrow> Party option" where
  "get_party party_id m = pg_parties m party_id"

definition get_party_by_account :: "u64 \<Rightarrow> PartyManager \<Rightarrow> Party option" where
  "get_party_by_account account_id m =
     (case pg_account_to_party m account_id of None \<Rightarrow> None | Some pid \<Rightarrow> pg_parties m pid)"

text \<open>\<open>get_party_mut\<close> lends the party to its caller; the loan is the function the caller applies.\<close>

definition with_party :: "u64 \<Rightarrow> (Party \<Rightarrow> Party) \<Rightarrow> PartyManager \<Rightarrow> PartyManager" where
  "with_party party_id change m =
     (case pg_parties m party_id of
        None \<Rightarrow> m
      | Some party \<Rightarrow> m\<lparr>pg_parties := (pg_parties m)(party_id \<mapsto> change party)\<rparr>)"

definition with_party_by_account :: "u64 \<Rightarrow> (Party \<Rightarrow> Party) \<Rightarrow> PartyManager \<Rightarrow> PartyManager" where
  "with_party_by_account account_id change m =
     (case pg_account_to_party m account_id of None \<Rightarrow> m | Some pid \<Rightarrow> with_party pid change m)"

section \<open>The party command of the server\<close>

text \<open>What the server sends: the state of the party to the caller, or to every member.\<close>

datatype PartyNotice =
    SendUpdated u64 u64 u8
  | BroadcastUpdated u64 u64 u8

definition party_broadcast :: "u64 \<Rightarrow> PartyManager \<Rightarrow> PartyNotice list" where
  "party_broadcast party_id m =
     (case get_party party_id m of
        None \<Rightarrow> []
      | Some party \<Rightarrow> [BroadcastUpdated party_id (pa_leader_account_id party) (word_of_nat (length (pa_members party)))])"

text \<open>\<open>member\<close> is the snapshot of the calling player, whose account is the caller's.\<close>

definition party_command :: "u8 \<Rightarrow> u64 \<Rightarrow> PartyMember \<Rightarrow> PartyManager \<Rightarrow> PartyManager \<times> PartyNotice list" where
  "party_command cmd target_account member m =
     (let caller_account = pm_account_id member in
      if cmd = 1 then
        (let (m, party_id) =
           (case get_party_by_account caller_account m of
              Some p \<Rightarrow> (m, pa_party_id p)
            | None \<Rightarrow> (case create_party member m of (m, Inr pid) \<Rightarrow> (m, pid) | (m, Inl e) \<Rightarrow> (m, 0)))
         in if party_id > 0
            then (fst (invite_player party_id caller_account target_account m), [SendUpdated party_id caller_account 1])
            else (m, []))
      else if cmd = 2 then
        (case accept_invite caller_account member m of
           (m, Inr party_id) \<Rightarrow> (m, party_broadcast party_id m)
         | (m, Inl e) \<Rightarrow> (m, []))
      else if cmd = 3 then
        (case leave_party caller_account m of
           (m, Inr (Some party_id)) \<Rightarrow> (m, party_broadcast party_id m @ [SendUpdated 0 0 0])
         | (m, r) \<Rightarrow> (m, []))
      else (m, []))"

section \<open>Invariants\<close>

abbreviation account_ids :: "Party \<Rightarrow> u64 list" where
  "account_ids party \<equiv> map pm_account_id (pa_members party)"

lemma is_member_iff [simp]: "is_member party a \<longleftrightarrow> a \<in> set (account_ids party)"
  by (auto simp: is_member_def list_ex_iff)

text \<open>A group has between one and eight members, no account twice, and its leader is one of them.\<close>

definition party_ok :: "u64 \<Rightarrow> Party \<Rightarrow> bool" where
  "party_ok pid party \<longleftrightarrow> pa_party_id party = pid \<and> pa_members party \<noteq> [] \<and> length (pa_members party) \<le> MAX_GROUP_MEMBERS
     \<and> distinct (account_ids party) \<and> pa_leader_account_id party \<in> set (account_ids party)"

text \<open>Every party is well-formed and has an identifier that was given out; the index leads each account to a party that has it.\<close>

definition manager_ok :: "PartyManager \<Rightarrow> bool" where
  "manager_ok m \<longleftrightarrow>
     (\<forall>pid p. pg_parties m pid = Some p \<longrightarrow> party_ok pid p \<and> 0 < pid \<and> pid < pg_next_party_id m)
     \<and> (\<forall>a pid. pg_account_to_party m a = Some pid \<longrightarrow> (\<exists>p. pg_parties m pid = Some p \<and> a \<in> set (account_ids p)))"

text \<open>An account is a member of the party its index entry names, and of no other.\<close>

definition exclusive :: "PartyManager \<Rightarrow> bool" where
  "exclusive m \<longleftrightarrow> (\<forall>pid p a. pg_parties m pid = Some p \<longrightarrow> a \<in> set (account_ids p) \<longrightarrow> pg_account_to_party m a = Some pid)"

lemma manager_okD:
  "manager_ok m \<Longrightarrow> pg_parties m pid = Some p \<Longrightarrow> party_ok pid p"
  "manager_ok m \<Longrightarrow> pg_account_to_party m a = Some pid \<Longrightarrow> \<exists>p. pg_parties m pid = Some p \<and> a \<in> set (account_ids p)"
  by (auto simp: manager_ok_def)

lemma without_nth:
  assumes "find_index (\<lambda>m. key m = a) xs = Some i" and "distinct (map key xs)"
  shows "set (map key (take i xs @ drop (Suc i) xs)) = set (map key xs) - {a}"
    and "distinct (map key (take i xs @ drop (Suc i) xs))"
    and "Suc (length (take i xs @ drop (Suc i) xs)) = length xs"
proof -
  note f = find_index_SomeD [OF assms(1)]
  have e: "map key xs = map key (take i xs) @ key (xs ! i) # map key (drop (Suc i) xs)"
    using f by (metis id_take_nth_drop list.simps(9) map_append)
  have d: "distinct (map key (take i xs) @ key (xs ! i) # map key (drop (Suc i) xs))" using assms(2) e by metis
  show "set (map key (take i xs @ drop (Suc i) xs)) = set (map key xs) - {a}"
    using d f by (subst e) auto
  show "distinct (map key (take i xs @ drop (Suc i) xs))" using d by auto
  have "i < length xs" using f by simp
  then show "Suc (length (take i xs @ drop (Suc i) xs)) = length xs" by (cases "length xs") simp_all
qed

text \<open>The operations of a group.\<close>

lemma party_ok_new: "party_ok pid (Party_new pid leader)"
  by (simp add: party_ok_def Party_new_def MAX_GROUP_MEMBERS_def)

lemma add_member_ok:
  assumes "party_ok pid p" and "add_member member p = (p1, Inr u)"
  shows "party_ok pid p1 \<and> set (account_ids p1) = insert (pm_account_id member) (set (account_ids p))"
  using assms by (auto simp: add_member_def party_ok_def split: if_splits)

lemma party_ok_members:
  "pa_party_id p = pid \<Longrightarrow> ms \<noteq> [] \<Longrightarrow> length ms \<le> MAX_GROUP_MEMBERS \<Longrightarrow> distinct (map pm_account_id ms) \<Longrightarrow>
    l \<in> set (map pm_account_id ms) \<Longrightarrow> party_ok pid (p\<lparr>pa_members := ms, pa_leader_account_id := l\<rparr>)"
  by (simp add: party_ok_def)

lemma remove_member_ok:
  assumes ok: "party_ok pid p" and r: "remove_member a p = (p1, res)"
  shows "case res of
      Inl e \<Rightarrow> p1 = p \<and> a \<notin> set (account_ids p)
    | Inr emptied \<Rightarrow> set (account_ids p1) = set (account_ids p) - {a}
        \<and> (if emptied then pa_members p1 = [] else party_ok pid p1)"
proof (cases "find_index (\<lambda>m. pm_account_id m = a) (pa_members p)")
  case None
  then have "p1 = p" "res = Inl (TransactionAborted ''Player not in party'')" using r by (simp_all add: remove_member_def)
  moreover have "a \<notin> set (account_ids p)" using None by (auto simp: find_index_None_iff)
  ultimately show ?thesis by simp
next
  case (Some i)
  have d: "distinct (account_ids p)" using ok by (simp add: party_ok_def)
  let ?ms = "take i (pa_members p) @ drop (Suc i) (pa_members p)"
  note w = without_nth [OF Some d]
  show ?thesis
  proof (cases "?ms = []")
    case True
    then have "p1 = p\<lparr>pa_members := ?ms\<rparr>" "res = Inr True" using r Some by (simp_all add: remove_member_def)
    then show ?thesis using w(1) True by simp
  next
    case False
    let ?l = "if pa_leader_account_id p = a then pm_account_id (?ms ! 0) else pa_leader_account_id p"
    have p1: "p1 = p\<lparr>pa_members := ?ms, pa_leader_account_id := ?l\<rparr>" and res: "res = Inr False"
      using r Some False by (auto simp: remove_member_def Let_def split: if_splits)
    have l: "?l \<in> set (map pm_account_id ?ms)"
    proof (cases "pa_leader_account_id p = a")
      case True
      then show ?thesis using nth_mem [of 0 ?ms] False by (metis image_eqI length_greater_0_conv set_map)
    next
      case False
      then show ?thesis unfolding w(1) using ok by (simp add: party_ok_def)
    qed
    have "length (pa_members p) \<le> MAX_GROUP_MEMBERS" using ok by (simp add: party_ok_def)
    then have "length ?ms \<le> MAX_GROUP_MEMBERS" using w(3) by linarith
    then have "party_ok pid p1" unfolding p1
      using ok False w(2) l by (intro party_ok_members) (simp_all only: party_ok_def not_False_eq_True)
    moreover have "set (account_ids p1) = set (account_ids p) - {a}" unfolding p1 using w(1) by simp
    ultimately show ?thesis unfolding res by simp
  qed
qed

lemma promote_leader_ok: "party_ok pid p \<Longrightarrow> party_ok pid (fst (promote_leader a p)) \<and> pa_members (fst (promote_leader a p)) = pa_members p"
  by (auto simp: promote_leader_def party_ok_def)

lemma update_vitals_ids: "account_ids (update_member_vitals a h n v p) = account_ids p"
  by (auto simp: update_member_vitals_def map_update split: option.splits) (metis list_update_id map_update nth_map find_index_less)

lemma update_vitals_ok: "party_ok pid p \<Longrightarrow> party_ok pid (update_member_vitals a h n v p)"
  using update_vitals_ids [of a h n v p]
  by (auto simp: party_ok_def simp del: update_vitals_ids) (auto simp: update_member_vitals_def split: option.splits)

text \<open>The operations of the manager.\<close>

lemma unat_next: "(w :: 'a::len word) \<noteq> - 1 \<Longrightarrow> unat (w + 1) = Suc (unat w)"
proof -
  assume "w \<noteq> - 1"
  then have "w + 1 \<noteq> 0" by (metis add_diff_cancel_right' diff_0)
  then have "unat (w + 1 - 1) = unat (w + 1) - 1" "unat (w + 1) \<noteq> 0" by (rule unat_minus_one) (simp add: unat_eq_0 \<open>w + 1 \<noteq> 0\<close>)
  then show ?thesis by simp
qed

lemma less_next_iff: "(w :: 'a::len word) \<noteq> - 1 \<Longrightarrow> x < w + 1 \<longleftrightarrow> x < w \<or> x = w"
  by (simp add: word_less_nat_alt unat_next less_Suc_eq word_unat_eq_iff)

lemma create_party_ok:
  assumes ok: "manager_ok m" and r: "create_party leader m = (m1, res)" and nx: "pg_next_party_id m \<noteq> - 1" "0 < pg_next_party_id m"
  shows "manager_ok m1 \<and> (exclusive m \<longrightarrow> exclusive m1) \<and> (pg_next_party_id m1 = pg_next_party_id m \<or> pg_next_party_id m1 = pg_next_party_id m + 1)"
proof (cases "pg_account_to_party m (pm_account_id leader)")
  case (Some pid)
  then show ?thesis using r ok by (auto simp: create_party_def Let_def)
next
  case None
  let ?pid = "pg_next_party_id m" and ?a = "pm_account_id leader"
  have m1: "m1 = m\<lparr>pg_next_party_id := ?pid + 1, pg_parties := (pg_parties m)(?pid \<mapsto> Party_new ?pid leader),
      pg_account_to_party := (pg_account_to_party m)(?a \<mapsto> ?pid)\<rparr>"
    using r None by (simp add: create_party_def Let_def)
  have up: "x < ?pid + 1 \<longleftrightarrow> x < ?pid \<or> x = ?pid" for x using nx(1) by (rule less_next_iff)
  have fresh: "pg_parties m ?pid = None"
  proof (rule ccontr)
    assume "pg_parties m ?pid \<noteq> None"
    then have "?pid < ?pid" using ok by (auto simp: manager_ok_def)
    then show False by simp
  qed
  have old: "pg_parties m1 pid = Some p" if "pg_parties m pid = Some p" for pid p
    using that fresh by (auto simp: m1)
  have new: "pg_parties m1 ?pid = Some (Party_new ?pid leader)" by (simp add: m1)
  have "manager_ok m1"
    unfolding manager_ok_def
  proof (intro conjI allI impI)
    fix pid p assume "pg_parties m1 pid = Some p"
    then show "party_ok pid p" "0 < pid" "pid < pg_next_party_id m1"
      using ok nx(2) party_ok_new by (auto simp: m1 up manager_ok_def split: if_splits)
  next
    fix a pid assume "pg_account_to_party m1 a = Some pid"
    then show "\<exists>p. pg_parties m1 pid = Some p \<and> a \<in> set (account_ids p)"
    proof (cases "a = ?a")
      case True
      then have "pid = ?pid" using \<open>pg_account_to_party m1 a = Some pid\<close> by (simp add: m1)
      then show ?thesis using new True by (simp add: Party_new_def)
    next
      case False
      then have "pg_account_to_party m a = Some pid" using \<open>pg_account_to_party m1 a = Some pid\<close> by (simp add: m1)
      then show ?thesis using manager_okD(2) [OF ok] old by blast
    qed
  qed
  moreover have "exclusive m1" if "exclusive m"
    using that None by (auto simp: exclusive_def m1 Party_new_def split: if_splits)
  ultimately show ?thesis by (simp add: m1)
qed

lemma invite_player_ok:
  "manager_ok m \<Longrightarrow> manager_ok (fst (invite_player pid c t m))"
  "exclusive m \<Longrightarrow> exclusive (fst (invite_player pid c t m))"
  "pg_next_party_id (fst (invite_player pid c t m)) = pg_next_party_id m"
  by (auto simp: invite_player_def manager_ok_def exclusive_def split: option.splits)

lemma accept_invite_ok:
  assumes ok: "manager_ok m" and r: "accept_invite (pm_account_id member) member m = (m1, res)"
  shows "manager_ok m1 \<and> pg_next_party_id m1 = pg_next_party_id m
    \<and> (exclusive m \<and> pg_account_to_party m (pm_account_id member) = None \<longrightarrow> exclusive m1)"
proof -
  let ?a = "pm_account_id member"
  consider "pg_parties m1 = pg_parties m" "pg_account_to_party m1 = pg_account_to_party m" "pg_next_party_id m1 = pg_next_party_id m"
    | pid p p1 where "pg_parties m pid = Some p" "add_member member p = (p1, Inr ())"
        "pg_parties m1 = (pg_parties m)(pid \<mapsto> p1)" "pg_account_to_party m1 = (pg_account_to_party m)(?a \<mapsto> pid)"
        "pg_next_party_id m1 = pg_next_party_id m"
  proof (cases "pg_pending_invites m ?a")
    case None
    then show ?thesis using r that(1) by (simp add: accept_invite_def)
  next
    case (Some pid)
    show ?thesis
    proof (cases "pg_parties m pid")
      case None
      then show ?thesis using r Some by (intro that(1)) (auto simp: accept_invite_def)
    next
      case p: (Some p)
      obtain p1 u where a: "add_member member p = (p1, u)" by fastforce
      show ?thesis
      proof (cases u)
        case (Inl e)
        then show ?thesis using r Some p a by (intro that(1)) (auto simp: accept_invite_def)
      next
        case (Inr v)
        then show ?thesis using r Some p a by (intro that(2) [OF p]) (auto simp: accept_invite_def)
      qed
    qed
  qed
  then show ?thesis
  proof cases
    case 1
    then show ?thesis using ok by (simp add: manager_ok_def exclusive_def)
  next
    case (2 pid p p1)
    have b: "party_ok pid p" "0 < pid" "pid < pg_next_party_id m" using ok 2(1) by (auto simp: manager_ok_def)
    note p1 = add_member_ok [OF b(1) 2(2)]
    have "manager_ok m1"
      unfolding manager_ok_def
    proof (intro conjI allI impI)
      fix q p' assume "pg_parties m1 q = Some p'"
      then show "party_ok q p'" "0 < q" "q < pg_next_party_id m1"
        using ok p1 b 2(3,5) by (auto simp: manager_ok_def split: if_splits)
    next
      fix a q assume a: "pg_account_to_party m1 a = Some q"
      show "\<exists>p'. pg_parties m1 q = Some p' \<and> a \<in> set (account_ids p')"
      proof (cases "a = ?a")
        case True
        then show ?thesis using a p1 2(3,4) by simp
      next
        case False
        then have "pg_account_to_party m a = Some q" using a 2(4) by simp
        from manager_okD(2) [OF ok this] obtain p' where "pg_parties m q = Some p'" "a \<in> set (account_ids p')" by blast
        then show ?thesis using p1 2(1,3) by (cases "q = pid") auto
      qed
    qed
    moreover have "exclusive m1" if "exclusive m" "pg_account_to_party m ?a = None"
      unfolding exclusive_def
    proof (intro allI impI)
      fix q p' a assume q: "pg_parties m1 q = Some p'" "a \<in> set (account_ids p')"
      show "pg_account_to_party m1 a = Some q"
      proof (cases "q = pid")
        case True
        then show ?thesis using q p1 2(1,3,4) that(1) by (auto simp: exclusive_def)
      next
        case False
        then have "pg_account_to_party m a = Some q" using q 2(3) that(1) by (simp add: exclusive_def)
        moreover from this have "a \<noteq> ?a" using that(2) by auto
        ultimately show ?thesis by (simp add: 2(4))
      qed
    qed
    ultimately show ?thesis by (simp add: 2(5))
  qed
qed

lemma leave_party_ok:
  assumes ok: "manager_ok m" and r: "leave_party a m = (m1, res)"
  shows "manager_ok m1 \<and> (exclusive m \<longrightarrow> exclusive m1) \<and> pg_next_party_id m1 = pg_next_party_id m"
proof (cases "pg_account_to_party m a")
  case None
  then show ?thesis using r ok by (simp add: leave_party_def)
next
  case (Some pid)
  obtain p where p: "pg_parties m pid = Some p" "a \<in> set (account_ids p)" using manager_okD(2) [OF ok Some] by blast
  have b: "party_ok pid p" using ok p(1) by (rule manager_okD(1))
  obtain p1 u where rm: "remove_member a p = (p1, u)" by fastforce
  note x = remove_member_ok [OF b rm]
  obtain emptied where u: "u = Inr emptied" using x p(2) by (cases u) auto
  have ids: "set (account_ids p1) = set (account_ids p) - {a}" "if emptied then pa_members p1 = [] else party_ok pid p1"
    using x u by simp_all
  have m1: "m1 = m\<lparr>pg_account_to_party := (pg_account_to_party m)(a := None),
      pg_parties := (pg_parties m)(pid := (if emptied then None else Some p1))\<rparr>"
    using r Some p rm u by (simp add: leave_party_def)
  have "manager_ok m1"
    unfolding manager_ok_def
  proof (intro conjI allI impI)
    fix q p' assume "pg_parties m1 q = Some p'"
    then show "party_ok q p'" "0 < q" "q < pg_next_party_id m1"
      using ok ids(2) p(1) by (auto simp: manager_ok_def m1 split: if_splits)
  next
    fix c q assume "pg_account_to_party m1 c = Some q"
    then have c: "c \<noteq> a" "pg_account_to_party m c = Some q" by (auto simp: m1 split: if_splits)
    from manager_okD(2) [OF ok c(2)] obtain p' where p': "pg_parties m q = Some p'" "c \<in> set (account_ids p')" by blast
    show "\<exists>p'. pg_parties m1 q = Some p' \<and> c \<in> set (account_ids p')"
    proof (cases "q = pid")
      case True
      then have "c \<in> set (account_ids p1)" using p' p(1) ids(1) c(1) by simp
      moreover from this have "\<not> emptied" using ids(2) by (auto split: if_splits)
      ultimately show ?thesis by (simp add: m1 True)
    next
      case False
      then show ?thesis using p' by (simp add: m1)
    qed
  qed
  moreover have "exclusive m1" if "exclusive m"
    unfolding exclusive_def
  proof (intro allI impI)
    fix q p' c assume q: "pg_parties m1 q = Some p'" "c \<in> set (account_ids p')"
    show "pg_account_to_party m1 c = Some q"
    proof (cases "q = pid")
      case True
      then have "c \<in> set (account_ids p) - {a}" using q ids(1) by (simp add: m1 split: if_splits)
      then show ?thesis using that p(1) True by (simp add: m1 exclusive_def)
    next
      case False
      then have "pg_account_to_party m c = Some q" using q that by (simp add: m1 exclusive_def)
      moreover from this have "c \<noteq> a" using Some False by auto
      ultimately show ?thesis by (simp add: m1)
    qed
  qed
  ultimately show ?thesis by (simp add: m1)
qed

text \<open>A loan keeps the invariants when the change keeps the accounts and the shape of the group.\<close>

lemma with_party_ok:
  assumes ok: "manager_ok m" and f: "\<And>p. party_ok pid p \<Longrightarrow> party_ok pid (f p) \<and> account_ids (f p) = account_ids p"
  shows "manager_ok (with_party pid f m) \<and> (exclusive m \<longrightarrow> exclusive (with_party pid f m))
    \<and> pg_next_party_id (with_party pid f m) = pg_next_party_id m"
proof (cases "pg_parties m pid")
  case None
  then show ?thesis using ok by (simp add: with_party_def)
next
  case (Some p)
  have g: "party_ok pid (f p)" "account_ids (f p) = account_ids p" using f [OF manager_okD(1) [OF ok Some]] by simp_all
  have "set (account_ids (f p)) = set (account_ids p)" using g(2) by simp
  then have ids: "pm_account_id ` set (pa_members (f p)) = pm_account_id ` set (pa_members p)" by simp
  have "manager_ok (with_party pid f m)"
    using ok Some g(1) ids by (auto simp: with_party_def manager_ok_def) (metis option.inject)
  moreover have "exclusive m \<longrightarrow> exclusive (with_party pid f m)"
    using Some ids by (auto simp: with_party_def exclusive_def)
  ultimately show ?thesis using Some by (simp add: with_party_def)
qed

text \<open>One command: at most one party is created, and the accounts stay in one party if nobody accepts while in one.\<close>

lemma party_command_ok:
  assumes ok: "manager_ok m" and nx: "pg_next_party_id m \<noteq> - 1" "0 < pg_next_party_id m"
  shows "manager_ok (fst (party_command cmd t member m))
    \<and> (exclusive m \<and> (cmd = 2 \<longrightarrow> pg_account_to_party m (pm_account_id member) = None) \<longrightarrow> exclusive (fst (party_command cmd t member m)))
    \<and> (pg_next_party_id (fst (party_command cmd t member m)) = pg_next_party_id m
       \<or> pg_next_party_id (fst (party_command cmd t member m)) = pg_next_party_id m + 1)"
proof -
  consider "cmd = 1" | "cmd = 2" | "cmd = 3" | "cmd \<noteq> 1" "cmd \<noteq> 2" "cmd \<noteq> 3" by blast
  then show ?thesis
  proof cases
    case 1
    show ?thesis
    proof (cases "get_party_by_account (pm_account_id member) m")
      case (Some p)
      then show ?thesis using ok 1 by (auto simp: party_command_def Let_def invite_player_ok)
    next
      case None
      obtain m1 u where c: "create_party member m = (m1, u)" by fastforce
      note cp = create_party_ok [OF ok c nx]
      then show ?thesis using 1 None c ok by (cases u) (auto simp: party_command_def Let_def invite_player_ok)
    qed
  next
    case 2
    obtain m1 u where a: "accept_invite (pm_account_id member) member m = (m1, u)" by fastforce
    have "fst (party_command cmd t member m) = m1" using 2 a by (cases u) (simp_all add: party_command_def)
    with accept_invite_ok [OF ok a] \<open>cmd = 2\<close> show ?thesis by blast
  next
    case 3
    obtain m1 u where a: "leave_party (pm_account_id member) m = (m1, u)" by fastforce
    have "fst (party_command cmd t member m) = m1"
      using 3 a by (auto simp: party_command_def split: sum.split option.split)
    then show ?thesis using leave_party_ok [OF ok a] by simp
  next
    case 4
    then show ?thesis using ok by (simp add: party_command_def)
  qed
qed

section \<open>Reachable managers\<close>

text \<open>Managers after \<open>n\<close> operations, whatever their arguments; a member accepts for its own account, as the server has it.\<close>

inductive party_run :: "nat \<Rightarrow> PartyManager \<Rightarrow> bool" where
  start: "party_run 0 PartyManager_new"
| create: "party_run n m \<Longrightarrow> party_run (Suc n) (fst (create_party leader m))"
| invite: "party_run n m \<Longrightarrow> party_run (Suc n) (fst (invite_player pid caller target m))"
| accept: "party_run n m \<Longrightarrow> party_run (Suc n) (fst (accept_invite (pm_account_id member) member m))"
| decline: "party_run n m \<Longrightarrow> party_run (Suc n) (decline_invite target m)"
| leave: "party_run n m \<Longrightarrow> party_run (Suc n) (fst (leave_party acc m))"
| promote: "party_run n m \<Longrightarrow> party_run (Suc n) (with_party pid (\<lambda>p. fst (promote_leader acc p)) m)"
| vitals: "party_run n m \<Longrightarrow> party_run (Suc n) (with_party_by_account acc (update_member_vitals acc h mn pos) m)"
| command: "party_run n m \<Longrightarrow> party_run (Suc n) (fst (party_command cmd target member m))"

lemma party_run_ok:
  "party_run n m \<Longrightarrow> n < 2 ^ 64 - 1 \<Longrightarrow> manager_ok m \<and> 0 < pg_next_party_id m \<and> unat (pg_next_party_id m) \<le> Suc n"
proof (induction rule: party_run.induct)
  case start
  then show ?case by (simp add: PartyManager_new_def manager_ok_def)
next
  case (create n m leader)
  then have ih: "manager_ok m" "0 < pg_next_party_id m" "unat (pg_next_party_id m) \<le> Suc n" by simp_all
  have nx: "pg_next_party_id m \<noteq> - 1" using ih(3) create.prems by (auto simp: unat_minus_one_eq)
  obtain m1 u where c: "create_party leader m = (m1, u)" by fastforce
  show ?case using create_party_ok [OF ih(1) c nx ih(2)] ih(2,3) unat_next [OF nx] c by (auto simp: word_less_nat_alt)
next
  case (invite n m pid caller target)
  then show ?case by (simp add: invite_player_ok)
next
  case (accept n m member)
  obtain m1 u where a: "accept_invite (pm_account_id member) member m = (m1, u)" by fastforce
  show ?case using accept accept_invite_ok [OF _ a] a by simp
next
  case (decline n m target)
  then show ?case by (simp add: decline_invite_def manager_ok_def)
next
  case (leave n m acc)
  obtain m1 u where a: "leave_party acc m = (m1, u)" by fastforce
  show ?case using leave leave_party_ok [OF _ a] a by simp
next
  case (promote n m pid acc)
  then show ?case using with_party_ok [of m pid "\<lambda>p. fst (promote_leader acc p)"] promote_leader_ok by simp
next
  case (vitals n m acc h mn pos)
  then show ?case
    using with_party_ok [of m _ "update_member_vitals acc h mn pos"] update_vitals_ok update_vitals_ids
    by (auto simp: with_party_by_account_def split: option.split)
next
  case (command n m cmd target member)
  then have ih: "manager_ok m" "0 < pg_next_party_id m" "unat (pg_next_party_id m) \<le> Suc n" by simp_all
  have nx: "pg_next_party_id m \<noteq> - 1" using ih(3) command.prems by (auto simp: unat_minus_one_eq)
  show ?case using party_command_ok [OF ih(1) nx ih(2), of cmd target member] ih(2,3) unat_next [OF nx]
    by (auto simp: word_less_nat_alt)
qed

section \<open>Properties\<close>

text \<open>C35. Whatever the operations and their arguments, every party has between one and eight members, no
  account twice and a leader among its members, and the index names for each account a party that has it.\<close>

theorem parties_well_formed:
  assumes "party_run n m" and "n < 2 ^ 64 - 1"
  shows "manager_ok m"
  using party_run_ok [OF assms] by blast

definition example_member :: "u64 \<Rightarrow> PartyMember" where
  "example_member a = \<lparr>pm_account_id = a, pm_entity_id = ucast a, pm_name = ''Player'', pm_health = 100, pm_max_health = 100,
     pm_mana = 50, pm_max_mana = 50, pm_position = Vec3Fix_ZERO\<rparr>"

theorem parties_well_formed_witness:
  "manager_ok (fst (leave_party 7 (fst (party_command 2 0 (example_member 9) (fst (party_command 1 9 (example_member 7) PartyManager_new))))))"
proof -
  note c1 = party_run.command [OF party_run.start, of 1 9 "example_member 7"]
  note c2 = party_run.command [OF c1, of 2 0 "example_member 9"]
  show ?thesis by (rule parties_well_formed [OF party_run.leave [OF c2]]) simp
qed

text \<open>C36. A command of the server keeps every account in the one party the index names for it, if an
  invitation is accepted only by an account that is in no party.\<close>

theorem one_party_per_account:
  assumes "manager_ok m" and "exclusive m" and "pg_next_party_id m \<noteq> - 1" and "0 < pg_next_party_id m"
    and "cmd = 2 \<longrightarrow> pg_account_to_party m (pm_account_id member) = None"
  shows "exclusive (fst (party_command cmd target member m))"
  using party_command_ok [OF assms(1,3,4)] assms(2,5) by blast

theorem one_party_per_account_witness:
  "exclusive (fst (party_command 1 9 (example_member 7) PartyManager_new))"
  by (rule one_party_per_account) (simp_all add: PartyManager_new_def manager_ok_def exclusive_def)

text \<open>Without that condition it fails: account 9 is invited by 7, founds a party of its own by inviting 5, and then
  accepts; it stays a member and the leader of its own party, which no longer ends when it leaves.\<close>

definition double_membership :: PartyManager where
  "double_membership =
     fold (\<lambda>(cmd, target, a). \<lambda>m. fst (party_command cmd target (example_member a) m))
       [(1, 9, 7), (1, 5, 9), (2, 0, 9)] PartyManager_new"

lemma accept_while_in_a_party:
  "map_option account_ids (get_party 1 double_membership) = Some [7, 9]
   \<and> map_option account_ids (get_party 2 double_membership) = Some [9]
   \<and> map_option account_ids (get_party 2 (fst (leave_party 9 (fst (leave_party 9 double_membership))))) = Some [9]"
  by code_simp

end
