(* ===== verification/MarketEscrow.thy ===== *)
theory MarketEscrow
  imports Market
begin

text \<open>
  The escrow of the regional market (\<^verbatim>\<open>eidolon-world/src/market_coordinator.rs\<close>): stations with
  their taxes and freight, the table of holdings that back the resting orders, the settlement of
  a trade, and the submission of an order, which composes the escrow with the order book.
\<close>

section \<open>Stations\<close>


record MarketStation =
  ms_station_id :: u32
  ms_sector_x :: i32
  ms_sector_z :: i32
  ms_sales_tax_bps :: u16
  ms_freight_per_sector :: u64

definition MarketStation_new :: "u32 \<Rightarrow> i32 \<Rightarrow> i32 \<Rightarrow> u16 \<Rightarrow> u64 \<Rightarrow> MarketStation" where
  "MarketStation_new station_id sector_x sector_z sales_tax_bps freight_per_sector =
     \<lparr>ms_station_id = station_id, ms_sector_x = sector_x, ms_sector_z = sector_z,
      ms_sales_tax_bps = sales_tax_bps, ms_freight_per_sector = freight_per_sector\<rparr>"

text \<open>The coordinates are 32-bit: their difference wraps before its magnitude is taken.\<close>

definition unsigned_abs :: "i32 \<Rightarrow> u32" where
  "unsigned_abs w = (if sint w < 0 then - w else w)"

definition sector_distance_to :: "MarketStation \<Rightarrow> MarketStation \<Rightarrow> u32" where
  "sector_distance_to self other =
     (let dx = unsigned_abs (ms_sector_x self - ms_sector_x other);
          dz = unsigned_abs (ms_sector_z self - ms_sector_z other)
      in saturating_add dx dz)"

definition calculate_freight_fee :: "MarketStation \<Rightarrow> MarketStation \<Rightarrow> u32 \<Rightarrow> u64" where
  "calculate_freight_fee self destination quantity =
     (let dist = sector_distance_to self destination
      in saturating_mul (saturating_mul (ucast dist) (ms_freight_per_sector self)) (ucast quantity))"

section \<open>The coordinator\<close>

record EscrowHolding =
  eh_order_id :: u64
  eh_account_id :: u64
  eh_is_currency :: bool
  eh_locked_currency :: u64
  eh_locked_item_id :: u64
  eh_locked_quantity :: u32
  eh_station_id :: u32

datatype EscrowError =
    EscrowCapacityExceeded
  | EscrowNotFound
  | InsufficientFunds
  | InsufficientItems
  | UnauthorizedAccount
  | MarketFailure MarketError

record MarketEscrowCoordinator =
  mc_stations :: "MarketStation option list"
  mc_station_count :: nat
  mc_holdings :: "EscrowHolding option list"
  mc_holding_count :: nat
  mc_total_tax_revenue :: u64
  mc_total_volume_settled :: u64


definition register_station :: "MarketStation \<Rightarrow> MarketEscrowCoordinator \<Rightarrow> MarketEscrowCoordinator \<times> bool" where
  "register_station station c =
     (if mc_station_count c \<ge> length (mc_stations c) then (c, False)
      else
        (case find_index (\<lambda>s. s = None) (mc_stations c) of
           Some i \<Rightarrow> (c\<lparr>mc_stations := (mc_stations c)[i := Some station], mc_station_count := mc_station_count c + 1\<rparr>, True)
         | None \<Rightarrow> (c, False)))"






section \<open>Settlement\<close>





section \<open>Submitting an order\<close>




section \<open>The table of holdings\<close>












section \<open>Every resting order is backed\<close>












section \<open>A submission\<close>









section \<open>Properties\<close>























end
