(* ===== verification/Simd.thy ===== *)
theory Simd
  imports FixedPoint
begin

text \<open>
  The lane vectors of \<^verbatim>\<open>eidolon-core/src/simd.rs\<close>. The source has two copies of one type, with 8 and
  with 16 lanes; here the number of lanes is an argument of the shared operations, and each of the
  two types has its instances. The array of a lane coordinate is a list.
\<close>

section \<open>Lanes\<close>

record Vec3Lanes =
  ln_x :: "Fixed64 list"
  ln_y :: "Fixed64 list"
  ln_z :: "Fixed64 list"

definition lanes_splat :: "nat \<Rightarrow> Vec3Fix \<Rightarrow> Vec3Lanes" where
  "lanes_splat n v = \<lparr>ln_x = replicate n (vec_x v), ln_y = replicate n (vec_y v), ln_z = replicate n (vec_z v)\<rparr>"

definition lanes_from_slice :: "nat \<Rightarrow> Vec3Fix list \<Rightarrow> Vec3Lanes" where
  "lanes_from_slice n xs =
     \<lparr>ln_x = map (\<lambda>i. vec_x (xs ! i)) [0..<n], ln_y = map (\<lambda>i. vec_y (xs ! i)) [0..<n], ln_z = map (\<lambda>i. vec_z (xs ! i)) [0..<n]\<rparr>"

definition lane :: "Vec3Lanes \<Rightarrow> nat \<Rightarrow> Vec3Fix" where
  "lane v i = \<lparr>vec_x = ln_x v ! i, vec_y = ln_y v ! i, vec_z = ln_z v ! i\<rparr>"

definition lanes_write_to_slice :: "nat \<Rightarrow> Vec3Lanes \<Rightarrow> Vec3Fix list" where
  "lanes_write_to_slice n v = map (lane v) [0..<n]"

definition lanes_map2 :: "nat \<Rightarrow> (Fixed64 \<Rightarrow> Fixed64 \<Rightarrow> Fixed64) \<Rightarrow> Vec3Lanes \<Rightarrow> Vec3Lanes \<Rightarrow> Vec3Lanes" where
  "lanes_map2 n f v w =
     \<lparr>ln_x = map (\<lambda>i. f (ln_x v ! i) (ln_x w ! i)) [0..<n],
      ln_y = map (\<lambda>i. f (ln_y v ! i) (ln_y w ! i)) [0..<n],
      ln_z = map (\<lambda>i. f (ln_z v ! i) (ln_z w ! i)) [0..<n]\<rparr>"

definition lanes_mul_scalar :: "nat \<Rightarrow> Vec3Lanes \<Rightarrow> Fixed64 \<Rightarrow> Vec3Lanes" where
  "lanes_mul_scalar n v s =
     \<lparr>ln_x = map (\<lambda>i. ln_x v ! i * s) [0..<n], ln_y = map (\<lambda>i. ln_y v ! i * s) [0..<n], ln_z = map (\<lambda>i. ln_z v ! i * s) [0..<n]\<rparr>"

text \<open>The squared distance of a lane, as every routine computes it.\<close>

definition lane_distance_squared :: "Vec3Lanes \<Rightarrow> nat \<Rightarrow> Vec3Fix \<Rightarrow> Fixed64" where
  "lane_distance_squared v i target =
     (let dx = ln_x v ! i - vec_x target; dy = ln_y v ! i - vec_y target; dz = ln_z v ! i - vec_z target
      in dx * dx + dy * dy + dz * dz)"

definition lanes_batch_distance_squared :: "nat \<Rightarrow> Vec3Lanes \<Rightarrow> Vec3Fix \<Rightarrow> Fixed64 list" where
  "lanes_batch_distance_squared n v target = map (\<lambda>i. lane_distance_squared v i target) [0..<n]"

text \<open>A mask with a bit for every lane that passes a test.\<close>

definition mask_lanes :: "nat \<Rightarrow> (nat \<Rightarrow> bool) \<Rightarrow> 'a::len word" where
  "mask_lanes n test = fold (\<lambda>i mask. if test i then or mask (push_bit i 1) else mask) [0..<n] 0"

definition lanes_filter_within_radius :: "nat \<Rightarrow> Vec3Lanes \<Rightarrow> Vec3Fix \<Rightarrow> Fixed64 \<Rightarrow> 'a::len word" where
  "lanes_filter_within_radius n v target radius_sq =
     (let dists = lanes_batch_distance_squared n v target in mask_lanes n (\<lambda>i. dists ! i \<le> radius_sq))"

section \<open>Eight lanes\<close>

definition Vec3Fix8x_splat :: "Vec3Fix \<Rightarrow> Vec3Lanes" where "Vec3Fix8x_splat = lanes_splat 8"

definition from_slice_8 :: "Vec3Fix list \<Rightarrow> Vec3Lanes" where "from_slice_8 = lanes_from_slice 8"

definition write_to_slice_8 :: "Vec3Lanes \<Rightarrow> Vec3Fix list" where "write_to_slice_8 = lanes_write_to_slice 8"

definition Vec3Fix8x_saturating_add :: "Vec3Lanes \<Rightarrow> Vec3Lanes \<Rightarrow> Vec3Lanes" where
  "Vec3Fix8x_saturating_add = lanes_map2 8 (+)"

definition Vec3Fix8x_saturating_sub :: "Vec3Lanes \<Rightarrow> Vec3Lanes \<Rightarrow> Vec3Lanes" where
  "Vec3Fix8x_saturating_sub = lanes_map2 8 (-)"

definition Vec3Fix8x_mul_scalar :: "Vec3Lanes \<Rightarrow> Fixed64 \<Rightarrow> Vec3Lanes" where
  "Vec3Fix8x_mul_scalar = lanes_mul_scalar 8"

definition step_kinematics_chunk_8x :: "Vec3Fix list \<Rightarrow> Vec3Fix list \<Rightarrow> Fixed64 \<Rightarrow> Vec3Fix list" where
  "step_kinematics_chunk_8x positions velocities dt =
     (let pos = from_slice_8 positions; vel = from_slice_8 velocities;
          displacement = Vec3Fix8x_mul_scalar vel dt;
          updated = Vec3Fix8x_saturating_add pos displacement
      in write_to_slice_8 updated)"

definition Vec3Fix8x_batch_distance_squared :: "Vec3Lanes \<Rightarrow> Vec3Fix \<Rightarrow> Fixed64 list" where
  "Vec3Fix8x_batch_distance_squared = lanes_batch_distance_squared 8"

definition filter_within_radius_8x :: "Vec3Lanes \<Rightarrow> Vec3Fix \<Rightarrow> Fixed64 \<Rightarrow> u8" where
  "filter_within_radius_8x = lanes_filter_within_radius 8"

section \<open>Sixteen lanes\<close>

definition Vec3Fix16x_splat :: "Vec3Fix \<Rightarrow> Vec3Lanes" where "Vec3Fix16x_splat = lanes_splat 16"

definition from_slice_16 :: "Vec3Fix list \<Rightarrow> Vec3Lanes" where "from_slice_16 = lanes_from_slice 16"

definition write_to_slice_16 :: "Vec3Lanes \<Rightarrow> Vec3Fix list" where "write_to_slice_16 = lanes_write_to_slice 16"

definition Vec3Fix16x_saturating_add :: "Vec3Lanes \<Rightarrow> Vec3Lanes \<Rightarrow> Vec3Lanes" where
  "Vec3Fix16x_saturating_add = lanes_map2 16 (+)"

definition Vec3Fix16x_saturating_sub :: "Vec3Lanes \<Rightarrow> Vec3Lanes \<Rightarrow> Vec3Lanes" where
  "Vec3Fix16x_saturating_sub = lanes_map2 16 (-)"

definition Vec3Fix16x_mul_scalar :: "Vec3Lanes \<Rightarrow> Fixed64 \<Rightarrow> Vec3Lanes" where
  "Vec3Fix16x_mul_scalar = lanes_mul_scalar 16"

definition step_kinematics_chunk_16x :: "Vec3Fix list \<Rightarrow> Vec3Fix list \<Rightarrow> Fixed64 \<Rightarrow> Vec3Fix list" where
  "step_kinematics_chunk_16x positions velocities dt =
     (let pos = from_slice_16 positions; vel = from_slice_16 velocities;
          disp = Vec3Fix16x_mul_scalar vel dt;
          pos = Vec3Fix16x_saturating_add pos disp
      in write_to_slice_16 pos)"

definition Vec3Fix16x_batch_distance_squared :: "Vec3Lanes \<Rightarrow> Vec3Fix \<Rightarrow> Fixed64 list" where
  "Vec3Fix16x_batch_distance_squared = lanes_batch_distance_squared 16"

definition filter_within_radius_16x :: "Vec3Lanes \<Rightarrow> Vec3Fix \<Rightarrow> Fixed64 \<Rightarrow> u16" where
  "filter_within_radius_16x = lanes_filter_within_radius 16"

text \<open>The test of one lane against a vision cone: near entities pass, far ones fail, the others by their angle.\<close>

definition lane_in_cone :: "Vec3Lanes \<Rightarrow> nat \<Rightarrow> Vec3Fix \<Rightarrow> Vec3Fix \<Rightarrow> Fixed64 \<Rightarrow> Fixed64 \<Rightarrow> Fixed64 \<Rightarrow> bool" where
  "lane_in_cone v i observer_pos forward_dir cos_half_angle_sq max_range_sq personal_space_sq =
     (let dx = ln_x v ! i - vec_x observer_pos;
          dy = ln_y v ! i - vec_y observer_pos;
          dz = ln_z v ! i - vec_z observer_pos;
          dist_sq = dx * dx + dy * dy + dz * dz
      in if dist_sq > max_range_sq then False
         else if dist_sq \<le> personal_space_sq then True
         else
           (let dot = dx * vec_x forward_dir + dz * vec_z forward_dir in
            if dot > Fixed64_ZERO then dot * dot \<ge> cos_half_angle_sq * dist_sq else False))"

definition filter_within_vision_cone :: "Vec3Lanes \<Rightarrow> Vec3Fix \<Rightarrow> Vec3Fix \<Rightarrow> Fixed64 \<Rightarrow> Fixed64 \<Rightarrow> Fixed64 \<Rightarrow> u16" where
  "filter_within_vision_cone v observer_pos forward_dir cos_half_angle_sq max_range_sq personal_space_sq =
     mask_lanes 16 (\<lambda>i. lane_in_cone v i observer_pos forward_dir cos_half_angle_sq max_range_sq personal_space_sq)"

section \<open>Lane by lane\<close>

lemma bit_mask_lanes:
  "n \<le> LENGTH('a) \<Longrightarrow> bit (mask_lanes n test :: 'a::len word) i \<longleftrightarrow> i < n \<and> test i"
proof (induction n)
  case (Suc n)
  have "mask_lanes (Suc n) test = (if test n then or (mask_lanes n test) (push_bit n 1) else (mask_lanes n test :: 'a word))"
    by (simp add: mask_lanes_def)
  moreover have "bit (push_bit n (1 :: 'a word)) i \<longleftrightarrow> i = n" if "n < LENGTH('a)"
    using that by (auto simp: bit_simps)
  ultimately show ?case using Suc by (auto simp: bit_or_iff less_Suc_eq)
qed (simp add: mask_lanes_def)

lemma lane_from_slice: "i < n \<Longrightarrow> lane (lanes_from_slice n xs) i = xs ! i"
  by (simp add: lane_def lanes_from_slice_def)

text \<open>A lane's distance is the scalar distance.\<close>

lemma lane_distance: "i < n \<Longrightarrow> lane_distance_squared (lanes_from_slice n xs) i target = Vec3Fix_distance_squared (xs ! i) target"
  by (simp add: lane_distance_squared_def lanes_from_slice_def Vec3Fix_distance_squared_def Vec3Fix_magnitude_squared_def
      Vec3Fix_dot_def Vec3Fix_sub_def Let_def)

lemma bit_filter_within_radius:
  "n \<le> LENGTH('a) \<Longrightarrow> bit (lanes_filter_within_radius n (lanes_from_slice n xs) target r :: 'a::len word) i
    \<longleftrightarrow> i < n \<and> Vec3Fix_distance_squared (xs ! i) target \<le> r"
  by (auto simp: lanes_filter_within_radius_def bit_mask_lanes lanes_batch_distance_squared_def lane_distance Let_def)

definition step_position :: "Vec3Fix \<Rightarrow> Vec3Fix \<Rightarrow> Fixed64 \<Rightarrow> Vec3Fix" where
  "step_position p v dt = Vec3Fix_add p (Vec3Fix_scale v dt)"

lemma step_chunk_scalar:
  "lanes_write_to_slice n (lanes_map2 n (+) (lanes_from_slice n ps) (lanes_mul_scalar n (lanes_from_slice n vs) dt))
    = map (\<lambda>i. step_position (ps ! i) (vs ! i) dt) [0..<n]"
  by (simp add: lanes_write_to_slice_def lane_def lanes_map2_def lanes_mul_scalar_def lanes_from_slice_def
      step_position_def Vec3Fix_add_def Vec3Fix_scale_def)

end
