(* ===== verification/LinkedLists.thy ===== *)
theory LinkedLists
  imports Prelude
begin

text \<open>
  Doubly linked lists in arrays, as the spatial grid (\<^verbatim>\<open>eidolon-spatial/src/grid.rs\<close>) and the hotspot
  manager (\<^verbatim>\<open>quadtree.rs\<close>) thread them through their entity slots: an array of next links, an array
  of previous links and a head, with the largest 32-bit number as the end mark. The two steps the
  code takes on them are definitions here; the walk along the links is a partial function, since
  on a broken list it would not end.
\<close>

definition TERMINAL_INDEX :: u32 where
  "TERMINAL_INDEX = - 1"

record Links =
  lk_next :: "u32 list"
  lk_prev :: "u32 list"

text \<open>Putting an entity in front of a list; the result has the new head.\<close>

definition link_front :: "u32 \<Rightarrow> u32 \<Rightarrow> Links \<Rightarrow> Links" where
  "link_front i old_head l =
     (let next = (lk_next l)[unat i := old_head];
          prev = (lk_prev l)[unat i := TERMINAL_INDEX];
          prev = (if old_head \<noteq> TERMINAL_INDEX then prev[unat old_head := i] else prev)
      in \<lparr>lk_next = next, lk_prev = prev\<rparr>)"

text \<open>Taking an entity out: its neighbours are joined, and the new head is returned. Its own links are left.\<close>

definition unlink :: "u32 \<Rightarrow> u32 \<Rightarrow> Links \<Rightarrow> u32 \<times> Links" where
  "unlink i head l =
     (let prev = lk_prev l ! unat i; nxt = lk_next l ! unat i;
          (head, next) = (if prev = TERMINAL_INDEX then (nxt, lk_next l) else (head, (lk_next l)[unat prev := nxt]));
          prevs = (if nxt \<noteq> TERMINAL_INDEX then (lk_prev l)[unat nxt := prev] else lk_prev l)
      in (head, \<lparr>lk_next = next, lk_prev = prevs\<rparr>))"

definition clear_links :: "u32 \<Rightarrow> Links \<Rightarrow> Links" where
  "clear_links i l = \<lparr>lk_next = (lk_next l)[unat i := TERMINAL_INDEX], lk_prev = (lk_prev l)[unat i := TERMINAL_INDEX]\<rparr>"

partial_function (option) walk :: "u32 list \<Rightarrow> u32 \<Rightarrow> u32 list option" where
  "walk next head =
     (if head = TERMINAL_INDEX then Some []
      else Option.bind (walk next (next ! unat head)) (\<lambda>rest. Some (head # rest)))"

declare walk.simps [code]

section \<open>What a list is\<close>

fun chain :: "u32 list \<Rightarrow> u32 \<Rightarrow> u32 list \<Rightarrow> bool" where
  "chain next head [] \<longleftrightarrow> head = TERMINAL_INDEX"
| "chain next head (i # is) \<longleftrightarrow> head = i \<and> i \<noteq> TERMINAL_INDEX \<and> unat i < length next \<and> chain next (next ! unat i) is"

fun back_links :: "u32 list \<Rightarrow> u32 \<Rightarrow> u32 list \<Rightarrow> bool" where
  "back_links prev p [] \<longleftrightarrow> True"
| "back_links prev p (i # is) \<longleftrightarrow> unat i < length prev \<and> prev ! unat i = p \<and> back_links prev i is"

definition linked :: "Links \<Rightarrow> u32 \<Rightarrow> u32 list \<Rightarrow> bool" where
  "linked l head ids \<longleftrightarrow> chain (lk_next l) head ids \<and> back_links (lk_prev l) TERMINAL_INDEX ids \<and> distinct ids"

lemma walk_chain: "chain next head ids \<Longrightarrow> walk next head = Some ids"
proof (induction ids arbitrary: head)
  case Nil
  then show ?case by (subst walk.simps) simp
next
  case (Cons i ids)
  then show ?case by (subst walk.simps) simp
qed

text \<open>A list does not see changes at other entities.\<close>

lemma chain_update: "i \<notin> set ids \<Longrightarrow> chain (next[unat i := v]) head ids = chain next head ids"
proof (induction ids arbitrary: head)
  case (Cons j ids)
  then have "unat i \<noteq> unat j" by (auto simp: word_unat_eq_iff)
  then show ?case using Cons by simp
qed simp

lemma back_update: "i \<notin> set ids \<Longrightarrow> back_links (prev[unat i := v]) p ids = back_links prev p ids"
proof (induction ids arbitrary: p)
  case (Cons j ids)
  then have "unat i \<noteq> unat j" by (auto simp: word_unat_eq_iff)
  then show ?case using Cons by simp
qed simp

lemma chain_members: "chain next head ids \<Longrightarrow> j \<in> set ids \<Longrightarrow> j \<noteq> TERMINAL_INDEX \<and> unat j < length next"
  by (induction ids arbitrary: head) auto

lemma chain_head: "chain next head ids \<Longrightarrow> head = (case ids of [] \<Rightarrow> TERMINAL_INDEX | i # is \<Rightarrow> i)"
  by (cases ids) auto

lemma linked_head: "linked l head ids \<Longrightarrow> head \<noteq> TERMINAL_INDEX \<Longrightarrow> head \<in> set ids"
  by (cases ids) (auto simp: linked_def)

lemma linked_empty [simp]: "linked l head [] \<longleftrightarrow> head = TERMINAL_INDEX"
  by (simp add: linked_def)

lemma back_append: "back_links prev p (xs @ ys) \<longleftrightarrow> back_links prev p xs \<and> back_links prev (if xs = [] then p else last xs) ys"
  by (induction xs arbitrary: p) auto

lemma chain_append:
  "chain next head (xs @ ys) \<longleftrightarrow> chain next head (xs @ ys) \<and> (ys \<noteq> [] \<longrightarrow> chain next (hd ys) ys)"
proof (induction xs arbitrary: head)
  case Nil
  then show ?case by (cases ys) auto
qed auto

section \<open>The two steps\<close>

lemma linked_front:
  assumes "linked l head ids" and "i \<notin> set ids" and "i \<noteq> TERMINAL_INDEX" and "unat i < length (lk_next l)" "unat i < length (lk_prev l)"
  shows "linked (link_front i head l) i (i # ids)"
proof -
  have c: "chain (lk_next l) head ids" and b: "back_links (lk_prev l) TERMINAL_INDEX ids" and d: "distinct ids"
    using assms(1) by (simp_all add: linked_def)
  have "chain ((lk_next l)[unat i := head]) head ids" using c chain_update [OF assms(2)] by simp
  moreover have "back_links (lk_prev (link_front i head l)) i ids"
  proof (cases ids)
    case Nil
    then show ?thesis by simp
  next
    case (Cons j js)
    then have h: "head = j" "j \<noteq> TERMINAL_INDEX" "j \<notin> set js" "i \<noteq> j" using c d assms(2) by auto
    have "back_links ((lk_prev l)[unat i := TERMINAL_INDEX]) TERMINAL_INDEX ids" using b back_update [OF assms(2)] by simp
    then show ?thesis using h by (auto simp: link_front_def Cons Let_def back_update)
  qed
  moreover have "lk_prev (link_front i head l) ! unat i = TERMINAL_INDEX"
  proof -
    have "unat head \<noteq> unat i" if "head \<noteq> TERMINAL_INDEX"
    proof -
      have "head \<noteq> i" using linked_head [OF assms(1) that] assms(2) by auto
      then show ?thesis by (simp add: word_unat_eq_iff)
    qed
    then show ?thesis using assms(5) by (simp add: link_front_def Let_def)
  qed
  ultimately show ?thesis using assms d by (simp add: linked_def link_front_def Let_def)
qed

lemma chain_join:
  assumes "chain next head (xs @ [p] @ [i] @ ys)" and "distinct (xs @ [p] @ [i] @ ys)"
  shows "chain (next[unat p := next ! unat i]) head (xs @ [p] @ ys)"
  using assms
proof (induction xs arbitrary: head)
  case Nil
  have "unat p \<noteq> unat i" using Nil.prems(2) by (auto simp: word_unat_eq_iff)
  with Nil chain_update [of p ys] show ?case by simp
next
  case (Cons x xs)
  have "unat p \<noteq> unat x" using Cons.prems(2) by (auto simp: word_unat_eq_iff)
  with Cons show ?case by simp
qed

lemma linked_unlink:
  assumes "linked l head (xs @ i # ys)" and u: "unlink i head l = (head1, l1)"
  shows "linked l1 head1 (xs @ ys)"
proof -
  let ?n = "lk_next l ! unat i" and ?p = "lk_prev l ! unat i"
  have c: "chain (lk_next l) head (xs @ i # ys)" and b: "back_links (lk_prev l) TERMINAL_INDEX (xs @ i # ys)"
    and d: "distinct (xs @ i # ys)" using assms(1) by (simp_all add: linked_def)
  have ci: "chain (lk_next l) i (i # ys)" using c chain_append [of "lk_next l" head xs "i # ys"] by simp
  then have n: "?n = (case ys of [] \<Rightarrow> TERMINAL_INDEX | j # js \<Rightarrow> j)" using chain_head by auto
  have bs: "back_links (lk_prev l) TERMINAL_INDEX xs" "?p = (if xs = [] then TERMINAL_INDEX else last xs)" "back_links (lk_prev l) i ys"
    using b by (simp_all add: back_append)
  have l1: "lk_next l1 = (if ?p = TERMINAL_INDEX then lk_next l else (lk_next l)[unat ?p := ?n])"
      "head1 = (if ?p = TERMINAL_INDEX then ?n else head)"
      "lk_prev l1 = (if ?n \<noteq> TERMINAL_INDEX then (lk_prev l)[unat ?n := ?p] else lk_prev l)"
    using u by (auto simp: unlink_def Let_def split: if_splits)
  have "chain (lk_next l1) head1 (xs @ ys)"
  proof (cases xs rule: rev_cases)
    case Nil
    then show ?thesis using ci bs(2) l1(1,2) by simp
  next
    case (snoc zs z)
    have "z \<noteq> TERMINAL_INDEX" using chain_members [OF c, of z] snoc by simp
    then have p: "?p = z" "?p \<noteq> TERMINAL_INDEX" using bs(2) snoc by simp_all
    from chain_join [of "lk_next l" head zs z i ys] c d snoc show ?thesis unfolding l1(1,2) using p by simp
  qed
  moreover have "back_links (lk_prev l1) TERMINAL_INDEX (xs @ ys)"
  proof (cases ys)
    case Nil
    then show ?thesis using bs(1) n l1(3) by simp
  next
    case (Cons j js)
    have "j \<noteq> TERMINAL_INDEX" using chain_members [OF c, of j] Cons by simp
    then have pr: "lk_prev l1 = (lk_prev l)[unat j := ?p]" using n Cons l1(3) by simp
    have "j \<notin> set xs" "j \<notin> set js" "unat j < length (lk_prev l)" using d bs(3) Cons by auto
    then show ?thesis unfolding pr Cons using bs Cons by (simp add: back_append back_update)
  qed
  ultimately show ?thesis using d by (simp add: linked_def)
qed

text \<open>The steps change the links of the entity and of the list only.\<close>

lemma linked_frame_front:
  assumes "linked l head ids" and "linked l h1 js" and "set ids \<inter> set js = {}" and "i \<notin> set js"
  shows "linked (link_front i head l) h1 js"
proof -
  have "head \<noteq> TERMINAL_INDEX \<Longrightarrow> head \<notin> set js" using linked_head [OF assms(1)] assms(3) by auto
  then show ?thesis using assms(2,4) by (simp add: linked_def link_front_def Let_def chain_update back_update)
qed

lemma neighbours_in:
  assumes "linked l head (xs @ i # ys)"
  shows "lk_prev l ! unat i \<noteq> TERMINAL_INDEX \<Longrightarrow> lk_prev l ! unat i \<in> set xs"
    and "lk_next l ! unat i \<noteq> TERMINAL_INDEX \<Longrightarrow> lk_next l ! unat i \<in> set ys"
proof -
  have c: "chain (lk_next l) head (xs @ i # ys)" and b: "back_links (lk_prev l) TERMINAL_INDEX (xs @ i # ys)"
    using assms by (simp_all add: linked_def)
  show "lk_prev l ! unat i \<noteq> TERMINAL_INDEX \<Longrightarrow> lk_prev l ! unat i \<in> set xs"
    using b by (auto simp: back_append split: if_splits)
  have "chain (lk_next l) i (i # ys)" using c chain_append [of "lk_next l" head xs "i # ys"] by simp
  then show "lk_next l ! unat i \<noteq> TERMINAL_INDEX \<Longrightarrow> lk_next l ! unat i \<in> set ys" by (cases ys) auto
qed

lemma linked_frame_unlink:
  assumes "linked l head (xs @ i # ys)" and "linked l h1 js" and "set (xs @ i # ys) \<inter> set js = {}" and u: "unlink i head l = (head1, l1)"
  shows "linked l1 h1 js"
proof -
  have "lk_prev l ! unat i \<noteq> TERMINAL_INDEX \<Longrightarrow> lk_prev l ! unat i \<notin> set js"
    "lk_next l ! unat i \<noteq> TERMINAL_INDEX \<Longrightarrow> lk_next l ! unat i \<notin> set js"
    using neighbours_in [OF assms(1)] assms(3) by auto
  then show ?thesis using assms(2) u by (auto simp: linked_def unlink_def Let_def chain_update back_update split: if_splits)
qed

lemma linked_clear: "i \<notin> set ids \<Longrightarrow> linked (clear_links i l) head ids = linked l head ids"
  by (simp add: linked_def clear_links_def chain_update back_update)

lemma links_length [simp]:
  "length (lk_next (link_front i h l)) = length (lk_next l)" "length (lk_prev (link_front i h l)) = length (lk_prev l)"
  "length (lk_next (clear_links i l)) = length (lk_next l)" "length (lk_prev (clear_links i l)) = length (lk_prev l)"
  by (simp_all add: link_front_def clear_links_def Let_def)

lemma unlink_length:
  "unlink i h l = (h1, l1) \<Longrightarrow> length (lk_next l1) = length (lk_next l) \<and> length (lk_prev l1) = length (lk_prev l)"
  by (auto simp: unlink_def Let_def split: if_splits)

section \<open>Many lists over one array\<close>

text \<open>
  The lists of an index: a head for every key, and for each entity the key whose list it is in.
  \<open>H\<close> gives the heads, \<open>K\<close> is the set of keys in use.
\<close>

definition index_ok :: "Links \<Rightarrow> ('k \<Rightarrow> u32) \<Rightarrow> 'k set \<Rightarrow> (u32 \<Rightarrow> 'k option) \<Rightarrow> bool" where
  "index_ok l H K owner \<longleftrightarrow> (\<forall>k\<in>K. \<exists>ids. linked l (H k) ids \<and> set ids = {e. owner e = Some k})
     \<and> (\<forall>e k. owner e = Some k \<longrightarrow> k \<in> K)"

lemma index_okD:
  assumes "index_ok l H K owner" and "k \<in> K"
  obtains ids where "linked l (H k) ids" "set ids = {e. owner e = Some k}"
  using assms by (auto simp: index_ok_def)

lemma index_okI:
  assumes "\<And>k. k \<in> K \<Longrightarrow> \<exists>ids. linked l (H k) ids \<and> set ids = {e. owner e = Some k}"
    and "\<And>e k. owner e = Some k \<Longrightarrow> k \<in> K"
  shows "index_ok l H K owner"
  using assms by (simp add: index_ok_def)

lemma index_owner: "index_ok l H K owner \<Longrightarrow> owner e = Some k \<Longrightarrow> k \<in> K"
  by (auto simp: index_ok_def)

lemma index_member:
  assumes ok: "index_ok l H K owner" and o: "owner e = Some k"
  shows "e \<noteq> TERMINAL_INDEX" "unat e < length (lk_next l)"
proof -
  obtain ids where ids: "linked l (H k) ids" "set ids = {e. owner e = Some k}" using index_okD [OF ok index_owner [OF ok o]] .
  then have "chain (lk_next l) (H k) ids" "e \<in> set ids" using o by (simp_all add: linked_def)
  then show "e \<noteq> TERMINAL_INDEX" "unat e < length (lk_next l)" using chain_members by blast+
qed

lemma index_walk:
  assumes "index_ok l H K owner" and "k \<in> K"
  shows "\<exists>ids. walk (lk_next l) (H k) = Some ids \<and> distinct ids \<and> set ids = {e. owner e = Some k}"
proof -
  obtain ids where "linked l (H k) ids" "set ids = {e. owner e = Some k}" using index_okD [OF assms] .
  then show ?thesis using walk_chain [of "lk_next l" "H k" ids] by (auto simp: linked_def)
qed

lemma index_front:
  assumes ok: "index_ok l H K owner" and e: "owner e = None" "e \<noteq> TERMINAL_INDEX" "unat e < length (lk_next l)" "unat e < length (lk_prev l)"
    and k: "k \<in> K"
  shows "index_ok (link_front e (H k) l) (H(k := e)) K (owner(e := Some k))"
proof (rule index_okI)
  fix k' assume k': "k' \<in> K"
  obtain ids where ids: "linked l (H k) ids" "set ids = {e. owner e = Some k}" using index_okD [OF ok k] .
  show "\<exists>ids. linked (link_front e (H k) l) ((H(k := e)) k') ids \<and> set ids = {e'. (owner(e := Some k)) e' = Some k'}"
  proof (cases "k' = k")
    case True
    have "e \<notin> set ids" using ids(2) e(1) by simp
    from linked_front [OF ids(1) this e(2-4)] ids(2) True show ?thesis by (intro exI [of _ "e # ids"]) auto
  next
    case False
    obtain js where js: "linked l (H k') js" "set js = {e. owner e = Some k'}" using index_okD [OF ok k'] .
    have "linked (link_front e (H k) l) (H k') js"
      by (rule linked_frame_front [OF ids(1) js(1)]) (use ids(2) js(2) e(1) False in auto)
    with js(2) e(1) False show ?thesis by (intro exI [of _ js]) auto
  qed
next
  fix e' k' assume "(owner(e := Some k)) e' = Some k'"
  then show "k' \<in> K" using k index_owner [OF ok] by (auto split: if_splits)
qed

lemma index_unlink:
  assumes ok: "index_ok l H K owner" and o: "owner e = Some k" and u: "unlink e (H k) l = (h1, l1)"
  shows "index_ok l1 (H(k := h1)) K (owner(e := None))"
proof (rule index_okI)
  fix k' assume k': "k' \<in> K"
  obtain ids where ids: "linked l (H k) ids" "set ids = {e. owner e = Some k}" using index_okD [OF ok index_owner [OF ok o]] .
  then obtain xs ys where xy: "ids = xs @ e # ys" using o by (metis mem_Collect_eq split_list)
  have d: "distinct ids" using ids(1) by (simp add: linked_def)
  show "\<exists>ids. linked l1 ((H(k := h1)) k') ids \<and> set ids = {e'. (owner(e := None)) e' = Some k'}"
  proof (cases "k' = k")
    case True
    have "set (xs @ ys) = {e'. owner e' = Some k} - {e}" using d unfolding ids(2) [symmetric] xy by auto
    then have "set (xs @ ys) = {e'. (owner(e := None)) e' = Some k'}" using True by auto
    with linked_unlink [OF ids(1)[unfolded xy] u] True show ?thesis by (intro exI [of _ "xs @ ys"]) simp
  next
    case False
    obtain js where js: "linked l (H k') js" "set js = {e. owner e = Some k'}" using index_okD [OF ok k'] .
    have "set ids \<inter> set js = {}" unfolding ids(2) js(2) using False by auto
    from linked_frame_unlink [OF ids(1)[unfolded xy] js(1) this[unfolded xy] u] js(2) o False show ?thesis
      by (intro exI [of _ js]) auto
  qed
next
  fix e' k' assume "(owner(e := None)) e' = Some k'"
  then show "k' \<in> K" using index_owner [OF ok] by (auto split: if_splits)
qed

lemma index_clear:
  assumes "index_ok l H K owner" and "owner e = None"
  shows "index_ok (clear_links e l) H K owner"
proof (rule index_okI)
  fix k assume "k \<in> K"
  then obtain ids where "linked l (H k) ids" "set ids = {e. owner e = Some k}" using index_okD [OF assms(1)] by blast
  then show "\<exists>ids. linked (clear_links e l) (H k) ids \<and> set ids = {e. owner e = Some k}"
    using assms(2) linked_clear [of e ids l "H k"] by auto
qed (use index_owner [OF assms(1)] in blast)

text \<open>A list that is given up, and the keys under another name.\<close>

lemma index_drop:
  assumes "index_ok l H K owner"
  shows "index_ok l (H(k := TERMINAL_INDEX)) K (\<lambda>e. if owner e = Some k then None else owner e)"
proof (rule index_okI)
  fix k' assume k': "k' \<in> K"
  obtain ids where ids: "linked l (H k') ids" "set ids = {e. owner e = Some k'}" using index_okD [OF assms k'] .
  show "\<exists>ids. linked l ((H(k := TERMINAL_INDEX)) k') ids \<and> set ids = {e. (if owner e = Some k then None else owner e) = Some k'}"
    using ids by (cases "k' = k") (auto intro: exI [of _ "[]"] exI [of _ ids])
qed (use index_owner [OF assms] in \<open>auto split: if_splits\<close>)

lemma index_rename:
  assumes ok: "index_ok l H K owner" and inj: "inj_on f K" and H: "\<And>k. k \<in> K \<Longrightarrow> H1 (f k) = H k" and K1: "K1 = f ` K"
  shows "index_ok l H1 K1 (\<lambda>e. map_option f (owner e))"
proof (rule index_okI)
  fix k1 assume "k1 \<in> K1"
  then obtain k where k: "k \<in> K" "k1 = f k" using K1 by blast
  obtain ids where ids: "linked l (H k) ids" "set ids = {e. owner e = Some k}" using index_okD [OF ok k(1)] .
  have "map_option f (owner e) = Some k1 \<longleftrightarrow> owner e = Some k" for e
    using k inj index_owner [OF ok] by (cases "owner e") (auto dest: inj_onD)
  with ids k H show "\<exists>ids. linked l (H1 k1) ids \<and> set ids = {e. map_option f (owner e) = Some k1}"
    by (intro exI [of _ ids]) simp
qed (use index_owner [OF ok] K1 in auto)

lemma index_cong:
  assumes "index_ok l H K owner" and "\<And>k. k \<in> K \<Longrightarrow> H1 k = H k" and "\<And>e. owner1 e = owner e"
  shows "index_ok l H1 K owner1"
proof -
  have "owner1 = owner" using assms(3) by auto
  with assms(1,2) show ?thesis by (auto simp: index_ok_def)
qed

text \<open>Keys without a list come and go freely.\<close>

lemma index_add_keys:
  assumes "index_ok l H K owner" and "\<And>k. k \<in> N \<Longrightarrow> k \<notin> K \<Longrightarrow> H k = TERMINAL_INDEX"
  shows "index_ok l H (K \<union> N) owner"
proof (rule index_okI)
  fix k assume k: "k \<in> K \<union> N"
  show "\<exists>ids. linked l (H k) ids \<and> set ids = {e. owner e = Some k}"
  proof (cases "k \<in> K")
    case True
    then show ?thesis using assms(1) by (auto simp: index_ok_def)
  next
    case False
    then have "{e. owner e = Some k} = {}" using index_owner [OF assms(1)] by auto
    then show ?thesis using False k assms(2) by (intro exI [of _ "[]"]) simp
  qed
qed (use index_owner [OF assms(1)] in blast)

lemma index_drop_keys:
  assumes "index_ok l H K owner" and "K1 \<subseteq> K" and "\<And>e k. owner e = Some k \<Longrightarrow> k \<in> K1"
  shows "index_ok l H K1 owner"
  using assms by (auto simp: index_ok_def)

lemma index_empty: "(\<And>k. k \<in> K \<Longrightarrow> H k = TERMINAL_INDEX) \<Longrightarrow> (\<And>e. owner e = None) \<Longrightarrow> index_ok l H K owner"
  by (auto simp: index_ok_def intro!: exI [of _ "[]"])

end
