(* ===== verification/Spatial.thy ===== *)
theory Spatial
  imports FixedPoint Morton LinkedLists
begin

text \<open>
  The vocabulary of the spatial index (\<^verbatim>\<open>eidolon-spatial/src/grid.rs\<close>): cells of 64 by 32 by 64
  metres, their keys, the result of a query, and the extent of the neighbourhood that a query
  visits.
\<close>

section \<open>Cells\<close>

definition GRID_CELL_HORIZONTAL_SIZE :: i32 where "GRID_CELL_HORIZONTAL_SIZE = 64"

definition GRID_CELL_VERTICAL_SIZE :: i32 where "GRID_CELL_VERTICAL_SIZE = 32"

datatype SpatialError =
    SpatialEntityNotFound u32
  | SpatialEntityAlreadyExists u32
  | SpatialCapacityExceeded
  | InvalidEntityId u32

record SpatialQueryResult =
  qr_written :: nat
  qr_total_matches :: nat

definition SpatialQueryResult_new :: "nat \<Rightarrow> nat \<Rightarrow> SpatialQueryResult" where
  "SpatialQueryResult_new written total_matches = \<lparr>qr_written = written, qr_total_matches = total_matches\<rparr>"

definition is_truncated :: "SpatialQueryResult \<Rightarrow> bool" where
  "is_truncated r \<longleftrightarrow> qr_total_matches r > qr_written r"

record CellCoord =
  cc_x :: i32
  cc_y :: i32
  cc_z :: i32

definition CellCoord_new :: "i32 \<Rightarrow> i32 \<Rightarrow> i32 \<Rightarrow> CellCoord" where
  "CellCoord_new x y z = \<lparr>cc_x = x, cc_y = y, cc_z = z\<rparr>"

text \<open>\<open>div_euclid\<close> by a positive number rounds down.\<close>

definition div_euclid :: "i32 \<Rightarrow> i32 \<Rightarrow> i32" where
  "div_euclid a b = word_of_int (sint a div sint b)"

definition CellCoord_from_position :: "Vec3Fix \<Rightarrow> CellCoord" where
  "CellCoord_from_position pos =
     (let cx = div_euclid (Fixed64_to_i32 (vec_x pos)) GRID_CELL_HORIZONTAL_SIZE;
          cy = div_euclid (Fixed64_to_i32 (vec_y pos)) GRID_CELL_VERTICAL_SIZE;
          cz = div_euclid (Fixed64_to_i32 (vec_z pos)) GRID_CELL_HORIZONTAL_SIZE
      in \<lparr>cc_x = cx, cc_y = cy, cc_z = cz\<rparr>)"

text \<open>The casts to 64 bits extend the sign; the masks keep 24, 24 and 16 bits.\<close>

definition spatial_key :: "CellCoord \<Rightarrow> u64" where
  "spatial_key c =
     (let x_bits = and (signed (cc_x c)) 0x00FFFFFF;
          z_bits = and (signed (cc_z c)) 0x00FFFFFF;
          y_bits = and (signed (cc_y c)) 0x0000FFFF
      in or (or (push_bit 40 x_bits) (push_bit 16 z_bits)) y_bits)"

section \<open>The neighbourhood of a query\<close>

definition max_i32 :: "i32 \<Rightarrow> i32 \<Rightarrow> i32" where
  "max_i32 a b = (if sint a < sint b then b else a)"

text \<open>The cells to visit on both sides, from the radius: by thresholds up to 128 metres, by the root beyond.\<close>

definition root_extent :: "Fixed64 \<Rightarrow> i32 \<times> i32" where
  "root_extent radius_sq =
     (let r_fixed = Fixed64_sqrt radius_sq;
          dx = max_i32 (Fixed64_to_i32 (Fixed64_ceil (Fixed64_saturating_div r_fixed (Fixed64_from_i32 GRID_CELL_HORIZONTAL_SIZE)))) 1;
          dy = max_i32 (Fixed64_to_i32 (Fixed64_ceil (Fixed64_saturating_div r_fixed (Fixed64_from_i32 GRID_CELL_VERTICAL_SIZE)))) 1
      in (dx, dy))"

definition search_extent :: "Fixed64 \<Rightarrow> i32 \<times> i32" where
  "search_extent radius_sq =
     (if radius_sq \<le> Fixed64_from_i32 4096 then (1, if radius_sq \<le> Fixed64_from_i32 1024 then 1 else 2)
      else if radius_sq \<le> Fixed64_from_i32 16384 then (2, 4)
      else root_extent radius_sq)"

text \<open>The range \<open>-m..=m\<close>, and the cells in the order of the three loops.\<close>

definition symmetric_range :: "i32 \<Rightarrow> i32 list" where
  "symmetric_range m = map word_of_int [- sint m .. sint m]"

definition neighbor_cells :: "CellCoord \<Rightarrow> i32 \<times> i32 \<Rightarrow> CellCoord list" where
  "neighbor_cells center extent =
     (case extent of (max_dx, max_dy) \<Rightarrow>
        concat (map (\<lambda>dx. concat (map (\<lambda>dz. map (\<lambda>dy. CellCoord_new (cc_x center + dx) (cc_y center + dy) (cc_z center + dz))
          (symmetric_range max_dy)) (symmetric_range max_dx))) (symmetric_range max_dx)))"

text \<open>Writing a match: into the buffer while there is room, and into the count always.\<close>

definition emit_match :: "u32 \<Rightarrow> u32 list \<times> nat \<Rightarrow> u32 list \<times> nat" where
  "emit_match i out =
     (case out of (buffer, matched_count) \<Rightarrow>
        (if matched_count < length buffer then buffer[matched_count := i] else buffer, matched_count + 1))"

definition finish_query :: "u32 list \<times> nat \<Rightarrow> u32 list \<times> SpatialQueryResult" where
  "finish_query out = (case out of (buffer, matched_count) \<Rightarrow>
     (buffer, SpatialQueryResult_new (min matched_count (length buffer)) matched_count))"

text \<open>Writing many matches; what the caller gets.\<close>

definition emit_all :: "u32 list \<Rightarrow> u32 list \<times> nat \<Rightarrow> u32 list \<times> nat" where
  "emit_all ids out = fold emit_match ids out"

lemma emit_all_simps [simp]: "emit_all [] out = out" "emit_all (xs @ ys) out = emit_all ys (emit_all xs out)"
  by (simp_all add: emit_all_def)

lemma emit_all_full: "length buffer \<le> n \<Longrightarrow> emit_all ids (buffer, n) = (buffer, n + length ids)"
  by (induction ids arbitrary: n) (simp_all add: emit_all_def emit_match_def)

lemma emit_all_from:
  "n \<le> length buffer \<Longrightarrow> emit_all ids (buffer, n) =
    (take n buffer @ take (length buffer - n) ids @ drop (n + length ids) buffer, n + length ids)"
proof (induction ids arbitrary: buffer n)
  case (Cons i ids)
  show ?case
  proof (cases "n < length buffer")
    case True
    have "emit_all (i # ids) (buffer, n) = emit_all ids (buffer[n := i], Suc n)" using True by (simp add: emit_all_def emit_match_def)
    also have "\<dots> = (take (Suc n) (buffer[n := i]) @ take (length buffer - Suc n) ids @ drop (Suc n + length ids) (buffer[n := i]), Suc n + length ids)"
      using Cons.IH [of "Suc n" "buffer[n := i]"] True by simp
    also have "take (Suc n) (buffer[n := i]) = take n buffer @ [i]" using True by (simp add: take_Suc_conv_app_nth)
    finally show ?thesis using True by (simp add: take_Cons' drop_update_cancel)
  next
    case False
    then have "n = length buffer" using Cons.prems by simp
    then show ?thesis using emit_all_full [of buffer n "i # ids"] by simp
  qed
qed simp

definition query_answer :: "u32 list \<Rightarrow> u32 list \<Rightarrow> u32 list \<times> SpatialQueryResult" where
  "query_answer ids buffer =
     (take (length buffer) ids @ drop (length ids) buffer, SpatialQueryResult_new (min (length ids) (length buffer)) (length ids))"

lemma finish_emit: "finish_query (emit_all ids (buffer, 0)) = query_answer ids buffer"
  by (auto simp: emit_all_from finish_query_def query_answer_def min_def)

section \<open>Positions and cells\<close>

lemma sint_cells:
  "sint (cc_x (CellCoord_from_position p)) = sint (raw (vec_x p)) div 2 ^ 38"
  "sint (cc_y (CellCoord_from_position p)) = sint (raw (vec_y p)) div 2 ^ 37"
  "sint (cc_z (CellCoord_from_position p)) = sint (raw (vec_z p)) div 2 ^ 38"
proof -
  have small: "sint (word_of_int (sint (w :: i32) div k) :: i32) = sint w div k" if "0 < k" for w k
  proof -
    have b: "- (2 ^ 31) \<le> sint w" "sint w < 2 ^ 31" using sint_ge [of w] sint_lt [of w] by simp_all
    have "- (2 ^ 31) \<le> sint w div k"
    proof (cases "0 \<le> sint w")
      case False
      then have "sint w div 1 \<le> sint w div k" using that by (intro zdiv_mono2_neg) simp_all
      then show ?thesis using b by simp
    next
      case True
      then have "0 \<le> sint w div k" using that by (simp add: pos_imp_zdiv_nonneg_iff)
      then show ?thesis by simp
    qed
    moreover have "sint w div k < 2 ^ 31"
    proof (cases "0 \<le> sint w")
      case True
      then have "sint w div k \<le> sint w div 1" using that by (intro zdiv_mono2) simp_all
      then show ?thesis using b by simp
    next
      case False
      then have "sint w div k < 0" using that by (simp add: div_neg_pos_less0)
      then show ?thesis by simp
    qed
    ultimately show ?thesis by (simp add: sint_of_int_range)
  qed
  have s: "sint GRID_CELL_HORIZONTAL_SIZE = 64" "sint GRID_CELL_VERTICAL_SIZE = 32"
    by (simp_all add: GRID_CELL_HORIZONTAL_SIZE_def GRID_CELL_VERTICAL_SIZE_def)
  have i: "sint (cc_x (CellCoord_from_position p)) = sint (Fixed64_to_i32 (vec_x p)) div 64"
    "sint (cc_y (CellCoord_from_position p)) = sint (Fixed64_to_i32 (vec_y p)) div 32"
    "sint (cc_z (CellCoord_from_position p)) = sint (Fixed64_to_i32 (vec_z p)) div 64"
    by (simp_all add: CellCoord_from_position_def div_euclid_def s small Let_def)
  show "sint (cc_x (CellCoord_from_position p)) = sint (raw (vec_x p)) div 2 ^ 38"
    "sint (cc_y (CellCoord_from_position p)) = sint (raw (vec_y p)) div 2 ^ 37"
    "sint (cc_z (CellCoord_from_position p)) = sint (raw (vec_z p)) div 2 ^ 38"
    unfolding i sint_to_i32 by (simp_all add: zdiv_zmult2_eq [symmetric])
qed

lemma CellCoord_eqI: "sint (cc_x a) = sint (cc_x b) \<Longrightarrow> sint (cc_y a) = sint (cc_y b) \<Longrightarrow> sint (cc_z a) = sint (cc_z b) \<Longrightarrow> (a :: CellCoord) = b"
  by (cases a; cases b) (auto intro: sint_eqD)

end
