(* ===== verification/Quadtree.thy ===== *)
theory Quadtree
  imports Spatial
begin

text \<open>
  Hotspots (\<^verbatim>\<open>eidolon-spatial/src/quadtree.rs\<close>): cells that hold many entities are split into sixteen
  leaves of 16 metres, each with a linked list of its entities, and merged again when they empty;
  a query prunes quadrants and leaves by their distance. A loop along links that would not end is
  \<open>None\<close>; that the operations return is part of the theorems.
\<close>

section \<open>Boxes\<close>

definition HOTSPOT_SPLIT_THRESHOLD :: nat where "HOTSPOT_SPLIT_THRESHOLD = 250"

definition HOTSPOT_MERGE_THRESHOLD :: nat where "HOTSPOT_MERGE_THRESHOLD = 100"

definition MICRO_QUADRANT_SIZE :: i32 where "MICRO_QUADRANT_SIZE = 16"

definition MICRO_QUADRANTS_PER_CELL :: nat where "MICRO_QUADRANTS_PER_CELL = 16"

abbreviation QUADTREE_EMPTY :: u32 where "QUADTREE_EMPTY \<equiv> TERMINAL_INDEX"

record QuadtreeAabb =
  qa_min_x :: Fixed64
  qa_max_x :: Fixed64
  qa_min_z :: Fixed64
  qa_max_z :: Fixed64

definition axis_distance :: "Fixed64 \<Rightarrow> Fixed64 \<Rightarrow> Fixed64 \<Rightarrow> Fixed64" where
  "axis_distance mn mx c = (if c < mn then mn - c else if c > mx then c - mx else Fixed64_ZERO)"

definition distance_squared_to_point :: "QuadtreeAabb \<Rightarrow> Fixed64 \<Rightarrow> Fixed64 \<Rightarrow> Fixed64" where
  "distance_squared_to_point a cx cz =
     (let dx = axis_distance (qa_min_x a) (qa_max_x a) cx; dz = axis_distance (qa_min_z a) (qa_max_z a) cz
      in dx * dx + dz * dz)"

definition intersects_circle :: "QuadtreeAabb \<Rightarrow> Fixed64 \<Rightarrow> Fixed64 \<Rightarrow> Fixed64 \<Rightarrow> bool" where
  "intersects_circle a cx cz radius_sq \<longleftrightarrow> distance_squared_to_point a cx cz \<le> radius_sq"

section \<open>A hotspot cell\<close>

record HotspotCell =
  hc_cell :: CellCoord
  hc_is_split :: bool
  hc_entity_count :: nat
  hc_flat_head :: u32
  hc_leaf_heads :: "u32 list"
  hc_leaf_counts :: "u32 list"
  hc_quadrant_aabbs :: "QuadtreeAabb list"
  hc_leaf_aabbs :: "QuadtreeAabb list"

definition aabb_at :: "i32 \<Rightarrow> i32 \<Rightarrow> i32 \<Rightarrow> i32 \<Rightarrow> QuadtreeAabb" where
  "aabb_at min_x max_x min_z max_z =
     \<lparr>qa_min_x = Fixed64_from_i32 min_x, qa_max_x = Fixed64_from_i32 max_x,
      qa_min_z = Fixed64_from_i32 min_z, qa_max_z = Fixed64_from_i32 max_z\<rparr>"

definition quadrant_aabbs_of :: "i32 \<Rightarrow> i32 \<Rightarrow> QuadtreeAabb list" where
  "quadrant_aabbs_of base_x base_z =
     [aabb_at base_x (base_x + 32) (base_z + 32) (base_z + 64),
      aabb_at (base_x + 32) (base_x + 64) (base_z + 32) (base_z + 64),
      aabb_at base_x (base_x + 32) base_z (base_z + 32),
      aabb_at (base_x + 32) (base_x + 64) base_z (base_z + 32)]"

definition leaf_aabbs_of :: "i32 \<Rightarrow> i32 \<Rightarrow> QuadtreeAabb list" where
  "leaf_aabbs_of base_x base_z =
     concat (map (\<lambda>iz. map (\<lambda>ix.
       let lx_min = base_x + word_of_nat ix * 16; lx_max = lx_min + 16;
           lz_min = base_z + word_of_nat iz * 16; lz_max = lz_min + 16
       in aabb_at lx_min lx_max lz_min lz_max) [0..<4]) [0..<4])"

definition HotspotCell_new :: "CellCoord \<Rightarrow> HotspotCell" where
  "HotspotCell_new c =
     (let base_x = cc_x c * GRID_CELL_HORIZONTAL_SIZE; base_z = cc_z c * GRID_CELL_HORIZONTAL_SIZE
      in \<lparr>hc_cell = c, hc_is_split = False, hc_entity_count = 0, hc_flat_head = QUADTREE_EMPTY,
          hc_leaf_heads = replicate MICRO_QUADRANTS_PER_CELL QUADTREE_EMPTY,
          hc_leaf_counts = replicate MICRO_QUADRANTS_PER_CELL 0,
          hc_quadrant_aabbs = quadrant_aabbs_of base_x base_z, hc_leaf_aabbs = leaf_aabbs_of base_x base_z\<rparr>)"

text \<open>Division of \<open>i32\<close> rounds towards zero; the result is clamped to 0..=3.\<close>

definition leaf_axis :: "i32 \<Rightarrow> nat" where
  "leaf_axis local = nat (max 0 (min 3 (sint local sdiv sint MICRO_QUADRANT_SIZE)))"

definition compute_leaf_index :: "HotspotCell \<Rightarrow> Vec3Fix \<Rightarrow> nat" where
  "compute_leaf_index h pos =
     (let base_x = cc_x (hc_cell h) * GRID_CELL_HORIZONTAL_SIZE; base_z = cc_z (hc_cell h) * GRID_CELL_HORIZONTAL_SIZE;
          local_x = Fixed64_to_i32 (vec_x pos) - base_x; local_z = Fixed64_to_i32 (vec_z pos) - base_z;
          ix = leaf_axis local_x; iz = leaf_axis local_z
      in iz * 4 + ix)"

definition leaf_to_quadrant :: "nat \<Rightarrow> nat" where
  "leaf_to_quadrant leaf_idx =
     (let ix = leaf_idx mod 4; iz = leaf_idx div 4; qx = ix div 2; qz = iz div 2
      in if qx = 0 \<and> qz = 1 then 0 else if qx = 1 \<and> qz = 1 then 1 else if qx = 0 \<and> qz = 0 then 2 else 3)"

definition quadrant_to_leaves :: "nat \<Rightarrow> nat list" where
  "quadrant_to_leaves quadrant_idx =
     (if quadrant_idx = 0 then [8, 9, 12, 13]
      else if quadrant_idx = 1 then [10, 11, 14, 15]
      else if quadrant_idx = 2 then [0, 1, 4, 5]
      else [2, 3, 6, 7])"

section \<open>The manager\<close>

record HotspotManager =
  hm_max_entities :: nat
  hm_max_hotspots :: nat
  hm_hotspot_cells :: "HotspotCell list"
  hm_active_hotspots_count :: nat
  hm_links :: Links
  hm_entity_positions :: "Vec3Fix list"
  hm_entity_hotspot_id :: "u16 list"
  hm_entity_leaf_idx :: "u8 list"
  hm_entity_active :: "bool list"

definition HotspotManager_new :: "nat \<Rightarrow> nat \<Rightarrow> HotspotManager" where
  "HotspotManager_new max_entities max_hotspots =
     \<lparr>hm_max_entities = max_entities, hm_max_hotspots = max_hotspots,
      hm_hotspot_cells = replicate max_hotspots (HotspotCell_new (CellCoord_new 0 0 0)), hm_active_hotspots_count = 0,
      hm_links = \<lparr>lk_next = replicate max_entities QUADTREE_EMPTY, lk_prev = replicate max_entities QUADTREE_EMPTY\<rparr>,
      hm_entity_positions = replicate max_entities Vec3Fix_ZERO, hm_entity_hotspot_id = replicate max_entities 0,
      hm_entity_leaf_idx = replicate max_entities 0, hm_entity_active = replicate max_entities False\<rparr>"

definition find_hotspot :: "HotspotManager \<Rightarrow> CellCoord \<Rightarrow> nat option" where
  "find_hotspot m cell = find_index (\<lambda>h. hc_cell h = cell) (take (hm_active_hotspots_count m) (hm_hotspot_cells m))"

definition is_hotspot :: "HotspotManager \<Rightarrow> CellCoord \<Rightarrow> bool" where
  "is_hotspot m cell \<longleftrightarrow> find_hotspot m cell \<noteq> None"

definition is_split :: "HotspotManager \<Rightarrow> CellCoord \<Rightarrow> bool" where
  "is_split m cell = (case find_hotspot m cell of Some idx \<Rightarrow> hc_is_split (hm_hotspot_cells m ! idx) | None \<Rightarrow> False)"

definition get_or_create_hotspot :: "CellCoord \<Rightarrow> HotspotManager \<Rightarrow> HotspotManager \<times> (SpatialError + nat)" where
  "get_or_create_hotspot cell m =
     (case find_hotspot m cell of
        Some idx \<Rightarrow> (m, Inr idx)
      | None \<Rightarrow>
          if hm_active_hotspots_count m \<ge> hm_max_hotspots m then (m, Inl SpatialCapacityExceeded)
          else
            (let new_idx = hm_active_hotspots_count m in
             (m\<lparr>hm_hotspot_cells := (hm_hotspot_cells m)[new_idx := HotspotCell_new cell],
                hm_active_hotspots_count := hm_active_hotspots_count m + 1\<rparr>, Inr new_idx)))"

definition put_cell :: "nat \<Rightarrow> HotspotCell \<Rightarrow> HotspotManager \<Rightarrow> HotspotManager" where
  "put_cell h_idx h m = m\<lparr>hm_hotspot_cells := (hm_hotspot_cells m)[h_idx := h]\<rparr>"

text \<open>Prepending to a leaf and to the flat list.\<close>

definition push_leaf :: "nat \<Rightarrow> nat \<Rightarrow> u32 \<Rightarrow> HotspotManager \<Rightarrow> HotspotManager" where
  "push_leaf h_idx leaf_idx entity_id m =
     (let h = hm_hotspot_cells m ! h_idx; old_head = hc_leaf_heads h ! leaf_idx in
      put_cell h_idx (h\<lparr>hc_leaf_heads := (hc_leaf_heads h)[leaf_idx := entity_id],
          hc_leaf_counts := (hc_leaf_counts h)[leaf_idx := hc_leaf_counts h ! leaf_idx + 1]\<rparr>)
        (m\<lparr>hm_links := link_front entity_id old_head (hm_links m)\<rparr>))"

definition push_flat :: "nat \<Rightarrow> u32 \<Rightarrow> HotspotManager \<Rightarrow> HotspotManager" where
  "push_flat h_idx entity_id m =
     (let h = hm_hotspot_cells m ! h_idx; old_head = hc_flat_head h in
      put_cell h_idx (h\<lparr>hc_flat_head := entity_id\<rparr>) (m\<lparr>hm_links := link_front entity_id old_head (hm_links m)\<rparr>))"

text \<open>Taking an entity out of the list it is in.\<close>

definition pop_leaf :: "nat \<Rightarrow> nat \<Rightarrow> u32 \<Rightarrow> HotspotManager \<Rightarrow> HotspotManager" where
  "pop_leaf h_idx leaf_idx entity_id m =
     (let h = hm_hotspot_cells m ! h_idx;
          (head, links) = unlink entity_id (hc_leaf_heads h ! leaf_idx) (hm_links m)
      in put_cell h_idx (h\<lparr>hc_leaf_heads := (hc_leaf_heads h)[leaf_idx := head],
           hc_leaf_counts := (hc_leaf_counts h)[leaf_idx := saturating_sub (hc_leaf_counts h ! leaf_idx) 1]\<rparr>)
         (m\<lparr>hm_links := links\<rparr>))"

definition pop_flat :: "nat \<Rightarrow> u32 \<Rightarrow> HotspotManager \<Rightarrow> HotspotManager" where
  "pop_flat h_idx entity_id m =
     (let h = hm_hotspot_cells m ! h_idx; (head, links) = unlink entity_id (hc_flat_head h) (hm_links m)
      in put_cell h_idx (h\<lparr>hc_flat_head := head\<rparr>) (m\<lparr>hm_links := links\<rparr>))"

section \<open>Splitting, merging and reclaiming\<close>

partial_function (option) split_loop :: "nat \<Rightarrow> u32 \<Rightarrow> HotspotManager \<Rightarrow> HotspotManager option" where
  "split_loop h_idx cur m =
     (if cur = QUADTREE_EMPTY then Some m
      else
        (let nxt = lk_next (hm_links m) ! unat cur;
             leaf_idx = compute_leaf_index (hm_hotspot_cells m ! h_idx) (hm_entity_positions m ! unat cur);
             m = m\<lparr>hm_entity_leaf_idx := (hm_entity_leaf_idx m)[unat cur := word_of_nat leaf_idx]\<rparr>
         in split_loop h_idx nxt (push_leaf h_idx leaf_idx cur m)))"

definition split_cell :: "nat \<Rightarrow> HotspotManager \<Rightarrow> HotspotManager option" where
  "split_cell h_idx m =
     (let h = hm_hotspot_cells m ! h_idx; cur = hc_flat_head h;
          h = h\<lparr>hc_is_split := True, hc_flat_head := QUADTREE_EMPTY,
                hc_leaf_heads := replicate MICRO_QUADRANTS_PER_CELL QUADTREE_EMPTY,
                hc_leaf_counts := replicate MICRO_QUADRANTS_PER_CELL 0\<rparr>
      in split_loop h_idx cur (put_cell h_idx h m))"

text \<open>Moving one list in front of another; the second is given by its head.\<close>

partial_function (option) splice_loop :: "u32 \<Rightarrow> u32 \<Rightarrow> Links \<Rightarrow> (u32 \<times> Links) option" where
  "splice_loop cur flat_head l =
     (if cur = QUADTREE_EMPTY then Some (flat_head, l)
      else splice_loop (lk_next l ! unat cur) cur (link_front cur flat_head l))"

fun merge_leaves :: "nat \<Rightarrow> nat list \<Rightarrow> u32 \<Rightarrow> HotspotManager \<Rightarrow> (u32 \<times> HotspotManager) option" where
  "merge_leaves h_idx [] flat_head m = Some (flat_head, m)"
| "merge_leaves h_idx (i # is) flat_head m =
     (let h = hm_hotspot_cells m ! h_idx; cur = hc_leaf_heads h ! i;
          m = put_cell h_idx (h\<lparr>hc_leaf_heads := (hc_leaf_heads h)[i := QUADTREE_EMPTY],
                hc_leaf_counts := (hc_leaf_counts h)[i := 0]\<rparr>) m
      in case splice_loop cur flat_head (hm_links m) of
           None \<Rightarrow> None
         | Some (flat_head, links) \<Rightarrow> merge_leaves h_idx is flat_head (m\<lparr>hm_links := links\<rparr>))"

definition merge_cell :: "nat \<Rightarrow> HotspotManager \<Rightarrow> HotspotManager option" where
  "merge_cell h_idx m =
     (let m = put_cell h_idx ((hm_hotspot_cells m ! h_idx)\<lparr>hc_is_split := False\<rparr>) m
      in case merge_leaves h_idx [0..<MICRO_QUADRANTS_PER_CELL] QUADTREE_EMPTY m of
           None \<Rightarrow> None
         | Some (flat_head, m) \<Rightarrow> Some (put_cell h_idx ((hm_hotspot_cells m ! h_idx)\<lparr>hc_flat_head := flat_head\<rparr>) m))"

text \<open>The entities along a list get the number of the slot their cell has moved to.\<close>

fun renumber_lists :: "nat \<Rightarrow> u32 list \<Rightarrow> HotspotManager \<Rightarrow> HotspotManager option" where
  "renumber_lists h_idx [] m = Some m"
| "renumber_lists h_idx (head # heads) m =
     (case walk (lk_next (hm_links m)) head of
        None \<Rightarrow> None
      | Some ids \<Rightarrow>
          renumber_lists h_idx heads
            (m\<lparr>hm_entity_hotspot_id := fold (\<lambda>i hids. hids[unat i := word_of_nat (h_idx + 1)]) ids (hm_entity_hotspot_id m)\<rparr>))"

definition reclaim_hotspot :: "nat \<Rightarrow> HotspotManager \<Rightarrow> HotspotManager option" where
  "reclaim_hotspot h_idx m =
     (if hm_active_hotspots_count m = 0 then Some m
      else
        (let last_idx = hm_active_hotspots_count m - 1;
             moved =
               (if h_idx \<noteq> last_idx then
                  (let cells = hm_hotspot_cells m;
                       m = m\<lparr>hm_hotspot_cells := cells[h_idx := cells ! last_idx, last_idx := cells ! h_idx]\<rparr>;
                       moved_cell = hm_hotspot_cells m ! h_idx
                   in renumber_lists h_idx (if hc_is_split moved_cell then hc_leaf_heads moved_cell else [hc_flat_head moved_cell]) m)
                else Some m)
         in map_option (\<lambda>m. m\<lparr>hm_active_hotspots_count := hm_active_hotspots_count m - 1\<rparr>) moved))"

section \<open>The operations\<close>

definition hotspot_insert :: "u32 \<Rightarrow> Vec3Fix \<Rightarrow> HotspotManager \<Rightarrow> (HotspotManager \<times> (SpatialError + unit)) option" where
  "hotspot_insert entity_id pos m =
     (let id = unat entity_id in
      if id \<ge> hm_max_entities m then Some (m, Inl (InvalidEntityId entity_id))
      else if hm_entity_active m ! id then Some (m, Inl (SpatialEntityAlreadyExists entity_id))
      else
        (case get_or_create_hotspot (CellCoord_from_position pos) m of
           (m, Inl e) \<Rightarrow> Some (m, Inl e)
         | (m, Inr h_idx) \<Rightarrow>
             (let leaf_idx = compute_leaf_index (hm_hotspot_cells m ! h_idx) pos;
                  m = m\<lparr>hm_entity_positions := (hm_entity_positions m)[id := pos],
                        hm_entity_active := (hm_entity_active m)[id := True],
                        hm_entity_hotspot_id := (hm_entity_hotspot_id m)[id := word_of_nat (h_idx + 1)],
                        hm_entity_leaf_idx := (hm_entity_leaf_idx m)[id := word_of_nat leaf_idx]\<rparr>;
                  m = (if hc_is_split (hm_hotspot_cells m ! h_idx) then push_leaf h_idx leaf_idx entity_id m
                       else push_flat h_idx entity_id m);
                  h = hm_hotspot_cells m ! h_idx;
                  m = put_cell h_idx (h\<lparr>hc_entity_count := hc_entity_count h + 1\<rparr>) m;
                  h = hm_hotspot_cells m ! h_idx
              in if \<not> hc_is_split h \<and> hc_entity_count h \<ge> HOTSPOT_SPLIT_THRESHOLD
                 then map_option (\<lambda>m. (m, Inr ())) (split_cell h_idx m)
                 else Some (m, Inr ()))))"

definition hotspot_remove :: "u32 \<Rightarrow> HotspotManager \<Rightarrow> (HotspotManager \<times> (SpatialError + unit)) option" where
  "hotspot_remove entity_id m =
     (let id = unat entity_id in
      if id \<ge> hm_max_entities m \<or> \<not> hm_entity_active m ! id then Some (m, Inl (SpatialEntityNotFound entity_id))
      else
        (let h_id = hm_entity_hotspot_id m ! id in
         if h_id = 0 then Some (m, Inl (SpatialEntityNotFound entity_id))
         else
           (let h_idx = unat (h_id - 1);
                m = (if hc_is_split (hm_hotspot_cells m ! h_idx)
                     then pop_leaf h_idx (unat (hm_entity_leaf_idx m ! id)) entity_id m
                     else pop_flat h_idx entity_id m);
                h = hm_hotspot_cells m ! h_idx;
                m = put_cell h_idx (h\<lparr>hc_entity_count := hc_entity_count h - 1\<rparr>) m;
                m = m\<lparr>hm_entity_active := (hm_entity_active m)[id := False],
                      hm_entity_hotspot_id := (hm_entity_hotspot_id m)[id := 0],
                      hm_links := clear_links entity_id (hm_links m)\<rparr>;
                h = hm_hotspot_cells m ! h_idx;
                merged = (if hc_is_split h \<and> hc_entity_count h \<le> HOTSPOT_MERGE_THRESHOLD then merge_cell h_idx m else Some m)
            in case merged of
                 None \<Rightarrow> None
               | Some m \<Rightarrow>
                   (if hc_entity_count (hm_hotspot_cells m ! h_idx) = 0
                    then map_option (\<lambda>m. (m, Inr ())) (reclaim_hotspot h_idx m)
                    else Some (m, Inr ())))))"

definition hotspot_update_position :: "u32 \<Rightarrow> Vec3Fix \<Rightarrow> HotspotManager \<Rightarrow> (HotspotManager \<times> (SpatialError + unit)) option" where
  "hotspot_update_position entity_id new_pos m =
     (let id = unat entity_id in
      if id \<ge> hm_max_entities m \<or> \<not> hm_entity_active m ! id then Some (m, Inl (SpatialEntityNotFound entity_id))
      else
        (let old_cell = CellCoord_from_position (hm_entity_positions m ! id); new_cell = CellCoord_from_position new_pos in
         if old_cell \<noteq> new_cell
         then (case hotspot_remove entity_id m of
                 None \<Rightarrow> None
               | Some (m, Inl e) \<Rightarrow> Some (m, Inl e)
               | Some (m, Inr u) \<Rightarrow> hotspot_insert entity_id new_pos m)
         else
           (let m = m\<lparr>hm_entity_positions := (hm_entity_positions m)[id := new_pos]\<rparr>;
                h_idx = unat (hm_entity_hotspot_id m ! id - 1);
                h = hm_hotspot_cells m ! h_idx
            in if hc_is_split h
               then
                 (let old_leaf = unat (hm_entity_leaf_idx m ! id); new_leaf = compute_leaf_index h new_pos in
                  if old_leaf \<noteq> new_leaf
                  then
                    (let m = push_leaf h_idx new_leaf entity_id (pop_leaf h_idx old_leaf entity_id m) in
                     Some (m\<lparr>hm_entity_leaf_idx := (hm_entity_leaf_idx m)[id := word_of_nat new_leaf]\<rparr>, Inr ()))
                  else Some (m, Inr ()))
               else Some (m, Inr ()))))"

section \<open>Queries\<close>

definition test_entity :: "HotspotManager \<Rightarrow> Vec3Fix \<Rightarrow> Fixed64 \<Rightarrow> u32 \<Rightarrow> u32 list \<times> nat \<Rightarrow> u32 list \<times> nat" where
  "test_entity m center radius_sq i out =
     (if Vec3Fix_distance_squared (hm_entity_positions m ! unat i) center \<le> radius_sq then emit_match i out else out)"

definition query_list :: "HotspotManager \<Rightarrow> Vec3Fix \<Rightarrow> Fixed64 \<Rightarrow> u32 \<Rightarrow> u32 list \<times> nat \<Rightarrow> (u32 list \<times> nat) option" where
  "query_list m center radius_sq head out =
     map_option (\<lambda>ids. fold (test_entity m center radius_sq) ids out) (walk (lk_next (hm_links m)) head)"

fun query_leaves ::
  "HotspotManager \<Rightarrow> HotspotCell \<Rightarrow> Vec3Fix \<Rightarrow> Fixed64 \<Rightarrow> nat list \<Rightarrow> u32 list \<times> nat \<Rightarrow> (u32 list \<times> nat) option"
where
  "query_leaves m h center radius_sq [] out = Some out"
| "query_leaves m h center radius_sq (leaf_idx # leaves) out =
     (if hc_leaf_counts h ! leaf_idx = 0
         \<or> \<not> intersects_circle (hc_leaf_aabbs h ! leaf_idx) (vec_x center) (vec_z center) radius_sq
      then query_leaves m h center radius_sq leaves out
      else
        (case query_list m center radius_sq (hc_leaf_heads h ! leaf_idx) out of
           None \<Rightarrow> None
         | Some out \<Rightarrow> query_leaves m h center radius_sq leaves out))"

fun query_quadrants ::
  "HotspotManager \<Rightarrow> HotspotCell \<Rightarrow> Vec3Fix \<Rightarrow> Fixed64 \<Rightarrow> nat list \<Rightarrow> u32 list \<times> nat \<Rightarrow> (u32 list \<times> nat) option"
where
  "query_quadrants m h center radius_sq [] out = Some out"
| "query_quadrants m h center radius_sq (q # qs) out =
     (if \<not> intersects_circle (hc_quadrant_aabbs h ! q) (vec_x center) (vec_z center) radius_sq
      then query_quadrants m h center radius_sq qs out
      else
        (case query_leaves m h center radius_sq (quadrant_to_leaves q) out of
           None \<Rightarrow> None
         | Some out \<Rightarrow> query_quadrants m h center radius_sq qs out))"

definition query_cell_hierarchical ::
  "HotspotManager \<Rightarrow> nat \<Rightarrow> Vec3Fix \<Rightarrow> Fixed64 \<Rightarrow> u32 list \<times> nat \<Rightarrow> (u32 list \<times> nat) option"
where
  "query_cell_hierarchical m h_idx center radius_sq out =
     (let h = hm_hotspot_cells m ! h_idx in
      if \<not> hc_is_split h then query_list m center radius_sq (hc_flat_head h) out
      else query_quadrants m h center radius_sq [0..<4] out)"

fun query_hotspots :: "HotspotManager \<Rightarrow> Vec3Fix \<Rightarrow> Fixed64 \<Rightarrow> nat list \<Rightarrow> u32 list \<times> nat \<Rightarrow> (u32 list \<times> nat) option" where
  "query_hotspots m center radius_sq [] out = Some out"
| "query_hotspots m center radius_sq (h_idx # hs) out =
     (case query_cell_hierarchical m h_idx center radius_sq out of
        None \<Rightarrow> None
      | Some out \<Rightarrow> query_hotspots m center radius_sq hs out)"

definition hotspot_query_radius :: "HotspotManager \<Rightarrow> Vec3Fix \<Rightarrow> Fixed64 \<Rightarrow> u32 list \<Rightarrow> (u32 list \<times> SpatialQueryResult) option" where
  "hotspot_query_radius m center radius_sq buffer =
     map_option finish_query (query_hotspots m center radius_sq [0..<hm_active_hotspots_count m] (buffer, 0))"

end
