(* ===== verification/Hotspots.thy ===== *)
theory Hotspots
  imports Quadtree
begin

text \<open>
  The invariant of the hotspot manager (theory Quadtree) and what its operations do: the lists of
  the cells hold exactly the tracked entities, in the leaf of their position when the cell is
  split, whatever is inserted, moved and removed; every loop along links ends; and the pruned
  query returns the entities that a full scan returns.
\<close>

section \<open>The lists of the cells\<close>

type_synonym slot = "nat \<times> nat option"

definition list_head :: "HotspotManager \<Rightarrow> slot \<Rightarrow> u32" where
  "list_head m k = (case k of (h, None) \<Rightarrow> hc_flat_head (hm_hotspot_cells m ! h) | (h, Some i) \<Rightarrow> hc_leaf_heads (hm_hotspot_cells m ! h) ! i)"

definition slots_of :: "nat \<Rightarrow> slot set" where
  "slots_of n = {k. fst k < n \<and> (\<forall>i. snd k = Some i \<longrightarrow> i < 16)}"

lemma slots_of_iff [simp]: "(h, None) \<in> slots_of n \<longleftrightarrow> h < n" "(h, Some i) \<in> slots_of n \<longleftrightarrow> h < n \<and> i < 16"
  by (auto simp: slots_of_def)

definition cell_shape :: "HotspotCell \<Rightarrow> bool" where
  "cell_shape h \<longleftrightarrow> length (hc_leaf_heads h) = 16 \<and> length (hc_leaf_counts h) = 16
     \<and> hc_quadrant_aabbs h = quadrant_aabbs_of (cc_x (hc_cell h) * GRID_CELL_HORIZONTAL_SIZE) (cc_z (hc_cell h) * GRID_CELL_HORIZONTAL_SIZE)
     \<and> hc_leaf_aabbs h = leaf_aabbs_of (cc_x (hc_cell h) * GRID_CELL_HORIZONTAL_SIZE) (cc_z (hc_cell h) * GRID_CELL_HORIZONTAL_SIZE)"

definition shape :: "HotspotManager \<Rightarrow> bool" where
  "shape m \<longleftrightarrow> hm_max_entities m < 2 ^ 32 \<and> hm_max_hotspots m < 2 ^ 16 - 1
     \<and> length (hm_hotspot_cells m) = hm_max_hotspots m \<and> hm_active_hotspots_count m \<le> hm_max_hotspots m
     \<and> (\<forall>h<hm_max_hotspots m. cell_shape (hm_hotspot_cells m ! h))
     \<and> length (lk_next (hm_links m)) = hm_max_entities m \<and> length (lk_prev (hm_links m)) = hm_max_entities m
     \<and> length (hm_entity_positions m) = hm_max_entities m \<and> length (hm_entity_hotspot_id m) = hm_max_entities m
     \<and> length (hm_entity_leaf_idx m) = hm_max_entities m \<and> length (hm_entity_active m) = hm_max_entities m"

definition list_size :: "(u32 \<Rightarrow> slot option) \<Rightarrow> slot \<Rightarrow> nat" where
  "list_size owner k = card {e. owner e = Some k}"

text \<open>The lists agree with an assignment of the entities to slots, and the leaf counters with the sizes.\<close>

definition lists_ok :: "HotspotManager \<Rightarrow> (u32 \<Rightarrow> slot option) \<Rightarrow> bool" where
  "lists_ok m owner \<longleftrightarrow> shape m \<and> index_ok (hm_links m) (list_head m) (slots_of (hm_active_hotspots_count m)) owner
     \<and> (\<forall>h<hm_active_hotspots_count m. \<forall>i<16. hc_leaf_counts (hm_hotspot_cells m ! h) ! i = word_of_nat (list_size owner (h, Some i)))"

text \<open>What the list operations leave alone.\<close>

definition cell_frame :: "HotspotCell \<Rightarrow> HotspotCell \<Rightarrow> bool" where
  "cell_frame a b \<longleftrightarrow> hc_cell b = hc_cell a \<and> hc_is_split b = hc_is_split a \<and> hc_entity_count b = hc_entity_count a
     \<and> hc_quadrant_aabbs b = hc_quadrant_aabbs a \<and> hc_leaf_aabbs b = hc_leaf_aabbs a"

definition list_frame :: "HotspotManager \<Rightarrow> HotspotManager \<Rightarrow> bool" where
  "list_frame m n \<longleftrightarrow> hm_max_entities n = hm_max_entities m \<and> hm_max_hotspots n = hm_max_hotspots m
     \<and> hm_active_hotspots_count n = hm_active_hotspots_count m \<and> hm_entity_positions n = hm_entity_positions m
     \<and> hm_entity_hotspot_id n = hm_entity_hotspot_id m \<and> hm_entity_leaf_idx n = hm_entity_leaf_idx m
     \<and> hm_entity_active n = hm_entity_active m \<and> length (hm_hotspot_cells n) = length (hm_hotspot_cells m)
     \<and> (\<forall>h<length (hm_hotspot_cells m). cell_frame (hm_hotspot_cells m ! h) (hm_hotspot_cells n ! h))"

lemma cell_frame_refl [simp]: "cell_frame a a"
  by (simp add: cell_frame_def)

lemma cell_frame_trans: "cell_frame a b \<Longrightarrow> cell_frame b c \<Longrightarrow> cell_frame a c"
  by (simp add: cell_frame_def)

lemma frame_refl [simp]: "list_frame m m"
  by (simp add: list_frame_def)

lemma frame_trans: "list_frame a b \<Longrightarrow> list_frame b c \<Longrightarrow> list_frame a c"
  unfolding list_frame_def by (metis cell_frame_trans)

lemma frame_cell: "list_frame m n \<Longrightarrow> h < length (hm_hotspot_cells m) \<Longrightarrow> cell_frame (hm_hotspot_cells m ! h) (hm_hotspot_cells n ! h)"
  by (simp add: list_frame_def)

lemma frame_put: "h < length (hm_hotspot_cells m) \<Longrightarrow> cell_frame (hm_hotspot_cells m ! h) c \<Longrightarrow>
    list_frame m (put_cell h c (m\<lparr>hm_links := l\<rparr>))"
  by (auto simp: list_frame_def put_cell_def nth_list_update)

lemma list_size_upd:
  "owner e = None \<Longrightarrow> list_size (owner(e := Some k)) k' = list_size owner k' + (if k' = k then 1 else 0)"
  "owner e = Some k \<Longrightarrow> list_size (owner(e := None)) k' = list_size owner k' - (if k' = k then 1 else 0)"
proof -
  assume n: "owner e = None"
  have "{x. (owner(e := Some k)) x = Some k'} = (if k' = k then insert e {x. owner x = Some k'} else {x. owner x = Some k'})"
    using n by auto
  then show "list_size (owner(e := Some k)) k' = list_size owner k' + (if k' = k then 1 else 0)"
    using n by (simp add: list_size_def)
next
  assume n: "owner e = Some k"
  have "{x. (owner(e := None)) x = Some k'} = (if k' = k then {x. owner x = Some k'} - {e} else {x. owner x = Some k'})"
    using n by auto
  then show "list_size (owner(e := None)) k' = list_size owner k' - (if k' = k then 1 else 0)"
    using n by (simp add: list_size_def)
qed

lemma list_size_pos: "owner e = Some k \<Longrightarrow> 0 < list_size owner k"
  by (auto simp: list_size_def card_gt_0_iff)

lemma list_size_zero: "list_size owner k = 0 \<longleftrightarrow> (\<forall>e. owner e \<noteq> Some k)"
  by (auto simp: list_size_def)

lemma list_size_bound: "list_size owner k < 2 ^ 32 \<or> (\<forall>e. owner e = Some k)"
proof (cases "\<forall>e. owner e = Some k")
  case False
  then have "{e. owner e = Some k} \<subset> UNIV" by blast
  then have "list_size owner k < card (UNIV :: u32 set)" unfolding list_size_def by (intro psubset_card_mono) simp_all
  then show ?thesis by (simp add: card_word)
qed simp

lemma shape_put: "shape m \<Longrightarrow> h < hm_max_hotspots m \<Longrightarrow> cell_shape c \<Longrightarrow> length (lk_next l) = hm_max_entities m \<Longrightarrow> length (lk_prev l) = hm_max_entities m \<Longrightarrow>
    shape (put_cell h c (m\<lparr>hm_links := l\<rparr>))"
  by (auto simp: shape_def put_cell_def nth_list_update)

lemma list_head_put:
  "h < length (hm_hotspot_cells m) \<Longrightarrow> list_head (put_cell h c (m\<lparr>hm_links := l\<rparr>)) k =
    (if fst k = h then (case snd k of None \<Rightarrow> hc_flat_head c | Some i \<Rightarrow> hc_leaf_heads c ! i) else list_head m k)"
  by (cases k) (auto simp: list_head_def put_cell_def nth_list_update split: option.split)

text \<open>The head of a list within its cell.\<close>

definition head_in :: "HotspotCell \<Rightarrow> nat option \<Rightarrow> u32" where
  "head_in c s = (case s of None \<Rightarrow> hc_flat_head c | Some i \<Rightarrow> hc_leaf_heads c ! i)"

lemma list_head_in: "list_head m (h, s) = head_in (hm_hotspot_cells m ! h) s"
  by (simp add: list_head_def head_in_def split: option.split)

lemma lists_okD:
  assumes "lists_ok m owner" and "h < hm_active_hotspots_count m"
  shows "shape m" "index_ok (hm_links m) (list_head m) (slots_of (hm_active_hotspots_count m)) owner"
    "h < length (hm_hotspot_cells m)" "cell_shape (hm_hotspot_cells m ! h)"
    "length (hc_leaf_heads (hm_hotspot_cells m ! h)) = 16" "length (hc_leaf_counts (hm_hotspot_cells m ! h)) = 16"
    "j < 16 \<Longrightarrow> hc_leaf_counts (hm_hotspot_cells m ! h) ! j = word_of_nat (list_size owner (h, Some j))"
    "length (lk_next (hm_links m)) = hm_max_entities m" "length (lk_prev (hm_links m)) = hm_max_entities m"
  using assms by (auto simp: lists_ok_def shape_def cell_shape_def)

text \<open>The common step: one list of one cell changes.\<close>

lemma lists_put:
  assumes ok: "lists_ok m owner" and h: "h < hm_active_hotspots_count m"
    and d: "cell_shape d" "cell_frame (hm_hotspot_cells m ! h) d"
    and heads: "\<And>s'. (\<forall>j. s' = Some j \<longrightarrow> j < 16) \<Longrightarrow> head_in d s' = (if s' = s then v else head_in (hm_hotspot_cells m ! h) s')"
    and counts: "\<And>j. j < 16 \<Longrightarrow> hc_leaf_counts d ! j = word_of_nat (list_size owner1 (h, Some j))"
    and others: "\<And>h' x. h' \<noteq> h \<Longrightarrow> list_size owner1 (h', x) = list_size owner (h', x)"
    and ix: "index_ok l ((list_head m)((h, s) := v)) (slots_of (hm_active_hotspots_count m)) owner1"
    and l: "length (lk_next l) = hm_max_entities m" "length (lk_prev l) = hm_max_entities m"
  shows "lists_ok (put_cell h d (m\<lparr>hm_links := l\<rparr>)) owner1 \<and> list_frame m (put_cell h d (m\<lparr>hm_links := l\<rparr>))"
proof -
  let ?m = "put_cell h d (m\<lparr>hm_links := l\<rparr>)"
  note D = lists_okD [OF ok h]
  have hm: "h < hm_max_hotspots m" using D(1,3) by (simp add: shape_def)
  have "list_head ?m k = ((list_head m)((h, s) := v)) k" if "k \<in> slots_of (hm_active_hotspots_count m)" for k
  proof -
    obtain h' s' where k: "k = (h', s')" by fastforce
    have "\<forall>j. s' = Some j \<longrightarrow> j < 16" using that k by (auto simp: slots_of_def)
    then show ?thesis using heads [of s'] D(3) by (auto simp: k list_head_in put_cell_def nth_list_update)
  qed
  then have "index_ok l (list_head ?m) (slots_of (hm_active_hotspots_count m)) owner1" by (rule index_cong [OF ix]) simp_all
  moreover have "hc_leaf_counts ((hm_hotspot_cells m)[h := d] ! h') ! j = word_of_nat (list_size owner1 (h', Some j))"
    if "h' < hm_active_hotspots_count m" "j < 16" for h' j
    using lists_okD(7) [OF ok that] counts [OF that(2)] others D(3) by (cases "h' = h") simp_all
  ultimately have "lists_ok ?m owner1" using shape_put [OF D(1) hm d(1) l] by (simp add: lists_ok_def put_cell_def)
  then show ?thesis using frame_put [OF D(3) d(2)] by simp
qed

lemma valid_entity: "shape m \<Longrightarrow> unat e < hm_max_entities m \<Longrightarrow> e \<noteq> TERMINAL_INDEX"
  by (auto simp: shape_def TERMINAL_INDEX_def unat_minus_one_eq)

lemma push_leaf_ok:
  assumes ok: "lists_ok m owner" and o: "owner e = None" and h: "h < hm_active_hotspots_count m" "i < 16" and e: "unat e < hm_max_entities m"
  shows "lists_ok (push_leaf h i e m) (owner(e := Some (h, Some i))) \<and> list_frame m (push_leaf h i e m)"
proof -
  note D = lists_okD [OF ok h(1)]
  have "index_ok (link_front e (list_head m (h, Some i)) (hm_links m)) ((list_head m)((h, Some i) := e))
      (slots_of (hm_active_hotspots_count m)) (owner(e := Some (h, Some i)))"
    using index_front [OF D(2) o valid_entity [OF D(1) e]] e D(8,9) h by simp
  from lists_put [OF ok h(1) _ _ _ _ _ this] D(4-9) h(2) show ?thesis
    by (auto simp: push_leaf_def list_head_in Let_def head_in_def cell_shape_def cell_frame_def nth_list_update
        list_size_upd(1) [where e = e and owner = owner, OF o] split: option.split)
qed

lemma push_flat_ok:
  assumes ok: "lists_ok m owner" and o: "owner e = None" and h: "h < hm_active_hotspots_count m" and e: "unat e < hm_max_entities m"
  shows "lists_ok (push_flat h e m) (owner(e := Some (h, None))) \<and> list_frame m (push_flat h e m)"
proof -
  note D = lists_okD [OF ok h]
  have "index_ok (link_front e (list_head m (h, None)) (hm_links m)) ((list_head m)((h, None) := e))
      (slots_of (hm_active_hotspots_count m)) (owner(e := Some (h, None)))"
    using index_front [OF D(2) o valid_entity [OF D(1) e]] e D(8,9) h by simp
  from lists_put [OF ok h _ _ _ _ _ this] D(4-9) show ?thesis
    by (auto simp: push_flat_def list_head_in Let_def head_in_def cell_shape_def cell_frame_def nth_list_update
        list_size_upd(1) [where e = e and owner = owner, OF o] split: option.split)
qed

lemma pop_leaf_ok:
  assumes ok: "lists_ok m owner" and o: "owner e = Some (h, Some i)" and h: "h < hm_active_hotspots_count m" "i < 16"
  shows "lists_ok (pop_leaf h i e m) (owner(e := None)) \<and> list_frame m (pop_leaf h i e m)"
proof -
  note D = lists_okD [OF ok h(1)]
  obtain h1 l1 where u: "unlink e (list_head m (h, Some i)) (hm_links m) = (h1, l1)" by fastforce
  have l: "length (lk_next l1) = hm_max_entities m" "length (lk_prev l1) = hm_max_entities m" using unlink_length [OF u] D(8,9) by simp_all
  have ix: "index_ok l1 ((list_head m)((h, Some i) := h1)) (slots_of (hm_active_hotspots_count m)) (owner(e := None))"
    by (rule index_unlink [OF D(2) o u])
  have "saturating_sub (hc_leaf_counts (hm_hotspot_cells m ! h) ! i) 1 = word_of_nat (list_size owner (h, Some i) - 1)"
  proof -
    have "owner TERMINAL_INDEX \<noteq> Some (h, Some i)" using index_member(1) [OF D(2)] by blast
    then have b: "list_size owner (h, Some i) < 2 ^ 32" using list_size_bound [of owner "(h, Some i)"] by blast
    then have "unat (word_of_nat (list_size owner (h, Some i)) :: u32) = list_size owner (h, Some i)" by (simp add: unat_of_nat)
    then have "unat (saturating_sub (word_of_nat (list_size owner (h, Some i)) :: u32) 1) = list_size owner (h, Some i) - 1"
      by (simp add: unat_saturating_sub)
    then show ?thesis unfolding D(7) [OF h(2)] using b by (simp add: word_unat_eq_iff unat_of_nat)
  qed
  with lists_put [OF ok h(1) _ _ _ _ _ ix l] D(4-7) h(2) u show ?thesis
    by (auto simp: pop_leaf_def list_head_in Let_def head_in_def cell_shape_def cell_frame_def nth_list_update
        list_size_upd(2) [where e = e and owner = owner, OF o] split: option.split)
qed

lemma pop_flat_ok:
  assumes ok: "lists_ok m owner" and o: "owner e = Some (h, None)" and h: "h < hm_active_hotspots_count m"
  shows "lists_ok (pop_flat h e m) (owner(e := None)) \<and> list_frame m (pop_flat h e m)"
proof -
  note D = lists_okD [OF ok h]
  obtain h1 l1 where u: "unlink e (list_head m (h, None)) (hm_links m) = (h1, l1)" by fastforce
  have l: "length (lk_next l1) = hm_max_entities m" "length (lk_prev l1) = hm_max_entities m" using unlink_length [OF u] D(8,9) by simp_all
  have ix: "index_ok l1 ((list_head m)((h, None) := h1)) (slots_of (hm_active_hotspots_count m)) (owner(e := None))"
    by (rule index_unlink [OF D(2) o u])
  from lists_put [OF ok h _ _ _ _ _ ix l] D(4-7) u show ?thesis
    by (auto simp: pop_flat_def list_head_in Let_def head_in_def cell_shape_def cell_frame_def nth_list_update
        list_size_upd(2) [where e = e and owner = owner, OF o] split: option.split)
qed

section \<open>Splitting\<close>

lemma leaf_axis_bound: "leaf_axis w \<le> 3"
  by (auto simp: leaf_axis_def)

lemma leaf_index_bound: "compute_leaf_index h pos < 16"
  using leaf_axis_bound [of "Fixed64_to_i32 (vec_x pos) - cc_x (hc_cell h) * GRID_CELL_HORIZONTAL_SIZE"]
    leaf_axis_bound [of "Fixed64_to_i32 (vec_z pos) - cc_z (hc_cell h) * GRID_CELL_HORIZONTAL_SIZE"]
  by (simp add: compute_leaf_index_def Let_def)

lemma leaf_index_byte: "unat (word_of_nat (compute_leaf_index h pos) :: u8) = compute_leaf_index h pos"
  using leaf_index_bound [of h pos] by (simp add: unat_of_nat)

lemma leaf_index_cell: "hc_cell a = hc_cell b \<Longrightarrow> compute_leaf_index a pos = compute_leaf_index b pos"
  by (simp add: compute_leaf_index_def)

text \<open>Fields of the entities that the lists do not depend on.\<close>

lemma lists_ok_entities:
  assumes "lists_ok m owner" and "hm_links n = hm_links m" "hm_hotspot_cells n = hm_hotspot_cells m" "hm_max_entities n = hm_max_entities m"
    "hm_max_hotspots n = hm_max_hotspots m" "hm_active_hotspots_count n = hm_active_hotspots_count m"
    and "length (hm_entity_positions n) = hm_max_entities m" "length (hm_entity_hotspot_id n) = hm_max_entities m"
      "length (hm_entity_leaf_idx n) = hm_max_entities m" "length (hm_entity_active n) = hm_max_entities m"
  shows "lists_ok n owner"
proof -
  have "list_head n = list_head m" using assms(3) by (simp add: list_head_def fun_eq_iff)
  then show ?thesis using assms by (simp add: lists_ok_def shape_def)
qed

lemma walk_step: "chain next cur (e # rest) \<Longrightarrow> cur = e \<and> e \<noteq> TERMINAL_INDEX \<and> chain next (next ! unat e) rest"
  by simp

lemma push_next: "lk_next (hm_links (push_leaf h i e m)) = (lk_next (hm_links m))[unat e := hc_leaf_heads (hm_hotspot_cells m ! h) ! i]"
  by (simp add: push_leaf_def put_cell_def link_front_def Let_def)

lemma frame_leaf:
  "list_frame m n \<Longrightarrow> hm_entity_leaf_idx m = x \<Longrightarrow> list_frame (m\<lparr>hm_entity_leaf_idx := y\<rparr>) (n\<lparr>hm_entity_leaf_idx := y\<rparr>)"
  by (simp add: list_frame_def)

definition split_owner :: "HotspotManager \<Rightarrow> nat \<Rightarrow> u32 list \<Rightarrow> (u32 \<Rightarrow> slot option) \<Rightarrow> u32 \<Rightarrow> slot option" where
  "split_owner m h rest owner e =
     (if e \<in> set rest then Some (h, Some (compute_leaf_index (hm_hotspot_cells m ! h) (hm_entity_positions m ! unat e))) else owner e)"

lemma split_loop_ok:
  assumes "lists_ok m owner" and "chain (lk_next (hm_links m)) cur rest" "distinct rest"
    and "\<And>e. e \<in> set rest \<Longrightarrow> owner e = None \<and> unat e < hm_max_entities m" and h: "h < hm_active_hotspots_count m"
  shows "\<exists>n. split_loop h cur m = Some n \<and> lists_ok n (split_owner m h rest owner)
    \<and> list_frame (m\<lparr>hm_entity_leaf_idx := hm_entity_leaf_idx n\<rparr>) n
    \<and> (\<forall>e. unat e < hm_max_entities m \<longrightarrow> unat (hm_entity_leaf_idx n ! unat e) =
         (if e \<in> set rest then compute_leaf_index (hm_hotspot_cells m ! h) (hm_entity_positions m ! unat e) else unat (hm_entity_leaf_idx m ! unat e)))"
  using assms
proof (induction rest arbitrary: m cur owner)
  case Nil
  have "split_owner m h [] owner = owner" by (simp add: split_owner_def fun_eq_iff)
  moreover have "split_loop h cur m = Some m" using Nil.prems(2) by (subst split_loop.simps) simp
  ultimately show ?case using Nil.prems(1) by (auto simp: list_frame_def)
next
  case (Cons e rest)
  let ?li = "compute_leaf_index (hm_hotspot_cells m ! h) (hm_entity_positions m ! unat e)"
  let ?m = "m\<lparr>hm_entity_leaf_idx := (hm_entity_leaf_idx m)[unat e := word_of_nat ?li]\<rparr>"
  let ?n = "push_leaf h ?li e ?m"
  note w = walk_step [OF Cons.prems(2)]
  have e: "owner e = None" "unat e < hm_max_entities m" using Cons.prems(4) [of e] by simp_all
  note D = lists_okD [OF Cons.prems(1,5)]
  have li: "length (hm_entity_leaf_idx m) = hm_max_entities m" using D(1) by (simp add: shape_def)
  have ok: "lists_ok ?m owner" by (rule lists_ok_entities [OF Cons.prems(1)]) (use D(1) in \<open>simp_all add: shape_def\<close>)
  have n: "lists_ok ?n (owner(e := Some (h, Some ?li)))" "list_frame ?m ?n"
    using push_leaf_ok [OF ok e(1), of h ?li] Cons.prems(5) e(2) leaf_index_bound by simp_all
  have F: "hm_max_entities ?n = hm_max_entities m" "hm_active_hotspots_count ?n = hm_active_hotspots_count m"
      "hm_entity_positions ?n = hm_entity_positions m" "hm_entity_leaf_idx ?n = hm_entity_leaf_idx ?m"
      "hc_cell (hm_hotspot_cells ?n ! h) = hc_cell (hm_hotspot_cells m ! h)"
    using n(2) frame_cell [OF n(2), of h] D(3) by (simp_all add: list_frame_def cell_frame_def)
  have li2: "compute_leaf_index (hm_hotspot_cells ?n ! h) p = compute_leaf_index (hm_hotspot_cells m ! h) p" for p
    by (rule leaf_index_cell) (rule F(5))
  have ne: "e \<notin> set rest" using Cons.prems(3) by simp
  have ch: "chain (lk_next (hm_links ?n)) (lk_next (hm_links m) ! unat e) rest"
    using w chain_update [OF ne] by (simp add: push_next)
  have pre: "(owner(e := Some (h, Some ?li))) x = None \<and> unat x < hm_max_entities ?n" if "x \<in> set rest" for x
    using that Cons.prems(4) [of x] ne F(1) by auto
  have d: "distinct rest" and hn: "h < hm_active_hotspots_count ?n" using Cons.prems(3,5) F(2) by simp_all
  obtain n2 where n2: "split_loop h (lk_next (hm_links m) ! unat e) ?n = Some n2"
      "lists_ok n2 (split_owner ?n h rest (owner(e := Some (h, Some ?li))))"
      "list_frame (?n\<lparr>hm_entity_leaf_idx := hm_entity_leaf_idx n2\<rparr>) n2"
      "\<forall>x. unat x < hm_max_entities ?n \<longrightarrow> unat (hm_entity_leaf_idx n2 ! unat x) =
         (if x \<in> set rest then compute_leaf_index (hm_hotspot_cells ?n ! h) (hm_entity_positions ?n ! unat x) else unat (hm_entity_leaf_idx ?n ! unat x))"
    using Cons.IH [OF n(1) ch d pre hn] by blast
  have own: "split_owner ?n h rest (owner(e := Some (h, Some ?li))) = split_owner m h (e # rest) owner"
    by (auto simp: split_owner_def li2 F(3) fun_eq_iff)
  have "split_loop h cur m = Some n2" using n2(1) w by (subst split_loop.simps) (simp add: Let_def)
  moreover have "list_frame (m\<lparr>hm_entity_leaf_idx := hm_entity_leaf_idx n2\<rparr>) n2"
    using frame_trans [OF frame_leaf [OF n(2) refl] n2(3)] by simp
  moreover have "unat (hm_entity_leaf_idx n2 ! unat x) =
      (if x \<in> set (e # rest) then compute_leaf_index (hm_hotspot_cells m ! h) (hm_entity_positions m ! unat x) else unat (hm_entity_leaf_idx m ! unat x))"
    if "unat x < hm_max_entities m" for x
  proof -
    have "unat x = unat e \<longleftrightarrow> x = e" by (simp add: word_unat_eq_iff)
    moreover have "unat (hm_entity_leaf_idx n2 ! unat x) =
        (if x \<in> set rest then compute_leaf_index (hm_hotspot_cells m ! h) (hm_entity_positions m ! unat x) else unat (hm_entity_leaf_idx ?m ! unat x))"
      using n2(4) that unfolding F li2 by blast
    ultimately show ?thesis using that e(2) li ne by (auto simp: nth_list_update leaf_index_byte)
  qed
  ultimately show ?case using n2(2) unfolding own by blast
qed

section \<open>The invariant\<close>

definition slot_owner :: "HotspotManager \<Rightarrow> u32 \<Rightarrow> slot option" where
  "slot_owner m e =
     (if unat e < hm_max_entities m \<and> hm_entity_active m ! unat e
      then (let h = unat (hm_entity_hotspot_id m ! unat e) - 1
            in Some (h, if hc_is_split (hm_hotspot_cells m ! h) then Some (unat (hm_entity_leaf_idx m ! unat e)) else None))
      else None)"

definition tracked :: "HotspotManager \<Rightarrow> u32 \<rightharpoonup> Vec3Fix" where
  "tracked m e = (if unat e < hm_max_entities m \<and> hm_entity_active m ! unat e then Some (hm_entity_positions m ! unat e) else None)"

definition cell_count :: "(u32 \<Rightarrow> slot option) \<Rightarrow> nat \<Rightarrow> nat" where
  "cell_count owner h = card {e. \<exists>s. owner e = Some (h, s)}"

text \<open>An entity knows its cell, and its leaf when the cell is split.\<close>

definition entity_ok :: "HotspotManager \<Rightarrow> u32 \<Rightarrow> bool" where
  "entity_ok m e \<longleftrightarrow> (let h = unat (hm_entity_hotspot_id m ! unat e) - 1; pos = hm_entity_positions m ! unat e
     in hm_entity_hotspot_id m ! unat e \<noteq> 0 \<and> h < hm_active_hotspots_count m
        \<and> hc_cell (hm_hotspot_cells m ! h) = CellCoord_from_position pos
        \<and> (hc_is_split (hm_hotspot_cells m ! h) \<longrightarrow> unat (hm_entity_leaf_idx m ! unat e) = compute_leaf_index (hm_hotspot_cells m ! h) pos))"

definition hm_inv :: "HotspotManager \<Rightarrow> bool" where
  "hm_inv m \<longleftrightarrow> lists_ok m (slot_owner m) \<and> (\<forall>e. slot_owner m e \<noteq> None \<longrightarrow> entity_ok m e)
     \<and> (\<forall>h<hm_active_hotspots_count m. hc_entity_count (hm_hotspot_cells m ! h) = cell_count (slot_owner m) h)
     \<and> (\<forall>h<hm_active_hotspots_count m. \<forall>h'<hm_active_hotspots_count m. hc_cell (hm_hotspot_cells m ! h) = hc_cell (hm_hotspot_cells m ! h') \<longrightarrow> h = h')"

definition hm_ok :: "HotspotManager \<Rightarrow> bool" where
  "hm_ok m \<longleftrightarrow> hm_inv m \<and> (\<forall>h<hm_active_hotspots_count m. 0 < hc_entity_count (hm_hotspot_cells m ! h))"

text \<open>What splitting and merging keep.\<close>

definition same_tracking :: "HotspotManager \<Rightarrow> HotspotManager \<Rightarrow> bool" where
  "same_tracking m n \<longleftrightarrow> hm_max_entities n = hm_max_entities m \<and> hm_max_hotspots n = hm_max_hotspots m
     \<and> hm_active_hotspots_count n = hm_active_hotspots_count m \<and> hm_entity_positions n = hm_entity_positions m
     \<and> hm_entity_active n = hm_entity_active m \<and> hm_entity_hotspot_id n = hm_entity_hotspot_id m
     \<and> (\<forall>h<hm_max_hotspots m. hc_cell (hm_hotspot_cells n ! h) = hc_cell (hm_hotspot_cells m ! h)
          \<and> hc_entity_count (hm_hotspot_cells n ! h) = hc_entity_count (hm_hotspot_cells m ! h))"

lemma same_tracking_tracked: "same_tracking m n \<Longrightarrow> tracked n = tracked m"
  by (simp add: same_tracking_def tracked_def fun_eq_iff)

lemma hm_invD:
  assumes "hm_inv m"
  shows "lists_ok m (slot_owner m)" "slot_owner m e \<noteq> None \<Longrightarrow> entity_ok m e"
    "h < hm_active_hotspots_count m \<Longrightarrow> hc_entity_count (hm_hotspot_cells m ! h) = cell_count (slot_owner m) h"
    "h < hm_active_hotspots_count m \<Longrightarrow> h' < hm_active_hotspots_count m \<Longrightarrow>
      hc_cell (hm_hotspot_cells m ! h) = hc_cell (hm_hotspot_cells m ! h') \<Longrightarrow> h = h'"
  using assms by (auto simp: hm_inv_def)

lemma lists_ok_flags:
  assumes ok: "lists_ok m owner" and h: "h < length (hm_hotspot_cells m)"
    and d: "hc_flat_head d = hc_flat_head (hm_hotspot_cells m ! h)" "hc_leaf_heads d = hc_leaf_heads (hm_hotspot_cells m ! h)"
      "hc_leaf_counts d = hc_leaf_counts (hm_hotspot_cells m ! h)" "hc_cell d = hc_cell (hm_hotspot_cells m ! h)"
      "hc_quadrant_aabbs d = hc_quadrant_aabbs (hm_hotspot_cells m ! h)" "hc_leaf_aabbs d = hc_leaf_aabbs (hm_hotspot_cells m ! h)"
  shows "lists_ok (put_cell h d m) owner"
proof -
  have "list_head (put_cell h d m) = list_head m"
    using h d by (auto simp: list_head_def put_cell_def nth_list_update fun_eq_iff split: option.split)
  moreover have "shape (put_cell h d m)"
  proof -
    have s: "shape m" using ok by (simp add: lists_ok_def)
    then have "cell_shape (hm_hotspot_cells m ! h)" "h < hm_max_hotspots m" using h by (simp_all add: shape_def)
    moreover from this have "cell_shape d" using d by (simp add: cell_shape_def)
    ultimately show ?thesis using shape_put [OF s, of h d "hm_links m"] s by (simp add: shape_def)
  qed
  ultimately show ?thesis using ok d(3) h by (auto simp: lists_ok_def put_cell_def nth_list_update)
qed

lemma empty_list: "index_ok l H K owner \<Longrightarrow> k \<in> K \<Longrightarrow> (\<And>e. owner e \<noteq> Some k) \<Longrightarrow> H k = TERMINAL_INDEX"
proof -
  assume a: "index_ok l H K owner" "k \<in> K" and n: "\<And>e. owner e \<noteq> Some k"
  obtain ids where ids: "linked l (H k) ids" "set ids = {e. owner e = Some k}" using index_okD [OF a] .
  then have "ids = []" using n by simp
  then show ?thesis using ids(1) by simp
qed

lemma put_cell_twice [simp]: "put_cell h c (put_cell h d m) = put_cell h c m"
  by (simp add: put_cell_def)

lemma cell_put [simp]: "h < length (hm_hotspot_cells m) \<Longrightarrow> hm_hotspot_cells (put_cell h d m) ! h = d"
  by (simp add: put_cell_def)

lemma links_put [simp]: "hm_links (put_cell h d m) = hm_links m" "(put_cell h d m)\<lparr>hm_links := l\<rparr> = put_cell h d (m\<lparr>hm_links := l\<rparr>)"
  by (simp_all add: put_cell_def)

lemma put_fields [simp]:
  "hm_max_entities (put_cell h d m) = hm_max_entities m" "hm_max_hotspots (put_cell h d m) = hm_max_hotspots m"
  "hm_active_hotspots_count (put_cell h d m) = hm_active_hotspots_count m" "hm_entity_positions (put_cell h d m) = hm_entity_positions m"
  "hm_entity_hotspot_id (put_cell h d m) = hm_entity_hotspot_id m" "hm_entity_leaf_idx (put_cell h d m) = hm_entity_leaf_idx m"
  "hm_entity_active (put_cell h d m) = hm_entity_active m" "length (hm_hotspot_cells (put_cell h d m)) = length (hm_hotspot_cells m)"
  by (simp_all add: put_cell_def)

lemma unsplit_owner: "slot_owner m e = Some (h, s) \<Longrightarrow> \<not> hc_is_split (hm_hotspot_cells m ! h) \<Longrightarrow> s = None"
  by (auto simp: slot_owner_def Let_def split: if_splits)

text \<open>The state in which the loop of a split starts: the list is detached, the flag set.\<close>

lemma split_start:
  assumes inv: "lists_ok m owner" and none: "\<And>e i. owner e \<noteq> Some (h, Some i)" and h: "h < hm_active_hotspots_count m"
  defines "c \<equiv> hm_hotspot_cells m ! h"
  defines "d \<equiv> c\<lparr>hc_is_split := True, hc_flat_head := QUADTREE_EMPTY,
      hc_leaf_heads := replicate MICRO_QUADRANTS_PER_CELL QUADTREE_EMPTY, hc_leaf_counts := replicate MICRO_QUADRANTS_PER_CELL 0\<rparr>"
  shows "lists_ok (put_cell h d m) (\<lambda>e. if owner e = Some (h, None) then None else owner e)"
proof -
  note D = lists_okD [OF inv h]
  let ?d0 = "c\<lparr>hc_is_split := True\<rparr>"
  have ok0: "lists_ok (put_cell h ?d0 m) owner"
    by (rule lists_ok_flags [OF inv D(3)]) (simp_all add: c_def)
  let ?m0 = "put_cell h ?d0 m"
  have h0: "h < hm_active_hotspots_count ?m0" using h by (simp add: put_cell_def)
  have c0: "hm_hotspot_cells ?m0 ! h = ?d0" using D(3) by simp
  have ix: "index_ok (hm_links m) (list_head ?m0) (slots_of (hm_active_hotspots_count ?m0)) owner" using lists_okD(2) [OF ok0 h0] by simp
  have heads: "hc_leaf_heads c ! i = QUADTREE_EMPTY" if "i < 16" for i
    using empty_list [OF ix, of "(h, Some i)"] none that h0 by (simp add: list_head_in c0 head_in_def)
  have size0: "list_size (\<lambda>e. if owner e = Some (h, None) then None else owner e) (h, Some j) = 0" for j
    using none by (simp add: list_size_zero)
  have others: "list_size (\<lambda>e. if owner e = Some (h, None) then None else owner e) (h', x) = list_size owner (h', x)" if "h' \<noteq> h" for h' x
    unfolding list_size_def by (rule arg_cong [of _ _ card]) (use that in auto)
  have "lists_ok (put_cell h d (?m0\<lparr>hm_links := hm_links m\<rparr>)) (\<lambda>e. if owner e = Some (h, None) then None else owner e)
      \<and> list_frame ?m0 (put_cell h d (?m0\<lparr>hm_links := hm_links m\<rparr>))"
  proof (rule lists_put [OF ok0 h0, where s = None and v = QUADTREE_EMPTY])
    show "cell_shape d" using D(4) by (simp add: d_def c_def cell_shape_def MICRO_QUADRANTS_PER_CELL_def)
    show "cell_frame (hm_hotspot_cells ?m0 ! h) d" by (simp add: c0 d_def cell_frame_def)
    show "head_in d s' = (if s' = None then QUADTREE_EMPTY else head_in (hm_hotspot_cells ?m0 ! h) s')" if "\<forall>j. s' = Some j \<longrightarrow> j < 16" for s'
      using that heads unfolding c0 by (auto simp: head_in_def d_def MICRO_QUADRANTS_PER_CELL_def split: option.split)
    show "hc_leaf_counts d ! j = word_of_nat (list_size (\<lambda>e. if owner e = Some (h, None) then None else owner e) (h, Some j))" if "j < 16" for j
      using that by (simp add: size0 d_def MICRO_QUADRANTS_PER_CELL_def)
    show "index_ok (hm_links m) ((list_head ?m0)((h, None) := QUADTREE_EMPTY)) (slots_of (hm_active_hotspots_count ?m0)) (\<lambda>e. if owner e = Some (h, None) then None else owner e)"
      by (rule index_drop [OF ix])
    show "length (lk_next (hm_links m)) = hm_max_entities ?m0" "length (lk_prev (hm_links m)) = hm_max_entities ?m0"
      using D(8,9) by (simp_all add: put_cell_def)
  qed (rule others)
  moreover have "m\<lparr>hm_links := hm_links m\<rparr> = m" by simp
  ultimately show ?thesis by simp
qed

lemma cell_count_cong:
  assumes "\<And>e. map_option fst (o1 e) = map_option fst (o2 e)"
  shows "cell_count o1 h = cell_count o2 h"
proof -
  have "(\<exists>s. o1 e = Some (h, s)) \<longleftrightarrow> (\<exists>s. o2 e = Some (h, s))" for e
    using assms [of e] by (cases "o1 e"; cases "o2 e") (auto intro: prod_eqI)
  then show ?thesis by (simp add: cell_count_def)
qed

text \<open>Transfer of the invariant to a state that tracks the same entities in the same cells.\<close>

lemma hm_inv_same:
  assumes inv: "hm_inv m" and st: "same_tracking m n" and lists: "lists_ok n (slot_owner n)"
    and leaf: "\<And>e h. slot_owner m e \<noteq> None \<Longrightarrow> h = unat (hm_entity_hotspot_id m ! unat e) - 1 \<Longrightarrow> hc_is_split (hm_hotspot_cells n ! h) \<Longrightarrow>
      unat (hm_entity_leaf_idx n ! unat e) = compute_leaf_index (hm_hotspot_cells m ! h) (hm_entity_positions m ! unat e)"
  shows "hm_inv n"
proof -
  have S: "hm_max_entities n = hm_max_entities m" "hm_active_hotspots_count n = hm_active_hotspots_count m"
      "hm_entity_positions n = hm_entity_positions m" "hm_entity_active n = hm_entity_active m" "hm_entity_hotspot_id n = hm_entity_hotspot_id m"
      "\<And>h. h < hm_active_hotspots_count m \<Longrightarrow> hc_cell (hm_hotspot_cells n ! h) = hc_cell (hm_hotspot_cells m ! h)
          \<and> hc_entity_count (hm_hotspot_cells n ! h) = hc_entity_count (hm_hotspot_cells m ! h)"
    using st hm_invD(1) [OF inv] by (auto simp: same_tracking_def lists_ok_def shape_def)
  have own: "slot_owner n e \<noteq> None \<longleftrightarrow> slot_owner m e \<noteq> None" "map_option fst (slot_owner n e) = map_option fst (slot_owner m e)" for e
    by (simp_all add: slot_owner_def S Let_def)
  have "entity_ok n e" if "slot_owner n e \<noteq> None" for e
  proof -
    have o: "slot_owner m e \<noteq> None" using that own by blast
    from hm_invD(2) [OF inv o] have E: "hm_entity_hotspot_id m ! unat e \<noteq> 0" "unat (hm_entity_hotspot_id m ! unat e) - 1 < hm_active_hotspots_count m"
        "hc_cell (hm_hotspot_cells m ! (unat (hm_entity_hotspot_id m ! unat e) - 1)) = CellCoord_from_position (hm_entity_positions m ! unat e)"
      by (simp_all add: entity_ok_def Let_def)
    show ?thesis using E leaf [OF o refl] S(6) [OF E(2)] leaf_index_cell
      unfolding entity_ok_def Let_def S by auto
  qed
  moreover have "hc_entity_count (hm_hotspot_cells n ! h) = cell_count (slot_owner n) h" if "h < hm_active_hotspots_count n" for h
    using hm_invD(3) [OF inv, of h] S(2,6) that cell_count_cong [OF own(2)] by simp
  moreover have "h = h'" if "h < hm_active_hotspots_count n" "h' < hm_active_hotspots_count n" "hc_cell (hm_hotspot_cells n ! h) = hc_cell (hm_hotspot_cells n ! h')" for h h'
    using hm_invD(4) [OF inv, of h h'] S(2,6) that by simp
  ultimately show ?thesis using lists by (simp add: hm_inv_def)
qed

lemma split_cell_ok:
  assumes inv: "hm_inv m" and h: "h < hm_active_hotspots_count m" and uns: "\<not> hc_is_split (hm_hotspot_cells m ! h)"
  shows "\<exists>n. split_cell h m = Some n \<and> hm_inv n \<and> same_tracking m n"
proof -
  let ?c = "hm_hotspot_cells m ! h"
  let ?d = "?c\<lparr>hc_is_split := True, hc_flat_head := QUADTREE_EMPTY,
      hc_leaf_heads := replicate MICRO_QUADRANTS_PER_CELL QUADTREE_EMPTY, hc_leaf_counts := replicate MICRO_QUADRANTS_PER_CELL 0\<rparr>"
  let ?m = "put_cell h ?d m"
  let ?o = "\<lambda>e. if slot_owner m e = Some (h, None) then None else slot_owner m e"
  note L = hm_invD(1) [OF inv]
  note D = lists_okD [OF L h]
  have start: "lists_ok ?m ?o"
    by (rule split_start [OF L _ h]) (use unsplit_owner uns in blast)
  obtain ids where ids: "linked (hm_links m) (list_head m (h, None)) ids" "set ids = {e. slot_owner m e = Some (h, None)}"
    using index_okD [OF D(2), of "(h, None)"] h by auto
  have ch: "chain (lk_next (hm_links ?m)) (hc_flat_head ?c) ids" "distinct ids" using ids(1) by (simp_all add: linked_def list_head_def)
  have hm: "h < hm_active_hotspots_count ?m" using h by (simp add: put_cell_def)
  have mem: "unat e < hm_max_entities m" if "e \<in> set ids" for e
    using that ids(2) by (auto simp: slot_owner_def split: if_splits)
  obtain n where n: "split_loop h (hc_flat_head ?c) ?m = Some n" "lists_ok n (split_owner ?m h ids ?o)"
      "list_frame (?m\<lparr>hm_entity_leaf_idx := hm_entity_leaf_idx n\<rparr>) n"
      "\<forall>e. unat e < hm_max_entities ?m \<longrightarrow> unat (hm_entity_leaf_idx n ! unat e) =
         (if e \<in> set ids then compute_leaf_index (hm_hotspot_cells ?m ! h) (hm_entity_positions ?m ! unat e) else unat (hm_entity_leaf_idx ?m ! unat e))"
    using split_loop_ok [OF start ch _ hm] mem ids(2) by (auto simp: put_cell_def)
  have li: "compute_leaf_index ?d p = compute_leaf_index ?c p" for p
    by (rule leaf_index_cell) simp
  have F: "hm_max_entities n = hm_max_entities m" "hm_max_hotspots n = hm_max_hotspots m" "hm_active_hotspots_count n = hm_active_hotspots_count m"
      "hm_entity_positions n = hm_entity_positions m" "hm_entity_active n = hm_entity_active m" "hm_entity_hotspot_id n = hm_entity_hotspot_id m"
    using n(3) by (simp_all add: list_frame_def put_cell_def)
  have cells: "hc_cell (hm_hotspot_cells n ! j) = hc_cell (hm_hotspot_cells m ! j)"
      "hc_entity_count (hm_hotspot_cells n ! j) = hc_entity_count (hm_hotspot_cells m ! j)"
      "hc_is_split (hm_hotspot_cells n ! j) = (hc_is_split (hm_hotspot_cells m ! j) \<or> j = h)" if "j < length (hm_hotspot_cells m)" for j
  proof -
    have "hm_hotspot_cells ?m ! j = (if j = h then ?d else hm_hotspot_cells m ! j)" using D(3) by (simp add: put_cell_def)
    moreover have "cell_frame (hm_hotspot_cells ?m ! j) (hm_hotspot_cells n ! j)"
      using frame_cell [OF n(3), of j] that by (simp add: put_cell_def)
    ultimately show "hc_cell (hm_hotspot_cells n ! j) = hc_cell (hm_hotspot_cells m ! j)"
      "hc_entity_count (hm_hotspot_cells n ! j) = hc_entity_count (hm_hotspot_cells m ! j)"
      "hc_is_split (hm_hotspot_cells n ! j) = (hc_is_split (hm_hotspot_cells m ! j) \<or> j = h)"
      by (auto simp: cell_frame_def split: if_splits)
  qed
  have st: "same_tracking m n" using cells D(1) by (simp add: same_tracking_def F shape_def)
  have leaf: "unat (hm_entity_leaf_idx n ! unat e) = (if e \<in> set ids then compute_leaf_index ?c (hm_entity_positions m ! unat e) else unat (hm_entity_leaf_idx m ! unat e))"
    if "unat e < hm_max_entities m" for e
    using n(4) that D(3) by (simp add: li)
  have own: "slot_owner n e = split_owner ?m h ids ?o e" for e
  proof (cases "slot_owner m e")
    case None
    then have "e \<notin> set ids" using ids(2) by simp
    moreover have "slot_owner n e = None" using None by (auto simp: slot_owner_def F Let_def split: if_splits)
    ultimately show ?thesis using None by (simp add: split_owner_def)
  next
    case (Some k)
    let ?h = "unat (hm_entity_hotspot_id m ! unat e) - 1"
    have a: "unat e < hm_max_entities m" "hm_entity_active m ! unat e" using Some by (auto simp: slot_owner_def split: if_splits)
    have hh: "?h < length (hm_hotspot_cells m)" using hm_invD(2) [OF inv, of e] Some D(1) by (auto simp: entity_ok_def shape_def Let_def)
    have mm: "e \<in> set ids \<longleftrightarrow> ?h = h" using a uns by (auto simp: ids(2) slot_owner_def Let_def)
    show ?thesis
    proof (cases "?h = h")
      case True
      then show ?thesis using a mm leaf [OF a(1)] cells(3) [OF hh] D(3) by (simp add: slot_owner_def F Let_def split_owner_def li)
    next
      case False
      then have "slot_owner n e = slot_owner m e" using a mm leaf [OF a(1)] cells(3) [OF hh] by (simp add: slot_owner_def F Let_def)
      moreover have "slot_owner m e \<noteq> Some (h, None)" using False mm ids(2) by auto
      ultimately show ?thesis using False mm by (simp add: split_owner_def)
    qed
  qed
  then have "slot_owner n = split_owner ?m h ids ?o" by auto
  then have lists: "lists_ok n (slot_owner n)" using n(2) by simp
  have "hm_inv n"
  proof (rule hm_inv_same [OF inv st lists])
    fix e h' assume o: "slot_owner m e \<noteq> None" and h': "h' = unat (hm_entity_hotspot_id m ! unat e) - 1" and s: "hc_is_split (hm_hotspot_cells n ! h')"
    have a: "unat e < hm_max_entities m" "hm_entity_active m ! unat e" using o by (auto simp: slot_owner_def split: if_splits)
    have E: "entity_ok m e" by (rule hm_invD(2) [OF inv o])
    have hh: "h' < length (hm_hotspot_cells m)" using E D(1) h' by (auto simp: entity_ok_def shape_def Let_def)
    have mm: "e \<in> set ids \<longleftrightarrow> h' = h" using a uns h' by (auto simp: ids(2) slot_owner_def Let_def)
    show "unat (hm_entity_leaf_idx n ! unat e) = compute_leaf_index (hm_hotspot_cells m ! h') (hm_entity_positions m ! unat e)"
      using leaf [OF a(1)] mm E s cells(3) [OF hh] h' by (auto simp: entity_ok_def Let_def)
  qed
  moreover have "split_cell h m = Some n" using n(1) by (simp add: split_cell_def Let_def)
  ultimately show ?thesis using st by blast
qed

section \<open>Merging\<close>

text \<open>The list that a merge builds has its head in a local variable; here it is put in the cell.\<close>

definition with_flat :: "nat \<Rightarrow> u32 \<Rightarrow> HotspotManager \<Rightarrow> HotspotManager" where
  "with_flat h fh m = put_cell h ((hm_hotspot_cells m ! h)\<lparr>hc_flat_head := fh\<rparr>) m"

lemma with_flat_push:
  "h < length (hm_hotspot_cells m) \<Longrightarrow> push_flat h e (with_flat h fh m) = with_flat h e (m\<lparr>hm_links := link_front e fh (hm_links m)\<rparr>)"
  by (simp add: with_flat_def push_flat_def put_cell_def Let_def)

definition move_to :: "slot \<Rightarrow> u32 set \<Rightarrow> (u32 \<Rightarrow> slot option) \<Rightarrow> u32 \<Rightarrow> slot option" where
  "move_to k A owner e = (if e \<in> A then Some k else owner e)"

lemma splice_loop_ok:
  assumes "lists_ok (with_flat h fh m) owner" and "chain (lk_next (hm_links m)) cur rest" "distinct rest"
    and "\<And>e. e \<in> set rest \<Longrightarrow> owner e = None \<and> unat e < hm_max_entities m" and h: "h < hm_active_hotspots_count m" "h < length (hm_hotspot_cells m)"
  shows "\<exists>fh' l. splice_loop cur fh (hm_links m) = Some (fh', l)
    \<and> lists_ok (with_flat h fh' (m\<lparr>hm_links := l\<rparr>)) (move_to (h, None) (set rest) owner)"
  using assms
proof (induction rest arbitrary: m fh cur owner)
  case Nil
  have "move_to (h, None) {} owner = owner" by (simp add: move_to_def fun_eq_iff)
  moreover have "splice_loop cur fh (hm_links m) = Some (fh, hm_links m)" using Nil.prems(2) by (subst splice_loop.simps) simp
  ultimately show ?case using Nil.prems(1) by simp
next
  case (Cons e rest)
  note w = walk_step [OF Cons.prems(2)]
  let ?m = "m\<lparr>hm_links := link_front e fh (hm_links m)\<rparr>"
  have e: "owner e = None" "unat e < hm_max_entities m" using Cons.prems(4) [of e] by simp_all
  have n: "lists_ok (with_flat h e ?m) (owner(e := Some (h, None)))"
    using push_flat_ok [OF Cons.prems(1) e(1), of h] e(2) Cons.prems(5,6)
    by (simp add: with_flat_push) (simp add: with_flat_def)
  have ne: "e \<notin> set rest" using Cons.prems(3) by simp
  have ch: "chain (lk_next (hm_links ?m)) (lk_next (hm_links m) ! unat e) rest"
    using w chain_update [OF ne] by (simp add: link_front_def Let_def)
  have pre: "(owner(e := Some (h, None))) x = None \<and> unat x < hm_max_entities ?m" if "x \<in> set rest" for x
    using that Cons.prems(4) [of x] ne by auto
  have d: "distinct rest" and hn: "h < hm_active_hotspots_count ?m" "h < length (hm_hotspot_cells ?m)"
    using Cons.prems(3,5,6) by simp_all
  obtain fh' l where r: "splice_loop (lk_next (hm_links m) ! unat e) e (hm_links ?m) = Some (fh', l)"
      "lists_ok (with_flat h fh' (?m\<lparr>hm_links := l\<rparr>)) (move_to (h, None) (set rest) (owner(e := Some (h, None))))"
    using Cons.IH [OF n ch d pre hn] by blast
  have "move_to (h, None) (set rest) (owner(e := Some (h, None))) = move_to (h, None) (set (e # rest)) owner"
    by (auto simp: move_to_def fun_eq_iff)
  moreover have "splice_loop cur fh (hm_links m) = Some (fh', l)"
    using r(1) w by (subst splice_loop.simps) simp
  ultimately show ?case using r(2) by auto
qed

text \<open>One leaf is emptied.\<close>

definition drop_leaf :: "nat \<Rightarrow> nat \<Rightarrow> HotspotManager \<Rightarrow> HotspotManager" where
  "drop_leaf h i m =
     (let c = hm_hotspot_cells m ! h
      in put_cell h (c\<lparr>hc_leaf_heads := (hc_leaf_heads c)[i := QUADTREE_EMPTY], hc_leaf_counts := (hc_leaf_counts c)[i := 0]\<rparr>) m)"

lemma drop_leaf_ok:
  assumes ok: "lists_ok m owner" and h: "h < hm_active_hotspots_count m" "i < 16"
  shows "lists_ok (drop_leaf h i m) (\<lambda>e. if owner e = Some (h, Some i) then None else owner e) \<and> list_frame m (drop_leaf h i m)"
proof -
  let ?o = "\<lambda>e. if owner e = Some (h, Some i) then None else owner e"
  note D = lists_okD [OF ok h(1)]
  let ?c = "hm_hotspot_cells m ! h"
  let ?d = "?c\<lparr>hc_leaf_heads := (hc_leaf_heads ?c)[i := QUADTREE_EMPTY], hc_leaf_counts := (hc_leaf_counts ?c)[i := 0]\<rparr>"
  have sizes: "list_size ?o k = (if k = (h, Some i) then 0 else list_size owner k)" for k
  proof (cases "k = (h, Some i)")
    case True
    then show ?thesis by (simp add: list_size_zero)
  next
    case False
    then have "{e. ?o e = Some k} = {e. owner e = Some k}" by auto
    then show ?thesis using False by (simp add: list_size_def)
  qed
  have "lists_ok (put_cell h ?d (m\<lparr>hm_links := hm_links m\<rparr>)) ?o \<and> list_frame m (put_cell h ?d (m\<lparr>hm_links := hm_links m\<rparr>))"
  proof (rule lists_put [OF ok h(1), where s = "Some i" and v = QUADTREE_EMPTY])
    show "cell_shape ?d" using D(4) by (simp add: cell_shape_def)
    show "cell_frame ?c ?d" by (simp add: cell_frame_def)
    show "head_in ?d s' = (if s' = Some i then QUADTREE_EMPTY else head_in ?c s')" for s'
      using D(5) h(2) by (auto simp: head_in_def nth_list_update split: option.split)
    show "hc_leaf_counts ?d ! j = word_of_nat (list_size ?o (h, Some j))" if "j < 16" for j
      using that D(6) D(7) [OF that] unfolding sizes by (simp add: nth_list_update)
    show "list_size ?o (h', x) = list_size owner (h', x)" if "h' \<noteq> h" for h' x unfolding sizes using that by simp
    show "index_ok (hm_links m) ((list_head m)((h, Some i) := QUADTREE_EMPTY)) (slots_of (hm_active_hotspots_count m)) ?o"
      by (rule index_drop [OF D(2)])
  qed (use D(8,9) in simp_all)
  then show ?thesis by (simp add: drop_leaf_def Let_def)
qed

definition merge_owner :: "nat \<Rightarrow> nat set \<Rightarrow> (u32 \<Rightarrow> slot option) \<Rightarrow> u32 \<Rightarrow> slot option" where
  "merge_owner h I owner e = (if \<exists>i\<in>I. owner e = Some (h, Some i) then Some (h, None) else owner e)"

lemma with_flat_drop:
  "h < length (hm_hotspot_cells m) \<Longrightarrow> drop_leaf h i (with_flat h fh m) = with_flat h fh (drop_leaf h i m)"
  by (cases "hm_hotspot_cells m ! h") (simp add: with_flat_def drop_leaf_def Let_def)

lemma frame_links: "list_frame m n \<Longrightarrow> list_frame m (n\<lparr>hm_links := l\<rparr>)"
  by (simp add: list_frame_def)

lemma merge_leaves_ok:
  assumes "lists_ok (with_flat h fh m) owner" and h: "h < hm_active_hotspots_count m" "h < length (hm_hotspot_cells m)"
    and "\<forall>i\<in>set is. i < 16" and "distinct is" and mem: "\<And>e. owner e \<noteq> None \<Longrightarrow> unat e < hm_max_entities m"
  shows "\<exists>fh' n. merge_leaves h is fh m = Some (fh', n) \<and> list_frame m n
    \<and> lists_ok (with_flat h fh' n) (merge_owner h (set is) owner)"
  using assms
proof (induction "is" arbitrary: m fh owner)
  case Nil
  have "merge_owner h {} owner = owner" by (simp add: merge_owner_def fun_eq_iff)
  then show ?case using Nil.prems(1) by simp
next
  case (Cons i "is")
  let ?o = "\<lambda>e. if owner e = Some (h, Some i) then None else owner e"
  let ?cur = "hc_leaf_heads (hm_hotspot_cells m ! h) ! i" and ?m = "drop_leaf h i m"
  have i: "i < 16" using Cons.prems(4) by simp
  have hw: "h < hm_active_hotspots_count (with_flat h fh m)" using Cons.prems(2) by (simp add: with_flat_def)
  note D = lists_okD [OF Cons.prems(1) hw]
  obtain ids where ids: "linked (hm_links m) ?cur ids" "set ids = {e. owner e = Some (h, Some i)}"
    using index_okD [OF D(2), of "(h, Some i)"] hw i Cons.prems(3) by (auto simp: list_head_in with_flat_def head_in_def)
  have dr: "lists_ok (with_flat h fh ?m) ?o"
    using drop_leaf_ok [OF Cons.prems(1) hw i] Cons.prems(3) by (simp add: with_flat_drop)
  have fr: "list_frame m ?m"
    using Cons.prems(3) by (auto simp: drop_leaf_def list_frame_def cell_frame_def put_cell_def nth_list_update Let_def)
  have lk: "hm_links ?m = hm_links m" by (simp add: drop_leaf_def Let_def)
  have F: "hm_active_hotspots_count ?m = hm_active_hotspots_count m" "length (hm_hotspot_cells ?m) = length (hm_hotspot_cells m)"
      "hm_max_entities ?m = hm_max_entities m" using fr by (simp_all add: list_frame_def)
  have pre: "?o e = None \<and> unat e < hm_max_entities ?m" if "e \<in> set ids" for e
    using that ids(2) Cons.prems(6) [of e] F by auto
  have ch: "chain (lk_next (hm_links ?m)) ?cur ids" "distinct ids" and hn: "h < hm_active_hotspots_count ?m" "h < length (hm_hotspot_cells ?m)"
    using ids(1) Cons.prems(2,3) F lk by (simp_all add: linked_def)
  obtain fh1 l where s: "splice_loop ?cur fh (hm_links ?m) = Some (fh1, l)"
      "lists_ok (with_flat h fh1 (?m\<lparr>hm_links := l\<rparr>)) (move_to (h, None) (set ids) ?o)"
    using splice_loop_ok [OF dr ch pre hn] by blast
  let ?n = "?m\<lparr>hm_links := l\<rparr>"
  have o1: "move_to (h, None) (set ids) ?o = merge_owner h {i} owner"
    by (auto simp: move_to_def merge_owner_def ids(2) fun_eq_iff)
  have o2: "merge_owner h (set is) (merge_owner h {i} owner) = merge_owner h (set (i # is)) owner"
    by (auto simp: merge_owner_def fun_eq_iff)
  have mem: "merge_owner h {i} owner e \<noteq> None \<Longrightarrow> unat e < hm_max_entities ?n" for e
    using Cons.prems(6) [of e] F by (auto simp: merge_owner_def split: if_splits)
  have n: "lists_ok (with_flat h fh1 ?n) (merge_owner h {i} owner)" using s(2) unfolding o1 .
  have "h < hm_active_hotspots_count ?n" "h < length (hm_hotspot_cells ?n)" "\<forall>i\<in>set is. i < 16" "distinct is"
    using Cons.prems(2-5) F by simp_all
  from Cons.IH [OF n this mem] obtain fh2 n2 where r: "merge_leaves h is fh1 ?n = Some (fh2, n2)" "list_frame ?n n2"
      "lists_ok (with_flat h fh2 n2) (merge_owner h (set (i # is)) owner)" unfolding o2 by blast
  have "merge_leaves h (i # is) fh m = Some (fh2, n2)" using r(1) s(1) by (simp add: drop_leaf_def Let_def)
  moreover have "list_frame m n2" by (rule frame_trans [OF frame_links [OF fr] r(2)])
  ultimately show ?case using r(3) by blast
qed

lemma frame_with_flat: "h < length (hm_hotspot_cells m) \<Longrightarrow> list_frame m (with_flat h fh m)"
  by (auto simp: list_frame_def with_flat_def put_cell_def cell_frame_def nth_list_update)

lemma merge_cell_ok:
  assumes inv: "hm_inv m" and h: "h < hm_active_hotspots_count m" and spl: "hc_is_split (hm_hotspot_cells m ! h)"
  shows "\<exists>n. merge_cell h m = Some n \<and> hm_inv n \<and> same_tracking m n"
proof -
  let ?c = "hm_hotspot_cells m ! h" and ?o = "slot_owner m"
  let ?m = "put_cell h (?c\<lparr>hc_is_split := False\<rparr>) m"
  note L = hm_invD(1) [OF inv]
  note D = lists_okD [OF L h]
  have none: "?o e \<noteq> Some (h, None)" for e using spl by (auto simp: slot_owner_def Let_def split: if_splits)
  have fl: "hc_flat_head ?c = QUADTREE_EMPTY"
    using empty_list [OF D(2), of "(h, None)"] h none by (simp add: list_head_def)
  have ok: "lists_ok (with_flat h QUADTREE_EMPTY ?m) ?o"
    unfolding with_flat_def put_cell_twice using D(3) fl by (intro lists_ok_flags [OF L D(3)]) simp_all
  have hm: "h < hm_active_hotspots_count ?m" "h < length (hm_hotspot_cells ?m)" using h D(3) by simp_all
  have mem: "?o e \<noteq> None \<Longrightarrow> unat e < hm_max_entities ?m" for e by (auto simp: slot_owner_def split: if_splits)
  obtain fh p where p: "merge_leaves h [0..<16] QUADTREE_EMPTY ?m = Some (fh, p)" "list_frame ?m p"
      "lists_ok (with_flat h fh p) (merge_owner h {0..<16} ?o)"
    using merge_leaves_ok [OF ok hm _ _ mem, of "[0..<16]"] by auto
  let ?n = "with_flat h fh p"
  have "length (hm_hotspot_cells p) = length (hm_hotspot_cells m)" using p(2) by (simp add: list_frame_def)
  then have fr: "list_frame ?m ?n" using frame_trans [OF p(2) frame_with_flat] D(3) by simp
  have F: "hm_max_entities ?n = hm_max_entities m" "hm_max_hotspots ?n = hm_max_hotspots m" "hm_active_hotspots_count ?n = hm_active_hotspots_count m"
      "hm_entity_positions ?n = hm_entity_positions m" "hm_entity_active ?n = hm_entity_active m" "hm_entity_hotspot_id ?n = hm_entity_hotspot_id m"
      "hm_entity_leaf_idx ?n = hm_entity_leaf_idx m"
    using fr by (simp_all add: list_frame_def)
  have cells: "hc_cell (hm_hotspot_cells ?n ! j) = hc_cell (hm_hotspot_cells m ! j)"
      "hc_entity_count (hm_hotspot_cells ?n ! j) = hc_entity_count (hm_hotspot_cells m ! j)"
      "hc_is_split (hm_hotspot_cells ?n ! j) = (hc_is_split (hm_hotspot_cells m ! j) \<and> j \<noteq> h)" if "j < length (hm_hotspot_cells m)" for j
  proof -
    have "hm_hotspot_cells ?m ! j = (if j = h then ?c\<lparr>hc_is_split := False\<rparr> else hm_hotspot_cells m ! j)" using D(3) by (simp add: put_cell_def)
    moreover have "cell_frame (hm_hotspot_cells ?m ! j) (hm_hotspot_cells ?n ! j)" using frame_cell [OF fr, of j] that by simp
    ultimately show "hc_cell (hm_hotspot_cells ?n ! j) = hc_cell (hm_hotspot_cells m ! j)"
      "hc_entity_count (hm_hotspot_cells ?n ! j) = hc_entity_count (hm_hotspot_cells m ! j)"
      "hc_is_split (hm_hotspot_cells ?n ! j) = (hc_is_split (hm_hotspot_cells m ! j) \<and> j \<noteq> h)"
      by (auto simp: cell_frame_def split: if_splits)
  qed
  have st: "same_tracking m ?n" using cells D(1) unfolding same_tracking_def F by (simp add: shape_def)
  have own: "slot_owner ?n e = merge_owner h {0..<16} ?o e" for e
  proof (cases "?o e")
    case None
    then show ?thesis by (auto simp: slot_owner_def merge_owner_def F Let_def split: if_splits)
  next
    case (Some k)
    let ?h = "unat (hm_entity_hotspot_id m ! unat e) - 1"
    have a: "unat e < hm_max_entities m" "hm_entity_active m ! unat e" using Some by (auto simp: slot_owner_def split: if_splits)
    have hh: "?h < length (hm_hotspot_cells m)" using hm_invD(2) [OF inv, of e] Some D(1) by (auto simp: entity_ok_def shape_def Let_def)
    have lt: "unat (hm_entity_leaf_idx m ! unat e) < 16" if "?h = h"
      using hm_invD(2) [OF inv, of e] Some spl leaf_index_bound that by (auto simp: entity_ok_def Let_def)
    show ?thesis
    proof (cases "?h = h")
      case True
      then show ?thesis using a lt cells(3) [OF hh] spl by (simp add: slot_owner_def F Let_def merge_owner_def)
    next
      case False
      then have "slot_owner ?n e = ?o e" using a cells(3) [OF hh] by (simp add: slot_owner_def F Let_def)
      moreover have "\<forall>i. ?o e \<noteq> Some (h, Some i)" using a False by (simp add: slot_owner_def Let_def)
      ultimately show ?thesis by (simp add: merge_owner_def)
    qed
  qed
  then have "slot_owner ?n = merge_owner h {0..<16} ?o" by auto
  then have lists: "lists_ok ?n (slot_owner ?n)" using p(3) by simp
  have "hm_inv ?n"
  proof (rule hm_inv_same [OF inv st lists])
    fix e h' assume o: "?o e \<noteq> None" and h': "h' = unat (hm_entity_hotspot_id m ! unat e) - 1" and s: "hc_is_split (hm_hotspot_cells ?n ! h')"
    have E: "entity_ok m e" by (rule hm_invD(2) [OF inv o])
    have hh: "h' < length (hm_hotspot_cells m)" using E D(1) h' by (auto simp: entity_ok_def shape_def Let_def)
    show "unat (hm_entity_leaf_idx ?n ! unat e) = compute_leaf_index (hm_hotspot_cells m ! h') (hm_entity_positions m ! unat e)"
      using E s cells(3) [OF hh] h' by (auto simp: entity_ok_def Let_def F)
  qed
  moreover have "merge_cell h m = Some ?n" using p(1) by (simp add: merge_cell_def MICRO_QUADRANTS_PER_CELL_def with_flat_def)
  ultimately show ?thesis using st by blast
qed

section \<open>Reclaiming a slot\<close>

lemma fold_renumber:
  "length (fold (\<lambda>i hids. hids[unat i := v]) ids hids) = length hids"
  "unat e < length hids \<Longrightarrow> fold (\<lambda>i hids. hids[unat i := v]) ids hids ! unat e = (if e \<in> set ids then v else hids ! unat e)"
  by (induction ids arbitrary: hids) (auto simp: nth_list_update word_unat_eq_iff)

lemma renumber_lists_ok:
  assumes "\<And>x. x \<in> set heads \<Longrightarrow> walk (lk_next (hm_links m)) x \<noteq> None"
  shows "\<exists>hids. renumber_lists h heads m = Some (m\<lparr>hm_entity_hotspot_id := hids\<rparr>) \<and> length hids = length (hm_entity_hotspot_id m)
    \<and> (\<forall>e. unat e < length hids \<longrightarrow> hids ! unat e =
        (if \<exists>x\<in>set heads. e \<in> set (the (walk (lk_next (hm_links m)) x)) then word_of_nat (h + 1) else hm_entity_hotspot_id m ! unat e))"
  using assms
proof (induction heads arbitrary: m)
  case Nil
  then show ?case by (intro exI [of _ "hm_entity_hotspot_id m"]) simp
next
  case (Cons x heads)
  obtain ids where ids: "walk (lk_next (hm_links m)) x = Some ids" using Cons.prems [of x] by auto
  let ?m = "m\<lparr>hm_entity_hotspot_id := fold (\<lambda>i hids. hids[unat i := word_of_nat (h + 1)]) ids (hm_entity_hotspot_id m)\<rparr>"
  obtain hids where H: "renumber_lists h heads ?m = Some (?m\<lparr>hm_entity_hotspot_id := hids\<rparr>)" "length hids = length (hm_entity_hotspot_id ?m)"
    "\<And>e. unat e < length hids \<Longrightarrow> hids ! unat e =
        (if \<exists>x\<in>set heads. e \<in> set (the (walk (lk_next (hm_links ?m)) x)) then word_of_nat (h + 1) else hm_entity_hotspot_id ?m ! unat e)"
    using Cons.IH [of ?m] Cons.prems by auto
  have "renumber_lists h (x # heads) m = Some (m\<lparr>hm_entity_hotspot_id := hids\<rparr>)" using H(1) ids by simp
  moreover have "length hids = length (hm_entity_hotspot_id m)" using H(2) by (simp add: fold_renumber)
  moreover have "hids ! unat e = (if \<exists>y\<in>set (x # heads). e \<in> set (the (walk (lk_next (hm_links m)) y)) then word_of_nat (h + 1) else hm_entity_hotspot_id m ! unat e)"
    if "unat e < length hids" for e
    using H(3) [OF that] that H(2) ids by (auto simp: fold_renumber)
  ultimately show ?case by blast
qed

definition slot_moved :: "nat \<Rightarrow> nat \<Rightarrow> slot \<Rightarrow> slot" where
  "slot_moved from to k = (if fst k = from then to else fst k, snd k)"

text \<open>A renaming of the cells that no list is lost by: what is left of the invariant follows from the entities.\<close>

lemma lists_ok_moved:
  assumes ok: "lists_ok m owner" and none: "\<And>e s. owner e \<noteq> Some (h, s)" and h: "h < hm_active_hotspots_count m"
    and last: "l = hm_active_hotspots_count m - 1" and sh: "shape n" and lk: "hm_links n = hm_links m"
    and cnt: "hm_active_hotspots_count n = l"
    and cells: "\<And>j. j < l \<Longrightarrow> hm_hotspot_cells n ! j = hm_hotspot_cells m ! (if j = h then l else j)"
  shows "lists_ok n (\<lambda>e. map_option (slot_moved l h) (owner e))"
proof -
  let ?c = "hm_active_hotspots_count m" and ?f = "slot_moved l h"
  let ?K = "{k \<in> slots_of ?c. fst k \<noteq> h}"
  note D = lists_okD [OF ok h]
  have used: "owner e = Some k \<Longrightarrow> k \<in> ?K" for e k using index_owner [OF D(2), of e k] none by (cases k) auto
  have K: "index_ok (hm_links m) (list_head m) ?K owner" by (rule index_drop_keys [OF D(2) _ used]) auto
  have inj: "inj_on ?f ?K" by (auto simp: inj_on_def slot_moved_def split: if_splits)
  have img: "slots_of l = ?f ` ?K"
  proof (rule set_eqI)
    fix k :: slot
    obtain j s where k: "k = (j, s)" by fastforce
    show "k \<in> slots_of l \<longleftrightarrow> k \<in> ?f ` ?K"
    proof
      assume a: "k \<in> slots_of l"
      show "k \<in> ?f ` ?K"
      proof (cases "j = h")
        case True
        then have "k = ?f (l, s)" "(l, s) \<in> ?K" using a last h by (auto simp: k slot_moved_def slots_of_def)
        then show ?thesis by blast
      next
        case False
        then have "k = ?f (j, s)" "(j, s) \<in> ?K" using a last h by (auto simp: k slot_moved_def slots_of_def)
        then show ?thesis by blast
      qed
    next
      assume "k \<in> ?f ` ?K"
      then obtain k0 where "k = ?f k0" "k0 \<in> ?K" by blast
      then show "k \<in> slots_of l" using h last by (auto simp: slot_moved_def slots_of_def split: if_splits)
    qed
  qed
  have heads: "list_head n (?f k) = list_head m k" if "k \<in> ?K" for k
  proof -
    obtain j s where k: "k = (j, s)" by fastforce
    have "j < ?c" "j \<noteq> h" using that by (auto simp: k slots_of_def)
    then show ?thesis using cells [of j] cells [of h] h last by (auto simp: k slot_moved_def list_head_in)
  qed
  have ix: "index_ok (hm_links n) (list_head n) (slots_of l) (\<lambda>e. map_option ?f (owner e))"
    unfolding lk by (rule index_rename [OF K inj heads img])
  have "hc_leaf_counts (hm_hotspot_cells n ! j) ! i = word_of_nat (list_size (\<lambda>e. map_option ?f (owner e)) (j, Some i))"
    if "j < l" "i < 16" for j i
  proof -
    let ?j = "if j = h then l else j"
    have "map_option ?f (owner e) = Some (j, Some i) \<longleftrightarrow> owner e = Some (?j, Some i)" for e
      using used [of e] that(1) h last by (cases "owner e") (auto simp: slot_moved_def split: if_splits)
    then have "list_size (\<lambda>e. map_option ?f (owner e)) (j, Some i) = list_size owner (?j, Some i)" by (simp add: list_size_def)
    moreover have "?j < ?c" using that(1) last h by auto
    ultimately show ?thesis using lists_okD(7) [OF ok \<open>?j < ?c\<close> that(2)] cells [OF that(1)] by simp
  qed
  with ix sh show ?thesis by (simp add: lists_ok_def cnt)
qed

lemma card_none: "cell_count owner h = 0 \<longleftrightarrow> (\<forall>e s. owner e \<noteq> Some (h, s))"
  by (auto simp: cell_count_def)

lemma hm_inv_moved:
  assumes inv: "hm_inv m" and none: "\<And>e s. slot_owner m e \<noteq> Some (h, s)" and h: "h < hm_active_hotspots_count m"
    and last: "l = hm_active_hotspots_count m - 1"
    and n: "n = m\<lparr>hm_hotspot_cells := cs, hm_entity_hotspot_id := hids, hm_active_hotspots_count := l\<rparr>"
    and cs: "length cs = length (hm_hotspot_cells m)" "\<And>j. j < l \<Longrightarrow> cs ! j = hm_hotspot_cells m ! (if j = h then l else j)"
      "\<And>j. j < length cs \<Longrightarrow> cell_shape (cs ! j)"
    and hids: "length hids = hm_max_entities m" "\<And>e. unat e < hm_max_entities m \<Longrightarrow> hids ! unat e =
        (if h \<noteq> l \<and> (\<exists>s. slot_owner m e = Some (l, s)) then word_of_nat (h + 1) else hm_entity_hotspot_id m ! unat e)"
  shows "hm_inv n"
proof -
  let ?f = "slot_moved l h"
  note L = hm_invD(1) [OF inv]
  note D = lists_okD [OF L h]
  have sh: "shape n" using D(1) last cs(1,3) hids(1) by (auto simp: n shape_def)
  have hb: "unat (word_of_nat (h + 1) :: u16) = h + 1"
    unfolding unat_of_nat using D(1) h by (simp add: shape_def)
  have own: "slot_owner n e = map_option ?f (slot_owner m e)" and eok: "slot_owner n e \<noteq> None \<Longrightarrow> entity_ok n e" for e
  proof -
    show "slot_owner n e = map_option ?f (slot_owner m e)"
    proof (cases "slot_owner m e")
      case None
      then show ?thesis by (auto simp: slot_owner_def n Let_def split: if_splits)
    next
      case (Some k)
      let ?h = "unat (hm_entity_hotspot_id m ! unat e) - 1"
      have a: "unat e < hm_max_entities m" "hm_entity_active m ! unat e" using Some by (auto simp: slot_owner_def split: if_splits)
      have k: "fst k = ?h" using Some a by (auto simp: slot_owner_def Let_def)
      have ne: "?h \<noteq> h" using none [of e "snd k"] Some k by (metis prod.collapse)
      have lt: "?h < Suc l" using index_owner [OF D(2) Some] k last h by (auto simp: slots_of_def)
      have ex: "(\<exists>s. slot_owner m e = Some (l, s)) \<longleftrightarrow> ?h = l" using a by (auto simp: slot_owner_def Let_def)
      show ?thesis
      proof (cases "?h = l")
        case True
        then have "h \<noteq> l" "h < l" using ne h last by auto
        then show ?thesis using True a ex hids(2) [OF a(1)] hb cs(2) [of h] by (simp add: slot_owner_def n Let_def slot_moved_def)
      next
        case False
        then show ?thesis using ne lt a ex hids(2) [OF a(1)] cs(2) [of ?h] by (simp add: slot_owner_def n Let_def slot_moved_def)
      qed
    qed
    assume "slot_owner n e \<noteq> None"
    then obtain k where Some: "slot_owner m e = Some k" using \<open>slot_owner n e = _\<close> by (cases "slot_owner m e") auto
    let ?h = "unat (hm_entity_hotspot_id m ! unat e) - 1"
    have a: "unat e < hm_max_entities m" "hm_entity_active m ! unat e" using Some by (auto simp: slot_owner_def split: if_splits)
    have k: "fst k = ?h" using Some a by (auto simp: slot_owner_def Let_def)
    have ne: "?h \<noteq> h" using none [of e "snd k"] Some k by (metis prod.collapse)
    have lt: "?h < Suc l" using index_owner [OF D(2) Some] k last h by (auto simp: slots_of_def)
    have ex: "(\<exists>s. slot_owner m e = Some (l, s)) \<longleftrightarrow> ?h = l" using a by (auto simp: slot_owner_def Let_def)
    have E: "entity_ok m e" by (rule hm_invD(2) [OF inv]) (simp add: Some)
    show "entity_ok n e"
    proof (cases "?h = l")
      case True
      then have "h \<noteq> l" "h < l" using ne h last by auto
      then have "word_of_nat (h + 1) \<noteq> (0 :: u16)" using hb by (metis add_is_0 one_neq_zero unat_0)
      with True \<open>h \<noteq> l\<close> \<open>h < l\<close> show ?thesis using E a ex hids(2) [OF a(1)] hb cs(2) [of h] by (simp add: entity_ok_def n Let_def)
    next
      case False
      then show ?thesis using E ne lt a ex hids(2) [OF a(1)] cs(2) [of ?h] by (simp add: entity_ok_def n Let_def)
    qed
  qed
  have "lists_ok n (\<lambda>e. map_option ?f (slot_owner m e))"
    by (rule lists_ok_moved [OF L none h last sh]) (simp_all add: n cs(2))
  moreover have "slot_owner n = (\<lambda>e. map_option ?f (slot_owner m e))" by (rule ext) (rule own)
  ultimately have "lists_ok n (slot_owner n)" by simp
  moreover have "hc_entity_count (hm_hotspot_cells n ! j) = cell_count (slot_owner n) j" if "j < l" for j
  proof -
    let ?j = "if j = h then l else j"
    have jl: "?j < hm_active_hotspots_count m" using that last h by auto
    have used: "slot_owner m e = Some (i, s) \<Longrightarrow> i < Suc l \<and> i \<noteq> h" for e i s
      using index_owner [OF D(2), of e "(i, s)"] none last h by (auto simp: slots_of_def)
    have "(\<exists>s. slot_owner n e = Some (j, s)) \<longleftrightarrow> (\<exists>s. slot_owner m e = Some (?j, s))" for e
      using used [of e] that unfolding own by (cases "slot_owner m e") (auto simp: slot_moved_def split: if_splits)
    then have "cell_count (slot_owner n) j = cell_count (slot_owner m) ?j" by (simp add: cell_count_def)
    then show ?thesis using hm_invD(3) [OF inv jl] cs(2) [OF that] by (simp add: n)
  qed
  moreover have "j = j'" if "j < l" "j' < l" "hc_cell (hm_hotspot_cells n ! j) = hc_cell (hm_hotspot_cells n ! j')" for j j'
  proof -
    let ?j = "if j = h then l else j" and ?j' = "if j' = h then l else j'"
    have "?j < hm_active_hotspots_count m" "?j' < hm_active_hotspots_count m" using that last h by auto
    moreover have "hc_cell (hm_hotspot_cells m ! ?j) = hc_cell (hm_hotspot_cells m ! ?j')"
      using that(3) unfolding n by (simp add: cs(2) [OF that(1)] cs(2) [OF that(2)])
    ultimately have "?j = ?j'" by (rule hm_invD(4) [OF inv])
    then show ?thesis using that(1,2) by (cases "j = h"; cases "j' = h") simp_all
  qed
  ultimately show ?thesis using eok by (simp add: hm_inv_def n)
qed

lemma swap_cells:
  assumes "h < length cs" "l < length cs" "j < length cs"
  shows "cs[h := a, l := b] ! j = (if j = l then b else if j = h then a else cs ! j)"
  using assms by (simp add: nth_list_update)

lemma reclaim_hotspot_ok:
  assumes inv: "hm_inv m" and h: "h < hm_active_hotspots_count m" and zero: "hc_entity_count (hm_hotspot_cells m ! h) = 0"
    and pos: "\<And>j. j < hm_active_hotspots_count m \<Longrightarrow> j \<noteq> h \<Longrightarrow> 0 < hc_entity_count (hm_hotspot_cells m ! j)"
  shows "\<exists>n. reclaim_hotspot h m = Some n \<and> hm_ok n \<and> tracked n = tracked m
    \<and> hm_max_entities n = hm_max_entities m \<and> hm_max_hotspots n = hm_max_hotspots m"
proof -
  let ?l = "hm_active_hotspots_count m - 1" and ?cs = "hm_hotspot_cells m"
  note L = hm_invD(1) [OF inv]
  note D = lists_okD [OF L h]
  have ne: "hm_active_hotspots_count m \<noteq> 0" using h by simp
  have len: "h < length ?cs" "?l < length ?cs" using D(1,3) h by (auto simp: shape_def)
  have shp: "i < length ?cs \<Longrightarrow> cell_shape (?cs ! i)" for i using D(1) by (simp add: shape_def)
  have none: "slot_owner m e \<noteq> Some (h, s)" for e s
    using hm_invD(3) [OF inv h] zero by (simp add: card_none)
  have fin: "hm_ok n \<and> tracked n = tracked m \<and> hm_max_entities n = hm_max_entities m \<and> hm_max_hotspots n = hm_max_hotspots m"
    if "n = m\<lparr>hm_hotspot_cells := cs, hm_entity_hotspot_id := hids, hm_active_hotspots_count := ?l\<rparr>"
      "hm_inv n" "\<And>j. j < ?l \<Longrightarrow> cs ! j = ?cs ! (if j = h then ?l else j)" for n cs hids
    using that pos h by (auto simp: hm_ok_def tracked_def fun_eq_iff)
  show ?thesis
  proof (cases "h = ?l")
    case True
    let ?n = "m\<lparr>hm_hotspot_cells := ?cs, hm_entity_hotspot_id := hm_entity_hotspot_id m, hm_active_hotspots_count := ?l\<rparr>"
    have r: "reclaim_hotspot h m = Some ?n" using True ne by (simp add: reclaim_hotspot_def Let_def)
    have "hm_inv ?n"
      by (rule hm_inv_moved [OF inv none h refl refl]) (use shp True D(1) in \<open>auto simp: shape_def\<close>)
    with r fin [OF refl this] True show ?thesis by auto
  next
    case False
    let ?swap = "?cs[h := ?cs ! ?l, ?l := ?cs ! h]"
    let ?m = "m\<lparr>hm_hotspot_cells := ?swap\<rparr>"
    have at: "?swap ! h = ?cs ! ?l" using len False by simp
    let ?heads = "if hc_is_split (?cs ! ?l) then hc_leaf_heads (?cs ! ?l) else [hc_flat_head (?cs ! ?l)]"
    have hl: "?l < hm_active_hotspots_count m" using h by simp
    have key: "\<exists>s. (?l, s) \<in> slots_of (hm_active_hotspots_count m) \<and> x = list_head m (?l, s) \<and> (hc_is_split (?cs ! ?l) \<longleftrightarrow> s \<noteq> None)" if x: "x \<in> set ?heads" for x
    proof (cases "hc_is_split (?cs ! ?l)")
      case True
      then obtain i where "i < 16" "x = hc_leaf_heads (?cs ! ?l) ! i"
        using x lists_okD(5) [OF L hl] by (auto simp: in_set_conv_nth)
      then show ?thesis using True hl by (intro exI [of _ "Some i"]) (simp add: list_head_in head_in_def)
    next
      case False
      then show ?thesis using x hl by (intro exI [of _ None]) (simp add: list_head_in head_in_def)
    qed
    have walks: "walk (lk_next (hm_links ?m)) x \<noteq> None" if x: "x \<in> set ?heads" for x
    proof -
      obtain s where k: "(?l, s) \<in> slots_of (hm_active_hotspots_count m)" "x = list_head m (?l, s)" using key [OF x] by blast
      show ?thesis using index_walk [OF D(2) k(1)] k(2) by auto
    qed
    obtain hids where R: "renumber_lists h ?heads ?m = Some (?m\<lparr>hm_entity_hotspot_id := hids\<rparr>)" "length hids = length (hm_entity_hotspot_id ?m)"
      "\<forall>e. unat e < length hids \<longrightarrow> hids ! unat e =
        (if \<exists>x\<in>set ?heads. e \<in> set (the (walk (lk_next (hm_links ?m)) x)) then word_of_nat (h + 1) else hm_entity_hotspot_id ?m ! unat e)"
      using renumber_lists_ok [OF walks] by blast
    have len_hids: "length hids = hm_max_entities m" using R(2) D(1) by (simp add: shape_def)
    have mem: "(\<exists>x\<in>set ?heads. e \<in> set (the (walk (lk_next (hm_links ?m)) x))) \<longleftrightarrow> (\<exists>s. slot_owner m e = Some (?l, s))" for e
    proof
      assume "\<exists>x\<in>set ?heads. e \<in> set (the (walk (lk_next (hm_links ?m)) x))"
      then obtain x where x: "x \<in> set ?heads" "e \<in> set (the (walk (lk_next (hm_links m)) x))" by auto
      obtain s where k: "(?l, s) \<in> slots_of (hm_active_hotspots_count m)" "x = list_head m (?l, s)" using key [OF x(1)] by blast
      show "\<exists>s. slot_owner m e = Some (?l, s)" using index_walk [OF D(2) k(1)] k(2) x(2) by auto
    next
      assume "\<exists>s. slot_owner m e = Some (?l, s)"
      then obtain s where o: "slot_owner m e = Some (?l, s)" by blast
      have k: "(?l, s) \<in> slots_of (hm_active_hotspots_count m)" by (rule index_owner [OF D(2) o])
      have sp: "hc_is_split (?cs ! ?l) \<longleftrightarrow> s \<noteq> None" using o by (auto simp: slot_owner_def Let_def split: if_splits)
      have "list_head m (?l, s) \<in> set ?heads"
        using sp k lists_okD(5) [OF L hl] by (cases s) (auto simp: list_head_in head_in_def)
      then show "\<exists>x\<in>set ?heads. e \<in> set (the (walk (lk_next (hm_links ?m)) x))"
        using index_walk [OF D(2) k] o by (intro bexI [of _ "list_head m (?l, s)"]) auto
    qed
    let ?n = "m\<lparr>hm_hotspot_cells := ?swap, hm_entity_hotspot_id := hids, hm_active_hotspots_count := ?l\<rparr>"
    have "reclaim_hotspot h m = map_option (\<lambda>m. m\<lparr>hm_active_hotspots_count := hm_active_hotspots_count m - 1\<rparr>) (renumber_lists h ?heads ?m)"
      using False ne at by (simp add: reclaim_hotspot_def Let_def del: renumber_lists.simps)
    then have r: "reclaim_hotspot h m = Some ?n" unfolding R(1) by simp
    have "hm_inv ?n"
    proof (rule hm_inv_moved [OF inv none h refl refl])
      show "length ?swap = length ?cs" by simp
      show "j < ?l \<Longrightarrow> ?swap ! j = ?cs ! (if j = h then ?l else j)" for j
        using len False by (subst swap_cells) auto
      show "cell_shape (?swap ! j)" if "j < length ?swap" for j
      proof -
        have j: "j < length ?cs" using that by simp
        show ?thesis unfolding swap_cells [OF len j] using shp j len by auto
      qed
      show "length hids = hm_max_entities m" by (rule len_hids)
      show "hids ! unat e = (if h \<noteq> ?l \<and> (\<exists>s. slot_owner m e = Some (?l, s)) then word_of_nat (h + 1) else hm_entity_hotspot_id m ! unat e)"
        if "unat e < hm_max_entities m" for e
        using R(3) that len_hids mem False by simp
    qed
    moreover have "?swap ! j = ?cs ! (if j = h then ?l else j)" if "j < ?l" for j using len that by (subst swap_cells) auto
    ultimately show ?thesis using r fin [OF refl] by blast
  qed
qed

section \<open>The operations\<close>

text \<open>What the manager knows of one entity, and states that agree on it.\<close>

definition entity_at :: "HotspotManager \<Rightarrow> u32 \<Rightarrow> bool \<times> u16 \<times> u8 \<times> Vec3Fix" where
  "entity_at m e = (hm_entity_active m ! unat e, hm_entity_hotspot_id m ! unat e, hm_entity_leaf_idx m ! unat e, hm_entity_positions m ! unat e)"

definition same_cells :: "HotspotManager \<Rightarrow> HotspotManager \<Rightarrow> bool" where
  "same_cells m n \<longleftrightarrow> hm_max_entities n = hm_max_entities m \<and> hm_active_hotspots_count m \<le> hm_active_hotspots_count n
     \<and> (\<forall>h<hm_active_hotspots_count m. hc_cell (hm_hotspot_cells n ! h) = hc_cell (hm_hotspot_cells m ! h)
          \<and> hc_is_split (hm_hotspot_cells n ! h) = hc_is_split (hm_hotspot_cells m ! h))"

lemma entity_frame:
  assumes inv: "hm_inv m" and c: "same_cells m n" and e: "entity_at n e = entity_at m e"
  shows "slot_owner n e = slot_owner m e" "slot_owner m e \<noteq> None \<Longrightarrow> entity_ok n e" "tracked n e = tracked m e"
proof -
  let ?h = "unat (hm_entity_hotspot_id m ! unat e) - 1"
  have E: "entity_ok m e" if "slot_owner m e \<noteq> None" using hm_invD(2) [OF inv that] .
  have x: "?h < hm_active_hotspots_count m" if "slot_owner m e \<noteq> None" using E [OF that] by (simp add: entity_ok_def Let_def)
  show "slot_owner n e = slot_owner m e"
  proof (cases "slot_owner m e")
    case None
    then show ?thesis using c e by (auto simp: slot_owner_def same_cells_def entity_at_def Let_def split: if_splits)
  next
    case (Some k)
    then have "?h < hm_active_hotspots_count m" using x by simp
    then show ?thesis using c e by (simp add: slot_owner_def same_cells_def entity_at_def Let_def)
  qed
  show "entity_ok n e" if o: "slot_owner m e \<noteq> None"
  proof -
    have "compute_leaf_index (hm_hotspot_cells n ! ?h) p = compute_leaf_index (hm_hotspot_cells m ! ?h) p" for p
      by (rule leaf_index_cell) (use x [OF o] c in \<open>simp add: same_cells_def\<close>)
    then show ?thesis using E [OF o] x [OF o] c e by (auto simp: entity_ok_def same_cells_def entity_at_def Let_def)
  qed
  show "tracked n e = tracked m e" using c e by (simp add: tracked_def same_cells_def entity_at_def)
qed

lemma get_or_create_ok:
  assumes ok: "hm_ok m" and g: "get_or_create_hotspot cell m = (n, Inr h)"
  shows "hm_inv n" "slot_owner n = slot_owner m" "tracked n = tracked m" "h < hm_active_hotspots_count n"
    "hc_cell (hm_hotspot_cells n ! h) = cell"
    "\<And>j. j < hm_active_hotspots_count n \<Longrightarrow> j \<noteq> h \<Longrightarrow> 0 < hc_entity_count (hm_hotspot_cells n ! j)"
    "hm_max_entities n = hm_max_entities m" "hm_max_hotspots n = hm_max_hotspots m" "hm_entity_active n = hm_entity_active m"
proof -
  have inv: "hm_inv m" and pos: "\<And>j. j < hm_active_hotspots_count m \<Longrightarrow> 0 < hc_entity_count (hm_hotspot_cells m ! j)"
    using ok by (simp_all add: hm_ok_def)
  note L = hm_invD(1) [OF inv]
  let ?c = "hm_active_hotspots_count m"
  have "hm_inv n \<and> slot_owner n = slot_owner m \<and> tracked n = tracked m \<and> h < hm_active_hotspots_count n \<and> hc_cell (hm_hotspot_cells n ! h) = cell
    \<and> (\<forall>j<hm_active_hotspots_count n. j \<noteq> h \<longrightarrow> 0 < hc_entity_count (hm_hotspot_cells n ! j))
    \<and> hm_max_entities n = hm_max_entities m \<and> hm_max_hotspots n = hm_max_hotspots m \<and> hm_entity_active n = hm_entity_active m"
  proof (cases "find_hotspot m cell")
    case (Some i)
    have sh: "shape m" using L by (simp add: lists_ok_def)
    have "i < ?c \<and> hc_cell (hm_hotspot_cells m ! i) = cell"
      using Some sh by (auto simp: find_hotspot_def shape_def dest!: find_index_SomeD)
    then show ?thesis using Some g inv pos by (simp add: get_or_create_hotspot_def)
  next
    case None
    then have full: "?c < hm_max_hotspots m" and h: "h = ?c"
      and n: "n = m\<lparr>hm_hotspot_cells := (hm_hotspot_cells m)[?c := HotspotCell_new cell], hm_active_hotspots_count := ?c + 1\<rparr>"
      using g by (auto simp: get_or_create_hotspot_def Let_def split: if_splits)
    have sh: "shape m" and ix: "index_ok (hm_links m) (list_head m) (slots_of ?c) (slot_owner m)" using L by (simp_all add: lists_ok_def)
    have fresh: "hc_cell (hm_hotspot_cells m ! j) \<noteq> cell" if "j < ?c" for j
    proof -
      have "j < length (take ?c (hm_hotspot_cells m))" using that sh by (simp add: shape_def)
      then have "take ?c (hm_hotspot_cells m) ! j \<in> set (take ?c (hm_hotspot_cells m))" by (rule nth_mem)
      then show ?thesis using None that unfolding find_hotspot_def find_index_None_iff by auto
    qed
    have len: "?c < length (hm_hotspot_cells m)" using full sh by (simp add: shape_def)
    have at: "hm_hotspot_cells n ! j = (if j = ?c then HotspotCell_new cell else hm_hotspot_cells m ! j)" for j
      using len by (simp add: n nth_list_update)
    have new: "cell_shape (HotspotCell_new cell)" "head_in (HotspotCell_new cell) None = QUADTREE_EMPTY"
      "\<And>i. i < 16 \<Longrightarrow> head_in (HotspotCell_new cell) (Some i) = QUADTREE_EMPTY" "\<And>i. i < 16 \<Longrightarrow> hc_leaf_counts (HotspotCell_new cell) ! i = 0"
      "hc_cell (HotspotCell_new cell) = cell" "hc_entity_count (HotspotCell_new cell) = 0"
      by (simp_all add: HotspotCell_new_def Let_def cell_shape_def head_in_def MICRO_QUADRANTS_PER_CELL_def)
    have sh2: "shape n" using sh full new(1) by (auto simp: n shape_def nth_list_update)
    have unused: "slot_owner m e \<noteq> Some (?c, s)" for e s using index_owner [OF ix, of e "(?c, s)"] by (auto simp: slots_of_def)
    have "index_ok (hm_links m) (list_head n) (slots_of ?c) (slot_owner m)"
    proof (rule index_cong [OF ix])
      fix k assume "k \<in> slots_of ?c"
      then show "list_head n k = list_head m k" by (cases k) (auto simp: list_head_in at slots_of_def)
    qed simp
    moreover have "list_head n k = TERMINAL_INDEX" if "k \<in> slots_of (?c + 1)" "k \<notin> slots_of ?c" for k
    proof -
      have "fst k = ?c" using that by (auto simp: slots_of_def)
      then show ?thesis using that(1) new(2,3) by (cases k; cases "snd k") (auto simp: list_head_in at slots_of_def)
    qed
    ultimately have "index_ok (hm_links m) (list_head n) (slots_of ?c \<union> slots_of (?c + 1)) (slot_owner m)" by (rule index_add_keys)
    moreover have "slots_of ?c \<union> slots_of (?c + 1) = slots_of (?c + 1)" by (auto simp: slots_of_def)
    ultimately have ix2: "index_ok (hm_links n) (list_head n) (slots_of (?c + 1)) (slot_owner m)" by (simp add: n)
    have counts: "hc_leaf_counts (hm_hotspot_cells n ! j) ! i = word_of_nat (list_size (slot_owner m) (j, Some i))" if "j < ?c + 1" "i < 16" for j i
    proof (cases "j = ?c")
      case True
      then have "list_size (slot_owner m) (j, Some i) = 0" using unused by (simp add: list_size_zero)
      then show ?thesis using True that new(4) by (simp add: at)
    next
      case False
      then show ?thesis using that lists_okD(7) [OF L, of j i] by (simp add: at)
    qed
    have lists: "lists_ok n (slot_owner m)" using sh2 ix2 counts by (simp add: lists_ok_def n)
    have sc: "same_cells m n" by (simp add: same_cells_def at) (simp add: n)
    have ea: "entity_at n e = entity_at m e" for e by (simp add: entity_at_def n)
    have own: "slot_owner n = slot_owner m" using entity_frame(1) [OF inv sc ea] by (rule ext)
    have tr: "tracked n = tracked m" using entity_frame(3) [OF inv sc ea] by (rule ext)
    have count: "hc_entity_count (hm_hotspot_cells n ! j) = cell_count (slot_owner m) j" if "j < ?c + 1" for j
      using hm_invD(3) [OF inv, of j] that unused card_none [of "slot_owner m" ?c] new(6) by (cases "j = ?c") (auto simp: at)
    have dist: "j = j'" if "j < ?c + 1" "j' < ?c + 1" "hc_cell (hm_hotspot_cells n ! j) = hc_cell (hm_hotspot_cells n ! j')" for j j'
    proof (cases "j = ?c \<or> j' = ?c")
      case True
      then show ?thesis using that fresh [of j] fresh [of j'] new(5) by (auto simp: at less_Suc_eq)
    next
      case False
      then show ?thesis using that hm_invD(4) [OF inv, of j j'] by (simp add: at)
    qed
    have act: "hm_active_hotspots_count n = ?c + 1" by (simp add: n)
    have "hm_inv n" unfolding hm_inv_def own act
    proof (intro conjI allI impI)
      show "j = j'" if "j < ?c + 1" "j' < ?c + 1" "hc_cell (hm_hotspot_cells n ! j) = hc_cell (hm_hotspot_cells n ! j')" for j j'
        by (rule dist [OF that])
    qed (use lists count entity_frame(2) [OF inv sc ea] in simp_all)
    then show ?thesis using own tr pos new(5) h by (auto simp: at) (auto simp: n)
  qed
  then show "hm_inv n" "slot_owner n = slot_owner m" "tracked n = tracked m" "h < hm_active_hotspots_count n"
    "hc_cell (hm_hotspot_cells n ! h) = cell"
    "\<And>j. j < hm_active_hotspots_count n \<Longrightarrow> j \<noteq> h \<Longrightarrow> 0 < hc_entity_count (hm_hotspot_cells n ! j)"
    "hm_max_entities n = hm_max_entities m" "hm_max_hotspots n = hm_max_hotspots m" "hm_entity_active n = hm_entity_active m" by simp_all
qed

lemma get_or_create_error: "get_or_create_hotspot cell m = (n, Inl err) \<Longrightarrow> n = m \<and> err = SpatialCapacityExceeded"
  by (auto simp: get_or_create_hotspot_def Let_def split: option.splits if_splits)

lemma cell_count_add:
  assumes "owner e = None"
  shows "cell_count (owner(e := Some (h, s))) j = cell_count owner j + (if j = h then 1 else 0)"
proof -
  have "{x. \<exists>t. (owner(e := Some (h, s))) x = Some (j, t)} = (if j = h then insert e {x. \<exists>t. owner x = Some (j, t)} else {x. \<exists>t. owner x = Some (j, t)})"
    using assms by auto
  then show ?thesis using assms by (simp add: cell_count_def)
qed

lemma cell_count_sub:
  assumes "owner e = Some (h, s)"
  shows "cell_count (owner(e := None)) j = cell_count owner j - (if j = h then 1 else 0)"
proof -
  have "{x. \<exists>t. (owner(e := None)) x = Some (j, t)} = (if j = h then {x. \<exists>t. owner x = Some (j, t)} - {e} else {x. \<exists>t. owner x = Some (j, t)})"
    using assms by auto
  then show ?thesis using assms by (simp add: cell_count_def)
qed

text \<open>A state in which one entity has changed its place; the other entities and the cells are as they were.\<close>

lemma hm_inv_change:
  assumes inv: "hm_inv m" and sc: "same_cells m n" and cnt: "hm_active_hotspots_count n = hm_active_hotspots_count m"
    and others: "\<And>x. x \<noteq> e \<Longrightarrow> entity_at n x = entity_at m x"
    and lists: "lists_ok n ((slot_owner m)(e := k))" and own: "slot_owner n e = k" and eok: "k \<noteq> None \<Longrightarrow> entity_ok n e"
    and counts: "\<And>h. h < hm_active_hotspots_count m \<Longrightarrow> hc_entity_count (hm_hotspot_cells n ! h) = cell_count ((slot_owner m)(e := k)) h"
  shows "hm_inv n" "slot_owner n = (slot_owner m)(e := k)"
    "tracked n = (tracked m)(e := tracked n e)"
proof -
  show o: "slot_owner n = (slot_owner m)(e := k)"
    by (rule ext) (use entity_frame(1) [OF inv sc others] own in simp)
  show "tracked n = (tracked m)(e := tracked n e)"
    by (rule ext) (use entity_frame(3) [OF inv sc others] in simp)
  show "hm_inv n" unfolding hm_inv_def
  proof (intro conjI allI impI)
    show "lists_ok n (slot_owner n)" unfolding o by (rule lists)
    show "entity_ok n x" if "slot_owner n x \<noteq> None" for x
      using that entity_frame(2) [OF inv sc others] eok by (cases "x = e") (simp_all add: o)
    show "hc_entity_count (hm_hotspot_cells n ! h) = cell_count (slot_owner n) h" if "h < hm_active_hotspots_count n" for h
      unfolding o using that counts cnt by simp
    show "h = h'" if "h < hm_active_hotspots_count n" "h' < hm_active_hotspots_count n" "hc_cell (hm_hotspot_cells n ! h) = hc_cell (hm_hotspot_cells n ! h')" for h h'
    proof (rule hm_invD(4) [OF inv])
      show "h < hm_active_hotspots_count m" "h' < hm_active_hotspots_count m" using that cnt by simp_all
      then show "hc_cell (hm_hotspot_cells m ! h) = hc_cell (hm_hotspot_cells m ! h')" using that(3) sc by (simp add: same_cells_def)
    qed
  qed
qed

text \<open>Linking an entity into its cell.\<close>

definition hotspot_enter :: "nat \<Rightarrow> u32 \<Rightarrow> Vec3Fix \<Rightarrow> HotspotManager \<Rightarrow> HotspotManager" where
  "hotspot_enter h e pos m =
     (let id = unat e; leaf_idx = compute_leaf_index (hm_hotspot_cells m ! h) pos;
          m = m\<lparr>hm_entity_positions := (hm_entity_positions m)[id := pos], hm_entity_active := (hm_entity_active m)[id := True],
                hm_entity_hotspot_id := (hm_entity_hotspot_id m)[id := word_of_nat (h + 1)],
                hm_entity_leaf_idx := (hm_entity_leaf_idx m)[id := word_of_nat leaf_idx]\<rparr>;
          m = (if hc_is_split (hm_hotspot_cells m ! h) then push_leaf h leaf_idx e m else push_flat h e m);
          c = hm_hotspot_cells m ! h
      in put_cell h (c\<lparr>hc_entity_count := hc_entity_count c + 1\<rparr>) m)"

lemma hotspot_enter_ok:
  assumes inv: "hm_inv m" and h: "h < hm_active_hotspots_count m" and e: "unat e < hm_max_entities m" "slot_owner m e = None"
    and cell: "hc_cell (hm_hotspot_cells m ! h) = CellCoord_from_position pos"
  defines "n \<equiv> hotspot_enter h e pos m"
  shows "hm_inv n \<and> tracked n = (tracked m)(e \<mapsto> pos) \<and> hm_active_hotspots_count n = hm_active_hotspots_count m
    \<and> hm_max_entities n = hm_max_entities m \<and> hm_max_hotspots n = hm_max_hotspots m
    \<and> (\<forall>j<hm_active_hotspots_count m. hc_entity_count (hm_hotspot_cells n ! j) = hc_entity_count (hm_hotspot_cells m ! j) + (if j = h then 1 else 0))
    \<and> hc_is_split (hm_hotspot_cells n ! h) = hc_is_split (hm_hotspot_cells m ! h)"
proof -
  note L = hm_invD(1) [OF inv]
  note D = lists_okD [OF L h]
  let ?li = "compute_leaf_index (hm_hotspot_cells m ! h) pos" and ?id = "unat e"
  let ?m = "m\<lparr>hm_entity_positions := (hm_entity_positions m)[?id := pos], hm_entity_active := (hm_entity_active m)[?id := True],
      hm_entity_hotspot_id := (hm_entity_hotspot_id m)[?id := word_of_nat (h + 1)], hm_entity_leaf_idx := (hm_entity_leaf_idx m)[?id := word_of_nat ?li]\<rparr>"
  let ?s = "if hc_is_split (hm_hotspot_cells m ! h) then Some ?li else None"
  let ?p = "if hc_is_split (hm_hotspot_cells m ! h) then push_leaf h ?li e ?m else push_flat h e ?m"
  have L1: "lists_ok ?m (slot_owner m)"
    by (rule lists_ok_entities [OF L]) (use D(1) in \<open>simp_all add: shape_def\<close>)
  have p: "lists_ok ?p ((slot_owner m)(e := Some (h, ?s)))" "list_frame ?m ?p"
    using push_leaf_ok [OF L1 e(2), of h ?li] push_flat_ok [OF L1 e(2), of h] h e(1) leaf_index_bound by auto
  have n: "n = put_cell h ((hm_hotspot_cells ?p ! h)\<lparr>hc_entity_count := hc_entity_count (hm_hotspot_cells ?p ! h) + 1\<rparr>) ?p"
    by (simp add: n_def hotspot_enter_def Let_def)
  have F: "hm_max_entities ?p = hm_max_entities m" "hm_max_hotspots ?p = hm_max_hotspots m" "hm_active_hotspots_count ?p = hm_active_hotspots_count m"
      "hm_entity_positions ?p = hm_entity_positions ?m" "hm_entity_active ?p = hm_entity_active ?m" "hm_entity_hotspot_id ?p = hm_entity_hotspot_id ?m"
      "hm_entity_leaf_idx ?p = hm_entity_leaf_idx ?m" "length (hm_hotspot_cells ?p) = length (hm_hotspot_cells m)"
    using p(2) unfolding list_frame_def by simp_all
  have hp: "h < length (hm_hotspot_cells ?p)" using D(3) F(8) by simp
  have lists: "lists_ok n ((slot_owner m)(e := Some (h, ?s)))" unfolding n by (rule lists_ok_flags [OF p(1) hp]) simp_all
  have cells: "hc_cell (hm_hotspot_cells n ! j) = hc_cell (hm_hotspot_cells m ! j)"
      "hc_is_split (hm_hotspot_cells n ! j) = hc_is_split (hm_hotspot_cells m ! j)"
      "hc_entity_count (hm_hotspot_cells n ! j) = hc_entity_count (hm_hotspot_cells m ! j) + (if j = h then 1 else 0)"
    if "j < hm_active_hotspots_count m" for j
  proof -
    have "cell_frame (hm_hotspot_cells m ! j) (hm_hotspot_cells ?p ! j)" using frame_cell [OF p(2), of j] that D(1) by (simp add: shape_def)
    moreover have "hm_hotspot_cells n ! j = (if j = h then (hm_hotspot_cells ?p ! h)\<lparr>hc_entity_count := hc_entity_count (hm_hotspot_cells ?p ! h) + 1\<rparr> else hm_hotspot_cells ?p ! j)"
      unfolding n put_cell_def using hp by (simp add: nth_list_update)
    ultimately show "hc_cell (hm_hotspot_cells n ! j) = hc_cell (hm_hotspot_cells m ! j)"
      "hc_is_split (hm_hotspot_cells n ! j) = hc_is_split (hm_hotspot_cells m ! j)"
      "hc_entity_count (hm_hotspot_cells n ! j) = hc_entity_count (hm_hotspot_cells m ! j) + (if j = h then 1 else 0)"
      by (auto simp: cell_frame_def)
  qed
  have N: "hm_max_entities n = hm_max_entities m" "hm_max_hotspots n = hm_max_hotspots m" "hm_active_hotspots_count n = hm_active_hotspots_count m"
      "hm_entity_positions n = hm_entity_positions ?m" "hm_entity_active n = hm_entity_active ?m" "hm_entity_hotspot_id n = hm_entity_hotspot_id ?m"
      "hm_entity_leaf_idx n = hm_entity_leaf_idx ?m"
    unfolding n put_fields F by simp_all
  have sc: "same_cells m n" using cells N by (simp add: same_cells_def)
  have others: "entity_at n x = entity_at m x" if "x \<noteq> e" for x
  proof -
    have "unat x \<noteq> unat e" using that by (simp add: word_unat_eq_iff)
    then show ?thesis unfolding entity_at_def N by simp
  qed
  have len: "length (hm_entity_positions m) = hm_max_entities m" "length (hm_entity_active m) = hm_max_entities m"
      "length (hm_entity_hotspot_id m) = hm_max_entities m" "length (hm_entity_leaf_idx m) = hm_max_entities m"
    using D(1) by (simp_all add: shape_def)
  have hb: "unat (word_of_nat (h + 1) :: u16) = h + 1"
    unfolding unat_of_nat using D(1) h by (simp add: shape_def)
  then have nz: "word_of_nat (h + 1) \<noteq> (0 :: u16)" by (metis add_is_0 one_neq_zero unat_0)
  have at: "hm_entity_active n ! ?id" "hm_entity_hotspot_id n ! ?id = word_of_nat (h + 1)" "hm_entity_leaf_idx n ! ?id = word_of_nat ?li"
      "hm_entity_positions n ! ?id = pos" unfolding N using len e(1) by simp_all
  have own: "slot_owner n e = Some (h, ?s)" using e(1) at(1) unfolding slot_owner_def at(2-4) N(1) hb Let_def
    by (simp add: cells(2) [OF h] leaf_index_byte)
  have li: "compute_leaf_index (hm_hotspot_cells n ! h) pos = ?li" by (rule leaf_index_cell) (rule cells(1) [OF h])
  have eok: "entity_ok n e" unfolding entity_ok_def at(2-4) hb Let_def N(3)
    using nz h cell by (simp add: cells [OF h] li leaf_index_byte)
  have counts: "hc_entity_count (hm_hotspot_cells n ! j) = cell_count ((slot_owner m)(e := Some (h, ?s))) j" if "j < hm_active_hotspots_count m" for j
    unfolding cells(3) [OF that] cell_count_add [where owner = "slot_owner m" and e = e, OF e(2)] hm_invD(3) [OF inv that] ..
  note C = hm_inv_change [OF inv sc N(3) others lists own eok counts]
  have "tracked n e = Some pos" using e(1) at(1,4) by (simp add: tracked_def N(1))
  then show ?thesis using C(1,3) N(1-3) cells h by simp
qed

lemma tracked_owner: "tracked m e = None \<longleftrightarrow> slot_owner m e = None"
  by (simp add: tracked_def slot_owner_def Let_def)

text \<open>What the three operations do to the map of the tracked entities.\<close>

definition hotspot_full :: "HotspotManager \<Rightarrow> CellCoord \<Rightarrow> bool" where
  "hotspot_full m cell \<longleftrightarrow> find_hotspot m cell = None \<and> hm_active_hotspots_count m = hm_max_hotspots m"

definition map_insert :: "nat \<Rightarrow> bool \<Rightarrow> u32 \<Rightarrow> Vec3Fix \<Rightarrow> (u32 \<rightharpoonup> Vec3Fix) \<Rightarrow> (u32 \<rightharpoonup> Vec3Fix) \<times> (SpatialError + unit)" where
  "map_insert capacity full e pos T =
     (if unat e \<ge> capacity then (T, Inl (InvalidEntityId e))
      else if T e \<noteq> None then (T, Inl (SpatialEntityAlreadyExists e))
      else if full then (T, Inl SpatialCapacityExceeded)
      else (T(e \<mapsto> pos), Inr ()))"

definition map_remove :: "u32 \<Rightarrow> (u32 \<rightharpoonup> Vec3Fix) \<Rightarrow> (u32 \<rightharpoonup> Vec3Fix) \<times> (SpatialError + unit)" where
  "map_remove e T = (if T e = None then (T, Inl (SpatialEntityNotFound e)) else (T(e := None), Inr ()))"

definition same_limits :: "HotspotManager \<Rightarrow> HotspotManager \<Rightarrow> bool" where
  "same_limits m n \<longleftrightarrow> hm_max_entities n = hm_max_entities m \<and> hm_max_hotspots n = hm_max_hotspots m"

lemma hotspot_insert_ok:
  assumes ok: "hm_ok m"
  shows "\<exists>n r. hotspot_insert e pos m = Some (n, r) \<and> hm_ok n \<and> same_limits m n
    \<and> (tracked n, r) = map_insert (hm_max_entities m) (hotspot_full m (CellCoord_from_position pos)) e pos (tracked m)"
proof (cases "unat e \<ge> hm_max_entities m \<or> tracked m e \<noteq> None")
  case True
  then show ?thesis using ok by (auto simp: hotspot_insert_def map_insert_def tracked_def Let_def same_limits_def split: if_splits)
next
  case False
  then have e: "unat e < hm_max_entities m" "\<not> hm_entity_active m ! unat e" "tracked m e = None" by (auto simp: tracked_def split: if_splits)
  let ?cell = "CellCoord_from_position pos"
  obtain g res where g: "get_or_create_hotspot ?cell m = (g, res)" by fastforce
  show ?thesis
  proof (cases res)
    case (Inl err)
    then have "g = m" "err = SpatialCapacityExceeded" using get_or_create_error g by blast+
    moreover have "hotspot_full m ?cell"
      using g Inl ok by (auto simp: get_or_create_hotspot_def hotspot_full_def hm_ok_def hm_inv_def lists_ok_def shape_def Let_def split: option.splits if_splits)
    ultimately show ?thesis using ok e g Inl by (simp add: hotspot_insert_def map_insert_def Let_def same_limits_def)
  next
    case (Inr h)
    note G = get_or_create_ok [OF ok g[unfolded Inr]]
    have nf: "\<not> hotspot_full m ?cell" using g Inr by (auto simp: get_or_create_hotspot_def hotspot_full_def Let_def split: option.splits if_splits)
    have eg: "unat e < hm_max_entities g" "slot_owner g e = None" using e(1,3) G(2,7) by (simp_all add: tracked_owner)
    let ?n = "hotspot_enter h e pos g"
    have N: "hm_inv ?n" "tracked ?n = (tracked m)(e \<mapsto> pos)" "hm_active_hotspots_count ?n = hm_active_hotspots_count g"
      "same_limits m ?n"
      "\<And>j. j < hm_active_hotspots_count g \<Longrightarrow> hc_entity_count (hm_hotspot_cells ?n ! j) = hc_entity_count (hm_hotspot_cells g ! j) + (if j = h then 1 else 0)"
      using hotspot_enter_ok [OF G(1,4) eg G(5)] G(3,7,8) by (simp_all add: same_limits_def)
    have pos: "hm_ok ?n" using N G(6) by (auto simp: hm_ok_def)
    have spec: "(tracked ?n, Inr ()) = map_insert (hm_max_entities m) (hotspot_full m ?cell) e pos (tracked m)"
      using e N(2) nf by (simp add: map_insert_def)
    have code: "hotspot_insert e pos m = (let c = hm_hotspot_cells ?n ! h in
        if \<not> hc_is_split c \<and> hc_entity_count c \<ge> HOTSPOT_SPLIT_THRESHOLD then map_option (\<lambda>m. (m, Inr ())) (split_cell h ?n) else Some (?n, Inr ()))"
      using e g Inr G(9) by (simp add: hotspot_insert_def hotspot_enter_def Let_def)
    show ?thesis
    proof (cases "\<not> hc_is_split (hm_hotspot_cells ?n ! h) \<and> hc_entity_count (hm_hotspot_cells ?n ! h) \<ge> HOTSPOT_SPLIT_THRESHOLD")
      case True
      have hn: "h < hm_active_hotspots_count ?n" using N(3) G(4) by simp
      obtain q where q: "split_cell h ?n = Some q" "hm_inv q" "same_tracking ?n q" using split_cell_ok [OF N(1) hn] True by blast
      have "hm_active_hotspots_count q \<le> hm_max_hotspots ?n" using hm_invD(1) [OF q(2)] q(3) by (simp add: lists_ok_def shape_def same_tracking_def)
      then have "hm_ok q" using q(2,3) pos by (auto simp: hm_ok_def same_tracking_def)
      moreover have "tracked q = tracked ?n" using q(3) by (rule same_tracking_tracked)
      moreover have "same_limits m q" using N(4) q(3) by (simp add: same_limits_def same_tracking_def)
      moreover have "hotspot_insert e pos m = Some (q, Inr ())" unfolding code Let_def using True q(1) by simp
      ultimately show ?thesis using spec by metis
    next
      case False
      then have "hotspot_insert e pos m = Some (?n, Inr ())" unfolding code Let_def by auto
      then show ?thesis using pos spec N(4) by blast
    qed
  qed
qed

text \<open>Taking an entity out of its cell.\<close>

definition hotspot_leave :: "u32 \<Rightarrow> HotspotManager \<Rightarrow> HotspotManager" where
  "hotspot_leave e m =
     (let id = unat e; h = unat (hm_entity_hotspot_id m ! id - 1);
          m = (if hc_is_split (hm_hotspot_cells m ! h) then pop_leaf h (unat (hm_entity_leaf_idx m ! id)) e m else pop_flat h e m);
          c = hm_hotspot_cells m ! h;
          m = put_cell h (c\<lparr>hc_entity_count := hc_entity_count c - 1\<rparr>) m
      in m\<lparr>hm_entity_active := (hm_entity_active m)[id := False], hm_entity_hotspot_id := (hm_entity_hotspot_id m)[id := 0],
           hm_links := clear_links e (hm_links m)\<rparr>)"

lemma lists_ok_clear:
  assumes "lists_ok m owner" and "owner e = None"
  shows "lists_ok (m\<lparr>hm_links := clear_links e (hm_links m)\<rparr>) owner"
proof -
  have "list_head (m\<lparr>hm_links := clear_links e (hm_links m)\<rparr>) = list_head m" by (simp add: list_head_def fun_eq_iff)
  then show ?thesis using assms index_clear [where e = e and owner = owner] by (simp add: lists_ok_def shape_def)
qed

lemma hotspot_leave_ok:
  assumes inv: "hm_inv m" and o: "slot_owner m e = Some (h, s)"
  defines "n \<equiv> hotspot_leave e m"
  shows "hm_inv n \<and> tracked n = (tracked m)(e := None) \<and> hm_active_hotspots_count n = hm_active_hotspots_count m
    \<and> hm_max_entities n = hm_max_entities m \<and> hm_max_hotspots n = hm_max_hotspots m
    \<and> (\<forall>j<hm_active_hotspots_count m. hc_entity_count (hm_hotspot_cells n ! j) = hc_entity_count (hm_hotspot_cells m ! j) - (if j = h then 1 else 0))
    \<and> h < hm_active_hotspots_count m \<and> h = unat (hm_entity_hotspot_id m ! unat e - 1) \<and> hm_entity_hotspot_id m ! unat e \<noteq> 0"
proof -
  note L = hm_invD(1) [OF inv]
  have E: "entity_ok m e" by (rule hm_invD(2) [OF inv]) (simp add: o)
  let ?id = "unat e"
  have a: "?id < hm_max_entities m" "hm_entity_active m ! ?id" using o by (auto simp: slot_owner_def split: if_splits)
  have nz: "hm_entity_hotspot_id m ! ?id \<noteq> 0" using E by (simp add: entity_ok_def Let_def)
  have m1: "unat (w - 1) = unat w - 1" if "w \<noteq> 0" for w :: u16 using that by (simp add: unat_minus_one)
  have hh: "unat (hm_entity_hotspot_id m ! ?id - 1) = h" using o a m1 [OF nz] by (simp add: slot_owner_def Let_def)
  have h: "h < hm_active_hotspots_count m" using E hh m1 [OF nz] by (simp add: entity_ok_def Let_def)
  have s: "s = (if hc_is_split (hm_hotspot_cells m ! h) then Some (unat (hm_entity_leaf_idx m ! ?id)) else None)"
    using o a hh m1 [OF nz] by (auto simp: slot_owner_def Let_def)
  note D = lists_okD [OF L h]
  let ?li = "unat (hm_entity_leaf_idx m ! ?id)"
  let ?p = "if hc_is_split (hm_hotspot_cells m ! h) then pop_leaf h ?li e m else pop_flat h e m"
  have p: "lists_ok ?p ((slot_owner m)(e := None))" "list_frame m ?p"
  proof -
    have "lists_ok ?p ((slot_owner m)(e := None)) \<and> list_frame m ?p"
    proof (cases "hc_is_split (hm_hotspot_cells m ! h)")
      case True
      have "?li < 16" using index_owner [OF D(2) o] s True by simp
      then show ?thesis using pop_leaf_ok [OF L, where e = e and h = h and i = "?li"] o s True h by simp
    next
      case False
      then show ?thesis using pop_flat_ok [OF L, where e = e and h = h] o s False h by simp
    qed
    then show "lists_ok ?p ((slot_owner m)(e := None))" "list_frame m ?p" by simp_all
  qed
  obtain P where P: "P = ?p" by blast
  let ?q = "put_cell h ((hm_hotspot_cells P ! h)\<lparr>hc_entity_count := hc_entity_count (hm_hotspot_cells P ! h) - 1\<rparr>) P"
  have n: "n = ?q\<lparr>hm_entity_active := (hm_entity_active ?q)[?id := False], hm_entity_hotspot_id := (hm_entity_hotspot_id ?q)[?id := 0],
           hm_links := clear_links e (hm_links ?q)\<rparr>"
    unfolding n_def hotspot_leave_def Let_def hh P ..
  have F: "hm_max_entities P = hm_max_entities m" "hm_max_hotspots P = hm_max_hotspots m" "hm_active_hotspots_count P = hm_active_hotspots_count m"
      "hm_entity_positions P = hm_entity_positions m" "hm_entity_active P = hm_entity_active m" "hm_entity_hotspot_id P = hm_entity_hotspot_id m"
      "hm_entity_leaf_idx P = hm_entity_leaf_idx m" "length (hm_hotspot_cells P) = length (hm_hotspot_cells m)"
    using p(2) unfolding list_frame_def P by simp_all
  have hp: "h < length (hm_hotspot_cells P)" using D(3) F(8) by simp
  have q: "lists_ok ?q ((slot_owner m)(e := None))" by (rule lists_ok_flags [OF p(1)[folded P] hp]) simp_all
  have "lists_ok (?q\<lparr>hm_links := clear_links e (hm_links ?q)\<rparr>) ((slot_owner m)(e := None))" by (rule lists_ok_clear [OF q]) simp
  then have lists: "lists_ok n ((slot_owner m)(e := None))"
    unfolding n by (rule lists_ok_entities) (use D(1) F in \<open>simp_all add: shape_def put_cell_def\<close>)
  have cells: "hc_cell (hm_hotspot_cells n ! j) = hc_cell (hm_hotspot_cells m ! j)"
      "hc_is_split (hm_hotspot_cells n ! j) = hc_is_split (hm_hotspot_cells m ! j)"
      "hc_entity_count (hm_hotspot_cells n ! j) = hc_entity_count (hm_hotspot_cells m ! j) - (if j = h then 1 else 0)"
    if "j < hm_active_hotspots_count m" for j
  proof -
    have "cell_frame (hm_hotspot_cells m ! j) (hm_hotspot_cells P ! j)" using frame_cell [OF p(2)[folded P], of j] that D(1) by (simp add: shape_def)
    moreover have "hm_hotspot_cells n ! j = (if j = h then (hm_hotspot_cells P ! h)\<lparr>hc_entity_count := hc_entity_count (hm_hotspot_cells P ! h) - 1\<rparr> else hm_hotspot_cells P ! j)"
      unfolding n put_cell_def using hp by (simp add: nth_list_update)
    ultimately show "hc_cell (hm_hotspot_cells n ! j) = hc_cell (hm_hotspot_cells m ! j)"
      "hc_is_split (hm_hotspot_cells n ! j) = hc_is_split (hm_hotspot_cells m ! j)"
      "hc_entity_count (hm_hotspot_cells n ! j) = hc_entity_count (hm_hotspot_cells m ! j) - (if j = h then 1 else 0)"
      by (auto simp: cell_frame_def)
  qed
  have N: "hm_max_entities n = hm_max_entities m" "hm_max_hotspots n = hm_max_hotspots m" "hm_active_hotspots_count n = hm_active_hotspots_count m"
      "hm_entity_positions n = hm_entity_positions m" "hm_entity_active n = (hm_entity_active m)[?id := False]"
      "hm_entity_hotspot_id n = (hm_entity_hotspot_id m)[?id := 0]" "hm_entity_leaf_idx n = hm_entity_leaf_idx m"
    unfolding n by (simp_all add: F)
  have sc: "same_cells m n" using cells N by (simp add: same_cells_def)
  have others: "entity_at n x = entity_at m x" if "x \<noteq> e" for x
  proof -
    have "unat x \<noteq> unat e" using that by (simp add: word_unat_eq_iff)
    then show ?thesis unfolding entity_at_def N by simp
  qed
  have inact: "\<not> hm_entity_active n ! ?id" using a(1) D(1) unfolding N by (simp add: shape_def)
  then have own: "slot_owner n e = None" "tracked n e = None" by (simp_all add: slot_owner_def tracked_def)
  have counts: "hc_entity_count (hm_hotspot_cells n ! j) = cell_count ((slot_owner m)(e := None)) j" if "j < hm_active_hotspots_count m" for j
    unfolding cells(3) [OF that] cell_count_sub [where owner = "slot_owner m" and e = e, OF o] hm_invD(3) [OF inv that] ..
  note C = hm_inv_change [OF inv sc N(3) others lists own(1) _ counts]
  then have C2: "hm_inv n" "tracked n = (tracked m)(e := None)" using own(2) by simp_all
  then show ?thesis using N(1-3) cells(3) h hh nz by simp
qed

lemma hotspot_remove_ok:
  assumes ok: "hm_ok m"
  shows "\<exists>n r. hotspot_remove e m = Some (n, r) \<and> hm_ok n \<and> same_limits m n \<and> (tracked n, r) = map_remove e (tracked m)"
proof (cases "tracked m e")
  case None
  then show ?thesis using ok by (auto simp: hotspot_remove_def map_remove_def tracked_def same_limits_def split: if_splits)
next
  case (Some p)
  have inv: "hm_inv m" and pos: "\<And>j. j < hm_active_hotspots_count m \<Longrightarrow> 0 < hc_entity_count (hm_hotspot_cells m ! j)"
    using ok by (simp_all add: hm_ok_def)
  have a: "unat e < hm_max_entities m" "hm_entity_active m ! unat e" using Some by (auto simp: tracked_def split: if_splits)
  obtain h s where o: "slot_owner m e = Some (h, s)" using a by (auto simp: slot_owner_def Let_def)
  let ?n = "hotspot_leave e m" and ?h = "unat (hm_entity_hotspot_id m ! unat e - 1)"
  have N: "hm_inv ?n" "tracked ?n = (tracked m)(e := None)" "hm_active_hotspots_count ?n = hm_active_hotspots_count m" "same_limits m ?n"
      "\<And>j. j < hm_active_hotspots_count m \<Longrightarrow> hc_entity_count (hm_hotspot_cells ?n ! j) = hc_entity_count (hm_hotspot_cells m ! j) - (if j = h then 1 else 0)"
      "h < hm_active_hotspots_count m" "?h = h" "hm_entity_hotspot_id m ! unat e \<noteq> 0"
    using hotspot_leave_ok [OF inv o] by (simp_all add: same_limits_def)
  have spec: "map_remove e (tracked m) = (tracked ?n, Inr ())" using Some N(2) by (simp add: map_remove_def)
  let ?merged = "if hc_is_split (hm_hotspot_cells ?n ! h) \<and> hc_entity_count (hm_hotspot_cells ?n ! h) \<le> HOTSPOT_MERGE_THRESHOLD then merge_cell h ?n else Some ?n"
  have code: "hotspot_remove e m = (case ?merged of None \<Rightarrow> None
      | Some m \<Rightarrow> if hc_entity_count (hm_hotspot_cells m ! h) = 0 then map_option (\<lambda>m. (m, Inr ())) (reclaim_hotspot h m) else Some (m, Inr ()))"
  proof -
    have "(unat e \<ge> hm_max_entities m \<or> \<not> hm_entity_active m ! unat e) = False" "(hm_entity_hotspot_id m ! unat e = 0) = False"
      using a N(8) by simp_all
    then show ?thesis unfolding hotspot_remove_def hotspot_leave_def Let_def N(7) by (simp only: if_False)
  qed
  obtain q where q: "?merged = Some q" "hm_inv q" "tracked q = tracked ?n" "hm_active_hotspots_count q = hm_active_hotspots_count m" "same_limits m q"
      "\<And>j. j < hm_active_hotspots_count m \<Longrightarrow> hc_entity_count (hm_hotspot_cells q ! j) = hc_entity_count (hm_hotspot_cells ?n ! j)"
  proof (cases "hc_is_split (hm_hotspot_cells ?n ! h) \<and> hc_entity_count (hm_hotspot_cells ?n ! h) \<le> HOTSPOT_MERGE_THRESHOLD")
    case True
    obtain q where q: "merge_cell h ?n = Some q" "hm_inv q" "same_tracking ?n q" using merge_cell_ok [OF N(1)] N(3,6) True by auto
    have le: "hm_active_hotspots_count m \<le> hm_max_hotspots ?n" using hm_invD(1) [OF N(1)] N(3) by (simp add: lists_ok_def shape_def)
    show ?thesis
    proof (rule that [of q])
      show "tracked q = tracked ?n" by (rule same_tracking_tracked [OF q(3)])
      show "same_limits m q" using N(4) q(3) by (simp add: same_limits_def same_tracking_def)
      show "hm_active_hotspots_count q = hm_active_hotspots_count m" using N(3) q(3) by (simp add: same_tracking_def)
      show "hc_entity_count (hm_hotspot_cells q ! j) = hc_entity_count (hm_hotspot_cells ?n ! j)" if "j < hm_active_hotspots_count m" for j
        using q(3) that le by (simp add: same_tracking_def)
    qed (use True q in simp_all)
  next
    case False
    show ?thesis by (rule that [of ?n]) (use False N in auto)
  qed
  have code2: "hotspot_remove e m = (if hc_entity_count (hm_hotspot_cells q ! h) = 0 then map_option (\<lambda>m. (m, Inr ())) (reclaim_hotspot h q) else Some (q, Inr ()))"
    unfolding code q(1) by simp
  have counts: "0 < hc_entity_count (hm_hotspot_cells q ! j)" if "j < hm_active_hotspots_count q" "j \<noteq> h" for j
    using q(4) q(6) [of j] N(5) [of j] pos [of j] that by simp
  show ?thesis
  proof (cases "hc_entity_count (hm_hotspot_cells q ! h) = 0")
    case True
    have hq: "h < hm_active_hotspots_count q" using N(6) q(4) by simp
    obtain t where t: "reclaim_hotspot h q = Some t" "hm_ok t" "tracked t = tracked q" "same_limits q t"
      using reclaim_hotspot_ok [OF q(2) hq True counts] by (auto simp: same_limits_def)
    have "hotspot_remove e m = Some (t, Inr ())" unfolding code2 using True t(1) by simp
    moreover have "same_limits m t" using t(4) q(5) by (simp add: same_limits_def)
    ultimately show ?thesis using t(2,3) q(3) spec by metis
  next
    case False
    then have "hm_ok q" using q(2) counts by (auto simp: hm_ok_def)
    moreover have "hotspot_remove e m = Some (q, Inr ())" unfolding code2 using False by simp
    ultimately show ?thesis using q(3,5) spec by metis
  qed
qed

definition map_move :: "bool \<Rightarrow> u32 \<Rightarrow> Vec3Fix \<Rightarrow> (u32 \<rightharpoonup> Vec3Fix) \<Rightarrow> (u32 \<rightharpoonup> Vec3Fix) \<times> (SpatialError + unit)" where
  "map_move full e pos T =
     (case T e of
        None \<Rightarrow> (T, Inl (SpatialEntityNotFound e))
      | Some old \<Rightarrow>
          if CellCoord_from_position old \<noteq> CellCoord_from_position pos \<and> full then (T(e := None), Inl SpatialCapacityExceeded)
          else (T(e \<mapsto> pos), Inr ()))"

text \<open>An entity moves within its cell.\<close>

lemma move_in_cell_ok:
  assumes ok: "hm_ok m" and t: "tracked m e = Some old" and same: "CellCoord_from_position old = CellCoord_from_position pos"
  shows "\<exists>n. hotspot_update_position e pos m = Some (n, Inr ()) \<and> hm_ok n \<and> same_limits m n \<and> tracked n = (tracked m)(e \<mapsto> pos)"
proof -
  have inv: "hm_inv m" and counts0: "\<And>j. j < hm_active_hotspots_count m \<Longrightarrow> 0 < hc_entity_count (hm_hotspot_cells m ! j)"
    using ok by (simp_all add: hm_ok_def)
  note L = hm_invD(1) [OF inv]
  let ?id = "unat e"
  have a: "?id < hm_max_entities m" "hm_entity_active m ! ?id" "hm_entity_positions m ! ?id = old"
    using t by (auto simp: tracked_def split: if_splits)
  have E: "entity_ok m e" by (rule hm_invD(2) [OF inv]) (use a in \<open>simp add: slot_owner_def Let_def\<close>)
  obtain h where h: "h = unat (hm_entity_hotspot_id m ! ?id) - 1" by blast
  then have hs: "unat (hm_entity_hotspot_id m ! ?id) - Suc 0 = h" by simp
  have nz: "hm_entity_hotspot_id m ! ?id \<noteq> 0" using E by (simp add: entity_ok_def Let_def)
  have h1: "unat (hm_entity_hotspot_id m ! ?id - 1) = h" using nz h by (simp add: unat_minus_one)
  have hc: "h < hm_active_hotspots_count m" "hc_cell (hm_hotspot_cells m ! h) = CellCoord_from_position old"
    using E a(3) by (simp_all add: entity_ok_def Let_def hs)
  note D = lists_okD [OF L hc(1)]
  let ?m = "m\<lparr>hm_entity_positions := (hm_entity_positions m)[?id := pos]\<rparr>"
  let ?old = "unat (hm_entity_leaf_idx m ! ?id)" and ?new = "compute_leaf_index (hm_hotspot_cells m ! h) pos"
  let ?split = "hc_is_split (hm_hotspot_cells m ! h)"
  have L1: "lists_ok ?m (slot_owner m)" by (rule lists_ok_entities [OF L]) (use D(1) in \<open>simp_all add: shape_def\<close>)
  have o: "slot_owner m e = Some (h, if ?split then Some ?old else None)" using a by (simp add: slot_owner_def Let_def hs)
  let ?k = "Some (h, if ?split then Some ?new else None)"
  have fin: "hm_ok n \<and> same_limits m n \<and> tracked n = (tracked m)(e \<mapsto> pos)"
    if lists: "lists_ok n ((slot_owner m)(e := ?k))" and fr: "list_frame (?m\<lparr>hm_entity_leaf_idx := hm_entity_leaf_idx n\<rparr>) n"
      and li: "\<And>x. x \<noteq> e \<Longrightarrow> hm_entity_leaf_idx n ! unat x = hm_entity_leaf_idx m ! unat x"
      and le: "?split \<Longrightarrow> unat (hm_entity_leaf_idx n ! ?id) = ?new" for n
  proof -
    have N: "hm_max_entities n = hm_max_entities m" "hm_max_hotspots n = hm_max_hotspots m" "hm_active_hotspots_count n = hm_active_hotspots_count m"
      "hm_entity_positions n = (hm_entity_positions m)[?id := pos]" "hm_entity_active n = hm_entity_active m"
      "hm_entity_hotspot_id n = hm_entity_hotspot_id m"
      using fr by (simp_all add: list_frame_def)
    have cf: "cell_frame (hm_hotspot_cells m ! j) (hm_hotspot_cells n ! j)" if "j < hm_active_hotspots_count m" for j
      using frame_cell [OF fr, of j] that D(1) by (simp add: shape_def)
    have sc: "same_cells m n" using cf by (simp add: same_cells_def N cell_frame_def)
    have others: "entity_at n x = entity_at m x" if "x \<noteq> e" for x
    proof -
      have "unat x \<noteq> ?id" using that by (simp add: word_unat_eq_iff)
      then show ?thesis using li [OF that] unfolding entity_at_def N by simp
    qed
    have pe: "hm_entity_positions n ! ?id = pos" using a(1) D(1) unfolding N by (simp add: shape_def)
    have cfh: "hc_cell (hm_hotspot_cells n ! h) = hc_cell (hm_hotspot_cells m ! h)" "hc_is_split (hm_hotspot_cells n ! h) = ?split"
      using cf [OF hc(1)] by (simp_all add: cell_frame_def)
    have own: "slot_owner n e = ?k" using a le by (simp add: slot_owner_def N Let_def hs cfh)
    have lx: "compute_leaf_index (hm_hotspot_cells n ! h) pos = ?new" by (rule leaf_index_cell) (rule cfh(1))
    have eok: "entity_ok n e" using nz hc same le by (simp add: entity_ok_def N(3,6) pe Let_def hs cfh lx)
    have counts: "hc_entity_count (hm_hotspot_cells n ! j) = cell_count ((slot_owner m)(e := ?k)) j" if "j < hm_active_hotspots_count m" for j
    proof -
      have "cell_count ((slot_owner m)(e := ?k)) j = cell_count (slot_owner m) j"
        by (rule cell_count_cong) (simp add: o)
      then show ?thesis using cf [OF that] hm_invD(3) [OF inv that] by (simp add: cell_frame_def)
    qed
    note C = hm_inv_change [OF inv sc N(3) others lists own eok counts]
    have "tracked n e = Some pos" using a pe by (simp add: tracked_def N)
    moreover have "0 < hc_entity_count (hm_hotspot_cells n ! j)" if "j < hm_active_hotspots_count m" for j
      using cf [OF that] counts0 [OF that] by (simp add: cell_frame_def)
    ultimately show ?thesis using C(1,3) N(1-3) by (simp add: hm_ok_def same_limits_def)
  qed
  have guard: "(unat e \<ge> hm_max_entities m \<or> \<not> hm_entity_active m ! unat e) = False"
    "(CellCoord_from_position (hm_entity_positions m ! unat e) \<noteq> CellCoord_from_position pos) = False" using a same by simp_all
  have code: "hotspot_update_position e pos m =
      (if ?split then if ?old \<noteq> ?new
         then let m = push_leaf h ?new e (pop_leaf h ?old e ?m) in Some (m\<lparr>hm_entity_leaf_idx := (hm_entity_leaf_idx m)[?id := word_of_nat ?new]\<rparr>, Inr ())
         else Some (?m, Inr ()) else Some (?m, Inr ()))"
    unfolding hotspot_update_position_def Let_def guard if_False by (simp add: h1)
  show ?thesis
  proof (cases "?split \<and> ?old \<noteq> ?new")
    case True
    have lt: "?old < 16" using E True leaf_index_bound by (simp add: entity_ok_def Let_def hs)
    have o': "slot_owner m e = Some (h, Some ?old)" using o True by simp
    have hm: "h < hm_active_hotspots_count ?m" using hc(1) by simp
    have p: "lists_ok (pop_leaf h ?old e ?m) ((slot_owner m)(e := None))" "list_frame ?m (pop_leaf h ?old e ?m)"
      using pop_leaf_ok [OF L1 o' hm lt] by simp_all
    have "lists_ok (push_leaf h ?new e (pop_leaf h ?old e ?m)) ((slot_owner m)(e := None, e := Some (h, Some ?new)))
        \<and> list_frame (pop_leaf h ?old e ?m) (push_leaf h ?new e (pop_leaf h ?old e ?m))"
      by (rule push_leaf_ok [OF p(1)]) (use p(2) hc(1) a(1) leaf_index_bound in \<open>simp_all add: list_frame_def\<close>)
    moreover obtain q where q: "q = push_leaf h ?new e (pop_leaf h ?old e ?m)" by blast
    ultimately have Q: "lists_ok q ((slot_owner m)(e := ?k))" "list_frame ?m q" using True frame_trans [OF p(2)] by simp_all
    let ?n = "q\<lparr>hm_entity_leaf_idx := (hm_entity_leaf_idx q)[?id := word_of_nat ?new]\<rparr>"
    have lq: "hm_entity_leaf_idx q = hm_entity_leaf_idx m" using Q(2) by (simp add: list_frame_def)
    have "hm_ok ?n \<and> same_limits m ?n \<and> tracked ?n = (tracked m)(e \<mapsto> pos)"
    proof (rule fin)
      show "lists_ok ?n ((slot_owner m)(e := ?k))"
        by (rule lists_ok_entities [OF Q(1)]) (use Q(1) in \<open>simp_all add: lists_ok_def shape_def\<close>)
      show "list_frame (?m\<lparr>hm_entity_leaf_idx := hm_entity_leaf_idx ?n\<rparr>) ?n" using frame_leaf [OF Q(2) refl] by simp
      show "hm_entity_leaf_idx ?n ! unat x = hm_entity_leaf_idx m ! unat x" if "x \<noteq> e" for x
      proof -
        have "unat x \<noteq> ?id" using that by (simp add: word_unat_eq_iff)
        then show ?thesis by (simp add: lq)
      qed
      show "unat (hm_entity_leaf_idx ?n ! ?id) = ?new" using a(1) D(1) by (simp add: lq shape_def leaf_index_byte)
    qed
    moreover have "hotspot_update_position e pos m = Some (?n, Inr ())" unfolding code Let_def q using True by simp
    ultimately show ?thesis by blast
  next
    case False
    have "hm_ok ?m \<and> same_limits m ?m \<and> tracked ?m = (tracked m)(e \<mapsto> pos)"
    proof (rule fin)
      have "(slot_owner m)(e := ?k) = slot_owner m" using o False by (auto simp: fun_eq_iff)
      then show "lists_ok ?m ((slot_owner m)(e := ?k))" using L1 by simp
    qed (use False in \<open>simp_all add: list_frame_def\<close>)
    moreover have "hotspot_update_position e pos m = Some (?m, Inr ())" unfolding code using False by auto
    ultimately show ?thesis by blast
  qed
qed

lemma hotspot_update_position_ok:
  assumes ok: "hm_ok m"
  shows "\<exists>n r full. hotspot_update_position e pos m = Some (n, r) \<and> hm_ok n \<and> same_limits m n
    \<and> (tracked n, r) = map_move full e pos (tracked m)"
proof (cases "tracked m e")
  case None
  then show ?thesis using ok by (auto simp: hotspot_update_position_def map_move_def tracked_def Let_def same_limits_def split: if_splits)
next
  case (Some old)
  show ?thesis
  proof (cases "CellCoord_from_position old = CellCoord_from_position pos")
    case True
    obtain n where n: "hotspot_update_position e pos m = Some (n, Inr ())" "hm_ok n" "same_limits m n" "tracked n = (tracked m)(e \<mapsto> pos)"
      using move_in_cell_ok [OF ok Some True] by blast
    have "(tracked n, Inr ()) = map_move False e pos (tracked m)" using n(4) Some by (simp add: map_move_def)
    with n(1-3) show ?thesis by blast
  next
    case False
    have a: "unat e < hm_max_entities m" "hm_entity_active m ! unat e" "hm_entity_positions m ! unat e = old"
      using Some by (auto simp: tracked_def split: if_splits)
    obtain p r where p: "hotspot_remove e m = Some (p, r)" "hm_ok p" "same_limits m p" "(tracked p, r) = map_remove e (tracked m)"
      using hotspot_remove_ok [OF ok] by blast
    have p2: "tracked p = (tracked m)(e := None)" "r = Inr ()" using p(4) Some by (simp_all add: map_remove_def)
    let ?full = "hotspot_full p (CellCoord_from_position pos)"
    obtain n r2 where n: "hotspot_insert e pos p = Some (n, r2)" "hm_ok n" "same_limits p n"
        "(tracked n, r2) = map_insert (hm_max_entities p) ?full e pos (tracked p)"
      using hotspot_insert_ok [OF p(2)] by blast
    have "hotspot_update_position e pos m = Some (n, r2)"
      using a False p(1) p2(2) n(1) by (simp add: hotspot_update_position_def Let_def)
    moreover have "(tracked n, r2) = map_move ?full e pos (tracked m)"
      using n(4) p(3) a(1) False Some p2(1) by (simp add: map_insert_def map_move_def same_limits_def)
    moreover have "same_limits m n" using p(3) n(3) by (simp add: same_limits_def)
    ultimately show ?thesis using n(2) by blast
  qed
qed

lemma HotspotManager_new_ok:
  assumes "max_entities < 2 ^ 32" and "max_hotspots < 2 ^ 16 - 1"
  shows "hm_ok (HotspotManager_new max_entities max_hotspots)" and "tracked (HotspotManager_new max_entities max_hotspots) = Map.empty"
proof -
  let ?m = "HotspotManager_new max_entities max_hotspots"
  have none: "slot_owner ?m e = None" for e by (simp add: slot_owner_def HotspotManager_new_def)
  have "cell_shape (HotspotCell_new (CellCoord_new 0 0 0))" by (simp add: HotspotCell_new_def Let_def cell_shape_def MICRO_QUADRANTS_PER_CELL_def)
  then have "shape ?m" using assms by (simp add: shape_def HotspotManager_new_def)
  moreover have "index_ok (hm_links ?m) (list_head ?m) (slots_of 0) (slot_owner ?m)"
    by (rule index_empty) (auto simp: slots_of_def none)
  ultimately have "lists_ok ?m (slot_owner ?m)" by (simp add: lists_ok_def HotspotManager_new_def)
  then show "hm_ok ?m" using none by (simp add: hm_ok_def hm_inv_def) (simp add: HotspotManager_new_def)
  show "tracked ?m = Map.empty" by (simp add: tracked_def HotspotManager_new_def fun_eq_iff)
qed

text \<open>The first entity.\<close>

lemma hotspot_insert_first:
  assumes "max_entities < 2 ^ 32" and "0 < max_hotspots" "max_hotspots < 2 ^ 16 - 1" and "unat e < max_entities"
  shows "\<exists>n. hotspot_insert e pos (HotspotManager_new max_entities max_hotspots) = Some (n, Inr ()) \<and> tracked n = [e \<mapsto> pos]"
proof -
  have "tracked (HotspotManager_new max_entities max_hotspots) = Map.empty" using HotspotManager_new_ok(2) [OF assms(1,3)] .
  moreover have "\<not> hotspot_full (HotspotManager_new max_entities max_hotspots) (CellCoord_from_position pos)"
    using assms(2) by (simp add: hotspot_full_def HotspotManager_new_def)
  moreover have "hm_max_entities (HotspotManager_new max_entities max_hotspots) = max_entities" by (simp add: HotspotManager_new_def)
  ultimately show ?thesis
    using hotspot_insert_ok [OF HotspotManager_new_ok(1) [OF assms(1,3)], of e pos] assms(4) by (auto simp: map_insert_def)
qed

section \<open>Any run of operations\<close>

datatype hotspot_op = HotspotInsert u32 Vec3Fix | HotspotUpdate u32 Vec3Fix | HotspotRemove u32

definition hotspot_step :: "hotspot_op \<Rightarrow> HotspotManager \<Rightarrow> (HotspotManager \<times> (SpatialError + unit)) option" where
  "hotspot_step op m =
     (case op of HotspotInsert e p \<Rightarrow> hotspot_insert e p m | HotspotUpdate e p \<Rightarrow> hotspot_update_position e p m | HotspotRemove e \<Rightarrow> hotspot_remove e m)"

fun hotspot_run :: "hotspot_op list \<Rightarrow> HotspotManager \<Rightarrow> (HotspotManager \<times> (SpatialError + unit) list) option" where
  "hotspot_run [] m = Some (m, [])"
| "hotspot_run (op # ops) m =
     (case hotspot_step op m of
        None \<Rightarrow> None
      | Some (m, r) \<Rightarrow> map_option (\<lambda>(m, rs). (m, r # rs)) (hotspot_run ops m))"

text \<open>The same operations on a map; \<open>full\<close> says whether the table has no slot for a new cell.\<close>

definition map_step :: "nat \<Rightarrow> bool \<Rightarrow> hotspot_op \<Rightarrow> (u32 \<rightharpoonup> Vec3Fix) \<Rightarrow> (u32 \<rightharpoonup> Vec3Fix) \<times> (SpatialError + unit)" where
  "map_step capacity full op T =
     (case op of HotspotInsert e p \<Rightarrow> map_insert capacity full e p T | HotspotUpdate e p \<Rightarrow> map_move full e p T | HotspotRemove e \<Rightarrow> map_remove e T)"

fun map_run :: "nat \<Rightarrow> bool list \<Rightarrow> hotspot_op list \<Rightarrow> (u32 \<rightharpoonup> Vec3Fix) \<Rightarrow> (u32 \<rightharpoonup> Vec3Fix) \<times> (SpatialError + unit) list" where
  "map_run capacity (f # fs) (op # ops) T = (let (T, r) = map_step capacity f op T; (T, rs) = map_run capacity fs ops T in (T, r # rs))"
| "map_run capacity _ _ T = (T, [])"

lemma hotspot_step_ok:
  assumes "hm_ok m"
  shows "\<exists>n r full. hotspot_step op m = Some (n, r) \<and> hm_ok n \<and> same_limits m n \<and> (tracked n, r) = map_step (hm_max_entities m) full op (tracked m)"
proof (cases op)
  case (HotspotInsert e p)
  then show ?thesis using hotspot_insert_ok [OF assms, of e p] unfolding hotspot_step_def map_step_def by auto
next
  case (HotspotUpdate e p)
  then show ?thesis using hotspot_update_position_ok [OF assms, of e p] unfolding hotspot_step_def map_step_def by auto
next
  case (HotspotRemove e)
  then show ?thesis using hotspot_remove_ok [OF assms, of e] unfolding hotspot_step_def map_step_def by auto
qed

lemma hotspot_run_ok:
  "hm_ok m \<Longrightarrow> \<exists>n rs fulls. hotspot_run ops m = Some (n, rs) \<and> hm_ok n \<and> same_limits m n \<and> length fulls = length ops
     \<and> map_run (hm_max_entities m) fulls ops (tracked m) = (tracked n, rs)"
proof (induction ops arbitrary: m)
  case Nil
  then show ?case by (intro exI [of _ m] exI [of _ "[]"]) (simp add: same_limits_def)
next
  case (Cons op ops)
  obtain n r f where n: "hotspot_step op m = Some (n, r)" "hm_ok n" "same_limits m n" "(tracked n, r) = map_step (hm_max_entities m) f op (tracked m)"
    using hotspot_step_ok [OF Cons.prems] by blast
  obtain q rs fs where q: "hotspot_run ops n = Some (q, rs)" "hm_ok q" "same_limits n q" "length fs = length ops"
      "map_run (hm_max_entities n) fs ops (tracked n) = (tracked q, rs)"
    using Cons.IH [OF n(2)] by blast
  have "hm_max_entities n = hm_max_entities m" using n(3) by (simp add: same_limits_def)
  then have "map_run (hm_max_entities m) (f # fs) (op # ops) (tracked m) = (tracked q, r # rs)"
    using q(5) by (simp add: n(4) [symmetric])
  moreover have "same_limits m q" using n(3) q(3) by (simp add: same_limits_def)
  moreover have "hotspot_run (op # ops) m = Some (q, r # rs)" using n(1) q(1) by simp
  ultimately show ?case using q(2,4) by (intro exI [of _ q] exI [of _ "r # rs"] exI [of _ "f # fs"]) simp
qed

text \<open>
  C25. Every run of insertions, moves and removals on the hotspot manager returns: no walk along the
  intrusive lists loops, whatever cells split, merge and are reclaimed on the way. What it tracks
  afterwards and what it answered are those of the same operations on a map from entities to
  positions, where only the answer "table full" depends on more than the map.
\<close>

theorem hotspots_refine_map:
  assumes "max_entities < 2 ^ 32" and "max_hotspots < 2 ^ 16 - 1"
  shows "\<exists>m rs fulls. hotspot_run ops (HotspotManager_new max_entities max_hotspots) = Some (m, rs) \<and> hm_ok m
    \<and> length fulls = length ops \<and> map_run max_entities fulls ops Map.empty = (tracked m, rs)"
proof -
  have new: "hm_ok (HotspotManager_new max_entities max_hotspots)" "tracked (HotspotManager_new max_entities max_hotspots) = Map.empty"
    "hm_max_entities (HotspotManager_new max_entities max_hotspots) = max_entities"
    using HotspotManager_new_ok [OF assms] by (simp_all add: HotspotManager_new_def)
  show ?thesis using hotspot_run_ok [OF new(1), of ops] unfolding new(2,3) by blast
qed

theorem hotspots_refine_map_witness:
  "\<exists>m rs fulls. hotspot_run [HotspotInsert 1 Vec3Fix_ZERO, HotspotInsert 2 Vec3Fix_ZERO, HotspotRemove 1, HotspotRemove 1] (HotspotManager_new 4 2) = Some (m, rs)
     \<and> hm_ok m \<and> length fulls = length [HotspotInsert 1 Vec3Fix_ZERO, HotspotInsert 2 Vec3Fix_ZERO, HotspotRemove 1, HotspotRemove 1]
     \<and> map_run 4 fulls [HotspotInsert 1 Vec3Fix_ZERO, HotspotInsert 2 Vec3Fix_ZERO, HotspotRemove 1, HotspotRemove 1] Map.empty = (tracked m, rs)"
  by (rule hotspots_refine_map) simp_all

end
