(* ===== verification/Distances.thy ===== *)
theory Distances
  imports Spatial
begin

text \<open>
  Facts about \<open>distance_squared\<close> in saturating fixed-point arithmetic that the spatial queries rest
  on: a point within the radius is close on every axis, and no point of a box is closer than the
  box (\<^verbatim>\<open>eidolon-spatial/src/grid.rs\<close>, \<^verbatim>\<open>quadtree.rs\<close>).
\<close>

abbreviation fx :: "Fixed64 \<Rightarrow> int" where "fx a \<equiv> sint (raw a)"

lemma fixed_le_int: "a \<le> b \<longleftrightarrow> fx a \<le> fx b"
  by (simp add: less_eq_Fixed64_def)

lemma fixed_less_int: "a < b \<longleftrightarrow> fx a < fx b"
  by (simp add: less_Fixed64_def)

lemma clamp_i64_mono: "x \<le> y \<Longrightarrow> clamp_i64 x \<le> clamp_i64 y"
  by (auto simp: clamp_i64_def)

definition sq_raw :: "int \<Rightarrow> int" where
  "sq_raw d = clamp_i64 ((d * d) div 2 ^ 32)"

lemma sint_square: "fx (d * d) = sq_raw (fx d)"
  by (simp add: sint_mul sq_raw_def)

lemma sq_raw_nonneg: "0 \<le> sq_raw d"
proof -
  have "0 \<le> d * d div 2 ^ 32" by (simp add: pos_imp_zdiv_nonneg_iff)
  then show ?thesis by (simp add: sq_raw_def clamp_i64_def i64_MIN_def i64_MAX_def)
qed

lemma sq_raw_mono: "\<bar>a\<bar> \<le> \<bar>b\<bar> \<Longrightarrow> sq_raw a \<le> sq_raw b"
proof -
  assume "\<bar>a\<bar> \<le> \<bar>b\<bar>"
  then have "\<bar>a\<bar> * \<bar>a\<bar> \<le> \<bar>b\<bar> * \<bar>b\<bar>" by (intro mult_mono) simp_all
  then have "a * a \<le> b * b" by simp
  then show ?thesis unfolding sq_raw_def by (intro clamp_i64_mono zdiv_mono1) simp_all
qed

lemma sq_raw_small:
  assumes "sq_raw d \<le> 2 ^ (2 * k - 32)" and "32 \<le> k" "k \<le> 46"
  shows "\<bar>d\<bar> \<le> 2 ^ k"
proof (rule ccontr)
  assume "\<not> \<bar>d\<bar> \<le> 2 ^ k"
  then have "2 ^ k + 1 \<le> \<bar>d\<bar>" by simp
  then have "(2 ^ k + 1) * (2 ^ k + 1) \<le> \<bar>d\<bar> * \<bar>d\<bar>" by (intro mult_mono) simp_all
  then have s: "(2 ^ k + 1) * (2 ^ k + 1) \<le> d * d" by simp
  have p: "(2 :: int) ^ k * 2 ^ k = 2 ^ (2 * k - 32) * 2 ^ 32"
  proof -
    have "k + k = (2 * k - 32) + 32" using assms(2) by simp
    then show ?thesis unfolding power_add [symmetric] by simp
  qed
  have "(2 :: int) ^ 32 \<le> 2 ^ k" using assms(2) by (intro power_increasing) simp_all
  then have "(2 ^ (2 * k - 32) + 1) * 2 ^ 32 \<le> (2 ^ k + 1) * (2 ^ k + (1 :: int))" by (simp add: algebra_simps p)
  then have "(2 ^ (2 * k - 32) + 1) * 2 ^ 32 \<le> d * d" using s by simp
  then have "((2 ^ (2 * k - 32) + 1) * 2 ^ 32) div 2 ^ 32 \<le> d * d div (2 :: int) ^ 32" by (intro zdiv_mono1) simp_all
  then have "2 ^ (2 * k - 32) + 1 \<le> d * d div 2 ^ 32" by simp
  moreover have "(2 :: int) ^ (2 * k - 32) \<le> 2 ^ 60" using assms(3) by (intro power_increasing) simp_all
  ultimately have "2 ^ (2 * k - 32) < sq_raw d" by (simp add: sq_raw_def clamp_i64_def i64_MIN_def i64_MAX_def)
  then show False using assms(1) by simp
qed

definition axis_sq :: "Fixed64 \<Rightarrow> Fixed64 \<Rightarrow> int" where
  "axis_sq p c = sq_raw (clamp_i64 (fx p - fx c))"

lemma axis_sq_nonneg: "0 \<le> axis_sq p c"
  by (simp add: axis_sq_def sq_raw_nonneg)

definition sat_sum :: "int \<Rightarrow> int \<Rightarrow> int" where
  "sat_sum a b = clamp_i64 (a + b)"

lemma distance_sum:
  "fx (Vec3Fix_distance_squared p c) =
     sat_sum (sat_sum (axis_sq (vec_x p) (vec_x c)) (axis_sq (vec_y p) (vec_y c))) (axis_sq (vec_z p) (vec_z c))"
  by (simp add: Vec3Fix_distance_squared_def Vec3Fix_magnitude_squared_def Vec3Fix_dot_def Vec3Fix_sub_def
      sint_add sint_square sint_sub axis_sq_def sat_sum_def)

lemma sq_raw_max: "sq_raw d \<le> i64_MAX"
  by (simp add: sq_raw_def clamp_i64_bounds)

lemma sat_sum_ge: "0 \<le> a \<Longrightarrow> 0 \<le> b \<Longrightarrow> b \<le> i64_MAX \<Longrightarrow> a \<le> i64_MAX \<Longrightarrow> a \<le> sat_sum a b \<and> b \<le> sat_sum a b \<and> 0 \<le> sat_sum a b \<and> sat_sum a b \<le> i64_MAX"
  by (auto simp: sat_sum_def clamp_i64_def i64_MIN_def i64_MAX_def)

lemma sat_sum_mono: "a \<le> a' \<Longrightarrow> b \<le> b' \<Longrightarrow> sat_sum a b \<le> sat_sum a' b'"
  unfolding sat_sum_def by (intro clamp_i64_mono) simp

lemma distance_axes:
  "axis_sq (vec_x p) (vec_x c) \<le> fx (Vec3Fix_distance_squared p c)"
  "axis_sq (vec_y p) (vec_y c) \<le> fx (Vec3Fix_distance_squared p c)"
  "axis_sq (vec_z p) (vec_z c) \<le> fx (Vec3Fix_distance_squared p c)"
proof -
  let ?x = "axis_sq (vec_x p) (vec_x c)" and ?y = "axis_sq (vec_y p) (vec_y c)" and ?z = "axis_sq (vec_z p) (vec_z c)"
  have b: "?x \<le> i64_MAX" "?y \<le> i64_MAX" "?z \<le> i64_MAX" by (simp_all add: axis_sq_def sq_raw_max)
  note xy = sat_sum_ge [OF axis_sq_nonneg axis_sq_nonneg b(2,1)]
  then have "sat_sum ?x ?y \<le> sat_sum (sat_sum ?x ?y) ?z \<and> ?z \<le> sat_sum (sat_sum ?x ?y) ?z"
    using sat_sum_ge [of "sat_sum ?x ?y" ?z] axis_sq_nonneg b(3) by blast
  with xy show "?x \<le> fx (Vec3Fix_distance_squared p c)" "?y \<le> fx (Vec3Fix_distance_squared p c)" "?z \<le> fx (Vec3Fix_distance_squared p c)"
    unfolding distance_sum by linarith+
qed

text \<open>Within the radius, every coordinate is near.\<close>

lemma axis_near:
  assumes "axis_sq p c \<le> 2 ^ (2 * k - 32)" and "32 \<le> k" "k \<le> 46"
  shows "\<bar>fx p - fx c\<bar> \<le> 2 ^ k"
proof -
  have "\<bar>clamp_i64 (fx p - fx c)\<bar> \<le> 2 ^ k" using sq_raw_small assms by (simp add: axis_sq_def)
  moreover have "(2 :: int) ^ k \<le> 2 ^ 46" using assms(3) by (intro power_increasing) simp_all
  ultimately show ?thesis by (auto simp: clamp_i64_def i64_MIN_def i64_MAX_def split: if_splits)
qed

text \<open>The distance to an interval is at most the distance to its points.\<close>

lemma axis_box:
  assumes "fx mn \<le> fx p" "fx p \<le> fx mx"
  shows "sq_raw (clamp_i64 (if fx c < fx mn then fx mn - fx c else if fx c > fx mx then fx c - fx mx else 0)) \<le> axis_sq p c"
proof (unfold axis_sq_def, rule sq_raw_mono)
  show "\<bar>clamp_i64 (if fx c < fx mn then fx mn - fx c else if fx c > fx mx then fx c - fx mx else 0)\<bar> \<le> \<bar>clamp_i64 (fx p - fx c)\<bar>"
    using assms by (auto simp: clamp_i64_def i64_MIN_def i64_MAX_def)
qed

end
