(* ===== verification/HotspotQuery.thy ===== *)
theory HotspotQuery
  imports Hotspots Distances
begin

text \<open>
  The pruned query of a hotspot cell returns what a full scan of the cell returns: the boxes of the
  leaves and quadrants hold the positions of their entities, and the distance to a box is at most
  the distance to its points, saturation included (\<^verbatim>\<open>eidolon-spatial/src/quadtree.rs\<close>).
\<close>

section \<open>Boxes and their points\<close>

definition in_box :: "QuadtreeAabb \<Rightarrow> Vec3Fix \<Rightarrow> bool" where
  "in_box a p \<longleftrightarrow> fx (qa_min_x a) \<le> fx (vec_x p) \<and> fx (vec_x p) \<le> fx (qa_max_x a)
     \<and> fx (qa_min_z a) \<le> fx (vec_z p) \<and> fx (vec_z p) \<le> fx (qa_max_z a)"

lemma fx_axis_distance:
  "fx (axis_distance mn mx c) = clamp_i64 (if fx c < fx mn then fx mn - fx c else if fx c > fx mx then fx c - fx mx else 0)"
  by (simp add: axis_distance_def fixed_less_int sint_sub sint_raw_extremes clamp_i64_def i64_MIN_def i64_MAX_def)

lemma box_distance: "in_box a p \<Longrightarrow> distance_squared_to_point a (vec_x c) (vec_z c) \<le> Vec3Fix_distance_squared p c"
proof -
  assume b: "in_box a p"
  let ?x = "axis_sq (vec_x p) (vec_x c)" and ?y = "axis_sq (vec_y p) (vec_y c)" and ?z = "axis_sq (vec_z p) (vec_z c)"
  have "?x \<le> sat_sum ?x ?y"
    using sat_sum_ge [OF axis_sq_nonneg axis_sq_nonneg] by (simp add: axis_sq_def sq_raw_max)
  moreover have "sq_raw (fx (axis_distance (qa_min_x a) (qa_max_x a) (vec_x c))) \<le> ?x"
    unfolding fx_axis_distance by (rule axis_box) (use b in \<open>simp_all add: in_box_def\<close>)
  moreover have "sq_raw (fx (axis_distance (qa_min_z a) (qa_max_z a) (vec_z c))) \<le> ?z"
    unfolding fx_axis_distance by (rule axis_box) (use b in \<open>simp_all add: in_box_def\<close>)
  ultimately have "sat_sum (sq_raw (fx (axis_distance (qa_min_x a) (qa_max_x a) (vec_x c)))) (sq_raw (fx (axis_distance (qa_min_z a) (qa_max_z a) (vec_z c))))
      \<le> sat_sum (sat_sum ?x ?y) ?z" by (intro sat_sum_mono) simp_all
  then show ?thesis
    by (simp add: fixed_le_int distance_sum distance_squared_to_point_def Let_def sint_add sint_square sat_sum_def)
qed

lemma box_pruned: "in_box a p \<Longrightarrow> \<not> intersects_circle a (vec_x c) (vec_z c) r \<Longrightarrow> \<not> Vec3Fix_distance_squared p c \<le> r"
  using box_distance [of a p c] by (auto simp: intersects_circle_def)

section \<open>The boxes of a cell\<close>

text \<open>Cells whose far edge is still an \<open>i32\<close>.\<close>

definition inner_cell :: "CellCoord \<Rightarrow> bool" where
  "inner_cell c \<longleftrightarrow> sint (cc_x c) < 2 ^ 25 - 1 \<and> sint (cc_z c) < 2 ^ 25 - 1"

lemma sint_add_int: "- (2 ^ 31) \<le> sint (a :: i32) + k \<Longrightarrow> sint a + k < 2 ^ 31 \<Longrightarrow> sint (a + word_of_int k) = sint a + k"
proof -
  assume b: "- (2 ^ 31) \<le> sint a + k" "sint a + k < 2 ^ 31"
  have "a + word_of_int k = word_of_int (sint a + k)" by simp
  moreover have "sint (word_of_int (sint a + k) :: i32) = sint a + k" using b by (intro sint_of_int_range) simp_all
  ultimately show ?thesis by simp
qed

text \<open>One axis: the base of the cell, the offset in it, the leaf.\<close>

lemma cell_axis:
  fixes c t :: i32
  assumes c: "sint c = sint t div 64"
  shows "sint (c * GRID_CELL_HORIZONTAL_SIZE) = 64 * (sint t div 64)" "leaf_axis (t - c * GRID_CELL_HORIZONTAL_SIZE) = nat (sint t mod 64 div 16)"
proof -
  have b: "- (2 ^ 31) \<le> sint t" "sint t < 2 ^ 31" using sint_ge [of t] sint_lt [of t] by simp_all
  have "word_of_int (sint c) = c" by simp
  then have e: "c * GRID_CELL_HORIZONTAL_SIZE = word_of_int (sint t div 64 * 64)" unfolding c by (simp add: GRID_CELL_HORIZONTAL_SIZE_def)
  have r: "- (2 ^ 31) \<le> sint t div 64 * 64" "sint t div 64 * 64 < 2 ^ 31" using b by simp_all
  show base: "sint (c * GRID_CELL_HORIZONTAL_SIZE) = 64 * (sint t div 64)"
    unfolding e by (subst sint_of_int_range) (use r in simp_all)
  have "t - c * GRID_CELL_HORIZONTAL_SIZE = word_of_int (sint t - sint (c * GRID_CELL_HORIZONTAL_SIZE))" by simp
  moreover have "sint t - sint (c * GRID_CELL_HORIZONTAL_SIZE) = sint t mod 64" unfolding base by (simp add: minus_mult_div_eq_mod)
  moreover have "sint (word_of_int (sint t mod 64) :: i32) = sint t mod 64"
    by (intro sint_of_int_range) (use pos_mod_bound [of 64 "sint t"] pos_mod_sign [of 64 "sint t"] in simp_all)
  ultimately have l: "sint (t - c * GRID_CELL_HORIZONTAL_SIZE) = sint t mod 64" by metis
  have m: "0 \<le> sint t mod 64" "sint t mod 64 < 64" by simp_all
  then have "sint t mod 64 sdiv 16 = sint t mod 64 div 16"
    by (cases "sint t mod 64 = 0") (simp_all add: signed_divide_int_def)
  moreover have "0 \<le> sint t mod 64 div 16" "sint t mod 64 div 16 \<le> 3" using m by simp_all
  ultimately show "leaf_axis (t - c * GRID_CELL_HORIZONTAL_SIZE) = nat (sint t mod 64 div 16)"
    by (simp add: leaf_axis_def l MICRO_QUADRANT_SIZE_def)
qed

lemma axis_in_box:
  fixes t :: i32
  assumes base: "sint b = 64 * (sint t div 64)" and inner: "sint t div 64 < 2 ^ 25 - 1" and v: "fx p div 2 ^ 32 = sint t"
    and k: "0 \<le> k" "k \<le> sint t mod 64" "sint t mod 64 < k + w" "k + w \<le> 64"
  shows "fx (Fixed64_from_i32 (b + word_of_int k)) \<le> fx p" "fx p \<le> fx (Fixed64_from_i32 (b + word_of_int (k + w)))"
proof -
  have t: "- (2 ^ 31) \<le> sint t" using sint_ge [of t] by simp
  have d: "sint t = 64 * (sint t div 64) + sint t mod 64" by simp
  have lo: "- (2 ^ 31) \<le> sint b" using t unfolding base by simp
  have "sint b + k < 2 ^ 31" "sint b + (k + w) < 2 ^ 31" using inner k unfolding base by simp_all
  then have s: "sint (b + word_of_int k) = sint b + k" "sint (b + word_of_int (k + w)) = sint b + (k + w)"
    using lo k by (intro sint_add_int; simp)+
  have "(sint b + k) * 2 ^ 32 \<le> fx p"
  proof -
    have "sint b + k \<le> fx p div 2 ^ 32" using k(2) d unfolding base v by linarith
    then have "(sint b + k) * 2 ^ 32 \<le> (fx p div 2 ^ 32) * 2 ^ 32" by simp
    moreover have "fx p = (fx p div 2 ^ 32) * 2 ^ 32 + fx p mod 2 ^ 32" by simp
    moreover have "0 \<le> fx p mod 2 ^ 32" by simp
    ultimately show ?thesis by linarith
  qed
  moreover have "fx p \<le> (sint b + (k + w)) * 2 ^ 32"
  proof -
    have "fx p div 2 ^ 32 + 1 \<le> sint b + (k + w)" using k(3) d unfolding base v by linarith
    then have "(fx p div 2 ^ 32 + 1) * 2 ^ 32 \<le> (sint b + (k + w)) * 2 ^ 32" by simp
    moreover have "fx p = (fx p div 2 ^ 32) * 2 ^ 32 + fx p mod 2 ^ 32" by simp
    moreover have "fx p mod 2 ^ 32 < 2 ^ 32" by simp
    moreover have "(fx p div 2 ^ 32 + 1) * 2 ^ 32 = (fx p div 2 ^ 32) * 2 ^ 32 + 2 ^ 32" by (simp add: algebra_simps)
    ultimately show ?thesis by linarith
  qed
  ultimately show "fx (Fixed64_from_i32 (b + word_of_int k)) \<le> fx p" "fx p \<le> fx (Fixed64_from_i32 (b + word_of_int (k + w)))"
    unfolding sint_from_i32 s by blast+
qed

lemma upto_four: "[0..<4] = [0, 1, 2, 3 :: nat]"
  by (simp add: upt_conv_Cons)

lemma less_four: "(i :: nat) < 4 \<longleftrightarrow> i = 0 \<or> i = 1 \<or> i = 2 \<or> i = 3"
  by auto

lemma leaf_box:
  assumes "ix < 4" "iz < 4"
  shows "leaf_aabbs_of bx bz ! (iz * 4 + ix) =
    aabb_at (bx + word_of_int (16 * int ix)) (bx + word_of_int (16 * int ix + 16)) (bz + word_of_int (16 * int iz)) (bz + word_of_int (16 * int iz + 16))"
  using assms unfolding less_four
  by (elim disjE) (simp_all add: leaf_aabbs_of_def upto_four Let_def add.commute)

lemma quadrant_box:
  assumes "ix < 4" "iz < 4"
  shows "quadrant_aabbs_of bx bz ! leaf_to_quadrant (iz * 4 + ix) =
    aabb_at (bx + word_of_int (32 * (int ix div 2))) (bx + word_of_int (32 * (int ix div 2) + 32))
      (bz + word_of_int (32 * (int iz div 2))) (bz + word_of_int (32 * (int iz div 2) + 32))"
  using assms unfolding less_four
  by (elim disjE) (simp_all add: quadrant_aabbs_of_def leaf_to_quadrant_def Let_def add.commute)

lemma leaf_quadrant:
  "i < 16 \<Longrightarrow> q < 4 \<Longrightarrow> i \<in> set (quadrant_to_leaves q) \<longleftrightarrow> leaf_to_quadrant i = q"
proof -
  assume "i < 16" "q < 4"
  then have "i = (i div 4) * 4 + i mod 4" "i mod 4 < 4" "i div 4 < 4" by simp_all
  then obtain ix iz where i: "i = iz * 4 + ix" "ix < 4" "iz < 4" by blast
  show ?thesis using \<open>q < 4\<close> i(2,3) unfolding i(1) less_four
    by (elim disjE) (simp_all add: quadrant_to_leaves_def leaf_to_quadrant_def Let_def)
qed

lemma leaf_to_quadrant_bound: "leaf_to_quadrant i < 4"
  by (simp add: leaf_to_quadrant_def Let_def)

lemma position_in_boxes:
  assumes shape: "cell_shape h" and cell: "CellCoord_from_position p = hc_cell h" and inner: "inner_cell (hc_cell h)"
  shows "in_box (hc_leaf_aabbs h ! compute_leaf_index h p) p"
    "in_box (hc_quadrant_aabbs h ! leaf_to_quadrant (compute_leaf_index h p)) p"
proof -
  let ?x = "Fixed64_to_i32 (vec_x p)" and ?z = "Fixed64_to_i32 (vec_z p)"
  let ?bx = "cc_x (hc_cell h) * GRID_CELL_HORIZONTAL_SIZE" and ?bz = "cc_z (hc_cell h) * GRID_CELL_HORIZONTAL_SIZE"
  have d38: "fx a div 2 ^ 38 = fx a div 2 ^ 32 div 64" for a by (simp add: zdiv_zmult2_eq [symmetric])
  have c: "sint (cc_x (hc_cell h)) = sint ?x div 64" "sint (cc_z (hc_cell h)) = sint ?z div 64"
    unfolding cell [symmetric] sint_cells sint_to_i32 d38 by (rule refl)+
  note X = cell_axis [OF c(1)] and Z = cell_axis [OF c(2)]
  let ?ix = "nat (sint ?x mod 64 div 16)" and ?iz = "nat (sint ?z mod 64 div 16)"
  have li: "compute_leaf_index h p = ?iz * 4 + ?ix"
    unfolding compute_leaf_index_def Let_def X(2) Z(2) ..
  have m: "0 \<le> sint ?x mod 64" "sint ?x mod 64 < 64" "0 \<le> sint ?z mod 64" "sint ?z mod 64 < 64" by simp_all
  have ii: "?ix < 4" "?iz < 4" using m by (simp_all add: nat_less_iff div_less_iff_less_mult)
  have ints: "int ?ix = sint ?x mod 64 div 16" "int ?iz = sint ?z mod 64 div 16" using m by simp_all
  have bnd: "sint ?x div 64 < 2 ^ 25 - 1" "sint ?z div 64 < 2 ^ 25 - 1" using inner c by (simp_all add: inner_cell_def)
  have v: "fx (vec_x p) div 2 ^ 32 = sint ?x" "fx (vec_z p) div 2 ^ 32 = sint ?z" by (simp_all only: sint_to_i32)
  have arith: "0 \<le> 16 * (a div 16) \<and> 16 * (a div 16) \<le> a \<and> a < 16 * (a div 16) + 16 \<and> 16 * (a div 16) + 16 \<le> 64
      \<and> 0 \<le> 32 * (a div 16 div 2) \<and> 32 * (a div 16 div 2) \<le> a \<and> a < 32 * (a div 16 div 2) + 32 \<and> 32 * (a div 16 div 2) + 32 \<le> 64"
    if "0 \<le> a" "a < 64" for a :: int
  proof -
    have "a = 16 * (a div 16) + a mod 16" "0 \<le> a mod 16" "a mod 16 < 16" "0 \<le> a div 16" "a div 16 \<le> 3"
      "a div 16 = 2 * (a div 16 div 2) + a div 16 mod 2" "0 \<le> a div 16 mod 2" "a div 16 mod 2 \<le> 1" "0 \<le> a div 16 div 2" "a div 16 div 2 \<le> 1"
      using that by simp_all
    then show ?thesis by linarith
  qed
  obtain a b where ab: "a = sint ?x mod 64" "b = sint ?z mod 64" by blast
  note ax = arith [OF m(1,2), folded ab] and az = arith [OF m(3,4), folded ab]
  have BX: "fx (Fixed64_from_i32 (?bx + word_of_int k)) \<le> fx (vec_x p) \<and> fx (vec_x p) \<le> fx (Fixed64_from_i32 (?bx + word_of_int (k + w)))"
    if "0 \<le> k" "k \<le> a" "a < k + w" "k + w \<le> 64" for k w
    using axis_in_box [OF X(1) bnd(1) v(1) that(1) that(2,3)[unfolded ab] that(4)] by blast
  have BZ: "fx (Fixed64_from_i32 (?bz + word_of_int k)) \<le> fx (vec_z p) \<and> fx (vec_z p) \<le> fx (Fixed64_from_i32 (?bz + word_of_int (k + w)))"
    if "0 \<le> k" "k \<le> b" "b < k + w" "k + w \<le> 64" for k w
    using axis_in_box [OF Z(1) bnd(2) v(2) that(1) that(2,3)[unfolded ab] that(4)] by blast
  have L: "in_box (leaf_aabbs_of ?bx ?bz ! (?iz * 4 + ?ix)) p"
    unfolding leaf_box [OF ii] ints unfolding in_box_def aabb_at_def QuadtreeAabb.simps ab [symmetric]
    using BX [of "16 * (a div 16)" 16] BZ [of "16 * (b div 16)" 16] ax az by simp
  have Q: "in_box (quadrant_aabbs_of ?bx ?bz ! leaf_to_quadrant (?iz * 4 + ?ix)) p"
    unfolding quadrant_box [OF ii] ints unfolding in_box_def aabb_at_def QuadtreeAabb.simps ab [symmetric]
    using BX [of "32 * (a div 16 div 2)" 32] BZ [of "32 * (b div 16 div 2)" 32] ax az by simp
  show "in_box (hc_leaf_aabbs h ! compute_leaf_index h p) p" using L shape li by (simp add: cell_shape_def)
  show "in_box (hc_quadrant_aabbs h ! leaf_to_quadrant (compute_leaf_index h p)) p" using Q shape li by (simp add: cell_shape_def)
qed

section \<open>The pruned query is the full scan\<close>

definition near :: "HotspotManager \<Rightarrow> Vec3Fix \<Rightarrow> Fixed64 \<Rightarrow> u32 \<Rightarrow> bool" where
  "near m center radius_sq e \<longleftrightarrow> Vec3Fix_distance_squared (hm_entity_positions m ! unat e) center \<le> radius_sq"

lemma fold_test: "fold (test_entity m c r) ids out = emit_all (filter (near m c r) ids) out"
  by (induction ids arbitrary: out) (simp_all add: test_entity_def near_def emit_all_def)

definition leaf_list :: "HotspotManager \<Rightarrow> nat \<Rightarrow> nat \<Rightarrow> u32 list" where
  "leaf_list m h i = the (walk (lk_next (hm_links m)) (hc_leaf_heads (hm_hotspot_cells m ! h) ! i))"

lemma leaf_list_owner:
  assumes "lists_ok m owner" and "h < hm_active_hotspots_count m" "i < 16"
  shows "walk (lk_next (hm_links m)) (hc_leaf_heads (hm_hotspot_cells m ! h) ! i) = Some (leaf_list m h i)"
    "set (leaf_list m h i) = {e. owner e = Some (h, Some i)}" "distinct (leaf_list m h i)"
proof -
  obtain ids where "walk (lk_next (hm_links m)) (list_head m (h, Some i)) = Some ids" "distinct ids" "set ids = {e. owner e = Some (h, Some i)}"
    using index_walk [OF lists_okD(2) [OF assms(1,2)], of "(h, Some i)"] assms by auto
  then show "walk (lk_next (hm_links m)) (hc_leaf_heads (hm_hotspot_cells m ! h) ! i) = Some (leaf_list m h i)"
    "set (leaf_list m h i) = {e. owner e = Some (h, Some i)}" "distinct (leaf_list m h i)"
    by (simp_all add: leaf_list_def list_head_in head_in_def)
qed

definition leaf_matches :: "HotspotManager \<Rightarrow> nat \<Rightarrow> Vec3Fix \<Rightarrow> Fixed64 \<Rightarrow> nat list \<Rightarrow> u32 list" where
  "leaf_matches m h c r is = concat (map (\<lambda>i. filter (near m c r) (leaf_list m h i)) is)"

definition prunable :: "HotspotManager \<Rightarrow> nat \<Rightarrow> bool" where
  "prunable m h \<longleftrightarrow> hm_inv m \<and> h < hm_active_hotspots_count m \<and> hc_is_split (hm_hotspot_cells m ! h)
     \<and> inner_cell (hc_cell (hm_hotspot_cells m ! h))"

lemma prunableD:
  assumes "prunable m h"
  shows "hm_inv m" "h < hm_active_hotspots_count m" "hc_is_split (hm_hotspot_cells m ! h)" "inner_cell (hc_cell (hm_hotspot_cells m ! h))"
  using assms by (simp_all add: prunable_def)

lemma leaf_member:
  assumes P: "prunable m h" and "e \<in> set (leaf_list m h i)" "i < 16"
  shows "in_box (hc_leaf_aabbs (hm_hotspot_cells m ! h) ! i) (hm_entity_positions m ! unat e)"
    "in_box (hc_quadrant_aabbs (hm_hotspot_cells m ! h) ! leaf_to_quadrant i) (hm_entity_positions m ! unat e)"
proof -
  note inv = prunableD(1) [OF P] and h = prunableD(2) [OF P] and split = prunableD(3) [OF P] and inner = prunableD(4) [OF P]
  note L = hm_invD(1) [OF inv]
  have o: "slot_owner m e = Some (h, Some i)" using assms leaf_list_owner(2) [OF L h] by simp
  have E: "entity_ok m e" by (rule hm_invD(2) [OF inv]) (simp add: o)
  have k: "unat (hm_entity_hotspot_id m ! unat e) - 1 = h" "unat (hm_entity_leaf_idx m ! unat e) = i"
    using o by (auto simp: slot_owner_def Let_def split: if_splits)
  have cell: "CellCoord_from_position (hm_entity_positions m ! unat e) = hc_cell (hm_hotspot_cells m ! h)"
    and i: "compute_leaf_index (hm_hotspot_cells m ! h) (hm_entity_positions m ! unat e) = i"
    using E split k by (simp_all add: entity_ok_def Let_def)
  show "in_box (hc_leaf_aabbs (hm_hotspot_cells m ! h) ! i) (hm_entity_positions m ! unat e)"
    "in_box (hc_quadrant_aabbs (hm_hotspot_cells m ! h) ! leaf_to_quadrant i) (hm_entity_positions m ! unat e)"
    using position_in_boxes [OF lists_okD(4) [OF L h] cell inner] unfolding i by blast+
qed

lemma query_leaves_eq:
  "prunable m h \<Longrightarrow> \<forall>i\<in>set is. i < 16 \<Longrightarrow> query_leaves m (hm_hotspot_cells m ! h) c r is out = Some (emit_all (leaf_matches m h c r is) out)"
proof (induction "is" arbitrary: out)
  case Nil
  then show ?case by (simp add: leaf_matches_def)
next
  case (Cons i "is")
  note P = Cons.prems(1)
  note L = hm_invD(1) [OF prunableD(1) [OF P]] and h = prunableD(2) [OF P]
  have i: "i < 16" using Cons.prems by simp
  note W = leaf_list_owner [OF L h i]
  have IH: "query_leaves m (hm_hotspot_cells m ! h) c r is out = Some (emit_all (leaf_matches m h c r is) out)" for out
    using Cons by simp
  have cons: "leaf_matches m h c r (i # is) = filter (near m c r) (leaf_list m h i) @ leaf_matches m h c r is" by (simp add: leaf_matches_def)
  show ?case
  proof (cases "hc_leaf_counts (hm_hotspot_cells m ! h) ! i = 0
         \<or> \<not> intersects_circle (hc_leaf_aabbs (hm_hotspot_cells m ! h) ! i) (vec_x c) (vec_z c) r")
    case True
    have "filter (near m c r) (leaf_list m h i) = []"
    proof (rule filter_False, rule ballI)
      fix e assume e: "e \<in> set (leaf_list m h i)"
      have o: "slot_owner m e = Some (h, Some i)" using e W(2) by simp
      have "hc_leaf_counts (hm_hotspot_cells m ! h) ! i \<noteq> 0"
      proof -
        have "slot_owner m TERMINAL_INDEX \<noteq> Some (h, Some i)" using index_member(1) [OF lists_okD(2) [OF L h]] by blast
        then have "list_size (slot_owner m) (h, Some i) < 2 ^ 32" using list_size_bound [of "slot_owner m" "(h, Some i)"] by blast
        then show ?thesis using list_size_pos [where owner = "slot_owner m", OF o] unfolding lists_okD(7) [OF L h i] by (simp add: word_unat_eq_iff unat_of_nat)
      qed
      then show "\<not> near m c r e" using True box_pruned [OF leaf_member(1) [OF P e i]] by (simp add: near_def)
    qed
    then show ?thesis using True IH cons by simp
  next
    case False
    then show ?thesis using IH cons W(1) by (simp add: query_list_def fold_test)
  qed
qed

lemma query_quadrants_eq:
  "prunable m h \<Longrightarrow> \<forall>q\<in>set qs. q < 4 \<Longrightarrow> query_quadrants m (hm_hotspot_cells m ! h) c r qs out
    = Some (emit_all (leaf_matches m h c r (concat (map quadrant_to_leaves qs))) out)"
proof (induction qs arbitrary: out)
  case Nil
  then show ?case by (simp add: leaf_matches_def)
next
  case (Cons q qs)
  note P = Cons.prems(1)
  have q: "q < 4" using Cons.prems by simp
  have leaves: "\<forall>i\<in>set (quadrant_to_leaves q). i < 16" by (simp add: quadrant_to_leaves_def)
  have IH: "query_quadrants m (hm_hotspot_cells m ! h) c r qs out = Some (emit_all (leaf_matches m h c r (concat (map quadrant_to_leaves qs))) out)" for out
    using Cons by simp
  have app: "leaf_matches m h c r (concat (map quadrant_to_leaves (q # qs)))
      = leaf_matches m h c r (quadrant_to_leaves q) @ leaf_matches m h c r (concat (map quadrant_to_leaves qs))" by (simp add: leaf_matches_def)
  show ?case
  proof (cases "intersects_circle (hc_quadrant_aabbs (hm_hotspot_cells m ! h) ! q) (vec_x c) (vec_z c) r")
    case True
    then show ?thesis using IH query_leaves_eq [OF P leaves] unfolding app by simp
  next
    case False
    have "filter (near m c r) (leaf_list m h i) = []" if "i \<in> set (quadrant_to_leaves q)" for i
    proof (rule filter_False, rule ballI)
      fix e assume e: "e \<in> set (leaf_list m h i)"
      have i: "i < 16" "leaf_to_quadrant i = q" using that leaves leaf_quadrant [of i q] q by auto
      show "\<not> near m c r e" using box_pruned [OF leaf_member(2) [OF P e i(1)]] False i(2) by (simp add: near_def)
    qed
    then have "leaf_matches m h c r (quadrant_to_leaves q) = []" by (simp add: leaf_matches_def)
    then show ?thesis using False IH unfolding app by simp
  qed
qed

text \<open>The entities of a cell that a query has to report.\<close>

definition cell_matches :: "HotspotManager \<Rightarrow> CellCoord \<Rightarrow> Vec3Fix \<Rightarrow> Fixed64 \<Rightarrow> u32 set" where
  "cell_matches m cell center radius_sq =
     {e. \<exists>p. tracked m e = Some p \<and> CellCoord_from_position p = cell \<and> Vec3Fix_distance_squared p center \<le> radius_sq}"

lemma cell_matches_owner:
  assumes inv: "hm_inv m" and h: "h < hm_active_hotspots_count m"
  shows "cell_matches m (hc_cell (hm_hotspot_cells m ! h)) c r = {e. (\<exists>s. slot_owner m e = Some (h, s)) \<and> near m c r e}"
proof (rule set_eqI)
  fix e
  show "e \<in> cell_matches m (hc_cell (hm_hotspot_cells m ! h)) c r \<longleftrightarrow> e \<in> {e. (\<exists>s. slot_owner m e = Some (h, s)) \<and> near m c r e}"
  proof (cases "slot_owner m e")
    case None
    then show ?thesis using tracked_owner [of m e] by (simp add: cell_matches_def)
  next
    case (Some k)
    have E: "entity_ok m e" by (rule hm_invD(2) [OF inv]) (simp add: Some)
    let ?h = "unat (hm_entity_hotspot_id m ! unat e) - 1"
    have k: "fst k = ?h" and t: "tracked m e = Some (hm_entity_positions m ! unat e)"
      using Some by (auto simp: slot_owner_def tracked_def Let_def split: if_splits)
    have hh: "?h < hm_active_hotspots_count m" "hc_cell (hm_hotspot_cells m ! ?h) = CellCoord_from_position (hm_entity_positions m ! unat e)"
      using E by (simp_all add: entity_ok_def Let_def)
    have "CellCoord_from_position (hm_entity_positions m ! unat e) = hc_cell (hm_hotspot_cells m ! h) \<longleftrightarrow> ?h = h"
      using hm_invD(4) [OF inv hh(1) h] hh(2) by auto
    then show ?thesis using Some k t by (cases k) (auto simp: cell_matches_def near_def)
  qed
qed

lemma query_cell_exact:
  assumes inv: "hm_inv m" and h: "h < hm_active_hotspots_count m" and inner: "inner_cell (hc_cell (hm_hotspot_cells m ! h))"
  shows "\<exists>ids. query_cell_hierarchical m h c r out = Some (emit_all ids out) \<and> distinct ids
    \<and> set ids = cell_matches m (hc_cell (hm_hotspot_cells m ! h)) c r"
proof (cases "hc_is_split (hm_hotspot_cells m ! h)")
  case False
  note L = hm_invD(1) [OF inv]
  obtain ids where ids: "walk (lk_next (hm_links m)) (hc_flat_head (hm_hotspot_cells m ! h)) = Some ids" "distinct ids" "set ids = {e. slot_owner m e = Some (h, None)}"
    using index_walk [OF lists_okD(2) [OF L h], of "(h, None)"] h by (auto simp: list_head_in head_in_def)
  have "set (filter (near m c r) ids) = cell_matches m (hc_cell (hm_hotspot_cells m ! h)) c r"
    unfolding cell_matches_owner [OF inv h] using ids(3) unsplit_owner [OF _ False] by auto
  then show ?thesis using False ids(1,2)
    by (intro exI [of _ "filter (near m c r) ids"]) (simp add: query_cell_hierarchical_def query_list_def fold_test Let_def)
next
  case True
  note L = hm_invD(1) [OF inv]
  let ?is = "concat (map quadrant_to_leaves [0..<4])"
  let ?ids = "leaf_matches m h c r ?is"
  have q: "query_cell_hierarchical m h c r out = Some (emit_all ?ids out)"
    using True query_quadrants_eq [of m h "[0..<4]" c r] inv h inner by (simp add: query_cell_hierarchical_def prunable_def Let_def)
  have iset: "set ?is = {0..<16}" "distinct ?is" by (simp_all add: upto_four quadrant_to_leaves_def atLeast0_lessThan_Suc eval_nat_numeral insert_commute)
  have disj: "set (leaf_list m h i) \<inter> set (leaf_list m h j) = {}" if "i < 16" "j < 16" "i \<noteq> j" for i j
    using leaf_list_owner(2) [OF L h that(1)] leaf_list_owner(2) [OF L h that(2)] that(3) by auto
  have dist: "distinct (leaf_matches m h c r is)" if "distinct is" "\<forall>i\<in>set is. i < 16" for "is"
    using that
  proof (induction "is")
    case (Cons i "is")
    have "distinct (leaf_list m h i)" using leaf_list_owner(3) [OF L h] Cons.prems by simp
    moreover have "set (leaf_list m h i) \<inter> set (leaf_list m h j) = {}" if "j \<in> set is" for j
      by (rule disj) (use Cons.prems that in auto)
    ultimately show ?case using Cons by (auto simp: leaf_matches_def)
  qed (simp add: leaf_matches_def)
  have "set ?ids = {e. (\<exists>i<16. slot_owner m e = Some (h, Some i)) \<and> near m c r e}"
    using leaf_list_owner(2) [OF L h] iset(1) by (auto simp: leaf_matches_def)
  moreover have "(\<exists>s. slot_owner m e = Some (h, s)) \<longleftrightarrow> (\<exists>i<16. slot_owner m e = Some (h, Some i))" for e
  proof
    assume "\<exists>s. slot_owner m e = Some (h, s)"
    then obtain s where o: "slot_owner m e = Some (h, s)" by blast
    obtain i where "s = Some i" using o True by (auto simp: slot_owner_def Let_def split: if_splits)
    moreover have "(h, s) \<in> slots_of (hm_active_hotspots_count m)" by (rule index_owner [OF lists_okD(2) [OF L h] o])
    ultimately show "\<exists>i<16. slot_owner m e = Some (h, Some i)" using o by auto
  qed auto
  ultimately have "set ?ids = cell_matches m (hc_cell (hm_hotspot_cells m ! h)) c r" unfolding cell_matches_owner [OF inv h] by simp
  moreover have "\<forall>i\<in>set ?is. i < 16" unfolding iset(1) by simp
  ultimately show ?thesis using q dist [OF iset(2)] by blast
qed

section \<open>The query over all cells\<close>

lemma query_hotspots_exact:
  assumes inv: "hm_inv m" and "\<forall>h\<in>set hs. h < hm_active_hotspots_count m \<and> inner_cell (hc_cell (hm_hotspot_cells m ! h))" and "distinct hs"
  shows "\<exists>ids. query_hotspots m c r hs out = Some (emit_all ids out) \<and> distinct ids
    \<and> set ids = (\<Union>h\<in>set hs. cell_matches m (hc_cell (hm_hotspot_cells m ! h)) c r)"
  using assms(2,3)
proof (induction hs arbitrary: out)
  case Nil
  then show ?case by simp
next
  case (Cons h hs)
  let ?M = "\<lambda>h. cell_matches m (hc_cell (hm_hotspot_cells m ! h)) c r"
  have h: "h < hm_active_hotspots_count m" "inner_cell (hc_cell (hm_hotspot_cells m ! h))" using Cons.prems by simp_all
  obtain xs where xs: "query_cell_hierarchical m h c r out = Some (emit_all xs out)" "distinct xs" "set xs = ?M h"
    using query_cell_exact [OF inv h] by blast
  obtain ys where ys: "query_hotspots m c r hs (emit_all xs out) = Some (emit_all ys (emit_all xs out))" "distinct ys" "set ys = (\<Union>h\<in>set hs. ?M h)"
    using Cons.IH Cons.prems by fastforce
  have "set xs \<inter> set ys = {}"
  proof -
    have "?M h \<inter> ?M j = {}" if "j \<in> set hs" for j
    proof -
      have "j < hm_active_hotspots_count m" "j \<noteq> h" using Cons.prems that by auto
      then have "hc_cell (hm_hotspot_cells m ! h) \<noteq> hc_cell (hm_hotspot_cells m ! j)" using hm_invD(4) [OF inv h(1), of j] by auto
      then show ?thesis by (auto simp: cell_matches_def)
    qed
    then show ?thesis unfolding xs(3) ys(3) by blast
  qed
  then show ?case using xs ys by (intro exI [of _ "xs @ ys"]) simp
qed

lemma tracked_cell:
  assumes inv: "hm_inv m" and t: "tracked m e = Some p"
  shows "\<exists>h<hm_active_hotspots_count m. hc_cell (hm_hotspot_cells m ! h) = CellCoord_from_position p"
proof -
  have "slot_owner m e \<noteq> None" using t tracked_owner [of m e] by simp
  then have "entity_ok m e" by (rule hm_invD(2) [OF inv])
  moreover have "p = hm_entity_positions m ! unat e" using t by (simp add: tracked_def split: if_splits)
  ultimately show ?thesis by (auto simp: entity_ok_def Let_def)
qed

lemma cell_occupied:
  assumes ok: "hm_ok m" and h: "h < hm_active_hotspots_count m"
  shows "\<exists>e p. tracked m e = Some p \<and> CellCoord_from_position p = hc_cell (hm_hotspot_cells m ! h)"
proof -
  have inv: "hm_inv m" using ok by (simp add: hm_ok_def)
  have "cell_count (slot_owner m) h \<noteq> 0" using ok h hm_invD(3) [OF inv h] by (auto simp: hm_ok_def)
  then obtain e s where o: "slot_owner m e = Some (h, s)" unfolding card_none by blast
  have E: "entity_ok m e" by (rule hm_invD(2) [OF inv]) (simp add: o)
  have "unat (hm_entity_hotspot_id m ! unat e) - 1 = h" "tracked m e = Some (hm_entity_positions m ! unat e)"
    using o by (auto simp: slot_owner_def tracked_def Let_def split: if_splits)
  then show ?thesis using E by (auto simp: entity_ok_def Let_def)
qed

text \<open>
  C26. After any run of operations the radius query of the hotspot manager, with all its pruning of
  quadrants and leaves by the distance to their boxes, reports every tracked entity within the
  radius exactly once and no other, in saturating fixed-point arithmetic; the buffer gets as many of
  them as fit and the counts say so. The cells must lie inside the range of coordinates whose far
  edge is still an \<open>i32\<close>.
\<close>

theorem hotspot_query_exact:
  assumes limits: "max_entities < 2 ^ 32" "max_hotspots < 2 ^ 16 - 1"
    and run: "hotspot_run ops (HotspotManager_new max_entities max_hotspots) = Some (m, rs)"
    and inner: "\<And>e p. tracked m e = Some p \<Longrightarrow> inner_cell (CellCoord_from_position p)"
  shows "\<exists>ids. hotspot_query_radius m center radius_sq buffer = Some (query_answer ids buffer) \<and> distinct ids
    \<and> set ids = {e. \<exists>p. tracked m e = Some p \<and> Vec3Fix_distance_squared p center \<le> radius_sq}"
proof -
  have ok: "hm_ok m" using hotspot_run_ok [OF HotspotManager_new_ok(1) [OF limits], of ops] run by auto
  then have inv: "hm_inv m" by (simp add: hm_ok_def)
  have cells: "inner_cell (hc_cell (hm_hotspot_cells m ! h))" if "h < hm_active_hotspots_count m" for h
    using cell_occupied [OF ok that] inner by metis
  obtain ids where ids: "query_hotspots m center radius_sq [0..<hm_active_hotspots_count m] (buffer, 0) = Some (emit_all ids (buffer, 0))" "distinct ids"
      "set ids = (\<Union>h\<in>set [0..<hm_active_hotspots_count m]. cell_matches m (hc_cell (hm_hotspot_cells m ! h)) center radius_sq)"
    using query_hotspots_exact [OF inv, of "[0..<hm_active_hotspots_count m]" center radius_sq "(buffer, 0)"] cells by auto
  have "set ids = {e. \<exists>p. tracked m e = Some p \<and> Vec3Fix_distance_squared p center \<le> radius_sq}"
    unfolding ids(3) using tracked_cell [OF inv] by (fastforce simp: cell_matches_def)
  then show ?thesis using ids(1,2) by (auto simp: hotspot_query_radius_def finish_emit)
qed

theorem hotspot_query_exact_witness:
  "\<exists>m ids. hotspot_run [HotspotInsert 1 Vec3Fix_ZERO] (HotspotManager_new 4 2) = Some (m, [Inr ()])
    \<and> hotspot_query_radius m Vec3Fix_ZERO Fixed64_ONE [0, 0] = Some (query_answer ids [0, 0]) \<and> set ids = {1}"
proof -
  obtain m where m: "hotspot_insert 1 Vec3Fix_ZERO (HotspotManager_new 4 2) = Some (m, Inr ())" "tracked m = [1 \<mapsto> Vec3Fix_ZERO]"
    using hotspot_insert_first [of 4 2 1 Vec3Fix_ZERO] by auto
  have run: "hotspot_run [HotspotInsert 1 Vec3Fix_ZERO] (HotspotManager_new 4 2) = Some (m, [Inr ()])"
    using m(1) by (simp add: hotspot_step_def)
  have in0: "inner_cell (CellCoord_from_position Vec3Fix_ZERO)" by (simp add: inner_cell_def sint_cells Vec3Fix_ZERO_def Fixed64_ZERO_def)
  have d0: "Vec3Fix_distance_squared Vec3Fix_ZERO Vec3Fix_ZERO \<le> Fixed64_ONE" by code_simp
  have "\<exists>ids. hotspot_query_radius m Vec3Fix_ZERO Fixed64_ONE [0, 0] = Some (query_answer ids [0, 0]) \<and> distinct ids
    \<and> set ids = {e. \<exists>p. tracked m e = Some p \<and> Vec3Fix_distance_squared p Vec3Fix_ZERO \<le> Fixed64_ONE}"
    by (rule hotspot_query_exact [OF _ _ run]) (use in0 in \<open>auto simp: m(2) split: if_splits\<close>)
  moreover have "{e. \<exists>p. tracked m e = Some p \<and> Vec3Fix_distance_squared p Vec3Fix_ZERO \<le> Fixed64_ONE} = {1}"
    using d0 by (auto simp: m(2) split: if_splits)
  ultimately show ?thesis using run by auto
qed

end
