(* ===== verification/Spec2Isabelle.thy ===== *)
theory Spec2Isabelle
  imports Prelude FixedPoint Morton Quantize Delta NetErrors Bitstream Queues Channel Crypto Auth Authority Market Locks WorldErrors Wal Journal DiskJournal QuorumJournal Items Accounts Transactions ItemGraph ItemTransfer Identity Structures Bvh Building Interior Rans Party MarketEscrow Simd LinkedLists Spatial Quadtree Hotspots Distances HotspotQuery
begin

text \<open>
  A model of the core logic of the Eidolon game server (crates eidolon-core, eidolon-net,
  eidolon-spatial and eidolon-world under src/crates) and the theorems that make it correct.

  \<^bold>\<open>The parts of the program and the theories that model them.\<close>

  Prelude holds what the components share: names of the machine integers, saturating casts, the
  result-state monad (a fallible method on a mutable receiver is a function from the state to the
  new state and a sum, whose left side is the error), byte-order conversions, bounded loops and
  slot-array counts.

  Arithmetic of positions: FixedPoint (eidolon-core/src/fixed.rs), Simd (simd.rs), Morton
  (morton.rs), Quantize (quant.rs) and Delta (delta.rs), the deterministic arithmetic that
  positions on the wire rest on. Simd is built on FixedPoint, Delta on Quantize.

  The network: NetErrors (eidolon-net/src/error.rs), Bitstream (bitstream.rs, the bit writer and
  reader, used by the batch formats of Delta and Quantize), Rans (rans.rs), Queues (queue.rs and
  backpressure.rs), Channel (channel.rs, sequence numbers, acknowledgements and retransmission),
  Crypto (crypto.rs) and Auth (auth.rs, the handshake, which calls Crypto, and the replay window).

  Authority over shared state: Authority (eidolon-core/src/authority.rs), Locks (lock.rs) and
  Identity (identity.rs); all three fence by generations.

  The economy: Market (market.rs), MarketEscrow (eidolon-world/src/market_coordinator.rs, which calls
  the book of Market), Items (item.rs, equipment.rs), Accounts and Transactions (transaction.rs,
  which calls Locks and Journal), ItemGraph (item_graph.rs) and ItemTransfer (item_transaction.rs,
  which moves items between the containers of ItemGraph).

  Durability: WorldErrors (error.rs), Wal (the record, its encoding and checksum; wal.rs,
  hibernation.rs), Journal (the ring of records and the flush to a sink; wal.rs), DiskJournal
  (durable_journal.rs) and QuorumJournal (replicated_journal.rs, which appends to several files of
  DiskJournal).

  The world: Structures (structure.rs), Bvh (eidolon-spatial/src/bvh.rs), Building
  (eidolon-world/src/building.rs, which calls both), Interior (interior.rs) and Party (party.rs and
  the party command of eidolon-server/src/facade.rs).

  Space: Spatial (cells and neighbourhoods; eidolon-spatial/src/grid.rs), LinkedLists (lists threaded
  through arrays), Distances (saturating distances), Quadtree (the operations of the hotspot manager;
  quadtree.rs), Hotspots (their invariant) and HotspotQuery (the pruned query).

  \<^bold>\<open>How state and operations correspond to the code.\<close>

  A struct is a record whose fields carry a short prefix before the source's names, an enum a
  datatype. A method on \<^verbatim>\<open>&mut self\<close> takes the record as its last argument and returns it with the
  result, on the error paths as the code leaves it. Machine integers are words; they wrap where the
  source's operators do in a release build and saturate where the source says so. A \<^verbatim>\<open>usize\<close> that
  counts or indexes elements of an in-memory array is a \<open>nat\<close>. Hash maps that are only looked up and
  updated are maps; where the code iterates over one it is an association list, and nothing is
  assumed of its order. Floating-point literals are exact rationals truncated as the cast does. A
  journal file is its bytes, the number of them that a sync has made durable and a schedule of faults
  for the calls to come.

  \<^bold>\<open>Interfaces.\<close> The locale codec (Bitstream) is the contract of a writer and its reader; every
  format of the bit stream is an interpretation. The locale fixed_message (Auth) is that of a message
  of fixed length, interpreted by the four messages of the handshake and the authority token. The
  locale priority_fifo (Queues) states what the three queues promise. The locale batch_sink (Journal)
  is what the write-ahead journal needs of its sink, interpreted by the storage of wal.rs. The disk
  journal is no instance of it: a batch that fails half way leaves records behind, which DiskJournal
  treats on its own.

  \<^bold>\<open>What the lemmas show.\<close> Each theory proves an invariant of its state, what each operation does
  on every branch, and from these its properties: refinement to a map or a list (Locks, ItemTransfer,
  Queues, Hotspots), conservation (Transactions, ItemTransfer, MarketEscrow, Market), price-time
  priority (Market), delivery in order (Channel), fencing (Authority, Locks, Identity, Transactions),
  recovery after a crash (Journal, DiskJournal, QuorumJournal), round trips (Morton, Quantize,
  Bitstream, Rans, Wal), error bounds (Delta), exactness of pruned searches (Bvh, HotspotQuery).
  Where the code breaks a promise in some state, the property names the condition and a lemma of the
  theory shows what happens without it, for instance \<open>torn_tail_hides_later_records\<close> (DiskJournal),
  \<open>recovery_counts_copies\<close> (QuorumJournal), \<open>empty_stack_becomes_an_item\<close> (Transactions),
  \<open>registered_id_is_issued_again\<close> (ItemTransfer), \<open>release_revives_fenced_token\<close> (Locks) and
  \<open>ack_of_nothing_retires_first\<close> (Channel).

  \<^bold>\<open>Loops.\<close> A loop over an array is a structural recursion or a function with a measure. A loop
  that may not end (the walks along links, the collapse of a building, the renormalisation of the
  entropy coder) is a partial function with \<open>None\<close> for not returning, and that it returns is part of
  the theorems. No fuel is used; the room of an output slice, which bounds the matching loop, is an
  argument of the model as it is of the code.

  \<^bold>\<open>Not modelled.\<close> The conversions from and to floating point; accessors that hand out a reference to
  a field; the promotion of a replica; sockets, io_uring and files beyond the bytes they hold; the
  frame loop of the server, which ties sockets, the clock and these components together; the client,
  the C interface and the metrics; and the gameplay modules of eidolon-world that rest on these
  components (chat, social, territory, instances, scripts, creatures). The unsynchronised bytes of a
  file are taken to reach the disk in order.
\<close>

end
